(* ===== verification/Prelude.thy ===== *)
theory Prelude
  imports Main "HOL-Library.Word" "HOL-Library.While_Combinator"
begin

text \<open>
  What every component of the kernel model shares: the widths of the machine integers, the
  outcome of a kernel routine (it returns, it stops the processor with \<open>hlt\<close>, or it never comes
  back), the sequencing of routines, and the facts on 64-bit words that the component proofs use
  (distances between addresses, page alignment).
\<close>

unbundle bit_operations_syntax

section \<open>Types\<close>

type_synonym u8 = "8 word"
type_synonym u16 = "16 word"
type_synonym u32 = "32 word"
type_synonym u64 = "64 word"

text \<open>
  A pointer is the 64-bit number the processor sees; \<open>nullptr\<close> is 0.
\<close>

type_synonym ptr = u64

text \<open>
  The result of a routine started in some state. \<open>Done x s\<close>: it returned \<open>x\<close> and left the state
  \<open>s\<close>. \<open>Halted s\<close>: it executed \<open>asm volatile("hlt")\<close> in the state \<open>s\<close>; the code uses \<open>hlt\<close> as
  its panic, and the model ends there. \<open>Loops\<close>: a loop of the routine never ends. \<open>Undefined\<close>: the
  C++ standard gives the run no meaning (a read outside an array, say).
\<close>

datatype ('a, 's) outcome = Done 'a 's | Halted 's | Loops | Undefined

primrec obind :: "('a, 's) outcome \<Rightarrow> ('a \<Rightarrow> 's \<Rightarrow> ('b, 's) outcome) \<Rightarrow> ('b, 's) outcome" where
  "obind (Done x s) f = f x s"
| "obind (Halted s) f = Halted s"
| "obind Loops f = Loops"
| "obind Undefined f = Undefined"

text \<open>A loop written with \<^theory_text>\<open>partial_function (option)\<close> has the value \<open>None\<close> when it never ends.\<close>

primrec of_loop :: "'a option \<Rightarrow> ('a \<Rightarrow> ('b, 's) outcome) \<Rightarrow> ('b, 's) outcome" where
  "of_loop None f = Loops"
| "of_loop (Some x) f = f x"

text \<open>A computation that undefined behaviour can cut short has the value \<open>None\<close> there.\<close>

primrec of_defined :: "'a option \<Rightarrow> ('a \<Rightarrow> ('b, 's) outcome) \<Rightarrow> ('b, 's) outcome" where
  "of_defined None f = Undefined"
| "of_defined (Some x) f = f x"

named_theorems outcome_dests "inversion of sequenced outcomes"

lemma obind_Done_iff [outcome_dests]:
  "obind m f = Done y t \<longleftrightarrow> (\<exists>x s. m = Done x s \<and> f x s = Done y t)"
  by (cases m) auto

lemma of_loop_Done_iff [outcome_dests]:
  "of_loop r f = Done y t \<longleftrightarrow> (\<exists>x. r = Some x \<and> f x = Done y t)"
  by (cases r) auto

lemma of_defined_Done_iff [outcome_dests]:
  "of_defined r f = Done y t \<longleftrightarrow> (\<exists>x. r = Some x \<and> f x = Done y t)"
  by (cases r) auto

lemma obind_assoc: "obind (obind m f) g = obind m (\<lambda>x s. obind (f x s) g)"
  by (cases m) auto

section \<open>Loops over a counter or a list\<close>

text \<open>
  \<open>for (k = k0; k < limit; k += step) body(k)\<close> on 64-bit counters; the counter may wrap around, and
  then the loop may never end.
\<close>

partial_function (option) range_loop ::
    "(u64 \<Rightarrow> 's \<Rightarrow> (unit, 's) outcome) \<Rightarrow> u64 \<Rightarrow> u64 \<Rightarrow> u64 \<Rightarrow> 's \<Rightarrow> (unit, 's) outcome option" where
  "range_loop body k limit step s =
     (if k < limit then
        (case body k s of
           Done u s' \<Rightarrow> range_loop body (k + step) limit step s'
         | Halted h \<Rightarrow> Some (Halted h)
         | Loops \<Rightarrow> Some Loops
         | Undefined \<Rightarrow> Some Undefined)
      else Some (Done () s))"

definition for_range ::
    "(u64 \<Rightarrow> 's \<Rightarrow> (unit, 's) outcome) \<Rightarrow> u64 \<Rightarrow> u64 \<Rightarrow> u64 \<Rightarrow> 's \<Rightarrow> (unit, 's) outcome" where
  "for_range body k limit step s =
     (case range_loop body k limit step s of None \<Rightarrow> Loops | Some r \<Rightarrow> r)"

fun for_each :: "('a \<Rightarrow> 's \<Rightarrow> (unit, 's) outcome) \<Rightarrow> 'a list \<Rightarrow> 's \<Rightarrow> (unit, 's) outcome" where
  "for_each body [] s = Done () s"
| "for_each body (x # xs) s = obind (body x s) (\<lambda>_ s. for_each body xs s)"

lemma for_range_step:
  "for_range body k limit step s =
     (if k < limit then obind (body k s) (\<lambda>_ s. for_range body (k + step) limit step s)
      else Done () s)"
  unfolding for_range_def by (subst range_loop.simps) (auto split: outcome.splits)

section \<open>Words and addresses\<close>

lemma unat64_bound: "unat (x :: u64) < 18446744073709551616"
  using unsigned_less [of x] by simp

lemma unat64_of_nat: "n < 18446744073709551616 \<Longrightarrow> unat (of_nat n :: u64) = n"
  by (simp add: unat_of_nat take_bit_eq_mod)

lemma unat64_diff_swap: "a \<noteq> (b :: u64) \<Longrightarrow> unat (a - b) = 18446744073709551616 - unat (b - a)"
  using unat64_bound [of a] unat64_bound [of b]
  by (auto simp: unat_sub_if' word_unat_eq_iff)

lemma unat64_add_nowrap:
  "unat (a :: u64) + unat b < 18446744073709551616 \<Longrightarrow> unat (a + b) = unat a + unat b"
  by (simp add: unat_plus_if')

lemma unat64_diff_eq: "unat (b :: u64) \<le> unat a \<Longrightarrow> unat (a - b) = unat a - unat b"
  by (simp add: unat_sub_if')

lemma unat64_power:
  assumes "k < 64"
  shows "unat (2 ^ k :: u64) = 2 ^ k"
proof -
  have "(2 ^ k :: nat) < 2 ^ 64" using assms by (intro power_strict_increasing) simp_all
  then have "unat (of_nat (2 ^ k) :: u64) = 2 ^ k" by (intro unat64_of_nat) simp
  then show ?thesis by simp
qed

section \<open>Page alignment\<close>

definition page_aligned :: "u64 \<Rightarrow> bool" where
  "page_aligned a \<longleftrightarrow> 4096 dvd unat a"

lemma page_aligned_0 [simp]: "page_aligned 0"
  by (simp add: page_aligned_def)

lemma dvd_unat_add:
  assumes "k dvd 18446744073709551616" "k dvd unat (a :: u64)" "k dvd unat b"
  shows "k dvd unat (a + b)"
  using assms by (simp add: unat_plus_if' dvd_diff_nat)

lemma dvd_unat_diff:
  assumes "k dvd 18446744073709551616" "k dvd unat (a :: u64)" "k dvd unat b"
  shows "k dvd unat (a - b)"
  using assms by (simp add: unat_sub_if' dvd_diff_nat)

lemma page_aligned_add: "page_aligned a \<Longrightarrow> page_aligned b \<Longrightarrow> page_aligned (a + b)"
  unfolding page_aligned_def by (rule dvd_unat_add) simp_all

lemma page_aligned_diff: "page_aligned a \<Longrightarrow> page_aligned b \<Longrightarrow> page_aligned (a - b)"
  unfolding page_aligned_def by (rule dvd_unat_diff) simp_all

lemma page_aligned_apart:
  assumes "page_aligned a" "page_aligned b" "a \<noteq> b"
  shows "4096 \<le> unat (a - b)"
proof -
  have "4096 dvd unat (a - b)"
    using page_aligned_diff [OF assms(1,2)] by (simp add: page_aligned_def)
  moreover have "unat (a - b) \<noteq> 0" using assms(3) by (simp add: unat_eq_0)
  ultimately show ?thesis by (simp add: dvd_imp_le)
qed

text \<open>Clearing the low twelve bits rounds down to a page.\<close>

lemma page_aligned_bits: "page_aligned a \<longleftrightarrow> (\<forall>i < 12. \<not> bit a i)"
proof -
  have "4096 dvd unat a \<longleftrightarrow> take_bit 12 (unat a) = 0"
    by (simp add: take_bit_eq_mod dvd_eq_mod_eq_0)
  also have "\<dots> \<longleftrightarrow> (\<forall>i < 12. \<not> bit (unat a) i)"
    by (auto simp: bit_eq_iff bit_take_bit_iff)
  also have "\<dots> \<longleftrightarrow> (\<forall>i < 12. \<not> bit a i)"
    by (simp add: bit_unsigned_iff)
  finally show ?thesis by (simp add: page_aligned_def)
qed

lemma and_not_mask_eq: "a AND NOT (mask k) = push_bit k (drop_bit k (a :: 'w::len word))"
  by (rule bit_word_eqI)
    (auto simp: bit_and_iff bit_not_iff bit_mask_iff bit_push_bit_iff bit_drop_bit_eq not_less)

lemma unat_and_not_mask: "unat (a AND NOT (mask k) :: 'w::len word) = unat a div 2 ^ k * 2 ^ k"
proof -
  have "unat a div 2 ^ k * 2 ^ k < 2 ^ LENGTH('w)"
    using unsigned_less [of a] div_times_less_eq_dividend [of "unat a" "2 ^ k"] by (meson le_less_trans)
  then have "take_bit LENGTH('w) (unat a div 2 ^ k * 2 ^ k) = unat a div 2 ^ k * 2 ^ k"
    by (rule take_bit_nat_eq_self)
  then show ?thesis
    by (simp only: and_not_mask_eq unsigned_push_bit_eq unat_drop_bit_eq
        drop_bit_eq_div [where 'a = nat] push_bit_eq_mult [where 'a = nat])
qed

text \<open>A counting loop that does not wrap around runs its body on the counter values in order.\<close>

lemma for_range_each:
  assumes "unat k + n * unat step < 18446744073709551616" "0 < unat step"
  shows "for_range body k (k + of_nat n * step) step s =
    for_each body (map (\<lambda>i. k + of_nat i * step) [0..<n]) s"
  using assms
proof (induction n arbitrary: k s)
  case 0
  then show ?case by (subst for_range_step) simp
next
  case (Suc n)
  have k1: "unat (k + step) = unat k + unat step"
    using Suc.prems by (intro unat64_add_nowrap) simp
  have "of_nat (Suc n) * step = (of_nat (Suc n * unat step) :: u64)"
    by (simp add: algebra_simps)
  then have "unat (of_nat (Suc n) * step) = Suc n * unat step"
    using Suc.prems(1) unat64_of_nat [of "Suc n * unat step"] by simp
  then have "unat (k + of_nat (Suc n) * step) = unat k + Suc n * unat step"
    using Suc.prems(1) by (subst unat64_add_nowrap) simp_all
  then have less: "k < k + of_nat (Suc n) * step"
    using Suc.prems(2) by (simp add: word_less_nat_alt)
  have limit: "k + of_nat (Suc n) * step = (k + step) + of_nat n * step"
    by (simp add: algebra_simps)
  have "for_range body (k + step) ((k + step) + of_nat n * step) step t =
      for_each body (map (\<lambda>i. (k + step) + of_nat i * step) [0..<n]) t" for t
    by (rule Suc.IH) (use Suc.prems k1 in \<open>simp_all add: algebra_simps\<close>)
  then have "for_range body (k + step) (k + of_nat (Suc n) * step) step =
      for_each body (map (\<lambda>i. k + of_nat (Suc i) * step) [0..<n])"
    unfolding limit by (intro ext) (simp add: algebra_simps)
  then show ?case
    using less by (subst for_range_step)
      (simp add: upt_conv_Cons map_Suc_upt [symmetric] comp_def del: upt_Suc of_nat_Suc)
qed

end
