(* ===== verification/Machine.thy ===== *)
theory Machine
  imports Prelude
begin

text \<open>
  The machine the kernel runs on, as far as the C++ code sees it: a store of bytes addressed by
  64-bit pointers, little-endian loads and stores of machine integers at a pointer, and the bytes
  the kernel sends to I/O ports. The store is indexed by the pointer value the code dereferences;
  the null page is ordinary memory, as it is once \<open>initPaging\<close> has mapped address 0.
  The record \<open>machine\<close> is the root of the kernel's state; every component extends it with
  its own global variables.
\<close>

section \<open>The byte store\<close>

type_synonym memory = "ptr \<Rightarrow> u8"

fun load_le :: "nat \<Rightarrow> memory \<Rightarrow> ptr \<Rightarrow> 'w::len word" where
  "load_le 0 m a = 0"
| "load_le (Suc n) m a = ucast (m a) OR push_bit 8 (load_le n m (a + 1))"

definition store_le :: "nat \<Rightarrow> memory \<Rightarrow> ptr \<Rightarrow> 'w::len word \<Rightarrow> memory" where
  "store_le n m a v = (\<lambda>x. if unat (x - a) < n then ucast (drop_bit (8 * unat (x - a)) v) else m x)"

abbreviation load16 :: "memory \<Rightarrow> ptr \<Rightarrow> u16" where "load16 \<equiv> load_le 2"
abbreviation load32 :: "memory \<Rightarrow> ptr \<Rightarrow> u32" where "load32 \<equiv> load_le 4"
abbreviation load64 :: "memory \<Rightarrow> ptr \<Rightarrow> u64" where "load64 \<equiv> load_le 8"
abbreviation store16 :: "memory \<Rightarrow> ptr \<Rightarrow> u16 \<Rightarrow> memory" where "store16 \<equiv> store_le 2"
abbreviation store32 :: "memory \<Rightarrow> ptr \<Rightarrow> u32 \<Rightarrow> memory" where "store32 \<equiv> store_le 4"
abbreviation store64 :: "memory \<Rightarrow> ptr \<Rightarrow> u64 \<Rightarrow> memory" where "store64 \<equiv> store_le 8"

section \<open>Regions\<close>

text \<open>The \<open>n\<close> bytes from \<open>a\<close> on (modulo the size of the address space).\<close>

definition region :: "ptr \<Rightarrow> nat \<Rightarrow> ptr set" where
  "region a n = {x. unat (x - a) < n}"

definition same_on :: "ptr set \<Rightarrow> memory \<Rightarrow> memory \<Rightarrow> bool" where
  "same_on R m m' \<longleftrightarrow> (\<forall>x \<in> R. m x = m' x)"

lemma in_region [simp]: "x \<in> region a n \<longleftrightarrow> unat (x - a) < n"
  by (simp add: region_def)

lemma region_0 [simp]: "region a 0 = {}"
  by (simp add: region_def)

lemma region_1 [simp]: "region a (Suc 0) = {a}"
  by (auto simp: region_def unat_eq_0)

lemma same_on_refl [simp]: "same_on R m m"
  by (simp add: same_on_def)

lemma same_on_sym: "same_on R m m' \<Longrightarrow> same_on R m' m"
  by (simp add: same_on_def)

lemma same_on_trans [trans]: "same_on R m m' \<Longrightarrow> same_on R m' m'' \<Longrightarrow> same_on R m m''"
  by (simp add: same_on_def)

lemma same_on_subset: "same_on R m m' \<Longrightarrow> Q \<subseteq> R \<Longrightarrow> same_on Q m m'"
  by (auto simp: same_on_def)

text \<open>Two regions do not meet when each starts behind the end of the other.\<close>

lemma region_add_nowrap:
  assumes "n \<le> unat (b - a)" "k \<le> unat (a - b)" "unat (x - (b :: ptr)) < k"
  shows "n \<le> unat (x - a)"
proof (cases "b = a")
  case True
  then show ?thesis using assms by simp
next
  case False
  then have "unat (a - b) = 18446744073709551616 - unat (b - a)"
    using unat64_diff_swap [of a b] by simp
  then have lt: "unat (b - a) + unat (x - b) < 18446744073709551616"
    using assms(2,3) False by linarith
  have "x - a = (b - a) + (x - b)" by simp
  then have "unat (x - a) = unat (b - a) + unat (x - b)"
    using unat64_add_nowrap [OF lt] by simp
  then show ?thesis using assms(1) by simp
qed

lemma region_disjoint:
  assumes "n \<le> unat (b - a)" "k \<le> unat (a - b)"
  shows "region a n \<inter> region b k = {}"
  using region_add_nowrap [OF assms] by (force simp: not_less)

lemma region_subset:
  assumes "unat (b - a) + k \<le> n" "n < 18446744073709551616"
  shows "region b k \<subseteq> region a n"
proof
  fix x assume x: "x \<in> region b k"
  have "x - a = (b - a) + (x - b)" by simp
  moreover have "unat (b - a) + unat (x - b) < 18446744073709551616" using x assms by simp
  ultimately have "unat (x - a) = unat (b - a) + unat (x - b)"
    by (metis unat64_add_nowrap)
  then show "x \<in> region a n" using x assms by simp
qed

section \<open>Loads and stores\<close>

lemma load_le_cong:
  assumes "same_on (region a n) m m'" "n \<le> 18446744073709551615"
  shows "load_le n m a = (load_le n m' a :: 'w::len word)"
  using assms
proof (induction n arbitrary: a)
  case 0
  then show ?case by simp
next
  case (Suc n)
  have "m a = m' a" using Suc.prems by (simp add: same_on_def)
  moreover have "region (a + 1) n \<subseteq> region a (Suc n)"
    by (rule region_subset) (use Suc.prems in simp_all)
  then have "load_le n m (a + 1) = (load_le n m' (a + 1) :: 'w word)"
    using Suc by (auto intro: same_on_subset)
  ultimately show ?case by simp
qed

lemma bit_load_le:
  "bit (load_le n m a :: 'w::len word) i \<longleftrightarrow>
     i < LENGTH('w) \<and> i < 8 * n \<and> bit (m (a + of_nat (i div 8))) (i mod 8)"
proof (induction n arbitrary: a i)
  case 0
  then show ?case by simp
next
  case (Suc n)
  show ?case
  proof (cases "i < 8")
    case True
    then show ?thesis
      by (auto simp: bit_or_iff bit_push_bit_iff bit_unsigned_iff possible_bit_def)
  next
    case False
    then have "a + of_nat (i div 8) = a + 1 + of_nat ((i - 8) div 8)"
      by (subst le_div_geq) (auto simp: not_less)
    moreover have "(i - 8) mod 8 = i mod 8"
      using False by (simp add: le_mod_geq)
    moreover have "\<not> bit (ucast (m a) :: 'w word) i"
      using False by (auto simp: bit_unsigned_iff dest: bit_imp_le_length)
    ultimately show ?thesis
      using False
      by (auto simp: bit_or_iff bit_push_bit_iff Suc.IH possible_bit_def add.assoc)
  qed
qed

lemma store_le_apply:
  "store_le n m a v x = (if x \<in> region a n then ucast (drop_bit (8 * unat (x - a)) v) else m x)"
  by (simp add: store_le_def)

lemma load_store_same [simp]:
  assumes "LENGTH('w::len) = 8 * n" "n \<le> 8"
  shows "load_le n (store_le n m a v) a = (v :: 'w word)"
proof (rule bit_word_eqI)
  fix i assume i: "i < LENGTH('w)"
  then have d: "i div 8 < n" using assms by linarith
  then have u: "unat (of_nat (i div 8) :: u64) = i div 8"
    using assms by (intro unat64_of_nat) simp
  show "bit (load_le n (store_le n m a v) a :: 'w word) i = bit v i"
    using i assms d by (simp add: bit_load_le store_le_apply u bit_unsigned_iff bit_drop_bit_eq)
qed

lemma same_on_store_le: "region a n \<inter> R = {} \<Longrightarrow> same_on R (store_le n m a v) m"
  by (auto simp: same_on_def store_le_apply)

lemma same_on_upd: "a \<notin> R \<Longrightarrow> same_on R (m(a := v)) m"
  by (auto simp: same_on_def)

lemma load_store_disjoint:
  assumes "region a n \<inter> region b k = {}" "k \<le> 18446744073709551615"
  shows "load_le k (store_le n m a v) b = (load_le k m b :: 'v::len word)"
  by (rule load_le_cong) (use assms in \<open>simp_all add: same_on_store_le\<close>)

lemma load_store_other [simp]:
  assumes "n \<le> unat (b - a)" "k \<le> unat (a - b)" "k \<le> 8"
  shows "load_le k (store_le n m a v) b = (load_le k m b :: 'v::len word)"
  by (rule load_store_disjoint [OF region_disjoint]) (use assms in simp_all)

lemma load_upd_other [simp]:
  assumes "a \<noteq> b" "k \<le> unat (a - b)" "k \<le> 8"
  shows "load_le k (m(a := v)) b = (load_le k m b :: 'v::len word)"
  by (rule load_le_cong) (use assms in \<open>simp_all add: same_on_upd\<close>)

lemma store_le_byte_other [simp]: "n \<le> unat (x - a) \<Longrightarrow> store_le n m a v x = m x"
  by (simp add: store_le_def)

lemma store_store_same [simp]: "store_le n (store_le n m a v) a w = store_le n m a w"
  by (rule ext) (simp add: store_le_def)

lemma load_le_zero:
  assumes "\<And>x. x \<in> region a n \<Longrightarrow> m x = 0" "n \<le> 18446744073709551615"
  shows "load_le n m a = (0 :: 'w::len word)"
proof -
  have "load_le n m a = (load_le n (\<lambda>_. 0) a :: 'w word)"
    by (rule load_le_cong) (use assms in \<open>auto simp: same_on_def\<close>)
  also have "\<dots> = 0" by (rule bit_word_eqI) (simp add: bit_load_le)
  finally show ?thesis .
qed

section \<open>Cells: the access laws at one width\<close>

text \<open>
  The contract of reading and writing one machine integer, which the code relies on wherever it
  copies or fills an array: what was written is read back, and a write leaves every cell alone
  that it does not meet.
\<close>

locale cell_access =
  fixes ld :: "memory \<Rightarrow> ptr \<Rightarrow> 'v"
    and st :: "memory \<Rightarrow> ptr \<Rightarrow> 'v \<Rightarrow> memory"
    and width :: nat
  assumes width_pos: "0 < width" and width_small: "width \<le> 8"
    and ld_st_same: "ld (st m a v) a = v"
    and st_outside: "x \<notin> region a width \<Longrightarrow> st m a v x = m x"
    and ld_local: "same_on (region a width) m m' \<Longrightarrow> ld m a = ld m' a"
begin

lemma ld_st_disjoint: "region a width \<inter> region b width = {} \<Longrightarrow> ld (st m a v) b = ld m b"
  by (rule ld_local) (auto simp: same_on_def intro: st_outside)

lemma same_on_st: "region a width \<inter> R = {} \<Longrightarrow> same_on R (st m a v) m"
  by (auto simp: same_on_def intro: st_outside)

lemma cells_apart:
  assumes "i \<noteq> j" "i < 1000000" "j < 1000000"
  shows "region (b + of_nat (i * width)) width \<inter> region (b + of_nat (j * width)) width = {}"
proof (rule region_disjoint)
  have w: "\<And>i j. i \<noteq> j \<Longrightarrow> i < 1000000 \<Longrightarrow> j < 1000000 \<Longrightarrow>
    width \<le> unat (b + of_nat (j * width) - (b + of_nat (i * width)))"
  proof -
    fix i j :: nat assume ij: "i \<noteq> j" "i < 1000000" "j < 1000000"
    have "i * width \<le> 1000000 * 8" "j * width \<le> 1000000 * 8"
      using ij width_small by (intro mult_le_mono; simp)+
    then have u: "unat (of_nat (i * width) :: u64) = i * width"
      "unat (of_nat (j * width) :: u64) = j * width"
      by (intro unat64_of_nat; linarith)+
    have "i < j \<Longrightarrow> Suc i * width \<le> j * width" "j < i \<Longrightarrow> Suc j * width \<le> i * width"
      by (intro mult_le_mono1; simp)+
    then have "width \<le> unat (of_nat (j * width) - of_nat (i * width) :: u64)"
      using ij u \<open>i * width \<le> _\<close> by (auto simp: unat_sub_if' simp del: of_nat_mult)
    then show "width \<le> unat (b + of_nat (j * width) - (b + of_nat (i * width)))" by simp
  qed
  show "width \<le> unat (b + of_nat (j * width) - (b + of_nat (i * width)))"
    by (rule w) (use assms in simp_all)
  show "width \<le> unat (b + of_nat (i * width) - (b + of_nat (j * width)))"
    by (rule w) (use assms in simp_all)
qed

text \<open>Writing the cells of an array one after the other leaves each with its value.\<close>

lemma ld_fold_other:
  assumes "j \<notin> set is" "j < 1000000" "\<forall>i \<in> set is. i < 1000000"
  shows "ld (fold (\<lambda>i m. st m (b + of_nat (i * width)) (f i)) is m) (b + of_nat (j * width))
    = ld m (b + of_nat (j * width))"
  using assms
proof (induction "is" arbitrary: m)
  case (Cons i "is")
  then have "region (b + of_nat (i * width)) width \<inter> region (b + of_nat (j * width)) width = {}"
    by (intro cells_apart) auto
  with Cons show ?case by (simp add: ld_st_disjoint del: of_nat_mult)
qed simp

lemma ld_fold_same:
  assumes "j \<in> set is" "\<forall>i \<in> set is. i < 1000000" "distinct is"
  shows "ld (fold (\<lambda>i m. st m (b + of_nat (i * width)) (f i)) is m) (b + of_nat (j * width)) = f j"
  using assms
proof (induction "is" arbitrary: m)
  case (Cons i "is")
  show ?case
  proof (cases "j = i")
    case True
    with Cons.prems show ?thesis by (simp add: ld_fold_other ld_st_same del: of_nat_mult)
  next
    case False
    with Cons show ?thesis by simp
  qed
qed simp

lemma fold_outside:
  assumes "\<And>i. i \<in> set is \<Longrightarrow> region (b + of_nat (i * width)) width \<inter> R = {}"
  shows "same_on R (fold (\<lambda>i m. st m (b + of_nat (i * width)) (f i)) is m) m"
  using assms
proof (induction "is" arbitrary: m)
  case (Cons i "is")
  have "same_on R (st m (b + of_nat (i * width)) (f i)) m"
    using Cons.prems by (intro same_on_st) auto
  moreover have "same_on R (fold (\<lambda>i m. st m (b + of_nat (i * width)) (f i)) is
      (st m (b + of_nat (i * width)) (f i))) (st m (b + of_nat (i * width)) (f i))"
    using Cons by auto
  ultimately show ?case by (auto intro: same_on_trans)
qed simp

end

interpretation cell8: cell_access "\<lambda>m a. m a" "\<lambda>m a v. m(a := v)" 1
  by unfold_locales (auto simp: same_on_def)

interpretation cell16: cell_access load16 store16 2
  by unfold_locales (auto simp: store_le_apply intro: load_le_cong)

interpretation cell32: cell_access load32 store32 4
  by unfold_locales (auto simp: store_le_apply intro: load_le_cong)

interpretation cell64: cell_access load64 store64 8
  by unfold_locales (auto simp: store_le_apply intro: load_le_cong)

section \<open>The state of the machine\<close>

text \<open>
  What the kernel sends out: characters for the Limine terminal (\<open>limine_print\<close>), texts it has the
  terminal write (with the byte count it passes), and values for I/O ports. A read of a port is an
  event too, as the device may react to it.
\<close>

datatype io_event = LiminePrint char | TerminalWrite string u64 | Outb u16 u8 | Outw u16 u16 | Outl u16 u32
  | Inb u16 | Inw u16 | Inl u16

record machine =
  mem :: memory
  io_log :: "io_event list"
  limine_print :: bool  \<comment> \<open>whether the function pointer of \<open>e9print.cpp\<close> is set\<close>

end
