(* ===== verification/Lib_String.thy ===== *)
theory Lib_String
  imports Machine
begin

text \<open>
  The byte routines of \<open>kernel/lib/string.cpp\<close> (\<open>memoryset\<close>, \<open>memorycmp\<close>, \<open>memorycpy\<close>) and the
  memory-mapped accesses of \<open>kernel/lib/memory.cpp\<close>. Each counting loop is a fold over the values
  of its counter, in order; \<open>memorycmp\<close>, which returns early, is a recursion on its counter.
\<close>

section \<open>memoryset\<close>

definition memoryset :: "ptr \<Rightarrow> u8 \<Rightarrow> u64 \<Rightarrow> memory \<Rightarrow> memory" where
  "memoryset start value num m =
     fold (\<lambda>i m. m(start + of_nat i := value)) [0..<unat num] m"

lemma region_Suc: "n < 18446744073709551616 \<Longrightarrow> region a (Suc n) = insert (a + of_nat n) (region a n)"
proof (rule set_eqI)
  fix x assume n: "n < 18446744073709551616"
  then have "unat (x - a) = n \<longleftrightarrow> x - a = of_nat n"
    using unat64_of_nat [OF n] by (auto simp: word_unat_eq_iff)
  also have "\<dots> \<longleftrightarrow> x = a + of_nat n" by (auto simp: algebra_simps)
  finally show "x \<in> region a (Suc n) \<longleftrightarrow> x \<in> insert (a + of_nat n) (region a n)"
    by (auto simp: less_Suc_eq)
qed

lemma fold_set_apply:
  "n \<le> 18446744073709551616 \<Longrightarrow> fold (\<lambda>i m. m(a + of_nat i := v)) [0..<n] m x =
     (if x \<in> region a n then v else m x)"
  by (induction n) (auto simp: region_Suc simp del: in_region)

lemma memoryset_apply:
  "memoryset start value num m x = (if x \<in> region start (unat num) then value else m x)"
  unfolding memoryset_def by (rule fold_set_apply) (use unat64_bound [of num] in simp)

lemma memoryset_eq: "memoryset start value num m = override_on m (\<lambda>_. value) (region start (unat num))"
  by (rule ext) (simp add: memoryset_apply override_on_def)

lemma same_on_memoryset: "region start (unat num) \<inter> R = {} \<Longrightarrow> same_on R (memoryset start value num m) m"
  by (auto simp: same_on_def memoryset_apply simp del: in_region)

section \<open>memorycmp\<close>

text \<open>
  The two arguments are pointers to bytes; \<open>p i\<close> is the byte at index \<open>i\<close>. A pointer into memory
  and a string literal both give such a function.
\<close>

definition bytes_at :: "memory \<Rightarrow> ptr \<Rightarrow> nat \<Rightarrow> u8" where
  "bytes_at m a i = m (a + of_nat i)"

definition bytes_of :: "string \<Rightarrow> nat \<Rightarrow> u8" where
  "bytes_of cs i = (if i < length cs then of_char (cs ! i) else 0)"

function memorycmp_loop :: "(nat \<Rightarrow> u8) \<Rightarrow> (nat \<Rightarrow> u8) \<Rightarrow> nat \<Rightarrow> nat \<Rightarrow> bool" where
  "memorycmp_loop p1 p2 n i =
     (if i < n then (if p1 i \<noteq> p2 i then False else memorycmp_loop p1 p2 n (Suc i)) else True)"
  by pat_completeness auto
termination by (relation "measure (\<lambda>(p1, p2, n, i). n - i)") auto

declare memorycmp_loop.simps [simp del]

definition memorycmp :: "(nat \<Rightarrow> u8) \<Rightarrow> (nat \<Rightarrow> u8) \<Rightarrow> u64 \<Rightarrow> bool" where
  "memorycmp s1 s2 n = memorycmp_loop s1 s2 (unat n) 0"

lemma memorycmp_loop_iff: "memorycmp_loop p1 p2 n i \<longleftrightarrow> (\<forall>j. i \<le> j \<longrightarrow> j < n \<longrightarrow> p1 j = p2 j)"
proof (induction p1 p2 n i rule: memorycmp_loop.induct)
  case (1 p1 p2 n i)
  show ?case
  proof (cases "i < n \<and> p1 i = p2 i")
    case True
    with 1 have "memorycmp_loop p1 p2 n i \<longleftrightarrow> (\<forall>j. Suc i \<le> j \<longrightarrow> j < n \<longrightarrow> p1 j = p2 j)"
      by (subst memorycmp_loop.simps) simp
    then have "memorycmp_loop p1 p2 n i \<longleftrightarrow> (\<forall>j. i < j \<longrightarrow> j < n \<longrightarrow> p1 j = p2 j)"
      by (simp add: Suc_le_eq)
    then show ?thesis using True by (metis le_eq_less_or_eq)
  next
    case False
    then show ?thesis by (subst memorycmp_loop.simps) auto
  qed
qed

lemma memorycmp_iff: "memorycmp p1 p2 n \<longleftrightarrow> (\<forall>i < unat n. p1 i = p2 i)"
  by (simp add: memorycmp_def memorycmp_loop_iff)

section \<open>memorycpy\<close>

definition memorycpy :: "ptr \<Rightarrow> ptr \<Rightarrow> u64 \<Rightarrow> memory \<Rightarrow> memory" where
  "memorycpy destination source num m =
     fold (\<lambda>i m. m(destination + of_nat i := m (source + of_nat i))) [0..<unat num] m"

lemma fold_copy_apply:
  assumes "n \<le> 18446744073709551615" "d = s \<or> n \<le> unat (d - s)"
  shows "fold (\<lambda>i m. m(d + of_nat i := m (s + of_nat i))) [0..<n] m x =
     (if x \<in> region d n then m (s + (x - d)) else m x)"
  using assms
proof (induction n arbitrary: x)
  case (Suc n)
  let ?m = "fold (\<lambda>i m. m(d + of_nat i := m (s + of_nat i))) [0..<n] m"
  have IH: "?m x = (if x \<in> region d n then m (s + (x - d)) else m x)" for x
    by (rule Suc.IH) (use Suc.prems in auto)
  have n: "unat (of_nat n :: u64) = n" using Suc.prems by (intro unat64_of_nat) simp
  have "?m (s + of_nat n) = m (s + of_nat n)"
  proof (cases "d = s")
    case True
    then show ?thesis using IH [of "s + of_nat n"] n by simp
  next
    case False
    then have le: "Suc n \<le> unat (d - s)" using Suc.prems by simp
    have "s + of_nat n \<notin> region d n"
    proof -
      have "s + of_nat n - d = of_nat n - (d - s)" by simp
      moreover have "unat (of_nat n - (d - s)) = n + 18446744073709551616 - unat (d - s)"
        using le n unat_sub_if' [of "of_nat n" "d - s"] by simp
      ultimately have "n \<le> unat (s + of_nat n - d)"
        using unat64_bound [of "d - s"] by (simp only:)
      then show ?thesis by simp
    qed
    then show ?thesis using IH by simp
  qed
  then have step: "fold (\<lambda>i m. m(d + of_nat i := m (s + of_nat i))) [0..<Suc n] m x =
      (if x = d + of_nat n then m (s + of_nat n) else ?m x)" by simp
  show ?case unfolding step IH using Suc.prems
    by (auto simp: region_Suc simp del: in_region)
qed simp

lemma memorycpy_apply:
  assumes "destination = source \<or> unat num \<le> unat (destination - source)"
  shows "memorycpy destination source num m x =
     (if x \<in> region destination (unat num) then m (source + (x - destination)) else m x)"
  unfolding memorycpy_def by (rule fold_copy_apply [OF _ assms]) (use unat64_bound [of num] in simp)

section \<open>Memory-mapped registers\<close>

definition mmioWrite32 :: "ptr \<Rightarrow> u32 \<Rightarrow> memory \<Rightarrow> memory" where
  "mmioWrite32 address value m = store32 m address value"

definition mmioWrite64 :: "ptr \<Rightarrow> u64 \<Rightarrow> memory \<Rightarrow> memory" where
  "mmioWrite64 address value m = store64 m address value"

definition mmioRead32 :: "ptr \<Rightarrow> memory \<Rightarrow> u32" where
  "mmioRead32 address m = load32 m address"

definition mmioRead64 :: "ptr \<Rightarrow> memory \<Rightarrow> u64" where
  "mmioRead64 address m = load64 m address"

section \<open>Properties\<close>

text \<open>
  \<open>memoryset\<close> writes the value to exactly the \<open>num\<close> bytes from \<open>start\<close> on, for every count up to
  \<open>2^64 - 1\<close> and also where the region wraps around the end of the address space.
\<close>

theorem memoryset_exact:
  "memoryset start value num m = (\<lambda>x. if unat (x - start) < unat num then value else m x)"
  by (rule ext) (simp add: memoryset_apply)

text \<open>
  \<open>memorycpy\<close> copies the source as it was, byte for byte, and writes nothing else, provided the
  destination does not lie inside the source behind its start (the loop runs forward).
\<close>

theorem memorycpy_exact:
  assumes "destination = source \<or> unat num \<le> unat (destination - source)"
  shows "memorycpy destination source num m =
    (\<lambda>x. if unat (x - destination) < unat num then m (source + (x - destination)) else m x)"
  by (rule ext) (simp add: memorycpy_apply [OF assms])

theorem memorycpy_exact_witness:
  "memorycpy 100 108 16 (\<lambda>x. ucast x) 103 = 111"
  by (subst memorycpy_exact) simp_all

text \<open>\<open>memorycmp\<close> returns true exactly when the two ranges of \<open>n\<close> bytes are equal.\<close>

theorem memorycmp_exact:
  "memorycmp (bytes_at m a) (bytes_at m b) n \<longleftrightarrow>
     map (\<lambda>i. m (a + of_nat i)) [0..<unat n] = map (\<lambda>i. m (b + of_nat i)) [0..<unat n]"
  by (auto simp: memorycmp_iff bytes_at_def)

end
