(* ===== verification/Lock.thy ===== *)
theory Lock
  imports Prelude
begin

text \<open>
  The spin lock of \<open>kernel/lib/lock.cpp\<close>, twice. First as the routine one processor runs on its
  own: \<open>lock\<close> returns at once on a free lock and never on a held one. Then as a system of
  processors that interleave their atomic steps on one shared lock word, where the lock gives
  mutual exclusion.
\<close>

section \<open>The routines\<close>

text \<open>The compiler's \<open>__sync_lock_test_and_set(p, v)\<close>: store \<open>v\<close>, return the old value.\<close>

definition sync_lock_test_and_set :: "u32 \<Rightarrow> u32 \<Rightarrow> u32 \<times> u32" where
  "sync_lock_test_and_set l v = (l, v)"

partial_function (option) lock_spin :: "u32 \<Rightarrow> u32 option" where
  "lock_spin l = (case sync_lock_test_and_set l 1 of (old, l') \<Rightarrow>
     if old \<noteq> 0 then lock_spin l' else Some l')"

text \<open>
  \<open>lock\<close> on a lock variable that is part of a state: \<open>get\<close> and \<open>put\<close> read and write it.
\<close>

definition acquire :: "('s \<Rightarrow> u32) \<Rightarrow> (u32 \<Rightarrow> 's \<Rightarrow> 's) \<Rightarrow> 's \<Rightarrow> (unit, 's) outcome" where
  "acquire get put s = of_loop (lock_spin (get s)) (\<lambda>l. Done () (put l s))"

definition unlock_value :: "u32 \<Rightarrow> u32" where
  "unlock_value l = 0"

definition release :: "('s \<Rightarrow> u32) \<Rightarrow> (u32 \<Rightarrow> 's \<Rightarrow> 's) \<Rightarrow> 's \<Rightarrow> 's" where
  "release get put s = put (unlock_value (get s)) s"

lemma lock_spin_free [simp]: "lock_spin 0 = Some 1"
  by (simp add: lock_spin.simps sync_lock_test_and_set_def)

lemma lock_spin_returns: "lock_spin l = Some l' \<Longrightarrow> l = 0 \<and> l' = 1"
proof (rule lock_spin.raw_induct [where P = "\<lambda>l l'. l = 0 \<and> l' = 1"])
  fix f :: "u32 \<Rightarrow> u32 option" and l l'
  assume IH: "\<And>l l'. f l = Some l' \<Longrightarrow> l = 0 \<and> l' = 1"
    and eq: "(case sync_lock_test_and_set l 1 of (old, l') \<Rightarrow>
      if old \<noteq> 0 then f l' else Some l') = Some l'"
  show "l = 0 \<and> l' = 1"
    using eq IH [of 1 l'] by (auto simp: sync_lock_test_and_set_def split: if_splits)
qed

lemma lock_spin_held [simp]: "l \<noteq> 0 \<Longrightarrow> lock_spin l = None"
  using lock_spin_returns by (cases "lock_spin l") auto

lemma acquire_free [simp]: "get s = 0 \<Longrightarrow> acquire get put s = Done () (put 1 s)"
  by (simp add: acquire_def)

lemma acquire_held [simp]: "get s \<noteq> 0 \<Longrightarrow> acquire get put s = Loops"
  by (simp add: acquire_def)

lemma acquire_Done: "acquire get put s = Done u s' \<longleftrightarrow> get s = 0 \<and> s' = put 1 s"
  by (cases "get s = 0") auto

section \<open>Processors sharing the lock\<close>

text \<open>
  A processor is outside, about to execute the test-and-set of its \<open>lock\<close> call (\<open>Spinning\<close>), or
  between \<open>lock\<close> and \<open>unlock\<close> (\<open>Inside\<close>). One test-and-set is one atomic step.
\<close>

datatype lock_pc = Outside | Spinning | Inside

record lock_sys =
  lock_word :: u32
  pcs :: "nat \<Rightarrow> lock_pc"

definition lock_init :: lock_sys where
  "lock_init = \<lparr>lock_word = 0, pcs = (\<lambda>_. Outside)\<rparr>"

text \<open>One test-and-set by processor \<open>i\<close>: it stays in the loop or leaves it.\<close>

definition try_lock :: "nat \<Rightarrow> lock_sys \<Rightarrow> lock_sys" where
  "try_lock i s = (case sync_lock_test_and_set (lock_word s) 1 of (old, l') \<Rightarrow>
     s\<lparr>lock_word := l', pcs := (pcs s)(i := if old \<noteq> 0 then Spinning else Inside)\<rparr>)"

inductive lock_step :: "nat \<Rightarrow> lock_sys \<Rightarrow> lock_sys \<Rightarrow> bool" where
  call: "pcs s i = Outside \<Longrightarrow> lock_step i s (s\<lparr>pcs := (pcs s)(i := Spinning)\<rparr>)"
| spin: "pcs s i = Spinning \<Longrightarrow> lock_step i s (try_lock i s)"
| unlock: "pcs s i = Inside \<Longrightarrow>
     lock_step i s (s\<lparr>lock_word := unlock_value (lock_word s), pcs := (pcs s)(i := Outside)\<rparr>)"

inductive_cases lock_stepE: "lock_step i s t"

inductive lock_reachable :: "lock_sys \<Rightarrow> bool" where
  init: "lock_reachable lock_init"
| step: "lock_reachable s \<Longrightarrow> lock_step i s t \<Longrightarrow> lock_reachable t"

text \<open>The lock word is 1 exactly while some processor is inside, and then only one is.\<close>

definition lock_inv :: "lock_sys \<Rightarrow> bool" where
  "lock_inv s \<longleftrightarrow>
     (if lock_word s = 0 then \<forall>i. pcs s i \<noteq> Inside else \<exists>i. \<forall>j. pcs s j = Inside \<longleftrightarrow> j = i)"

lemma lock_step_inv: "lock_step i s t \<Longrightarrow> lock_inv s \<Longrightarrow> lock_inv t"
proof (induction rule: lock_step.induct)
  case (call s i)
  then have "((pcs s)(i := Spinning)) j = Inside \<longleftrightarrow> pcs s j = Inside" for j by simp
  with call show ?case by (simp add: lock_inv_def)
next
  case (spin s i)
  show ?case
  proof (cases "lock_word s = 0")
    case True
    with spin show ?thesis
      by (auto simp: lock_inv_def try_lock_def sync_lock_test_and_set_def)
  next
    case False
    with spin have "try_lock i s = s\<lparr>lock_word := 1\<rparr>"
      by (simp add: try_lock_def sync_lock_test_and_set_def fun_upd_idem)
    with spin False show ?thesis by (simp add: lock_inv_def)
  qed
next
  case (unlock s i)
  then show ?case by (auto simp: lock_inv_def unlock_value_def split: if_splits)
qed

lemma lock_reachable_inv: "lock_reachable s \<Longrightarrow> lock_inv s"
  by (induction rule: lock_reachable.induct)
    (auto simp: lock_inv_def lock_init_def dest: lock_step_inv)

lemma lock_reachable_word: "lock_reachable s \<Longrightarrow> lock_word s = 0 \<or> lock_word s = 1"
  by (induction rule: lock_reachable.induct)
    (auto simp: lock_init_def try_lock_def sync_lock_test_and_set_def unlock_value_def
      elim!: lock_stepE)

section \<open>Properties\<close>

text \<open>
  C7: however the processors interleave, at most one of them is between \<open>lock\<close> and \<open>unlock\<close>, and the
  lock word says whether one is: it is 1 when one is inside and 0 when none is.
\<close>

theorem lock_mutual_exclusion:
  "lock_reachable s \<Longrightarrow>
     (if lock_word s = 0 then {i. pcs s i = Inside} = {}
      else lock_word s = 1 \<and> (\<exists>i. {j. pcs s j = Inside} = {i}))"
  using lock_reachable_inv [of s] lock_reachable_word [of s]
  by (auto simp: lock_inv_def set_eq_iff split: if_splits)

text \<open>Processor 3 has taken the lock and processor 5 spins.\<close>

definition lock_sample :: lock_sys where
  "lock_sample = try_lock 5 (lock_init\<lparr>lock_word := 1, pcs := (\<lambda>_. Outside)(3 := Inside, 5 := Spinning)\<rparr>)"

lemma lock_sample_reachable: "lock_reachable lock_sample"
proof -
  let ?s = "lock_init\<lparr>pcs := (\<lambda>_. Outside)(3 := Spinning)\<rparr>"
  have 1: "lock_step 3 lock_init ?s"
    using lock_step.call [of lock_init 3] by (simp add: lock_init_def)
  have 2: "lock_step 3 ?s (lock_init\<lparr>lock_word := 1, pcs := (\<lambda>_. Outside)(3 := Inside)\<rparr>)"
    using lock_step.spin [of ?s 3]
    by (simp add: lock_init_def try_lock_def sync_lock_test_and_set_def)
  let ?t = "lock_init\<lparr>lock_word := 1, pcs := (\<lambda>_. Outside)(3 := Inside)\<rparr>"
  have 3: "lock_step 5 ?t (?t\<lparr>pcs := (\<lambda>_. Outside)(3 := Inside, 5 := Spinning)\<rparr>)"
    using lock_step.call [of ?t 5] by (simp add: lock_init_def)
  have 4: "lock_step 5 (?t\<lparr>pcs := (\<lambda>_. Outside)(3 := Inside, 5 := Spinning)\<rparr>) lock_sample"
    using lock_step.spin [of "?t\<lparr>pcs := (\<lambda>_. Outside)(3 := Inside, 5 := Spinning)\<rparr>" 5]
    by (simp add: lock_sample_def lock_init_def)
  show ?thesis
    by (rule lock_reachable.step [OF lock_reachable.step [OF lock_reachable.step
        [OF lock_reachable.step [OF lock_reachable.init 1] 2] 3] 4])
qed

theorem lock_mutual_exclusion_witness:
  "lock_word lock_sample = 1 \<and> pcs lock_sample 5 = Spinning \<and> (\<exists>i. {j. pcs lock_sample j = Inside} = {i})"
  using lock_mutual_exclusion [OF lock_sample_reachable]
  by (simp add: lock_sample_def lock_init_def try_lock_def sync_lock_test_and_set_def)

text \<open>
  \<open>lock\<close> returns exactly when the lock is free, leaving the lock word 1; called by a processor
  that alone holds the lock it never returns. \<open>unlock\<close> makes the lock free again.
\<close>

theorem lock_returns_iff_free:
  "lock_spin l = (if l = 0 then Some 1 else None) \<and> lock_spin (unlock_value l) = Some 1"
  by (simp add: unlock_value_def)

end
