(* ===== verification/Hash_Table.thy ===== *)
theory Hash_Table
  imports Prelude
begin

text \<open>
  The table of \<open>kernel/paging/hashtable.cpp\<close> in which the frame allocator remembers the size of
  every frame it hands out: 100 slots of a key and a value. The C \<open>int\<close> values are 32-bit words
  (\<open>-1\<close> is \<open>0xFFFFFFFF\<close>); an index of the table, an \<open>int\<close> between 0 and 99, is a \<open>nat\<close>.
\<close>

section \<open>The table\<close>

definition TABLE_SIZE :: nat where
  "TABLE_SIZE = 100"

record KeyValuePair =
  key :: u64
  kv_value :: u32

type_synonym HashTable = "KeyValuePair list"

text \<open>The global table starts zeroed, as static storage does.\<close>

definition zero_table :: HashTable where
  "zero_table = replicate TABLE_SIZE \<lparr>key = 0, kv_value = 0\<rparr>"

definition table_wf :: "HashTable \<Rightarrow> bool" where
  "table_wf ht \<longleftrightarrow> length ht = TABLE_SIZE"

section \<open>The hash function\<close>

definition hash_mix :: "u64 \<Rightarrow> u64" where
  "hash_mix h = (drop_bit 16 h XOR h) * 0x45d9f3b"

definition hash :: "ptr \<Rightarrow> nat" where
  "hash k =
     (let hashValue = k;
          hashValue = hash_mix hashValue;
          hashValue = hash_mix hashValue;
          hashValue = drop_bit 16 hashValue XOR hashValue
      in unat hashValue mod TABLE_SIZE)"

section \<open>Insertion\<close>

text \<open>The body of the \<open>for\<close> loop ignores its counter and runs 100 times.\<close>

definition insert_index :: "nat \<Rightarrow> nat" where
  "insert_index index = fold (\<lambda>i index. (index + 1) mod TABLE_SIZE) [0..<100] index"

definition insert_kv :: "HashTable \<Rightarrow> ptr \<Rightarrow> u32 \<Rightarrow> HashTable" where
  "insert_kv ht k v = ht[insert_index (hash k) := \<lparr>key = k, kv_value = v\<rparr>]"

section \<open>Lookup and deletion\<close>

text \<open>
  The loop that \<open>search\<close> and \<open>deleteKey\<close> share: \<open>Some (Some index)\<close> when its condition fails at
  \<open>index\<close>, \<open>Some None\<close> when it comes round to the slot it started from.
\<close>

partial_function (option) probe :: "HashTable \<Rightarrow> ptr \<Rightarrow> nat \<Rightarrow> nat \<Rightarrow> nat \<Rightarrow> nat option option" where
  "probe ht k originalIndex index i =
     (if key (ht ! index) \<noteq> k \<or> kv_value (ht ! index) = -1 \<or> i < 100 then
        let index' = (index + 1) mod TABLE_SIZE
        in if index' = originalIndex then Some None
           else probe ht k originalIndex index' (i + 1)
      else Some (Some index))"

definition search :: "HashTable \<Rightarrow> ptr \<Rightarrow> u32 option" where
  "search ht k =
     map_option (\<lambda>found. case found of None \<Rightarrow> -1 | Some index \<Rightarrow> kv_value (ht ! index))
       (probe ht k (hash k) (hash k) 0)"

definition deleteKey :: "HashTable \<Rightarrow> ptr \<Rightarrow> HashTable option" where
  "deleteKey ht k =
     map_option (\<lambda>found. case found of None \<Rightarrow> ht | Some index \<Rightarrow> ht[index := (ht ! index)\<lparr>kv_value := -1\<rparr>])
       (probe ht k (hash k) (hash k) 0)"

section \<open>What the table does\<close>

lemma hash_less: "hash k < TABLE_SIZE"
  by (simp add: hash_def Let_def TABLE_SIZE_def)

lemma fold_step_mod:
  "fold (\<lambda>i index. (index + 1) mod m) [0..<n] (index :: nat) = (if n = 0 then index else (index + n) mod m)"
  by (induction n) (auto simp: mod_Suc_eq)

lemma insert_index_id: "index < TABLE_SIZE \<Longrightarrow> insert_index index = index"
  unfolding insert_index_def fold_step_mod TABLE_SIZE_def by simp

lemma insert_kv_eq: "insert_kv ht k v = ht[hash k := \<lparr>key = k, kv_value = v\<rparr>]"
  by (simp add: insert_kv_def insert_index_id hash_less)

lemma table_wf_insert: "table_wf ht \<Longrightarrow> table_wf (insert_kv ht k v)"
  by (simp add: table_wf_def insert_kv_eq)

text \<open>
  The counter is below 100 for the 100 slots of one round, so the loop condition never fails before
  the probe is back at its first slot.
\<close>

lemma probe_round:
  assumes "originalIndex < TABLE_SIZE" "i < 100"
  shows "probe ht k originalIndex ((originalIndex + i) mod TABLE_SIZE) i = Some None"
  using assms(2)
proof (induction "99 - i" arbitrary: i)
  case 0
  then have i: "i = 99" by simp
  then have "((originalIndex + i) mod TABLE_SIZE + 1) mod TABLE_SIZE = originalIndex"
    using assms(1) by (simp add: TABLE_SIZE_def mod_simps)
  then show ?case using i by (subst probe.simps) (simp add: Let_def)
next
  case (Suc d)
  let ?index = "((originalIndex + i) mod TABLE_SIZE + 1) mod TABLE_SIZE"
  have step: "?index = (originalIndex + (i + 1)) mod TABLE_SIZE"
    by (simp add: mod_Suc_eq)
  have "probe ht k originalIndex ?index (i + 1) = Some None"
    unfolding step by (rule Suc.hyps(1)) (use Suc.hyps(2) in linarith)+
  moreover have "?index \<noteq> originalIndex \<or> ?index = originalIndex" by simp
  ultimately show ?case using Suc.prems by (subst probe.simps) (simp add: Let_def)
qed

lemma probe_hash: "probe ht k (hash k) (hash k) 0 = Some None"
  using probe_round [OF hash_less, of 0 ht k k] hash_less [of k] by simp

lemma search_eq: "search ht k = Some (-1)"
  by (simp add: search_def probe_hash)

lemma deleteKey_eq: "deleteKey ht k = Some ht"
  by (simp add: deleteKey_def probe_hash)

section \<open>Properties\<close>

text \<open>
  \<open>search\<close> returns -1 (not found) for every table and every key, also for a key that has just been
  inserted, and \<open>deleteKey\<close> never changes the table: the disjunct \<open>i < 100\<close> of the loop condition
  keeps both probing until they are back at the first slot. Both always return.
\<close>

theorem search_never_finds:
  "search (insert_kv ht k v) k = Some (-1) \<and> search ht k = Some (-1) \<and> deleteKey ht k = Some ht"
  by (simp add: search_eq deleteKey_eq)

text \<open>
  C36: \<open>insert\<close> puts the pair into the slot its key hashes to, whatever was there, and keeps every
  other slot and the number of slots: its hundred probing steps lead back to the slot they start from.
\<close>

theorem insert_overwrites_hash_slot:
  assumes "length ht = TABLE_SIZE"
  shows "insert_kv ht k v ! hash k = \<lparr>key = k, kv_value = v\<rparr> \<and>
    length (insert_kv ht k v) = TABLE_SIZE \<and>
    (\<forall>i. i \<noteq> hash k \<longrightarrow> insert_kv ht k v ! i = ht ! i)"
  using assms hash_less [of k] by (simp add: insert_kv_eq)

theorem insert_overwrites_hash_slot_witness:
  "insert_kv zero_table 0x1000 7 ! hash 0x1000 = \<lparr>key = 0x1000, kv_value = 7\<rparr>"
  using insert_overwrites_hash_slot [of zero_table, where k = "0x1000" and v = 7] by (simp add: zero_table_def)

end
