(* ===== verification/E9print.thy ===== *)
theory E9print
  imports Machine
begin

text \<open>
  The debug console of \<open>kernel/printutils/e9print.cpp\<close>: every character goes to the Limine terminal
  when that is available and to port 0xE9. Numbers are printed through a digit buffer that is
  filled from its end.
\<close>

section \<open>Characters and strings\<close>

definition e9_putc :: "char \<Rightarrow> 'a machine_scheme \<Rightarrow> 'a machine_scheme" where
  "e9_putc c s =
     s\<lparr>io_log := io_log s @ (if limine_print s then [LiminePrint c] else []) @ [Outb 0xe9 (of_char c)]\<rparr>"

text \<open>A C string ends at its first NUL.\<close>

definition c_string :: "string \<Rightarrow> string" where
  "c_string msg = takeWhile (\<lambda>c. c \<noteq> CHR 0x00) msg"

definition e9_print :: "string \<Rightarrow> 'a machine_scheme \<Rightarrow> 'a machine_scheme" where
  "e9_print msg s = fold e9_putc (c_string msg) s"

definition e9_puts :: "string \<Rightarrow> 'a machine_scheme \<Rightarrow> 'a machine_scheme" where
  "e9_puts msg s = e9_putc (CHR 0x0A) (e9_print msg s)"

section \<open>Numbers\<close>

definition CONVERSION_TABLE :: string where
  "CONVERSION_TABLE = ''0123456789abcdef''"

text \<open>
  The loops \<open>for (i = 15; num; i--)\<close> and \<open>for (i = 19; num; i--)\<close>; the result is the final \<open>i\<close>
  and the buffer. A write below index 0 would be out of bounds; \<open>digit_loop\<close> reports it as \<open>None\<close>.
\<close>

function digit_loop :: "u64 \<Rightarrow> (u64 \<Rightarrow> char) \<Rightarrow> int \<Rightarrow> u64 \<Rightarrow> string \<Rightarrow> (int \<times> string) option" where
  "digit_loop b digit i num buf =
     (if num = 0 \<or> b \<le> 1 then Some (i, buf)
      else if i < 0 then None
      else digit_loop b digit (i - 1) (num div b) (buf[nat i := digit (num mod b)]))"
  by pat_completeness auto
termination
proof (relation "measure (\<lambda>(b, digit, i, num, buf). unat num)")
  fix b :: u64 and digit :: "u64 \<Rightarrow> char" and i :: int and num :: u64 and buf :: string
  assume "\<not> (num = 0 \<or> b \<le> 1)"
  then have "num \<noteq> 0" "1 < unat b" by (auto simp: word_le_nat_alt)
  then have "unat num div unat b < unat num"
    by (intro div_less_dividend) (simp_all add: unat_gt_0)
  then show "((b, digit, i - 1, num div b, buf[nat i := digit (num mod b)]), b, digit, i, num, buf)
      \<in> measure (\<lambda>(b, digit, i, num, buf). unat num)"
    by (simp add: unat_div)
qed simp

declare digit_loop.simps [simp del]

definition hex_digit :: "u64 \<Rightarrow> char" where
  "hex_digit d = CONVERSION_TABLE ! unat d"

definition dec_digit :: "u64 \<Rightarrow> char" where
  "dec_digit d = char_of (unat (d + 0x30))"

text \<open>
  The buffer of \<open>e9_printhex\<close> is uninitialised but for its last byte; \<open>junk\<close> is what it holds.
  The text printed by the routine is returned; \<open>None\<close> is an access outside the buffer.
\<close>

definition e9_printhex :: "string \<Rightarrow> u64 \<Rightarrow> string option" where
  "e9_printhex junk num =
     (if num = 0 then Some ''0x0''
      else map_option (\<lambda>(i, buf). ''0x'' @ c_string (drop (nat (i + 1)) buf))
        (digit_loop 16 hex_digit 15 num (junk[16 := CHR 0x00])))"

definition e9_printdec :: "u64 \<Rightarrow> string option" where
  "e9_printdec num =
     (if num = 0 then Some ''0''
      else map_option (\<lambda>(i, buf). c_string (drop (nat (i + 1)) buf))
        (digit_loop 10 dec_digit 19 num (replicate 21 (CHR 0x00))))"

section \<open>Formats\<close>

text \<open>
  The arguments after the format. The text a format stands for, or \<open>None\<close> where the call has
  undefined behaviour: an argument is missing or of the wrong kind, or the format ends in a lone
  percent sign, after which the scan steps over the terminator.
\<close>

datatype vararg = ArgNum u64 | ArgStr string

fun e9_format :: "string \<Rightarrow> vararg list \<Rightarrow> string option" where
  "e9_format [] args = Some []"
| "e9_format (c # fmt) args =
     (if c \<noteq> CHR ''%'' then map_option (Cons c) (e9_format fmt args)
      else case fmt of
        [] \<Rightarrow> None
      | d # rest \<Rightarrow>
          if d = CHR ''x'' then
            (case args of ArgNum n # args' \<Rightarrow>
               (case e9_printhex (replicate 17 (CHR 0x00)) n of None \<Rightarrow> None
                | Some t \<Rightarrow> map_option (append t) (e9_format rest args'))
             | _ \<Rightarrow> None)
          else if d = CHR ''d'' then
            (case args of ArgNum n # args' \<Rightarrow>
               (case e9_printdec n of None \<Rightarrow> None
                | Some t \<Rightarrow> map_option (append t) (e9_format rest args'))
             | _ \<Rightarrow> None)
          else if d = CHR ''s'' then
            (case args of ArgStr t # args' \<Rightarrow>
               map_option (append (c_string t)) (e9_format rest args')
             | _ \<Rightarrow> None)
          else e9_format rest args)"

definition e9_printf :: "string \<Rightarrow> vararg list \<Rightarrow> 'a machine_scheme \<Rightarrow> 'a machine_scheme option" where
  "e9_printf fmt args s = map_option (\<lambda>t. fold e9_putc t s) (e9_format (c_string fmt) args)"

section \<open>What is printed\<close>

text \<open>The numeral of a number in base \<open>b\<close>, most significant digit first, and its value.\<close>

function numeral_digits :: "nat \<Rightarrow> nat \<Rightarrow> nat list" where
  "numeral_digits b n = (if n = 0 \<or> b \<le> 1 then [] else numeral_digits b (n div b) @ [n mod b])"
  by pat_completeness auto
termination by (relation "measure snd") auto

declare numeral_digits.simps [simp del]

definition numeral_value :: "nat \<Rightarrow> nat list \<Rightarrow> nat" where
  "numeral_value b ds = fold (\<lambda>d n. n * b + d) ds 0"

lemma numeral_value_snoc: "numeral_value b (ds @ [d]) = numeral_value b ds * b + d"
  by (simp add: numeral_value_def)

lemma numeral_digits_value: "1 < b \<Longrightarrow> numeral_value b (numeral_digits b n) = n"
proof (induction b n rule: numeral_digits.induct)
  case (1 b n)
  then show ?case
    by (subst numeral_digits.simps) (auto simp: numeral_value_snoc, simp add: numeral_value_def)
qed

lemma numeral_digits_less: "1 < b \<Longrightarrow> d \<in> set (numeral_digits b n) \<Longrightarrow> d < b"
proof (induction b n rule: numeral_digits.induct)
  case (1 b n)
  then show ?case by (subst (asm) (2) numeral_digits.simps) (auto split: if_splits)
qed

lemma numeral_digits_length: "n < b ^ k \<Longrightarrow> length (numeral_digits b n) \<le> k"
proof (induction k arbitrary: n)
  case 0
  then show ?case by (simp add: numeral_digits.simps)
next
  case (Suc k)
  then have "n div b < b ^ k" by (simp add: less_mult_imp_div_less mult.commute)
  then show ?case using Suc.IH by (subst numeral_digits.simps) simp
qed

lemma digit_loop_eq:
  assumes "1 < unat b" "length (numeral_digits (unat b) (unat num)) \<le> k" "k \<le> length buf"
  shows "digit_loop b digit (int k - 1) num buf =
    (let ds = numeral_digits (unat b) (unat num) in
     Some (int k - 1 - int (length ds),
       take (k - length ds) buf @ map (digit \<circ> of_nat) ds @ drop k buf))"
  using assms(2,3)
proof (induction "unat num" arbitrary: num k buf rule: less_induct)
  case less
  have b: "\<not> b \<le> 1" using assms(1) by (simp add: word_le_nat_alt)
  show ?case
  proof (cases "num = 0")
    case True
    then show ?thesis using less.prems
      by (subst digit_loop.simps) (simp add: numeral_digits.simps)
  next
    case False
    let ?ds = "numeral_digits (unat b) (unat (num div b))"
    have ds: "numeral_digits (unat b) (unat num) = ?ds @ [unat (num mod b)]"
      using False assms(1) by (subst numeral_digits.simps) (simp add: unat_div unat_mod unat_eq_0)
    then obtain k' where k: "k = Suc k'" using less.prems by (cases k) auto
    have lt: "unat (num div b) < unat num"
      using False assms(1) by (simp add: unat_div unat_gt_0)
    have "digit_loop b digit (int k' - 1) (num div b) (buf[k' := digit (num mod b)]) =
      Some (int k' - 1 - int (length ?ds),
        take (k' - length ?ds) (buf[k' := digit (num mod b)]) @ map (digit \<circ> of_nat) ?ds @
        drop k' (buf[k' := digit (num mod b)]))"
      using less.hyps [OF lt, of k' "buf[k' := digit (num mod b)]"] less.prems ds k
      by (simp add: Let_def)
    moreover have "drop k' (buf[k' := digit (num mod b)]) = digit (num mod b) # drop k buf"
      using less.prems k by (simp add: drop_update_swap flip: Cons_nth_drop_Suc)
    moreover have "digit_loop b digit (int k - 1) num buf =
      digit_loop b digit (int k' - 1) (num div b) (buf[k' := digit (num mod b)])"
      using False b k by (subst digit_loop.simps) simp
    ultimately show ?thesis using k ds by (simp add: Let_def)
  qed
qed

lemma c_string_digits:
  "\<forall>c \<in> set cs. c \<noteq> CHR 0x00 \<Longrightarrow> c_string (cs @ CHR 0x00 # rest) = cs"
  by (simp add: c_string_def takeWhile_append1)

lemma hex_digit_table: "d < 16 \<Longrightarrow> hex_digit (of_nat d) = CONVERSION_TABLE ! d"
  by (simp add: hex_digit_def unat64_of_nat)

lemma conversion_table_not_nul: "d < 16 \<Longrightarrow> CONVERSION_TABLE ! d \<noteq> CHR 0x00"
  by (auto simp: CONVERSION_TABLE_def nth_Cons' numeral_eq_Suc less_Suc_eq)

lemma dec_digit_char: "d < 10 \<Longrightarrow> dec_digit (of_nat d) = char_of (d + 48)"
  by (simp add: dec_digit_def unat64_add_nowrap unat64_of_nat)

lemma dec_char_not_nul: "d < 10 \<Longrightarrow> char_of (d + 48 :: nat) \<noteq> CHR 0x00"
proof
  assume "d < 10" "char_of (d + 48) = CHR 0x00"
  then have "of_char (char_of (d + 48)) = (of_char (CHR 0x00) :: nat)" by simp
  then show False using \<open>d < 10\<close> by simp
qed

lemma digits_printed:
  assumes "1 < unat b" "length (numeral_digits (unat b) (unat num)) \<le> k" "k < length buf"
    and "buf ! k = CHR 0x00"
    and digit: "\<And>d. d < unat b \<Longrightarrow> digit (of_nat d) \<noteq> CHR 0x00"
  shows "map_option (\<lambda>(i, buf). c_string (drop (nat (i + 1)) buf)) (digit_loop b digit (int k - 1) num buf)
    = Some (map (digit \<circ> of_nat) (numeral_digits (unat b) (unat num)))"
proof -
  let ?ds = "numeral_digits (unat b) (unat num)"
  have "drop k buf = CHR 0x00 # drop (Suc k) buf"
    using assms(3,4) by (metis Cons_nth_drop_Suc)
  moreover have "\<forall>c \<in> set (map (digit \<circ> of_nat) ?ds). c \<noteq> CHR 0x00"
    unfolding set_map ball_simps comp_def
    by (intro ballI digit numeral_digits_less [OF assms(1)])
  ultimately have "c_string (map (digit \<circ> of_nat) ?ds @ drop k buf) = map (digit \<circ> of_nat) ?ds"
    by (simp add: c_string_digits)
  moreover have "nat (int k - 1 - int (length ?ds) + 1) = k - length ?ds" by simp
  ultimately show ?thesis
    using assms(2,3) by (simp add: digit_loop_eq [OF assms(1)] Let_def)
qed

lemma hex_length: "length (numeral_digits 16 (unat (num :: u64))) \<le> 16"
  by (rule numeral_digits_length) (use unat64_bound [of num] in simp)

lemma dec_length: "length (numeral_digits 10 (unat (num :: u64))) \<le> 20"
  by (rule numeral_digits_length) (use unat64_bound [of num] in simp)

lemma printhex_digits:
  assumes "length junk = 17" "num \<noteq> 0"
  shows "e9_printhex junk num =
    Some (''0x'' @ map ((!) CONVERSION_TABLE) (numeral_digits 16 (unat num)))"
proof -
  have "map_option (\<lambda>(i, buf). c_string (drop (nat (i + 1)) buf))
      (digit_loop 16 hex_digit (int 16 - 1) num (junk[16 := CHR 0x00]))
    = Some (map (hex_digit \<circ> of_nat) (numeral_digits (unat (16 :: u64)) (unat num)))"
    by (rule digits_printed)
      (use assms hex_length [of num] in \<open>simp_all add: hex_digit_table conversion_table_not_nul\<close>)
  moreover have "map (hex_digit \<circ> of_nat) (numeral_digits 16 (unat num))
    = map ((!) CONVERSION_TABLE) (numeral_digits 16 (unat num))"
    by (auto simp: hex_digit_table dest: numeral_digits_less [rotated])
  ultimately show ?thesis
    using assms(2) by (auto simp: e9_printhex_def option.map_comp comp_def split_beta
        split: option.splits prod.splits)
qed

lemma printdec_digits:
  assumes "num \<noteq> 0"
  shows "e9_printdec num = Some (map (\<lambda>d. char_of (d + 48)) (numeral_digits 10 (unat num)))"
proof -
  have "map_option (\<lambda>(i, buf). c_string (drop (nat (i + 1)) buf))
      (digit_loop 10 dec_digit (int 20 - 1) num (replicate 21 (CHR 0x00)))
    = Some (map (dec_digit \<circ> of_nat) (numeral_digits (unat (10 :: u64)) (unat num)))"
    by (rule digits_printed)
      (use dec_length [of num] in \<open>simp_all add: dec_digit_char dec_char_not_nul\<close>)
  moreover have "map (dec_digit \<circ> of_nat) (numeral_digits 10 (unat num))
    = map (\<lambda>d. char_of (d + 48)) (numeral_digits 10 (unat num))"
    by (auto simp: dec_digit_char dest: numeral_digits_less [rotated])
  ultimately show ?thesis using assms by (simp add: e9_printdec_def)
qed

text \<open>Reading a printed number back: the value of its characters.\<close>

definition read_hex :: "string \<Rightarrow> nat" where
  "read_hex cs = numeral_value 16
     (map (\<lambda>c. length (takeWhile (\<lambda>t. t \<noteq> c) CONVERSION_TABLE)) (drop 2 cs))"

definition read_dec :: "string \<Rightarrow> nat" where
  "read_dec cs = numeral_value 10 (map (\<lambda>c. of_char c - 48) cs)"

lemma table_position: "d < 16 \<Longrightarrow>
    length (takeWhile (\<lambda>t. t \<noteq> CONVERSION_TABLE ! d) CONVERSION_TABLE) = d"
proof -
  assume d: "d < 16"
  have len: "length CONVERSION_TABLE = 16" and dist: "distinct CONVERSION_TABLE"
    by (simp_all add: CONVERSION_TABLE_def)
  have "takeWhile (\<lambda>t. t \<noteq> CONVERSION_TABLE ! d) CONVERSION_TABLE = take d CONVERSION_TABLE"
    by (rule takeWhile_eq_take_P_nth) (use d len dist in \<open>auto simp: nth_eq_iff_index_eq\<close>)
  then show ?thesis using d len by simp
qed

lemma read_hex_digits:
  "read_hex (''0x'' @ map ((!) CONVERSION_TABLE) (numeral_digits 16 n)) = n"
proof -
  have "map (\<lambda>c. length (takeWhile (\<lambda>t. t \<noteq> c) CONVERSION_TABLE))
      (map ((!) CONVERSION_TABLE) (numeral_digits 16 n)) = map (\<lambda>d. d) (numeral_digits 16 n)"
    unfolding map_map
    by (rule map_cong) (auto simp: table_position dest: numeral_digits_less [rotated])
  then show ?thesis by (simp add: read_hex_def numeral_digits_value)
qed

lemma read_dec_digits: "read_dec (map (\<lambda>d. char_of (d + 48)) (numeral_digits 10 n)) = n"
proof -
  have "of_char (char_of (d + 48 :: nat)) - 48 = d" if "d < 10" for d :: nat
    using that by (simp add: take_bit_eq_mod)
  then have "map (\<lambda>c. of_char c - 48) (map (\<lambda>d. char_of (d + 48)) (numeral_digits 10 n))
    = map (\<lambda>d. d) (numeral_digits 10 n)"
    unfolding map_map by (intro map_cong) (auto dest: numeral_digits_less [rotated])
  then show ?thesis by (simp add: read_dec_def numeral_digits_value)
qed

lemma read_printhex:
  assumes "length junk = 17"
  shows "\<exists>t. e9_printhex junk num = Some t \<and> read_hex t = unat num"
proof (cases "num = 0")
  case True
  then show ?thesis
    by (simp add: e9_printhex_def read_hex_def CONVERSION_TABLE_def numeral_value_def)
next
  case False
  then show ?thesis by (metis printhex_digits [OF assms] read_hex_digits)
qed

lemma read_printdec: "\<exists>t. e9_printdec num = Some t \<and> read_dec t = unat num"
proof (cases "num = 0")
  case True
  then show ?thesis by (simp add: e9_printdec_def read_dec_def numeral_value_def)
next
  case False
  then show ?thesis by (metis printdec_digits read_dec_digits)
qed

text \<open>The events a printed text leaves in the log.\<close>

lemma fold_putc_log:
  "fold e9_putc t s = s\<lparr>io_log := io_log s @
     concat (map (\<lambda>c. (if limine_print s then [LiminePrint c] else []) @ [Outb 0xe9 (of_char c)]) t)\<rparr>"
  by (induction t arbitrary: s) (auto simp: e9_putc_def)

lemma e9_print_mem [simp]: "mem (e9_print t s) = mem s"
  by (simp add: e9_print_def fold_putc_log)

section \<open>Properties\<close>

text \<open>
  what \<open>e9_printhex\<close> prints for any 64-bit number is its hexadecimal numeral: it starts with 0x
  and reads back as the number, whatever the uninitialised buffer holds, and no access leaves the
  17-byte buffer.
\<close>

theorem printhex_roundtrip:
  assumes "length junk = 17"
  shows "\<exists>t. e9_printhex junk num = Some t \<and> take 2 t = ''0x'' \<and> read_hex t = unat num"
proof (cases "num = 0")
  case True
  then show ?thesis using read_printhex [OF assms, of num] by (simp add: e9_printhex_def)
next
  case False
  then show ?thesis using printhex_digits [OF assms False] read_hex_digits [of "unat num"] by simp
qed

theorem printhex_roundtrip_witness:
  "\<exists>t. e9_printhex (replicate 17 (CHR ''?'')) 0xBEEF = Some t \<and> take 2 t = ''0x'' \<and> read_hex t = 48879"
  using printhex_roundtrip [of "replicate 17 (CHR ''?'')" "0xBEEF"] by simp

text \<open>
  what \<open>e9_printdec\<close> prints for any 64-bit number reads back as the number, and no access leaves
  its 21-byte buffer: twenty digits are enough.
\<close>

theorem printdec_roundtrip: "\<exists>t. e9_printdec num = Some t \<and> length t \<le> 20 \<and> read_dec t = unat num"
proof (cases "num = 0")
  case True
  then show ?thesis by (simp add: e9_printdec_def read_dec_def numeral_value_def)
next
  case False
  then show ?thesis using printdec_digits [OF False] read_dec_digits [of "unat num"] dec_length [of num]
    by simp
qed

end
