(* ===== verification/Boot.thy ===== *)
theory Boot
  imports E9print
begin

text \<open>
  The boot code of \<open>kernel/boot.cpp\<close> and the structures of \<open>kernel/boot.h\<close>: from the answers of the
  Limine boot loader \<open>_start\<close> builds the boot information the rest of the kernel reads, choosing the
  memory region the frame allocator will own and the font file. Limine's own structures are not
  part of the repository; a record holds the fields the code reads from them, and a response that
  is a null pointer is \<open>None\<close>.
\<close>

section \<open>Structures\<close>

record Framebuffer =
  BaseAddress :: ptr
  BufferSize :: u64
  Width :: u32
  Height :: u32
  PixelsPerScanLine :: u32

record PSF1_FONT =
  psf1_Header :: ptr
  glyphBuffer :: ptr

record Memory =
  freeMemStart :: ptr
  extraMemStart :: ptr
  freeMemSize :: u64
  kernelStart :: ptr
  kernelSize :: u64
  kernelStartV :: ptr
  hhdmOffset :: u64

record bootInfo =
  framebuffer :: Framebuffer
  psf1Font :: PSF1_FONT
  memory :: Memory

definition zero_Memory :: Memory where
  "zero_Memory = \<lparr>freeMemStart = 0, extraMemStart = 0, freeMemSize = 0, kernelStart = 0,
     kernelSize = 0, kernelStartV = 0, hhdmOffset = 0\<rparr>"

definition zero_bootInfo :: bootInfo where
  "zero_bootInfo = \<lparr>framebuffer = \<lparr>BaseAddress = 0, BufferSize = 0, Width = 0, Height = 0,
     PixelsPerScanLine = 0\<rparr>, psf1Font = \<lparr>psf1_Header = 0, glyphBuffer = 0\<rparr>, memory = zero_Memory\<rparr>"

record boot_state = machine +
  globalBootInfo :: bootInfo

definition setBootInfo :: "bootInfo \<Rightarrow> 'a boot_state_scheme \<Rightarrow> 'a boot_state_scheme" where
  "setBootInfo b s = s\<lparr>globalBootInfo := b\<rparr>"

definition getBootInfo :: "'a boot_state_scheme \<Rightarrow> bootInfo" where
  "getBootInfo s = globalBootInfo s"

text \<open>
  \<open>haltAndCatchFire\<close> of \<open>boot.h\<close>, the kernel's panic: it prints where it was called and halts. The
  message argument defaults to the empty literal, which prints nothing.
\<close>

definition haltAndCatchFire ::
    "string \<Rightarrow> u32 \<Rightarrow> string \<Rightarrow> 'a machine_scheme \<Rightarrow> ('b, 'a machine_scheme) outcome" where
  "haltAndCatchFire fileName lineNo msg s =
     of_defined (e9_printf (CHR 0x0A # ''ERROR at %s:%d'' @ [CHR 0x0A])
       [ArgStr fileName, ArgNum (ucast lineNo)] s) (\<lambda>s.
     of_defined (e9_printf (''Halting and catching fire!!'' @ [CHR 0x0A]) [] s) (\<lambda>s.
     of_defined (if msg \<noteq> [] then e9_printf (''Error message: %s'' @ [CHR 0x0A]) [ArgStr msg] s else Some s)
       (\<lambda>s. Halted s)))"

section \<open>What the boot loader answers\<close>

datatype memmap_type =
    LIMINE_MEMMAP_USABLE | LIMINE_MEMMAP_RESERVED | LIMINE_MEMMAP_ACPI_RECLAIMABLE
  | LIMINE_MEMMAP_ACPI_NVS | LIMINE_MEMMAP_BAD_MEMORY | LIMINE_MEMMAP_BOOTLOADER_RECLAIMABLE
  | LIMINE_MEMMAP_KERNEL_AND_MODULES | LIMINE_MEMMAP_FRAMEBUFFER | OtherMemmapType u64

record limine_memmap_entry =
  me_base :: u64
  me_length :: u64
  me_type :: memmap_type

record limine_framebuffer =
  lfb_address :: ptr
  lfb_width :: u64
  lfb_height :: u64
  lfb_pitch :: u64

record limine_file =
  file_address :: ptr
  file_path :: string

record limine_kernel_address =
  ka_revision :: u64
  physical_base :: u64
  virtual_base :: u64

record limine =
  lim_terminal_count :: "nat option"
  lim_framebuffers :: "limine_framebuffer list option"
  lim_memmap :: "limine_memmap_entry list option"
  lim_kernel_address :: "limine_kernel_address option"
  lim_modules :: "limine_file list option"
  lim_hhdm_offset :: "u64 option"

fun get_memmap_type :: "memmap_type \<Rightarrow> string" where
  "get_memmap_type LIMINE_MEMMAP_USABLE = ''Usable''"
| "get_memmap_type LIMINE_MEMMAP_RESERVED = ''Reserved''"
| "get_memmap_type LIMINE_MEMMAP_ACPI_RECLAIMABLE = ''ACPI reclaimable''"
| "get_memmap_type LIMINE_MEMMAP_ACPI_NVS = ''ACPI NVS''"
| "get_memmap_type LIMINE_MEMMAP_BAD_MEMORY = ''Bad memory''"
| "get_memmap_type LIMINE_MEMMAP_BOOTLOADER_RECLAIMABLE = ''Bootloader reclaimable''"
| "get_memmap_type LIMINE_MEMMAP_KERNEL_AND_MODULES = ''Kernel and modules''"
| "get_memmap_type LIMINE_MEMMAP_FRAMEBUFFER = ''Framebuffer''"
| "get_memmap_type (OtherMemmapType t) = ''???''"

section \<open>The font file\<close>

text \<open>
  The backward comparison of \<open>checkStringEndsWith\<close>, on the indices of the two pointers; \<open>None\<close>
  where it reads outside a string.
\<close>

function ends_with_loop :: "string \<Rightarrow> string \<Rightarrow> int \<Rightarrow> int \<Rightarrow> bool option" where
  "ends_with_loop s e p q =
     (if p < 0 \<or> q < 0 then None
      else if s ! nat p \<noteq> e ! nat q then Some False
      else if q - 1 = 0 \<or> (p - 1 = 0 \<and> q - 1 = 0) then Some True
      else if p - 1 = 0 then Some False
      else ends_with_loop s e (p - 1) (q - 1))"
  by pat_completeness auto
termination by (relation "measure (\<lambda>(s, e, p, q). nat (q + 1))") auto

declare ends_with_loop.simps [simp del]

definition checkStringEndsWith :: "string \<Rightarrow> string \<Rightarrow> bool option" where
  "checkStringEndsWith str e = ends_with_loop str e (int (length str) - 1) (int (length e) - 1)"

fun getFile :: "limine_file list \<Rightarrow> limine_file option option" where
  "getFile [] = Some None"
| "getFile (f # fs) =
     (case checkStringEndsWith (file_path f) ''zap-light16.psf'' of
        None \<Rightarrow> None
      | Some True \<Rightarrow> Some (Some f)
      | Some False \<Rightarrow> getFile fs)"

section \<open>The memory map\<close>

text \<open>
  One round of the loop over the memory map; the state is \<open>freeMemStart\<close>, \<open>freeMemSize\<close> and
  \<open>kernelSize\<close>.
\<close>

definition memmap_step ::
    "ptr \<Rightarrow> limine_memmap_entry \<Rightarrow> ptr \<times> u64 \<times> u64 \<Rightarrow> ptr \<times> u64 \<times> u64" where
  "memmap_step kstart e acc = (case acc of (freeStart, freeSize, kSize) \<Rightarrow>
     if me_type e = LIMINE_MEMMAP_USABLE then
       (if me_length e > freeSize then (me_base e, me_length e, kSize) else acc)
     else if me_base e = kstart then (freeStart, freeSize, me_length e)
     else acc)"

definition memmap_scan :: "ptr \<Rightarrow> limine_memmap_entry list \<Rightarrow> ptr \<times> u64 \<times> u64" where
  "memmap_scan kstart es = fold (memmap_step kstart) es (0, 0, 1)"

section \<open>The entry point\<close>

text \<open>\<open>done()\<close>: print and halt for good.\<close>

definition boot_done :: "'a machine_scheme \<Rightarrow> ('b, 'a machine_scheme) outcome" where
  "boot_done s = Halted (e9_print ''initialisation done'' s)"

definition terminal_write :: "string \<Rightarrow> u64 \<Rightarrow> 'a machine_scheme \<Rightarrow> 'a machine_scheme" where
  "terminal_write t n s = s\<lparr>io_log := io_log s @ [TerminalWrite t n]\<rparr>"

text \<open>A literal with its newlines: \<open>nl t n\<close> is \<open>t\<close> followed by \<open>n\<close> line feeds.\<close>

definition nl :: "string \<Rightarrow> nat \<Rightarrow> string" where
  "nl t n = t @ replicate n (CHR 0x0A)"

definition boot_printf :: "string \<Rightarrow> vararg list \<Rightarrow> 'a machine_scheme \<Rightarrow>
    (unit, 'a machine_scheme) outcome" where
  "boot_printf fmt args s = of_defined (e9_printf fmt args s) (Done ())"

definition PSF1_MAGIC0 :: u8 where "PSF1_MAGIC0 = 0x36"
definition PSF1_MAGIC1 :: u8 where "PSF1_MAGIC1 = 0x04"

definition start_terminal ::
    "limine \<Rightarrow> 'a boot_state_scheme \<Rightarrow> (unit, 'a boot_state_scheme) outcome" where
  "start_terminal lim s =
     (if lim_terminal_count lim = None \<or> the (lim_terminal_count lim) < 1 then boot_done s
      else Done () (terminal_write (nl ''Starting Boot init...'' 2) 24 (s\<lparr>limine_print := True\<rparr>)))"

definition start_framebuffer ::
    "limine \<Rightarrow> 'a boot_state_scheme \<Rightarrow> (Framebuffer, 'a boot_state_scheme) outcome" where
  "start_framebuffer lim s =
     (case lim_framebuffers lim of
        Some (lFb # _) \<Rightarrow>
          Done \<lparr>BaseAddress = lfb_address lFb, BufferSize = lfb_height lFb * lfb_pitch lFb,
              Width = ucast (lfb_width lFb), Height = ucast (lfb_height lFb),
              PixelsPerScanLine = ucast (lfb_pitch lFb div 4)\<rparr>
            (terminal_write (nl ''Framebuffer loaded!'' 1) 21 (e9_print ''> LIMINE_SUCCESS: '' s))
      | _ \<Rightarrow> boot_done (terminal_write (nl ''Framebuffer is NULL!'' 1) 22 (e9_print ''LIMINE_ERROR: '' s)))"

definition start_kernel_address ::
    "limine \<Rightarrow> 'a boot_state_scheme \<Rightarrow>
      (limine_memmap_entry list \<times> limine_kernel_address, 'a boot_state_scheme) outcome" where
  "start_kernel_address lim s =
     (case lim_memmap lim of
        None \<Rightarrow> boot_done (e9_print (nl ''Memory map not passed'' 1) (e9_print ''LIMINE_ERROR: '' s))
      | Some entries \<Rightarrow>
          (case lim_kernel_address lim of
             None \<Rightarrow> boot_done (e9_print (nl ''Kernel address not passed'' 1) (e9_print ''LIMINE_ERROR: '' s))
           | Some ka \<Rightarrow>
               obind (boot_printf (nl ''Information about where the kernel is loaded: '' 1) [] s) (\<lambda>_ s.
               obind (boot_printf (nl ''Kernel address feature, revision %d'' 1) [ArgNum (ka_revision ka)] s) (\<lambda>_ s.
               obind (boot_printf (nl ''Physical base: %x'' 1) [ArgNum (physical_base ka)] s) (\<lambda>_ s.
               obind (boot_printf (nl ''Virtual base: %x'' 2) [ArgNum (virtual_base ka)] s) (\<lambda>_ s.
               Done (entries, ka) s))))))"

definition start_font ::
    "limine \<Rightarrow> 'a boot_state_scheme \<Rightarrow> (PSF1_FONT, 'a boot_state_scheme) outcome" where
  "start_font lim s =
     (case lim_modules lim of
        None \<Rightarrow> boot_done (e9_print (nl ''Modules not passed!'' 2) s)
      | Some ms \<Rightarrow>
          of_defined (getFile ms) (\<lambda>file. case file of
             None \<Rightarrow>
               obind (boot_printf (nl ''Failed to get Font \"%s\"!'' 1) [ArgStr ''zap-light16.psf'']
                  (e9_print ''LIMINE_ERROR: '' s)) (\<lambda>_ s. boot_done s)
           | Some f \<Rightarrow>
               if mem s (file_address f) \<noteq> PSF1_MAGIC0 \<or> mem s (file_address f + 1) \<noteq> PSF1_MAGIC1 then
                 boot_done (e9_print (nl ''FONT HEADER INVALID!'' 1) (e9_print ''LIMINE_ERROR: '' s))
               else Done \<lparr>psf1_Header = file_address f, glyphBuffer = file_address f + 4\<rparr> s))"

text \<open>The last messages, and the boot information.\<close>

definition start_publish ::
    "Framebuffer \<Rightarrow> PSF1_FONT \<Rightarrow> Memory \<Rightarrow> 'a boot_state_scheme \<Rightarrow> (unit, 'a boot_state_scheme) outcome" where
  "start_publish fb font mi s =
     obind (boot_printf ''LIMINE_INFO: '' [] s) (\<lambda>_ s.
     obind (boot_printf (nl ''Kernel Start: %x (Size: %d Bytes)'' 1)
       [ArgNum (kernelStart mi), ArgNum (kernelSize mi)] s) (\<lambda>_ s.
     obind (boot_printf ''LIMINE_INFO: '' [] s) (\<lambda>_ s.
     obind (boot_printf (nl ''OS has %d MB of RAM. (Starts at %x)'' 2)
       [ArgNum (freeMemSize mi div 1000000), ArgNum (extraMemStart mi)] s) (\<lambda>_ s.
     obind (boot_printf ''> LIMINE_SUCCESS: '' [] s) (\<lambda>_ s.
     Done () (setBootInfo \<lparr>framebuffer = fb, psf1Font = font, memory = mi\<rparr>
       (terminal_write (nl ''Completed Boot Init!'' 1) 23 s)))))))"

text \<open>
  \<open>_start\<close>: the rest of the kernel, \<open>setupOptimist\<close>, is the argument; \<open>idle\<close>, which follows it,
  never returns.
\<close>

definition start_boot ::
    "limine \<Rightarrow> 'a boot_state_scheme \<Rightarrow> (unit, 'a boot_state_scheme) outcome" where
  "start_boot lim s =
     obind (start_terminal lim s) (\<lambda>_ s.
     obind (start_framebuffer lim s) (\<lambda>fb s.
     obind (start_kernel_address lim s) (\<lambda>(entries, ka) s.
     case memmap_scan (physical_base ka) entries of (freeStart, freeSize, kSize) \<Rightarrow>
       if freeStart = 0 then boot_done (e9_print (nl ''No valid Memory space found for OS!'' 1) s)
       else
         obind (start_font lim s) (\<lambda>font s.
           case lim_hhdm_offset lim of
             None \<Rightarrow> boot_done (e9_print (''HHDM request wasn'' @ [CHR 0x27] @ ''t fulfilled'') s)
           | Some offset \<Rightarrow>
               start_publish fb font
                 \<lparr>freeMemStart = freeStart, extraMemStart = freeStart, freeMemSize = freeSize,
                  kernelStart = physical_base ka, kernelSize = kSize,
                  kernelStartV = virtual_base ka, hhdmOffset = offset\<rparr> s))))"

definition start :: "('a boot_state_scheme \<Rightarrow> (int, 'a boot_state_scheme) outcome) \<Rightarrow>
    limine \<Rightarrow> 'a boot_state_scheme \<Rightarrow> (unit, 'a boot_state_scheme) outcome" where
  "start setupOptimist lim s =
     obind (start_boot lim s) (\<lambda>_ s. obind (setupOptimist s) (\<lambda>_ s. Loops))"

section \<open>The region of the frame allocator\<close>

lemma memmap_step_cases:
  assumes "memmap_step kstart e (b0, n0, k0) = (b, n, k)"
  shows "n0 \<le> n \<and> (me_type e = LIMINE_MEMMAP_USABLE \<longrightarrow> me_length e \<le> n) \<and>
    ((b, n) = (b0, n0) \<or>
      (me_type e = LIMINE_MEMMAP_USABLE \<and> me_base e = b \<and> me_length e = n \<and> n0 < n))"
  using assms by (auto simp: memmap_step_def not_less split: if_splits)

lemma memmap_scan_inv:
  assumes "fold (memmap_step kstart) es (b0, n0, k0) = (b, n, k)"
  shows "n0 \<le> n \<and> (\<forall>e \<in> set es. me_type e = LIMINE_MEMMAP_USABLE \<longrightarrow> me_length e \<le> n) \<and>
    ((b, n) = (b0, n0) \<or>
      (\<exists>e \<in> set es. me_type e = LIMINE_MEMMAP_USABLE \<and> me_base e = b \<and> me_length e = n \<and> n0 < n))"
  using assms
proof (induction es arbitrary: b0 n0 k0)
  case (Cons e es)
  obtain b1 n1 k1 where step: "memmap_step kstart e (b0, n0, k0) = (b1, n1, k1)"
    by (metis prod_cases3)
  then have rest: "fold (memmap_step kstart) es (b1, n1, k1) = (b, n, k)"
    using Cons.prems by simp
  show ?case
    using Cons.IH [OF rest] memmap_step_cases [OF step]
    by (auto dest: order_trans le_less_trans less_le_trans)
qed simp

lemma memmap_scan_cases:
  assumes "memmap_scan kstart es = (b, n, k)"
  shows "(\<forall>e \<in> set es. me_type e = LIMINE_MEMMAP_USABLE \<longrightarrow> me_length e \<le> n) \<and>
    (n = 0 \<longrightarrow> b = 0) \<and>
    (n \<noteq> 0 \<longrightarrow> (\<exists>e \<in> set es. me_type e = LIMINE_MEMMAP_USABLE \<and> me_base e = b \<and> me_length e = n))"
  using memmap_scan_inv [OF assms [unfolded memmap_scan_def]] by auto

section \<open>The path comparison\<close>

lemma ends_with_loop_eq:
  "ends_with_loop s e (int (Suc p)) (int (Suc q)) =
     Some (q \<le> p \<and> (\<forall>j \<le> q. s ! (Suc p - j) = e ! (Suc q - j)))"
proof (induction q arbitrary: p)
  case 0
  show ?case by (subst ends_with_loop.simps) (simp add: nat_add_distrib)
next
  case (Suc q)
  show ?case
  proof (cases p)
    case 0
    then show ?thesis by (subst ends_with_loop.simps) auto
  next
    case (Suc p')
    let ?P = "\<lambda>j. s ! (Suc p - j) = e ! (Suc (Suc q) - j)"
    have "(\<forall>j \<le> Suc q. ?P j) \<longleftrightarrow> ?P 0 \<and> (\<forall>j \<le> q. ?P (Suc j))"
      by (metis Suc_le_mono not0_implies_Suc zero_le)
    then have split: "(\<forall>j \<le> Suc q. ?P j) \<longleftrightarrow>
        s ! Suc p = e ! Suc (Suc q) \<and> (\<forall>j \<le> q. s ! (Suc p' - j) = e ! (Suc q - j))"
      using Suc by simp
    have "ends_with_loop s e (int (Suc p)) (int (Suc (Suc q))) =
        (if s ! Suc p \<noteq> e ! Suc (Suc q) then Some False
         else ends_with_loop s e (int (Suc p')) (int (Suc q)))"
      using Suc by (subst ends_with_loop.simps) (simp add: nat_add_distrib)
    then show ?thesis using Suc.IH [of p'] Suc unfolding split by auto
  qed
qed

lemma checkStringEndsWith_eq:
  assumes "2 \<le> length str" "2 \<le> length e"
  shows "checkStringEndsWith str e = Some (\<exists>pre c. str = pre @ c # tl e)"
proof -
  obtain p q where pq: "length str = Suc (Suc p)" "length e = Suc (Suc q)"
    using assms by (metis Suc_le_D numeral_2_eq_2 Suc_le_mono)
  have "q \<le> p \<and> (\<forall>j \<le> q. str ! (Suc p - j) = e ! (Suc q - j)) \<longleftrightarrow>
      (\<exists>pre c. str = pre @ c # tl e)" (is "?L \<longleftrightarrow> ?R")
  proof
    assume L: ?L
    have "drop (Suc p - q) str = tl e"
    proof (rule nth_equalityI)
      show "length (drop (Suc p - q) str) = length (tl e)" using L pq by simp
    next
      fix i assume "i < length (drop (Suc p - q) str)"
      then have i: "i \<le> q" using L pq by simp
      have "str ! (Suc p - (q - i)) = e ! (Suc q - (q - i))"
        by (rule L [THEN conjunct2, rule_format]) simp
      moreover have "Suc p - (q - i) = Suc p - q + i" "Suc q - (q - i) = Suc i"
        using i L by linarith+
      moreover have "drop (Suc p - q) str ! i = str ! (Suc p - q + i)"
        using L pq by (intro nth_drop) simp
      moreover have "tl e ! i = e ! Suc i" using i pq by (intro nth_tl) simp
      ultimately show "drop (Suc p - q) str ! i = tl e ! i" by (simp only:)
    qed
    then have "str = take (p - q) str @ str ! (p - q) # tl e"
      using L pq id_take_nth_drop [of "p - q" str] by (simp add: Suc_diff_le)
    then show ?R by blast
  next
    assume ?R
    then obtain pre c where str: "str = pre @ c # tl e" by blast
    then have len: "length pre + q = p" using pq by simp
    have "str ! (Suc p - j) = e ! (Suc q - j)" if "j \<le> q" for j
    proof -
      have "Suc p - j = length pre + Suc (q - j)" using len that by simp
      then have "str ! (Suc p - j) = tl e ! (q - j)" by (simp add: str nth_append)
      then show ?thesis using that pq by (simp add: nth_tl Suc_diff_le)
    qed
    then show ?L using len by simp
  qed
  then show ?thesis
    using ends_with_loop_eq [of str e p q] pq by (simp add: checkStringEndsWith_def)
qed

section \<open>What \<open>_start\<close> publishes\<close>

lemma boot_printf_eq:
  assumes "e9_format (c_string fmt) args \<noteq> None"
  shows "boot_printf fmt args s =
    Done () (fold e9_putc (the (e9_format (c_string fmt) args)) s)"
  using assms by (auto simp: boot_printf_def e9_printf_def)

lemma printhex_Some: "length junk = 17 \<Longrightarrow> e9_printhex junk n \<noteq> None"
  using read_printhex by fastforce

lemma printdec_Some: "e9_printdec n \<noteq> None"
  using read_printdec by fastforce

lemma start_publish_Done:
  "\<exists>l. start_publish fb font mi s = Done () (setBootInfo \<lparr>framebuffer = fb, psf1Font = font, memory = mi\<rparr>
     (s\<lparr>io_log := l\<rparr>))"
proof -
  have fmt: "e9_format (c_string ''LIMINE_INFO: '') [] \<noteq> None"
    "e9_format (c_string (nl ''Kernel Start: %x (Size: %d Bytes)'' 1)) [ArgNum a, ArgNum b] \<noteq> None"
    "e9_format (c_string (nl ''OS has %d MB of RAM. (Starts at %x)'' 2)) [ArgNum a, ArgNum b] \<noteq> None"
    "e9_format (c_string ''> LIMINE_SUCCESS: '') [] \<noteq> None" for a b
    using printhex_Some [of "replicate 17 (CHR 0x00)"] printdec_Some
    by (auto simp: c_string_def nl_def numeral_eq_Suc split: option.splits)
  show ?thesis
    by (simp add: start_publish_def boot_printf_eq [OF fmt(1)] boot_printf_eq [OF fmt(2)]
        boot_printf_eq [OF fmt(3)] boot_printf_eq [OF fmt(4)] fold_putc_log
        setBootInfo_def terminal_write_def del: One_nat_def) (intro exI, rule refl)
qed

lemma start_kernel_address_Done:
  assumes "lim_memmap lim = Some es" "lim_kernel_address lim = Some ka"
  shows "\<exists>l. start_kernel_address lim s = Done (es, ka) (s\<lparr>io_log := l\<rparr>)"
proof -
  have fmt: "e9_format (c_string (nl ''Information about where the kernel is loaded: '' 1)) [] \<noteq> None"
    "e9_format (c_string (nl ''Kernel address feature, revision %d'' 1)) [ArgNum a] \<noteq> None"
    "e9_format (c_string (nl ''Physical base: %x'' 1)) [ArgNum a] \<noteq> None"
    "e9_format (c_string (nl ''Virtual base: %x'' 2)) [ArgNum a] \<noteq> None" for a
    using printhex_Some [of "replicate 17 (CHR 0x00)"] printdec_Some
    by (auto simp: c_string_def nl_def numeral_eq_Suc split: option.splits)
  show ?thesis
    by (simp add: start_kernel_address_def assms boot_printf_eq [OF fmt(1)] boot_printf_eq [OF fmt(2)]
        boot_printf_eq [OF fmt(3)] boot_printf_eq [OF fmt(4)] fold_putc_log
        del: One_nat_def) (intro exI, rule refl)
qed

lemma start_boot_Done:
  assumes "lim_terminal_count lim = Some (Suc t)" "lim_framebuffers lim = Some (f # fs)"
    and "lim_memmap lim = Some es" "lim_kernel_address lim = Some ka"
    and "memmap_scan (physical_base ka) es = (b, n, k)" "b \<noteq> 0"
    and "lim_modules lim = Some ms" "getFile ms = Some (Some file)"
    and "mem s (file_address file) = PSF1_MAGIC0" "mem s (file_address file + 1) = PSF1_MAGIC1"
    and "lim_hhdm_offset lim = Some off"
  shows "\<exists>s'. start_boot lim s = Done () s' \<and> mem s' = mem s \<and>
    memory (globalBootInfo s') = \<lparr>freeMemStart = b, extraMemStart = b, freeMemSize = n,
      kernelStart = physical_base ka, kernelSize = k, kernelStartV = virtual_base ka, hhdmOffset = off\<rparr>"
proof -
  obtain s1 where s1: "start_terminal lim s = Done () s1" "mem s1 = mem s"
    using assms(1) by (simp add: start_terminal_def terminal_write_def)
  obtain fb s2 where s2: "start_framebuffer lim s1 = Done fb s2" "mem s2 = mem s"
    using assms(2) s1(2) by (simp add: start_framebuffer_def terminal_write_def)
  obtain l where l: "start_kernel_address lim s2 = Done (es, ka) (s2\<lparr>io_log := l\<rparr>)"
    using start_kernel_address_Done [OF assms(3,4)] by blast
  obtain font where font: "start_font lim (s2\<lparr>io_log := l\<rparr>) = Done font (s2\<lparr>io_log := l\<rparr>)"
    using assms(7-10) s2(2) by (simp add: start_font_def)
  show ?thesis
    using start_publish_Done [of fb font "\<lparr>freeMemStart = b, extraMemStart = b, freeMemSize = n,
      kernelStart = physical_base ka, kernelSize = k, kernelStartV = virtual_base ka,
      hhdmOffset = off\<rparr>" "s2\<lparr>io_log := l\<rparr>"] assms(5,6,11) s2(2)
    by (auto simp: start_boot_def s1 s2 l font setBootInfo_def)
qed

section \<open>Properties\<close>

text \<open>
  C24: the region \<open>_start\<close> gives to the frame allocator is a usable entry of the memory map, and no
  usable entry is longer; the region is null only when every usable entry has length 0 or the longest
  one starts at address 0.
\<close>

theorem memmap_scan_largest:
  assumes "memmap_scan kstart es = (b, n, k)" "b \<noteq> 0"
  shows "(\<exists>e \<in> set es. me_type e = LIMINE_MEMMAP_USABLE \<and> me_base e = b \<and> me_length e = n) \<and>
    (\<forall>e \<in> set es. me_type e = LIMINE_MEMMAP_USABLE \<longrightarrow> me_length e \<le> n)"
  using memmap_scan_cases [OF assms(1)] assms(2) by auto

definition memmap_sample :: "limine_memmap_entry list" where
  "memmap_sample =
     [\<lparr>me_base = 0x1000, me_length = 0x9E000, me_type = LIMINE_MEMMAP_USABLE\<rparr>,
      \<lparr>me_base = 0xA0000, me_length = 0x900000, me_type = LIMINE_MEMMAP_RESERVED\<rparr>,
      \<lparr>me_base = 0x100000, me_length = 0x7EE0000, me_type = LIMINE_MEMMAP_USABLE\<rparr>,
      \<lparr>me_base = 0x7FE0000, me_length = 0x20000, me_type = LIMINE_MEMMAP_KERNEL_AND_MODULES\<rparr>,
      \<lparr>me_base = 0x100000000, me_length = 0x40000000, me_type = LIMINE_MEMMAP_RESERVED\<rparr>]"

lemma memmap_sample_scan: "memmap_scan 0x7FE0000 memmap_sample = (0x100000, 0x7EE0000, 0x20000)"
  by (simp add: memmap_scan_def memmap_sample_def memmap_step_def)

theorem memmap_scan_largest_witness:
  "\<exists>e \<in> set memmap_sample. me_base e = 0x100000 \<and> me_length e = 0x7EE0000"
  using memmap_scan_largest [OF memmap_sample_scan] by auto

text \<open>
  \<open>checkStringEndsWith\<close>, for strings of two characters or more, stays inside both strings and
  returns true exactly when the string ends in any one character followed by the suffix without its
  first character: the first character of the suffix is never compared.
\<close>

theorem checkStringEndsWith_skips_first:
  assumes "2 \<le> length str" "2 \<le> length e"
  shows "checkStringEndsWith str e = Some (\<exists>pre c. str = pre @ c # tl e)"
  by (rule checkStringEndsWith_eq [OF assms])

theorem checkStringEndsWith_skips_first_witness:
  "checkStringEndsWith ''fonts/Xap-light16.psf'' ''zap-light16.psf'' = Some True"
proof -
  have "''fonts/Xap-light16.psf'' = ''fonts/'' @ CHR ''X'' # tl ''zap-light16.psf''" by simp
  then have "\<exists>pre c. ''fonts/Xap-light16.psf'' = pre @ c # tl ''zap-light16.psf''" by blast
  then show ?thesis
    by (subst checkStringEndsWith_skips_first) simp_all
qed

lemma start_terminal_Done:
  "start_terminal lim s = Done u s' \<Longrightarrow> (\<exists>t. lim_terminal_count lim = Some (Suc t)) \<and> mem s' = mem s"
  by (cases "lim_terminal_count lim")
    (auto simp: start_terminal_def boot_done_def terminal_write_def not_less Suc_le_eq gr0_conv_Suc
      split: if_splits)

lemma start_framebuffer_Done:
  "start_framebuffer lim s = Done fb s' \<Longrightarrow>
     (\<exists>f fs. lim_framebuffers lim = Some (f # fs)) \<and> mem s' = mem s"
  by (auto simp: start_framebuffer_def boot_done_def terminal_write_def split: option.splits list.splits)

lemma start_kernel_address_Some:
  "start_kernel_address lim s = Done (es, ka) s' \<Longrightarrow>
     lim_memmap lim = Some es \<and> lim_kernel_address lim = Some ka \<and> mem s' = mem s"
  using start_kernel_address_Done [of lim _ _ s]
  by (cases "lim_memmap lim"; cases "lim_kernel_address lim")
    (fastforce simp: start_kernel_address_def boot_done_def)+

lemma boot_printf_not_Done: "obind (boot_printf f a t) (\<lambda>_ s. boot_done s) \<noteq> Done x s'"
  by (auto simp: boot_done_def boot_printf_def outcome_dests)

lemma start_font_Done:
  assumes "start_font lim s = Done font s'"
  shows "\<exists>ms file. lim_modules lim = Some ms \<and> getFile ms = Some (Some file) \<and>
    mem s (file_address file) = PSF1_MAGIC0 \<and> mem s (file_address file + 1) = PSF1_MAGIC1"
  using assms boot_printf_not_Done
  by (auto simp: start_font_def outcome_dests boot_done_def split: option.splits if_splits)

lemma start_boot_Done_iff:
  "(\<exists>s'. start_boot lim s = Done () s') \<longleftrightarrow>
     (\<exists>t f fs es ka b n k ms file off.
        lim_terminal_count lim = Some (Suc t) \<and> lim_framebuffers lim = Some (f # fs) \<and>
        lim_memmap lim = Some es \<and> lim_kernel_address lim = Some ka \<and>
        memmap_scan (physical_base ka) es = (b, n, k) \<and> b \<noteq> 0 \<and>
        lim_modules lim = Some ms \<and> getFile ms = Some (Some file) \<and>
        mem s (file_address file) = PSF1_MAGIC0 \<and> mem s (file_address file + 1) = PSF1_MAGIC1 \<and>
        lim_hhdm_offset lim = Some off)" (is "?L \<longleftrightarrow> ?R")
proof
  assume ?L
  then obtain s' where s': "start_boot lim s = Done () s'" by blast
  obtain s1 where 1: "start_terminal lim s = Done () s1"
    using s' by (auto simp: start_boot_def outcome_dests)
  obtain fb s2 where 2: "start_framebuffer lim s1 = Done fb s2"
    using s' 1 by (auto simp: start_boot_def outcome_dests)
  obtain es ka s3 where 3: "start_kernel_address lim s2 = Done (es, ka) s3"
    using s' 1 2 by (auto simp: start_boot_def outcome_dests)
  obtain b n k where scan: "memmap_scan (physical_base ka) es = (b, n, k)"
    by (metis prod_cases3)
  have b: "b \<noteq> 0" using s' 1 2 3 scan by (auto simp: start_boot_def boot_done_def)
  obtain font s4 where 4: "start_font lim s3 = Done font s4"
    using s' 1 2 3 scan b by (auto simp: start_boot_def outcome_dests)
  have 5: "lim_hhdm_offset lim \<noteq> None"
    using s' 1 2 3 scan b 4 by (cases "lim_hhdm_offset lim") (auto simp: start_boot_def boot_done_def)
  have "mem s3 = mem s"
    using start_terminal_Done [OF 1] start_framebuffer_Done [OF 2] start_kernel_address_Some [OF 3] by simp
  then show ?R
    using start_terminal_Done [OF 1] start_framebuffer_Done [OF 2] start_kernel_address_Some [OF 3]
      scan b start_font_Done [OF 4] 5 by auto
next
  assume ?R
  then show ?L using start_boot_Done by blast
qed

text \<open>What else can happen: every step returns or halts, but for the search for the font.\<close>

lemma obind_abort_iff:
  "obind m f = Undefined \<longleftrightarrow> m = Undefined \<or> (\<exists>x s. m = Done x s \<and> f x s = Undefined)"
  "obind m f = Loops \<longleftrightarrow> m = Loops \<or> (\<exists>x s. m = Done x s \<and> f x s = Loops)"
  by (cases m; simp)+

lemma steps_not_aborted [simp]:
  "start_terminal lim s \<noteq> Undefined" "start_terminal lim s \<noteq> Loops"
  "start_framebuffer lim s \<noteq> Undefined" "start_framebuffer lim s \<noteq> Loops"
  "start_kernel_address lim s \<noteq> Undefined" "start_kernel_address lim s \<noteq> Loops"
  "start_publish fb font mi s \<noteq> Undefined" "start_publish fb font mi s \<noteq> Loops"
  "boot_done s \<noteq> Undefined" "boot_done s \<noteq> Loops"
proof -
  show "start_kernel_address lim s \<noteq> Undefined" "start_kernel_address lim s \<noteq> Loops"
    using start_kernel_address_Done [of lim _ _ s]
    by (cases "lim_memmap lim"; cases "lim_kernel_address lim"; fastforce simp: start_kernel_address_def boot_done_def)+
  show "start_publish fb font mi s \<noteq> Undefined" "start_publish fb font mi s \<noteq> Loops"
    using start_publish_Done [of fb font mi s] by auto
qed (simp_all add: start_terminal_def start_framebuffer_def boot_done_def split: option.splits list.splits)

lemma start_font_aborted:
  "start_font lim s = Undefined \<longleftrightarrow> (\<exists>ms. lim_modules lim = Some ms \<and> getFile ms = None)"
  "start_font lim s \<noteq> Loops"
proof -
  have "e9_format (c_string (nl ''Failed to get Font \"%s\"!'' 1)) [ArgStr ''zap-light16.psf''] \<noteq> None"
    by (auto simp: c_string_def nl_def numeral_eq_Suc split: option.splits)
  note fmt = boot_printf_eq [OF this]
  show "start_font lim s = Undefined \<longleftrightarrow> (\<exists>ms. lim_modules lim = Some ms \<and> getFile ms = None)" "start_font lim s \<noteq> Loops"
    by (cases "lim_modules lim"; cases "getFile (the (lim_modules lim))";
        auto simp: start_font_def boot_done_def fmt split: option.splits simp del: One_nat_def)+
qed

lemma start_boot_Undefined_iff:
  "start_boot lim s = Undefined \<longleftrightarrow>
     (\<exists>t f fs es ka b n k ms.
        lim_terminal_count lim = Some (Suc t) \<and> lim_framebuffers lim = Some (f # fs) \<and>
        lim_memmap lim = Some es \<and> lim_kernel_address lim = Some ka \<and>
        memmap_scan (physical_base ka) es = (b, n, k) \<and> b \<noteq> 0 \<and>
        lim_modules lim = Some ms \<and> getFile ms = None)" (is "?L \<longleftrightarrow> ?R")
proof
  assume ?L
  then obtain s1 where 1: "start_terminal lim s = Done () s1" by (auto simp: start_boot_def obind_abort_iff)
  obtain fb s2 where 2: "start_framebuffer lim s1 = Done fb s2"
    using \<open>?L\<close> 1 by (auto simp: start_boot_def obind_abort_iff)
  obtain es ka s3 where 3: "start_kernel_address lim s2 = Done (es, ka) s3"
    using \<open>?L\<close> 1 2 by (auto simp: start_boot_def obind_abort_iff)
  obtain b n k where scan: "memmap_scan (physical_base ka) es = (b, n, k)" by (metis prod_cases3)
  have b: "b \<noteq> 0" using \<open>?L\<close> 1 2 3 scan by (auto simp: start_boot_def)
  have "start_font lim s3 = Undefined"
    using \<open>?L\<close> 1 2 3 scan b by (auto simp: start_boot_def obind_abort_iff split: option.splits)
  then show ?R
    using start_terminal_Done [OF 1] start_framebuffer_Done [OF 2] start_kernel_address_Some [OF 3] scan b
    by (auto simp: start_font_aborted)
next
  assume ?R
  then obtain t f fs es ka b n k ms where a: "lim_terminal_count lim = Some (Suc t)" "lim_framebuffers lim = Some (f # fs)"
    "lim_memmap lim = Some es" "lim_kernel_address lim = Some ka" "memmap_scan (physical_base ka) es = (b, n, k)" "b \<noteq> 0"
    "lim_modules lim = Some ms" "getFile ms = None" by blast
  obtain s1 where s1: "start_terminal lim s = Done () s1" using a(1) by (simp add: start_terminal_def)
  obtain fb s2 where s2: "start_framebuffer lim s1 = Done fb s2" using a(2) by (simp add: start_framebuffer_def)
  obtain l where s3: "start_kernel_address lim s2 = Done (es, ka) (s2\<lparr>io_log := l\<rparr>)"
    using start_kernel_address_Done [OF a(3,4)] by blast
  have "start_font lim (s2\<lparr>io_log := l\<rparr>) = Undefined" using a(7,8) start_font_aborted(1) by blast
  then show ?L using a(5,6) by (simp add: start_boot_def s1 s2 s3)
qed

lemma start_boot_not_Loops: "start_boot lim s \<noteq> Loops"
  by (auto simp: start_boot_def obind_abort_iff start_font_aborted(2) split: prod.splits option.splits if_splits)

text \<open>
  C22: \<open>_start\<close> gets past the boot phase exactly when the boot loader answered everything the code
  needs: a terminal, a framebuffer, the memory map with a non-null largest usable region, the kernel's
  address, a font module with the right magic bytes, and the higher-half offset. It never hangs, and it has no
  defined behaviour exactly when it comes to the search for the font and comparing the end of a module's path
  with the font's name reads outside the path. In every other case it halts, so it never starts the kernel
  on a half-filled boot information.
\<close>

theorem start_boot_returns_iff:
  "((\<exists>s'. start_boot lim s = Done () s') \<longleftrightarrow>
     (\<exists>t f fs es ka b n k ms file off.
        lim_terminal_count lim = Some (Suc t) \<and> lim_framebuffers lim = Some (f # fs) \<and>
        lim_memmap lim = Some es \<and> lim_kernel_address lim = Some ka \<and>
        memmap_scan (physical_base ka) es = (b, n, k) \<and> b \<noteq> 0 \<and>
        lim_modules lim = Some ms \<and> getFile ms = Some (Some file) \<and>
        mem s (file_address file) = PSF1_MAGIC0 \<and> mem s (file_address file + 1) = PSF1_MAGIC1 \<and>
        lim_hhdm_offset lim = Some off)) \<and>
   (start_boot lim s = Undefined \<longleftrightarrow>
     (\<exists>t f fs es ka b n k ms.
        lim_terminal_count lim = Some (Suc t) \<and> lim_framebuffers lim = Some (f # fs) \<and>
        lim_memmap lim = Some es \<and> lim_kernel_address lim = Some ka \<and>
        memmap_scan (physical_base ka) es = (b, n, k) \<and> b \<noteq> 0 \<and>
        lim_modules lim = Some ms \<and> getFile ms = None)) \<and>
   start_boot lim s \<noteq> Loops"
  by (intro conjI start_boot_Done_iff start_boot_Undefined_iff start_boot_not_Loops)

text \<open>
  C23: when \<open>_start\<close> has booted, the published boot information describes the chosen region (its base and
  size, also as the start of the extra memory), the kernel's addresses and size and the higher-half
  offset as the boot loader gave them, and memory is unchanged.
\<close>

theorem start_boot_publishes:
  assumes "start_boot lim s = Done () s'"
    and "lim_memmap lim = Some es" "lim_kernel_address lim = Some ka" "lim_hhdm_offset lim = Some off"
    and "memmap_scan (physical_base ka) es = (b, n, k)"
  shows "mem s' = mem s \<and> memory (getBootInfo s') =
    \<lparr>freeMemStart = b, extraMemStart = b, freeMemSize = n, kernelStart = physical_base ka,
     kernelSize = k, kernelStartV = virtual_base ka, hhdmOffset = off\<rparr>"
proof -
  obtain t f fs ms fl where
    "lim_terminal_count lim = Some (Suc t)" "lim_framebuffers lim = Some (f # fs)" "b \<noteq> 0"
    "lim_modules lim = Some ms" "getFile ms = Some (Some fl)"
    "mem s (file_address fl) = PSF1_MAGIC0" "mem s (file_address fl + 1) = PSF1_MAGIC1"
  proof -
    have "\<exists>s'. start_boot lim s = Done () s'" using assms(1) by blast
    then show ?thesis using that assms(2-) unfolding start_boot_Done_iff by auto
  qed
  from start_boot_Done [OF this(1,2) assms(2,3,5) this(3-7) assms(4)] show ?thesis
    using assms(1) by (auto simp: getBootInfo_def)
qed

definition limine_sample :: limine where
  "limine_sample = \<lparr>lim_terminal_count = Some 1,
     lim_framebuffers = Some [\<lparr>lfb_address = 0xFD000000, lfb_width = 1024, lfb_height = 768, lfb_pitch = 4096\<rparr>],
     lim_memmap = Some memmap_sample,
     lim_kernel_address = Some \<lparr>ka_revision = 0, physical_base = 0x7FE0000, virtual_base = 0xFFFFFFFF80000000\<rparr>,
     lim_modules = Some [\<lparr>file_address = 0x7F00000, file_path = ''/zap-light16.psf''\<rparr>],
     lim_hhdm_offset = Some 0xFFFF800000000000\<rparr>"

definition boot_sample :: boot_state where
  "boot_sample = \<lparr>mem = (\<lambda>_. 0)(0x7F00000 := 0x36, 0x7F00001 := 4), io_log = [], limine_print = False,
     globalBootInfo = zero_bootInfo\<rparr>"

lemma boot_sample_boots: "\<exists>s'. start_boot limine_sample boot_sample = Done () s'"
proof -
  have "checkStringEndsWith ''/zap-light16.psf'' ''zap-light16.psf'' = Some True"
    using checkStringEndsWith_eq [of "''/zap-light16.psf''" "''zap-light16.psf''"]
    by (auto simp: Cons_eq_append_conv)
  then show ?thesis
    unfolding start_boot_Done_iff using memmap_sample_scan
    by (auto simp: limine_sample_def boot_sample_def PSF1_MAGIC0_def PSF1_MAGIC1_def)
qed

theorem start_boot_publishes_witness:
  "\<exists>s'. start_boot limine_sample boot_sample = Done () s' \<and>
     freeMemStart (memory (getBootInfo s')) = 0x100000 \<and> freeMemSize (memory (getBootInfo s')) = 0x7EE0000"
proof -
  obtain s' where s': "start_boot limine_sample boot_sample = Done () s'" using boot_sample_boots by blast
  have "memory (getBootInfo s') =
    \<lparr>freeMemStart = 0x100000, extraMemStart = 0x100000, freeMemSize = 0x7EE0000, kernelStart = 0x7FE0000,
     kernelSize = 0x20000, kernelStartV = 0xFFFFFFFF80000000, hhdmOffset = 0xFFFF800000000000\<rparr>"
    using start_boot_publishes [OF s', of memmap_sample
        "\<lparr>ka_revision = 0, physical_base = 0x7FE0000, virtual_base = 0xFFFFFFFF80000000\<rparr>"] memmap_sample_scan
    by (simp add: limine_sample_def)
  then show ?thesis using s' by simp
qed

end
