(* ===== verification/Free_List.thy ===== *)
theory Free_List
  imports Boot Hash_Table Lib_String
begin

text \<open>
  The block headers the frame allocator keeps in free memory (\<open>struct fBlock\<close> of
  \<open>kernel/paging/freeList.hpp\<close>), the allocator's global variables, the conversion between physical
  and higher-half virtual addresses, and \<open>initFreeList\<close> of \<open>kernel/paging/freeList.cpp\<close>.
\<close>

section \<open>Block headers\<close>

text \<open>
  Field offsets of \<open>struct fBlock\<close>, 40 bytes in all: \<open>size\<close> 0, \<open>next\<close> 8, \<open>previous\<close> 16,
  \<open>inUse\<close> 24 (one byte), \<open>prevSize\<close> 32.
\<close>

abbreviation fb_size :: "memory \<Rightarrow> ptr \<Rightarrow> u64" where "fb_size m b \<equiv> load64 m b"
abbreviation fb_next :: "memory \<Rightarrow> ptr \<Rightarrow> ptr" where "fb_next m b \<equiv> load64 m (b + 8)"
abbreviation fb_previous :: "memory \<Rightarrow> ptr \<Rightarrow> ptr" where "fb_previous m b \<equiv> load64 m (b + 16)"
abbreviation fb_prevSize :: "memory \<Rightarrow> ptr \<Rightarrow> u64" where "fb_prevSize m b \<equiv> load64 m (b + 32)"

definition set_fb_size :: "ptr \<Rightarrow> u64 \<Rightarrow> memory \<Rightarrow> memory" where
  "set_fb_size b v m = store64 m b v"

definition set_fb_next :: "ptr \<Rightarrow> ptr \<Rightarrow> memory \<Rightarrow> memory" where
  "set_fb_next b v m = store64 m (b + 8) v"

definition set_fb_previous :: "ptr \<Rightarrow> ptr \<Rightarrow> memory \<Rightarrow> memory" where
  "set_fb_previous b v m = store64 m (b + 16) v"

definition set_fb_inUse :: "ptr \<Rightarrow> bool \<Rightarrow> memory \<Rightarrow> memory" where
  "set_fb_inUse b v m = m(b + 24 := (if v then 1 else 0))"

definition set_fb_prevSize :: "ptr \<Rightarrow> u64 \<Rightarrow> memory \<Rightarrow> memory" where
  "set_fb_prevSize b v m = store64 m (b + 32) v"

lemmas fb_setters = set_fb_size_def set_fb_next_def set_fb_previous_def set_fb_inUse_def set_fb_prevSize_def

section \<open>Global variables\<close>

text \<open>
  The globals of \<open>pageFrameAllocator.cpp\<close>, the table it gets from \<open>pageFrameAllocator.hpp\<close>, and the
  file-local \<open>head\<close> of \<open>freeList.cpp\<close> (\<open>list_head\<close>). \<open>bootInformation\<close> is the allocator's own copy
  of the boot information.
\<close>

record frame_state = boot_state +
  frame_head :: ptr
  freeBlock :: ptr
  totalMemory :: u64
  usedMemory :: u64
  bootInformation :: bootInfo
  addressSizeHT :: HashTable
  list_head :: ptr

section \<open>Physical and virtual addresses\<close>

text \<open>The copy is taken again while it still has offset 0.\<close>

definition refresh_bootInformation :: "'a frame_state_scheme \<Rightarrow> 'a frame_state_scheme" where
  "refresh_bootInformation s =
     (if hhdmOffset (memory (bootInformation s)) = 0 then s\<lparr>bootInformation := getBootInfo s\<rparr> else s)"

definition toPhysicalAddr :: "ptr \<Rightarrow> 'a frame_state_scheme \<Rightarrow> u64 \<times> 'a frame_state_scheme" where
  "toPhysicalAddr addr s =
     (let s = refresh_bootInformation s in (addr - hhdmOffset (memory (bootInformation s)), s))"

definition toVirtualAddr :: "ptr \<Rightarrow> 'a frame_state_scheme \<Rightarrow> ptr \<times> 'a frame_state_scheme" where
  "toVirtualAddr addr s =
     (if addr = -1 then (0, s)
      else let s = refresh_bootInformation s in (addr + hhdmOffset (memory (bootInformation s)), s))"

text \<open>
  Once the copy is current the conversions do not change the state any more, and they are inverse to
  each other but at the address \<open>-1\<close>, which stands for a failed lookup.
\<close>

definition boot_current :: "'a frame_state_scheme \<Rightarrow> bool" where
  "boot_current s \<longleftrightarrow> bootInformation s = globalBootInfo s"

definition hhdm :: "'a boot_state_scheme \<Rightarrow> u64" where
  "hhdm s = hhdmOffset (memory (globalBootInfo s))"

lemma refresh_current [simp]: "boot_current s \<Longrightarrow> refresh_bootInformation s = s"
  by (cases s) (simp add: refresh_bootInformation_def boot_current_def getBootInfo_def)

lemma toPhysicalAddr_current: "boot_current s \<Longrightarrow> toPhysicalAddr a s = (a - hhdm s, s)"
  by (simp add: toPhysicalAddr_def hhdm_def) (simp add: boot_current_def)

lemma toVirtualAddr_current:
  "boot_current s \<Longrightarrow> a \<noteq> -1 \<Longrightarrow> toVirtualAddr a s = (a + hhdm s, s)"
  by (simp add: toVirtualAddr_def hhdm_def) (simp add: boot_current_def)

lemma toVirtualAddr_failed [simp]: "toVirtualAddr (-1) s = (0, s)"
  by (simp add: toVirtualAddr_def)

section \<open>initFreeList\<close>

definition initFreeList :: "'a frame_state_scheme \<Rightarrow> ptr \<times> 'a frame_state_scheme" where
  "initFreeList s =
     (let availableMemory = memory (getBootInfo s);
          (b, s) = toVirtualAddr (freeMemStart availableMemory) s;
          s = s\<lparr>mem := set_fb_prevSize b 0 (set_fb_inUse b False (set_fb_next b 0
                (set_fb_size b (freeMemSize availableMemory) (mem s)))), list_head := b\<rparr>
      in (b, s))"

end
