(* ===== verification/Frame_Source.thy ===== *)
theory Frame_Source
  imports Machine
begin

text \<open>
  The contract between the page frame allocator and its clients (the page tables, the heap, the
  process code): an allocation hands out zeroed memory that nobody had before, and leaves everything
  handed out earlier as it is. Clients allocate again and again, so the law that matters to them is
  about sequences of allocations.
\<close>

fun alloc_many :: "(u64 \<Rightarrow> 's \<Rightarrow> (u64, 's) outcome) \<Rightarrow> u64 list \<Rightarrow> 's \<Rightarrow> (u64 list, 's) outcome" where
  "alloc_many alloc [] s = Done [] s"
| "alloc_many alloc (n # ns) s =
     obind (alloc n s) (\<lambda>p s. obind (alloc_many alloc ns s) (\<lambda>ps s. Done (p # ps) s))"

locale frame_source =
  fixes alloc :: "u64 \<Rightarrow> 's \<Rightarrow> (u64, 's) outcome"
    and ok :: "'s \<Rightarrow> bool"
    and store :: "'s \<Rightarrow> memory"
    and taken :: "'s \<Rightarrow> ptr set"
    and area :: "'s \<Rightarrow> u64 \<Rightarrow> u64 \<Rightarrow> ptr set"  \<comment> \<open>the bytes of the frame at an address, for a request\<close>
  assumes alloc_inv: "ok s \<Longrightarrow> alloc n s = Done p s' \<Longrightarrow> ok s'"
    and alloc_fresh: "ok s \<Longrightarrow> alloc n s = Done p s' \<Longrightarrow> area s p n \<inter> taken s = {}"
    and alloc_taken: "ok s \<Longrightarrow> alloc n s = Done p s' \<Longrightarrow> area s p n \<union> taken s \<subseteq> taken s'"
    and alloc_zero: "ok s \<Longrightarrow> alloc n s = Done p s' \<Longrightarrow> x \<in> area s p n \<Longrightarrow> store s' x = 0"
    and alloc_keeps: "ok s \<Longrightarrow> alloc n s = Done p s' \<Longrightarrow> same_on (taken s) (store s') (store s)"
    and alloc_area: "ok s \<Longrightarrow> alloc n s = Done p s' \<Longrightarrow> area s' = area s"
begin

lemma alloc_many_steps:
  assumes "ok s" "alloc_many alloc ns s = Done ps s'"
  shows "ok s' \<and> length ps = length ns \<and> area s' = area s \<and> taken s \<subseteq> taken s' \<and>
    same_on (taken s) (store s') (store s)"
  using assms
proof (induction ns arbitrary: s ps)
  case (Cons n ns)
  then obtain p t qs where step: "alloc n s = Done p t" "alloc_many alloc ns t = Done qs s'" "ps = p # qs"
    by (auto simp: obind_Done_iff)
  have "taken s \<subseteq> taken t" using alloc_taken [OF Cons.prems(1) step(1)] by blast
  moreover have "same_on (taken t) (store s') (store t)" "taken t \<subseteq> taken s'" "ok s'"
    "length qs = length ns" "area s' = area t"
    using Cons.IH [OF alloc_inv [OF Cons.prems(1) step(1)] step(2)] by auto
  moreover have "same_on (taken s) (store t) (store s)" "area t = area s"
    using alloc_keeps [OF Cons.prems(1) step(1)] alloc_area [OF Cons.prems(1) step(1)] by auto
  ultimately show ?case
    using step(3) by (auto intro: same_on_subset same_on_trans)
qed simp

text \<open>
  The frames of a sequence of allocations do not overlap each other or anything handed out before,
  and all of them are zero when the last one has been made.
\<close>

lemma alloc_many_disjoint:
  assumes "ok s" "alloc_many alloc ns s = Done ps s'"
  shows "(\<forall>i < length ns. area s (ps ! i) (ns ! i) \<inter> taken s = {} \<and>
      (\<forall>x \<in> area s (ps ! i) (ns ! i). store s' x = 0)) \<and>
    (\<forall>i < length ns. \<forall>j < length ns. i \<noteq> j \<longrightarrow>
      area s (ps ! i) (ns ! i) \<inter> area s (ps ! j) (ns ! j) = {})"
  using assms
proof (induction ns arbitrary: s ps)
  case (Cons n ns)
  then obtain p t qs where step: "alloc n s = Done p t" "alloc_many alloc ns t = Done qs s'" "ps = p # qs"
    by (auto simp: obind_Done_iff)
  have ok: "ok t" and area: "area t = area s"
    using alloc_inv [OF Cons.prems(1) step(1)] alloc_area [OF Cons.prems(1) step(1)] by auto
  note rest = Cons.IH [OF ok step(2), unfolded area]
  have tk: "area s p n \<subseteq> taken t" "taken s \<subseteq> taken t"
    using alloc_taken [OF Cons.prems(1) step(1)] by auto
  have kept: "same_on (taken t) (store s') (store t)"
    using alloc_many_steps [OF ok step(2)] by blast
  have zero: "\<forall>x \<in> area s p n. store s' x = 0"
    using alloc_zero [OF Cons.prems(1) step(1)] kept tk(1) by (auto simp: same_on_def)
  have first: "area s p n \<inter> area s (qs ! j) (ns ! j) = {}" if "j < length ns" for j
    using rest that tk(1) by blast
  have old: "area s (qs ! j) (ns ! j) \<inter> taken s = {}" if "j < length ns" for j
    using rest that tk(2) by blast
  have fresh: "area s p n \<inter> taken s = {}"
    using alloc_fresh [OF Cons.prems(1) step(1)] .
  show ?case
  proof (intro conjI allI impI)
    fix i assume i: "i < length (n # ns)"
    then show "area s (ps ! i) ((n # ns) ! i) \<inter> taken s = {}"
      by (cases i) (simp_all add: step(3) fresh old)
    show "\<forall>x \<in> area s (ps ! i) ((n # ns) ! i). store s' x = 0"
      using i rest zero by (cases i) (simp_all add: step(3))
    fix j assume "j < length (n # ns)" "i \<noteq> j"
    then show "area s (ps ! i) ((n # ns) ! i) \<inter> area s (ps ! j) ((n # ns) ! j) = {}"
      using i rest first by (cases i; cases j) (simp_all add: step(3) Int_commute)
  qed
qed simp

end

end
