(* ===== verification/Frame_Allocator.thy ===== *)
theory Frame_Allocator
  imports Free_List Frame_Source
begin

text \<open>
  The page frame allocator of \<open>kernel/paging/pageFrameAllocator.cpp\<close>: rounding to pages, the best-fit
  search of the free list, the merging of two neighbours when no block is large enough, and
  \<open>allocateFrame\<close> and \<open>freeFrame\<close>.
\<close>

section \<open>Rounding\<close>

definition PAGESIZE :: u64 where
  "PAGESIZE = 4096"

definition roundUpToPageBoundary :: "u64 \<Rightarrow> u64" where
  "roundUpToPageBoundary n =
     (if n mod PAGESIZE = 0 then n else (n + PAGESIZE - 1) AND NOT (PAGESIZE - 1))"

definition roundDown :: "u64 \<Rightarrow> u64 \<Rightarrow> u64" where
  "roundDown n alignTo = n AND NOT (alignTo - 1)"

definition roundUp :: "u64 \<Rightarrow> u64 \<Rightarrow> u64" where
  "roundUp n alignTo = (n + alignTo - 1) AND NOT (alignTo - 1)"

section \<open>Searching the free list\<close>

text \<open>The \<open>while (freeBlock->next)\<close> loops; the pair is the final \<open>freeBlock\<close> and \<open>selectedBlock\<close>.\<close>

definition best_fit_pick :: "memory \<Rightarrow> u64 \<Rightarrow> ptr \<Rightarrow> ptr \<Rightarrow> ptr" where
  "best_fit_pick m r b selected =
     (if fb_size m b \<ge> r \<and> (selected = 0 \<or> fb_size m selected > fb_size m b) then b else selected)"

partial_function (option) best_fit :: "memory \<Rightarrow> u64 \<Rightarrow> ptr \<Rightarrow> ptr \<Rightarrow> (ptr \<times> ptr) option" where
  "best_fit m r b selected =
     (if fb_next m b \<noteq> 0 then best_fit m r (fb_next m b) (best_fit_pick m r b selected)
      else Some (b, selected))"

definition coalesce_pick :: "memory \<Rightarrow> u64 \<Rightarrow> ptr \<Rightarrow> ptr \<Rightarrow> ptr" where
  "coalesce_pick m r b selected =
     (if fb_prevSize m b \<noteq> 0 then
        (if fb_prevSize m b + fb_size m b \<ge> r then
           (let selected =
              (if selected \<noteq> 0 then
                 (if fb_size m selected + fb_prevSize m selected > fb_size m b + fb_prevSize m b
                  then b else selected)
               else selected)
            in b)
         else selected)
      else selected)"

partial_function (option) coalesce_search :: "memory \<Rightarrow> u64 \<Rightarrow> ptr \<Rightarrow> ptr \<Rightarrow> (ptr \<times> ptr) option" where
  "coalesce_search m r b selected =
     (if fb_next m b \<noteq> 0 then coalesce_search m r (fb_next m b) (coalesce_pick m r b selected)
      else Some (b, selected))"

section \<open>allocateFrame\<close>

definition alloc_init :: "'a frame_state_scheme \<Rightarrow> 'a frame_state_scheme" where
  "alloc_init s =
     (if frame_head s = 0 then
        (let (h, s) = initFreeList s in s\<lparr>frame_head := h, freeBlock := h\<rparr>)
      else s)"

definition alloc_select :: "u64 \<Rightarrow> 'a frame_state_scheme \<Rightarrow> (ptr, 'a frame_state_scheme) outcome" where
  "alloc_select r s =
     (if fb_next (mem s) (freeBlock s) = 0 \<and> fb_size (mem s) (freeBlock s) \<ge> r then
        Done (freeBlock s) (s\<lparr>freeBlock := frame_head s\<rparr>)
      else of_loop (best_fit (mem s) r (freeBlock s) 0) (\<lambda>(b, selected).
        Done selected (s\<lparr>freeBlock := frame_head s\<rparr>)))"

definition alloc_coalesce :: "u64 \<Rightarrow> 'a frame_state_scheme \<Rightarrow> (ptr, 'a frame_state_scheme) outcome" where
  "alloc_coalesce r s =
     (let s = e9_print ''coalescing setup'' s in
      of_loop (coalesce_search (mem s) r (freeBlock s) 0) (\<lambda>(b, selected).
        let s = s\<lparr>freeBlock := frame_head s\<rparr> in
        if selected = 0 then Halted (e9_print ''coalescing halt'' s)
        else
          let m = mem s;
              prevBlock = fb_previous m selected;
              m = set_fb_size prevBlock (fb_size m prevBlock + fb_size m selected) m;
              m = set_fb_next prevBlock (fb_next m selected) m
          in Done prevBlock (s\<lparr>mem := m\<rparr>)))"

definition alloc_commit :: "u64 \<Rightarrow> ptr \<Rightarrow> 'a frame_state_scheme \<Rightarrow> (u64, 'a frame_state_scheme) outcome" where
  "alloc_commit r selected s =
     (let m = set_fb_inUse selected True (mem s);
          newBlock = selected + r;
          m = set_fb_size newBlock (fb_size m selected - r) m;
          m = set_fb_inUse newBlock False m;
          m = set_fb_next newBlock (fb_next m selected) m;
          m = set_fb_prevSize newBlock 0 m;
          s = s\<lparr>frame_head := newBlock, freeBlock := newBlock\<rparr>;
          b = bootInformation s;
          b = b\<lparr>memory := (memory b)\<lparr>freeMemSize := freeMemSize (memory b) - r\<rparr>\<rparr>;
          s = setBootInfo b (s\<lparr>bootInformation := b\<rparr>);
          s = s\<lparr>usedMemory := usedMemory s + r\<rparr>;
          s = s\<lparr>mem := memoryset selected 0 r m\<rparr>;
          s = s\<lparr>addressSizeHT := insert_kv (addressSizeHT s) selected (ucast r)\<rparr>;
          (pa, s) = toPhysicalAddr selected s
      in Done pa s)"

definition allocateFrame :: "u64 \<Rightarrow> 'a frame_state_scheme \<Rightarrow> (u64, 'a frame_state_scheme) outcome" where
  "allocateFrame requestSize s =
     (let s = alloc_init s;
          s = s\<lparr>bootInformation := getBootInfo s\<rparr>;
          freeMemorySize = freeMemSize (memory (bootInformation s));
          s = s\<lparr>totalMemory := freeMemorySize\<rparr>;
          r = roundUpToPageBoundary requestSize
      in if r > freeMemorySize then Halted (e9_print ''ERROR!!'' s)
         else obind (alloc_select r s) (\<lambda>selected s.
           if selected = 0 then obind (alloc_coalesce r s) (\<lambda>selected s. alloc_commit r selected s)
           else alloc_commit r selected s))"

section \<open>freeFrame\<close>

definition free_commit :: "ptr \<Rightarrow> u32 \<Rightarrow> 'a frame_state_scheme \<Rightarrow> (unit, 'a frame_state_scheme) outcome" where
  "free_commit freed size32 s =
     (let sz = scast size32;
          m = set_fb_inUse freed False (set_fb_size freed sz (mem s));
          s = (if freed = frame_head s then s\<lparr>mem := m, frame_head := freed, freeBlock := freed\<rparr>
               else s\<lparr>mem := set_fb_previous (frame_head s) freed (set_fb_next freed (frame_head s) m),
                      frame_head := freed\<rparr>)
      in of_loop (deleteKey (addressSizeHT s) freed) (\<lambda>ht.
           let s = s\<lparr>addressSizeHT := ht, usedMemory := usedMemory s - sz\<rparr>;
               b = bootInformation s
           in if freeMemSize (memory b) \<noteq> 0 then
                (let b = b\<lparr>memory := (memory b)\<lparr>freeMemSize := freeMemSize (memory b) + sz\<rparr>\<rparr>
                 in Done () (setBootInfo b (s\<lparr>bootInformation := b\<rparr>)))
              else Done () s))"

definition freeFrame :: "ptr \<Rightarrow> 'a frame_state_scheme \<Rightarrow> (unit, 'a frame_state_scheme) outcome" where
  "freeFrame allocatedFrame s =
     (let (frame, s) = toVirtualAddr allocatedFrame s in
      of_loop (search (addressSizeHT s) frame) (\<lambda>allocatedFrameSize.
        if allocatedFrameSize = -1 then
          Halted (e9_print ''ERROR: Double Free / Wrong Memory Freeing attempt. Blocked.'' s)
        else free_commit frame allocatedFrameSize s))"

section \<open>Rounding: proofs\<close>

lemma mask_12: "(4095 :: u64) = mask 12"
  by (simp add: mask_eq_exp_minus_1)

lemma round_page_eq:
  "unat ((n + 4095) AND NOT (4095 :: u64)) = unat (n + 4095) div 4096 * 4096"
  using unat_and_not_mask [of "n + 4095" 12] by (simp only: mask_12) simp

lemma unat_mod_page: "(n :: u64) mod 4096 = 0 \<longleftrightarrow> unat n mod 4096 = 0"
  by (simp add: word_unat_eq_iff unat_mod)

lemma roundUpToPageBoundary_alt:
  "roundUpToPageBoundary n = (if n mod 4096 = 0 then n else (n + 4095) AND NOT 4095)"
  by (simp add: roundUpToPageBoundary_def PAGESIZE_def add.commute)

lemma roundUpToPageBoundary_nat:
  assumes "unat n \<le> 18446744073709547520"
  shows "unat (roundUpToPageBoundary n) = (unat n + 4095) div 4096 * 4096"
proof (cases "n mod 4096 = 0")
  case True
  then have "unat n mod 4096 = 0" by (simp add: unat_mod_page)
  then obtain k where "unat n = 4096 * k" by (auto simp: mod_eq_0_iff_dvd)
  then have "(unat n + 4095) div 4096 * 4096 = unat n" by simp
  then show ?thesis using True by (simp add: roundUpToPageBoundary_def PAGESIZE_def)
next
  case False
  then have "unat n \<noteq> 18446744073709547520" by (auto simp: unat_mod_page)
  then have "unat (n + 4095) = unat n + 4095"
    using assms by (simp add: unat64_add_nowrap)
  then show ?thesis using False round_page_eq [of n] by (simp only: roundUpToPageBoundary_alt if_False)
qed

lemma roundUpToPageBoundary_wraps:
  assumes "18446744073709547520 < unat n"
  shows "roundUpToPageBoundary n = 0"
proof -
  have "unat n mod 4096 \<noteq> 0"
  proof
    assume "unat n mod 4096 = 0"
    then obtain k where "unat n = 4096 * k" by (auto simp: mod_eq_0_iff_dvd)
    then have "4503599627370495 < k" "k < 4503599627370496"
      using assms unat64_bound [of n] by linarith+
    then show False by simp
  qed
  then have "n mod 4096 \<noteq> 0" by (simp add: unat_mod_page)
  moreover have "unat (n + 4095) = unat n + 4095 - 18446744073709551616"
    using assms by (simp add: unat_plus_if')
  then have "unat (n + 4095) div 4096 = 0" using unat64_bound [of n] by simp
  then have "(n + 4095) AND NOT 4095 = 0" using round_page_eq [of n] by (simp add: word_unat_eq_iff)
  ultimately show ?thesis by (simp only: roundUpToPageBoundary_alt if_False)
qed

lemma roundUpToPageBoundary_aligned: "page_aligned (roundUpToPageBoundary n)"
proof (cases "unat n \<le> 18446744073709547520")
  case True
  then show ?thesis by (simp add: page_aligned_def roundUpToPageBoundary_nat)
next
  case False
  then show ?thesis by (simp add: roundUpToPageBoundary_wraps)
qed

lemma roundDown_nat: "k < 64 \<Longrightarrow> unat (roundDown n (2 ^ k)) = unat n div 2 ^ k * 2 ^ k"
  using unat_and_not_mask [of n k] by (simp add: roundDown_def mask_eq_exp_minus_1)

lemma roundUp_nat:
  assumes "k < 64" "unat n + 2 ^ k \<le> 18446744073709551616"
  shows "unat (roundUp n (2 ^ k)) = (unat n + 2 ^ k - 1) div 2 ^ k * 2 ^ k"
proof -
  have k: "unat (2 ^ k :: u64) = 2 ^ k" using assms(1) by (rule unat64_power)
  have "unat (2 ^ k - 1 :: u64) = 2 ^ k - 1"
    using k by (simp add: unat_sub_if')
  then have "unat (n + (2 ^ k - 1)) = unat n + (2 ^ k - 1)"
    using assms(2) by (intro trans [OF unat64_add_nowrap]) auto
  then have "unat (n + 2 ^ k - 1) = unat n + 2 ^ k - 1" by (simp add: algebra_simps)
  then show ?thesis
    using unat_and_not_mask [of "n + 2 ^ k - 1" k] by (simp add: roundUp_def mask_eq_exp_minus_1)
qed

lemma page_aligned_small: "page_aligned r \<Longrightarrow> r = 0 \<or> 40 \<le> unat r"
  using page_aligned_apart [OF _ page_aligned_0, of r] by fastforce

section \<open>Best fit\<close>

text \<open>The free list from \<open>p\<close> on visits the blocks \<open>ps\<close> and ends with a null pointer.\<close>

fun chain :: "memory \<Rightarrow> ptr \<Rightarrow> ptr list \<Rightarrow> bool" where
  "chain m p [] \<longleftrightarrow> p = 0"
| "chain m p (q # qs) \<longleftrightarrow> p = q \<and> q \<noteq> 0 \<and> chain m (fb_next m q) qs"

lemma chain_fold:
  assumes "chain m p (ps @ [l])"
  shows "best_fit m r p sel = Some (l, fold (best_fit_pick m r) ps sel)"
    and "coalesce_search m r p sel = Some (l, fold (coalesce_pick m r) ps sel)"
  using assms
proof (induction ps arbitrary: p sel)
  case Nil
  {
    case 1
    then show ?case by (subst best_fit.simps) simp
  next
    case 2
    then show ?case by (subst coalesce_search.simps) simp
  }
next
  case (Cons q qs)
  have next_nz: "chain m p ((q # qs) @ [l]) \<Longrightarrow> fb_next m p \<noteq> 0" for p
    by (cases qs) auto
  {
    case 1
    from next_nz [OF 1] 1 Cons.IH(1) show ?case by (subst best_fit.simps) simp
  next
    case 2
    from next_nz [OF 2] 2 Cons.IH(2) show ?case by (subst coalesce_search.simps) simp
  }
qed

lemma fold_best_fit_pick:
  assumes "0 \<notin> set ps" "sel = 0 \<or> r \<le> fb_size m sel"
  shows "let b = fold (best_fit_pick m r) ps sel in
    (b = 0 \<longleftrightarrow> sel = 0 \<and> (\<forall>q \<in> set ps. fb_size m q < r)) \<and>
    (b \<noteq> 0 \<longrightarrow> b \<in> insert sel (set ps) \<and> r \<le> fb_size m b \<and> (sel \<noteq> 0 \<longrightarrow> fb_size m b \<le> fb_size m sel) \<and>
      (\<forall>q \<in> set ps. r \<le> fb_size m q \<longrightarrow> fb_size m b \<le> fb_size m q))"
  using assms
proof (induction ps arbitrary: sel)
  case (Cons q ps)
  let ?sel = "best_fit_pick m r q sel" and ?b = "fold (best_fit_pick m r) (q # ps) sel"
  have q: "q \<noteq> 0" "0 \<notin> set ps" using Cons.prems by auto
  have "?sel = 0 \<or> r \<le> fb_size m ?sel" using Cons.prems by (auto simp: best_fit_pick_def)
  note IH = Cons.IH [OF q(2) this, unfolded Let_def]
  consider (small) "fb_size m q < r" "?sel = sel"
    | (better) "r \<le> fb_size m q" "sel = 0 \<or> fb_size m q \<le> fb_size m sel" "?sel = q"
    | (keep) "r \<le> fb_size m q" "sel \<noteq> 0" "fb_size m sel \<le> fb_size m q" "?sel = sel"
    unfolding best_fit_pick_def by (metis le_less linorder_not_le)
  then show ?case
  proof cases
    case small
    then show ?thesis using IH by (auto simp: Let_def not_le)
  next
    case better
    then have "?b \<noteq> 0" "?b \<in> insert q (set ps)" "r \<le> fb_size m ?b" "fb_size m ?b \<le> fb_size m q"
      "\<forall>p \<in> set ps. r \<le> fb_size m p \<longrightarrow> fb_size m ?b \<le> fb_size m p"
      using IH q(1) by auto
    then show ?thesis using better by (auto simp: Let_def not_less intro: order_trans)
  next
    case keep
    then have "?b \<noteq> 0" "?b \<in> insert sel (set ps)" "r \<le> fb_size m ?b" "fb_size m ?b \<le> fb_size m sel"
      "\<forall>p \<in> set ps. r \<le> fb_size m p \<longrightarrow> fb_size m ?b \<le> fb_size m p"
      using IH by auto
    then show ?thesis using keep by (auto simp: Let_def not_less intro: order_trans)
  qed
qed auto

lemma chain_nonzero: "chain m p ps \<Longrightarrow> 0 \<notin> set ps"
  by (induction ps arbitrary: p) auto

section \<open>Headers and regions\<close>

lemma fb_regions:
  "region b 8 \<subseteq> region b 40" "region (b + 8) 8 \<subseteq> region b 40" "region (b + 16) 8 \<subseteq> region b 40"
  "region (b + 32) 8 \<subseteq> region b 40" "b + 24 \<in> region b 40"
  by (rule region_subset; simp)+ simp

lemma same_on_set_fb:
  assumes "region b 40 \<inter> R = {}"
  shows "same_on R (set_fb_size b v m) m" "same_on R (set_fb_next b v m) m"
    "same_on R (set_fb_previous b v m) m" "same_on R (set_fb_prevSize b v m) m"
    "same_on R (set_fb_inUse b u m) m"
  unfolding fb_setters
  by (rule same_on_store_le same_on_upd; use fb_regions [of b] assms in blast)+

text \<open>The header that \<open>initFreeList\<close> writes, and that \<open>allocateFrame\<close> writes behind a frame.\<close>

definition write_header :: "ptr \<Rightarrow> u64 \<Rightarrow> memory \<Rightarrow> memory" where
  "write_header b sz m =
     set_fb_prevSize b 0 (set_fb_next b 0 (set_fb_inUse b False (set_fb_size b sz m)))"

lemma set_fb_next_inUse: "set_fb_inUse b u (set_fb_next b v m) = set_fb_next b v (set_fb_inUse b u m)"
  by (rule ext) (simp add: fb_setters store_le_def)

lemma write_header_fields [simp]:
  "fb_size (write_header b sz m) b = sz" "fb_next (write_header b sz m) b = 0"
  "fb_prevSize (write_header b sz m) b = 0"
  by (simp_all add: write_header_def fb_setters)

lemma same_on_write_header: "region b 40 \<inter> R = {} \<Longrightarrow> same_on R (write_header b sz m) m"
  unfolding write_header_def by (meson same_on_set_fb same_on_trans)

section \<open>The allocator as the kernel runs it\<close>

text \<open>
  \<open>allocateFrame\<close> puts the rest of the block it splits at the head of the list with a null \<open>next\<close>, and
  \<open>initFreeList\<close> starts with a single block, so the list always has exactly one block: the memory
  from \<open>next_free\<close> on, of size \<open>room\<close>. This is the invariant; it also keeps the arithmetic in range,
  including the header the allocator writes behind the frame it hands out.
\<close>

definition next_free :: "'a frame_state_scheme \<Rightarrow> ptr" where
  "next_free s =
     (if frame_head s = 0 then freeMemStart (memory (globalBootInfo s)) + hhdm s else frame_head s)"

definition room :: "'a frame_state_scheme \<Rightarrow> u64" where
  "room s = freeMemSize (memory (globalBootInfo s))"

definition alloc_ok :: "'a frame_state_scheme \<Rightarrow> bool" where
  "alloc_ok s \<longleftrightarrow>
     unat (hhdm s) < unat (next_free s) \<and>
     unat (next_free s) + unat (room s) + 40 \<le> 18446744073709551616 \<and>
     page_aligned (next_free s) \<and> page_aligned (hhdm s) \<and>
     (if frame_head s = 0 then
        freeMemStart (memory (globalBootInfo s)) \<noteq> -1 \<and>
        (hhdmOffset (memory (bootInformation s)) = 0 \<or> boot_current s)
      else
        boot_current s \<and> freeBlock s = frame_head s \<and>
        fb_next (mem s) (frame_head s) = 0 \<and> fb_size (mem s) (frame_head s) = room s)"

text \<open>The addresses below the free memory: everything handed out so far.\<close>

definition below :: "ptr \<Rightarrow> ptr set" where
  "below h = {x. unat x < unat h}"

text \<open>The effect of a successful \<open>allocateFrame\<close> of \<open>r\<close> bytes, in one update.\<close>

definition bump_boot :: "u64 \<Rightarrow> bootInfo \<Rightarrow> bootInfo" where
  "bump_boot r b = b\<lparr>memory := (memory b)\<lparr>freeMemSize := freeMemSize (memory b) - r\<rparr>\<rparr>"

definition bump_memory :: "u64 \<Rightarrow> 'a frame_state_scheme \<Rightarrow> memory" where
  "bump_memory r s =
     (let h = next_free s;
          m = (if frame_head s = 0 then write_header h (room s) (mem s) else mem s)
      in memoryset h 0 r (write_header (h + r) (room s - r) (set_fb_inUse h True m)))"

definition bump :: "u64 \<Rightarrow> 'a frame_state_scheme \<Rightarrow> 'a frame_state_scheme" where
  "bump r s =
     s\<lparr>mem := bump_memory r s,
       frame_head := next_free s + r,
       freeBlock := next_free s + r,
       totalMemory := room s,
       usedMemory := usedMemory s + r,
       globalBootInfo := bump_boot r (globalBootInfo s),
       bootInformation := bump_boot r (globalBootInfo s),
       addressSizeHT := insert_kv (addressSizeHT s) (next_free s) (ucast r),
       list_head := (if frame_head s = 0 then next_free s else list_head s)\<rparr>"

lemma hhdm_bump [simp]: "hhdmOffset (memory (bump_boot r b)) = hhdmOffset (memory b)"
  by (simp add: bump_boot_def)

lemma alloc_init_eq:
  assumes "alloc_ok s"
  shows "(alloc_init s)\<lparr>bootInformation := globalBootInfo s\<rparr> =
    s\<lparr>mem := (if frame_head s = 0 then write_header (next_free s) (room s) (mem s) else mem s),
      frame_head := next_free s, freeBlock := next_free s, bootInformation := globalBootInfo s,
      list_head := (if frame_head s = 0 then next_free s else list_head s)\<rparr>"
proof (cases "frame_head s = 0")
  case True
  let ?a = "freeMemStart (memory (globalBootInfo s))"
  have "\<exists>b. toVirtualAddr ?a s = (?a + hhdm s, s\<lparr>bootInformation := b\<rparr>)"
  proof (cases "boot_current s")
    case True
    then show ?thesis using assms \<open>frame_head s = 0\<close>
      by (intro exI [of _ "bootInformation s"]) (simp add: toVirtualAddr_current alloc_ok_def)
  next
    case False
    then show ?thesis using assms \<open>frame_head s = 0\<close>
      by (intro exI [of _ "globalBootInfo s"])
        (simp add: toVirtualAddr_def refresh_bootInformation_def alloc_ok_def getBootInfo_def hhdm_def)
  qed
  then show ?thesis using True
    by (auto simp: alloc_init_def initFreeList_def next_free_def room_def getBootInfo_def
        write_header_def set_fb_next_inUse Let_def)
next
  case False
  then show ?thesis using assms
    by (cases s) (simp add: alloc_init_def next_free_def alloc_ok_def boot_current_def)
qed

lemma alloc_init_global: "globalBootInfo (alloc_init s) = globalBootInfo s"
  by (auto simp: alloc_init_def initFreeList_def toVirtualAddr_def refresh_bootInformation_def Let_def)

lemma header_apart:
  assumes "r = 0 \<or> 40 \<le> unat r" "unat h + unat r + 40 \<le> 18446744073709551616" "0 < unat h"
  shows "region h (unat r) \<inter> region (h + r) 40 = {}"
    and "r \<noteq> 0 \<Longrightarrow> region h 40 \<inter> region (h + r) 40 = {}"
proof -
  have neg: "r \<noteq> 0 \<Longrightarrow> unat (h - (h + r)) = 18446744073709551616 - unat r"
    using unat64_diff_swap [of h "h + r"] by simp
  show "region h (unat r) \<inter> region (h + r) 40 = {}"
    by (cases "r = 0") (use neg assms in \<open>auto intro!: region_disjoint simp del: in_region\<close>)
  show "r \<noteq> 0 \<Longrightarrow> region h 40 \<inter> region (h + r) 40 = {}"
    by (rule region_disjoint) (use neg assms in \<open>auto\<close>)
qed

lemma alloc_commit_eq:
  assumes "boot_current s" "fb_next (mem s) h = 0" "r = 0 \<or> 40 \<le> unat r"
    and "unat h + unat r + 40 \<le> 18446744073709551616" "0 < unat h"
  shows "alloc_commit r h s = Done (h - hhdm s)
    (s\<lparr>mem := memoryset h 0 r (write_header (h + r) (fb_size (mem s) h - r) (set_fb_inUse h True (mem s))),
       frame_head := h + r, freeBlock := h + r,
       usedMemory := usedMemory s + r,
       globalBootInfo := bump_boot r (globalBootInfo s),
       bootInformation := bump_boot r (globalBootInfo s),
       addressSizeHT := insert_kv (addressSizeHT s) h (ucast r)\<rparr>)"
proof -
  let ?m = "set_fb_inUse h True (mem s)"
  have m: "fb_next ?m h = fb_next (mem s) h" "fb_size ?m h = fb_size (mem s) h"
    by (simp_all add: fb_setters)
  let ?m2 = "set_fb_inUse (h + r) False (set_fb_size (h + r) (fb_size ?m h - r) ?m)"
  have "fb_next ?m2 h = fb_next ?m h"
  proof (cases "r = 0")
    case True
    then show ?thesis by (simp add: fb_setters)
  next
    case False
    then have "region (h + r) 40 \<inter> region h 40 = {}"
      using header_apart(2) [OF assms(3-5)] by blast
    then have "same_on (region h 40) ?m2 ?m"
      by (meson same_on_set_fb same_on_trans)
    then have "same_on (region (h + 8) 8) ?m2 ?m"
      using fb_regions(2) by (rule same_on_subset)
    then show ?thesis by (rule load_le_cong) simp
  qed
  then have next0: "fb_next ?m2 h = 0" using m assms(2) by simp
  show ?thesis
    using assms(1) next0 m
    by (simp add: alloc_commit_def Let_def write_header_def toPhysicalAddr_def setBootInfo_def
        refresh_bootInformation_def boot_current_def getBootInfo_def hhdm_def bump_boot_def)
qed

lemma alloc_ok_nonzero: "alloc_ok s \<Longrightarrow> 0 < unat (next_free s)"
  by (simp add: alloc_ok_def)

lemma allocateFrame_eq:
  assumes ok: "alloc_ok s" and r: "r = roundUpToPageBoundary n" "r \<le> room s"
  shows "allocateFrame n s = Done (next_free s - hhdm s) (bump r s)"
proof -
  let ?h = "next_free s"
  let ?s = "s\<lparr>mem := (if frame_head s = 0 then write_header ?h (room s) (mem s) else mem s),
      frame_head := ?h, freeBlock := ?h, bootInformation := globalBootInfo s,
      list_head := (if frame_head s = 0 then ?h else list_head s), totalMemory := room s\<rparr>"
  have start: "(alloc_init s)\<lparr>bootInformation := globalBootInfo s, totalMemory := room s\<rparr> = ?s"
    using arg_cong [OF alloc_init_eq [OF ok], of "totalMemory_update (\<lambda>_. room s)"] by simp
  have hd: "fb_next (mem ?s) ?h = 0" "fb_size (mem ?s) ?h = room s"
    using ok by (auto simp: alloc_ok_def next_free_def)
  have "page_aligned r" using r(1) by (simp add: roundUpToPageBoundary_aligned)
  then have r40: "r = 0 \<or> 40 \<le> unat r" by (rule page_aligned_small)
  have fits: "unat ?h + unat r + 40 \<le> 18446744073709551616"
    using ok r(2) by (simp add: alloc_ok_def word_le_nat_alt)
  have sel: "alloc_select r ?s = Done ?h ?s"
    using hd r(2) by (simp add: alloc_select_def)
  have "alloc_commit r ?h ?s = Done (?h - hhdm s) (bump r s)"
    by (subst alloc_commit_eq) (use hd r40 fits alloc_ok_nonzero [OF ok] in
      \<open>simp_all add: boot_current_def bump_def bump_memory_def Let_def hhdm_def\<close>)
  then show ?thesis
    using sel r alloc_ok_nonzero [OF ok, unfolded unat_gt_0]
    by (simp add: allocateFrame_def Let_def start getBootInfo_def alloc_init_global not_less
        room_def [symmetric, of s])
qed

section \<open>What an allocation guarantees\<close>

lemma in_below: "x \<in> below h \<longleftrightarrow> unat x < unat h"
  by (simp add: below_def)

text \<open>A region that does not wrap around lies between its ends.\<close>

lemma region_interval:
  assumes "unat a + n \<le> 18446744073709551616"
  shows "x \<in> region a n \<longleftrightarrow> unat a \<le> unat x \<and> unat x < unat a + n"
  using assms unat64_bound [of x] by (auto simp: unat_sub_if')

lemma region_below:
  assumes "unat a + n \<le> unat h"
  shows "region a n \<subseteq> below h"
  using assms unat64_bound [of h] by (auto simp: region_interval below_def simp del: in_region)

lemma region_not_below:
  assumes "unat h \<le> unat a" "unat a + n \<le> 18446744073709551616"
  shows "region a n \<inter> below h = {}"
  using assms by (auto simp: region_interval below_def simp del: in_region)

lemma bump_fields [simp]:
  "globalBootInfo (bump r s) = bump_boot r (globalBootInfo s)"
  "bootInformation (bump r s) = bump_boot r (globalBootInfo s)"
  "frame_head (bump r s) = next_free s + r" "freeBlock (bump r s) = next_free s + r"
  "mem (bump r s) = bump_memory r s" "usedMemory (bump r s) = usedMemory s + r"
  "io_log (bump r s) = io_log s" "hhdm (bump r s) = hhdm s" "room (bump r s) = room s - r"
  "boot_current (bump r s)"
  by (simp_all add: bump_def hhdm_def room_def bump_boot_def boot_current_def)

lemma room_fits:
  assumes "alloc_ok s" "r \<le> room s"
  shows "unat (next_free s) + unat r + 40 \<le> 18446744073709551616"
    and "unat (next_free s + r) = unat (next_free s) + unat r"
    and "unat (room s - r) = unat (room s) - unat r"
  using assms unat64_add_nowrap [of "next_free s" r]
  by (auto simp: alloc_ok_def word_le_nat_alt unat64_diff_eq)

lemma next_free_bump:
  assumes "alloc_ok s" "r \<le> room s"
  shows "next_free (bump r s) = next_free s + r"
proof -
  have "next_free s + r \<noteq> 0"
    using room_fits(2) [OF assms] alloc_ok_nonzero [OF assms(1)] by (metis add_gr_0 neq0_conv unat_0)
  then show ?thesis by (simp add: next_free_def [of "bump r s"])
qed

lemma bump_header:
  assumes "alloc_ok s" "r \<le> room s" "page_aligned r"
  shows "fb_next (bump_memory r s) (next_free s + r) = 0"
    and "fb_size (bump_memory r s) (next_free s + r) = room s - r"
proof -
  have "region (next_free s) (unat r) \<inter> region (next_free s + r) 40 = {}"
    using header_apart(1) [OF page_aligned_small [OF assms(3)] room_fits(1) [OF assms(1,2)]
        alloc_ok_nonzero [OF assms(1)]] .
  then have eq: "same_on (region (next_free s + r) 40) (memoryset (next_free s) 0 r m) m" for m
    by (rule same_on_memoryset)
  show "fb_next (bump_memory r s) (next_free s + r) = 0"
    unfolding bump_memory_def Let_def
    by (subst load_le_cong [OF same_on_subset [OF eq fb_regions(2)]]) simp_all
  show "fb_size (bump_memory r s) (next_free s + r) = room s - r"
    unfolding bump_memory_def Let_def
    by (subst load_le_cong [OF same_on_subset [OF eq fb_regions(1)]]) simp_all
qed

lemma alloc_ok_bump:
  assumes "alloc_ok s" "r \<le> room s" "page_aligned r"
  shows "alloc_ok (bump r s)"
  using assms room_fits [OF assms(1,2)] bump_header [OF assms] next_free_bump [OF assms(1,2)]
    page_aligned_add [of "next_free s" r]
  by (auto simp: alloc_ok_def next_free_def [of "bump r s"] word_le_nat_alt split: if_splits)

lemma bump_zero: "x \<in> region (next_free s) (unat r) \<Longrightarrow> mem (bump r s) x = 0"
  by (simp add: bump_memory_def memoryset_apply Let_def)

lemma bump_below:
  assumes "alloc_ok s" "r \<le> room s" "page_aligned r"
  shows "same_on (below (next_free s)) (mem (bump r s)) (mem s)"
proof -
  let ?h = "next_free s"
  let ?R = "below ?h"
  note fits = room_fits [OF assms(1,2)]
  have "region ?h (unat r) \<inter> ?R = {}" "region (?h + r) 40 \<inter> ?R = {}" "region ?h 40 \<inter> ?R = {}"
    using fits by (auto intro!: region_not_below simp del: in_region)
  then show ?thesis
    by (auto simp: bump_memory_def Let_def
        intro!: same_on_trans [OF same_on_memoryset] same_on_trans [OF same_on_write_header]
          same_on_trans [OF same_on_set_fb(5)] same_on_write_header same_on_set_fb(5))
qed

text \<open>The allocator either makes the allocation of \<open>bump\<close> or stops the machine.\<close>

lemma allocateFrame_cases:
  assumes "alloc_ok s" "r = roundUpToPageBoundary n"
  shows "allocateFrame n s =
    (if r \<le> room s then Done (next_free s - hhdm s) (bump r s)
     else Halted (e9_print ''ERROR!!''
       ((alloc_init s)\<lparr>bootInformation := globalBootInfo s, totalMemory := room s\<rparr>)))"
  using assms allocateFrame_eq [OF assms(1,2)]
  by (auto simp: allocateFrame_def Let_def room_def getBootInfo_def alloc_init_global not_le)

definition frame_area :: "'a frame_state_scheme \<Rightarrow> u64 \<Rightarrow> u64 \<Rightarrow> ptr set" where
  "frame_area s p n = region (p + hhdm s) (unat (roundUpToPageBoundary n))"

lemma allocateFrame_Done:
  assumes "alloc_ok s" "allocateFrame n s = Done p s'"
  shows "roundUpToPageBoundary n \<le> room s \<and> p = next_free s - hhdm s \<and>
    s' = bump (roundUpToPageBoundary n) s"
  using assms by (auto simp: allocateFrame_cases [OF assms(1) refl] split: if_splits)

interpretation frames: frame_source allocateFrame alloc_ok mem "\<lambda>s. below (next_free s)" frame_area
proof unfold_locales
  fix s :: "'a frame_state_scheme" and n p s'
  assume "alloc_ok s" "allocateFrame n s = Done p s'"
  note ok = \<open>alloc_ok s\<close> and facts = allocateFrame_Done [OF this]
  let ?r = "roundUpToPageBoundary n"
  note al = roundUpToPageBoundary_aligned [of n]
  have r: "?r \<le> room s" and p: "p + hhdm s = next_free s" and s': "s' = bump ?r s"
    using facts by auto
  note fits = room_fits [OF ok r]
  show "alloc_ok s'" using alloc_ok_bump [OF ok r al] s' by simp
  show "frame_area s p n \<inter> below (next_free s) = {}"
    unfolding frame_area_def p by (rule region_not_below) (use fits in auto)
  have "region (next_free s) (unat ?r) \<subseteq> below (next_free s + ?r)"
    by (rule region_below) (use fits in simp)
  moreover have "below (next_free s) \<subseteq> below (next_free s + ?r)"
    using fits by (auto simp: below_def)
  ultimately show "frame_area s p n \<union> below (next_free s) \<subseteq> below (next_free s')"
    unfolding frame_area_def p s' next_free_bump [OF ok r] by simp
  show "frame_area s' = frame_area s"
    by (intro ext) (simp add: frame_area_def s')
  show "same_on (below (next_free s)) (mem s') (mem s)"
    unfolding s' by (rule bump_below [OF ok r al])
  show "mem s' x = 0" if "x \<in> frame_area s p n" for x
    using that bump_zero unfolding frame_area_def p s' by blast
qed

text \<open>Allocations succeed as long as the rounded sizes fit.\<close>

definition rounded_total :: "u64 list \<Rightarrow> nat" where
  "rounded_total ns = sum_list (map (unat \<circ> roundUpToPageBoundary) ns)"

lemma alloc_many_succeeds:
  assumes "alloc_ok s" "rounded_total ns \<le> unat (room s)"
  shows "\<exists>ps s'. alloc_many allocateFrame ns s = Done ps s' \<and>
    unat (room s') = unat (room s) - rounded_total ns \<and> unat (next_free s') = unat (next_free s) + rounded_total ns"
  using assms
proof (induction ns arbitrary: s)
  case (Cons n ns)
  let ?r = "roundUpToPageBoundary n"
  have r: "?r \<le> room s" using Cons.prems(2) by (simp add: rounded_total_def word_le_nat_alt)
  have al: "page_aligned ?r" by (rule roundUpToPageBoundary_aligned)
  have ok: "alloc_ok (bump ?r s)" by (rule alloc_ok_bump [OF Cons.prems(1) r al])
  have room: "unat (room (bump ?r s)) = unat (room s) - unat ?r"
    using room_fits(3) [OF Cons.prems(1) r] by simp
  have next_fr: "unat (next_free (bump ?r s)) = unat (next_free s) + unat ?r"
    using room_fits(2) [OF Cons.prems(1) r] next_free_bump [OF Cons.prems(1) r] by simp
  obtain ps s' where "alloc_many allocateFrame ns (bump ?r s) = Done ps s'"
    "unat (room s') = unat (room (bump ?r s)) - rounded_total ns"
    "unat (next_free s') = unat (next_free (bump ?r s)) + rounded_total ns"
  proof -
    have "rounded_total ns \<le> unat (room (bump ?r s))"
      unfolding room using Cons.prems(2) by (simp add: rounded_total_def)
    then show ?thesis using Cons.IH [OF ok] that by blast
  qed
  then show ?case
    using allocateFrame_eq [OF Cons.prems(1) refl r] unfolding room next_fr
    by (simp add: rounded_total_def)
qed (simp add: rounded_total_def)

section \<open>Properties\<close>

text \<open>
  \<open>roundUpToPageBoundary\<close> returns the least multiple of 4096 that is not smaller, for sizes up to
  \<open>2^64 - 4096\<close>; above that it wraps around to 0, so that a request close to \<open>2^64\<close> bytes counts as one
  for no bytes at all.
\<close>

theorem roundUpToPageBoundary_exact:
  "unat (roundUpToPageBoundary n) =
     (if unat n \<le> 2 ^ 64 - 4096 then (unat n + 4095) div 4096 * 4096 else 0)"
  using roundUpToPageBoundary_nat [of n] roundUpToPageBoundary_wraps [of n] by simp

text \<open>
  \<open>roundDown\<close> and \<open>roundUp\<close> to a power of two give the nearest multiple below and above, as long as
  the addition in \<open>roundUp\<close> does not overflow.
\<close>

theorem roundDown_roundUp_exact:
  assumes "k < 64" "unat n + 2 ^ k \<le> 2 ^ 64"
  shows "unat (roundDown n (2 ^ k)) = unat n div 2 ^ k * 2 ^ k \<and>
    unat (roundUp n (2 ^ k)) = (unat n + 2 ^ k - 1) div 2 ^ k * 2 ^ k"
  using roundDown_nat [OF assms(1)] roundUp_nat [OF assms(1)] assms(2) by simp

theorem roundDown_roundUp_exact_witness:
  "unat (roundDown 0x1234567 (2 ^ 12)) = 0x1234000 \<and> unat (roundUp 0x1234567 (2 ^ 12)) = 0x1235000"
  using roundDown_roundUp_exact [of 12 "0x1234567"] by simp

text \<open>
  C34: on a free list that ends in a null pointer the best-fit search returns, with the last block
  of the list and a selection: null when every block but the last is too small, else a block of the
  list that is large enough and not larger than any other large enough block but the last. The last block
  is never looked at.
\<close>

theorem best_fit_smallest:
  assumes "chain m p (ps @ [l])"
  shows "\<exists>b. best_fit m r p 0 = Some (l, b) \<and>
    (b = 0 \<longleftrightarrow> (\<forall>q \<in> set ps. fb_size m q < r)) \<and>
    (b \<noteq> 0 \<longrightarrow> b \<in> set ps \<and> r \<le> fb_size m b \<and>
      (\<forall>q \<in> set ps. r \<le> fb_size m q \<longrightarrow> fb_size m b \<le> fb_size m q))"
proof -
  have "0 \<notin> set ps" using chain_nonzero [OF assms] by simp
  from fold_best_fit_pick [OF this, of 0 r m] show ?thesis
    unfolding chain_fold(1) [OF assms] by (auto simp: Let_def)
qed

text \<open>Three blocks of 0x3000, 0x2000 and 0x1000 bytes.\<close>

definition chain_sample :: memory where
  "chain_sample = store64 (store64 (store64 (store64 (store64 (\<lambda>_. 0) 0x10000 0x3000) 0x10008 0x20000)
     0x20000 0x2000) 0x20008 0x30000) 0x30000 0x1000"

lemma chain_sample_fields:
  "load64 chain_sample 0x10000 = 0x3000" "load64 chain_sample 0x10008 = 0x20000"
  "load64 chain_sample 0x20000 = 0x2000" "load64 chain_sample 0x20008 = 0x30000"
  "load64 chain_sample 0x30008 = 0"
  by (simp_all add: chain_sample_def load_le_zero)

theorem best_fit_smallest_witness: "best_fit chain_sample 0x1800 0x10000 0 = Some (0x30000, 0x20000)"
proof -
  have c: "chain chain_sample 0x10000 ([0x10000, 0x20000] @ [0x30000])"
    by (simp add: chain_sample_fields)
  show ?thesis using best_fit_smallest [OF c, of "0x1800"] by (auto simp: chain_sample_fields)
qed

text \<open>
  C5: \<open>allocateFrame\<close> under the allocator's invariant: when the rounded size fits into the free memory it
  returns the physical address of the first free byte, the frame is zero, every byte handed out
  earlier is unchanged, and the free memory starts behind the frame and is smaller by its size; when
  it does not fit the machine halts.
\<close>

theorem allocateFrame_spec:
  assumes "alloc_ok s" "r = roundUpToPageBoundary n"
  shows "if r \<le> room s then
      \<exists>s'. allocateFrame n s = Done (next_free s - hhdm s) s' \<and> alloc_ok s' \<and>
        (\<forall>x \<in> region (next_free s) (unat r). mem s' x = 0) \<and>
        same_on (below (next_free s)) (mem s') (mem s) \<and>
        next_free s' = next_free s + r \<and> room s' = room s - r \<and> usedMemory s' = usedMemory s + r
    else \<exists>s'. allocateFrame n s = Halted s'"
proof (cases "r \<le> room s")
  case True
  have al: "page_aligned r" using assms(2) by (simp add: roundUpToPageBoundary_aligned)
  show ?thesis
    using True allocateFrame_eq [OF assms True] alloc_ok_bump [OF assms(1) True al]
      bump_zero [of _ s r] bump_below [OF assms(1) True al] next_free_bump [OF assms(1) True] by simp
next
  case False
  then show ?thesis using allocateFrame_cases [OF assms] by simp
qed

text \<open>A machine with 1 MB of free memory at 16 MB, before the first allocation.\<close>

definition frame_sample :: frame_state where
  "frame_sample = \<lparr>mem = (\<lambda>_. 0xFF), io_log = [], limine_print = False,
     globalBootInfo = zero_bootInfo\<lparr>memory := zero_Memory\<lparr>freeMemStart := 0x1000000,
       freeMemSize := 0x100000, hhdmOffset := 0xFFFF800000000000\<rparr>\<rparr>,
     frame_head = 0, freeBlock = 0, totalMemory = 0, usedMemory = 0, bootInformation = zero_bootInfo,
     addressSizeHT = zero_table, list_head = 0\<rparr>"

lemma frame_sample_ok:
  "alloc_ok frame_sample" "room frame_sample = 0x100000" "next_free frame_sample = 0xFFFF800001000000"
  "hhdm frame_sample = 0xFFFF800000000000"
  by (simp_all add: frame_sample_def alloc_ok_def next_free_def room_def hhdm_def zero_bootInfo_def
      zero_Memory_def page_aligned_def)

theorem allocateFrame_spec_witness:
  "(\<exists>s'. allocateFrame 0x1234 frame_sample = Done 0x1000000 s' \<and> room s' = 0xFE000) \<and>
   (\<exists>s'. allocateFrame 0x100001 frame_sample = Halted s')"
proof -
  have r: "roundUpToPageBoundary 0x1234 = 0x2000" "roundUpToPageBoundary 0x100001 = 0x101000"
    by (simp_all add: roundUpToPageBoundary_def PAGESIZE_def)
  show ?thesis
    using allocateFrame_spec [OF frame_sample_ok(1) refl, of "0x1234"]
      allocateFrame_spec [OF frame_sample_ok(1) refl, of "0x100001"]
    by (auto simp: r frame_sample_ok)
qed

text \<open>
  C4: any sequence of allocations whose rounded sizes fit into the free memory succeeds, and afterwards
  the frames do not overlap each other, do not meet anything handed out before the sequence, and
  are all zero: a later allocation never touches an earlier frame.
\<close>

theorem allocateFrame_sequence:
  assumes "alloc_ok s" "rounded_total ns \<le> unat (room s)"
  shows "\<exists>ps s'. alloc_many allocateFrame ns s = Done ps s' \<and> alloc_ok s' \<and> length ps = length ns \<and>
    (\<forall>i < length ns. frame_area s (ps ! i) (ns ! i) \<inter> below (next_free s) = {} \<and>
      (\<forall>x \<in> frame_area s (ps ! i) (ns ! i). mem s' x = 0)) \<and>
    (\<forall>i < length ns. \<forall>j < length ns. i \<noteq> j \<longrightarrow>
      frame_area s (ps ! i) (ns ! i) \<inter> frame_area s (ps ! j) (ns ! j) = {}) \<and>
    same_on (below (next_free s)) (mem s') (mem s)"
proof -
  obtain ps s' where run: "alloc_many allocateFrame ns s = Done ps s'"
    using alloc_many_succeeds [OF assms] by blast
  show ?thesis
    using run frames.alloc_many_steps [OF assms(1) run] frames.alloc_many_disjoint [OF assms(1) run] by blast
qed

theorem allocateFrame_sequence_witness:
  "\<exists>ps s'. alloc_many allocateFrame [0x1000, 5, 0x2001] frame_sample = Done ps s' \<and>
     (\<forall>x \<in> frame_area frame_sample (ps ! 0) 0x1000. mem s' x = 0) \<and>
     frame_area frame_sample (ps ! 0) 0x1000 \<inter> frame_area frame_sample (ps ! 2) 0x2001 = {}"
proof -
  have "rounded_total [0x1000, 5, 0x2001] \<le> unat (room frame_sample)"
    by (simp add: rounded_total_def roundUpToPageBoundary_def PAGESIZE_def frame_sample_ok)
  from allocateFrame_sequence [OF frame_sample_ok(1) this] obtain ps s'
    where 1: "alloc_many allocateFrame [0x1000, 5, 0x2001] frame_sample = Done ps s'"
      and 2: "\<forall>i < length [0x1000, 5, 0x2001 :: u64]. frame_area frame_sample (ps ! i) ([0x1000, 5, 0x2001] ! i)
          \<inter> below (next_free frame_sample) = {} \<and>
        (\<forall>x \<in> frame_area frame_sample (ps ! i) ([0x1000, 5, 0x2001] ! i). mem s' x = 0)"
      and 3: "\<forall>i < length [0x1000, 5, 0x2001 :: u64]. \<forall>j < length [0x1000, 5, 0x2001 :: u64]. i \<noteq> j \<longrightarrow>
        frame_area frame_sample (ps ! i) ([0x1000, 5, 0x2001] ! i) \<inter>
        frame_area frame_sample (ps ! j) ([0x1000, 5, 0x2001] ! j) = {}"
    by blast
  have "frame_area frame_sample (ps ! 0) 0x1000 \<inter> frame_area frame_sample (ps ! 2) 0x2001 = {}"
    using 3 [rule_format, of 0 2] by simp
  moreover have "\<forall>x \<in> frame_area frame_sample (ps ! 0) 0x1000. mem s' x = 0"
    using 2 [rule_format, of 0] by simp
  ultimately show ?thesis using 1 by blast
qed

text \<open>
  C25: \<open>freeFrame\<close> halts for every frame, also for one that was allocated and not freed: the lookup of
  the frame's size always fails, so the routine takes every call for a double free, and no memory is
  ever given back.
\<close>

theorem freeFrame_always_halts:
  "\<exists>t. freeFrame f s =
     Halted (e9_print ''ERROR: Double Free / Wrong Memory Freeing attempt. Blocked.'' t) \<and> mem t = mem s"
  by (auto simp: freeFrame_def search_eq toVirtualAddr_def refresh_bootInformation_def Let_def split_beta)

end
