(* ===== verification/Paging.thy ===== *)
theory Paging
  imports Frame_Allocator Lock
begin

text \<open>
  The page tables of \<open>kernel/paging/paging.hpp\<close> and \<open>paging.cpp\<close>: the 64-bit entries and their
  operations, the descent through the four levels (\<open>getNextLevelPointer\<close>, \<open>virtualAddrToPTE\<close>), \<open>map\<close>,
  the copy \<open>newPML4\<close> and the set-up of the kernel's address space \<open>initPaging\<close>.
\<close>

section \<open>Flags and entries\<close>

definition Present :: u64 where "Present = 0x1"
definition ReadWrite :: u64 where "ReadWrite = 0x2"
definition UserOrSuperuser :: u64 where "UserOrSuperuser = 0x4"
definition WriteThrough :: u64 where "WriteThrough = 0x8"
definition CacheDisable :: u64 where "CacheDisable = 0x10"
definition Accessed :: u64 where "Accessed = 0x20"
definition LargerPages :: u64 where "LargerPages = 0x80"
definition Global :: u64 where "Global = 0x100"
definition NoExec :: u64 where "NoExec = 0x8000000000000000"

lemmas pte_flag_defs = Present_def ReadWrite_def UserOrSuperuser_def WriteThrough_def CacheDisable_def
  Accessed_def LargerPages_def Global_def NoExec_def

text \<open>The bits 12 to 51 of an entry hold the address.\<close>

definition ADDRESS_BITS :: u64 where
  "ADDRESS_BITS = 0x000FFFFFFFFFF000"

text \<open>\<open>struct PageDirectoryEntry\<close> is one 64-bit \<open>value\<close>.\<close>

type_synonym PageDirectoryEntry = u64

definition setFlag :: "u64 \<Rightarrow> bool \<Rightarrow> PageDirectoryEntry \<Rightarrow> PageDirectoryEntry" where
  "setFlag flag enable e = (let e = e AND NOT flag in if enable then e OR flag else e)"

definition getFlag :: "u64 \<Rightarrow> PageDirectoryEntry \<Rightarrow> bool" where
  "getFlag flag e \<longleftrightarrow> (e AND flag) \<noteq> 0"

definition setAddress :: "u64 \<Rightarrow> PageDirectoryEntry \<Rightarrow> PageDirectoryEntry" where
  "setAddress address e = (e AND NOT ADDRESS_BITS) OR (address AND ADDRESS_BITS)"

definition getAddress :: "PageDirectoryEntry \<Rightarrow> u64" where
  "getAddress e = (if e \<noteq> 0 then e AND ADDRESS_BITS else 0)"

definition isValid :: "PageDirectoryEntry \<Rightarrow> bool" where
  "isValid e = (if getFlag Present e then (if getAddress e = 0 then False else True) else False)"

section \<open>Global variables\<close>

text \<open>
  The globals of \<open>paging.cpp\<close> (its \<open>bootInformation\<close>, \<open>hhdmOffset\<close> and \<open>mutex\<close> carry the prefix
  \<open>paging_\<close>) and the control register that holds the root of the active tables.
\<close>

record paging_state = frame_state +
  PML4 :: ptr
  kernelPML4 :: ptr
  paging_bootInformation :: bootInfo
  paging_hhdmOffset :: u64
  paging_mutex :: u32
  cr3 :: u64

definition setCr3 :: "u64 \<Rightarrow> 'a paging_state_scheme \<Rightarrow> 'a paging_state_scheme" where
  "setCr3 v s = s\<lparr>cr3 := v\<rparr>"

definition readCr3 :: "'a paging_state_scheme \<Rightarrow> u64" where
  "readCr3 s = cr3 s"

section \<open>The descent\<close>

text \<open>\<open>reportError()\<close> at a line of \<open>paging.cpp\<close>.\<close>

definition paging_error :: "u32 \<Rightarrow> 'a machine_scheme \<Rightarrow> ('b, 'a machine_scheme) outcome" where
  "paging_error line s = haltAndCatchFire ''paging/paging.cpp'' line [] s"

definition getNextLevelPointer ::
    "ptr \<Rightarrow> bool \<Rightarrow> 'a paging_state_scheme \<Rightarrow> (u64, 'a paging_state_scheme) outcome" where
  "getNextLevelPointer entry allocate s =
     obind
       (if isValid (load64 (mem s) entry) then Done (getAddress (load64 (mem s) entry)) s
        else if allocate then
          obind (allocateFrame 0x1000 s) (\<lambda>nextLevelPointer s.
            let e = load64 (mem s) entry;
                e = setAddress nextLevelPointer e;
                e = setFlag ReadWrite True e;
                e = setFlag UserOrSuperuser True e;
                e = setFlag Present True e
            in Done nextLevelPointer (s\<lparr>mem := store64 (mem s) entry e\<rparr>))
        else paging_error 108 s)
       (\<lambda>nextLevelPointer s.
          if nextLevelPointer \<noteq> 0 then Done nextLevelPointer s else paging_error 114 s)"

definition table_index :: "nat \<Rightarrow> ptr \<Rightarrow> u64" where
  "table_index level va = drop_bit (3 + 9 * level) (va AND push_bit (3 + 9 * level) 0x1FF)"

definition entry_addr :: "ptr \<Rightarrow> u64 \<Rightarrow> ptr" where
  "entry_addr table i = table + 8 * i"

text \<open>One level down: the next table's virtual address, never null.\<close>

definition next_table ::
    "u32 \<Rightarrow> ptr \<Rightarrow> 'a paging_state_scheme \<Rightarrow> (ptr, 'a paging_state_scheme) outcome" where
  "next_table line entry s =
     obind (getNextLevelPointer entry True s) (\<lambda>p s.
       let (t, s) = toVirtualAddr p s in
       if t = 0 then paging_error line s else Done t s)"

definition virtualAddrToPTE ::
    "ptr \<Rightarrow> u64 \<Rightarrow> 'a paging_state_scheme \<Rightarrow> (ptr, 'a paging_state_scheme) outcome" where
  "virtualAddrToPTE va flags s =
     (if PML4 s = 0 then Done 0 s
      else
        let PML4x = PML4 s;
            (t4, s) = toVirtualAddr (PML4 s) s;
            s = s\<lparr>PML4 := t4\<rparr>
        in obind (next_table 138 (entry_addr t4 (table_index 4 va)) s) (\<lambda>t3 s.
           let s = s\<lparr>PML4 := PML4x\<rparr> in
           obind (next_table 145 (entry_addr t3 (table_index 3 va)) s) (\<lambda>t2 s.
           if getFlag LargerPages flags then Done (entry_addr t2 (table_index 2 va)) s
           else obind (next_table 154 (entry_addr t2 (table_index 2 va)) s) (\<lambda>t1 s.
             Done (entry_addr t1 (table_index 1 va)) s))))"

definition map_page ::
    "u64 \<Rightarrow> ptr \<Rightarrow> u64 \<Rightarrow> 'a paging_state_scheme \<Rightarrow> (bool, 'a paging_state_scheme) outcome" where
  "map_page pa va flags s =
     obind (virtualAddrToPTE va flags s) (\<lambda>entry s.
       if entry \<noteq> 0 then
         (let e = load64 (mem s) entry;
              e = setAddress pa e;
              e = setFlag flags True e
          in Done True (s\<lparr>mem := store64 (mem s) entry e\<rparr>))
       else Done False s)"

section \<open>Address spaces\<close>

definition isHigherHalf :: "u64 \<Rightarrow> 'a paging_state_scheme \<Rightarrow> bool" where
  "isHigherHalf addr s \<longleftrightarrow> addr \<ge> paging_hhdmOffset s"

definition toHigherHalf :: "u64 \<Rightarrow> 'a paging_state_scheme \<Rightarrow> u64" where
  "toHigherHalf addr s = (if isHigherHalf addr s then addr else addr + paging_hhdmOffset s)"

definition ONE_GB :: u64 where "ONE_GB = 0x40000000"
definition FOUR_KB :: u64 where "FOUR_KB = 0x1000"
definition ONE_MB :: u64 where "ONE_MB = 0x100000"

definition requiredSize :: "u64 \<Rightarrow> u64 \<times> u64" where
  "requiredSize sz =
     (if sz \<ge> ONE_GB then (2 * ONE_MB, LargerPages)
      else if sz \<ge> FOUR_KB then (FOUR_KB, 0)
      else (FOUR_KB, 0))"

text \<open>
  \<open>newPML4\<close>: a fresh root that shares the upper half and the first entry with the current one.
\<close>

definition copy_entry :: "ptr \<Rightarrow> ptr \<Rightarrow> nat \<Rightarrow> memory \<Rightarrow> memory" where
  "copy_entry dst src i m = store64 m (entry_addr dst (of_nat i)) (load64 m (entry_addr src (of_nat i)))"

definition newPML4 :: "'a paging_state_scheme \<Rightarrow> (ptr, 'a paging_state_scheme) outcome" where
  "newPML4 s =
     obind (allocateFrame 0x1000 s) (\<lambda>p s.
       let (new, s) = toVirtualAddr p s;
           (pml4, s) = toVirtualAddr (PML4 s) s;
           m = fold (copy_entry new pml4) [256..<512] (mem s);
           m = copy_entry new pml4 0 m;
           (pa, s) = toPhysicalAddr new (s\<lparr>mem := m\<rparr>)
       in Done pa s)"

section \<open>initPaging\<close>

definition init_root :: "'a paging_state_scheme \<Rightarrow> (unit, 'a paging_state_scheme) outcome" where
  "init_root s =
     obind (allocateFrame 0x1000 s) (\<lambda>p s.
       let s = s\<lparr>PML4 := p\<rparr>
       in Done () (if kernelPML4 s = 0 then s\<lparr>kernelPML4 := PML4 s\<rparr> else s))"

text \<open>The first 4 GB, at their own addresses and in the higher half.\<close>

definition init_low_body :: "u64 \<Rightarrow> 'a paging_state_scheme \<Rightarrow> (unit, 'a paging_state_scheme) outcome" where
  "init_low_body i s =
     obind (map_page i i (ReadWrite OR Present OR LargerPages) s) (\<lambda>_ s.
     obind (map_page i (i + paging_hhdmOffset s) (ReadWrite OR Present OR LargerPages) s) (\<lambda>_ s.
     Done () s))"

definition init_low :: "'a paging_state_scheme \<Rightarrow> (unit, 'a paging_state_scheme) outcome" where
  "init_low s = for_range init_low_body 0 (4 * ONE_GB) (2 * ONE_MB) s"

text \<open>The memory map above 4 GB, in the higher half.\<close>

definition init_entry_large ::
    "u64 \<Rightarrow> u64 \<Rightarrow> 'a paging_state_scheme \<Rightarrow> (unit, 'a paging_state_scheme) outcome" where
  "init_entry_large sizeFlags k s =
     (if k < 4 * ONE_GB then Done () s
      else obind (map_page k (k + paging_hhdmOffset s) (ReadWrite OR Present OR sizeFlags) s)
        (\<lambda>_ s. Done () s))"

definition init_entry_rest ::
    "u64 \<Rightarrow> u64 \<Rightarrow> 'a paging_state_scheme \<Rightarrow> (unit, 'a paging_state_scheme) outcome" where
  "init_entry_rest sizeFlags k s =
     obind (map_page k (k + paging_hhdmOffset s) (ReadWrite OR Present OR sizeFlags) s)
       (\<lambda>ok s. if \<not> ok then paging_error 72 s else Done () s)"

definition init_entry ::
    "limine_memmap_entry \<Rightarrow> 'a paging_state_scheme \<Rightarrow> (unit, 'a paging_state_scheme) outcome" where
  "init_entry mmap s =
     (let start = roundDown (me_base mmap) FOUR_KB;
          endAddr = roundUp (me_base mmap + me_length mmap) FOUR_KB
      in if start < 4 * ONE_GB then Done () s
         else
           let rangeSize = endAddr - start;
               (pageSize, sizeFlags) = requiredSize rangeSize;
               roundedSize = roundDown rangeSize pageSize;
               difference = rangeSize - roundedSize
           in obind (for_range (init_entry_large sizeFlags) start (start + roundedSize) pageSize s) (\<lambda>_ s.
              let start = start + roundedSize in
              for_range (init_entry_rest sizeFlags) start (start + difference) pageSize s))"

text \<open>The kernel image, at the addresses it was linked for.\<close>

definition init_blob_body ::
    "limine_kernel_address \<Rightarrow> u64 \<Rightarrow> 'a paging_state_scheme \<Rightarrow> (unit, 'a paging_state_scheme) outcome" where
  "init_blob_body ka i s =
     obind (map_page (i - virtual_base ka + physical_base ka) i (ReadWrite OR Present) s)
       (\<lambda>_ s. Done () s)"

definition init_blob ::
    "limine_kernel_address \<Rightarrow> u64 \<Rightarrow> u64 \<Rightarrow> 'a paging_state_scheme \<Rightarrow> (unit, 'a paging_state_scheme) outcome" where
  "init_blob ka blob_begin blob_size s =
     (let first = roundDown blob_begin FOUR_KB
      in for_range (init_blob_body ka) first
           (first + roundUp (blob_size + (blob_begin - first)) FOUR_KB) FOUR_KB s)"

text \<open>
  The arguments are the loader's answers and the linker symbols \<open>KERNEL_BLOB_BEGIN\<close> and
  \<open>KERNEL_BLOB_SIZE\<close>. A response that is missing is dereferenced all the same.
\<close>

definition initPaging ::
    "limine \<Rightarrow> u64 \<Rightarrow> u64 \<Rightarrow> 'a paging_state_scheme \<Rightarrow> (unit, 'a paging_state_scheme) outcome" where
  "initPaging lim blob_begin blob_size s =
     obind (acquire paging_mutex (\<lambda>l s. s\<lparr>paging_mutex := l\<rparr>) s) (\<lambda>_ s.
     obind (init_root s) (\<lambda>_ s.
     let s = s\<lparr>paging_bootInformation := getBootInfo s\<rparr> in
     of_defined (lim_hhdm_offset lim) (\<lambda>offset.
     let s = s\<lparr>paging_hhdmOffset := offset\<rparr> in
     obind (init_low s) (\<lambda>_ s.
     of_defined (lim_memmap lim) (\<lambda>entries.
     obind (for_each init_entry entries s) (\<lambda>_ s.
     of_defined (lim_kernel_address lim) (\<lambda>ka.
     obind (init_blob ka blob_begin blob_size s) (\<lambda>_ s.
     if PML4 s = 0 then Halted s
     else Done () (release paging_mutex (\<lambda>l s. s\<lparr>paging_mutex := l\<rparr>) (setCr3 (PML4 s) s))))))))))"

section \<open>Entries: proofs\<close>

lemma ADDRESS_BITS_mask: "ADDRESS_BITS = push_bit 12 (mask 40)"
  by (simp add: ADDRESS_BITS_def mask_eq_exp_minus_1)

lemma bit_ADDRESS_BITS [bit_simps]: "bit ADDRESS_BITS i \<longleftrightarrow> 12 \<le> i \<and> i < 52"
  by (auto simp: ADDRESS_BITS_mask bit_simps)

lemma getAddress_eq: "getAddress e = e AND ADDRESS_BITS"
  by (simp add: getAddress_def)

lemma getAddress_setAddress: "getAddress (setAddress a e) = a AND ADDRESS_BITS"
  by (rule bit_word_eqI) (auto simp: getAddress_eq setAddress_def bit_simps)

text \<open>A flag that has no address bit leaves the address alone, and setting the address leaves it alone.\<close>

lemma bit64_less: "bit (a :: u64) i \<Longrightarrow> i < 64"
  using bit_imp_le_length [of a i] by simp

lemma and_eq_0_bits: "(a :: u64) AND b = 0 \<longleftrightarrow> (\<forall>i. \<not> (bit a i \<and> bit b i))"
  using bit64_less by (auto simp: bit_eq_iff bit_and_iff)

lemma getFlag_bits: "getFlag f e \<longleftrightarrow> (\<exists>i. bit e i \<and> bit f i)"
  by (auto simp: getFlag_def and_eq_0_bits)

lemma bit_setFlag: "bit (setFlag f b e) i \<longleftrightarrow> (if bit f i then b else bit e i)"
  using bit64_less [of e i] by (auto simp: setFlag_def Let_def bit_simps)

lemma bit_setAddress:
  "bit (setAddress a e) i \<longleftrightarrow> (if bit ADDRESS_BITS i then bit a i else bit e i)"
  using bit64_less [of e i] by (auto simp: setAddress_def bit_or_iff bit_and_iff bit_not_iff)

lemma bit_getAddress: "bit (getAddress e) i \<longleftrightarrow> bit e i \<and> bit ADDRESS_BITS i"
  by (simp add: getAddress_eq bit_and_iff)

lemmas entry_bits = bit_setFlag bit_setAddress bit_getAddress getFlag_bits and_eq_0_bits

lemma getAddress_setFlag:
  "flag AND ADDRESS_BITS = 0 \<Longrightarrow> getAddress (setFlag flag b e) = getAddress e"
  by (rule bit_word_eqI) (auto simp: entry_bits)

lemma getFlag_setFlag: "g AND f = 0 \<Longrightarrow> getFlag g (setFlag f b e) = getFlag g e"
  by (auto simp: entry_bits)

lemma getFlag_setFlag_True: "getFlag g (setFlag f True e) \<longleftrightarrow> g AND f \<noteq> 0 \<or> getFlag g e"
  by (auto simp: entry_bits)

lemma getFlag_setFlag_False: "getFlag f (setFlag f False e) = False"
  by (auto simp: entry_bits)

lemma getFlag_setAddress: "flag AND ADDRESS_BITS = 0 \<Longrightarrow> getFlag flag (setAddress a e) = getFlag flag e"
  by (auto simp: entry_bits)

lemma isValid_iff: "isValid e \<longleftrightarrow> getFlag Present e \<and> getAddress e \<noteq> 0"
  by (simp add: isValid_def)

section \<open>Properties\<close>

text \<open>
  C35: the fields of a page table entry are independent: reading the address gives what was set (its
  bits 12 to 51), reading a flag gives what was set, and setting one of them changes no other
  address or flag.
\<close>

theorem pte_field_laws:
  assumes "flag AND ADDRESS_BITS = 0" "flag \<noteq> 0" "other AND flag = 0"
  shows "getAddress (setAddress a e) = a AND ADDRESS_BITS \<and> getAddress (setFlag flag b e) = getAddress e \<and>
    getFlag flag (setFlag flag b e) = b \<and> getFlag flag (setAddress a e) = getFlag flag e \<and>
    getFlag other (setFlag flag b e) = getFlag other e"
proof -
  have "getFlag flag (setFlag flag b e) = b"
    by (cases b) (use assms(2) in \<open>simp_all add: getFlag_setFlag_True getFlag_setFlag_False\<close>)
  then show ?thesis
    using assms by (simp add: getAddress_setAddress getAddress_setFlag getFlag_setAddress getFlag_setFlag)
qed

theorem pte_field_laws_witness:
  "getFlag NoExec (setFlag NoExec True (setAddress 0x7FE0000 0x83)) \<and>
   getAddress (setFlag NoExec True (setAddress 0x7FE0000 0x83)) = 0x7FE0000 \<and>
   getFlag LargerPages (setFlag NoExec True (setAddress 0x7FE0000 0x83))"
proof -
  have n: "NoExec AND ADDRESS_BITS = 0" "NoExec \<noteq> 0" "LargerPages AND NoExec = 0"
    "LargerPages AND ADDRESS_BITS = 0"
    by (simp_all add: pte_flag_defs ADDRESS_BITS_def)
  show ?thesis
    using pte_field_laws [OF n(1-3), of "0x7FE0000" "0x83" True]
      pte_field_laws [OF n(1-3), of "0" "setAddress 0x7FE0000 0x83" True]
    by (simp add: getFlag_setAddress [OF n(4)]) (simp add: getFlag_def LargerPages_def ADDRESS_BITS_def getAddress_setAddress)
qed

end
