(* ===== verification/Page_Tables.thy ===== *)
theory Page_Tables
  imports Paging
begin

text \<open>
  What a set of page tables means. A table is known by its physical address and \<open>E f i\<close> is the entry
  \<open>i\<close> of the table \<open>f\<close>. \<open>walk\<close> follows the entries from a table down to the leaf for an address, as
  the processor does for four-level paging: an entry without the present bit ends it, an entry with
  the large-page bit is a leaf. The invariant \<open>tree_ok\<close> says that the tables form a tree; then
  linking in a new empty table changes no translation, and writing a leaf changes the translation of
  one page only.
\<close>

type_synonym entries = "u64 \<Rightarrow> u64 \<Rightarrow> u64"

fun walk :: "entries \<Rightarrow> u64 \<Rightarrow> nat \<Rightarrow> ptr \<Rightarrow> (nat \<times> u64) option" where
  "walk E f 0 va = None"
| "walk E f (Suc l) va =
     (let e = E f (table_index (Suc l) va) in
      if \<not> getFlag Present e then None
      else if l = 0 \<or> getFlag LargerPages e then Some (Suc l, e)
      else walk E (getAddress e) l va)"

text \<open>The slots (a table and an index) that the walk reads.\<close>

fun slots :: "entries \<Rightarrow> u64 \<Rightarrow> nat \<Rightarrow> ptr \<Rightarrow> (u64 \<times> u64) list" where
  "slots E f 0 va = []"
| "slots E f (Suc l) va =
     (let i = table_index (Suc l) va; e = E f i in
      (f, i) # (if getFlag Present e \<and> \<not> (l = 0 \<or> getFlag LargerPages e)
                then slots E (getAddress e) l va else []))"

lemma walk_cong:
  "(\<And>g j. (g, j) \<in> set (slots E f l va) \<Longrightarrow> E' g j = E g j) \<Longrightarrow>
    walk E' f l va = walk E f l va \<and> slots E' f l va = slots E f l va"
proof (induction l arbitrary: f)
  case (Suc l)
  have e: "E' f (table_index (Suc l) va) = E f (table_index (Suc l) va)"
    by (rule Suc.prems) (simp add: Let_def)
  show ?case
  proof (cases "getFlag Present (E f (table_index (Suc l) va)) \<and>
      \<not> (l = 0 \<or> getFlag LargerPages (E f (table_index (Suc l) va)))")
    case True
    then have "walk E' (getAddress (E f (table_index (Suc l) va))) l va =
        walk E (getAddress (E f (table_index (Suc l) va))) l va \<and>
      slots E' (getAddress (E f (table_index (Suc l) va))) l va =
        slots E (getAddress (E f (table_index (Suc l) va))) l va"
      by (intro Suc.IH Suc.prems) (simp add: Let_def)
    then show ?thesis using e True by (simp add: Let_def)
  next
    case False
    then show ?thesis using e by (auto simp: Let_def)
  qed
qed simp

lemma table_index_less: "table_index l va < 512"
proof -
  have m: "(0x1FF :: u64) = mask 9" by (simp add: mask_eq_exp_minus_1)
  have "bit (table_index l va) i \<Longrightarrow> i < 9" for i
    unfolding table_index_def m by (auto simp: bit_simps)
  then have "table_index l va = take_bit 9 (table_index l va)"
    by (auto intro!: bit_word_eqI simp: bit_take_bit_iff)
  then have "unat (table_index l va) = take_bit 9 (unat (table_index l va))"
    by (metis unsigned_take_bit_eq)
  then have "unat (table_index l va) < 2 ^ 9" by (metis take_bit_nat_less_exp)
  then show ?thesis by (simp add: word_less_nat_alt)
qed

section \<open>The tree of tables\<close>

text \<open>
  \<open>lvl f\<close> is the level of the table \<open>f\<close> (4 for the root), 0 for what is no table. A link is an entry
  that leads to another table.
\<close>

definition link :: "entries \<Rightarrow> (u64 \<Rightarrow> nat) \<Rightarrow> u64 \<Rightarrow> u64 \<Rightarrow> bool" where
  "link E lvl f i \<longleftrightarrow>
     2 \<le> lvl f \<and> i < 512 \<and> getFlag Present (E f i) \<and> \<not> getFlag LargerPages (E f i)"

definition tree_ok :: "entries \<Rightarrow> (u64 \<Rightarrow> nat) \<Rightarrow> bool" where
  "tree_ok E lvl \<longleftrightarrow>
     (\<forall>f i. link E lvl f i \<longrightarrow> Suc (lvl (getAddress (E f i))) = lvl f) \<and>
     (\<forall>f i g j. link E lvl f i \<longrightarrow> link E lvl g j \<longrightarrow> getAddress (E f i) = getAddress (E g j) \<longrightarrow>
        f = g \<and> i = j) \<and>
     (\<forall>f i. 3 \<le> lvl f \<longrightarrow> i < 512 \<longrightarrow> \<not> getFlag LargerPages (E f i)) \<and>
     (\<forall>f i. 2 \<le> lvl f \<longrightarrow> i < 512 \<longrightarrow> \<not> getFlag Present (E f i) \<longrightarrow> E f i = 0)"

lemma tree_link:
  "tree_ok E lvl \<Longrightarrow> link E lvl f i \<Longrightarrow> Suc (lvl (getAddress (E f i))) = lvl f"
  by (simp add: tree_ok_def)

lemma tree_link_inj:
  "tree_ok E lvl \<Longrightarrow> link E lvl f i \<Longrightarrow> link E lvl g j \<Longrightarrow> getAddress (E f i) = getAddress (E g j) \<Longrightarrow>
    f = g \<and> i = j"
  by (simp add: tree_ok_def)

lemma slots_levels:
  assumes "tree_ok E lvl" "lvl f = l" "(g, j) \<in> set (slots E f l va)"
  shows "1 \<le> lvl g \<and> lvl g \<le> l \<and> j = table_index (lvl g) va \<and> (lvl g = l \<longrightarrow> g = f)"
  using assms(2,3)
proof (induction l arbitrary: f)
  case (Suc l)
  let ?i = "table_index (Suc l) va"
  let ?e = "E f ?i"
  consider "(g, j) = (f, ?i)"
    | "getFlag Present ?e" "l \<noteq> 0" "\<not> getFlag LargerPages ?e" "(g, j) \<in> set (slots E (getAddress ?e) l va)"
    using Suc.prems(2) by (auto simp: Let_def split: if_splits)
  then show ?case
  proof cases
    case 1
    then show ?thesis using Suc.prems(1) by simp
  next
    case 2
    then have "link E lvl f ?i" using Suc.prems(1) by (simp add: link_def table_index_less)
    then have "lvl (getAddress ?e) = l" using tree_link [OF assms(1)] Suc.prems(1) by fastforce
    then show ?thesis using Suc.IH 2(4) by fastforce
  qed
qed simp

text \<open>Different tables of one level have disjoint subtrees.\<close>

lemma slots_disjoint:
  assumes "tree_ok E lvl" "lvl f = l" "lvl f' = l" "f \<noteq> f'"
  shows "set (slots E f l va) \<inter> set (slots E f' l vb) = {}"
  using assms(2-4)
proof (induction l arbitrary: f f')
  case (Suc l)
  have False if a: "x \<in> set (slots E f (Suc l) va)" and b: "x \<in> set (slots E f' (Suc l) vb)" for x
  proof -
    obtain g j where x: "x = (g, j)" by (cases x)
    let ?i = "table_index (Suc l) va" and ?i' = "table_index (Suc l) vb"
    have g: "g \<noteq> f" "g \<noteq> f'"
      using slots_levels [OF assms(1) Suc.prems(1) a [unfolded x]] Suc.prems
        slots_levels [OF assms(1) Suc.prems(2) b [unfolded x]] by auto
    then have l: "link E lvl f ?i" "x \<in> set (slots E (getAddress (E f ?i)) l va)"
      "link E lvl f' ?i'" "x \<in> set (slots E (getAddress (E f' ?i')) l vb)"
      using a b x Suc.prems by (auto simp: link_def table_index_less Let_def split: if_splits)
    then have "getAddress (E f ?i) \<noteq> getAddress (E f' ?i')"
      using tree_link_inj [OF assms(1)] Suc.prems(3) by blast
    moreover have "lvl (getAddress (E f ?i)) = l" "lvl (getAddress (E f' ?i')) = l"
      using tree_link [OF assms(1) l(1)] tree_link [OF assms(1) l(3)] Suc.prems by auto
    ultimately show False using Suc.IH l by blast
  qed
  then show ?case by blast
qed simp

text \<open>A slot that two addresses share is reached through the same indices.\<close>

lemma slots_shared:
  assumes "tree_ok E lvl" "lvl f = l"
    and "(g, j) \<in> set (slots E f l va)" "(g, j) \<in> set (slots E f l vb)"
    and "lvl g \<le> k" "k \<le> l"
  shows "table_index k va = table_index k vb"
  using assms(2-6)
proof (induction l arbitrary: f)
  case (Suc l)
  let ?i = "table_index (Suc l) va" and ?i' = "table_index (Suc l) vb"
  note lva = slots_levels [OF assms(1) Suc.prems(1,2)] and lvb = slots_levels [OF assms(1) Suc.prems(1,3)]
  show ?case
  proof (cases "g = f")
    case True
    then have lg: "lvl g = Suc l" using Suc.prems(1) by simp
    then have k: "k = Suc l" using Suc.prems(4,5) by linarith
    have "j = ?i" using lva unfolding lg by blast
    moreover have "j = ?i'" using lvb unfolding lg by blast
    ultimately show ?thesis unfolding k by simp
  next
    case False
    then have l: "link E lvl f ?i" "(g, j) \<in> set (slots E (getAddress (E f ?i)) l va)"
      "link E lvl f ?i'" "(g, j) \<in> set (slots E (getAddress (E f ?i')) l vb)"
      using Suc.prems by (auto simp: link_def table_index_less Let_def split: if_splits)
    have lv: "lvl (getAddress (E f ?i)) = l" "lvl (getAddress (E f ?i')) = l"
      using tree_link [OF assms(1) l(1)] tree_link [OF assms(1) l(3)] Suc.prems by auto
    have same: "getAddress (E f ?i) = getAddress (E f ?i')"
      using slots_disjoint [OF assms(1) lv] l by blast
    then have i: "?i = ?i'" using tree_link_inj [OF assms(1) l(1,3)] by simp
    show ?thesis
    proof (cases "k = Suc l")
      case True
      then show ?thesis using i by simp
    next
      case False
      then show ?thesis using Suc.IH [OF lv(1) l(2)] l(4) same Suc.prems by simp
    qed
  qed
qed simp

section \<open>Linking in an empty table\<close>

lemma link_new_table:
  assumes ok: "tree_ok E lvl" and f: "2 \<le> lvl f" "i < 512" "\<not> getFlag Present (E f i)"
    and p: "lvl p = 0" "\<And>j. j < 512 \<Longrightarrow> E' p j = 0"
    and e: "getFlag Present (E' f i)" "\<not> getFlag LargerPages (E' f i)" "getAddress (E' f i) = p"
    and same: "\<And>g j. lvl g \<noteq> 0 \<Longrightarrow> j < 512 \<Longrightarrow> (g, j) \<noteq> (f, i) \<Longrightarrow> E' g j = E g j"
  shows "tree_ok E' (lvl(p := lvl f - 1))"
    and "lvl g \<noteq> 0 \<Longrightarrow> walk E' g (lvl g) va = walk E g (lvl g) va"
proof -
  let ?lvl = "lvl(p := lvl f - 1)"
  have fp: "f \<noteq> p" using f p by auto
  have zero: "\<not> getFlag b 0" for b by (simp add: getFlag_def)
  have links: "link E' ?lvl g j \<longleftrightarrow> link E lvl g j \<or> (g, j) = (f, i)" for g j
  proof -
    consider "g = p" | "(g, j) = (f, i)" "g \<noteq> p" | "g \<noteq> p" "(g, j) \<noteq> (f, i)" by blast
    then show ?thesis
    proof cases
      case 1
      then show ?thesis using p zero fp by (auto simp: link_def)
    next
      case 2
      then show ?thesis using f e by (simp add: link_def)
    next
      case 3
      then show ?thesis
        by (cases "2 \<le> lvl g \<and> j < 512") (auto simp: link_def same [of g j])
    qed
  qed
  have new: "\<not> link E lvl f i" using f by (simp add: link_def)
  have old: "E' g j = E g j" if "link E lvl g j" for g j
    by (rule same) (use that new in \<open>auto simp: link_def\<close>)
  have notp: "getAddress (E g j) \<noteq> p" if "link E lvl g j" for g j
    using tree_link [OF ok that] that p(1) by (auto simp: link_def)
  have entry: "E' g j = (if g = p then 0 else if (g, j) = (f, i) then E' f i else E g j)"
    if "1 \<le> ?lvl g" "j < 512" for g j
    using that p fp same [of g j] by auto
  show "tree_ok E' ?lvl"
    unfolding tree_ok_def
  proof (intro conjI allI impI)
    fix g j assume "link E' ?lvl g j"
    then consider "link E lvl g j" | "(g, j) = (f, i)" using links by blast
    then show "Suc (?lvl (getAddress (E' g j))) = ?lvl g"
    proof cases
      case 1
      then have "g \<noteq> p" using p by (auto simp: link_def)
      then show ?thesis using 1 old notp tree_link [OF ok 1] by simp
    next
      case 2
      then show ?thesis using e f fp by simp
    qed
  next
    fix g j g' j'
    assume "link E' ?lvl g j" "link E' ?lvl g' j'" and eq: "getAddress (E' g j) = getAddress (E' g' j')"
    then consider "link E lvl g j" "link E lvl g' j'" | "(g, j) = (f, i)" "link E lvl g' j'"
      | "link E lvl g j" "(g', j') = (f, i)" | "(g, j) = (f, i)" "(g', j') = (f, i)"
      using links by blast
    then have "g = g' \<and> j = j'"
    proof cases
      case 1
      then show ?thesis using eq old tree_link_inj [OF ok 1] by simp
    next
      case 2
      then show ?thesis using eq old notp e by auto
    next
      case 3
      then show ?thesis using eq old notp e by auto
    qed simp
    then show "g = g'" "j = j'" by auto
  next
    fix g j assume a: "3 \<le> ?lvl g" "j < (512 :: u64)"
    show "\<not> getFlag LargerPages (E' g j)"
      using a entry [of g j] zero e ok unfolding tree_ok_def by (auto split: if_splits)
  next
    fix g j assume a: "2 \<le> ?lvl g" "j < (512 :: u64)" "\<not> getFlag Present (E' g j)"
    show "E' g j = 0"
      using a entry [of g j] zero e ok unfolding tree_ok_def by (auto split: if_splits)
  qed
  have "walk E' g l va = walk E g l va" if "lvl g = l" "l \<noteq> 0" for l g
    using that
  proof (induction l arbitrary: g)
    case (Suc l)
    let ?i = "table_index (Suc l) va"
    show ?case
    proof (cases "(g, ?i) = (f, i)")
      case True
      have "walk E' p l va = None"
        by (cases l) (simp_all add: p(2) table_index_less zero Let_def)
      then show ?thesis using True e f Suc.prems by (auto simp: Let_def)
    next
      case False
      then have eq: "E' g ?i = E g ?i" using Suc.prems same table_index_less by simp
      show ?thesis
      proof (cases "getFlag Present (E g ?i) \<and> \<not> (l = 0 \<or> getFlag LargerPages (E g ?i))")
        case True
        then have "link E lvl g ?i" using Suc.prems by (simp add: link_def table_index_less)
        then have "lvl (getAddress (E g ?i)) = l" using tree_link [OF ok] Suc.prems by fastforce
        then show ?thesis using True eq Suc.IH by (simp add: Let_def)
      next
        case False
        then show ?thesis using eq by (auto simp: Let_def)
      qed
    qed
  qed simp
  then show "lvl g \<noteq> 0 \<Longrightarrow> walk E' g (lvl g) va = walk E g (lvl g) va" by blast
qed

section \<open>Growing a path\<close>

text \<open>An update that keeps the links above a slot of a path keeps the slot; a link extends the path.\<close>

lemma slots_mono:
  assumes ok: "tree_ok E lvl"
    and keep: "\<And>h k. link E lvl h k \<Longrightarrow> lvl g < lvl h \<Longrightarrow> E' h k = E h k"
    and "lvl f = l" "(g, j) \<in> set (slots E f l va)"
  shows "(g, j) \<in> set (slots E' f l va)"
  using assms(3,4)
proof (induction l arbitrary: f)
  case (Suc l)
  let ?i = "table_index (Suc l) va"
  show ?case
  proof (cases "(g, j) = (f, ?i)")
    case True
    then show ?thesis by (simp add: Let_def)
  next
    case False
    then have l: "link E lvl f ?i" "(g, j) \<in> set (slots E (getAddress (E f ?i)) l va)" "l \<noteq> 0"
      using Suc.prems by (auto simp: link_def table_index_less Let_def split: if_splits)
    have lv: "lvl (getAddress (E f ?i)) = l" using tree_link [OF ok l(1)] Suc.prems(1) by simp
    have "(g, j) \<in> set (slots E' (getAddress (E f ?i)) l va)"
      by (rule Suc.IH [OF lv l(2)])
    moreover have "E' f ?i = E f ?i"
      using keep [OF l(1)] slots_levels [OF ok lv l(2)] Suc.prems(1) by simp
    ultimately show ?thesis using l by (simp add: Let_def link_def)
  qed
qed simp

lemma slots_extend:
  assumes ok: "tree_ok E lvl" and "lvl f = l" "(g, table_index (lvl g) va) \<in> set (slots E f l va)"
    and "link E lvl g (table_index (lvl g) va)" "getAddress (E g (table_index (lvl g) va)) = h"
  shows "(h, table_index (lvl h) va) \<in> set (slots E f l va)"
  using assms(2-)
proof (induction l arbitrary: f)
  case (Suc l)
  let ?i = "table_index (Suc l) va"
  show ?case
  proof (cases "g = f")
    case True
    then have lg: "lvl g = Suc l" using Suc.prems(1) by simp
    have link: "link E lvl f ?i" and h: "h = getAddress (E f ?i)"
      using Suc.prems(3,4) unfolding lg unfolding True by simp_all
    have "lvl h = l" using tree_link [OF ok link] Suc.prems(1) h by simp
    moreover have "2 \<le> Suc l" using link Suc.prems(1) by (simp add: link_def)
    ultimately show ?thesis using link h by (cases l) (simp_all add: link_def Let_def)
  next
    case False
    then have l: "link E lvl f ?i" "(g, table_index (lvl g) va) \<in> set (slots E (getAddress (E f ?i)) l va)"
      "l \<noteq> 0"
      using Suc.prems(1,2) by (auto simp: link_def table_index_less Let_def split: if_splits)
    have "(h, table_index (lvl h) va) \<in> set (slots E (getAddress (E f ?i)) l va)"
      by (rule Suc.IH) (use l Suc.prems tree_link [OF ok l(1)] in simp_all)
    then show ?thesis using l by (simp add: Let_def link_def)
  qed
qed simp

lemma slots_root: "l \<noteq> 0 \<Longrightarrow> (f, table_index l va) \<in> set (slots E f l va)"
  by (cases l) (simp_all add: Let_def)

text \<open>The number of slots tells how many tables the path has.\<close>

lemma slots_length:
  assumes ok: "tree_ok E lvl" and "lvl f = l" "(g, j) \<in> set (slots E f l va)"
  shows "l - lvl g < length (slots E f l va)"
  using assms(2,3)
proof (induction l arbitrary: f)
  case (Suc l)
  let ?i = "table_index (Suc l) va"
  show ?case
  proof (cases "g = f")
    case True
    then have "lvl g = Suc l" using Suc.prems(1) by simp
    then show ?thesis by (simp add: Let_def)
  next
    case False
    then have l: "link E lvl f ?i" "(g, j) \<in> set (slots E (getAddress (E f ?i)) l va)" "l \<noteq> 0"
      using Suc.prems by (auto simp: link_def table_index_less Let_def split: if_splits)
    then have "l - lvl g < length (slots E (getAddress (E f ?i)) l va)"
      using tree_link [OF ok l(1)] Suc.prems(1) by (intro Suc.IH) simp_all
    then show ?thesis using l by (simp add: Let_def link_def)
  qed
qed simp

lemma slots_link:
  assumes ok: "tree_ok E lvl" and "lvl f = l" "(g, j) \<in> set (slots E f l va)"
    and "Suc (l - lvl g) < length (slots E f l va)"
  shows "link E lvl g j"
  using assms(2-)
proof (induction l arbitrary: f)
  case (Suc l)
  let ?i = "table_index (Suc l) va"
  have len: "length (slots E f (Suc l) va) =
      (if getFlag Present (E f ?i) \<and> \<not> (l = 0 \<or> getFlag LargerPages (E f ?i))
       then Suc (length (slots E (getAddress (E f ?i)) l va)) else 1)"
    by (simp add: Let_def)
  have fl: "link E lvl f ?i" "l \<noteq> 0"
    using Suc.prems(1,3) len by (auto simp: link_def table_index_less split: if_splits)
  show ?case
  proof (cases "g = f")
    case True
    then have "j = ?i" using slots_levels [OF ok Suc.prems(1,2)] Suc.prems(1) by simp
    then show ?thesis using True fl by simp
  next
    case False
    then have l: "(g, j) \<in> set (slots E (getAddress (E f ?i)) l va)"
      using Suc.prems by (auto simp: Let_def split: if_splits)
    have lv: "lvl (getAddress (E f ?i)) = l" using tree_link [OF ok fl(1)] Suc.prems(1) by simp
    have "lvl g \<le> l" using slots_levels [OF ok lv l] by simp
    then show ?thesis
      using Suc.IH [OF lv l] Suc.prems(3) len fl by (simp add: link_def Suc_diff_le split: if_splits)
  qed
qed simp

lemma slots_level:
  assumes ok: "tree_ok E lvl" and "lvl f = l" "l - k < length (slots E f l va)" "1 \<le> k" "k \<le> l"
  shows "\<exists>g. (g, table_index (lvl g) va) \<in> set (slots E f l va) \<and> lvl g = k"
  using assms(2-)
proof (induction l arbitrary: f)
  case (Suc l)
  let ?i = "table_index (Suc l) va"
  show ?case
  proof (cases "k = Suc l")
    case True
    then show ?thesis using Suc.prems(1) by (intro exI [of _ f]) (simp add: Let_def)
  next
    case False
    then have k: "k \<le> l" using Suc.prems(4) by simp
    have fl: "link E lvl f ?i" "l \<noteq> 0" "l - k < length (slots E (getAddress (E f ?i)) l va)"
      using Suc.prems k by (auto simp: link_def table_index_less Let_def Suc_diff_le split: if_splits)
    have lv: "lvl (getAddress (E f ?i)) = l" using tree_link [OF ok fl(1)] Suc.prems(1) by simp
    from Suc.IH [OF lv fl(3) Suc.prems(3) k] fl show ?thesis by (auto simp: Let_def link_def)
  qed
qed simp

text \<open>Addresses with the same indices down to a table share its path.\<close>

lemma slots_same_prefix:
  assumes ok: "tree_ok E lvl" and "lvl f = l" "(g, table_index (lvl g) va) \<in> set (slots E f l va)"
    and "\<And>k. lvl g < k \<Longrightarrow> k \<le> l \<Longrightarrow> table_index k va = table_index k vb"
  shows "(g, table_index (lvl g) vb) \<in> set (slots E f l vb)"
  using assms(2-)
proof (induction l arbitrary: f)
  case (Suc l)
  let ?i = "table_index (Suc l) va"
  show ?case
  proof (cases "g = f")
    case True
    then have "lvl g = Suc l" using Suc.prems(1) by simp
    then show ?thesis using True by (simp add: Let_def)
  next
    case False
    then have l: "link E lvl f ?i" "(g, table_index (lvl g) va) \<in> set (slots E (getAddress (E f ?i)) l va)"
      "l \<noteq> 0"
      using Suc.prems by (auto simp: link_def table_index_less Let_def split: if_splits)
    have lv: "lvl (getAddress (E f ?i)) = l" using tree_link [OF ok l(1)] Suc.prems(1) by simp
    have g: "lvl g \<le> l" using slots_levels [OF ok lv l(2)] by simp
    then have i: "?i = table_index (Suc l) vb" using Suc.prems(3) by simp
    have "(g, table_index (lvl g) vb) \<in> set (slots E (getAddress (E f ?i)) l vb)"
      by (rule Suc.IH [OF lv l(2)]) (use Suc.prems(3) in simp)
    then show ?thesis using l i by (simp add: Let_def link_def)
  qed
qed simp

text \<open>The walk ends at the last slot.\<close>

lemma walk_slot:
  assumes ok: "tree_ok E lvl" and "lvl f = l" "(g, j) \<in> set (slots E f l va)"
    and "getFlag Present (E g j)" "lvl g = 1 \<or> getFlag LargerPages (E g j)"
  shows "walk E f l va = Some (lvl g, E g j)"
  using assms(2,3)
proof (induction l arbitrary: f)
  case (Suc l)
  let ?i = "table_index (Suc l) va"
  have j: "j = table_index (lvl g) va" using slots_levels [OF ok Suc.prems] by blast
  show ?case
  proof (cases "g = f")
    case True
    then have "lvl g = Suc l" using Suc.prems(1) by simp
    then show ?thesis using assms(4,5) j True by (auto simp: Let_def)
  next
    case False
    then have l: "link E lvl f ?i" "(g, j) \<in> set (slots E (getAddress (E f ?i)) l va)" "l \<noteq> 0"
      using Suc.prems by (auto simp: link_def table_index_less Let_def split: if_splits)
    then have "walk E (getAddress (E f ?i)) l va = Some (lvl g, E g j)"
      using tree_link [OF ok l(1)] Suc.prems(1) by (intro Suc.IH) simp_all
    then show ?thesis using l by (simp add: Let_def link_def)
  qed
qed simp

section \<open>Writing a leaf\<close>

lemma write_leaf:
  assumes ok: "tree_ok E lvl" and f: "lvl f = 1 \<or> lvl f = 2 \<and> getFlag LargerPages (E' f i)"
    and e: "getFlag Present (E' f i)"
    and same: "\<And>g j. lvl g \<noteq> 0 \<Longrightarrow> j < 512 \<Longrightarrow> (g, j) \<noteq> (f, i) \<Longrightarrow> E' g j = E g j"
  shows "tree_ok E' lvl"
    and "lvl r = l \<Longrightarrow> (f, i) \<in> set (slots E r l va) \<Longrightarrow> walk E' r l va = Some (lvl f, E' f i)"
    and "lvl r = l \<Longrightarrow> (f, i) \<notin> set (slots E r l vb) \<Longrightarrow> walk E' r l vb = walk E r l vb"
proof -
  have links: "link E' lvl g j \<longleftrightarrow> link E lvl g j \<and> (g, j) \<noteq> (f, i)" for g j
  proof (cases "(g, j) = (f, i)")
    case True
    then show ?thesis using f by (auto simp: link_def)
  next
    case False
    then show ?thesis by (cases "2 \<le> lvl g \<and> j < 512") (auto simp: link_def same [of g j])
  qed
  have old: "E' g j = E g j" if "link E' lvl g j" for g j
    by (rule same) (use that links [of g j] in \<open>auto simp: link_def\<close>)
  show ok': "tree_ok E' lvl"
    unfolding tree_ok_def
  proof (intro conjI allI impI)
    fix g j assume "link E' lvl g j"
    then show "Suc (lvl (getAddress (E' g j))) = lvl g"
      using old links tree_link [OF ok] by simp
  next
    fix g j g' j'
    assume l: "link E' lvl g j" "link E' lvl g' j'" "getAddress (E' g j) = getAddress (E' g' j')"
    then have "link E lvl g j" "link E lvl g' j'" using links by blast+
    then have "g = g' \<and> j = j'"
      by (rule tree_link_inj [OF ok]) (use l(3) in \<open>simp only: old [OF l(1)] old [OF l(2)]\<close>)
    then show "g = g'" "j = j'" by auto
  next
    fix g j assume a: "3 \<le> lvl g" "j < (512 :: u64)"
    then have "(g, j) \<noteq> (f, i)" "\<not> getFlag LargerPages (E g j)" using f ok by (auto simp: tree_ok_def)
    then show "\<not> getFlag LargerPages (E' g j)" using a same [of g j] by auto
  next
    fix g j assume a: "2 \<le> lvl g" "j < (512 :: u64)" "\<not> getFlag Present (E' g j)"
    then have "(g, j) \<noteq> (f, i)" using e by auto
    then show "E' g j = 0" using a same [of g j] ok by (auto simp: tree_ok_def)
  qed
  show "walk E' r l vb = walk E r l vb" if r: "lvl r = l" "(f, i) \<notin> set (slots E r l vb)"
  proof -
    have "E' g j = E g j" if a: "(g, j) \<in> set (slots E r l vb)" for g j
    proof -
      have "1 \<le> lvl g" "j < 512" "(g, j) \<noteq> (f, i)"
        using slots_levels [OF ok r(1) a] r(2) a table_index_less by auto
      then show ?thesis by (intro same) auto
    qed
    then show ?thesis using walk_cong by blast
  qed
  show "walk E' r l va = Some (lvl f, E' f i)" if r: "lvl r = l" "(f, i) \<in> set (slots E r l va)"
  proof -
    have "(f, i) \<in> set (slots E' r l va)"
      using r
    proof (induction l arbitrary: r)
      case (Suc l)
      let ?i = "table_index (Suc l) va"
      show ?case
      proof (cases "(f, i) = (r, ?i)")
        case True
        then show ?thesis by (simp add: Let_def)
      next
        case False
        then have l: "link E lvl r ?i" "(f, i) \<in> set (slots E (getAddress (E r ?i)) l va)" "l \<noteq> 0"
          using Suc.prems by (auto simp: link_def table_index_less Let_def split: if_splits)
        then have link': "link E' lvl r ?i" using False links by auto
        moreover have "(f, i) \<in> set (slots E' (getAddress (E r ?i)) l va)"
          using tree_link [OF ok l(1)] Suc.prems(1) l by (intro Suc.IH) simp_all
        ultimately show ?thesis using l(3) by (simp add: Let_def link_def old [OF link'])
      qed
    qed simp
    from walk_slot [OF ok' r(1) this e] f show ?thesis by blast
  qed
qed

end
