(* ===== verification/Page_Mapper.thy ===== *)
theory Page_Mapper
  imports Prelude
begin

text \<open>
  The contract between \<open>map\<close> and the code that maps ranges of pages with it (\<open>initPaging\<close>, the
  device and process code): mapping a page installs its translation and changes no other page, and it
  costs memory only when the page's table is not there yet. \<open>page\<close> numbers the pages, \<open>group\<close> the
  tables that hold them. The lemma proved from it is about mapping a list of pages.
\<close>

fun map_many :: "(u64 \<Rightarrow> ptr \<Rightarrow> 's \<Rightarrow> (bool, 's) outcome) \<Rightarrow> (u64 \<times> ptr) list \<Rightarrow> 's \<Rightarrow> (unit, 's) outcome" where
  "map_many mp [] s = Done () s"
| "map_many mp ((pa, va) # xs) s = obind (mp pa va s) (\<lambda>_ s. map_many mp xs s)"

lemma map_many_append:
  "map_many mp (xs @ ys) s = obind (map_many mp xs s) (\<lambda>_ s. map_many mp ys s)"
proof (induction xs arbitrary: s)
  case (Cons x xs)
  then have "map_many mp (xs @ ys) = (\<lambda>s. obind (map_many mp xs s) (\<lambda>_ s. map_many mp ys s))" by blast
  then show ?case by (cases x) (simp add: obind_assoc)
qed simp

locale mapper =
  fixes mp :: "u64 \<Rightarrow> ptr \<Rightarrow> 's \<Rightarrow> (bool, 's) outcome"
    and ok :: "'s \<Rightarrow> bool"
    and look :: "'s \<Rightarrow> ptr \<Rightarrow> 'e option"
    and installs :: "u64 \<Rightarrow> 'e \<Rightarrow> bool"  \<comment> \<open>whether an entry is one for a physical address\<close>
    and fits :: "'s \<Rightarrow> ptr \<Rightarrow> bool"  \<comment> \<open>whether an address may be mapped with this page size\<close>
    and table_there :: "'s \<Rightarrow> ptr \<Rightarrow> bool"
    and left :: "'s \<Rightarrow> nat"  \<comment> \<open>bytes left for new tables\<close>
    and cost :: nat
    and page :: "ptr \<Rightarrow> nat"
    and group :: "ptr \<Rightarrow> nat"
    and keeps :: "'s \<Rightarrow> 's \<Rightarrow> bool"
  assumes mp_maps: "ok s \<Longrightarrow> fits s va \<Longrightarrow> table_there s va \<or> cost \<le> left s \<Longrightarrow>
      \<exists>s'. mp pa va s = Done True s' \<and> ok s' \<and> (\<exists>e. look s' va = Some e \<and> installs pa e) \<and>
        left s \<le> left s' + (if table_there s va then 0 else cost)"
    and mp_other: "ok s \<Longrightarrow> fits s va \<Longrightarrow> table_there s va \<or> cost \<le> left s \<Longrightarrow> mp pa va s = Done b s' \<Longrightarrow>
      page vb \<noteq> page va \<Longrightarrow> look s' vb = look s vb"
    and mp_fits: "ok s \<Longrightarrow> fits s va \<Longrightarrow> table_there s va \<or> cost \<le> left s \<Longrightarrow> mp pa va s = Done b s' \<Longrightarrow>
      fits s vb \<Longrightarrow> fits s' vb"
    and mp_group: "ok s \<Longrightarrow> fits s va \<Longrightarrow> table_there s va \<or> cost \<le> left s \<Longrightarrow> mp pa va s = Done b s' \<Longrightarrow>
      table_there s vb \<or> group vb = group va \<Longrightarrow> table_there s' vb"
    and mp_keeps: "mp pa va s = Done b s' \<Longrightarrow> keeps s s'"
    and keeps_refl: "keeps s s"
    and keeps_trans: "keeps s t \<Longrightarrow> keeps t u \<Longrightarrow> keeps s u"
begin

lemma map_many_keeps: "map_many mp xs s = Done u s' \<Longrightarrow> keeps s s'"
proof (induction xs arbitrary: s)
  case (Cons x xs)
  obtain pa va b t where "mp pa va s = Done b t" "map_many mp xs t = Done u s'"
    using Cons.prems by (cases x) (auto simp: obind_Done_iff)
  then show ?case using Cons.IH keeps_trans mp_keeps by blast
qed (simp add: keeps_refl)

text \<open>The groups of a list that still need a table.\<close>

definition missing :: "'s \<Rightarrow> (u64 \<times> ptr) list \<Rightarrow> nat set" where
  "missing s xs = group ` {va \<in> snd ` set xs. \<not> table_there s va}"

text \<open>
  Mapping a list of different pages succeeds when there is memory for one table (\<open>cost\<close>) in each group
  that misses one; afterwards every page of the list is mapped and no other page has changed.
\<close>

lemma map_many_maps:
  assumes "ok s" "\<forall>va \<in> snd ` set xs. fits s va" "distinct (map (page \<circ> snd) xs)"
    and "cost * card (missing s xs) \<le> left s"
  shows "\<exists>s'. map_many mp xs s = Done () s' \<and> ok s' \<and> keeps s s' \<and>
    (\<forall>(pa, va) \<in> set xs. \<exists>e. look s' va = Some e \<and> installs pa e) \<and>
    (\<forall>vb. page vb \<notin> (page \<circ> snd) ` set xs \<longrightarrow> look s' vb = look s vb) \<and>
    (\<forall>vb. fits s vb \<longrightarrow> fits s' vb) \<and>
    left s \<le> left s' + cost * card (missing s xs)"
  using assms
proof (induction xs arbitrary: s)
  case Nil
  then show ?case by (simp add: keeps_refl missing_def)
next
  case (Cons x xs)
  obtain pa va where x: "x = (pa, va)" by (cases x)
  have fits: "fits s va" using Cons.prems(2) x by simp
  have fin: "finite (missing s ys)" for s ys by (simp add: missing_def)
  have sub: "missing s xs \<subseteq> missing s (x # xs)" by (auto simp: missing_def)
  have here: "group va \<in> missing s (x # xs)" if "\<not> table_there s va"
    using that x by (auto simp: missing_def)
  have enough: "table_there s va \<or> cost \<le> left s"
  proof (cases "table_there s va")
    case False
    then have "0 < card (missing s (x # xs))" using here fin by (auto simp: card_gt_0_iff)
    then have "1 \<le> card (missing s (x # xs))" by simp
    then have "cost * 1 \<le> cost * card (missing s (x # xs))" by (rule mult_le_mono2)
    then have "cost \<le> left s" using Cons.prems(4) by linarith
    then show ?thesis ..
  qed simp
  obtain t where t: "mp pa va s = Done True t" "ok t" "\<exists>e. look t va = Some e \<and> installs pa e"
    "left s \<le> left t + (if table_there s va then 0 else cost)"
    using mp_maps [OF Cons.prems(1) fits enough] by blast
  note other = mp_other [OF Cons.prems(1) fits enough t(1)] and fits' = mp_fits [OF Cons.prems(1) fits enough t(1)]
    and gr = mp_group [OF Cons.prems(1) fits enough t(1)]
  have miss: "missing t xs \<subseteq> missing s xs - {group va}"
    using gr by (auto simp: missing_def)
  have cards: "card (missing t xs) + (if table_there s va then 0 else 1) \<le> card (missing s (x # xs))"
  proof (cases "table_there s va")
    case True
    then show ?thesis using card_mono [OF fin, of "missing t xs" s "x # xs"] miss sub by auto
  next
    case False
    then have "card (missing s (x # xs)) = Suc (card (missing s (x # xs) - {group va}))"
      using here fin by (metis card_Suc_Diff1)
    moreover have "card (missing t xs) \<le> card (missing s (x # xs) - {group va})"
      using miss sub fin by (intro card_mono) auto
    ultimately show ?thesis using False by simp
  qed
  then have mul: "cost * card (missing t xs) + (if table_there s va then 0 else cost)
      \<le> cost * card (missing s (x # xs))"
    using mult_le_mono2 [OF cards, of cost] by (auto simp: algebra_simps split: if_splits)
  then have room: "cost * card (missing t xs) \<le> left t" using Cons.prems(4) t(4) by linarith
  have f: "\<forall>va \<in> snd ` set xs. fits t va" using Cons.prems(2) fits' by auto
  obtain s' where s': "map_many mp xs t = Done () s'" "ok s'" "keeps t s'"
    "\<forall>(pa, va) \<in> set xs. \<exists>e. look s' va = Some e \<and> installs pa e"
    "\<forall>vb. page vb \<notin> (page \<circ> snd) ` set xs \<longrightarrow> look s' vb = look t vb"
    "\<forall>vb. fits t vb \<longrightarrow> fits s' vb" "left t \<le> left s' + cost * card (missing t xs)"
    using Cons.IH [OF t(2) f _ room] Cons.prems(3) by auto
  have "look s' va = look t va" using s'(5) Cons.prems(3) x by simp
  then have "\<forall>(pa, va) \<in> set (x # xs). \<exists>e. look s' va = Some e \<and> installs pa e"
    using s'(4) t(3) x by simp
  moreover have "left s \<le> left s' + cost * card (missing s (x # xs))"
    using s'(7) t(4) mul by linarith
  moreover have "\<forall>vb. page vb \<notin> (page \<circ> snd) ` set (x # xs) \<longrightarrow> look s' vb = look s vb"
    using s'(5) other x by simp
  moreover have "keeps s s'" by (rule keeps_trans [OF mp_keeps [OF t(1)] s'(3)])
  ultimately show ?case using t(1) s'(1,2,6) fits' x by simp
qed

text \<open>A loop whose body maps a list of pages each time.\<close>

lemma for_each_map_many:
  assumes "\<And>k t. k \<in> set ks \<Longrightarrow> keeps s t \<Longrightarrow> body k t = map_many mp (f k) t"
    and "map_many mp (concat (map f ks)) s = Done () s'"
  shows "for_each body ks s = Done () s'"
  using assms
proof (induction ks arbitrary: s)
  case (Cons k ks)
  obtain t where t: "map_many mp (f k) s = Done () t" "map_many mp (concat (map f ks)) t = Done () s'"
    using Cons.prems(2) by (auto simp: map_many_append obind_Done_iff)
  have "for_each body ks t = Done () s'"
    by (rule Cons.IH [OF Cons.prems(1) t(2)]) (use map_many_keeps [OF t(1)] in \<open>auto intro: keeps_trans\<close>)
  then show ?case using Cons.prems(1) [of k s] t(1) by (simp add: keeps_refl)
qed simp

end

end
