(* ===== verification/Page_Map.thy ===== *)
theory Page_Map
  imports Page_Tables Page_Mapper
begin

text \<open>
  \<open>map\<close> of \<open>kernel/paging/paging.cpp\<close> against the tables as the processor walks them. The tables of an
  address space lie in frames the allocator has handed out, and the kernel reads and writes them in the
  higher half; the invariant \<open>pt_ok\<close> collects what the code relies on. \<open>map\<close> installs the translation
  it is asked for, changes no other page's translation and writes nothing but page tables.
\<close>

section \<open>Tables in memory\<close>

definition ents :: "'a frame_state_scheme \<Rightarrow> entries" where
  "ents s f i = load64 (mem s) (entry_addr (f + hhdm s) i)"

definition table_place :: "'a frame_state_scheme \<Rightarrow> u64 \<Rightarrow> bool" where
  "table_place s f \<longleftrightarrow>
     f \<noteq> 0 \<and> page_aligned f \<and> unat f + 4096 \<le> 2 ^ 52 \<and> unat f + unat (hhdm s) + 4096 \<le> unat (next_free s)"

lemma place_add:
  assumes "table_place s f"
  shows "unat (f + hhdm s) = unat f + unat (hhdm s)"
  using assms unat64_bound [of "next_free s"] by (intro unat64_add_nowrap) (simp add: table_place_def)

lemma entry_unat:
  assumes "table_place s f" "i < 512"
  shows "unat (entry_addr (f + hhdm s) i) = unat f + unat (hhdm s) + 8 * unat i"
proof -
  have i: "unat i < 512" using assms(2) by (simp add: word_less_nat_alt)
  have "unat (8 * i) = 8 * unat i"
    using i by (simp add: unat_word_ariths take_bit_eq_mod)
  then show ?thesis
    using assms(1) i place_add [OF assms(1)] unat64_bound [of "next_free s"]
    unfolding entry_addr_def by (subst unat64_add_nowrap) (auto simp: table_place_def)
qed

lemma entry_region:
  assumes "table_place s f" "i < 512"
  shows "region (entry_addr (f + hhdm s) i) 8 \<subseteq> region (f + hhdm s) 4096"
    and "region (f + hhdm s) 4096 \<subseteq> below (next_free s)"
proof -
  have i: "unat i < 512" using assms(2) by (simp add: word_less_nat_alt)
  have "entry_addr (f + hhdm s) i - (f + hhdm s) = 8 * i" by (simp add: entry_addr_def)
  moreover have "unat (8 * i) = 8 * unat i" using i by (simp add: unat_word_ariths take_bit_eq_mod)
  ultimately show "region (entry_addr (f + hhdm s) i) 8 \<subseteq> region (f + hhdm s) 4096"
    using i by (intro region_subset) simp_all
  show "region (f + hhdm s) 4096 \<subseteq> below (next_free s)"
    using assms(1) place_add [OF assms(1)] by (intro region_below) (simp add: table_place_def)
qed

lemma dvd8_apart:
  assumes "8 dvd unat (a :: u64)" "8 dvd unat b" "a \<noteq> b"
  shows "8 \<le> unat (a - b)"
proof -
  have "8 dvd unat (a - b)" by (rule dvd_unat_diff) (use assms in simp_all)
  moreover have "unat (a - b) \<noteq> 0" using assms(3) by (simp add: unat_eq_0)
  ultimately show ?thesis by (simp add: dvd_imp_le)
qed

lemma entries_apart:
  assumes "page_aligned (hhdm s)" "table_place s f" "i < 512" "table_place s g" "j < 512"
    and "(f, i) \<noteq> (g, j)"
  shows "region (entry_addr (f + hhdm s) i) 8 \<inter> region (entry_addr (g + hhdm s) j) 8 = {}"
proof -
  let ?a = "entry_addr (f + hhdm s) i" and ?b = "entry_addr (g + hhdm s) j"
  have a: "unat ?a = unat f + unat (hhdm s) + 8 * unat i" and b: "unat ?b = unat g + unat (hhdm s) + 8 * unat j"
    using entry_unat assms by blast+
  obtain kf kg kh where k: "unat f = 4096 * kf" "unat g = 4096 * kg" "unat (hhdm s) = 4096 * kh"
    using assms(1,2,4) by (auto simp: table_place_def page_aligned_def dvd_def)
  have ij: "unat i < 512" "unat j < 512" using assms by (simp_all add: word_less_nat_alt)
  have "?a \<noteq> ?b"
  proof
    assume "?a = ?b"
    then have "512 * kf + unat i = 512 * kg + unat j" using a b k by simp
    then have "(512 * kf + unat i) div 512 = (512 * kg + unat j) div 512"
      "(512 * kf + unat i) mod 512 = (512 * kg + unat j) mod 512" by simp_all
    then have "kf = kg" "unat i = unat j" using ij by simp_all
    then show False using assms(6) k by (auto simp: word_unat_eq_iff)
  qed
  moreover have "unat ?a = 8 * (512 * kf + 512 * kh + unat i)" "unat ?b = 8 * (512 * kg + 512 * kh + unat j)"
    using a b k by simp_all
  then have "8 dvd unat ?a" "8 dvd unat ?b" by simp_all
  ultimately show ?thesis
    using dvd8_apart [of ?a ?b] dvd8_apart [of ?b ?a] by (intro region_disjoint) auto
qed

section \<open>The invariant\<close>

definition pt_ok :: "(u64 \<Rightarrow> nat) \<Rightarrow> 'a frame_state_scheme \<Rightarrow> bool" where
  "pt_ok lvl s \<longleftrightarrow>
     alloc_ok s \<and> boot_current s \<and> unat (next_free s) + unat (room s) \<le> unat (hhdm s) + 2 ^ 52 \<and>
     (\<forall>f. lvl f \<noteq> 0 \<longrightarrow> table_place s f) \<and> tree_ok (ents s) lvl"

text \<open>The bytes of the tables.\<close>

definition table_area :: "(u64 \<Rightarrow> nat) \<Rightarrow> 'a frame_state_scheme \<Rightarrow> ptr set" where
  "table_area lvl s = {x. \<exists>f. lvl f \<noteq> 0 \<and> x \<in> region (f + hhdm s) 4096}"

lemma table_region: "lvl f \<noteq> 0 \<Longrightarrow> region (f + hhdm s) 4096 \<subseteq> table_area lvl s"
  by (auto simp: table_area_def simp del: in_region)

text \<open>Only memory and the globals of the frame allocator change.\<close>

definition only_frames :: "'a frame_state_scheme \<Rightarrow> 'a frame_state_scheme \<Rightarrow> bool" where
  "only_frames s t \<longleftrightarrow> hhdm t = hhdm s \<and>
     t = s\<lparr>mem := mem t, globalBootInfo := globalBootInfo t, frame_head := frame_head t,
       freeBlock := freeBlock t, totalMemory := totalMemory t, usedMemory := usedMemory t,
       bootInformation := bootInformation t, addressSizeHT := addressSizeHT t, list_head := list_head t\<rparr>"

lemma only_frames_refl [simp]: "only_frames s s"
  by (simp add: only_frames_def)

lemma only_frames_trans: "only_frames s t \<Longrightarrow> only_frames t u \<Longrightarrow> only_frames s u"
  unfolding only_frames_def by (cases s; cases t; cases u) simp

lemma only_frames_bump: "only_frames s (bump r s)"
  by (cases s) (simp add: only_frames_def bump_def hhdm_def bump_boot_def)

lemma only_frames_mem: "only_frames s (s\<lparr>mem := m\<rparr>)"
  by (cases s) (simp add: only_frames_def hhdm_def)

text \<open>
  What every step of \<open>map\<close> keeps: the invariant, the tables and their links, all translations, the
  memory outside the tables, and every other global.
\<close>

definition pt_step :: "(u64 \<Rightarrow> nat) \<Rightarrow> 'a frame_state_scheme \<Rightarrow> (u64 \<Rightarrow> nat) \<Rightarrow> 'a frame_state_scheme \<Rightarrow> bool" where
  "pt_step lvl s lvl' s' \<longleftrightarrow>
     pt_ok lvl' s' \<and> (\<forall>g. lvl g \<noteq> 0 \<longrightarrow> lvl' g = lvl g) \<and>
     (\<forall>g j. link (ents s) lvl g j \<longrightarrow> ents s' g j = ents s g j) \<and>
     (\<forall>g va. lvl g \<noteq> 0 \<longrightarrow> walk (ents s') g (lvl g) va = walk (ents s) g (lvl g) va) \<and>
     below (next_free s) \<subseteq> below (next_free s') \<and>
     table_area lvl' s' \<inter> below (next_free s) \<subseteq> table_area lvl s \<and>
     same_on (below (next_free s) - table_area lvl s) (mem s') (mem s) \<and>
     only_frames s s'"

lemma pt_ok_parts:
  assumes "pt_ok lvl s"
  shows "alloc_ok s" "boot_current s" "tree_ok (ents s) lvl" "\<And>f. lvl f \<noteq> 0 \<Longrightarrow> table_place s f"
    "unat (next_free s) + unat (room s) \<le> unat (hhdm s) + 2 ^ 52" "page_aligned (hhdm s)"
  using assms by (simp_all add: pt_ok_def alloc_ok_def)

lemma pt_step_walk:
  assumes "pt_step lvl s lvl' s'" "lvl r = 4"
  shows "walk (ents s') r 4 va = walk (ents s) r 4 va"
proof -
  have "walk (ents s') r (lvl r) va = walk (ents s) r (lvl r) va"
    using assms unfolding pt_step_def by (metis zero_neq_numeral)
  then show ?thesis unfolding assms(2) .
qed

lemma pt_step_refl: "pt_ok lvl s \<Longrightarrow> pt_step lvl s lvl s"
  by (simp add: pt_step_def)

lemma link_kept:
  assumes "\<forall>g. lvl g \<noteq> 0 \<longrightarrow> lvl' g = lvl g" "\<forall>g j. link E lvl g j \<longrightarrow> E' g j = E g j" "link E lvl g j"
  shows "link E' lvl' g j"
  using assms by (auto simp: link_def)

lemma pt_step_trans:
  assumes 1: "pt_step lvl s lvl1 s1" and 2: "pt_step lvl1 s1 lvl2 s2"
  shows "pt_step lvl s lvl2 s2"
proof -
  have l1: "\<forall>g. lvl g \<noteq> 0 \<longrightarrow> lvl1 g = lvl g" and e1: "\<forall>g j. link (ents s) lvl g j \<longrightarrow> ents s1 g j = ents s g j"
    using 1 by (auto simp: pt_step_def)
  have links: "link (ents s1) lvl1 g j" if "link (ents s) lvl g j" for g j
    by (rule link_kept [OF l1 e1 that])
  have m: "same_on (below (next_free s) - table_area lvl s) (mem s1) (mem s)"
    "same_on (below (next_free s1) - table_area lvl1 s1) (mem s2) (mem s1)"
    "below (next_free s) \<subseteq> below (next_free s1)"
    "table_area lvl1 s1 \<inter> below (next_free s) \<subseteq> table_area lvl s"
    "table_area lvl2 s2 \<inter> below (next_free s1) \<subseteq> table_area lvl1 s1"
    using 1 2 by (auto simp: pt_step_def)
  then have "same_on (below (next_free s) - table_area lvl s) (mem s2) (mem s)"
    by (intro same_on_trans [OF same_on_subset [OF m(2)] m(1)]) blast
  moreover have "table_area lvl2 s2 \<inter> below (next_free s) \<subseteq> table_area lvl s" using m by blast
  moreover have "only_frames s s2" using 1 2 only_frames_trans by (auto simp: pt_step_def)
  moreover have "\<forall>g j. link (ents s) lvl g j \<longrightarrow> ents s2 g j = ents s g j"
    using 2 e1 links by (simp add: pt_step_def)
  moreover have "walk (ents s2) g (lvl g) va = walk (ents s) g (lvl g) va" if "lvl g \<noteq> 0" for g va
  proof -
    have l: "lvl1 g = lvl g" using l1 that by blast
    then have "lvl1 g \<noteq> 0" using that by simp
    then have "walk (ents s2) g (lvl1 g) va = walk (ents s1) g (lvl1 g) va"
      using 2 unfolding pt_step_def by blast
    moreover have "walk (ents s1) g (lvl g) va = walk (ents s) g (lvl g) va"
      using 1 that unfolding pt_step_def by blast
    ultimately show ?thesis unfolding l by simp
  qed
  moreover have "lvl2 g = lvl g" if "lvl g \<noteq> 0" for g
    using 2 l1 that by (simp add: pt_step_def)
  moreover have "pt_ok lvl2 s2" "below (next_free s) \<subseteq> below (next_free s2)"
    using 1 2 by (auto simp: pt_step_def)
  ultimately show ?thesis unfolding pt_step_def by blast
qed

section \<open>Storing an entry\<close>

lemma alloc_ok_store:
  assumes "alloc_ok s" "same_on (region (next_free s) 40) m (mem s)"
  shows "alloc_ok (s\<lparr>mem := m\<rparr>)"
proof -
  have "fb_next m (next_free s) = fb_next (mem s) (next_free s)"
    "fb_size m (next_free s) = fb_size (mem s) (next_free s)"
    by (rule load_le_cong; use same_on_subset [OF assms(2)] fb_regions [of "next_free s"] in simp)+
  then show ?thesis
    using assms(1) by (auto simp: alloc_ok_def next_free_def hhdm_def room_def boot_current_def split: if_splits)
qed

lemma mem_update_parts [simp]:
  "next_free (s\<lparr>mem := m\<rparr>) = next_free s" "room (s\<lparr>mem := m\<rparr>) = room s" "hhdm (s\<lparr>mem := m\<rparr>) = hhdm s"
  "boot_current (s\<lparr>mem := m\<rparr>) = boot_current s" "table_place (s\<lparr>mem := m\<rparr>) f = table_place s f"
  "table_area lvl (s\<lparr>mem := m\<rparr>) = table_area lvl s"
  by (simp_all add: next_free_def room_def hhdm_def boot_current_def table_place_def table_area_def)

text \<open>Storing one entry of a table.\<close>

lemma store_entry:
  assumes "alloc_ok s" "page_aligned (hhdm s)" "table_place s f" "i < 512"
    and s': "s' = s\<lparr>mem := store64 (mem s) (entry_addr (f + hhdm s) i) e\<rparr>"
  shows "alloc_ok s'" "ents s' f i = e"
    and "table_place s g \<Longrightarrow> j < 512 \<Longrightarrow> (g, j) \<noteq> (f, i) \<Longrightarrow> ents s' g j = ents s g j"
    and "same_on (- region (f + hhdm s) 4096) (mem s') (mem s)"
proof -
  let ?a = "entry_addr (f + hhdm s) i"
  show "ents s' f i = e" by (simp add: s' ents_def)
  show "ents s' g j = ents s g j" if "table_place s g" "j < 512" "(g, j) \<noteq> (f, i)"
  proof -
    have "region ?a 8 \<inter> region (entry_addr (g + hhdm s) j) 8 = {}"
      by (rule entries_apart [OF assms(2-4) that(1,2)]) (use that(3) in auto)
    then show ?thesis by (simp add: s' ents_def load_store_disjoint)
  qed
  show "same_on (- region (f + hhdm s) 4096) (mem s') (mem s)"
    unfolding s' using entry_region(1) [OF assms(3,4)] by (auto intro!: same_on_store_le simp del: in_region)
  have "region (next_free s) 40 \<inter> below (next_free s) = {}"
    by (rule region_not_below) (use assms(1) in \<open>auto simp: alloc_ok_def\<close>)
  then have "same_on (region (next_free s) 40) (store64 (mem s) ?a e) (mem s)"
    using entry_region [OF assms(3,4)] by (intro same_on_store_le) blast
  then show "alloc_ok s'" unfolding s' by (rule alloc_ok_store [OF assms(1)])
qed

section \<open>A new table\<close>

lemma frame_page [simp]: "roundUpToPageBoundary 0x1000 = 0x1000"
  by (simp add: roundUpToPageBoundary_def PAGESIZE_def)

lemma below_mono: "unat a \<le> unat b \<Longrightarrow> below a \<subseteq> below b"
  by (auto simp: below_def)

lemma address_field:
  assumes "page_aligned p" "unat p < 2 ^ 52"
  shows "p AND ADDRESS_BITS = p"
proof (rule bit_word_eqI)
  fix k assume k: "k < LENGTH(64)"
  have "\<not> bit p k" if "52 \<le> k"
  proof -
    have "unat p < 2 ^ k" using assms(2) that power_increasing [of 52 k "2 :: nat"] by linarith
    then have "\<not> bit (unat p) k" by (simp add: bit_iff_odd)
    then show ?thesis by (simp add: bit_unsigned_iff)
  qed
  then have "bit p k \<Longrightarrow> k < 52" by (meson not_less)
  then show "bit (p AND ADDRESS_BITS) k = bit p k"
    using assms(1) by (auto simp: bit_simps page_aligned_bits not_less)
qed

lemma new_frame:
  assumes ok: "alloc_ok s" and places: "\<forall>f. lvl f \<noteq> 0 \<longrightarrow> table_place s f"
    and small: "unat (next_free s) + unat (room s) \<le> unat (hhdm s) + 2 ^ 52" and r: "0x1000 \<le> room s"
  defines "p \<equiv> next_free s - hhdm s" and "s' \<equiv> bump 0x1000 s"
  shows "allocateFrame 0x1000 s = Done p s'" "alloc_ok s'" "boot_current s'" "table_place s' p" "lvl p = 0"
    "p + hhdm s = next_free s" "p \<noteq> -1" "p AND ADDRESS_BITS = p"
    "\<And>g. table_place s g \<Longrightarrow> table_place s' g"
    "\<And>g j. table_place s g \<Longrightarrow> j < 512 \<Longrightarrow> ents s' g j = ents s g j"
    "\<And>j. j < 512 \<Longrightarrow> ents s' p j = 0"
    "unat (next_free s') + unat (room s') = unat (next_free s) + unat (room s)"
    "unat (room s') = unat (room s) - 0x1000"
    "unat (next_free s') = unat (next_free s) + 4096"
    "same_on (below (next_free s)) (mem s') (mem s)"
proof -
  have al: "page_aligned 0x1000" by (simp add: page_aligned_def)
  note fits = room_fits [OF ok r]
  show alloc: "allocateFrame 0x1000 s = Done p s'"
    unfolding p_def s'_def by (rule allocateFrame_eq [OF ok _ r]) simp
  show "alloc_ok s'" unfolding s'_def by (rule alloc_ok_bump [OF ok r al])
  show "boot_current s'" by (simp add: s'_def)
  have nf: "next_free s' = next_free s + 0x1000" unfolding s'_def by (rule next_free_bump [OF ok r])
  show room': "unat (room s') = unat (room s) - 0x1000" and nf': "unat (next_free s') = unat (next_free s) + 4096"
    using fits nf by (simp_all add: s'_def)
  have r': "0x1000 \<le> unat (room s)" using r by (simp add: word_le_nat_alt)
  show "unat (next_free s') + unat (room s') = unat (next_free s) + unat (room s)"
    using room' nf' r' by simp
  have hh: "unat (hhdm s) < unat (next_free s)" using ok by (simp add: alloc_ok_def)
  then have p: "unat p = unat (next_free s) - unat (hhdm s)" unfolding p_def by (intro unat64_diff_eq) simp
  have p52: "unat p + 4096 \<le> 2 ^ 52" using p small r' hh by simp
  have pal: "page_aligned p"
    unfolding p_def by (rule page_aligned_diff) (use ok in \<open>simp_all add: alloc_ok_def\<close>)
  have p0: "p \<noteq> 0" using p hh by auto
  show "p + hhdm s = next_free s" by (simp add: p_def)
  show "p \<noteq> -1" using p52 by (auto simp: word_unat_eq_iff unsigned_minus_1_eq_mask mask_eq_exp_minus_1)
  show "table_place s' p"
    using pal p52 p nf' p0 hh by (simp add: table_place_def) (simp add: s'_def)
  show "lvl p = 0"
  proof (rule ccontr)
    assume "lvl p \<noteq> 0"
    then show False using places p hh by (auto simp: table_place_def)
  qed
  show "p AND ADDRESS_BITS = p" using pal p52 by (simp add: address_field)
  show keep: "same_on (below (next_free s)) (mem s') (mem s)"
    unfolding s'_def by (rule bump_below [OF ok r al])
  show "table_place s' g" if "table_place s g" for g
    using that nf' by (simp add: table_place_def) (simp add: s'_def)
  show "ents s' g j = ents s g j" if g: "table_place s g" "j < 512" for g j
  proof -
    have "same_on (region (entry_addr (g + hhdm s) j) 8) (mem s') (mem s)"
      by (rule same_on_subset [OF keep]) (use entry_region [OF g] in blast)
    then show ?thesis unfolding ents_def by (simp add: s'_def load_le_cong)
  qed
  show "ents s' p j = 0" if "j < 512" for j
  proof -
    have "region (entry_addr (p + hhdm s) j) 8 \<subseteq> region (next_free s) 4096"
      using entry_region(1) [OF \<open>table_place s' p\<close> that] by (simp add: s'_def p_def del: in_region)
    then have "mem s' x = 0" if "x \<in> region (entry_addr (p + hhdm s) j) 8" for x
      using that bump_zero [of x s "0x1000"] unfolding s'_def by auto
    then have "load64 (mem s') (entry_addr (p + hhdm s) j) = 0" by (rule load_le_zero) simp_all
    then show ?thesis unfolding ents_def by (simp add: s'_def)
  qed
qed

section \<open>One level down\<close>

text \<open>The entry \<open>getNextLevelPointer\<close> writes for a new table.\<close>

definition table_entry :: "u64 \<Rightarrow> PageDirectoryEntry" where
  "table_entry p = setFlag Present True (setFlag UserOrSuperuser True (setFlag ReadWrite True (setAddress p 0)))"

lemma table_entry_parts:
  assumes "p AND ADDRESS_BITS = p"
  shows "getFlag Present (table_entry p)" "\<not> getFlag LargerPages (table_entry p)"
    "getAddress (table_entry p) = p"
proof -
  have f: "Present AND Present \<noteq> 0" "LargerPages AND ReadWrite = 0" "LargerPages AND UserOrSuperuser = 0"
    "LargerPages AND Present = 0" "LargerPages AND ADDRESS_BITS = 0"
    "ReadWrite AND ADDRESS_BITS = 0" "UserOrSuperuser AND ADDRESS_BITS = 0" "Present AND ADDRESS_BITS = 0"
    by (simp_all add: pte_flag_defs ADDRESS_BITS_def)
  show "getFlag Present (table_entry p)"
    unfolding table_entry_def getFlag_setFlag_True using f(1) by simp
  show "\<not> getFlag LargerPages (table_entry p)"
    by (simp add: table_entry_def getFlag_setFlag getFlag_setAddress f) (simp add: getFlag_def)
  show "getAddress (table_entry p) = p"
    by (simp add: table_entry_def getAddress_setFlag getAddress_setAddress f assms)
qed

lemma next_table_present:
  assumes ok: "pt_ok lvl s" and link: "link (ents s) lvl f i"
  shows "next_table line (entry_addr (f + hhdm s) i) s = Done (getAddress (ents s f i) + hhdm s) s"
proof -
  let ?q = "getAddress (ents s f i)"
  note parts = pt_ok_parts [OF ok]
  have "Suc (lvl ?q) = lvl f" by (rule tree_link [OF parts(3) link])
  then have q: "table_place s ?q" using link by (intro parts(4)) (auto simp: link_def)
  have "isValid (ents s f i)" using link q by (simp add: isValid_iff link_def table_place_def)
  moreover have "unat ?q \<noteq> unat (-1 :: u64)"
    using q by (auto simp: table_place_def unsigned_minus_1_eq_mask mask_eq_exp_minus_1)
  then have "?q \<noteq> -1" by auto
  moreover have "unat (?q + hhdm s) \<noteq> 0"
    using place_add [OF q] q by (simp add: table_place_def unat_eq_0)
  then have "?q + hhdm s \<noteq> 0" by auto
  ultimately show ?thesis
    using q by (simp add: next_table_def getNextLevelPointer_def ents_def toVirtualAddr_current [OF parts(2)]
        table_place_def)
qed

lemma next_table_new:
  assumes ok: "pt_ok lvl s" and f: "2 \<le> lvl f" "i < 512" "\<not> getFlag Present (ents s f i)"
    and r: "0x1000 \<le> room s"
  defines "p \<equiv> next_free s - hhdm s"
  shows "\<exists>s'. next_table line (entry_addr (f + hhdm s) i) s = Done (p + hhdm s) s' \<and>
    pt_step lvl s (lvl(p := lvl f - 1)) s' \<and> ents s' f i = table_entry p \<and> p AND ADDRESS_BITS = p \<and> lvl p = 0 \<and>
    unat (room s') = unat (room s) - 0x1000"
proof -
  let ?t = "bump 0x1000 s" and ?a = "entry_addr (f + hhdm s) i" and ?lvl = "lvl(p := lvl f - 1)"
  let ?s = "?t\<lparr>mem := store64 (mem ?t) ?a (table_entry p)\<rparr>"
  note parts = pt_ok_parts [OF ok]
  have places: "\<forall>f. lvl f \<noteq> 0 \<longrightarrow> table_place s f" using parts(4) by blast
  note new = new_frame [OF parts(1) places parts(5) r, folded p_def]
  have fpl: "table_place s f" using f by (intro parts(4)) auto
  have ht: "hhdm ?t = hhdm s" by simp
  have e0: "ents s f i = 0" using parts(3) f by (auto simp: tree_ok_def)
  have et: "load64 (mem ?t) ?a = 0"
    using new(10) [OF fpl f(2)] e0 unfolding ents_def ht by simp
  note pa = page_aligned_def
  have st: "?s = ?t\<lparr>mem := store64 (mem ?t) (entry_addr (f + hhdm ?t) i) (table_entry p)\<rparr>" by simp
  note store = store_entry [OF new(2) _ new(9) [OF fpl] f(2) st, unfolded ht, OF parts(6)]
  have p0: "p \<noteq> 0" using new(4) by (simp add: table_place_def)
  have nz: "p + hhdm s \<noteq> 0" using new(6) alloc_ok_nonzero [OF parts(1)] by (auto simp: unat_gt_0)
  have inv: "\<not> isValid (load64 (mem s) ?a)" using f(3) by (simp add: isValid_iff ents_def)
  have run: "next_table line ?a s = Done (p + hhdm s) ?s"
    using new(1,7) p0 nz inv et
    by (simp add: next_table_def getNextLevelPointer_def Let_def table_entry_def toVirtualAddr_def boot_current_def
        hhdm_def refresh_bootInformation_def getBootInfo_def)
  have same: "ents ?s g j = ents s g j" if "lvl g \<noteq> 0" "j < 512" "(g, j) \<noteq> (f, i)" for g j
  proof -
    have g: "table_place s g" using that(1) by (rule parts(4))
    then show ?thesis using store(3) [OF new(9) [OF g] that(2,3)] new(10) [OF g that(2)] by simp
  qed
  have fp: "p \<noteq> f" using new(5) f by auto
  have zero: "ents ?s p j = 0" if "j < 512" for j
    using store(3) [OF new(4) that] new(11) [OF that] fp by simp
  note entry = table_entry_parts [OF new(8)]
  note tree = link_new_table [OF parts(3) f new(5), of "ents ?s", OF zero _ _ _ same, unfolded store(2),
      OF _ entry(1,2) _ _, OF _ entry(3)]
  have links: "(g, j) \<noteq> (f, i)" if "link (ents s) lvl g j" for g j
    using that f by (auto simp: link_def)
  have "pt_ok ?lvl ?s"
    unfolding pt_ok_def
  proof (intro conjI allI impI)
    show "alloc_ok ?s" by (rule store(1))
    show "boot_current ?s" by simp
    show "unat (next_free ?s) + unat (room ?s) \<le> unat (hhdm ?s) + 2 ^ 52"
      using new(12) parts(5) by simp
    show "table_place ?s g" if "?lvl g \<noteq> 0" for g
      using that new(4,9) parts(4) by (simp split: if_splits)
    show "tree_ok (ents ?s) ?lvl" by (rule tree(1)) auto
  qed
  moreover have "table_area ?lvl ?s \<inter> below (next_free s) \<subseteq> table_area lvl s"
  proof -
    have "region (next_free s) 4096 \<inter> below (next_free s) = {}"
      by (rule region_not_below) (use new(14) unat64_bound [of "next_free ?t"] in auto)
    then show ?thesis using new(6) by (auto simp: table_area_def simp del: in_region split: if_splits)
  qed
  moreover have "same_on (below (next_free s) - table_area lvl s) (mem ?s) (mem s)"
  proof (rule same_on_trans)
    have "region (f + hhdm s) 4096 \<subseteq> table_area lvl s" using f by (intro table_region) simp
    then show "same_on (below (next_free s) - table_area lvl s) (mem ?s) (mem ?t)"
      by (intro same_on_subset [OF store(4)]) blast
    show "same_on (below (next_free s) - table_area lvl s) (mem ?t) (mem s)"
      by (rule same_on_subset [OF new(15)]) blast
  qed
  moreover have "below (next_free s) \<subseteq> below (next_free ?s)" using new(14) by (simp add: below_mono)
  moreover have "only_frames s ?s" by (rule only_frames_trans [OF only_frames_bump only_frames_mem])
  moreover have "\<forall>g. lvl g \<noteq> 0 \<longrightarrow> ?lvl g = lvl g" using new(5) by auto
  moreover have "\<forall>g j. link (ents s) lvl g j \<longrightarrow> ents ?s g j = ents s g j"
    using same links by (auto simp: link_def)
  moreover have "\<forall>g va. lvl g \<noteq> 0 \<longrightarrow> walk (ents ?s) g (lvl g) va = walk (ents s) g (lvl g) va"
    using tree(2) by blast
  ultimately have "pt_step lvl s ?lvl ?s" unfolding pt_step_def by blast
  then show ?thesis using run store(2) new(5,8,13) by (intro exI [of _ ?s]) simp
qed

text \<open>Both cases together, for a table on the path of an address from the root \<open>r\<close>.\<close>

abbreviation path :: "'a frame_state_scheme \<Rightarrow> u64 \<Rightarrow> ptr \<Rightarrow> (u64 \<times> u64) list" where
  "path s r va \<equiv> slots (ents s) r 4 va"

lemma next_step:
  assumes ok: "pt_ok lvl s" and r: "lvl r = 4"
    and f: "(f, table_index (lvl f) va) \<in> set (path s r va)" "2 \<le> lvl f"
    and small: "\<not> (getFlag Present (ents s f (table_index (lvl f) va)) \<and>
      getFlag LargerPages (ents s f (table_index (lvl f) va)))"
    and room: "getFlag Present (ents s f (table_index (lvl f) va)) \<or> 0x1000 \<le> room s"
  shows "\<exists>lvl' s' q. next_table line (entry_addr (f + hhdm s) (table_index (lvl f) va)) s = Done (q + hhdm s) s' \<and>
    pt_step lvl s lvl' s' \<and> Suc (lvl' q) = lvl f \<and>
    (q, table_index (lvl' q) va) \<in> set (path s' r va) \<and>
    (if getFlag Present (ents s f (table_index (lvl f) va)) then s' = s
     else unat (room s') = unat (room s) - 0x1000)"
proof -
  let ?i = "table_index (lvl f) va"
  note parts = pt_ok_parts [OF ok]
  show ?thesis
  proof (cases "getFlag Present (ents s f ?i)")
    case True
    then have l: "link (ents s) lvl f ?i" using f small by (simp add: link_def table_index_less)
    show ?thesis
      by (intro exI [of _ lvl] exI [of _ s] exI [of _ "getAddress (ents s f ?i)"])
        (use True next_table_present [OF ok l] pt_step_refl [OF ok] tree_link [OF parts(3) l]
          slots_extend [OF parts(3) r f(1) l refl] in simp)
  next
    case False
    let ?p = "next_free s - hhdm s"
    let ?lvl = "lvl(?p := lvl f - 1)"
    obtain s' where run: "next_table line (entry_addr (f + hhdm s) ?i) s = Done (?p + hhdm s) s'"
      and step: "pt_step lvl s ?lvl s'" and e: "ents s' f ?i = table_entry ?p"
      and p: "?p AND ADDRESS_BITS = ?p" "lvl ?p = 0" and rm: "unat (room s') = unat (room s) - 0x1000"
      using next_table_new [OF ok f(2) table_index_less False, of line] room False by blast
    have ok': "tree_ok (ents s') ?lvl" using step by (simp add: pt_step_def pt_ok_def)
    have fp: "f \<noteq> ?p" using p(2) f(2) by auto
    have r': "?lvl r = 4" using r p(2) by auto
    have fl: "?lvl f = lvl f" using fp by simp
    have onpath: "(f, ?i) \<in> set (path s' r va)"
      by (rule slots_mono [OF parts(3) _ r f(1)]) (use step in \<open>simp add: pt_step_def\<close>)
    have "link (ents s') ?lvl f ?i"
      using f fp e table_entry_parts [OF p(1)] by (simp add: link_def table_index_less)
    then have "(?p, table_index (?lvl ?p) va) \<in> set (path s' r va)"
      by (rule slots_extend [OF ok' r', of f va, unfolded fl, OF onpath])
        (simp add: e table_entry_parts(3) [OF p(1)])
    then show ?thesis
      by (intro exI [of _ ?lvl] exI [of _ s'] exI [of _ ?p]) (use run step rm False f in simp)
  qed
qed

section \<open>Writing the leaf\<close>

lemma write_leaf_step:
  assumes ok: "pt_ok lvl s" and f: "lvl f = 1 \<or> lvl f = 2 \<and> getFlag LargerPages e" "i < 512"
    and e: "getFlag Present e"
    and s': "s' = s\<lparr>mem := store64 (mem s) (entry_addr (f + hhdm s) i) e\<rparr>"
  shows "pt_ok lvl s'" "only_frames s s'" "room s' = room s" "next_free s' = next_free s"
    "same_on (below (next_free s) - table_area lvl s) (mem s') (mem s)"
    "lvl r = 4 \<Longrightarrow> (f, i) \<in> set (path s r va) \<Longrightarrow> walk (ents s') r 4 va = Some (lvl f, e)"
    "lvl r = 4 \<Longrightarrow> (f, i) \<notin> set (path s r vb) \<Longrightarrow> walk (ents s') r 4 vb = walk (ents s) r 4 vb"
    "lvl r = 4 \<Longrightarrow> (g, j) \<in> set (path s r vb) \<Longrightarrow> lvl f \<le> lvl g \<Longrightarrow> (g, j) \<in> set (path s' r vb)"
proof -
  note parts = pt_ok_parts [OF ok]
  have fpl: "table_place s f" by (rule parts(4)) (use f in auto)
  note store = store_entry [OF parts(1,6) fpl f(2) s']
  have same: "ents s' g j = ents s g j" if "lvl g \<noteq> 0" "j < 512" "(g, j) \<noteq> (f, i)" for g j
    by (rule store(3) [OF parts(4) [OF that(1)] that(2,3)])
  have f': "lvl f = 1 \<or> lvl f = 2 \<and> getFlag LargerPages (ents s' f i)" and e': "getFlag Present (ents s' f i)"
    using f e store(2) by auto
  note leaf = write_leaf [OF parts(3) f' e' same]
  show "pt_ok lvl s'"
    using store(1) parts leaf(1) by (simp add: pt_ok_def) (simp add: s')
  show "only_frames s s'" unfolding s' by (rule only_frames_mem)
  show "room s' = room s" "next_free s' = next_free s" by (simp_all add: s')
  have "region (f + hhdm s) 4096 \<subseteq> table_area lvl s" by (rule table_region) (use f in auto)
  then show "same_on (below (next_free s) - table_area lvl s) (mem s') (mem s)"
    by (intro same_on_subset [OF store(4)]) blast
  show "walk (ents s') r 4 va = Some (lvl f, e)" if "lvl r = 4" "(f, i) \<in> set (path s r va)"
    using leaf(2) [OF _ _ _ that] store(2) by simp
  show "walk (ents s') r 4 vb = walk (ents s) r 4 vb" if "lvl r = 4" "(f, i) \<notin> set (path s r vb)"
    using leaf(3) [OF _ _ _ that] by simp
  show "(g, j) \<in> set (path s' r vb)"
    if "lvl r = 4" "(g, j) \<in> set (path s r vb)" "lvl f \<le> lvl g"
  proof (rule slots_mono [OF parts(3) _ that(1,2)])
    show "ents s' h k = ents s h k" if "link (ents s) lvl h k" "lvl g < lvl h" for h k
      by (rule same) (use that \<open>lvl f \<le> lvl g\<close> in \<open>auto simp: link_def\<close>)
  qed
qed

section \<open>The descent\<close>

text \<open>
  \<open>tables_ready L s r va\<close>: the path of \<open>va\<close> from the root \<open>r\<close> reaches a table of level \<open>L\<close>, so that no
  table has to be allocated for a page of that level.
\<close>

definition tables_ready :: "nat \<Rightarrow> 'a frame_state_scheme \<Rightarrow> u64 \<Rightarrow> ptr \<Rightarrow> bool" where
  "tables_ready L s r va \<longleftrightarrow> 4 - L < length (path s r va)"

lemma budget_step:
  assumes ok: "pt_ok lvl s" and r: "lvl r = 4"
    and f: "(f, table_index (lvl f) va) \<in> set (path s r va)" "2 \<le> lvl f" "L < lvl f"
    and small: "\<not> (getFlag Present (ents s f (table_index (lvl f) va)) \<and>
      getFlag LargerPages (ents s f (table_index (lvl f) va)))"
    and budget: "tables_ready L s r va \<or> 4096 * Suc n \<le> unat (room s)"
  shows "\<exists>lvl' s' q. next_table line (entry_addr (f + hhdm s) (table_index (lvl f) va)) s = Done (q + hhdm s) s' \<and>
    pt_step lvl s lvl' s' \<and> Suc (lvl' q) = lvl f \<and> lvl' r = 4 \<and> hhdm s' = hhdm s \<and>
    (q, table_index (lvl' q) va) \<in> set (path s' r va) \<and>
    (tables_ready L s r va \<or> 4096 * n \<le> unat (room s')) \<and>
    (if tables_ready L s r va then s' = s else unat (room s) \<le> unat (room s') + 4096)"
proof -
  let ?i = "table_index (lvl f) va"
  note parts = pt_ok_parts [OF ok]
  have le4: "lvl f \<le> 4" using slots_levels [OF parts(3) r f(1)] by simp
  have present: "getFlag Present (ents s f ?i)" if "tables_ready L s r va"
  proof -
    have "Suc (4 - lvl f) < length (path s r va)"
      using that f(3) le4 unfolding tables_ready_def by linarith
    from slots_link [OF parts(3) r f(1) this] show ?thesis by (simp add: link_def)
  qed
  have "getFlag Present (ents s f ?i) \<or> 0x1000 \<le> room s"
    using present budget by (auto simp: word_le_nat_alt)
  from next_step [OF ok r f(1,2) small this, of line] obtain lvl' s' q
    where step: "next_table line (entry_addr (f + hhdm s) ?i) s = Done (q + hhdm s) s'"
      "pt_step lvl s lvl' s'" "Suc (lvl' q) = lvl f" "(q, table_index (lvl' q) va) \<in> set (path s' r va)"
      "if getFlag Present (ents s f ?i) then s' = s else unat (room s') = unat (room s) - 0x1000"
    by blast
  have "lvl' r = 4" "hhdm s' = hhdm s" using step(2) r by (simp_all add: pt_step_def only_frames_def)
  moreover have "tables_ready L s r va \<or> 4096 * n \<le> unat (room s')"
    "if tables_ready L s r va then s' = s else unat (room s) \<le> unat (room s') + 4096"
    using step(5) present budget by (auto split: if_splits)
  ultimately show ?thesis using step by blast
qed

text \<open>Setting the global root pointer, as the descent does for a moment, matters to nothing else.\<close>

lemma root_ents [simp]: "ents (s\<lparr>PML4 := x\<rparr>) = ents s"
  by (simp add: fun_eq_iff ents_def hhdm_def)

lemma root_update [simp]:
  "hhdm (s\<lparr>PML4 := x\<rparr>) = hhdm s" "room (s\<lparr>PML4 := x\<rparr>) = room s"
  "next_free (s\<lparr>PML4 := x\<rparr>) = next_free s" "boot_current (s\<lparr>PML4 := x\<rparr>) = boot_current s"
  "alloc_ok (s\<lparr>PML4 := x\<rparr>) = alloc_ok s" "table_place (s\<lparr>PML4 := x\<rparr>) = table_place s"
  "table_area lvl (s\<lparr>PML4 := x\<rparr>) = table_area lvl s" "tables_ready L (s\<lparr>PML4 := x\<rparr>) = tables_ready L s"
  by (simp_all add: fun_eq_iff hhdm_def room_def next_free_def boot_current_def alloc_ok_def
      table_place_def table_area_def tables_ready_def)

lemma pt_ok_root_update [simp]: "pt_ok lvl (s\<lparr>PML4 := x\<rparr>) = pt_ok lvl s"
  by (simp add: pt_ok_def)

lemma only_frames_root: "only_frames (s\<lparr>PML4 := x\<rparr>) t \<Longrightarrow> only_frames s (t\<lparr>PML4 := PML4 s\<rparr>)"
  unfolding only_frames_def by (cases s; cases t) (simp add: hhdm_def)

lemma pt_step_root:
  "pt_step lvl (s\<lparr>PML4 := x\<rparr>) lvl' t \<Longrightarrow> pt_step lvl s lvl' (t\<lparr>PML4 := PML4 s\<rparr>)"
  unfolding pt_step_def by (auto intro: only_frames_root)

definition page_level :: "u64 \<Rightarrow> nat" where
  "page_level flags = (if getFlag LargerPages flags then 2 else 1)"

lemma not_large_above:
  assumes "pt_ok lvl s" "3 \<le> lvl f" "i < 512"
  shows "\<not> getFlag LargerPages (ents s f i)"
  using pt_ok_parts(3) [OF assms(1)] assms(2,3) by (simp add: tree_ok_def)

lemma root_virtual:
  assumes ok: "pt_ok lvl s" and r: "lvl r = 4"
  shows "toVirtualAddr r s = (r + hhdm s, s)" "r \<noteq> 0"
proof -
  note parts = pt_ok_parts [OF ok]
  have pl: "table_place s r" by (rule parts(4)) (simp add: r)
  then have "unat r \<noteq> unat (-1 :: u64)"
    by (auto simp: table_place_def unsigned_minus_1_eq_mask mask_eq_exp_minus_1)
  then have "r \<noteq> -1" by auto
  then show "toVirtualAddr r s = (r + hhdm s, s)" by (rule toVirtualAddr_current [OF parts(2)])
  show "r \<noteq> 0" using pl by (simp add: table_place_def)
qed

lemma virtualAddrToPTE_spec:
  assumes ok: "pt_ok lvl s" and root: "lvl (PML4 s) = 4" and L: "L = page_level flags"
    and nolarge: "L = 1 \<Longrightarrow> (\<And>e. walk (ents s) (PML4 s) 4 va \<noteq> Some (2, e))"
    and room: "tables_ready L s (PML4 s) va \<or> 4096 * (4 - L) \<le> unat (room s)"
  shows "\<exists>lvl' s' f. virtualAddrToPTE va flags s = Done (entry_addr (f + hhdm s) (table_index L va)) s' \<and>
    pt_step lvl s lvl' s' \<and> lvl' f = L \<and> (f, table_index L va) \<in> set (path s' (PML4 s) va) \<and>
    (if tables_ready L s (PML4 s) va then s' = s else unat (room s) \<le> unat (room s') + 4096 * (4 - L))"
proof -
  let ?r = "PML4 s" and ?i = "\<lambda>k. table_index k va"
  let ?s = "s\<lparr>PML4 := ?r + hhdm s\<rparr>"
  have L12: "1 \<le> L" "L \<le> 2" using L by (auto simp: page_level_def)
  have ok1: "pt_ok lvl ?s" using ok by simp
  have f4: "(?r, table_index (lvl ?r) va) \<in> set (path ?s ?r va)"
    unfolding root by (rule slots_root) simp
  have n: "4 - L = Suc (3 - L)" using L12 by simp
  have b4: "tables_ready L ?s ?r va \<or> 4096 * Suc (3 - L) \<le> unat (room ?s)"
    using room unfolding n by simp
  obtain l3 s3 q3 where s3: "next_table 138 (entry_addr (?r + hhdm ?s) (?i 4)) ?s = Done (q3 + hhdm ?s) s3"
    and p3: "pt_step lvl ?s l3 s3" "lvl ?r = Suc (l3 q3)" "l3 ?r = 4" "hhdm s3 = hhdm ?s"
      "(q3, table_index (l3 q3) va) \<in> set (path s3 ?r va)"
    and b3: "tables_ready L ?s ?r va \<or> 4096 * (3 - L) \<le> unat (room s3)"
    and c3: "if tables_ready L ?s ?r va then s3 = ?s else unat (room ?s) \<le> unat (room s3) + 4096"
    using budget_step [OF ok1 root f4 _ _ _ b4, of 138] not_large_above [OF ok1, of ?r] root L12
    by (fastforce simp: table_index_less)
  let ?t = "s3\<lparr>PML4 := ?r\<rparr>"
  have step3: "pt_step lvl s l3 ?t" by (rule pt_step_root [OF p3(1)])
  then have ok3: "pt_ok l3 ?t" by (simp add: pt_step_def)
  have q3: "l3 q3 = 3" and h3: "hhdm ?t = hhdm s" using p3(2,4) root by simp_all
  have f3: "(q3, table_index (l3 q3) va) \<in> set (path ?t ?r va)" using p3(5) by simp
  have rd: "tables_ready L ?t ?r va" if "tables_ready L s ?r va" using c3 that by simp
  have n3: "3 - L = Suc (2 - L)" using L12 by simp
  have b3': "tables_ready L ?t ?r va \<or> 4096 * Suc (2 - L) \<le> unat (room ?t)"
    using b3 rd unfolding n3 by auto
  obtain l2 s2 q2 where s2: "next_table 145 (entry_addr (q3 + hhdm ?t) (?i 3)) ?t = Done (q2 + hhdm ?t) s2"
    and p2: "pt_step l3 ?t l2 s2" "l3 q3 = Suc (l2 q2)" "l2 ?r = 4" "hhdm s2 = hhdm ?t"
      "(q2, table_index (l2 q2) va) \<in> set (path s2 ?r va)"
    and b2: "tables_ready L ?t ?r va \<or> 4096 * (2 - L) \<le> unat (room s2)"
    and c2: "if tables_ready L ?t ?r va then s2 = ?t else unat (room ?t) \<le> unat (room s2) + 4096"
    using budget_step [OF ok3 p3(3) f3 _ _ _ b3', of 145] not_large_above [OF ok3, of q3] q3 L12
    by (fastforce simp: table_index_less)
  have step2: "pt_step lvl s l2 s2" by (rule pt_step_trans [OF step3 p2(1)])
  then have ok2: "pt_ok l2 s2" by (simp add: pt_step_def)
  have q2: "l2 q2 = 2" using p2(2) q3 by simp
  have run: "virtualAddrToPTE va flags s =
    (if getFlag LargerPages flags then Done (entry_addr (q2 + hhdm s) (?i 2)) s2
     else obind (next_table 154 (entry_addr (q2 + hhdm s) (?i 2)) s2) (\<lambda>t1 s. Done (entry_addr t1 (?i 1)) s))"
    using s3 s2 h3 by (simp add: virtualAddrToPTE_def root_virtual [OF ok root] Let_def)
  show ?thesis
  proof (cases "getFlag LargerPages flags")
    case True
    then have "L = 2" using L by (simp add: page_level_def)
    then show ?thesis using True run step2 p2(5) q2 c2 c3 rd
      by (intro exI [of _ l2] exI [of _ s2] exI [of _ q2]) (auto split: if_splits)
  next
    case False
    then have L1: "L = 1" using L by (simp add: page_level_def)
    let ?e = "ents s2 q2 (?i 2)"
    have "walk (ents s2) ?r 4 va = walk (ents s) ?r 4 va" by (rule pt_step_walk [OF step2 root])
    then have small: "\<not> (getFlag Present ?e \<and> getFlag LargerPages ?e)"
      using walk_slot [OF pt_ok_parts(3) [OF ok2] p2(3,5)] nolarge [OF L1, of ?e] root q2 by auto
    have rd2: "tables_ready L s2 ?r va" if "tables_ready L s ?r va" using c2 rd that by simp
    have b2': "tables_ready L s2 ?r va \<or> 4096 * Suc 0 \<le> unat (room s2)"
      using b2 L1 rd2 c3 c2 by (auto split: if_splits)
    obtain l1 s1 q1 where s1: "next_table 154 (entry_addr (q2 + hhdm s2) (?i 2)) s2 = Done (q1 + hhdm s2) s1"
      and p1: "pt_step l2 s2 l1 s1" "l2 q2 = Suc (l1 q1)" "(q1, table_index (l1 q1) va) \<in> set (path s1 ?r va)"
      and c1: "if tables_ready L s2 ?r va then s1 = s2 else unat (room s2) \<le> unat (room s1) + 4096"
      using budget_step [OF ok2 p2(3,5) _ _ _ b2', of 154] small q2 L1 by fastforce
    have q1: "l1 q1 = 1" and h1: "hhdm s2 = hhdm s" using p1(2) q2 p2(4) h3 by simp_all
    have c: "if tables_ready L s ?r va then s1 = s else unat (room s) \<le> unat (room s1) + 4096 * (4 - L)"
      using c3 c2 c1 rd rd2 L1 by (auto split: if_splits)
    show ?thesis using False run s1 h1 p1(3) q1 L1 c pt_step_trans [OF step2 p1(1)]
      by (intro exI [of _ l1] exI [of _ s1] exI [of _ q1]) simp
  qed
qed

section \<open>map\<close>

text \<open>The processor's translation of an address: the level and the entry of its leaf.\<close>

definition translate :: "'a paging_state_scheme \<Rightarrow> ptr \<Rightarrow> (nat \<times> u64) option" where
  "translate s va = walk (ents s) (PML4 s) 4 va"

definition same_page :: "nat \<Rightarrow> ptr \<Rightarrow> ptr \<Rightarrow> bool" where
  "same_page L va vb \<longleftrightarrow> (\<forall>k \<in> {L..4}. table_index k va = table_index k vb)"

lemma walk_level: "walk E f l va = Some (n, e) \<Longrightarrow> n \<le> l"
  by (induction l arbitrary: f) (auto simp: Let_def le_Suc_eq split: if_splits)

lemma walk_same_prefix:
  assumes "walk E f l va = Some (n, e)" "\<And>k. n \<le> k \<Longrightarrow> k \<le> l \<Longrightarrow> table_index k va = table_index k vb"
  shows "walk E f l vb = Some (n, e)"
  using assms
proof (induction l arbitrary: f)
  case (Suc l)
  let ?i = "table_index (Suc l) va"
  have n: "n \<le> Suc l"
    using Suc.prems(1) walk_level [of E f "Suc l" va n e] by simp
  then have i: "table_index (Suc l) vb = ?i" using Suc.prems(2) by simp
  show ?case
  proof (cases "getFlag Present (E f ?i) \<and> \<not> (l = 0 \<or> getFlag LargerPages (E f ?i))")
    case True
    then have "walk E (getAddress (E f ?i)) l va = Some (n, e)" using Suc.prems(1) by (simp add: Let_def)
    then have "walk E (getAddress (E f ?i)) l vb = Some (n, e)"
      by (rule Suc.IH) (use Suc.prems(2) in simp)
    then show ?thesis using True i by (simp add: Let_def)
  next
    case False
    then show ?thesis using Suc.prems(1) i by (auto simp: Let_def split: if_splits)
  qed
qed simp

lemma walk_same_page:
  "walk E r 4 va = Some (L, e) \<Longrightarrow> same_page L va vb \<Longrightarrow> walk E r 4 vb = Some (L, e)"
  by (rule walk_same_prefix [of E r 4 va L e vb]) (simp_all add: same_page_def)

definition ready :: "nat \<Rightarrow> 'a paging_state_scheme \<Rightarrow> ptr \<Rightarrow> bool" where
  "ready L s va \<longleftrightarrow> tables_ready L s (PML4 s) va"

text \<open>What \<open>map\<close> is asked to install: the flags it needs, an address field apart from the flags.\<close>

definition good_flags :: "u64 \<Rightarrow> bool" where
  "good_flags flags \<longleftrightarrow> getFlag Present flags \<and> flags AND ADDRESS_BITS = 0"

lemma leaf_entry:
  assumes "good_flags flags" and e_def: "e = setFlag flags True (setAddress pa e0)"
  shows "getFlag Present e" "getAddress e = pa AND ADDRESS_BITS" "e AND flags = flags"
    "getFlag LargerPages flags \<Longrightarrow> getFlag LargerPages e"
proof -
  have bits: "bit e k \<longleftrightarrow> bit flags k \<or> bit (setAddress pa e0) k" for k
    by (simp add: e_def bit_setFlag)
  show "e AND flags = flags" by (rule bit_word_eqI) (auto simp: bit_and_iff bits)
  then show "getFlag Present e" "getFlag LargerPages flags \<Longrightarrow> getFlag LargerPages e"
    using assms(1) bits unfolding good_flags_def getFlag_bits by blast+
  show "getAddress e = pa AND ADDRESS_BITS"
    using assms(1) by (simp add: e_def getAddress_setFlag getAddress_setAddress good_flags_def)
qed

lemma only_frames_parts:
  assumes "only_frames s t"
  shows "hhdm t = hhdm s"
  using assms by (simp add: only_frames_def)

lemma only_frames_paging:
  assumes "only_frames s t"
  shows "PML4 t = PML4 s" "kernelPML4 t = kernelPML4 s" "paging_hhdmOffset t = paging_hhdmOffset s"
    "paging_mutex t = paging_mutex s" "cr3 t = cr3 s" "paging_bootInformation t = paging_bootInformation s"
    "io_log t = io_log s" "limine_print t = limine_print s"
  by (subst conjunct2 [OF assms [unfolded only_frames_def]], simp)+

lemma map_page_step:
  assumes ok: "pt_ok lvl s" and root: "lvl (PML4 s) = 4" and flags: "good_flags flags"
    and L: "L = page_level flags"
    and nolarge: "\<forall>e. L = 1 \<longrightarrow> translate s va \<noteq> Some (2, e)"
    and room: "ready L s va \<or> 4096 * (4 - L) \<le> unat (room s)"
  shows "\<exists>lvl' s' e. map_page pa va flags s = Done True s' \<and> pt_ok lvl' s' \<and> lvl' (PML4 s') = 4 \<and>
    only_frames s s' \<and> same_on (below (next_free s) - table_area lvl s) (mem s') (mem s) \<and>
    translate s' va = Some (L, e) \<and> getAddress e = pa AND ADDRESS_BITS \<and> e AND flags = flags \<and>
    (\<forall>vb. \<not> same_page L va vb \<longrightarrow> translate s' vb = translate s vb) \<and>
    (\<forall>vb. same_page (Suc L) va vb \<longrightarrow> ready L s' vb) \<and> (\<forall>vb. ready L s vb \<longrightarrow> ready L s' vb) \<and>
    unat (room s) \<le> unat (room s') + (if ready L s va then 0 else 4096 * (4 - L))"
proof -
  let ?r = "PML4 s" and ?i = "table_index L va"
  have L12: "1 \<le> L" "L \<le> 2" "L = 2 \<longleftrightarrow> getFlag LargerPages flags" using L by (auto simp: page_level_def)
  obtain lvl' t f where run: "virtualAddrToPTE va flags s = Done (entry_addr (f + hhdm s) ?i) t"
    and step: "pt_step lvl s lvl' t" and f: "lvl' f = L" "(f, ?i) \<in> set (path t ?r va)"
    and cost: "if tables_ready L s ?r va then t = s else unat (room s) \<le> unat (room t) + 4096 * (4 - L)"
    using virtualAddrToPTE_spec [OF ok root L, of va] nolarge room unfolding translate_def ready_def by blast
  have ok': "pt_ok lvl' t" and root': "lvl' ?r = 4" and of1: "only_frames s t"
    using step root by (auto simp: pt_step_def)
  note parts = pt_ok_parts [OF ok'] and h = only_frames_parts [OF of1]
  let ?a = "entry_addr (f + hhdm s) ?i"
  define e where "e = setFlag flags True (setAddress pa (load64 (mem t) ?a))"
  note leaf = leaf_entry [OF flags e_def]
  let ?s = "t\<lparr>mem := store64 (mem t) ?a e\<rparr>"
  have fpl: "table_place t f" by (rule parts(4)) (use f L12 in auto)
  have "unat ?a \<noteq> 0"
    using entry_unat [OF fpl table_index_less] fpl h by (auto simp: table_place_def unat_eq_0)
  then have map: "map_page pa va flags s = Done True ?s"
    using run by (auto simp: map_page_def Let_def e_def)
  have lf: "lvl' f = 1 \<or> lvl' f = 2 \<and> getFlag LargerPages e" using f L12 leaf(4) by auto
  have st: "?s = t\<lparr>mem := store64 (mem t) (entry_addr (f + hhdm t) ?i) e\<rparr>" using h by simp
  note w = write_leaf_step [OF ok' lf table_index_less leaf(1) st]
  have of2: "only_frames s ?s" by (rule only_frames_trans [OF of1 w(2)])
  have P: "PML4 ?s = ?r" using only_frames_paging(1) [OF of1] by simp
  have tr: "translate ?s va = Some (L, e)" using w(6) [OF root' f(2)] P f(1) by (simp add: translate_def)
  have other: "translate ?s vb = translate s vb" if "\<not> same_page L va vb" for vb
  proof -
    have "(f, ?i) \<notin> set (path t ?r vb)"
    proof
      assume b: "(f, ?i) \<in> set (path t ?r vb)"
      have "table_index k va = table_index k vb" if "L \<le> k" "k \<le> 4" for k
        by (rule slots_shared [OF parts(3) root' f(2) b]) (use f(1) that in auto)
      then show False using that by (auto simp: same_page_def)
    qed
    from w(7) [OF root' this] show ?thesis
      using pt_step_walk [OF step root] P by (simp add: translate_def)
  qed
  have new: "ready L ?s vb" if "same_page (Suc L) va vb" for vb
  proof -
    have "(f, table_index (lvl' f) vb) \<in> set (path t ?r vb)"
      by (rule slots_same_prefix [OF parts(3) root', of f va])
        (use f that in \<open>auto simp: same_page_def\<close>)
    then have "(f, table_index (lvl' f) vb) \<in> set (path ?s ?r vb)"
      by (rule w(8) [OF root']) simp
    from slots_length [OF pt_ok_parts(3) [OF w(1)] root' this] show ?thesis
      using f(1) P by (simp add: ready_def tables_ready_def)
  qed
  have old: "ready L ?s vb" if "ready L s vb" for vb
  proof -
    have "4 - L < length (path s ?r vb)" using that by (simp add: ready_def tables_ready_def)
    then obtain g where g: "(g, table_index (lvl g) vb) \<in> set (path s ?r vb)" "lvl g = L"
      using slots_level [OF pt_ok_parts(3) [OF ok] root] L12 by fastforce
    have g': "lvl' g = L" using step g(2) L12 by (auto simp: pt_step_def)
    have "(g, table_index L vb) \<in> set (path t ?r vb)"
      by (rule slots_mono [OF pt_ok_parts(3) [OF ok] _ root g(1) [unfolded g(2)]])
        (use step in \<open>simp add: pt_step_def\<close>)
    then have "(g, table_index L vb) \<in> set (path ?s ?r vb)"
      by (rule w(8) [OF root']) (use f(1) g' in simp)
    from slots_length [OF pt_ok_parts(3) [OF w(1)] root' this] show ?thesis
      using g' P by (simp add: ready_def tables_ready_def)
  qed
  have "same_on (below (next_free s) - table_area lvl s) (mem ?s) (mem s)"
  proof (rule same_on_trans)
    have "below (next_free s) - table_area lvl s \<subseteq> below (next_free t) - table_area lvl' t"
      using step unfolding pt_step_def by blast
    then show "same_on (below (next_free s) - table_area lvl s) (mem ?s) (mem t)"
      by (rule same_on_subset [OF w(5)])
    show "same_on (below (next_free s) - table_area lvl s) (mem t) (mem s)"
      using step by (simp add: pt_step_def)
  qed
  moreover have "unat (room s) \<le> unat (room ?s) + (if ready L s va then 0 else 4096 * (4 - L))"
    using cost w(3) by (auto simp: ready_def split: if_splits)
  ultimately show ?thesis
    using map w(1) root' P of2 tr leaf(2,3) other new old
    by (intro exI [of _ lvl'] exI [of _ ?s] exI [of _ e]) simp
qed

section \<open>Page numbers\<close>

text \<open>The number of an address's page in the 48 bits the processor translates.\<close>

definition page_no :: "nat \<Rightarrow> ptr \<Rightarrow> nat" where
  "page_no L va = unat va mod 2 ^ 48 div 2 ^ (3 + 9 * L)"

lemma bit_table_index: "bit (table_index k va) i \<longleftrightarrow> i < 9 \<and> bit va (3 + 9 * k + i)"
proof -
  have m: "(0x1FF :: u64) = mask 9" by (simp add: mask_eq_exp_minus_1)
  show ?thesis
    unfolding table_index_def m using bit64_less [of va "3 + 9 * k + i"]
    by (auto simp: bit_simps ac_simps)
qed

lemma bit_page_no: "bit (page_no L va) i \<longleftrightarrow> i + (3 + 9 * L) < 48 \<and> bit va (i + (3 + 9 * L))"
proof -
  have "page_no L va = drop_bit (3 + 9 * L) (take_bit 48 (unat va))"
    by (simp add: page_no_def take_bit_eq_mod drop_bit_eq_div)
  then show ?thesis by (auto simp: bit_drop_bit_eq bit_take_bit_iff bit_unsigned_iff add.commute)
qed

lemma same_page_iff: "same_page L va vb \<longleftrightarrow> page_no L va = page_no L vb"
proof
  assume same: "same_page L va vb"
  have "bit va (i + (3 + 9 * L)) = bit vb (i + (3 + 9 * L))" if "i + (3 + 9 * L) < 48" for i
  proof -
    let ?k = "L + i div 9"
    have k: "?k \<in> {L..4}" using that by auto
    have "bit (table_index ?k va) (i mod 9) = bit (table_index ?k vb) (i mod 9)"
      using same k by (simp add: same_page_def)
    moreover have "3 + 9 * ?k + i mod 9 = i + (3 + 9 * L)"
      using mult_div_mod_eq [of 9 i] by (simp add: algebra_simps)
    ultimately show ?thesis by (simp add: bit_table_index)
  qed
  then show "page_no L va = page_no L vb" by (auto simp: bit_eq_iff bit_page_no)
next
  assume eq: "page_no L va = page_no L vb"
  have "bit (table_index k va) i = bit (table_index k vb) i" if k: "k \<in> {L..4}" for k i
  proof (cases "i < 9")
    case True
    have "bit (page_no L va) (9 * (k - L) + i) = bit (page_no L vb) (9 * (k - L) + i)" by (simp add: eq)
    moreover have "9 * (k - L) + i + (3 + 9 * L) = 3 + 9 * k + i" using k by auto
    ultimately show ?thesis using True k by (simp add: bit_page_no bit_table_index)
  qed (simp add: bit_table_index)
  then show "same_page L va vb" by (auto simp: same_page_def bit_eq_iff)
qed

section \<open>The contract of \<open>map\<close>\<close>

definition paging_ok :: "'a paging_state_scheme \<Rightarrow> bool" where
  "paging_ok s \<longleftrightarrow> (\<exists>lvl. pt_ok lvl s \<and> lvl (PML4 s) = 4)"

text \<open>A small page does not fit where a large page is mapped: \<open>map\<close> would take that for a table.\<close>

definition fits_page :: "u64 \<Rightarrow> 'a paging_state_scheme \<Rightarrow> ptr \<Rightarrow> bool" where
  "fits_page flags s va \<longleftrightarrow>
     getFlag LargerPages flags \<or> (case translate s va of Some (l, e) \<Rightarrow> l \<noteq> 2 | None \<Rightarrow> True)"

definition installs_page :: "u64 \<Rightarrow> u64 \<Rightarrow> nat \<times> u64 \<Rightarrow> bool" where
  "installs_page flags pa le \<longleftrightarrow> fst le = page_level flags \<and> getAddress (snd le) = pa AND ADDRESS_BITS \<and>
     snd le AND flags = flags"

lemma map_page_maps:
  assumes ok: "paging_ok s" and flags: "good_flags flags" and fits: "fits_page flags s va"
    and room: "ready (page_level flags) s va \<or> 4096 * (4 - page_level flags) \<le> unat (room s)"
  shows "\<exists>s' le. map_page pa va flags s = Done True s' \<and> paging_ok s' \<and> only_frames s s' \<and>
    translate s' va = Some le \<and> installs_page flags pa le \<and>
    (\<forall>vb. page_no (page_level flags) vb \<noteq> page_no (page_level flags) va \<longrightarrow> translate s' vb = translate s vb) \<and>
    (\<forall>vb. fits_page flags s vb \<longrightarrow> fits_page flags s' vb) \<and>
    (\<forall>vb. ready (page_level flags) s vb \<or> page_no (Suc (page_level flags)) vb = page_no (Suc (page_level flags)) va
       \<longrightarrow> ready (page_level flags) s' vb) \<and>
    unat (room s) \<le> unat (room s') + (if ready (page_level flags) s va then 0 else 4096 * (4 - page_level flags))"
proof -
  let ?L = "page_level flags"
  obtain lvl where lvl: "pt_ok lvl s" "lvl (PML4 s) = 4" using ok by (auto simp: paging_ok_def)
  have nolarge: "\<forall>e. ?L = 1 \<longrightarrow> translate s va \<noteq> Some (2, e)"
    using fits by (auto simp: fits_page_def page_level_def split: if_splits)
  obtain lvl' s' e where run: "map_page pa va flags s = Done True s'" "pt_ok lvl' s'" "lvl' (PML4 s') = 4"
    "only_frames s s'" "translate s' va = Some (?L, e)" "getAddress e = pa AND ADDRESS_BITS" "e AND flags = flags"
    and other: "\<forall>vb. \<not> same_page ?L va vb \<longrightarrow> translate s' vb = translate s vb"
    and rest: "\<forall>vb. same_page (Suc ?L) va vb \<longrightarrow> ready ?L s' vb" "\<forall>vb. ready ?L s vb \<longrightarrow> ready ?L s' vb"
      "unat (room s) \<le> unat (room s') + (if ready ?L s va then 0 else 4096 * (4 - ?L))"
    using map_page_step [OF lvl flags refl nolarge room, of pa]
    by (elim exE conjE) (rule that; assumption)
  have "fits_page flags s' vb" if "fits_page flags s vb" for vb
  proof (cases "same_page ?L va vb \<and> \<not> getFlag LargerPages flags")
    case True
    have "walk (ents s') (PML4 s') 4 vb = Some (?L, e)"
      by (rule walk_same_page [OF run(5) [unfolded translate_def]]) (use True in simp)
    then have "translate s' vb = Some (?L, e)" by (simp add: translate_def)
    then show ?thesis using True by (simp add: fits_page_def page_level_def)
  next
    case False
    then show ?thesis using that other by (auto simp: fits_page_def)
  qed
  then show ?thesis
    using run other rest lvl
    by (intro exI [of _ s'] exI [of _ "(?L, e)"]) (auto simp: same_page_iff installs_page_def paging_ok_def)
qed

text \<open>Whatever happens, \<open>map\<close> leaves the paging globals as they are.\<close>

definition keeps_paging :: "'a paging_state_scheme \<Rightarrow> 'a paging_state_scheme \<Rightarrow> bool" where
  "keeps_paging s t \<longleftrightarrow> PML4 t = PML4 s \<and> kernelPML4 t = kernelPML4 s \<and>
     paging_hhdmOffset t = paging_hhdmOffset s \<and> paging_mutex t = paging_mutex s \<and> cr3 t = cr3 s \<and>
     paging_bootInformation t = paging_bootInformation s"

lemma more_keeps_paging: "frame_state.more t = frame_state.more s \<Longrightarrow> keeps_paging s t"
  by (cases s; cases t) (simp add: keeps_paging_def)

lemma toVirtualAddr_more: "frame_state.more (snd (toVirtualAddr a s)) = frame_state.more s"
  by (simp add: toVirtualAddr_def refresh_bootInformation_def Let_def)

lemma alloc_init_more: "frame_state.more (alloc_init s) = frame_state.more s"
  by (simp add: alloc_init_def initFreeList_def Let_def split_beta toVirtualAddr_more)

lemma alloc_select_more: "alloc_select r s = Done b t \<Longrightarrow> frame_state.more t = frame_state.more s"
  by (auto simp: alloc_select_def outcome_dests split: if_splits)

lemma alloc_coalesce_more: "alloc_coalesce r s = Done b t \<Longrightarrow> frame_state.more t = frame_state.more s"
  by (auto simp: alloc_coalesce_def outcome_dests Let_def e9_print_def fold_putc_log split: if_splits)

lemma alloc_commit_more: "alloc_commit r b s = Done p t \<Longrightarrow> frame_state.more t = frame_state.more s"
  by (auto simp: alloc_commit_def Let_def toPhysicalAddr_def refresh_bootInformation_def setBootInfo_def
      split: if_splits)

lemma allocateFrame_more:
  assumes "allocateFrame n s = Done p t"
  shows "frame_state.more t = frame_state.more s"
proof -
  let ?s = "(alloc_init s)\<lparr>bootInformation := getBootInfo (alloc_init s),
    totalMemory := freeMemSize (memory (getBootInfo (alloc_init s)))\<rparr>"
  obtain b u where u: "alloc_select (roundUpToPageBoundary n) ?s = Done b u"
    "if b = 0 then obind (alloc_coalesce (roundUpToPageBoundary n) u)
       (\<lambda>b s. alloc_commit (roundUpToPageBoundary n) b s) = Done p t
     else alloc_commit (roundUpToPageBoundary n) b u = Done p t"
    using assms by (auto simp: allocateFrame_def Let_def outcome_dests split: if_splits)
  have "frame_state.more u = frame_state.more s"
    using alloc_select_more [OF u(1)] alloc_init_more [of s] by simp
  moreover have "frame_state.more t = frame_state.more u"
    using u(2) by (auto simp: outcome_dests dest!: alloc_commit_more alloc_coalesce_more split: if_splits)
  ultimately show ?thesis by simp
qed

lemma haltAndCatchFire_not_Done: "haltAndCatchFire f l msg s \<noteq> Done x t"
  by (simp add: haltAndCatchFire_def outcome_dests)

lemma getNextLevelPointer_more:
  "getNextLevelPointer entry a s = Done p t \<Longrightarrow> frame_state.more t = frame_state.more s"
  by (auto simp: getNextLevelPointer_def outcome_dests paging_error_def haltAndCatchFire_not_Done Let_def
      dest!: allocateFrame_more split: if_splits)

lemma next_table_more: "next_table line entry s = Done p t \<Longrightarrow> frame_state.more t = frame_state.more s"
  by (auto simp: next_table_def outcome_dests paging_error_def haltAndCatchFire_not_Done toVirtualAddr_def
      refresh_bootInformation_def Let_def dest!: getNextLevelPointer_more split: if_splits)

lemma virtualAddrToPTE_keeps:
  assumes "virtualAddrToPTE va flags s = Done p t"
  shows "keeps_paging s t"
proof (cases "PML4 s = 0")
  case True
  then show ?thesis using assms by (simp add: virtualAddrToPTE_def keeps_paging_def)
next
  case False
  let ?v = "toVirtualAddr (PML4 s) s"
  let ?s = "(snd ?v)\<lparr>PML4 := fst ?v\<rparr>"
  obtain t3 s3 where s3: "next_table 138 (entry_addr (fst ?v) (table_index 4 va)) ?s = Done t3 s3"
    using assms False by (auto simp: virtualAddrToPTE_def Let_def split_beta outcome_dests)
  let ?t = "s3\<lparr>PML4 := PML4 s\<rparr>"
  have "frame_state.more (snd ?v) = frame_state.more s" by (rule toVirtualAddr_more)
  then have "keeps_paging s (snd ?v)" by (rule more_keeps_paging)
  moreover have "keeps_paging ?s s3" by (rule more_keeps_paging [OF next_table_more [OF s3]])
  ultimately have k: "keeps_paging s ?t" by (simp add: keeps_paging_def)
  have "frame_state.more t = frame_state.more ?t"
    using assms False s3
    by (auto simp: virtualAddrToPTE_def Let_def split_beta outcome_dests dest!: next_table_more split: if_splits)
  then have "keeps_paging ?t t" by (rule more_keeps_paging)
  then show ?thesis using k by (simp add: keeps_paging_def)
qed

lemma map_page_keeps: "map_page pa va flags s = Done b t \<Longrightarrow> keeps_paging s t"
  by (auto simp: map_page_def outcome_dests keeps_paging_def Let_def dest!: virtualAddrToPTE_keeps split: if_splits)

lemma mapper_map_page:
  assumes "good_flags flags"
  shows "mapper (\<lambda>pa va. map_page pa va flags) paging_ok translate (installs_page flags) (fits_page flags)
    (ready (page_level flags)) (\<lambda>s. unat (room s)) (4096 * (4 - page_level flags))
    (page_no (page_level flags)) (page_no (Suc (page_level flags))) keeps_paging"
proof unfold_locales
  fix s t u :: "'a paging_state_scheme"
  show "keeps_paging s s" by (simp add: keeps_paging_def)
  show "keeps_paging s t \<Longrightarrow> keeps_paging t u \<Longrightarrow> keeps_paging s u" by (simp add: keeps_paging_def)
  show "map_page pa va flags s = Done b t \<Longrightarrow> keeps_paging s t" for pa va b by (rule map_page_keeps)
next
  fix s :: "'a paging_state_scheme" and va pa
  assume "paging_ok s" "fits_page flags s va"
    "ready (page_level flags) s va \<or> 4096 * (4 - page_level flags) \<le> unat (room s)"
  from map_page_maps [OF this(1) assms this(2,3), of pa] obtain s' le where
    1: "map_page pa va flags s = Done True s'" "paging_ok s'" "translate s' va = Some le" "installs_page flags pa le"
    and 2: "\<forall>vb. page_no (page_level flags) vb \<noteq> page_no (page_level flags) va \<longrightarrow> translate s' vb = translate s vb"
    and 3: "\<forall>vb. fits_page flags s vb \<longrightarrow> fits_page flags s' vb"
    and 4: "\<forall>vb. ready (page_level flags) s vb \<or> page_no (Suc (page_level flags)) vb = page_no (Suc (page_level flags)) va
       \<longrightarrow> ready (page_level flags) s' vb"
    and 5: "unat (room s) \<le> unat (room s') + (if ready (page_level flags) s va then 0 else 4096 * (4 - page_level flags))"
    by (elim exE conjE) (rule that; assumption)
  show "\<exists>s'. map_page pa va flags s = Done True s' \<and> paging_ok s' \<and>
    (\<exists>e. translate s' va = Some e \<and> installs_page flags pa e) \<and>
    unat (room s) \<le> unat (room s') + (if ready (page_level flags) s va then 0 else 4096 * (4 - page_level flags))"
    using 1 5 by blast
  fix b t vb assume "map_page pa va flags s = Done b t"
  then have t: "t = s'" using 1(1) by simp
  show "page_no (page_level flags) vb \<noteq> page_no (page_level flags) va \<Longrightarrow> translate t vb = translate s vb"
    using 2 t by blast
  show "fits_page flags s vb \<Longrightarrow> fits_page flags t vb" using 3 t by blast
  show "ready (page_level flags) s vb \<or> page_no (Suc (page_level flags)) vb = page_no (Suc (page_level flags)) va \<Longrightarrow>
    ready (page_level flags) t vb" using 4 t by blast
qed

text \<open>The two kinds of pages \<open>initPaging\<close> maps.\<close>

definition large_flags :: u64 where "large_flags = ReadWrite OR Present OR LargerPages"
definition small_flags :: u64 where "small_flags = ReadWrite OR Present"

lemma init_flags [simp]:
  "good_flags large_flags" "good_flags small_flags" "page_level large_flags = 2" "page_level small_flags = 1"
  "fits_page large_flags s va"
  by (simp_all add: good_flags_def page_level_def fits_page_def getFlag_def large_flags_def small_flags_def
      pte_flag_defs ADDRESS_BITS_def)

interpretation large_pages: mapper "\<lambda>pa va. map_page pa va large_flags" paging_ok translate
  "installs_page large_flags" "fits_page large_flags" "ready 2" "\<lambda>s. unat (room s)" 8192
  "page_no 2" "page_no 3" keeps_paging
  using mapper_map_page [of large_flags] by simp

interpretation small_pages: mapper "\<lambda>pa va. map_page pa va small_flags" paging_ok translate
  "installs_page small_flags" "fits_page small_flags" "ready 1" "\<lambda>s. unat (room s)" 12288
  "page_no 1" "page_no 2" keeps_paging
  using mapper_map_page [of small_flags] by (simp add: numeral_2_eq_2)

section \<open>A new root\<close>

text \<open>A zeroed frame is a root that translates nothing.\<close>

lemma new_root:
  assumes ok: "alloc_ok s" and small: "unat (next_free s) + unat (room s) \<le> unat (hhdm s) + 2 ^ 52"
    and r: "0x1000 \<le> room s"
  shows "\<exists>p s'. allocateFrame 0x1000 s = Done p s' \<and> s' = bump 0x1000 s \<and> p \<noteq> 0 \<and>
    pt_ok ((\<lambda>_. 0)(p := 4)) s' \<and> (\<forall>va. walk (ents s') p 4 va = None) \<and>
    unat (room s') = unat (room s) - 4096"
proof -
  let ?p = "next_free s - hhdm s" and ?s = "bump 0x1000 s"
  have "\<forall>f. (\<lambda>_. 0 :: nat) f \<noteq> 0 \<longrightarrow> table_place s f" by simp
  note new = new_frame [OF ok this small r]
  have zero: "ents ?s ?p j = 0" if "j < 512" for j using new(11) that by simp
  have f0: "\<not> getFlag b 0" for b by (simp add: getFlag_def)
  have "walk (ents ?s) ?p 4 va = None" for va
    by (simp add: zero table_index_less f0 eval_nat_numeral Let_def)
  moreover have "pt_ok ((\<lambda>_. 0)(?p := 4)) ?s"
    unfolding pt_ok_def
  proof (intro conjI allI impI)
    show "alloc_ok ?s" "boot_current ?s" using new(2,3) by simp_all
    show "unat (next_free ?s) + unat (room ?s) \<le> unat (hhdm ?s) + 2 ^ 52"
      using new(12) small by simp
    show "table_place ?s f" if "((\<lambda>_. 0)(?p := 4)) f \<noteq> (0 :: nat)" for f
      using that new(4) by (auto split: if_splits)
    show "tree_ok (ents ?s) ((\<lambda>_. 0)(?p := 4))"
      by (auto simp: tree_ok_def link_def zero f0 split: if_splits)
  qed
  moreover have "?p \<noteq> 0" using new(4) by (simp add: table_place_def)
  ultimately show ?thesis using new(1,13) by blast
qed

section \<open>Properties\<close>

lemma walk_below:
  "walk E f (Suc l) va = Some (n, e) \<Longrightarrow> n \<le> l \<Longrightarrow>
     getFlag Present (E f (table_index (Suc l) va)) \<and> \<not> getFlag LargerPages (E f (table_index (Suc l) va)) \<and>
     walk E (getAddress (E f (table_index (Suc l) va))) l va = Some (n, e)"
  by (auto simp: Let_def split: if_splits)

lemma walk_here:
  assumes "walk E f (Suc l) va = Some (Suc l, e)"
  shows "E f (table_index (Suc l) va) = e \<and> getFlag Present e"
proof -
  have "walk E g l va \<noteq> Some (Suc l, e)" for g using walk_level [of E g l va "Suc l" e] by auto
  then show ?thesis using assms by (auto simp: Let_def split: if_splits)
qed

text \<open>
  On the way down \<open>map\<close> does not look at \<open>LargerPages\<close>. Below a 2 MB page it takes the page's memory for a table and
  writes the entry there.
\<close>

lemma map_page_under_large:
  assumes ok: "pt_ok lvl s" and root: "lvl (PML4 s) = 4" and small: "\<not> getFlag LargerPages flags"
    and leaf: "translate s va = Some (2, e)" and e: "getAddress e \<noteq> 0" "unat (getAddress e) + unat (hhdm s) + 4096 \<le> 2 ^ 64"
  defines "a \<equiv> entry_addr (getAddress e + hhdm s) (table_index 1 va)"
  shows "map_page pa va flags s = Done True
    (s\<lparr>mem := store64 (mem s) a (setFlag flags True (setAddress pa (load64 (mem s) a)))\<rparr>)"
proof -
  let ?E = "ents s" and ?i = "\<lambda>k. table_index k va"
  let ?e4 = "?E (PML4 s) (?i 4)"
  let ?e3 = "?E (getAddress ?e4) (?i 3)"
  note down = walk_below [where n = 2 and e = e and va = va and E = ?E]
  have 4: "getFlag Present ?e4" "\<not> getFlag LargerPages ?e4" "walk ?E (getAddress ?e4) 3 va = Some (2, e)"
    using down [of "PML4 s" 3] leaf by (simp_all add: translate_def)
  have l4: "link ?E lvl (PML4 s) (?i 4)" using 4 root by (simp add: link_def table_index_less)
  have lvl3: "lvl (getAddress ?e4) = 3" using tree_link [OF pt_ok_parts(3) [OF ok] l4] root by simp
  have 3: "getFlag Present ?e3" "\<not> getFlag LargerPages ?e3" "walk ?E (getAddress ?e3) 2 va = Some (2, e)"
    using down [of "getAddress ?e4" 2] 4(3) by simp_all
  have l3: "link ?E lvl (getAddress ?e4) (?i 3)" using 3 lvl3 by (simp add: link_def table_index_less)
  have 2: "?E (getAddress ?e3) (?i 2) = e" "getFlag Present e"
    using walk_here [of ?E "getAddress ?e3" 1 va e] 3(3) by (simp_all add: numeral_2_eq_2)
  have r4: "next_table 138 (entry_addr (PML4 s + hhdm s) (?i 4)) (s\<lparr>PML4 := PML4 s + hhdm s\<rparr>) =
      Done (getAddress ?e4 + hhdm s) (s\<lparr>PML4 := PML4 s + hhdm s\<rparr>)"
    using next_table_present [of lvl "s\<lparr>PML4 := PML4 s + hhdm s\<rparr>" "PML4 s" "?i 4" 138] ok l4 by simp
  note r3 = next_table_present [OF ok l3, of 145]
  have v: "isValid e" using 2(2) e(1) by (simp add: isValid_iff)
  have "unat (getAddress e + hhdm s) = unat (getAddress e) + unat (hhdm s)"
    using e(2) by (intro unat64_add_nowrap) simp
  then have sum: "unat (getAddress e + hhdm s) = unat (getAddress e) + unat (hhdm s)" "getAddress e + hhdm s \<noteq> 0"
    using e(1) by (auto simp: unat_eq_0)
  have "getAddress e \<noteq> -1"
    using e(2) by (auto simp: unsigned_minus_1_eq_mask mask_eq_exp_minus_1)
  then have r2: "next_table 154 (entry_addr (getAddress ?e3 + hhdm s) (?i 2)) s = Done (getAddress e + hhdm s) s"
    using v sum(2) e(1) 2(1) toVirtualAddr_current [OF pt_ok_parts(2) [OF ok]]
    by (simp add: next_table_def getNextLevelPointer_def ents_def)
  have "unat (?i 1) < 512" using table_index_less [of 1 va] by (simp add: word_less_nat_alt)
  moreover have "unat (8 * ?i 1) = 8 * unat (?i 1)"
    using calculation by (subst unat_mult_lem [THEN iffD1]) simp_all
  ultimately have "unat (8 * ?i 1) < 4096" by linarith
  then have "unat a = unat (getAddress e + hhdm s) + unat (8 * ?i 1)"
    unfolding a_def entry_addr_def using sum(1) e(2) by (intro unat64_add_nowrap) simp
  then have "a \<noteq> 0" using sum(2) by (auto simp: unat_eq_0)
  then show ?thesis
    using r4 r3 r2 small
    by (simp add: map_page_def virtualAddrToPTE_def root_virtual [OF ok root] Let_def a_def)
qed


text \<open>Page tables with a root and nothing else, in the first frame at 16 MB.\<close>

definition empty_sample :: paging_state where
  "empty_sample = frame_state.extend (frame_state.truncate frame_sample)
     (paging_state.fields 0 0 zero_bootInfo 0xFFFF800000000000 0 0)"

definition paging_sample :: paging_state where
  "paging_sample = (bump 0x1000 empty_sample)\<lparr>PML4 := 0x1000000\<rparr>"

lemma paging_sample_ok:
  "pt_ok ((\<lambda>_. 0)(0x1000000 := 4)) paging_sample" "translate paging_sample va = None"
  "unat (room paging_sample) = 0xFF000" "PML4 paging_sample = 0x1000000" "hhdm paging_sample = 0xFFFF800000000000"
proof -
  have e: "alloc_ok empty_sample" "room empty_sample = 0x100000" "next_free empty_sample = 0xFFFF800001000000"
    "hhdm empty_sample = 0xFFFF800000000000"
    by (simp_all add: empty_sample_def frame_state.defs paging_state.defs frame_sample_def alloc_ok_def
        next_free_def room_def hhdm_def zero_bootInfo_def zero_Memory_def page_aligned_def)
  have small: "unat (next_free empty_sample) + unat (room empty_sample) \<le> unat (hhdm empty_sample) + 2 ^ 52"
    by (simp add: e)
  have p: "next_free empty_sample - hhdm empty_sample = 0x1000000" by (simp add: e)
  obtain p s' where r: "allocateFrame 0x1000 empty_sample = Done p s'" "s' = bump 0x1000 empty_sample"
    "pt_ok ((\<lambda>_. 0)(p := 4)) s'" "\<forall>va. walk (ents s') p 4 va = None"
    "unat (room s') = unat (room empty_sample) - 4096"
    using new_root [OF e(1) small] by (auto simp: e)
  have "p = 0x1000000"
    using r(1) allocateFrame_eq [OF e(1) refl, of "0x1000"] p by (simp add: e)
  then show "pt_ok ((\<lambda>_. 0)(0x1000000 := 4)) paging_sample" "translate paging_sample va = None"
    "unat (room paging_sample) = 0xFF000" "PML4 paging_sample = 0x1000000"
    "hhdm paging_sample = 0xFFFF800000000000"
    using r(2-5) e by (simp_all add: paging_sample_def translate_def)
qed


end
