(* ===== verification/Kernel_Space.thy ===== *)
theory Kernel_Space
  imports Page_Map
begin

text \<open>
  The address space \<open>initPaging\<close> builds: the physical address a translation stands for, the loop that
  maps the first 4 GB twice, and \<open>newPML4\<close>.
\<close>

section \<open>Physical addresses\<close>

text \<open>The physical address behind a virtual one, for a leaf of a level.\<close>

definition physical_address :: "nat \<times> u64 \<Rightarrow> ptr \<Rightarrow> u64" where
  "physical_address leaf va = (case leaf of (l, e) \<Rightarrow>
     (getAddress e AND NOT (mask (3 + 9 * l))) OR (va AND mask (3 + 9 * l)))"

definition maps_to :: "'a paging_state_scheme \<Rightarrow> ptr \<Rightarrow> u64 \<Rightarrow> bool" where
  "maps_to s va pa \<longleftrightarrow> map_option (\<lambda>leaf. physical_address leaf va) (translate s va) = Some pa"

text \<open>All addresses of a mapped page go to the frame the page was mapped to.\<close>

lemma maps_to_page:
  assumes "translate s k = Some le" "installs_page flags pa le" "page_no (page_level flags) va = page_no (page_level flags) k"
    and "pa AND ADDRESS_BITS = pa" "pa AND mask (3 + 9 * page_level flags) = 0"
  shows "maps_to s va (pa OR (va AND mask (3 + 9 * page_level flags)))"
proof -
  obtain e where le: "le = (page_level flags, e)" "getAddress e = pa"
    using assms(2,4) by (cases le) (simp add: installs_page_def)
  have "same_page (page_level flags) k va" using assms(3) by (simp add: same_page_iff)
  then have "translate s va = Some le"
    using walk_same_page [of "ents s" "PML4 s" k "page_level flags" e va] assms(1) le(1)
    by (simp add: translate_def)
  moreover have "pa AND NOT (mask (3 + 9 * page_level flags)) = pa"
    using assms(5) by (auto simp: bit_eq_iff bit_simps)
  ultimately show ?thesis using le by (simp add: maps_to_def physical_address_def)
qed

lemma page_no_2: "page_no 2 va = page_no 1 va div 512"
  using div_mult2_eq [of "unat va mod 2 ^ 48" 4096 512] by (simp add: page_no_def)

section \<open>The first 4 GB\<close>

text \<open>
  The higher-half offset the boot loader gives: a multiple of 1 GB, and the 4 GB from there on do not
  meet the first 4 GB and do not wrap around in the 48 bits the processor translates.
\<close>

definition offset_ok :: "u64 \<Rightarrow> bool" where
  "offset_ok off \<longleftrightarrow> 2 ^ 30 dvd unat off \<and> 2 ^ 32 \<le> unat off mod 2 ^ 48 \<and> unat off mod 2 ^ 48 + 2 ^ 32 \<le> 2 ^ 48"

lemma page_no_low: "unat x < 2 ^ 32 \<Longrightarrow> page_no L x = unat x div 2 ^ (3 + 9 * L)"
  by (simp add: page_no_def)

lemma unat_off_mod:
  fixes x off :: u64
  assumes "unat x + unat off mod 2 ^ 48 < 2 ^ 48"
  shows "unat (x + off) mod 2 ^ 48 = unat x + unat off mod 2 ^ 48"
proof -
  have "unat (x + off) mod 2 ^ 48 = (unat x + unat off) mod 2 ^ 64 mod 2 ^ 48"
    by (simp add: unat_word_ariths take_bit_eq_mod)
  also have "\<dots> = (unat x + unat off) mod 2 ^ 48" by (rule mod_mod_cancel) (simp add: le_imp_power_dvd)
  also have "\<dots> = (unat x + unat off mod 2 ^ 48) mod 2 ^ 48" by (simp add: mod_simps)
  also have "\<dots> = unat x + unat off mod 2 ^ 48" by (rule mod_less) (rule assms)
  finally show ?thesis .
qed

lemma page_no_off:
  assumes "offset_ok off" "unat x + unat off mod 2 ^ 48 < 2 ^ 48" "3 + 9 * L \<le> 30"
  shows "page_no L (x + off) = unat x div 2 ^ (3 + 9 * L) + page_no L off"
proof -
  have "(2 :: nat) ^ 30 dvd unat off mod 2 ^ 48"
    using assms(1) by (simp add: offset_ok_def dvd_mod)
  then have "2 ^ (3 + 9 * L) dvd unat off mod 2 ^ 48"
    by (rule dvd_trans [OF le_imp_power_dvd [OF assms(3)]])
  then show ?thesis
    unfolding page_no_def unat_off_mod [OF assms(2)] by (simp add: div_plus_div_distrib_dvd_right)
qed

lemma page_no_high:
  assumes "offset_ok off" "unat x < 2 ^ 32" "3 + 9 * L \<le> 30"
  shows "page_no L (x + off) = unat x div 2 ^ (3 + 9 * L) + page_no L off"
  by (rule page_no_off [OF assms(1) _ assms(3)]) (use assms(1,2) in \<open>simp add: offset_ok_def\<close>)

definition low_list :: "u64 \<Rightarrow> u64 \<Rightarrow> (u64 \<times> ptr) list" where
  "low_list off k = [(k, k), (k, k + off)]"

definition low_starts :: "u64 list" where
  "low_starts = map (\<lambda>i. 0 + of_nat i * (2 * ONE_MB)) [0..<2048]"

lemma low_start_unat: "i < 2048 \<Longrightarrow> unat (of_nat i * (2 * ONE_MB)) = i * 2 ^ 21"
proof -
  assume "i < 2048"
  then have "unat (of_nat (i * 2097152) :: u64) = i * 2097152" by (intro unat64_of_nat) simp
  then show ?thesis by (simp add: ONE_MB_def)
qed

lemma init_low_body_eq:
  assumes "paging_hhdmOffset t = off"
  shows "init_low_body k t = map_many (\<lambda>pa va. map_page pa va large_flags) (low_list off k) t"
proof (cases "map_page k k large_flags t")
  case (Done b t')
  then have "paging_hhdmOffset t' = off" using map_page_keeps [OF Done] assms by (simp add: keeps_paging_def)
  then show ?thesis using Done
    by (cases "map_page k (k + off) large_flags t'")
      (simp_all add: init_low_body_def low_list_def large_flags_def)
qed (simp_all add: init_low_body_def low_list_def large_flags_def)

lemma init_low_eq:
  "init_low s = for_each init_low_body low_starts s"
proof -
  have e: "4 * ONE_GB = 0 + of_nat 2048 * (2 * ONE_MB)" by (simp add: ONE_GB_def ONE_MB_def)
  have f: "unat (0 :: u64) + 2048 * unat (2 * ONE_MB) < 18446744073709551616" "0 < unat (2 * ONE_MB)"
    by (simp_all add: ONE_MB_def)
  show ?thesis unfolding init_low_def low_starts_def e by (rule for_range_each [OF f])
qed

lemma low_pages:
  assumes "offset_ok off" "i < 2048"
  defines "k \<equiv> of_nat i * (2 * ONE_MB)"
  shows "page_no 2 k = i" "page_no 2 (k + off) = i + page_no 2 off"
    "page_no 3 k = i div 512" "page_no 3 (k + off) = i div 512 + page_no 3 off"
proof -
  have k: "unat k = i * 2 ^ 21" unfolding k_def by (rule low_start_unat [OF assms(2)])
  then have lt: "unat k < 2 ^ 32" using assms(2) by simp
  show "page_no 2 k = i" "page_no 3 k = i div 512"
    using page_no_low [OF lt, of 2] page_no_low [OF lt, of 3] k by simp_all
  show "page_no 2 (k + off) = i + page_no 2 off" "page_no 3 (k + off) = i div 512 + page_no 3 off"
    using page_no_high [OF assms(1) lt, of 2] page_no_high [OF assms(1) lt, of 3] k by simp_all
qed

lemma distinct_pairs: "n \<le> d \<Longrightarrow> distinct (concat (map (\<lambda>i. [i, i + d]) [0..<n]))"
  for d :: nat
  by (induction n) auto

lemma offset_page: "offset_ok off \<Longrightarrow> 2048 \<le> page_no 2 off"
  using div_le_mono [of "2 ^ 32" "unat off mod 2 ^ 48" "2 ^ 21"] by (simp add: offset_ok_def page_no_def)

lemma low_xs:
  assumes off: "offset_ok off"
  defines "xs \<equiv> concat (map (low_list off) low_starts)"
  shows "map (page_no 2 \<circ> snd) xs = concat (map (\<lambda>i. [i, i + page_no 2 off]) [0..<2048])"
    and "page_no 3 ` snd ` set xs \<subseteq> {0..<4} \<union> {page_no 3 off..<page_no 3 off + 4}"
    and "i < 2048 \<Longrightarrow> (of_nat i * (2 * ONE_MB), of_nat i * (2 * ONE_MB)) \<in> set xs \<and>
      (of_nat i * (2 * ONE_MB), of_nat i * (2 * ONE_MB) + off) \<in> set xs"
proof -
  have xs: "xs = concat (map (\<lambda>i. low_list off (of_nat i * (2 * ONE_MB))) [0..<2048])"
    by (simp add: xs_def low_starts_def comp_def)
  have "map (page_no 2 \<circ> snd) xs =
      concat (map (\<lambda>i. map (page_no 2 \<circ> snd) (low_list off (of_nat i * (2 * ONE_MB)))) [0..<2048])"
    unfolding xs map_concat map_map by (simp add: comp_def)
  also have "\<dots> = concat (map (\<lambda>i. [i, i + page_no 2 off]) [0..<2048])"
    by (intro arg_cong [where f = concat] map_cong refl) (simp add: low_list_def low_pages [OF off])
  finally show "map (page_no 2 \<circ> snd) xs = concat (map (\<lambda>i. [i, i + page_no 2 off]) [0..<2048])" .
  show "page_no 3 ` snd ` set xs \<subseteq> {0..<4} \<union> {page_no 3 off..<page_no 3 off + 4}"
    unfolding xs by (auto simp: low_list_def low_pages [OF off])
  show "(of_nat i * (2 * ONE_MB), of_nat i * (2 * ONE_MB)) \<in> set xs \<and>
      (of_nat i * (2 * ONE_MB), of_nat i * (2 * ONE_MB) + off) \<in> set xs" if "i < 2048"
    unfolding xs using that by (auto simp: low_list_def intro!: bexI [of _ i])
qed

lemma bit_2MB:
  assumes "i < 2048"
  shows "(of_nat i * (2 * ONE_MB) :: u64) = push_bit 21 (of_nat i)"
  by (simp add: ONE_MB_def push_bit_eq_mult)

lemma low_round:
  assumes "unat va < 2 ^ 32"
  defines "i \<equiv> unat va div 2 ^ 21"
  shows "i < 2048" "of_nat i * (2 * ONE_MB) = va AND NOT (mask 21)"
    "(va AND NOT (mask 21)) AND ADDRESS_BITS = va AND NOT (mask 21)"
proof -
  show i: "i < 2048" using assms(1) unfolding i_def by (simp add: less_mult_imp_div_less)
  show "of_nat i * (2 * ONE_MB) = va AND NOT (mask 21)"
    using low_start_unat [OF i] unat_and_not_mask [of va 21] by (simp add: word_unat_eq_iff i_def)
  have "\<not> bit va k" if "32 \<le> k" for k
  proof -
    have "unat va < 2 ^ k" using assms(1) power_increasing [OF that, of "2 :: nat"] by linarith
    then have "\<not> bit (unat va) k" by (simp add: bit_iff_odd)
    then show ?thesis by (simp add: bit_unsigned_iff)
  qed
  then show "(va AND NOT (mask 21)) AND ADDRESS_BITS = va AND NOT (mask 21)"
    by (auto simp: bit_eq_iff bit_simps not_le [symmetric])
qed

lemma unat_and_mask: "unat (x AND mask n :: u64) = unat x mod 2 ^ n"
  by (simp only: take_bit_eq_mask [symmetric] unsigned_take_bit_eq) (simp add: take_bit_eq_mod)

lemma add_off_mask:
  assumes "offset_ok off" "p \<le> 30"
  shows "(va + off) AND mask p = va AND mask p"
proof -
  have off: "unat off mod 2 ^ p = 0"
    using dvd_trans [OF le_imp_power_dvd [OF assms(2)], of 2 "unat off"] assms(1) by (simp add: offset_ok_def)
  have "unat (va + off) mod 2 ^ p = (unat va + unat off) mod 2 ^ 64 mod 2 ^ p"
    by (simp add: unat_word_ariths take_bit_eq_mod)
  also have "\<dots> = (unat va + unat off) mod 2 ^ p"
    using assms(2) le_imp_power_dvd [of p 64 "2 :: nat"] by (intro mod_mod_cancel) simp
  also have "\<dots> = unat va mod 2 ^ p" using off by (metis add.right_neutral mod_add_right_eq)
  finally show ?thesis by (simp add: word_unat_eq_iff unat_and_mask)
qed

lemma init_low_maps:
  assumes ok: "paging_ok s" and off: "offset_ok off" "paging_hhdmOffset s = off"
    and room: "65536 \<le> unat (room s)"
  shows "\<exists>s'. init_low s = Done () s' \<and> paging_ok s' \<and> keeps_paging s s' \<and>
    unat (room s) \<le> unat (room s') + 65536 \<and>
    (\<forall>va. unat va < 2 ^ 32 \<longrightarrow> maps_to s' va va \<and> maps_to s' (va + off) va) \<and>
    (\<forall>vb. page_no 2 vb \<notin> {0..<2048} \<union> {page_no 2 off..<page_no 2 off + 2048} \<longrightarrow>
      translate s' vb = translate s vb)"
proof -
  let ?xs = "concat (map (low_list off) low_starts)"
  note xs = low_xs [OF off(1)]
  have "card (large_pages.missing s ?xs) \<le> card ({0..<4} \<union> {page_no 3 off..<page_no 3 off + 4})"
    using xs(2) unfolding large_pages.missing_def by (intro card_mono) auto
  also have "\<dots> \<le> card {0..<4 :: nat} + card {page_no 3 off..<page_no 3 off + 4}" by (rule card_Un_le)
  finally have c: "card (large_pages.missing s ?xs) \<le> 8" by simp
  then have "8192 * card (large_pages.missing s ?xs) \<le> unat (room s)" using room by simp
  moreover have "distinct (map (page_no 2 \<circ> snd) ?xs)"
    unfolding xs(1) by (rule distinct_pairs) (rule offset_page [OF off(1)])
  moreover have "\<forall>va \<in> snd ` set ?xs. fits_page large_flags s va" by simp
  ultimately obtain s' where s': "map_many (\<lambda>pa va. map_page pa va large_flags) ?xs s = Done () s'"
    "paging_ok s'" "keeps_paging s s'"
    and inst: "\<forall>(pa, va) \<in> set ?xs. \<exists>e. translate s' va = Some e \<and> installs_page large_flags pa e"
    and other: "\<forall>vb. page_no 2 vb \<notin> (page_no 2 \<circ> snd) ` set ?xs \<longrightarrow> translate s' vb = translate s vb"
    and left: "unat (room s) \<le> unat (room s') + 8192 * card (large_pages.missing s ?xs)"
    using large_pages.map_many_maps [OF ok] by blast
  have "for_each init_low_body low_starts s = Done () s'"
    by (rule large_pages.for_each_map_many [OF init_low_body_eq s'(1)])
      (simp add: keeps_paging_def off(2))
  then have run: "init_low s = Done () s'" by (simp add: init_low_eq)
  have maps: "maps_to s' va va \<and> maps_to s' (va + off) va" if va: "unat va < 2 ^ 32" for va
  proof -
    let ?i = "unat va div 2 ^ 21"
    let ?k = "of_nat ?i * (2 * ONE_MB) :: u64"
    note lr = low_round [OF va] and lp = low_pages [OF off(1) low_round(1) [OF va]]
    have p: "?k AND ADDRESS_BITS = ?k" "?k AND mask 21 = 0"
      unfolding lr(2) by (rule lr(3)) (simp add: bit_eq_iff bit_simps)
    have join: "?k OR (va AND mask 21) = va" unfolding lr(2) by (auto simp: bit_eq_iff bit_simps)
    obtain e1 where "translate s' ?k = Some e1" "installs_page large_flags ?k e1"
      using inst xs(3) [OF lr(1)] by blast
    moreover have "page_no (page_level large_flags) va = page_no (page_level large_flags) ?k"
      using lp(1) page_no_low [OF va, of 2] by simp
    ultimately have 1: "maps_to s' va (?k OR (va AND mask 21))"
      using maps_to_page [of s' ?k e1 large_flags ?k va] p by simp
    obtain e2 where "translate s' (?k + off) = Some e2" "installs_page large_flags ?k e2"
      using inst xs(3) [OF lr(1)] by blast
    moreover have "page_no (page_level large_flags) (va + off) = page_no (page_level large_flags) (?k + off)"
      using lp(2) page_no_high [OF off(1) va, of 2] by simp
    ultimately have 2: "maps_to s' (va + off) (?k OR (va AND mask 21))"
      using maps_to_page [of s' "?k + off" e2 large_flags ?k "va + off"] p add_off_mask [OF off(1), of 21] by simp
    show ?thesis using 1 2 unfolding join by blast
  qed
  have "(page_no 2 \<circ> snd) ` set ?xs = set (concat (map (\<lambda>i. [i, i + page_no 2 off]) [0..<2048]))"
    unfolding xs(1) [symmetric] by (simp only: set_map image_comp)
  then have sub: "(page_no 2 \<circ> snd) ` set ?xs \<subseteq> {0..<2048} \<union> {page_no 2 off..<page_no 2 off + 2048}"
    by auto
  have "unat (room s) \<le> unat (room s') + 65536" using left c by linarith
  then show ?thesis using run s'(2,3) maps other sub by blast
qed

section \<open>Ranges of the higher half\<close>

text \<open>
  The pages of a range of physical addresses, \<open>n\<close> pages of \<open>2 ^ p\<close> bytes from \<open>b\<close> on, each at its address
  plus the offset.
\<close>

definition range_page :: "nat \<Rightarrow> u64 \<Rightarrow> nat \<Rightarrow> u64" where
  "range_page p b i = b + of_nat i * 2 ^ p"

definition range_list :: "nat \<Rightarrow> u64 \<Rightarrow> u64 \<Rightarrow> nat \<Rightarrow> (u64 \<times> ptr) list" where
  "range_list p off b n = map (\<lambda>i. (range_page p b i, range_page p b i + off)) [0..<n]"

lemma range_page_unat:
  assumes "unat b + n * 2 ^ p < 2 ^ 48" "i < n" "p \<le> 30"
  shows "unat (range_page p b i) = unat b + i * 2 ^ p"
proof -
  have "i * 2 ^ p \<le> n * 2 ^ p" using assms(2) by simp
  then have lt: "unat b + i * 2 ^ p < 2 ^ 48" using assms(1) by linarith
  then have "unat (of_nat (i * 2 ^ p) :: u64) = i * 2 ^ p" by (intro unat64_of_nat) simp
  then have "unat (of_nat i * 2 ^ p :: u64) = i * 2 ^ p" by simp
  then show ?thesis unfolding range_page_def using lt by (subst unat64_add_nowrap) simp_all
qed

lemma range_page_at:
  assumes "unat b + n * 2 ^ p < 2 ^ 48" "2 ^ p dvd unat b" "p \<le> 30" "unat b \<le> unat pa" "unat pa < unat b + n * 2 ^ p"
  defines "i \<equiv> (unat pa - unat b) div 2 ^ p"
  shows "i < n" "range_page p b i = pa AND NOT (mask p)" "unat pa div 2 ^ p = unat b div 2 ^ p + i"
proof -
  have "unat pa - unat b < n * 2 ^ p" using assms(4,5) by linarith
  then show i: "i < n" unfolding i_def by (simp add: less_mult_imp_div_less)
  obtain B where B: "unat b = B * 2 ^ p" using assms(2) by (auto simp: dvd_def mult.commute)
  have pa: "unat pa = B * 2 ^ p + (unat pa - unat b)" using B assms(4) by simp
  have "unat pa div 2 ^ p = B + i" unfolding i_def by (subst pa) simp
  then show d: "unat pa div 2 ^ p = unat b div 2 ^ p + i" by (simp add: B)
  have "unat (pa AND NOT (mask p)) = (B + i) * 2 ^ p" using d by (simp add: unat_and_not_mask B)
  also have "\<dots> = unat (range_page p b i)"
    using range_page_unat [OF assms(1) i assms(3)] by (simp add: B algebra_simps)
  finally show "range_page p b i = pa AND NOT (mask p)" by (simp add: word_unat_eq_iff)
qed

lemma range_groups:
  assumes "\<And>i. i < n \<Longrightarrow> f i = c + (B + i) div 512"
  shows "card (f ` {i. i < n \<and> Q i}) \<le> n div 512 + 2"
proof -
  have "f ` {i. i < n \<and> Q i} \<subseteq> {c + B div 512..c + (B + n) div 512}"
    using assms by (auto simp: div_le_mono)
  then have "card (f ` {i. i < n \<and> Q i}) \<le> card {c + B div 512..c + (B + n) div 512}" by (intro card_mono) auto
  also have "\<dots> \<le> n div 512 + 2"
  proof -
    have "(B + n) div 512 = B div 512 + n div 512 + (B mod 512 + n mod 512) div 512" by (rule div_add1_eq)
    moreover have "(B mod 512 + n mod 512) div 512 < 2" by (simp add: less_mult_imp_div_less)
    ultimately show ?thesis by simp
  qed
  finally show ?thesis .
qed

lemma range_page_nos:
  assumes "offset_ok off" "p = 3 + 9 * L" "L \<le> 2" "2 ^ p dvd unat b" "unat off mod 2 ^ 48 + unat b + n * 2 ^ p \<le> 2 ^ 48" "i < n"
  shows "page_no L (range_page p b i + off) = page_no L off + unat b div 2 ^ p + i"
    "page_no (Suc L) (range_page p b i + off) = page_no (Suc L) off + (unat b div 2 ^ p + i) div 512"
proof -
  have pos: "0 < unat off mod 2 ^ 48" using assms(1) by (simp add: offset_ok_def)
  then have lt: "unat b + n * 2 ^ p < 2 ^ 48" using assms(5) by linarith
  have u: "unat (range_page p b i) = unat b + i * 2 ^ p"
    using range_page_unat [OF lt assms(6)] assms(2,3) by simp
  have "Suc i * 2 ^ p \<le> n * 2 ^ p" using assms(6) by (intro mult_le_mono1) simp
  then have "unat b + i * 2 ^ p + 2 ^ p \<le> unat b + n * 2 ^ p" by simp
  moreover have "0 < (2 :: nat) ^ p" by simp
  ultimately have s: "unat (range_page p b i) + unat off mod 2 ^ 48 < 2 ^ 48" unfolding u using assms(5) by linarith
  obtain B where B: "unat b = B * 2 ^ p" using assms(4) by (auto simp: dvd_def mult.commute)
  have d: "unat (range_page p b i) div 2 ^ p = B + i" unfolding u B by (simp add: distrib_right [symmetric])
  show "page_no L (range_page p b i + off) = page_no L off + unat b div 2 ^ p + i"
    using page_no_off [OF assms(1) s, of L] assms(2,3) d B by simp
  have e: "(2 :: nat) ^ (3 + 9 * Suc L) = 2 ^ p * 512" by (simp add: assms(2) power_add)
  have "unat (range_page p b i) div 2 ^ (3 + 9 * Suc L) = (B + i) div 512"
    unfolding e div_mult2_eq d ..
  then show "page_no (Suc L) (range_page p b i + off) = page_no (Suc L) off + (unat b div 2 ^ p + i) div 512"
    using page_no_off [OF assms(1) s, of "Suc L"] assms(3) B by simp
qed

lemma map_range:
  assumes ok: "paging_ok s" and off: "offset_ok off" and flags: "good_flags flags" and L: "L = page_level flags" "1 \<le> L" "L \<le> 2"
    and p: "p = 3 + 9 * L" and al: "2 ^ p dvd unat b" and fit: "unat off mod 2 ^ 48 + unat b + n * 2 ^ p \<le> 2 ^ 48"
    and fits: "\<And>i. i < n \<Longrightarrow> fits_page flags s (range_page p b i + off)"
    and room: "4096 * (4 - L) * (n div 512 + 2) \<le> unat (room s)"
  shows "\<exists>s'. map_many (\<lambda>pa va. map_page pa va flags) (range_list p off b n) s = Done () s' \<and> paging_ok s' \<and>
    keeps_paging s s' \<and> unat (room s) \<le> unat (room s') + 4096 * (4 - L) * (n div 512 + 2) \<and>
    (\<forall>pa. unat b \<le> unat pa \<and> unat pa < unat b + n * 2 ^ p \<longrightarrow> maps_to s' (pa + off) pa) \<and>
    (\<forall>va. page_no L va \<notin> {page_no L off + unat b div 2 ^ p..<page_no L off + unat b div 2 ^ p + n} \<longrightarrow>
      translate s' va = translate s va)"
proof -
  let ?xs = "range_list p off b n" and ?B = "unat b div 2 ^ p" and ?c = "4096 * (4 - L)"
  have p30: "p \<le> 30" and p12: "12 \<le> p" using p L(2,3) by simp_all
  note pn = range_page_nos [OF off p L(3) al fit]
  note mapper = mapper_map_page [OF flags, folded L(1)]
  let ?miss = "mapper.missing (ready L) (page_no (Suc L)) s ?xs"
  have "map (page_no L \<circ> snd) ?xs = map (\<lambda>i. page_no L off + ?B + i) [0..<n]"
    by (simp add: range_list_def pn(1))
  then have dist: "distinct (map (page_no L \<circ> snd) ?xs)" by (simp add: distinct_map)
  have f: "\<forall>va \<in> snd ` set ?xs. fits_page flags s va" using fits by (auto simp: range_list_def)
  have "?miss = (\<lambda>i. page_no (Suc L) (range_page p b i + off)) ` {i. i < n \<and> \<not> ready L s (range_page p b i + off)}"
    unfolding mapper.missing_def [OF mapper] by (auto simp: range_list_def image_image intro!: imageI)
  then have "card ?miss \<le> n div 512 + 2" using range_groups [OF pn(2)] by simp
  then have cost: "?c * card ?miss \<le> ?c * (n div 512 + 2)" by (rule mult_le_mono2)
  then have "?c * card ?miss \<le> unat (room s)" using room by (rule le_trans)
  from mapper.map_many_maps [OF mapper ok f dist this] obtain s'
    where s': "map_many (\<lambda>pa va. map_page pa va flags) ?xs s = Done () s'" "paging_ok s'" "keeps_paging s s'"
    and inst: "\<forall>(pa, va) \<in> set ?xs. \<exists>e. translate s' va = Some e \<and> installs_page flags pa e"
    and other: "\<forall>vb. page_no L vb \<notin> (page_no L \<circ> snd) ` set ?xs \<longrightarrow> translate s' vb = translate s vb"
    and left: "unat (room s) \<le> unat (room s') + ?c * card ?miss"
    by blast
  have maps: "maps_to s' (pa + off) pa" if pa: "unat b \<le> unat pa" "unat pa < unat b + n * 2 ^ p" for pa
  proof -
    let ?i = "(unat pa - unat b) div 2 ^ p"
    let ?k = "range_page p b ?i"
    have pos: "0 < unat off mod 2 ^ 48" using off by (simp add: offset_ok_def)
    then have lt: "unat b + n * 2 ^ p < 2 ^ 48" using fit by linarith
    note at = range_page_at [OF lt al p30 pa]
    have "unat pa + unat off mod 2 ^ 48 < 2 ^ 48" using pa(2) fit by linarith
    from page_no_off [OF off this, of L] have "page_no L (pa + off) = page_no L (?k + off)"
      using at(3) pn(1) [OF at(1)] p L(3) by simp
    then have page: "page_no (page_level flags) (pa + off) = page_no (page_level flags) (?k + off)" using L(1) by simp
    have "(?k, ?k + off) \<in> set ?xs" using at(1) by (auto simp: range_list_def)
    then obtain e where e: "translate s' (?k + off) = Some e" "installs_page flags ?k e" using inst by blast
    have m: "?k AND mask p = 0" unfolding at(2) by (simp add: bit_eq_iff bit_simps)
    have "unat ?k \<le> unat pa" unfolding at(2) unat_and_not_mask by simp
    then have "unat ?k < 2 ^ 52" using pa(2) lt by simp
    moreover have "page_aligned ?k"
    proof -
      have "(2 :: nat) ^ 12 dvd 2 ^ p" using p12 by (rule le_imp_power_dvd)
      then have "(4096 :: nat) dvd unat pa div 2 ^ p * 2 ^ p" by (intro dvd_mult) simp
      then show ?thesis unfolding page_aligned_def at(2) unat_and_not_mask .
    qed
    ultimately have k: "?k AND ADDRESS_BITS = ?k" by (intro address_field)
    have "maps_to s' (pa + off) (?k OR ((pa + off) AND mask p))"
      using maps_to_page [OF e page k] m p L(1) by simp
    moreover have "?k OR ((pa + off) AND mask p) = pa"
      unfolding add_off_mask [OF off p30] at(2) by (auto simp: bit_eq_iff bit_simps)
    ultimately show ?thesis by simp
  qed
  have "(page_no L \<circ> snd) ` set ?xs \<subseteq> {page_no L off + ?B..<page_no L off + ?B + n}"
    using pn(1) by (auto simp: range_list_def)
  then have rest: "\<forall>va. page_no L va \<notin> {page_no L off + ?B..<page_no L off + ?B + n} \<longrightarrow> translate s' va = translate s va"
    using other by blast
  have "unat (room s) \<le> unat (room s') + ?c * (n div 512 + 2)" using left cost by linarith
  then show ?thesis using s' maps rest by blast
qed

section \<open>The kernel image\<close>

text \<open>The pages of the image: \<open>n\<close> pages of 4 KB from \<open>first\<close> on.\<close>

definition blob_first :: "u64 \<Rightarrow> u64" where
  "blob_first blob_begin = roundDown blob_begin FOUR_KB"

definition blob_pages :: "u64 \<Rightarrow> u64 \<Rightarrow> nat" where
  "blob_pages blob_begin blob_size =
     unat (roundUp (blob_size + (blob_begin - blob_first blob_begin)) FOUR_KB) div 4096"

definition image_frame :: "limine_kernel_address \<Rightarrow> u64 \<Rightarrow> u64" where
  "image_frame ka va = va - virtual_base ka + physical_base ka"

text \<open>
  The image lies above the first 4 GB and apart from the higher-half copy of the addresses up to \<open>hi\<close>, within the 48 bits;
  it is linked and loaded at page boundaries, and its frames have 52-bit addresses.
\<close>

definition blob_ok :: "limine_kernel_address \<Rightarrow> u64 \<Rightarrow> nat \<Rightarrow> u64 \<Rightarrow> nat \<Rightarrow> bool" where
  "blob_ok ka off hi first n \<longleftrightarrow>
     unat first + 4096 * n < 2 ^ 64 \<and> unat first mod 2 ^ 48 + 4096 * n \<le> 2 ^ 48 \<and>
     2 ^ 32 \<le> unat first mod 2 ^ 48 \<and>
     (unat off mod 2 ^ 48 + hi \<le> unat first mod 2 ^ 48 \<or> unat first mod 2 ^ 48 + 4096 * n \<le> unat off mod 2 ^ 48) \<and>
     page_aligned (virtual_base ka) \<and> page_aligned (physical_base ka) \<and>
     unat (image_frame ka first) + 4096 * n \<le> 2 ^ 52"

lemma FOUR_KB_power: "FOUR_KB = 2 ^ 12"
  by (simp add: FOUR_KB_def)

lemma blob_first_aligned: "page_aligned (blob_first b)"
  using roundDown_nat [of 12 b] by (simp add: blob_first_def FOUR_KB_power page_aligned_def)

lemma blob_limit:
  "roundUp (sz + (b - blob_first b)) FOUR_KB = of_nat (blob_pages b sz) * FOUR_KB"
proof -
  let ?r = "roundUp (sz + (b - blob_first b)) FOUR_KB"
  have "unat ?r = unat (sz + (b - blob_first b) + FOUR_KB - 1) div 4096 * 4096"
    using unat_and_not_mask [of "sz + (b - blob_first b) + FOUR_KB - 1" 12]
    by (simp add: roundUp_def FOUR_KB_def mask_eq_exp_minus_1)
  then have "unat ?r = blob_pages b sz * 4096" by (simp add: blob_pages_def)
  moreover have "of_nat (blob_pages b sz) * FOUR_KB = (of_nat (blob_pages b sz * 4096) :: u64)"
    by (simp add: FOUR_KB_def)
  moreover have "unat (of_nat (blob_pages b sz * 4096) :: u64) = blob_pages b sz * 4096"
    using calculation(1) unat64_bound [of ?r] by (intro unat64_of_nat) simp
  ultimately show ?thesis by (simp only: word_unat_eq_iff)
qed

definition blob_list :: "limine_kernel_address \<Rightarrow> u64 \<Rightarrow> (u64 \<times> ptr) list" where
  "blob_list ka va = [(image_frame ka va, va)]"

lemma init_blob_body_eq:
  "init_blob_body ka i t = map_many (\<lambda>pa va. map_page pa va small_flags) (blob_list ka i) t"
  by (cases "map_page (image_frame ka i) i small_flags t")
    (simp_all add: init_blob_body_def blob_list_def small_flags_def image_frame_def)

lemma init_blob_eq:
  assumes "unat (blob_first b) + 4096 * blob_pages b sz < 2 ^ 64"
  shows "init_blob ka b sz s = for_each (init_blob_body ka)
    (map (\<lambda>i. blob_first b + of_nat i * FOUR_KB) [0..<blob_pages b sz]) s"
proof -
  have f: "unat (blob_first b) + blob_pages b sz * unat FOUR_KB < 18446744073709551616" "0 < unat FOUR_KB"
    using assms by (simp_all add: FOUR_KB_def)
  have "init_blob ka b sz s = for_range (init_blob_body ka) (blob_first b)
      (blob_first b + of_nat (blob_pages b sz) * FOUR_KB) FOUR_KB s"
    by (simp add: init_blob_def blob_limit [symmetric]) (simp add: blob_first_def Let_def)
  then show ?thesis by (simp only: for_range_each [OF f])
qed

lemma blob_page_unat:
  assumes "unat first + 4096 * n < 2 ^ 64" "i < n"
  shows "unat (first + of_nat i * FOUR_KB) = unat first + 4096 * i"
proof -
  have "unat (of_nat (i * 4096) :: u64) = i * 4096" using assms by (intro unat64_of_nat) simp
  then have "unat (of_nat i * FOUR_KB) = 4096 * i" by (simp add: FOUR_KB_def)
  then show ?thesis using assms by (subst unat64_add_nowrap) simp_all
qed

lemma mod_add_small: "a mod m + b < m \<Longrightarrow> (a + b) mod m = a mod m + b" for a b m :: nat
  by (metis mod_add_left_eq mod_less)

lemma blob_page_no:
  assumes ok: "blob_ok ka off hi first n" and hi: "2 ^ 21 dvd hi" and i: "i < n" and al: "page_aligned first"
    and off: "offset_ok off"
  shows "page_no 1 (first + of_nat i * FOUR_KB) = page_no 1 first + i"
    and "page_no 2 (first + of_nat i * FOUR_KB) = (page_no 1 first + i) div 512"
    and "page_no 2 (first + of_nat i * FOUR_KB) \<notin> {0..<2048} \<union> {page_no 2 off..<page_no 2 off + hi div 2 ^ 21}"
proof -
  let ?m = "unat first mod 2 ^ 48"
  have lt: "?m + 4096 * i < 2 ^ 48" using ok i by (simp add: blob_ok_def)
  have u: "unat (first + of_nat i * FOUR_KB) mod 2 ^ 48 = ?m + 4096 * i"
    using ok i blob_page_unat [of first n i] mod_add_small [OF lt] by (simp add: blob_ok_def)
  have "4096 dvd ?m" using al by (simp add: page_aligned_def dvd_mod)
  then obtain k where k: "?m = 4096 * k" by (auto simp: dvd_def)
  show 1: "page_no 1 (first + of_nat i * FOUR_KB) = page_no 1 first + i"
    unfolding page_no_def u k by simp
  have "page_no 1 first = k" unfolding page_no_def k by simp
  then show 2: "page_no 2 (first + of_nat i * FOUR_KB) = (page_no 1 first + i) div 512"
    unfolding page_no_def u k using div_mult2_eq [of "4096 * (k + i)" 4096 512] by simp
  have ge: "2048 \<le> (?m + 4096 * i) div 2 ^ 21"
    using ok div_le_mono [of "2 ^ 32" "?m + 4096 * i" "2 ^ 21"] by (simp add: blob_ok_def)
  have "(?m + 4096 * i) div 2 ^ 21 < page_no 2 off \<or> page_no 2 off + hi div 2 ^ 21 \<le> (?m + 4096 * i) div 2 ^ 21"
  proof -
    have "(2 :: nat) ^ 21 dvd unat off mod 2 ^ 48"
      using dvd_trans [OF le_imp_power_dvd, of 21 30 2 "unat off"] off by (simp add: offset_ok_def dvd_mod)
    then obtain d where d: "unat off mod 2 ^ 48 = 2 ^ 21 * d" by (auto simp: dvd_def)
    then have "page_no 2 off = d" by (simp add: page_no_def)
    moreover obtain H where H: "hi = 2 ^ 21 * H" using hi by (auto simp: dvd_def)
    have "?m + 4096 * i < d * 2 ^ 21 \<or> (d + H) * 2 ^ 21 \<le> ?m + 4096 * i"
      using ok i unfolding blob_ok_def d H by auto
    then have "(?m + 4096 * i) div 2 ^ 21 < d \<or> d + hi div 2 ^ 21 \<le> (?m + 4096 * i) div 2 ^ 21"
      using less_mult_imp_div_less [of "?m + 4096 * i" d "2 ^ 21"]
        div_le_mono [of "(d + H) * 2 ^ 21" "?m + 4096 * i" "2 ^ 21"] by (auto simp: H)
    ultimately show ?thesis by simp
  qed
  then show "page_no 2 (first + of_nat i * FOUR_KB) \<notin> {0..<2048} \<union> {page_no 2 off..<page_no 2 off + hi div 2 ^ 21}"
    using ge unfolding page_no_def [of 2 "first + of_nat i * FOUR_KB"] u by auto
qed

lemma image_page:
  assumes blob: "blob_ok ka off hi first n" and al: "page_aligned first" and x: "unat (va - first) < 4096 * n"
  defines "i \<equiv> unat (va - first) div 4096"
  defines "at \<equiv> first + of_nat i * FOUR_KB"
  shows "i < n" "page_no 1 va = page_no 1 first + i"
    "image_frame ka at AND ADDRESS_BITS = image_frame ka at" "image_frame ka at AND mask 12 = 0"
    "image_frame ka at OR (va AND mask 12) = image_frame ka va"
proof -
  let ?x = "va - first"
  let ?y = "of_nat (unat ?x mod 4096) :: u64"
  show i: "i < n" using x unfolding i_def by (simp add: less_mult_imp_div_less mult.commute)
  have nowrap: "unat first + 4096 * n < 2 ^ 64" using blob by (simp add: blob_ok_def)
  have at: "unat at = unat first + 4096 * i" unfolding at_def by (rule blob_page_unat [OF nowrap i])
  have "unat (first + ?x) = unat first + unat ?x"
    using nowrap x by (intro unat64_add_nowrap) simp
  then have va: "unat va = unat first + unat ?x" by simp
  have al': "unat first mod 4096 = 0" using al by (simp add: page_aligned_def)
  have "4096 dvd unat first mod 2 ^ 48" using al by (simp add: page_aligned_def dvd_mod)
  then obtain k where k: "unat first mod 2 ^ 48 = 4096 * k" by (auto simp: dvd_def)
  have "unat first mod 2 ^ 48 + unat ?x < 2 ^ 48" using blob x by (simp add: blob_ok_def)
  then have "unat va mod 2 ^ 48 = 4096 * k + unat ?x"
    unfolding va k [symmetric] by (rule mod_add_small)
  then show "page_no 1 va = page_no 1 first + i"
    unfolding page_no_def i_def k by simp
  have at_al: "page_aligned at" using at al' by (simp add: page_aligned_def dvd_eq_mod_eq_0 mod_add_eq)
  have fr_al: "page_aligned (image_frame ka at)"
    using blob at_al unfolding image_frame_def blob_ok_def by (intro page_aligned_add page_aligned_diff) auto
  have fr: "image_frame ka at = image_frame ka first + of_nat i * FOUR_KB"
    by (simp add: image_frame_def at_def algebra_simps)
  have "unat (image_frame ka first) + 4096 * n < 2 ^ 64" "unat (image_frame ka first) + 4096 * n \<le> 2 ^ 52"
    using blob by (simp_all add: blob_ok_def)
  then have "unat (image_frame ka at) < 2 ^ 52"
    unfolding fr using i blob_page_unat [of "image_frame ka first" n i] by simp
  then show "image_frame ka at AND ADDRESS_BITS = image_frame ka at"
    by (rule address_field [OF fr_al])
  have "unat (image_frame ka at AND mask 12) = 0"
    using fr_al by (simp add: unat_and_mask page_aligned_def)
  then show m0: "image_frame ka at AND mask 12 = 0" by (simp add: unat_eq_0)
  have y: "va AND mask 12 = ?y"
  proof -
    have "unat ?y = unat ?x mod 4096" by (intro unat64_of_nat) (simp add: less_trans [OF mod_less_divisor])
    moreover have "unat va mod 4096 = unat ?x mod 4096" unfolding va using al' by (metis add_0 mod_add_left_eq)
    ultimately show ?thesis by (simp add: word_unat_eq_iff unat_and_mask)
  qed
  have "va = at + ?y"
  proof -
    have "unat ?x = 4096 * i + unat ?x mod 4096" unfolding i_def by simp
    moreover have "?x = of_nat (unat ?x)" by (simp add: word_unat_eq_iff unat64_of_nat unat64_bound)
    ultimately have "?x = of_nat (4096 * i + unat ?x mod 4096)" by simp
    then have "?x = of_nat i * FOUR_KB + ?y" by (simp add: FOUR_KB_def mult.commute)
    then show ?thesis by (simp add: at_def algebra_simps)
  qed
  then have "image_frame ka va = image_frame ka at + (va AND mask 12)"
    unfolding y by (simp add: image_frame_def algebra_simps)
  moreover have "image_frame ka at AND (va AND mask 12) = 0"
    using m0 by (metis and.assoc and.commute and.left_commute and_zero_eq)
  ultimately show "image_frame ka at OR (va AND mask 12) = image_frame ka va"
    by (simp add: disjunctive_add_eq_or)
qed

text \<open>Mapping the image: every page of it goes to its frame, and no other page changes.\<close>

lemma init_blob_maps:
  assumes ok: "paging_ok s" and off: "offset_ok off" and hi: "2 ^ 21 dvd hi"
    and blob: "blob_ok ka off hi (blob_first b) (blob_pages b sz)"
    and free: "\<And>va. page_no 2 va \<notin> {0..<2048} \<union> {page_no 2 off..<page_no 2 off + hi div 2 ^ 21} \<Longrightarrow> translate s va = None"
    and room: "12288 * (blob_pages b sz div 512 + 2) \<le> unat (room s)"
  shows "\<exists>s'. init_blob ka b sz s = Done () s' \<and> paging_ok s' \<and> keeps_paging s s' \<and>
    (\<forall>va. unat (va - blob_first b) < 4096 * blob_pages b sz \<longrightarrow> maps_to s' va (image_frame ka va)) \<and>
    (\<forall>va. page_no 2 va \<in> {0..<2048} \<union> {page_no 2 off..<page_no 2 off + hi div 2 ^ 21} \<longrightarrow> translate s' va = translate s va)"
proof -
  let ?first = "blob_first b" and ?n = "blob_pages b sz"
  define at where "at i = ?first + of_nat i * FOUR_KB" for i :: nat
  let ?ks = "map at [0..<?n]" and ?P = "page_no 1 ?first"
  let ?xs = "concat (map (blob_list ka) ?ks)"
  have al: "page_aligned ?first" by (rule blob_first_aligned)
  have pn: "page_no 1 (at i) = ?P + i" "page_no 2 (at i) = (?P + i) div 512"
    "page_no 2 (at i) \<notin> {0..<2048} \<union> {page_no 2 off..<page_no 2 off + hi div 2 ^ 21}" if "i < ?n" for i
    using blob_page_no [OF blob hi that al off] unfolding at_def by blast+
  have xs: "?xs = map (\<lambda>i. (image_frame ka (at i), at i)) [0..<?n]"
    by (induction "[0..<?n]") (simp_all add: blob_list_def concat_map_singleton comp_def)
  have "map (page_no 1 \<circ> snd) ?xs = map (\<lambda>i. ?P + i) [0..<?n]"
    unfolding xs by (simp add: pn(1) del: One_nat_def)
  then have dist: "distinct (map (page_no 1 \<circ> snd) ?xs)" by (simp add: distinct_map)
  have none: "translate s (at i) = None" if "i < ?n" for i by (rule free [OF pn(3) [OF that]])
  have fits: "\<forall>va \<in> snd ` set ?xs. fits_page small_flags s va"
    unfolding xs by (auto simp: fits_page_def none)
  have "small_pages.missing s ?xs \<subseteq> {?P div 512..(?P + ?n) div 512}"
    unfolding small_pages.missing_def xs by (auto simp: pn(2) div_le_mono)
  then have "card (small_pages.missing s ?xs) \<le> card {?P div 512..(?P + ?n) div 512}"
    by (intro card_mono) auto
  also have "\<dots> \<le> ?n div 512 + 2"
  proof -
    have "(?P + ?n) div 512 = ?P div 512 + ?n div 512 + (?P mod 512 + ?n mod 512) div 512"
      by (rule div_add1_eq)
    moreover have "(?P mod 512 + ?n mod 512) div 512 < 2" by (simp add: less_mult_imp_div_less)
    ultimately show ?thesis by simp
  qed
  finally have "12288 * card (small_pages.missing s ?xs) \<le> 12288 * (?n div 512 + 2)" by (rule mult_le_mono2)
  then have "12288 * card (small_pages.missing s ?xs) \<le> unat (room s)" using room by (rule le_trans)
  from small_pages.map_many_maps [OF ok fits dist this] obtain s'
    where s': "map_many (\<lambda>pa va. map_page pa va small_flags) ?xs s = Done () s'" "paging_ok s'" "keeps_paging s s'"
    and inst: "\<forall>(pa, va) \<in> set ?xs. \<exists>e. translate s' va = Some e \<and> installs_page small_flags pa e"
    and other: "\<forall>vb. page_no 1 vb \<notin> (page_no 1 \<circ> snd) ` set ?xs \<longrightarrow> translate s' vb = translate s vb"
    by blast
  have "for_each (init_blob_body ka) ?ks s = Done () s'"
    by (rule small_pages.for_each_map_many [OF init_blob_body_eq s'(1)])
  moreover have "unat ?first + 4096 * ?n < 2 ^ 64" using blob by (simp add: blob_ok_def)
  ultimately have run: "init_blob ka b sz s = Done () s'" by (simp add: init_blob_eq at_def [abs_def])
  have maps: "maps_to s' va (image_frame ka va)" if va: "unat (va - ?first) < 4096 * ?n" for va
  proof -
    let ?i = "unat (va - ?first) div 4096"
    note im = image_page [OF blob al va, folded at_def]
    have "(image_frame ka (at ?i), at ?i) \<in> set ?xs" unfolding xs using im(1) by auto
    then obtain e where "translate s' (at ?i) = Some e" "installs_page small_flags (image_frame ka (at ?i)) e"
      using inst by blast
    then have "maps_to s' va (image_frame ka (at ?i) OR (va AND mask 12))"
      using maps_to_page [of s' "at ?i" e small_flags "image_frame ka (at ?i)" va] im(2-4) pn(1) [OF im(1)]
      by simp
    then show ?thesis unfolding im(5) .
  qed
  have old: "translate s' va = translate s va"
    if "page_no 2 va \<in> {0..<2048} \<union> {page_no 2 off..<page_no 2 off + hi div 2 ^ 21}" for va
  proof -
    have "page_no 1 va \<notin> (page_no 1 \<circ> snd) ` set ?xs"
    proof
      assume "page_no 1 va \<in> (page_no 1 \<circ> snd) ` set ?xs"
      then obtain i where i: "i < ?n" "page_no 1 va = page_no 1 (at i)" unfolding xs by auto
      then have "page_no 2 va = page_no 2 (at i)" by (simp add: page_no_2)
      then show False using pn(3) [OF i(1)] that by simp
    qed
    then show ?thesis using other by blast
  qed
  show ?thesis using run s'(2,3) maps old by blast
qed

section \<open>The memory map above 4 GB\<close>

text \<open>
  What the model asks of a memory map: the entries that start at 4 GB or above start and end at multiples of 2 MB, end
  at \<open>hi\<close> at the latest and do not overlap, and the higher half has room for all addresses up to \<open>hi\<close>. Of the entries
  that start below 4 GB nothing is asked; \<open>initPaging\<close> skips them.
\<close>

abbreviation is_high :: "limine_memmap_entry \<Rightarrow> bool" where "is_high e \<equiv> 2 ^ 32 \<le> unat (me_base e)"
abbreviation entry_end :: "limine_memmap_entry \<Rightarrow> nat" where "entry_end e \<equiv> unat (me_base e) + unat (me_length e)"

definition high_entry_ok :: "u64 \<Rightarrow> limine_memmap_entry \<Rightarrow> bool" where
  "high_entry_ok off e \<longleftrightarrow> 2 ^ 21 dvd unat (me_base e) \<and> 2 ^ 21 dvd unat (me_length e) \<and>
     unat off mod 2 ^ 48 + entry_end e \<le> 2 ^ 48"

definition memmap_ok :: "u64 \<Rightarrow> nat \<Rightarrow> limine_memmap_entry list \<Rightarrow> bool" where
  "memmap_ok off hi es \<longleftrightarrow> 2 ^ 32 \<le> hi \<and> 2 ^ 21 dvd hi \<and> unat off mod 2 ^ 48 + hi \<le> 2 ^ 48 \<and>
     (\<forall>e \<in> set es. is_high e \<longrightarrow> high_entry_ok off e \<and> entry_end e \<le> hi) \<and>
     sorted_wrt (\<lambda>e f. is_high e \<and> is_high f \<longrightarrow> entry_end e \<le> unat (me_base f) \<or> entry_end f \<le> unat (me_base e)) es"

text \<open>The bytes for tables an entry can need: 2 MB pages when it is of 1 GB or more, else 4 KB pages.\<close>

definition entry_needs :: "limine_memmap_entry \<Rightarrow> nat" where
  "entry_needs e =
     (if \<not> is_high e then 0
      else if 2 ^ 30 \<le> unat (me_length e) then 8192 * (unat (me_length e) div 2 ^ 30 + 2)
      else 12288 * (unat (me_length e) div 2 ^ 21 + 2))"

definition memmap_needs :: "limine_memmap_entry list \<Rightarrow> nat" where
  "memmap_needs es = sum_list (map entry_needs es)"

text \<open>The 2 MB pages of the higher half that an entry takes.\<close>

definition entry_pages :: "u64 \<Rightarrow> limine_memmap_entry \<Rightarrow> nat set" where
  "entry_pages off e =
     (if is_high e then {page_no 2 off + unat (me_base e) div 2 ^ 21..<page_no 2 off + entry_end e div 2 ^ 21} else {})"

lemma round_exact:
  assumes "2 ^ k dvd unat n" "k < 64"
  shows "roundDown n (2 ^ k) = n" "unat n + 2 ^ k \<le> 18446744073709551616 \<Longrightarrow> roundUp n (2 ^ k) = n"
proof -
  obtain m where m: "unat n = m * 2 ^ k" using assms(1) by (auto simp: dvd_def mult.commute)
  then show "roundDown n (2 ^ k) = n" using roundDown_nat [OF assms(2), of n] by (simp add: word_unat_eq_iff)
  assume le: "unat n + 2 ^ k \<le> 18446744073709551616"
  have "(m * 2 ^ k + 2 ^ k - 1) div 2 ^ k = m"
  proof -
    have "m * 2 ^ k + 2 ^ k - 1 = m * 2 ^ k + (2 ^ k - 1)" by simp
    moreover have "(m * 2 ^ k + (2 ^ k - 1)) div 2 ^ k = m" by (subst div_mult_self3) simp_all
    ultimately show ?thesis by simp
  qed
  then show "roundUp n (2 ^ k) = n" using roundUp_nat [OF assms(2) le] m by (simp add: word_unat_eq_iff)
qed

lemma obind_unit: "obind m Done = m"
  by (cases m) simp_all

lemma init_entry_high:
  fixes s :: "'a paging_state_scheme"
  assumes "is_high e" "high_entry_ok off e" "requiredSize (me_length e) = (2 ^ p, fl)" "p \<le> 21"
  shows "init_entry e s = for_range (init_entry_large fl) (me_base e) (me_base e + me_length e) (2 ^ p) s"
proof -
  let ?b = "me_base e" and ?n = "me_length e"
  have al: "2 ^ 21 dvd unat ?b" "2 ^ 21 dvd unat ?n" and fit: "entry_end e \<le> 2 ^ 48"
    using assms(2) by (auto simp: high_entry_ok_def)
  have sum: "unat (?b + ?n) = entry_end e" using fit by (intro unat64_add_nowrap) simp
  have a12: "2 ^ 12 dvd unat ?b" "2 ^ 12 dvd unat (?b + ?n)"
    using al dvd_trans [OF le_imp_power_dvd [of 12 21 "2 :: nat"]] unfolding sum by (auto intro!: dvd_add)
  have "roundDown ?b FOUR_KB = ?b" unfolding FOUR_KB_power by (rule round_exact(1) [OF a12(1)]) simp
  moreover have "roundUp (?b + ?n) FOUR_KB = ?b + ?n"
    unfolding FOUR_KB_power by (rule round_exact(2) [OF a12(2)]) (use sum fit in simp_all)
  moreover have "2 ^ p dvd unat ?n" using al(2) dvd_trans [OF le_imp_power_dvd [OF assms(4)]] by blast
  then have "roundDown ?n (2 ^ p) = ?n" by (rule round_exact(1)) (use assms(4) in simp)
  moreover have "\<not> ?b < 4 * ONE_GB" using assms(1) by (simp add: word_less_nat_alt ONE_GB_def)
  moreover have "for_range body k k st = Done ()"
    for body :: "u64 \<Rightarrow> 'a paging_state_scheme \<Rightarrow> (unit, 'a paging_state_scheme) outcome" and k st
    by (rule ext, subst for_range_step) simp
  ultimately show ?thesis by (simp add: init_entry_def assms(3) Let_def obind_unit)
qed

lemma init_range_maps:
  assumes ok: "paging_ok s" and off: "offset_ok off" "paging_hhdmOffset s = off"
    and flags: "good_flags flags" "flags = ReadWrite OR Present OR fl" and L: "L = page_level flags" "1 \<le> L" "L \<le> 2"
    and p: "p = 3 + 9 * L" and al: "2 ^ p dvd unat b" and fit: "unat off mod 2 ^ 48 + unat b + n * 2 ^ p \<le> 2 ^ 48"
    and high: "2 ^ 32 \<le> unat b"
    and fits: "\<And>i. i < n \<Longrightarrow> fits_page flags s (range_page p b i + off)"
    and room: "4096 * (4 - L) * (n div 512 + 2) \<le> unat (room s)"
  shows "\<exists>s'. for_range (init_entry_large fl) b (b + of_nat n * 2 ^ p) (2 ^ p) s = Done () s' \<and> paging_ok s' \<and>
    keeps_paging s s' \<and> unat (room s) \<le> unat (room s') + 4096 * (4 - L) * (n div 512 + 2) \<and>
    (\<forall>pa. unat b \<le> unat pa \<and> unat pa < unat b + n * 2 ^ p \<longrightarrow> maps_to s' (pa + off) pa) \<and>
    (\<forall>va. page_no L va \<notin> {page_no L off + unat b div 2 ^ p..<page_no L off + unat b div 2 ^ p + n} \<longrightarrow>
      translate s' va = translate s va)"
proof -
  let ?ks = "map (range_page p b) [0..<n]" and ?f = "\<lambda>k. [(k, k + off)]"
  note mapper = mapper_map_page [OF flags(1), folded L(1)]
  have p30: "p \<le> 30" using p L(3) by simp
  have pos: "0 < unat off mod 2 ^ 48" using off(1) by (simp add: offset_ok_def)
  then have lt: "unat b + n * 2 ^ p < 2 ^ 48" using fit by linarith
  obtain s' where s': "map_many (\<lambda>pa va. map_page pa va flags) (range_list p off b n) s = Done () s'" "paging_ok s'"
    "keeps_paging s s'" "unat (room s) \<le> unat (room s') + 4096 * (4 - L) * (n div 512 + 2)"
    "\<forall>pa. unat b \<le> unat pa \<and> unat pa < unat b + n * 2 ^ p \<longrightarrow> maps_to s' (pa + off) pa"
    "\<forall>va. page_no L va \<notin> {page_no L off + unat b div 2 ^ p..<page_no L off + unat b div 2 ^ p + n} \<longrightarrow>
      translate s' va = translate s va"
    using map_range [OF ok off(1) flags(1) L p al fit fits room] by blast
  have "concat (map ?f ?ks) = range_list p off b n"
    by (simp add: range_list_def comp_def concat_map_singleton)
  moreover have "init_entry_large fl k t = map_many (\<lambda>pa va. map_page pa va flags) (?f k) t"
    if k: "k \<in> set ?ks" and t: "keeps_paging s t" for k t
  proof -
    obtain i where "k = range_page p b i" "i < n" using k by auto
    then have "2 ^ 32 \<le> unat k" using range_page_unat [OF lt _ p30] high by simp
    then have "\<not> k < 4 * ONE_GB" by (simp add: word_less_nat_alt ONE_GB_def)
    moreover have "paging_hhdmOffset t = off" using t off(2) by (simp add: keeps_paging_def)
    ultimately show ?thesis
      by (cases "map_page k (k + off) flags t") (simp_all add: init_entry_large_def flags(2))
  qed
  ultimately have each: "for_each (init_entry_large fl) ?ks s = Done () s'"
    using mapper.for_each_map_many [OF mapper, of ?ks s "init_entry_large fl" ?f s'] s'(1) by simp
  have f: "unat b + n * unat (2 ^ p :: u64) < 18446744073709551616" "0 < unat (2 ^ p :: u64)"
    using lt p30 unat64_power [of p] by simp_all
  have "for_range (init_entry_large fl) b (b + of_nat n * 2 ^ p) (2 ^ p) s = Done () s'"
    unfolding for_range_each [OF f] using each by (simp add: range_page_def [abs_def])
  then show ?thesis using s'(2-) by blast
qed

lemma init_entry_low:
  assumes "unat (me_base e) < 2 ^ 32"
  shows "init_entry e s = Done () s"
proof -
  have "unat (roundDown (me_base e) FOUR_KB) \<le> unat (me_base e)"
    using roundDown_nat [of 12 "me_base e"] by (simp add: FOUR_KB_power)
  then have "roundDown (me_base e) FOUR_KB < 4 * ONE_GB"
    using assms by (simp add: word_less_nat_alt ONE_GB_def)
  then show ?thesis by (simp add: init_entry_def)
qed

lemma page_no_1_off: "offset_ok off \<Longrightarrow> page_no 1 off = 512 * page_no 2 off"
proof -
  assume "offset_ok off"
  then have "(2 :: nat) ^ 21 dvd unat off mod 2 ^ 48"
    using dvd_trans [OF le_imp_power_dvd, of 21 30 2 "unat off"] by (simp add: offset_ok_def dvd_mod)
  then obtain d where "unat off mod 2 ^ 48 = 2 ^ 21 * d" by (auto simp: dvd_def)
  then show ?thesis by (simp add: page_no_def)
qed

text \<open>An entry whose pages are not mapped yet: all of it is mapped in the higher half, and nothing else changes.\<close>

lemma init_entry_maps:
  assumes ok: "paging_ok s" and off: "offset_ok off" "paging_hhdmOffset s = off"
    and e: "is_high e" "high_entry_ok off e"
    and free: "\<And>va. page_no 2 va \<in> entry_pages off e \<Longrightarrow> translate s va = None"
    and room: "entry_needs e \<le> unat (room s)"
  shows "\<exists>s'. init_entry e s = Done () s' \<and> paging_ok s' \<and> keeps_paging s s' \<and>
    unat (room s) \<le> unat (room s') + entry_needs e \<and>
    (\<forall>pa. unat (me_base e) \<le> unat pa \<and> unat pa < entry_end e \<longrightarrow> maps_to s' (pa + off) pa) \<and>
    (\<forall>va. page_no 2 va \<notin> entry_pages off e \<longrightarrow> translate s' va = translate s va)"
proof -
  let ?b = "me_base e" and ?len = "unat (me_length e)" and ?P = "page_no 2 off"
  obtain m where m: "?len = m * 2 ^ 21" using e(2) by (auto simp: high_entry_ok_def dvd_def mult.commute)
  obtain B where B: "unat ?b = B * 2 ^ 21" using e(2) by (auto simp: high_entry_ok_def dvd_def mult.commute)
  have pages: "entry_pages off e = {?P + B..<?P + B + m}"
  proof -
    have "entry_end e = (B + m) * 2 ^ 21" by (simp add: m B)
    then have "entry_end e div 2 ^ 21 = B + m" "unat ?b div 2 ^ 21 = B" using B by (simp_all only: div_mult_self_is_m zero_less_power zero_less_numeral)
    then show ?thesis using e(1) by (simp only: entry_pages_def if_True add.assoc)
  qed
  have fit: "unat off mod 2 ^ 48 + unat ?b + m * 2 ^ 21 \<le> 2 ^ 48" using e(2) m by (simp add: high_entry_ok_def)
  have word: "me_length e = of_nat n * 2 ^ p" if "?len = n * 2 ^ p" for n p
  proof -
    have "(of_nat ?len :: u64) = of_nat n * 2 ^ p" unfolding that by (simp only: of_nat_mult of_nat_power of_nat_numeral)
    then show ?thesis by (simp only: of_nat_unat ucast_id)
  qed
  show ?thesis
  proof (cases "2 ^ 30 \<le> ?len")
    case True
    have rs: "requiredSize (me_length e) = (2 ^ 21, LargerPages)"
      using True by (simp add: requiredSize_def ONE_GB_def ONE_MB_def word_le_nat_alt)
    have needs: "entry_needs e = 4096 * (4 - 2) * (m div 512 + 2)"
      using True e(1) div_mult2_eq [of ?len "2 ^ 21" 512] by (simp add: entry_needs_def m)
    have al: "2 ^ 21 dvd unat ?b" using B by simp
    have "\<exists>s'. for_range (init_entry_large LargerPages) ?b (?b + of_nat m * 2 ^ 21) (2 ^ 21) s = Done () s' \<and> paging_ok s' \<and>
      keeps_paging s s' \<and> unat (room s) \<le> unat (room s') + 4096 * (4 - 2) * (m div 512 + 2) \<and>
      (\<forall>pa. unat ?b \<le> unat pa \<and> unat pa < unat ?b + m * 2 ^ 21 \<longrightarrow> maps_to s' (pa + off) pa) \<and>
      (\<forall>va. page_no 2 va \<notin> {page_no 2 off + unat ?b div 2 ^ 21..<page_no 2 off + unat ?b div 2 ^ 21 + m} \<longrightarrow>
        translate s' va = translate s va)"
      by (rule init_range_maps [OF ok off init_flags(1) large_flags_def])
        (use al fit e(1) room needs in \<open>simp_all\<close>)
    then show ?thesis
      unfolding init_entry_high [OF e rs order_refl] pages needs m unfolding word [OF m] by (simp add: B)
  next
    case False
    define n where "n = 512 * m"
    have n: "?len = n * 2 ^ 12" by (simp add: n_def m)
    have rs: "requiredSize (me_length e) = (2 ^ 12, 0)"
      using False by (simp add: requiredSize_def ONE_GB_def FOUR_KB_def word_le_nat_alt)
    have needs: "entry_needs e = 4096 * (4 - 1) * (n div 512 + 2)"
      using False e(1) by (simp add: entry_needs_def m n_def)
    have al: "2 ^ 12 dvd unat ?b" unfolding B using le_imp_power_dvd [of 12 21 "2 :: nat"] by (intro dvd_mult) simp
    have B1: "unat ?b div 2 ^ 12 = 512 * B" by (simp add: B)
    have small: "small_flags = ReadWrite OR Present OR 0" by (simp add: small_flags_def)
    have inside: "page_no 2 va \<in> entry_pages off e"
      if "page_no 1 va \<in> {page_no 1 off + unat ?b div 2 ^ 12..<page_no 1 off + unat ?b div 2 ^ 12 + n}" for va
    proof -
      have "512 * (?P + B) \<le> page_no 1 va" "page_no 1 va < 512 * (?P + B + m)"
        using that unfolding page_no_1_off [OF off(1)] B1 n_def by simp_all
      then show ?thesis unfolding pages page_no_2 using div_le_mono [of "512 * (?P + B)" "page_no 1 va" 512]
        by (auto simp: less_mult_imp_div_less mult.commute)
    qed
    have fit12: "unat off mod 2 ^ 48 + unat ?b + n * 2 ^ 12 \<le> 2 ^ 48" using fit by (simp add: n_def)
    have fits: "fits_page small_flags s (range_page 12 ?b i + off)" if "i < n" for i
    proof -
      have "page_no 1 (range_page 12 ?b i + off) = page_no 1 off + unat ?b div 2 ^ 12 + i"
        by (rule range_page_nos(1) [OF off(1) _ _ al fit12 that]) simp_all
      then have "translate s (range_page 12 ?b i + off) = None" using that by (intro free inside) simp
      then show ?thesis by (simp add: fits_page_def)
    qed
    have "\<exists>s'. for_range (init_entry_large 0) ?b (?b + of_nat n * 2 ^ 12) (2 ^ 12) s = Done () s' \<and> paging_ok s' \<and>
      keeps_paging s s' \<and> unat (room s) \<le> unat (room s') + 4096 * (4 - 1) * (n div 512 + 2) \<and>
      (\<forall>pa. unat ?b \<le> unat pa \<and> unat pa < unat ?b + n * 2 ^ 12 \<longrightarrow> maps_to s' (pa + off) pa) \<and>
      (\<forall>va. page_no 1 va \<notin> {page_no 1 off + unat ?b div 2 ^ 12..<page_no 1 off + unat ?b div 2 ^ 12 + n} \<longrightarrow>
        translate s' va = translate s va)"
      by (rule init_range_maps [OF ok off init_flags(2) small])
        (use al fit12 e(1) room needs fits in \<open>simp_all\<close>)
    then obtain s' where s': "for_range (init_entry_large 0) ?b (?b + of_nat n * 2 ^ 12) (2 ^ 12) s = Done () s'" "paging_ok s'"
      "keeps_paging s s'" "unat (room s) \<le> unat (room s') + entry_needs e"
      "\<forall>pa. unat ?b \<le> unat pa \<and> unat pa < entry_end e \<longrightarrow> maps_to s' (pa + off) pa"
      and old: "\<forall>va. page_no 1 va \<notin> {page_no 1 off + unat ?b div 2 ^ 12..<page_no 1 off + unat ?b div 2 ^ 12 + n} \<longrightarrow>
        translate s' va = translate s va"
      unfolding needs n by blast
    have "\<forall>va. page_no 2 va \<notin> entry_pages off e \<longrightarrow> translate s' va = translate s va" using old inside by blast
    moreover have "init_entry e s = for_range (init_entry_large 0) ?b (?b + me_length e) (2 ^ 12) s"
      by (rule init_entry_high [OF e rs]) simp
    then have "init_entry e s = Done () s'" unfolding word [OF n] s'(1) .
    ultimately show ?thesis using s'(2-) by blast
  qed
qed

text \<open>The whole memory map.\<close>

lemma entry_page_in:
  assumes "offset_ok off" "is_high e" "high_entry_ok off e" "unat (me_base e) \<le> unat pa" "unat pa < entry_end e"
  shows "page_no 2 (pa + off) \<in> entry_pages off e"
proof -
  have "unat pa + unat off mod 2 ^ 48 < 2 ^ 48" using assms(3,5) by (simp add: high_entry_ok_def)
  from page_no_off [OF assms(1) this, of 2] have "page_no 2 (pa + off) = unat pa div 2 ^ 21 + page_no 2 off" by simp
  moreover obtain m B where "unat (me_length e) = 2 ^ 21 * m" "unat (me_base e) = 2 ^ 21 * B"
    using assms(3) by (auto simp: high_entry_ok_def dvd_def)
  ultimately show ?thesis
    using assms(2,4,5) by (auto simp: entry_pages_def div_le_mono less_mult_imp_div_less)
qed

lemma entry_pages_above:
  assumes "entry_end e \<le> hi"
  shows "entry_pages off e \<subseteq> {page_no 2 off + 2048..<page_no 2 off + hi div 2 ^ 21}"
  using div_le_mono [OF assms, of "2 ^ 21"] div_le_mono [of "2 ^ 32" "unat (me_base e)" "2 ^ 21"]
  by (auto simp: entry_pages_def)

lemma entry_pages_apart:
  assumes "is_high e" "is_high f" "high_entry_ok off e" "high_entry_ok off f"
    and "entry_end e \<le> unat (me_base f) \<or> entry_end f \<le> unat (me_base e)"
  shows "entry_pages off e \<inter> entry_pages off f = {}"
  using assms(1,2,5) div_le_mono [of "entry_end e" "unat (me_base f)" "2 ^ 21"] div_le_mono [of "entry_end f" "unat (me_base e)" "2 ^ 21"]
  by (auto simp: entry_pages_def)

lemma init_entries_map:
  assumes "paging_ok s" "offset_ok off" "paging_hhdmOffset s = off"
    and "\<forall>e \<in> set es. is_high e \<longrightarrow> high_entry_ok off e"
    and "sorted_wrt (\<lambda>e f. is_high e \<and> is_high f \<longrightarrow> entry_end e \<le> unat (me_base f) \<or> entry_end f \<le> unat (me_base e)) es"
    and "\<forall>e \<in> set es. \<forall>va. page_no 2 va \<in> entry_pages off e \<longrightarrow> translate s va = None"
    and "memmap_needs es \<le> unat (room s)"
  shows "\<exists>s'. for_each init_entry es s = Done () s' \<and> paging_ok s' \<and> keeps_paging s s' \<and>
    unat (room s) \<le> unat (room s') + memmap_needs es \<and>
    (\<forall>e \<in> set es. is_high e \<longrightarrow> (\<forall>pa. unat (me_base e) \<le> unat pa \<and> unat pa < entry_end e \<longrightarrow> maps_to s' (pa + off) pa)) \<and>
    (\<forall>va. (\<forall>e \<in> set es. page_no 2 va \<notin> entry_pages off e) \<longrightarrow> translate s' va = translate s va)"
  using assms
proof (induction es arbitrary: s)
  case Nil
  then show ?case by (simp add: keeps_paging_def memmap_needs_def)
next
  case (Cons e es)
  show ?case
  proof (cases "is_high e")
    case False
    then have run: "init_entry e s = Done () s" by (intro init_entry_low) simp
    have needs: "memmap_needs (e # es) = memmap_needs es" "entry_pages off e = {}"
      using False by (simp_all add: memmap_needs_def entry_needs_def entry_pages_def)
    have "\<exists>s'. for_each init_entry es s = Done () s' \<and> paging_ok s' \<and> keeps_paging s s' \<and>
      unat (room s) \<le> unat (room s') + memmap_needs es \<and>
      (\<forall>e \<in> set es. is_high e \<longrightarrow> (\<forall>pa. unat (me_base e) \<le> unat pa \<and> unat pa < entry_end e \<longrightarrow> maps_to s' (pa + off) pa)) \<and>
      (\<forall>va. (\<forall>e \<in> set es. page_no 2 va \<notin> entry_pages off e) \<longrightarrow> translate s' va = translate s va)"
      by (rule Cons.IH) (use Cons.prems needs in auto)
    then show ?thesis using False by (simp add: run needs)
  next
    case True
    have e: "high_entry_ok off e" using Cons.prems(4) True by simp
    have needs: "memmap_needs (e # es) = entry_needs e + memmap_needs es" by (simp add: memmap_needs_def)
    have "entry_needs e \<le> unat (room s)" using Cons.prems(7) needs by simp
    have free: "translate s va = None" if "page_no 2 va \<in> entry_pages off e" for va
      using Cons.prems(6) that by simp
    from init_entry_maps [OF Cons.prems(1-3) True e free \<open>entry_needs e \<le> unat (room s)\<close>] obtain t where t: "init_entry e s = Done () t"
      "paging_ok t" "keeps_paging s t" "unat (room s) \<le> unat (room t) + entry_needs e"
      "\<forall>pa. unat (me_base e) \<le> unat pa \<and> unat pa < entry_end e \<longrightarrow> maps_to t (pa + off) pa"
      "\<forall>va. page_no 2 va \<notin> entry_pages off e \<longrightarrow> translate t va = translate s va"
      by auto
    have apart: "entry_pages off e \<inter> entry_pages off f = {}" if f: "f \<in> set es" for f
    proof (cases "is_high f")
      case True
      then show ?thesis using \<open>is_high e\<close> e f Cons.prems(4,5) by (intro entry_pages_apart) auto
    qed (simp add: entry_pages_def)
    have "\<exists>s'. for_each init_entry es t = Done () s' \<and> paging_ok s' \<and> keeps_paging t s' \<and>
      unat (room t) \<le> unat (room s') + memmap_needs es \<and>
      (\<forall>e \<in> set es. is_high e \<longrightarrow> (\<forall>pa. unat (me_base e) \<le> unat pa \<and> unat pa < entry_end e \<longrightarrow> maps_to s' (pa + off) pa)) \<and>
      (\<forall>va. (\<forall>e \<in> set es. page_no 2 va \<notin> entry_pages off e) \<longrightarrow> translate s' va = translate t va)"
    proof (rule Cons.IH)
      show "paging_hhdmOffset t = off" using Cons.prems(3) t(3) by (simp add: keeps_paging_def)
      show "memmap_needs es \<le> unat (room t)" using Cons.prems(7) needs t(4) by linarith
      have "translate t va = None" if "f \<in> set es" "page_no 2 va \<in> entry_pages off f" for f va
        using t(6) Cons.prems(6) apart [OF that(1)] that by auto
      then show "\<forall>f \<in> set es. \<forall>va. page_no 2 va \<in> entry_pages off f \<longrightarrow> translate t va = None" by blast
    qed (use Cons.prems t(2) in auto)
    then obtain s' where s': "for_each init_entry es t = Done () s'" "paging_ok s'" "keeps_paging t s'"
      "unat (room t) \<le> unat (room s') + memmap_needs es"
      "\<forall>e \<in> set es. is_high e \<longrightarrow> (\<forall>pa. unat (me_base e) \<le> unat pa \<and> unat pa < entry_end e \<longrightarrow> maps_to s' (pa + off) pa)"
      "\<forall>va. (\<forall>e \<in> set es. page_no 2 va \<notin> entry_pages off e) \<longrightarrow> translate s' va = translate t va" by blast
    have "maps_to s' (pa + off) pa" if pa: "unat (me_base e) \<le> unat pa" "unat pa < entry_end e" for pa
    proof -
      have "page_no 2 (pa + off) \<in> entry_pages off e" by (rule entry_page_in [OF Cons.prems(2) True e pa])
      then have "translate s' (pa + off) = translate t (pa + off)" using s'(6) apart by blast
      then show ?thesis using t(5) pa by (simp add: maps_to_def)
    qed
    then have "\<forall>f \<in> set (e # es). is_high f \<longrightarrow> (\<forall>pa. unat (me_base f) \<le> unat pa \<and> unat pa < entry_end f \<longrightarrow> maps_to s' (pa + off) pa)"
      using s'(5) by simp
    moreover have "\<forall>va. (\<forall>f \<in> set (e # es). page_no 2 va \<notin> entry_pages off f) \<longrightarrow> translate s' va = translate s va"
      using s'(6) t(6) by simp
    moreover have "keeps_paging s s'" using t(3) s'(3) by (simp add: keeps_paging_def)
    moreover have "unat (room s) \<le> unat (room s') + memmap_needs (e # es)" using needs t(4) s'(4) by linarith
    ultimately show ?thesis using t(1) s'(1,2) by simp
  qed
qed

section \<open>initPaging\<close>

text \<open>The paging globals do not matter to the invariant.\<close>

lemma pt_ok_more:
  fixes s :: "'a frame_state_scheme" and t :: "'b frame_state_scheme"
  assumes "frame_state.truncate s = frame_state.truncate t"
  shows "pt_ok lvl s = pt_ok lvl t" "ents s = ents t" "room s = room t"
proof -
  have sel: "mem s = mem t" "globalBootInfo s = globalBootInfo t" "frame_head s = frame_head t"
    "freeBlock s = freeBlock t" "bootInformation s = bootInformation t"
    using assms by (simp_all add: frame_state.defs)
  then show e: "ents s = ents t" by (intro ext) (simp add: ents_def hhdm_def)
  show r: "room s = room t" using sel by (simp add: room_def)
  have "alloc_ok s = alloc_ok t" "boot_current s = boot_current t" and n: "next_free s = next_free t"
    and h: "hhdm s = hhdm t"
    using sel by (simp_all add: alloc_ok_def boot_current_def next_free_def hhdm_def room_def)
  moreover have "table_place s = table_place t" by (rule ext) (simp add: table_place_def n h)
  ultimately show "pt_ok lvl s = pt_ok lvl t" using e r by (simp add: pt_ok_def)
qed

lemma alloc_ok_mutex [simp]:
  "alloc_ok (s\<lparr>paging_mutex := x\<rparr>) = alloc_ok s" "next_free (s\<lparr>paging_mutex := x\<rparr>) = next_free s"
  "room (s\<lparr>paging_mutex := x\<rparr>) = room s" "hhdm (s\<lparr>paging_mutex := x\<rparr>) = hhdm s"
  by (simp_all add: alloc_ok_def next_free_def room_def hhdm_def boot_current_def)

lemma init_root_empty:
  assumes "alloc_ok s" "unat (next_free s) + unat (room s) \<le> unat (hhdm s) + 2 ^ 52" "0x1000 \<le> room s"
  shows "\<exists>s'. init_root s = Done () s' \<and> paging_ok s' \<and> (\<forall>va. translate s' va = None) \<and>
    unat (room s') = unat (room s) - 4096 \<and> paging_mutex s' = paging_mutex s"
proof -
  obtain p t where t: "allocateFrame 0x1000 s = Done p t" "t = bump 0x1000 s"
    "pt_ok ((\<lambda>_. 0)(p := 4)) t" "\<forall>va. walk (ents t) p 4 va = None" "unat (room t) = unat (room s) - 4096"
    using new_root [OF assms] by blast
  let ?s = "let s = t\<lparr>PML4 := p\<rparr> in if kernelPML4 s = 0 then s\<lparr>kernelPML4 := PML4 s\<rparr> else s"
  have tr: "frame_state.truncate ?s = frame_state.truncate t" by (simp add: frame_state.defs Let_def)
  have "PML4 ?s = p" by (simp add: Let_def)
  moreover have "paging_mutex ?s = paging_mutex s" by (simp add: Let_def t(2) bump_def)
  ultimately show ?thesis
    using t(1,3-5) pt_ok_more [OF tr]
    by (intro exI [of _ ?s]) (auto simp: init_root_def paging_ok_def translate_def Let_def)
qed

lemma low_page_nos:
  assumes "offset_ok off" "unat va < 2 ^ 32"
  shows "page_no 2 va \<in> {0..<2048}" "page_no 2 (va + off) \<in> {page_no 2 off..<page_no 2 off + 2048}"
proof -
  have "unat va div 2 ^ 21 < 2048" using assms(2) by (simp add: less_mult_imp_div_less)
  then show "page_no 2 va \<in> {0..<2048}" "page_no 2 (va + off) \<in> {page_no 2 off..<page_no 2 off + 2048}"
    using page_no_low [OF assms(2), of 2] page_no_high [OF assms(1,2), of 2] by simp_all
qed

text \<open>The bytes \<open>initPaging\<close> needs for tables: the root, the first 4 GB twice, the image.\<close>

definition paging_needs :: "nat \<Rightarrow> nat" where
  "paging_needs n = 4096 + 65536 + 12288 * (n div 512 + 2)"

lemma initPaging_builds_space:
  assumes "paging_mutex s = 0" and ok: "alloc_ok s"
    and small: "unat (next_free s) + unat (room s) \<le> unat (hhdm s) + 2 ^ 52"
    and lim: "lim_hhdm_offset lim = Some off" "lim_memmap lim = Some es" "lim_kernel_address lim = Some ka"
    and off: "offset_ok off" and es: "memmap_ok off hi es"
    and blob: "blob_ok ka off hi (blob_first b) (blob_pages b sz)"
    and room: "paging_needs (blob_pages b sz) + memmap_needs es \<le> unat (room s)"
  shows "\<exists>s'. initPaging lim b sz s = Done () s' \<and> paging_ok s' \<and> cr3 s' = PML4 s' \<and> paging_mutex s' = 0 \<and>
    (\<forall>va. unat va < 2 ^ 32 \<longrightarrow> maps_to s' va va \<and> maps_to s' (va + off) va) \<and>
    (\<forall>e \<in> set es. is_high e \<longrightarrow>
      (\<forall>pa. unat (me_base e) \<le> unat pa \<and> unat pa < entry_end e \<longrightarrow> maps_to s' (pa + off) pa)) \<and>
    (\<forall>va. unat (va - blob_first b) < 4096 * blob_pages b sz \<longrightarrow> maps_to s' va (image_frame ka va))"
proof -
  let ?s1 = "s\<lparr>paging_mutex := 1\<rparr>"
  have "0x1000 \<le> room ?s1" using room by (simp add: paging_needs_def word_le_nat_alt)
  then obtain s2 where s2: "init_root ?s1 = Done () s2" "paging_ok s2" "\<forall>va. translate s2 va = None"
    "unat (room s2) = unat (room s) - 4096"
    using init_root_empty [of ?s1] ok small by auto
  let ?s3 = "s2\<lparr>paging_bootInformation := getBootInfo s2, paging_hhdmOffset := off\<rparr>"
  have tr: "frame_state.truncate ?s3 = frame_state.truncate s2" by (simp add: frame_state.defs)
  have 3: "paging_ok ?s3" "translate ?s3 va = None" "room ?s3 = room s2" for va
    using s2(2,3) pt_ok_more [OF tr] by (auto simp: paging_ok_def translate_def)
  obtain s4 where s4: "init_low ?s3 = Done () s4" "paging_ok s4" "unat (room s2) \<le> unat (room s4) + 65536"
    "\<forall>va. unat va < 2 ^ 32 \<longrightarrow> maps_to s4 va va \<and> maps_to s4 (va + off) va"
    "\<forall>vb. page_no 2 vb \<notin> {0..<2048} \<union> {page_no 2 off..<page_no 2 off + 2048} \<longrightarrow> translate s4 vb = None"
    "keeps_paging ?s3 s4"
  proof -
    have r3: "65536 \<le> unat (room ?s3)" using room s2(4) by (simp add: 3(3) paging_needs_def)
    have "paging_hhdmOffset ?s3 = off" by simp
    from init_low_maps [OF 3(1) off this r3] show ?thesis
      unfolding 3(2,3) by (elim exE conjE) (rule that)
  qed
  have high: "\<forall>e \<in> set es. is_high e \<longrightarrow> high_entry_ok off e" and hi: "2 ^ 21 dvd hi" "2 ^ 32 \<le> hi"
    and apart: "sorted_wrt (\<lambda>e f. is_high e \<and> is_high f \<longrightarrow> entry_end e \<le> unat (me_base f) \<or> entry_end f \<le> unat (me_base e)) es"
    using es by (auto simp: memmap_ok_def)
  have above: "entry_pages off e \<subseteq> {page_no 2 off + 2048..<page_no 2 off + hi div 2 ^ 21}" if "e \<in> set es" for e
  proof (cases "is_high e")
    case True
    then show ?thesis using es that by (intro entry_pages_above) (simp add: memmap_ok_def)
  qed (simp add: entry_pages_def)
  have hi_pages: "2048 \<le> hi div 2 ^ 21" using div_le_mono [OF hi(2), of "2 ^ 21"] by simp
  have free: "\<forall>e \<in> set es. \<forall>va. page_no 2 va \<in> entry_pages off e \<longrightarrow> translate s4 va = None"
  proof (intro ballI allI impI)
    fix e va assume "e \<in> set es" "page_no 2 va \<in> entry_pages off e"
    with above have "page_no 2 va \<in> {page_no 2 off + 2048..<page_no 2 off + hi div 2 ^ 21}" by blast
    then show "translate s4 va = None" using s4(5) by simp
  qed
  have "paging_hhdmOffset s4 = off" using s4(6) by (simp add: keeps_paging_def)
  moreover have "memmap_needs es \<le> unat (room s4)"
    using s4(3) s2(4) room by (simp add: paging_needs_def)
  ultimately obtain sm where sm: "for_each init_entry es s4 = Done () sm" "paging_ok sm"
    "unat (room s4) \<le> unat (room sm) + memmap_needs es"
    "\<forall>e \<in> set es. is_high e \<longrightarrow> (\<forall>pa. unat (me_base e) \<le> unat pa \<and> unat pa < entry_end e \<longrightarrow> maps_to sm (pa + off) pa)"
    "\<forall>va. (\<forall>e \<in> set es. page_no 2 va \<notin> entry_pages off e) \<longrightarrow> translate sm va = translate s4 va"
    using init_entries_map [OF s4(2) off _ high apart free] by blast
  let ?R = "{0..<2048} \<union> {page_no 2 off..<page_no 2 off + hi div 2 ^ 21}"
  have out: "translate sm va = None" if "page_no 2 va \<notin> ?R" for va
  proof -
    have "\<forall>e \<in> set es. page_no 2 va \<notin> entry_pages off e" using that above by fastforce
    then have "translate sm va = translate s4 va" using sm(5) by blast
    moreover have "page_no 2 va \<notin> {0..<2048} \<union> {page_no 2 off..<page_no 2 off + 2048}" using that hi_pages by auto
    ultimately show ?thesis using s4(5) by simp
  qed
  have "12288 * (blob_pages b sz div 512 + 2) \<le> unat (room sm)"
    using sm(3) s4(3) s2(4) room by (simp add: paging_needs_def)
  from init_blob_maps [OF sm(2) off hi(1) blob out this] obtain s5 where
    s5: "init_blob ka b sz sm = Done () s5" "paging_ok s5"
    "\<forall>va. unat (va - blob_first b) < 4096 * blob_pages b sz \<longrightarrow> maps_to s5 va (image_frame ka va)"
    "\<forall>va. page_no 2 va \<in> ?R \<longrightarrow> translate s5 va = translate sm va"
    by blast
  let ?s6 = "(setCr3 (PML4 s5) s5)\<lparr>paging_mutex := 0\<rparr>"
  have tr: "frame_state.truncate ?s6 = frame_state.truncate s5" by (simp add: frame_state.defs setCr3_def)
  have P: "PML4 ?s6 = PML4 s5" by (simp add: setCr3_def)
  have 6: "paging_ok ?s6" using s5(2) pt_ok_more(1) [OF tr] by (simp add: paging_ok_def P)
  have tr6: "translate ?s6 = translate s5"
    by (rule ext) (simp add: translate_def P pt_ok_more(2) [OF tr])
  have "PML4 s5 \<noteq> 0"
    using s5(2) root_virtual(2) unfolding paging_ok_def by blast
  then have run: "initPaging lim b sz s = Done () ?s6"
    using s2(1) s4(1) sm(1) s5(1) lim assms(1)
    by (simp add: initPaging_def release_def unlock_value_def setCr3_def Let_def)
  have "maps_to ?s6 va va \<and> maps_to ?s6 (va + off) va" if "unat va < 2 ^ 32" for va
  proof -
    have pn: "page_no 2 va \<in> {0..<2048}" "page_no 2 (va + off) \<in> {page_no 2 off..<page_no 2 off + 2048}"
      by (rule low_page_nos [OF off that])+
    have "\<forall>e \<in> set es. page_no 2 va \<notin> entry_pages off e \<and> page_no 2 (va + off) \<notin> entry_pages off e"
      using pn above by fastforce
    then have "translate sm va = translate s4 va" "translate sm (va + off) = translate s4 (va + off)"
      using sm(5) by blast+
    then show ?thesis using s4(4) s5(4) pn hi_pages that tr6 by (simp add: maps_to_def)
  qed
  moreover have "maps_to ?s6 (pa + off) pa"
    if "e \<in> set es" "is_high e" "unat (me_base e) \<le> unat pa" "unat pa < entry_end e" for e pa
  proof -
    have "page_no 2 (pa + off) \<in> entry_pages off e" using entry_page_in [OF off that(2) _ that(3,4)] high that(1,2) by blast
    then have "page_no 2 (pa + off) \<in> ?R" using above [OF that(1)] by auto
    then have "translate ?s6 (pa + off) = translate sm (pa + off)" unfolding tr6 using s5(4) by blast
    moreover have "maps_to sm (pa + off) pa" using sm(4) that by blast
    ultimately show ?thesis by (simp only: maps_to_def)
  qed
  moreover have "maps_to ?s6 va (image_frame ka va)" if "unat (va - blob_first b) < 4096 * blob_pages b sz" for va
    using s5(3) that tr6 by (simp add: maps_to_def)
  moreover have "cr3 ?s6 = PML4 ?s6" "paging_mutex ?s6 = 0" by (simp_all add: setCr3_def)
  ultimately show ?thesis using run 6 by blast
qed

section \<open>newPML4\<close>

text \<open>Copying entries from one table to another.\<close>

lemma copy_entries:
  assumes "alloc_ok s" "page_aligned (hhdm s)" "table_place s f" "table_place s g" "f \<noteq> g" "\<forall>i \<in> set is. i < 512"
  defines "t \<equiv> s\<lparr>mem := fold (copy_entry (f + hhdm s) (g + hhdm s)) is (mem s)\<rparr>"
  shows "alloc_ok t \<and> (\<forall>j < 512. ents t f j = (if j \<in> of_nat ` set is then ents s g j else ents s f j)) \<and>
    (\<forall>h j. table_place s h \<longrightarrow> h \<noteq> f \<longrightarrow> j < 512 \<longrightarrow> ents t h j = ents s h j) \<and>
    same_on (- region (f + hhdm s) 4096) (mem t) (mem s)"
  using assms(1-6) unfolding t_def
proof (induction "is" arbitrary: s)
  case (Cons i "is")
  let ?i = "of_nat i :: u64"
  let ?u = "s\<lparr>mem := copy_entry (f + hhdm s) (g + hhdm s) i (mem s)\<rparr>"
  have i: "?i < 512" using Cons.prems(6) by (simp add: word_less_nat_alt unat64_of_nat)
  have u: "?u = s\<lparr>mem := store64 (mem s) (entry_addr (f + hhdm s) ?i) (ents s g ?i)\<rparr>"
    by (simp add: copy_entry_def ents_def)
  note st = store_entry [OF Cons.prems(1-3) i u]
  have "alloc_ok ?u" "page_aligned (hhdm ?u)" "table_place ?u f" "table_place ?u g"
    using st(1) Cons.prems by simp_all
  note IH = Cons.IH [OF this Cons.prems(5)]
  have fold_u: "?u\<lparr>mem := fold (copy_entry (f + hhdm ?u) (g + hhdm ?u)) is (mem ?u)\<rparr> =
      s\<lparr>mem := fold (copy_entry (f + hhdm s) (g + hhdm s)) (i # is) (mem s)\<rparr>" by simp
  have uf: "ents ?u f j = (if j = ?i then ents s g ?i else ents s f j)" if "j < 512" for j
    using st(2,3) Cons.prems(3) that by simp
  have uh: "ents ?u h j = ents s h j" if "table_place s h" "h \<noteq> f" "j < 512" for h j
    using st(3) that by simp
  have gu: "ents ?u g j = ents s g j" if "j < 512" for j
    using uh [OF Cons.prems(4) _ that] Cons.prems(5) by simp
  show ?case
    using IH [unfolded fold_u] Cons.prems(6) uf uh gu st(4) by (auto intro: same_on_trans)
qed simp

lemma walk_root:
  "walk E f 4 va =
     (let e = E f (table_index 4 va) in
      if \<not> getFlag Present e then None
      else if getFlag LargerPages e then Some (4, e)
      else walk E (getAddress e) 3 va)"
  using walk.simps(2) [of E f 3 va] by (simp add: Let_def)

lemma ents_agree:
  assumes ok: "tree_ok E lvl" and same: "\<And>f j. lvl f \<noteq> 0 \<Longrightarrow> j < 512 \<Longrightarrow> E' f j = E f j"
  shows "tree_ok E' lvl" "lvl f = l \<Longrightarrow> walk E' f l va = walk E f l va"
proof -
  have link: "link E' lvl f i = link E lvl f i" for f i
    by (cases "2 \<le> lvl f \<and> i < 512") (auto simp: link_def same)
  have ent: "E' f i = E f i" if "link E lvl f i" for f i
    by (rule same) (use that in \<open>auto simp: link_def\<close>)
  show "tree_ok E' lvl"
    unfolding tree_ok_def
  proof (intro conjI allI impI)
    fix f i assume "link E' lvl f i"
    then have l: "link E lvl f i" unfolding link .
    show "Suc (lvl (getAddress (E' f i))) = lvl f" unfolding ent [OF l] by (rule tree_link [OF ok l])
  next
    fix f i g j
    assume "link E' lvl f i" "link E' lvl g j" and eq: "getAddress (E' f i) = getAddress (E' g j)"
    then have l: "link E lvl f i" "link E lvl g j" unfolding link by auto
    have "f = g \<and> i = j"
      by (rule tree_link_inj [OF ok l]) (use eq in \<open>simp only: ent [OF l(1)] ent [OF l(2)]\<close>)
    then show "f = g" "i = j" by auto
  next
    fix f i assume "3 \<le> lvl f" "i < (512 :: u64)"
    then show "\<not> getFlag LargerPages (E' f i)" using ok same [of f i] by (simp add: tree_ok_def)
  next
    fix f i assume "2 \<le> lvl f" "i < (512 :: u64)" "\<not> getFlag Present (E' f i)"
    then show "E' f i = 0" using ok same [of f i] by (simp add: tree_ok_def)
  qed
  show "walk E' f l va = walk E f l va" if "lvl f = l"
  proof -
    have "E' g j = E g j" if "(g, j) \<in> set (slots E f l va)" for g j
      by (rule same) (use slots_levels [OF ok \<open>lvl f = l\<close> that] table_index_less in auto)
    then show ?thesis using walk_cong by blast
  qed
qed

lemma place_not_failed: "table_place s f \<Longrightarrow> f \<noteq> -1"
  by (auto simp: table_place_def unsigned_minus_1_eq_mask mask_eq_exp_minus_1)

lemma newPML4_copies:
  assumes ok: "pt_ok lvl s" and root: "lvl (PML4 s) = 4" and r: "0x1000 \<le> room s"
  shows "\<exists>pa s'. newPML4 s = Done pa s' \<and> pt_ok lvl s' \<and> PML4 s' = PML4 s \<and> pa \<noteq> PML4 s \<and>
    (\<forall>va. translate s' va = translate s va) \<and>
    (\<forall>va. walk (ents s') pa 4 va =
      (if table_index 4 va = 0 \<or> 256 \<le> table_index 4 va then translate s va else None))"
proof -
  let ?p = "next_free s - hhdm s" and ?r = "PML4 s" and ?t = "bump 0x1000 s"
  note parts = pt_ok_parts [OF ok]
  have places: "\<forall>f. lvl f \<noteq> 0 \<longrightarrow> table_place s f" using parts(4) by blast
  note new = new_frame [OF parts(1) places parts(5) r]
  have rp: "table_place s ?r" by (rule parts(4)) (simp add: root)
  have ne: "?p \<noteq> ?r" using new(5) root by auto
  have ht: "hhdm ?t = hhdm s" by simp
  have Pt: "PML4 ?t = ?r" by (simp add: bump_def)
  let ?is = "[256..<512] @ [0 :: nat]"
  have elem: "k \<in> set ?is \<longleftrightarrow> 256 \<le> k \<and> k < 512 \<or> k = 0" for k
    by (simp only: set_append set_upt list.set Un_iff atLeastLessThan_iff insert_iff empty_iff) blast
  then have isl: "\<forall>i \<in> set ?is. i < 512" by force
  define u where "u = ?t\<lparr>mem := fold (copy_entry (?p + hhdm ?t) (?r + hhdm ?t)) ?is (mem ?t)\<rparr>"
  note cp = copy_entries [OF new(2) _ new(4) new(9) [OF rp] ne isl, folded u_def, unfolded ht, OF parts(6)]
  have tv: "toVirtualAddr ?p ?t = (?p + hhdm s, ?t)" "toVirtualAddr ?r ?t = (?r + hhdm s, ?t)"
    using toVirtualAddr_current [OF new(3) new(7)] toVirtualAddr_current [OF new(3) place_not_failed [OF rp]]
    by simp_all
  have bc: "boot_current u" "hhdm u = hhdm s" "PML4 u = ?r" using new(3) by (simp_all add: u_def Pt)
  have run: "newPML4 s = Done ?p u"
    using new(1) tv Pt toPhysicalAddr_current [OF bc(1), of "?p + hhdm s"] bc(2)
    by (simp add: newPML4_def u_def del: upt_rec_numeral)
  have same: "ents u f j = ents s f j" if "lvl f \<noteq> 0" "j < 512" for f j
  proof -
    have "table_place s f" using that(1) by (rule parts(4))
    moreover have "f \<noteq> ?p" using that(1) new(5) by auto
    ultimately show ?thesis using conjunct1 [OF conjunct2 [OF conjunct2 [OF cp]]] new(9,10) that(2) by simp
  qed
  note agree = ents_agree [OF parts(3) same]
  have "pt_ok lvl u"
    using conjunct1 [OF cp] bc(1,2) new(9,12) parts(4,5) agree(1) unfolding pt_ok_def
    by (simp add: u_def del: upt_rec_numeral)
  moreover have tr: "translate u va = translate s va" for va
    using agree(2) [OF _ _ root] bc(3) by (simp add: translate_def)
  moreover have "walk (ents u) ?p 4 va =
      (if table_index 4 va = 0 \<or> 256 \<le> table_index 4 va then translate s va else None)" for va
  proof -
    let ?i = "table_index 4 va"
    have i: "?i < 512" by (rule table_index_less)
    have "?i \<in> of_nat ` set ?is \<longleftrightarrow> unat ?i \<in> set ?is"
    proof
      assume "?i \<in> of_nat ` set ?is"
      then obtain k where "k \<in> set ?is" "?i = of_nat k" by blast
      moreover have "k < 512" using isl \<open>k \<in> set ?is\<close> by blast
      ultimately show "unat ?i \<in> set ?is" by (simp add: unat64_of_nat del: upt_rec_numeral)
    next
      assume "unat ?i \<in> set ?is"
      moreover have "?i = of_nat (unat ?i)" by (simp add: word_unat_eq_iff unat64_of_nat unat64_bound)
      ultimately show "?i \<in> of_nat ` set ?is" by (metis imageI)
    qed
    also have "\<dots> \<longleftrightarrow> ?i = 0 \<or> 256 \<le> ?i"
      unfolding elem using i by (auto simp: word_le_nat_alt word_less_nat_alt unat_eq_0)
    finally have elem_i: "?i \<in> of_nat ` set ?is \<longleftrightarrow> ?i = 0 \<or> 256 \<le> ?i" .
    have "ents u ?p ?i = (if ?i \<in> of_nat ` set ?is then ents ?t ?r ?i else ents ?t ?p ?i)"
      using cp i by blast
    then have e: "ents u ?p ?i = (if ?i = 0 \<or> 256 \<le> ?i then ents s ?r ?i else 0)"
      unfolding elem_i new(10) [OF rp i] new(11) [OF i] .
    have f0: "\<not> getFlag b 0" for b by (simp add: getFlag_def)
    have w: "walk (ents u) (getAddress (ents s ?r ?i)) 3 va = walk (ents s) (getAddress (ents s ?r ?i)) 3 va"
      if "getFlag Present (ents s ?r ?i)" "\<not> getFlag LargerPages (ents s ?r ?i)"
    proof (rule agree(2))
      have "link (ents s) lvl ?r ?i" using that i root by (simp add: link_def)
      from tree_link [OF parts(3) this] root show "lvl (getAddress (ents s ?r ?i)) = 3" by simp
    qed
    show ?thesis
    proof (cases "?i = 0 \<or> 256 \<le> ?i")
      case True
      with e have e': "ents u ?p ?i = ents s ?r ?i" by (simp only: if_True)
      show ?thesis
        unfolding translate_def walk_root [of "ents u"] walk_root [of "ents s"] e' Let_def if_P [OF True]
        by (cases "getFlag Present (ents s ?r ?i)"; cases "getFlag LargerPages (ents s ?r ?i)")
          (simp_all only: w if_True if_False simp_thms)
    next
      case False
      with e have "ents u ?p ?i = 0" by (simp only: if_False)
      then show ?thesis using False unfolding walk_root [of "ents u"] by (simp add: Let_def f0)
    qed
  qed
  ultimately show ?thesis using run bc(3) ne by blast
qed

section \<open>Properties\<close>

text \<open>
  C2: with the lock of paging free, with memory for the tables behind the free frame of the allocator and with
  the image and the memory map placed as \<open>blob_ok\<close> and \<open>memmap_ok\<close> say (the image above 4 GB, page-aligned and
  apart from the higher half, the entries of the map from 4 GB up multiples of 2 MB that do not overlap),
  \<open>initPaging\<close> returns with the new root in \<open>cr3\<close> and its lock free, and the processor then translates
  every address below 4 GB to itself, every such address plus the higher-half offset to the address,
  every address of an entry of the memory map from 4 GB up plus that offset to the address (2 MB pages for
  entries of 1 GB or more, 4 KB pages for the others), and every address of the kernel image to its place in
  the loaded image. Nothing is asked of the entries that start below 4 GB.
\<close>

theorem initPaging_maps_memory:
  assumes "paging_mutex s = 0" "alloc_ok s" "unat (next_free s) + unat (room s) \<le> unat (hhdm s) + 2 ^ 52"
    and "lim_hhdm_offset lim = Some off" "lim_memmap lim = Some es" "lim_kernel_address lim = Some ka"
    and "offset_ok off" "memmap_ok off hi es"
    and "blob_ok ka off hi (blob_first b) (blob_pages b sz)"
    and "paging_needs (blob_pages b sz) + memmap_needs es \<le> unat (room s)"
  shows "\<exists>s'. initPaging lim b sz s = Done () s' \<and> paging_ok s' \<and> cr3 s' = PML4 s' \<and> paging_mutex s' = 0 \<and>
    (\<forall>va. unat va < 2 ^ 32 \<longrightarrow> maps_to s' va va \<and> maps_to s' (va + off) va) \<and>
    (\<forall>e \<in> set es. is_high e \<longrightarrow>
      (\<forall>pa. unat (me_base e) \<le> unat pa \<and> unat pa < entry_end e \<longrightarrow> maps_to s' (pa + off) pa)) \<and>
    (\<forall>va. unat (va - blob_first b) < 4096 * blob_pages b sz \<longrightarrow> maps_to s' va (image_frame ka va))"
  by (rule initPaging_builds_space [OF assms])

lemma empty_sample_parts:
  "alloc_ok empty_sample" "room empty_sample = 0x100000" "next_free empty_sample = 0xFFFF800001000000"
  "hhdm empty_sample = 0xFFFF800000000000" "paging_mutex empty_sample = 0"
  by (simp_all add: empty_sample_def frame_state.defs paging_state.defs frame_sample_def alloc_ok_def
      next_free_def room_def hhdm_def zero_bootInfo_def zero_Memory_def page_aligned_def)

lemma blob_sample:
  "blob_first 0xFFFFFFFF80000000 = 0xFFFFFFFF80000000" "blob_pages 0xFFFFFFFF80000000 0x20000 = 32"
  by (simp_all add: blob_first_def blob_pages_def roundDown_def roundUp_def FOUR_KB_def)

theorem initPaging_maps_memory_witness:
  "\<exists>s'. initPaging limine_sample 0xFFFFFFFF80000000 0x20000 empty_sample = Done () s' \<and>
     maps_to s' 0xB8000 0xB8000 \<and> maps_to s' 0xFFFF8000FEE00000 0xFEE00000 \<and>
     maps_to s' 0xFFFF800123456789 0x123456789 \<and> maps_to s' 0xFFFFFFFF80001234 0x7FE1234"
proof -
  let ?ka = "\<lparr>ka_revision = 0, physical_base = 0x7FE0000, virtual_base = 0xFFFFFFFF80000000\<rparr> :: limine_kernel_address"
  have lim: "lim_hhdm_offset limine_sample = Some 0xFFFF800000000000"
    "lim_memmap limine_sample = Some memmap_sample" "lim_kernel_address limine_sample = Some ?ka"
    by (simp_all add: limine_sample_def)
  have off: "offset_ok 0xFFFF800000000000" by (simp add: offset_ok_def)
  let ?e = "\<lparr>me_base = 0x100000000, me_length = 0x40000000, me_type = LIMINE_MEMMAP_RESERVED\<rparr> :: limine_memmap_entry"
  have e: "?e \<in> set memmap_sample" "is_high ?e" by (simp_all add: memmap_sample_def)
  have map: "memmap_ok 0xFFFF800000000000 0x140000000 memmap_sample"
    by (simp add: memmap_ok_def high_entry_ok_def memmap_sample_def)
  have blob: "blob_ok ?ka 0xFFFF800000000000 0x140000000 (blob_first 0xFFFFFFFF80000000) (blob_pages 0xFFFFFFFF80000000 0x20000)"
    by (simp add: blob_sample blob_ok_def page_aligned_def image_frame_def)
  have small: "unat (next_free empty_sample) + unat (room empty_sample) \<le> unat (hhdm empty_sample) + 2 ^ 52"
    and needs: "paging_needs (blob_pages 0xFFFFFFFF80000000 0x20000) + memmap_needs memmap_sample \<le> unat (room empty_sample)"
    by (simp_all add: empty_sample_parts blob_sample paging_needs_def memmap_needs_def entry_needs_def memmap_sample_def)
  obtain s' where s': "initPaging limine_sample 0xFFFFFFFF80000000 0x20000 empty_sample = Done () s'"
    "\<forall>va. unat va < 2 ^ 32 \<longrightarrow> maps_to s' va va \<and> maps_to s' (va + 0xFFFF800000000000) va"
    "\<forall>e \<in> set memmap_sample. is_high e \<longrightarrow>
      (\<forall>pa. unat (me_base e) \<le> unat pa \<and> unat pa < entry_end e \<longrightarrow> maps_to s' (pa + 0xFFFF800000000000) pa)"
    "\<forall>va. unat (va - blob_first 0xFFFFFFFF80000000) < 4096 * blob_pages 0xFFFFFFFF80000000 0x20000 \<longrightarrow>
      maps_to s' va (image_frame ?ka va)"
    using initPaging_maps_memory [OF empty_sample_parts(5,1) small lim off map blob needs] by blast
  have "maps_to s' (0x123456789 + 0xFFFF800000000000) 0x123456789"
    using s'(3) [rule_format, OF e, of "0x123456789"] by simp
  then show ?thesis
    using s'(1) s'(2) [rule_format, of "0xB8000"] s'(2) [rule_format, of "0xFEE00000"]
      s'(4) [rule_format, of "0xFFFFFFFF80001234"]
    by (simp add: blob_sample image_frame_def)
qed

text \<open>
  C21: \<open>newPML4\<close> returns a root through which the processor translates the upper half of the address space
  and its first 512 GB exactly as through the current root, and nothing else; the current address
  space is unchanged.
\<close>

theorem newPML4_shares:
  assumes "pt_ok lvl s" "lvl (PML4 s) = 4" "0x1000 \<le> room s"
  shows "\<exists>pa s'. newPML4 s = Done pa s' \<and> pt_ok lvl s' \<and> PML4 s' = PML4 s \<and> pa \<noteq> PML4 s \<and>
    (\<forall>va. translate s' va = translate s va) \<and>
    (\<forall>va. walk (ents s') pa 4 va =
      (if table_index 4 va = 0 \<or> 256 \<le> table_index 4 va then translate s va else None))"
  by (rule newPML4_copies [OF assms])

text \<open>The tables of \<open>paging_sample\<close> with one page mapped in the upper half.\<close>

lemma mapped_sample:
  "\<exists>s lvl e. pt_ok lvl s \<and> lvl (PML4 s) = 4 \<and> 0x1000 \<le> room s \<and> translate s 0xFFFF8000000B8000 = Some (1, e) \<and>
     map_page 0xB8000 0xFFFF8000000B8000 small_flags paging_sample = Done True s"
proof -
  have fits: "fits_page small_flags paging_sample 0xFFFF8000000B8000" by (simp add: fits_page_def paging_sample_ok)
  have room: "ready 1 paging_sample 0xFFFF8000000B8000 \<or> 4096 * (4 - 1) \<le> unat (room paging_sample)"
    by (simp add: paging_sample_ok)
  have root: "((\<lambda>_. 0)(0x1000000 := 4)) (PML4 paging_sample) = (4 :: nat)" by (simp add: paging_sample_ok)
  have nl: "\<forall>e. 1 = 1 \<longrightarrow> translate paging_sample 0xFFFF8000000B8000 \<noteq> Some (2, e)" by (simp add: paging_sample_ok)
  obtain lvl s e where "map_page 0xB8000 0xFFFF8000000B8000 small_flags paging_sample = Done True s"
    "pt_ok lvl s" "lvl (PML4 s) = 4" "translate s 0xFFFF8000000B8000 = Some (1, e)"
    "unat (room paging_sample) \<le> unat (room s) +
      (if ready 1 paging_sample 0xFFFF8000000B8000 then 0 else 4096 * (4 - 1))"
    using map_page_step [OF paging_sample_ok(1) root init_flags(2) init_flags(4) [symmetric] nl room, of "0xB8000"]
    by blast
  then show ?thesis by (intro exI [of _ s] exI [of _ lvl] exI [of _ e])
    (auto simp: paging_sample_ok word_le_nat_alt split: if_splits)
qed

theorem newPML4_shares_witness:
  "\<exists>(s :: paging_state) pa s' e. newPML4 s = Done pa s' \<and> walk (ents s') pa 4 0xFFFF8000000B8000 = Some (1, e) \<and>
     walk (ents s') pa 4 0x8000000000 = None"
proof -
  obtain s :: paging_state and lvl e where s: "pt_ok lvl s" "lvl (PML4 s) = 4" "0x1000 \<le> room s"
    "translate s 0xFFFF8000000B8000 = Some (1, e)"
    using mapped_sample by (elim exE conjE) (rule that; assumption)
  have i: "table_index 4 0xFFFF8000000B8000 = 256" "table_index 4 0x8000000000 = 1"
    by (simp_all add: table_index_def)
  obtain pa s' where new: "newPML4 s = Done pa s'"
    and w: "\<forall>va. walk (ents s') pa 4 va =
      (if table_index 4 va = 0 \<or> 256 \<le> table_index 4 va then translate s va else None)"
    using newPML4_shares [OF s(1-3)] by (elim exE conjE) (rule that)
  have "walk (ents s') pa 4 0xFFFF8000000B8000 = Some (1, e)" "walk (ents s') pa 4 0x8000000000 = None"
    unfolding w [rule_format] i s(4) by (simp_all add: word_le_nat_alt)
  then show ?thesis using new by blast
qed

end
