(* ===== verification/Malloc.thy ===== *)
theory Malloc
  imports Paging
begin

text \<open>
  The heap of \<open>kernel/memory/malloc.cpp\<close>: a list of 3072 pages whose first 64 bytes hold a header
  (\<open>struct head\<close>). A block below one page is found by halving the first page that fits; a block of
  two or four pages joins neighbours of the list. This theory holds the definitions and the lemmas
  on headers and on the splitting loop.
\<close>

section \<open>Headers\<close>

definition PAGE_SIZE :: u64 where "PAGE_SIZE = 4096"
definition POOL_ARRAY_SIZE :: nat where "POOL_ARRAY_SIZE = 3072"
definition MINIMUM_ALLOCATION_SIZE :: u64 where "MINIMUM_ALLOCATION_SIZE = 32"
definition MAXIMUM_COALESCE_BLOCKS :: u64 where "MAXIMUM_COALESCE_BLOCKS = 4"

lemmas malloc_consts = PAGE_SIZE_def POOL_ARRAY_SIZE_def MINIMUM_ALLOCATION_SIZE_def
  MAXIMUM_COALESCE_BLOCKS_def

definition unused :: u32 where "unused = 0"
definition allocated :: u32 where "allocated = 1"

lemmas flag_defs = unused_def allocated_def

text \<open>
  Field offsets of \<open>struct head\<close>: \<open>previous\<close> 0, \<open>right\<close> 8, \<open>left\<close> 16, \<open>next\<close> 24, \<open>status\<close> 32 (four
  bytes), \<open>childSize\<close> 40, \<open>size\<close> 48, \<open>level\<close> 56 (two bytes), \<open>isBuddyCoalesced\<close> 58 (one byte);
  64 bytes in all.
\<close>

definition sizeof_head :: u64 where "sizeof_head = 64"

abbreviation hd_previous :: "memory \<Rightarrow> ptr \<Rightarrow> ptr" where "hd_previous m b \<equiv> load64 m b"
abbreviation hd_right :: "memory \<Rightarrow> ptr \<Rightarrow> ptr" where "hd_right m b \<equiv> load64 m (b + 8)"
abbreviation hd_left :: "memory \<Rightarrow> ptr \<Rightarrow> ptr" where "hd_left m b \<equiv> load64 m (b + 16)"
abbreviation hd_next :: "memory \<Rightarrow> ptr \<Rightarrow> ptr" where "hd_next m b \<equiv> load64 m (b + 24)"
abbreviation hd_status :: "memory \<Rightarrow> ptr \<Rightarrow> u32" where "hd_status m b \<equiv> load32 m (b + 32)"
abbreviation hd_childSize :: "memory \<Rightarrow> ptr \<Rightarrow> u64" where "hd_childSize m b \<equiv> load64 m (b + 40)"
abbreviation hd_size :: "memory \<Rightarrow> ptr \<Rightarrow> u64" where "hd_size m b \<equiv> load64 m (b + 48)"
abbreviation hd_level :: "memory \<Rightarrow> ptr \<Rightarrow> u16" where "hd_level m b \<equiv> load16 m (b + 56)"
abbreviation hd_coalesced :: "memory \<Rightarrow> ptr \<Rightarrow> u8" where "hd_coalesced m b \<equiv> m (b + 58)"

definition set_hd_previous :: "ptr \<Rightarrow> ptr \<Rightarrow> memory \<Rightarrow> memory" where
  "set_hd_previous b v m = store64 m b v"
definition set_hd_right :: "ptr \<Rightarrow> ptr \<Rightarrow> memory \<Rightarrow> memory" where
  "set_hd_right b v m = store64 m (b + 8) v"
definition set_hd_left :: "ptr \<Rightarrow> ptr \<Rightarrow> memory \<Rightarrow> memory" where
  "set_hd_left b v m = store64 m (b + 16) v"
definition set_hd_next :: "ptr \<Rightarrow> ptr \<Rightarrow> memory \<Rightarrow> memory" where
  "set_hd_next b v m = store64 m (b + 24) v"
definition set_hd_status :: "ptr \<Rightarrow> u32 \<Rightarrow> memory \<Rightarrow> memory" where
  "set_hd_status b v m = store32 m (b + 32) v"
definition set_hd_childSize :: "ptr \<Rightarrow> u64 \<Rightarrow> memory \<Rightarrow> memory" where
  "set_hd_childSize b v m = store64 m (b + 40) v"
definition set_hd_size :: "ptr \<Rightarrow> u64 \<Rightarrow> memory \<Rightarrow> memory" where
  "set_hd_size b v m = store64 m (b + 48) v"
definition set_hd_level :: "ptr \<Rightarrow> u16 \<Rightarrow> memory \<Rightarrow> memory" where
  "set_hd_level b v m = store16 m (b + 56) v"
definition set_hd_coalesced :: "ptr \<Rightarrow> u8 \<Rightarrow> memory \<Rightarrow> memory" where
  "set_hd_coalesced b v m = m(b + 58 := v)"

text \<open>The header at an address, as the code's structure.\<close>

record head =
  h_previous :: ptr
  h_right :: ptr
  h_left :: ptr
  h_next :: ptr
  h_status :: u32
  h_childSize :: u64
  h_size :: u64
  h_level :: u16
  h_isBuddyCoalesced :: u8

definition read_head :: "memory \<Rightarrow> ptr \<Rightarrow> head" where
  "read_head m b = \<lparr>h_previous = hd_previous m b, h_right = hd_right m b, h_left = hd_left m b,
     h_next = hd_next m b, h_status = hd_status m b, h_childSize = hd_childSize m b,
     h_size = hd_size m b, h_level = hd_level m b, h_isBuddyCoalesced = hd_coalesced m b\<rparr>"

lemmas hd_setters = set_hd_previous_def set_hd_right_def set_hd_left_def set_hd_next_def
  set_hd_status_def set_hd_childSize_def set_hd_size_def set_hd_level_def set_hd_coalesced_def

section \<open>Global variables\<close>

text \<open>\<open>freeList\<close> and \<open>mutex\<close> of \<open>malloc.cpp\<close>.\<close>

record heap_state = paging_state +
  freeList :: ptr
  heap_mutex :: u32

definition heap_lock :: "'a heap_state_scheme \<Rightarrow> (unit, 'a heap_state_scheme) outcome" where
  "heap_lock s = acquire heap_mutex (\<lambda>l s. s\<lparr>heap_mutex := l\<rparr>) s"

definition heap_unlock :: "'a heap_state_scheme \<Rightarrow> 'a heap_state_scheme" where
  "heap_unlock s = release heap_mutex (\<lambda>l s. s\<lparr>heap_mutex := l\<rparr>) s"

section \<open>Rounding up\<close>

definition roundUpToNextPower2 :: "u64 \<Rightarrow> u64" where
  "roundUpToNextPower2 sz =
     (let sz = sz - 1;
          sz = sz OR drop_bit 1 sz;
          sz = sz OR drop_bit 2 sz;
          sz = sz OR drop_bit 4 sz;
          sz = sz OR drop_bit 8 sz;
          sz = sz OR drop_bit 16 sz
      in sz + 1)"

section \<open>initNodes\<close>

text \<open>The body of the loop, for the node \<open>c\<close> with number \<open>i\<close>.\<close>

definition init_node :: "nat \<Rightarrow> ptr \<Rightarrow> memory \<Rightarrow> memory" where
  "init_node i c m =
     (let m = (if i \<noteq> 0 then set_hd_previous c (c - PAGE_SIZE) m else set_hd_previous c 0 m);
          m = set_hd_next c (c + PAGE_SIZE) m;
          m = set_hd_left c 0 (set_hd_right c 0 m);
          m = set_hd_status c unused m;
          m = set_hd_size c PAGE_SIZE m
      in set_hd_childSize c (hd_size m c div 2) m)"

text \<open>\<open>k\<close> rounds of the loop from number \<open>i\<close> on.\<close>

primrec init_nodes :: "nat \<Rightarrow> nat \<Rightarrow> ptr \<Rightarrow> memory \<Rightarrow> memory" where
  "init_nodes 0 i c m = m"
| "init_nodes (Suc k) i c m =
     (let m = init_node i c m in init_nodes k (Suc i) (hd_next m c) m)"

definition initNodes :: "'a heap_state_scheme \<Rightarrow> (unit, 'a heap_state_scheme) outcome" where
  "initNodes s =
     obind (allocateFrame (12 * 1024 * 1024 + sizeof_head * of_nat POOL_ARRAY_SIZE) s) (\<lambda>p s.
       let (memory, s) = toVirtualAddr p s;
           s = s\<lparr>freeList := memory\<rparr>
       in Done () (s\<lparr>mem := init_nodes (POOL_ARRAY_SIZE - 1) 0 (freeList s) (mem s)\<rparr>))"

section \<open>coalesceBlocks\<close>

primrec nth_next :: "memory \<Rightarrow> nat \<Rightarrow> ptr \<Rightarrow> ptr" where
  "nth_next m 0 c = c"
| "nth_next m (Suc k) c = nth_next m k (hd_next m c)"

definition coalesceBlocks ::
    "ptr \<Rightarrow> u64 \<Rightarrow> 'a heap_state_scheme \<Rightarrow> (ptr, 'a heap_state_scheme) outcome" where
  "coalesceBlocks node n s =
     obind (heap_lock s) (\<lambda>_ s.
       let lastNode = nth_next (mem s) (unat (n - 1)) node;
           m = set_hd_next node (hd_next (mem s) lastNode) (mem s);
           m = set_hd_size node (PAGE_SIZE * n) m;
           m = set_hd_status node allocated m;
           s = heap_unlock (s\<lparr>mem := m\<rparr>)
       in Done (node + sizeof_head) s)"

section \<open>mallocx\<close>

text \<open>Whether none of the next \<open>k\<close> nodes from \<open>t\<close> on is allocated.\<close>

primrec can_coalesce :: "memory \<Rightarrow> nat \<Rightarrow> ptr \<Rightarrow> bool" where
  "can_coalesce m 0 t = True"
| "can_coalesce m (Suc k) t =
     (if hd_status m t = allocated then False else can_coalesce m k (hd_next m t))"

text \<open>
  What one round of the \<open>while (true)\<close> loop decides: go on at a node, take the node, join \<open>n\<close> nodes, or
  give up because the request is too large.
\<close>

datatype malloc_step = Again ptr memory | Found ptr memory | Join ptr u64 | TooLarge

text \<open>The first test of a round: a request of more than one page.\<close>

definition malloc_join :: "u64 \<Rightarrow> ptr \<Rightarrow> memory \<Rightarrow> malloc_step option" where
  "malloc_join sz c m =
     (if sz > PAGE_SIZE \<and> hd_level m c = 0 \<and> hd_status m c \<noteq> allocated \<and> hd_next m c \<noteq> 0 then
        (let blocksToCoalesce = sz div PAGE_SIZE in
         if blocksToCoalesce > MAXIMUM_COALESCE_BLOCKS then Some TooLarge
         else if can_coalesce m (unat (blocksToCoalesce - 1)) (hd_next m c)
         then Some (Join c blocksToCoalesce)
         else None)
      else None)"

text \<open>The second test: step off a node that is in use.\<close>

definition malloc_advance :: "ptr \<Rightarrow> memory \<Rightarrow> ptr" where
  "malloc_advance c m =
     (if hd_left m c \<noteq> 0 \<and> hd_status m (hd_left m c) = allocated then
        (if hd_right m c \<noteq> 0 then
           (if hd_status m (hd_right m c) = unused then hd_right m c else hd_next m c)
         else c)
      else if hd_status m c = allocated then
        (if hd_next m c \<noteq> 0 then hd_next m c else c)
      else c)"

text \<open>Halving a node.\<close>

definition malloc_split :: "ptr \<Rightarrow> memory \<Rightarrow> memory" where
  "malloc_split c m =
     (let m = set_hd_left c c m;
          m = set_hd_right c (c + hd_childSize m c) m;
          m = set_hd_status c unused m;
          m = set_hd_size c (hd_size m c div 2) m;
          m = set_hd_size (hd_right m c) (hd_size m c) m
      in set_hd_next (hd_right m c) (hd_next m c) m)"

definition malloc_round :: "u64 \<Rightarrow> ptr \<Rightarrow> memory \<Rightarrow> malloc_step" where
  "malloc_round sz c m =
     (case malloc_join sz c m of
        Some r \<Rightarrow> r
      | None \<Rightarrow>
          let c = malloc_advance c m in
          if hd_size m c = sz then Found c m
          else if hd_status m c = allocated \<or> sz > hd_size m c then
            (if hd_next m c \<noteq> 0 then Again (hd_next m c) m else Again c m)
          else let m = malloc_split c m in Again (hd_left m c) m)"

partial_function (option) malloc_loop :: "u64 \<Rightarrow> ptr \<Rightarrow> memory \<Rightarrow> malloc_step option" where
  "malloc_loop sz c m =
     (case malloc_round sz c m of
        Again c' m' \<Rightarrow> malloc_loop sz c' m'
      | Found c' m' \<Rightarrow> Some (Found c' m')
      | Join c' n \<Rightarrow> Some (Join c' n)
      | TooLarge \<Rightarrow> Some TooLarge)"

text \<open>The size of the block for a request: header included, at least the minimum, a power of two.\<close>

definition block_size :: "u64 \<Rightarrow> u64" where
  "block_size sz =
     (let sz = sz + sizeof_head;
          sz = (if sz < MINIMUM_ALLOCATION_SIZE then MINIMUM_ALLOCATION_SIZE else sz)
      in roundUpToNextPower2 sz)"

definition mallocx :: "u64 \<Rightarrow> 'a heap_state_scheme \<Rightarrow> (ptr, 'a heap_state_scheme) outcome" where
  "mallocx sz s =
     obind (heap_lock s) (\<lambda>_ s.
     obind (if freeList s = 0 then initNodes s else Done () s) (\<lambda>_ s.
     of_loop (malloc_loop (block_size sz) (freeList s) (mem s)) (\<lambda>r.
       case r of
         TooLarge \<Rightarrow> Done 0 (heap_unlock s)
       | Join c n \<Rightarrow> coalesceBlocks c n (heap_unlock s)
       | Found c m \<Rightarrow>
           let s = heap_unlock (s\<lparr>mem := m\<rparr>);
               s = s\<lparr>mem := set_hd_status c allocated (mem s)\<rparr>
           in Done (c + sizeof_head) (heap_unlock s)
       | Again c m \<Rightarrow> Loops)))"

section \<open>freex\<close>

text \<open>\<open>k\<close> rounds of the loop that makes a block of several pages a list of pages again.\<close>

definition split_page :: "ptr \<Rightarrow> memory \<Rightarrow> ptr \<times> memory" where
  "split_page t m =
     (let p = t + PAGE_SIZE;
          m = set_hd_previous p t m;
          m = set_hd_size p PAGE_SIZE m;
          m = set_hd_level p 0 m;
          m = set_hd_status p unused m;
          m = set_hd_childSize p (hd_size m p div 2) m;
          m = set_hd_next p (p + PAGE_SIZE) m;
          m = set_hd_next t p m;
          m = set_hd_size t PAGE_SIZE m
      in (p, m))"

primrec split_pages :: "nat \<Rightarrow> ptr \<Rightarrow> memory \<Rightarrow> memory" where
  "split_pages 0 t m = m"
| "split_pages (Suc k) t m = (case split_page t m of (p, m) \<Rightarrow> split_pages k p m)"

definition freex :: "ptr \<Rightarrow> 'a heap_state_scheme \<Rightarrow> (unit, 'a heap_state_scheme) outcome" where
  "freex block s =
     obind (heap_lock s) (\<lambda>_ s.
       let node = block - sizeof_head;
           m = set_hd_status node unused (mem s)
       in if hd_coalesced m node \<noteq> 0 then
            (let buddy = node XOR hd_size m node;
                 m = set_hd_size node (hd_size m buddy) m;
                 m = set_hd_status node unused (set_hd_status buddy unused m);
                 m = set_hd_coalesced node 0 m;
                 m = set_hd_next buddy (hd_next m node) m
             in Done () (heap_unlock (s\<lparr>mem := m\<rparr>)))
          else if hd_size m node > PAGE_SIZE then
            (let coalescedBlocks = hd_size m node div PAGE_SIZE;
                 m = split_pages (unat (coalescedBlocks - 1)) node m
             in Done () (heap_unlock (s\<lparr>mem := m\<rparr>)))
          else Done () (heap_unlock (s\<lparr>mem := m\<rparr>)))"

section \<open>reallocx\<close>

definition realloc_grow ::
    "ptr \<Rightarrow> ptr \<Rightarrow> 'a heap_state_scheme \<Rightarrow> (ptr, 'a heap_state_scheme) outcome" where
  "realloc_grow node buddyNode s =
     (let m = set_hd_status buddyNode allocated (mem s);
          m = set_hd_coalesced node 1 m;
          m = set_hd_size node (hd_size m node * 2) m
      in Done (node - sizeof_head) (heap_unlock (s\<lparr>mem := m\<rparr>)))"

definition reallocx :: "ptr \<Rightarrow> u64 \<Rightarrow> 'a heap_state_scheme \<Rightarrow> (ptr, 'a heap_state_scheme) outcome" where
  "reallocx block sz s =
     obind (heap_lock s) (\<lambda>_ s.
       let roundedSize = roundUpToNextPower2 sz;
           node = block - sizeof_head;
           buddyNode = node XOR hd_size (mem s) node
       in if roundedSize = hd_size (mem s) node then Done block (heap_unlock s)
          else if roundedSize \<ge> hd_size (mem s) node * 2 \<or> hd_status (mem s) buddyNode = allocated then
            obind (mallocx sz s) (\<lambda>newNode s.
              if newNode \<noteq> 0 then
                (let m = memorycpy newNode block (hd_size (mem s) node - sizeof_head) (mem s);
                     newNodeData = newNode - sizeof_head;
                     m = set_hd_level newNodeData (hd_level m node) m;
                     m = set_hd_status newNodeData (hd_status m node) m;
                     m = set_hd_size newNodeData roundedSize m
                 in obind (freex block (s\<lparr>mem := m\<rparr>)) (\<lambda>_ s. Done newNode (heap_unlock s)))
              else realloc_grow node buddyNode s)
          else realloc_grow node buddyNode s)"

section \<open>Rounding up: proofs\<close>

text \<open>One step \<open>x |= x >> n\<close> doubles the number of places a bit is spread to.\<close>

lemma smear_step:
  assumes "\<And>i. bit (a :: u64) i \<longleftrightarrow> (\<exists>k < n. bit (y :: u64) (i + k))" and m: "m = n + n"
  shows "bit (a OR drop_bit n a) i \<longleftrightarrow> (\<exists>k < m. bit y (i + k))"
proof -
  have "bit (a OR drop_bit n a) i \<longleftrightarrow> (\<exists>k < n. bit y (i + k)) \<or> (\<exists>k < n. bit y (n + i + k))"
    by (simp add: bit_or_iff bit_drop_bit_eq assms)
  also have "\<dots> \<longleftrightarrow> (\<exists>k < n + n. bit y (i + k))" (is "?L \<longleftrightarrow> ?R")
  proof
    assume ?L
    then show ?R
    proof
      assume "\<exists>k < n. bit y (n + i + k)"
      then obtain k where "k < n" "bit y (i + (n + k))" by (auto simp: ac_simps)
      then show ?R by (intro exI [of _ "n + k"]) simp
    next
      assume "\<exists>k < n. bit y (i + k)"
      then show ?R using trans_less_add1 by blast
    qed
  next
    assume ?R
    then obtain k where k: "k < n + n" "bit y (i + k)" by blast
    show ?L
    proof (cases "k < n")
      case False
      then have "n + i + (k - n) = i + k" by simp
      then have "k - n < n \<and> bit y (n + i + (k - n))" using k False by simp
      then show ?L by blast
    qed (use k in blast)
  qed
  finally show ?thesis by (simp only: m)
qed

definition smear :: "u64 \<Rightarrow> u64" where
  "smear y =
     (let y = y OR drop_bit 1 y; y = y OR drop_bit 2 y; y = y OR drop_bit 4 y; y = y OR drop_bit 8 y
      in y OR drop_bit 16 y)"

lemma roundUpToNextPower2_smear: "roundUpToNextPower2 n = smear (n - 1) + 1"
  by (simp add: roundUpToNextPower2_def smear_def Let_def)

lemma bit_smear: "bit (smear y) i \<longleftrightarrow> (\<exists>k < 32. bit y (i + k))"
proof -
  define a1 where "a1 = y OR drop_bit 1 y"
  define a2 where "a2 = a1 OR drop_bit 2 a1"
  define a3 where "a3 = a2 OR drop_bit 4 a2"
  define a4 where "a4 = a3 OR drop_bit 8 a3"
  have 0: "bit y i \<longleftrightarrow> (\<exists>k < 1. bit y (i + k))" for i by simp
  have 1: "bit a1 i \<longleftrightarrow> (\<exists>k < 2. bit y (i + k))" for i
    unfolding a1_def by (rule smear_step [OF 0]) simp
  have 2: "bit a2 i \<longleftrightarrow> (\<exists>k < 4. bit y (i + k))" for i
    unfolding a2_def by (rule smear_step [OF 1]) simp
  have 3: "bit a3 i \<longleftrightarrow> (\<exists>k < 8. bit y (i + k))" for i
    unfolding a3_def by (rule smear_step [OF 2]) simp
  have 4: "bit a4 i \<longleftrightarrow> (\<exists>k < 16. bit y (i + k))" for i
    unfolding a4_def by (rule smear_step [OF 3]) simp
  have "bit (a4 OR drop_bit 16 a4) i \<longleftrightarrow> (\<exists>k < 32. bit y (i + k))"
    by (rule smear_step [OF 4]) simp
  then show ?thesis by (simp add: smear_def Let_def a1_def a2_def a3_def a4_def)
qed

text \<open>Below 2^32 the result is all ones up to the highest bit.\<close>

lemma smear_mask:
  assumes "unat y < 2 ^ n" "n = 0 \<or> 2 ^ (n - 1) \<le> unat y" "n \<le> 32"
  shows "smear y = mask n"
proof (rule bit_word_eqI)
  fix i assume "i < LENGTH(64)"
  have top: "\<not> bit y j" if "n \<le> j" for j
  proof -
    have "(2::nat) ^ n \<le> 2 ^ j" using that by (intro power_increasing) simp_all
    then have "unat y < 2 ^ j" using assms(1) by linarith
    then have "\<not> bit (unat y) j" by (simp add: bit_iff_odd)
    then show ?thesis by (simp add: bit_unsigned_iff)
  qed
  show "bit (smear y) i \<longleftrightarrow> bit (mask n :: u64) i"
  proof (cases "i < n")
    case True
    have "unat y div 2 ^ (n - 1) = 1"
      using assms True by (cases n) (auto intro!: div_nat_eqI)
    then have "bit (unat y) (n - 1)" by (simp add: bit_iff_odd)
    then have "bit y (n - 1)" by (simp add: bit_unsigned_iff)
    then have "bit (smear y) i"
      unfolding bit_smear using True assms(3) by (intro exI [of _ "n - 1 - i"]) simp
    then show ?thesis using True assms(3) by (simp add: bit_mask_iff)
  next
    case False
    then have "\<not> bit (smear y) i" unfolding bit_smear using top by simp
    then show ?thesis using False by (simp add: bit_mask_iff)
  qed
qed

lemma roundUpToNextPower2_power:
  assumes "unat n \<le> 2 ^ k" "k = 0 \<and> n = 1 \<or> 2 ^ (k - 1) < unat n" "k \<le> 32"
  shows "roundUpToNextPower2 n = 2 ^ k"
proof -
  have n: "unat n \<noteq> 0" using assms(2) by auto
  then have n1: "unat (n - 1) = unat n - 1"
    by (subst unat64_diff_eq) simp_all
  have "smear (n - 1) = mask k"
    by (rule smear_mask) (use assms n n1 in \<open>auto simp: unat_eq_0\<close>)
  then show ?thesis
    by (simp add: roundUpToNextPower2_smear mask_eq_exp_minus_1)
qed

section \<open>Headers: proofs\<close>

lemma head_parts:
  "region b 8 \<subseteq> region b 64" "region (b + 8) 8 \<subseteq> region b 64" "region (b + 16) 8 \<subseteq> region b 64"
  "region (b + 24) 8 \<subseteq> region b 64" "region (b + 32) 4 \<subseteq> region b 64"
  "region (b + 40) 8 \<subseteq> region b 64" "region (b + 48) 8 \<subseteq> region b 64"
  "region (b + 56) 2 \<subseteq> region b 64" "b + 58 \<in> region b 64"
  by (rule region_subset; simp)+ simp

text \<open>The bytes of the fields: all of the 64 but the padding.\<close>

definition head_bytes :: "ptr \<Rightarrow> ptr set" where
  "head_bytes b = region b 8 \<union> region (b + 8) 8 \<union> region (b + 16) 8 \<union> region (b + 24) 8 \<union>
     region (b + 32) 4 \<union> region (b + 40) 8 \<union> region (b + 48) 8 \<union> region (b + 56) 2 \<union> {b + 58}"

lemma head_bytes_parts:
  "region b 8 \<subseteq> head_bytes b" "region (b + 8) 8 \<subseteq> head_bytes b" "region (b + 16) 8 \<subseteq> head_bytes b"
  "region (b + 24) 8 \<subseteq> head_bytes b" "region (b + 32) 4 \<subseteq> head_bytes b"
  "region (b + 40) 8 \<subseteq> head_bytes b" "region (b + 48) 8 \<subseteq> head_bytes b"
  "region (b + 56) 2 \<subseteq> head_bytes b" "b + 58 \<in> head_bytes b"
  unfolding head_bytes_def by blast+

lemma head_bytes_subset: "head_bytes b \<subseteq> region b 64"
  unfolding head_bytes_def using head_parts [of b] by blast

text \<open>Writing a header leaves every other byte alone.\<close>

lemma same_on_set_hd_bytes:
  assumes "head_bytes b \<inter> R = {}"
  shows "same_on R (set_hd_previous b v m) m" "same_on R (set_hd_right b v m) m"
    "same_on R (set_hd_left b v m) m" "same_on R (set_hd_next b v m) m"
    "same_on R (set_hd_status b st m) m" "same_on R (set_hd_childSize b v m) m"
    "same_on R (set_hd_size b v m) m" "same_on R (set_hd_level b l m) m"
    "same_on R (set_hd_coalesced b c m) m"
  unfolding hd_setters
  by (rule same_on_store_le same_on_upd; use head_bytes_parts [of b] assms in blast)+

lemma same_on_set_hd:
  assumes "region b 64 \<inter> R = {}"
  shows "same_on R (set_hd_previous b v m) m" "same_on R (set_hd_right b v m) m"
    "same_on R (set_hd_left b v m) m" "same_on R (set_hd_next b v m) m"
    "same_on R (set_hd_status b st m) m" "same_on R (set_hd_childSize b v m) m"
    "same_on R (set_hd_size b v m) m" "same_on R (set_hd_level b l m) m"
    "same_on R (set_hd_coalesced b c m) m"
proof -
  have "head_bytes b \<inter> R = {}" using assms head_bytes_subset [of b] by blast
  then show "same_on R (set_hd_previous b v m) m" "same_on R (set_hd_right b v m) m"
    "same_on R (set_hd_left b v m) m" "same_on R (set_hd_next b v m) m"
    "same_on R (set_hd_status b st m) m" "same_on R (set_hd_childSize b v m) m"
    "same_on R (set_hd_size b v m) m" "same_on R (set_hd_level b l m) m"
    "same_on R (set_hd_coalesced b c m) m"
    by (rule same_on_set_hd_bytes)+
qed

text \<open>A header determines its bytes.\<close>

lemma load_le_determines:
  assumes "load_le n m a = (load_le n m' a :: 'w::len word)" "LENGTH('w) = 8 * n" "n \<le> 8"
  shows "same_on (region a n) m m'"
  unfolding same_on_def
proof
  fix x assume x: "x \<in> region a n"
  let ?i = "unat (x - a)"
  have ai: "a + of_nat ?i = x" by simp
  show "m x = m' x"
  proof (rule bit_word_eqI)
    fix j assume j: "j < LENGTH(8)"
    have k: "8 * ?i + j < LENGTH('w)" "(8 * ?i + j) div 8 = ?i" "(8 * ?i + j) mod 8 = j"
      using x j assms(2) by simp_all
    have "bit (load_le n m a :: 'w word) (8 * ?i + j) \<longleftrightarrow> bit (load_le n m' a :: 'w word) (8 * ?i + j)"
      using assms(1) by simp
    then show "bit (m x) j \<longleftrightarrow> bit (m' x) j"
      unfolding bit_load_le k ai using k(1) assms(2) by simp
  qed
qed

lemma read_head_determines:
  assumes "read_head m b = read_head m' b"
  shows "same_on (head_bytes b) m m'"
proof -
  have "hd_previous m b = hd_previous m' b" "hd_right m b = hd_right m' b" "hd_left m b = hd_left m' b"
    "hd_next m b = hd_next m' b" "hd_status m b = hd_status m' b" "hd_childSize m b = hd_childSize m' b"
    "hd_size m b = hd_size m' b" "hd_level m b = hd_level m' b" "hd_coalesced m b = hd_coalesced m' b"
    using assms by (simp_all add: read_head_def)
  note this(1-8) [THEN load_le_determines, simplified] and this(9)
  then show ?thesis unfolding head_bytes_def by (auto simp: same_on_def simp del: in_region)
qed

lemma head_local:
  assumes "same_on (region b 64) m m'"
  shows "hd_previous m b = hd_previous m' b" "hd_right m b = hd_right m' b"
    "hd_left m b = hd_left m' b" "hd_next m b = hd_next m' b" "hd_status m b = hd_status m' b"
    "hd_childSize m b = hd_childSize m' b" "hd_size m b = hd_size m' b" "hd_level m b = hd_level m' b"
    "hd_coalesced m b = hd_coalesced m' b"
  using assms head_parts [of b]
  by (auto intro!: load_le_cong intro: same_on_subset simp: same_on_def)

lemma read_head_local: "same_on (region b 64) m m' \<Longrightarrow> read_head m b = read_head m' b"
  unfolding read_head_def using head_local [of b m m'] by simp

lemma headers_apart:
  assumes "64 \<le> unat (b - c)" "64 \<le> unat (c - b)"
  shows "region b 64 \<inter> region c 64 = {}"
  by (rule region_disjoint) (use assms in simp_all)

text \<open>The second half of a page is apart from its first header.\<close>

lemma halves_apart: "region (b + 2048) 64 \<inter> region b 64 = {}"
  by (rule headers_apart) simp_all

text \<open>What \<open>malloc_split\<close> writes, with every value it reads resolved.\<close>

lemma malloc_split_eq:
  assumes "hd_childSize m b = 2048"
  shows "malloc_split b m =
    set_hd_next (b + 2048) (hd_next m b) (set_hd_size (b + 2048) (hd_size m b div 2)
      (set_hd_size b (hd_size m b div 2) (set_hd_status b unused
        (set_hd_right b (b + 2048) (set_hd_left b b m)))))"
proof -
  have c: "hd_childSize (set_hd_left b b m) b = 2048" using assms by (simp add: hd_setters)
  define m2 where "m2 = set_hd_status b unused (set_hd_right b (b + 2048) (set_hd_left b b m))"
  have m2: "hd_size m2 b = hd_size m b" "hd_next m2 b = hd_next m b" "hd_right m2 b = b + 2048"
    by (simp_all add: m2_def hd_setters)
  define m3 where "m3 = set_hd_size b (hd_size m b div 2) m2"
  have m3: "hd_size m3 b = hd_size m b div 2" "hd_next m3 b = hd_next m b" "hd_right m3 b = b + 2048"
    by (simp_all add: m3_def m2 hd_setters)
  define m4 where "m4 = set_hd_size (b + 2048) (hd_size m b div 2) m3"
  have m4: "hd_next m4 b = hd_next m b" "hd_right m4 b = b + 2048"
    by (simp_all add: m4_def m3 hd_setters)
  show ?thesis
    unfolding malloc_split_def Let_def c
    by (fold m2_def) (simp only: m2, fold m3_def, simp only: m3, fold m4_def, simp only: m4)
qed

lemma malloc_split_fields:
  fixes b :: ptr
  assumes "hd_childSize m b = 2048"
  shows "hd_left (malloc_split b m) b = b" "hd_right (malloc_split b m) b = b + 2048"
    "hd_status (malloc_split b m) b = unused" "hd_size (malloc_split b m) b = hd_size m b div 2"
    "hd_childSize (malloc_split b m) b = 2048" "hd_next (malloc_split b m) b = hd_next m b"
    "hd_size (malloc_split b m) (b + 2048) = hd_size m b div 2"
    "hd_next (malloc_split b m) (b + 2048) = hd_next m b"
    "hd_status (malloc_split b m) (b + 2048) = hd_status m (b + 2048)"
    "hd_left (malloc_split b m) (b + 2048) = hd_left m (b + 2048)"
  unfolding malloc_split_eq [OF assms] hd_setters using assms by simp_all

lemma malloc_split_outside:
  assumes "hd_childSize m b = 2048" "region b 64 \<inter> R = {}" "region (b + 2048) 64 \<inter> R = {}"
  shows "same_on R (malloc_split b m) m"
  unfolding malloc_split_eq [OF assms(1)]
  by (meson same_on_set_hd [OF assms(2)] same_on_set_hd [OF assms(3)] same_on_trans)

end
