(* ===== verification/Heap.thy ===== *)
theory Heap
  imports Malloc
begin

text \<open>
  What the heap of \<open>kernel/memory/malloc.cpp\<close> does: \<open>initNodes\<close> builds the list of pages, the first
  requests are served by halving a page, a request of several pages is undone by \<open>freex\<close>, and the
  places where the code goes wrong: a block in use is handed out again, and \<open>reallocx\<close> waits for a
  lock it holds itself.
\<close>

section \<open>Powers of two\<close>

lemma power64_le: "k \<le> j \<Longrightarrow> j < 64 \<Longrightarrow> (2::u64) ^ k \<le> 2 ^ j"
  by (simp add: word_le_nat_alt unat64_power)

lemma power64_eq: "k < 64 \<Longrightarrow> j < 64 \<Longrightarrow> (2::u64) ^ k = 2 ^ j \<longleftrightarrow> k = j"
  by (simp add: word_unat_eq_iff unat64_power)

lemma power64_half: "j < 63 \<Longrightarrow> (2::u64) ^ Suc j div 2 = 2 ^ j"
  using unat64_power [of "Suc j"] unat64_power [of j]
  by (simp add: word_unat_eq_iff unat_div del: power_Suc) simp

lemma page_power: "k \<le> 12 \<Longrightarrow> \<not> PAGE_SIZE < (2::u64) ^ k"
  using power64_le [of k 12] by (simp add: PAGE_SIZE_def not_less)

section \<open>Halving a page\<close>

text \<open>A node that is free and, if it was halved before, is its own left half.\<close>

definition free_node :: "memory \<Rightarrow> ptr \<Rightarrow> nat \<Rightarrow> bool" where
  "free_node m b j \<longleftrightarrow> hd_size m b = 2 ^ j \<and> hd_status m b = unused \<and> hd_childSize m b = 2048 \<and>
     (hd_left m b = 0 \<or> hd_left m b = b)"

lemma free_node_split: "free_node m b (Suc j) \<Longrightarrow> j < 63 \<Longrightarrow> free_node (malloc_split b m) b j"
  using malloc_split_fields [of m b] power64_half [of j] by (simp add: free_node_def)

lemma malloc_round_free:
  assumes "free_node m b j" "k \<le> j" "j \<le> 12"
  shows "malloc_round (2 ^ k) b m =
    (if k = j then Found b m else Again b (malloc_split b m))"
proof -
  have join: "malloc_join (2 ^ k) b m = None"
    using assms page_power [of k] by (simp add: malloc_join_def)
  have adv: "malloc_advance b m = b"
    using assms(1) by (auto simp: malloc_advance_def free_node_def flag_defs)
  have "\<not> (2::u64) ^ j < 2 ^ k" using power64_le [of k j] assms by (simp add: not_less)
  moreover have "(2::u64) ^ j = 2 ^ k \<longleftrightarrow> k = j" using power64_eq [of j k] assms by auto
  moreover have "hd_left (malloc_split b m) b = b"
    using assms(1) by (simp add: malloc_split_fields free_node_def)
  ultimately show ?thesis
    using assms(1) by (simp add: malloc_round_def join adv free_node_def flag_defs)
qed

text \<open>The loop ends at the node, after as many halvings as the size asks for.\<close>

lemma malloc_loop_halves:
  assumes "free_node m b j" "k \<le> j" "j \<le> 12"
  shows "malloc_loop (2 ^ k) b m = Some (Found b ((malloc_split b ^^ (j - k)) m))"
  using assms
proof (induction j arbitrary: m)
  case 0
  then show ?case using malloc_round_free [of m b 0 0] by (subst malloc_loop.simps) simp
next
  case (Suc j)
  show ?case
  proof (cases "k = Suc j")
    case True
    with malloc_round_free [of m b "Suc j" k] Suc.prems show ?thesis
      by (subst malloc_loop.simps) (simp del: power_Suc)
  next
    case False
    then have "malloc_loop (2 ^ k) b (malloc_split b m) =
        Some (Found b ((malloc_split b ^^ (j - k)) (malloc_split b m)))"
      using Suc by (intro Suc.IH free_node_split) simp_all
    moreover have "(malloc_split b ^^ (j - k)) (malloc_split b m) = (malloc_split b ^^ (Suc j - k)) m"
      using False Suc.prems by (simp add: Suc_diff_le funpow_swap1)
    ultimately show ?thesis
      using malloc_round_free [of m b "Suc j" k] False Suc.prems by (subst malloc_loop.simps) simp
  qed
qed

lemma halved_free: "free_node m b (k + i) \<Longrightarrow> k + i \<le> 12 \<Longrightarrow> free_node ((malloc_split b ^^ i) m) b k"
proof (induction i arbitrary: m)
  case (Suc i)
  then have "free_node ((malloc_split b ^^ i) (malloc_split b m)) b k"
    by (intro Suc.IH free_node_split) simp_all
  then show ?case by (simp add: funpow_swap1)
qed simp

lemma halved_outside:
  assumes "free_node m b (k + i)" "k + i \<le> 12" "region b 64 \<inter> R = {}" "region (b + 2048) 64 \<inter> R = {}"
  shows "same_on R ((malloc_split b ^^ i) m) m"
  using assms(1,2)
proof (induction i arbitrary: m)
  case (Suc i)
  then have "same_on R ((malloc_split b ^^ i) (malloc_split b m)) (malloc_split b m)"
    by (intro Suc.IH free_node_split) simp_all
  moreover have "same_on R (malloc_split b m) m"
    using Suc.prems(1) by (intro malloc_split_outside assms) (simp add: free_node_def)
  ultimately show ?case using same_on_trans by (simp add: funpow_swap1)
qed simp

text \<open>The two headers of a page that was halved at least once.\<close>

lemma halved_pair:
  assumes "free_node m b (k + Suc i)" "k + Suc i \<le> 12"
  defines "m' \<equiv> (malloc_split b ^^ Suc i) m"
  shows "hd_left m' b = b" "hd_right m' b = b + 2048" "hd_next m' b = hd_next m b"
    "hd_size m' (b + 2048) = 2 ^ k" "hd_next m' (b + 2048) = hd_next m b"
    "hd_status m' (b + 2048) = hd_status m (b + 2048)" "hd_left m' (b + 2048) = hd_left m (b + 2048)"
proof -
  have "hd_left m' b = b \<and> hd_right m' b = b + 2048 \<and> hd_next m' b = hd_next m b \<and>
    hd_size m' (b + 2048) = 2 ^ k \<and> hd_next m' (b + 2048) = hd_next m b \<and>
    hd_status m' (b + 2048) = hd_status m (b + 2048) \<and> hd_left m' (b + 2048) = hd_left m (b + 2048)"
    unfolding m'_def using assms(1,2)
  proof (induction i arbitrary: m)
    case 0
    then have c: "hd_childSize m b = 2048" and "hd_size m b div 2 = 2 ^ k"
      using power64_half [of k] by (simp_all add: free_node_def)
    then show ?case
      by (simp only: funpow.simps comp_apply id_apply malloc_split_fields [OF c])
  next
    case (Suc i)
    have free: "free_node (malloc_split b m) b (k + Suc i)"
      using Suc.prems by (intro free_node_split) simp_all
    have c: "hd_childSize m b = 2048" using Suc.prems by (simp add: free_node_def)
    have swap: "(malloc_split b ^^ Suc (Suc i)) m = (malloc_split b ^^ Suc i) (malloc_split b m)"
      by (simp only: funpow_Suc_right comp_apply)
    show ?case
      using Suc.IH [OF free] Suc.prems(2)
      unfolding swap by (simp only: malloc_split_fields [OF c] simp_thms)
  qed
  then show "hd_left m' b = b" "hd_right m' b = b + 2048" "hd_next m' b = hd_next m b"
    "hd_size m' (b + 2048) = 2 ^ k" "hd_next m' (b + 2048) = hd_next m b"
    "hd_status m' (b + 2048) = hd_status m (b + 2048)" "hd_left m' (b + 2048) = hd_left m (b + 2048)"
    by blast+
qed

section \<open>The pool\<close>

definition pool_node :: "ptr \<Rightarrow> nat \<Rightarrow> ptr" where
  "pool_node b i = b + of_nat i * 4096"

text \<open>The header of page \<open>i\<close> after \<open>initNodes\<close>.\<close>

definition pool_head :: "ptr \<Rightarrow> nat \<Rightarrow> head" where
  "pool_head b i = \<lparr>h_previous = (if i = 0 then 0 else pool_node b i - 4096), h_right = 0, h_left = 0,
     h_next = pool_node b i + 4096, h_status = unused, h_childSize = 2048, h_size = 4096,
     h_level = 0, h_isBuddyCoalesced = 0\<rparr>"

definition pool :: "memory \<Rightarrow> ptr \<Rightarrow> bool" where
  "pool m b \<longleftrightarrow> (\<forall>i < POOL_ARRAY_SIZE - 1. read_head m (pool_node b i) = pool_head b i)"

lemma pool_node_0 [simp]: "pool_node b 0 = b"
  by (simp add: pool_node_def)

lemma pool_node_Suc: "pool_node b (Suc i) = pool_node b i + 4096"
  by (simp add: pool_node_def algebra_simps)

text \<open>Headers stand at multiples of half a page.\<close>

definition half_page :: "ptr \<Rightarrow> nat \<Rightarrow> ptr" where
  "half_page b i = b + of_nat i * 2048"

lemma pool_node_half: "pool_node b i = half_page b (2 * i)" "pool_node b i + 2048 = half_page b (2 * i + 1)"
  by (simp_all add: pool_node_def half_page_def algebra_simps)

lemma half_page_diff:
  assumes "i < 1000000" "j < i"
  shows "unat (half_page b i - half_page b j) = (i - j) * 2048"
proof -
  have "half_page b i - half_page b j = of_nat ((i - j) * 2048)"
    using assms(2) by (simp add: half_page_def of_nat_diff algebra_simps)
  then show ?thesis using assms(1) unat64_of_nat [of "(i - j) * 2048"] by (simp del: of_nat_mult)
qed

lemma half_pages_apart:
  assumes "i \<noteq> j" "i < 1000000" "j < 1000000"
  shows "region (half_page b i) 64 \<inter> region (half_page b j) 64 = {}"
proof -
  have apart: "region (half_page b i) 64 \<inter> region (half_page b j) 64 = {}"
    if "j < i" "i < 1000000" for i j
  proof (rule headers_apart)
    have d: "unat (half_page b i - half_page b j) = (i - j) * 2048" by (rule half_page_diff [OF that(2,1)])
    have "(i - j) * 2048 \<le> 1000000 * 2048" using that by (intro mult_le_mono1) simp
    moreover have "2048 \<le> (i - j) * 2048" using that(1) by simp
    moreover have "half_page b j \<noteq> half_page b i" using d that by auto
    ultimately show "64 \<le> unat (half_page b i - half_page b j)" "64 \<le> unat (half_page b j - half_page b i)"
      using d unat64_diff_swap [of "half_page b j" "half_page b i"] by linarith+
  qed
  then show ?thesis using assms by (cases "j < i") (auto simp: Int_commute)
qed

lemma pool_nodes_apart:
  assumes "i \<noteq> j" "i < 10000" "j < 10000"
  shows "region (pool_node b i) 64 \<inter> region (pool_node b j) 64 = {}"
  unfolding pool_node_half by (rule half_pages_apart) (use assms in auto)

lemma pool_half_apart:
  assumes "i < 10000" "j < 10000"
  shows "region (pool_node b i) 64 \<inter> region (pool_node b j + 2048) 64 = {}"
  unfolding pool_node_half(2) unfolding pool_node_half(1)
  by (rule half_pages_apart) (use assms in presburger)+

lemma init_node_head:
  "read_head (init_node i c m) c = \<lparr>h_previous = (if i = 0 then 0 else c - 4096), h_right = 0, h_left = 0,
     h_next = c + 4096, h_status = unused, h_childSize = 2048, h_size = 4096,
     h_level = hd_level m c, h_isBuddyCoalesced = hd_coalesced m c\<rparr>"
  by (simp add: read_head_def init_node_def hd_setters PAGE_SIZE_def)

lemma init_node_outside: "region c 64 \<inter> R = {} \<Longrightarrow> same_on R (init_node i c m) m"
  unfolding init_node_def Let_def by (simp split: if_split) (meson same_on_set_hd same_on_trans)

lemma init_nodes_outside:
  assumes "\<And>j. i \<le> j \<Longrightarrow> j < i + k \<Longrightarrow> region (pool_node b j) 64 \<inter> R = {}"
  shows "same_on R (init_nodes k i (pool_node b i) m) m"
  using assms
proof (induction k arbitrary: i m)
  case (Suc k)
  have n: "hd_next (init_node i (pool_node b i) m) (pool_node b i) = pool_node b (Suc i)"
    using arg_cong [OF init_node_head, of h_next] by (simp add: read_head_def pool_node_Suc)
  have "same_on R (init_nodes k (Suc i) (pool_node b (Suc i)) (init_node i (pool_node b i) m))
      (init_node i (pool_node b i) m)"
    by (rule Suc.IH) (rule Suc.prems; simp)
  moreover have "same_on R (init_node i (pool_node b i) m) m"
    by (rule init_node_outside) (rule Suc.prems; simp)
  ultimately show ?case by (simp add: n Let_def) (rule same_on_trans)
qed simp

lemma init_nodes_heads:
  assumes "i \<le> j" "j < i + k" "i + k \<le> 10000"
    "hd_level m (pool_node b j) = 0" "hd_coalesced m (pool_node b j) = 0"
  shows "read_head (init_nodes k i (pool_node b i) m) (pool_node b j) = pool_head b j"
  using assms
proof (induction k arbitrary: i m)
  case (Suc k)
  let ?m = "init_node i (pool_node b i) m"
  have n: "hd_next ?m (pool_node b i) = pool_node b (Suc i)"
    using arg_cong [OF init_node_head, of h_next] by (simp add: read_head_def pool_node_Suc)
  show ?case
  proof (cases "j = i")
    case True
    have "same_on (region (pool_node b i) 64) (init_nodes k (Suc i) (pool_node b (Suc i)) ?m) ?m"
      by (rule init_nodes_outside) (rule pool_nodes_apart; use Suc.prems in simp)
    then have "read_head (init_nodes k (Suc i) (pool_node b (Suc i)) ?m) (pool_node b i) =
        read_head ?m (pool_node b i)" by (rule read_head_local)
    then show ?thesis
      using True Suc.prems by (simp add: n Let_def init_node_head pool_head_def)
  next
    case False
    have "same_on (region (pool_node b j) 64) ?m m"
      by (rule init_node_outside) (rule pool_nodes_apart; use False Suc.prems in simp)
    then have "hd_level ?m (pool_node b j) = 0" "hd_coalesced ?m (pool_node b j) = 0"
      using head_local(8,9) Suc.prems(4,5) by metis+
    then have "read_head (init_nodes k (Suc i) (pool_node b (Suc i)) ?m) (pool_node b j) = pool_head b j"
      using False Suc.prems by (intro Suc.IH) simp_all
    then show ?thesis by (simp add: n Let_def)
  qed
qed simp

section \<open>initNodes\<close>

abbreviation pool_bytes :: u64 where "pool_bytes \<equiv> 12779520"

lemma pool_bytes_round: "roundUpToPageBoundary pool_bytes = pool_bytes"
  by (simp add: roundUpToPageBoundary_def PAGESIZE_def)

lemma page_aligned_not_failed: "page_aligned a \<Longrightarrow> a \<noteq> -1"
  unfolding page_aligned_bits by (auto dest: spec [of _ 0])

lemma alloc_ok_heap_fields [simp]:
  "alloc_ok (s\<lparr>freeList := p\<rparr>) = alloc_ok s" "alloc_ok (s\<lparr>heap_mutex := l\<rparr>) = alloc_ok s"
  "next_free (s\<lparr>freeList := p\<rparr>) = next_free s" "next_free (s\<lparr>heap_mutex := l\<rparr>) = next_free s"
  "next_free (s\<lparr>mem := m\<rparr>) = next_free s" "hhdm (s\<lparr>freeList := p\<rparr>) = hhdm s" "hhdm (s\<lparr>heap_mutex := l\<rparr>) = hhdm s"
  "room (s\<lparr>freeList := p\<rparr>) = room s" "room (s\<lparr>heap_mutex := l\<rparr>) = room s"
  by (simp_all add: alloc_ok_def next_free_def hhdm_def room_def boot_current_def)

lemma initNodes_eq:
  assumes "alloc_ok s" "pool_bytes \<le> room s"
  shows "initNodes s = Done () ((bump pool_bytes s)\<lparr>freeList := next_free s,
    mem := init_nodes (POOL_ARRAY_SIZE - 1) 0 (next_free s) (mem (bump pool_bytes s))\<rparr>)"
proof -
  have al: "allocateFrame pool_bytes s = Done (next_free s - hhdm s) (bump pool_bytes s)"
    by (rule allocateFrame_eq [OF assms(1) pool_bytes_round [symmetric] assms(2)])
  have "page_aligned (next_free s - hhdm s)"
    using assms(1) by (intro page_aligned_diff) (simp_all add: alloc_ok_def)
  then have "toVirtualAddr (next_free s - hhdm s) (bump pool_bytes s) = (next_free s, bump pool_bytes s)"
    by (subst toVirtualAddr_current) (simp_all add: page_aligned_not_failed)
  then show ?thesis
    by (simp add: initNodes_def al malloc_consts sizeof_head_def)
qed

text \<open>The headers of the pool lie inside the frame.\<close>

lemma pool_node_inside:
  assumes "unat h + unat pool_bytes + 40 \<le> 18446744073709551616" "i < 3120"
  shows "region (pool_node h i) 64 \<subseteq> region h (unat pool_bytes)"
proof (rule region_subset)
  have "unat (of_nat i * 4096 :: u64) = i * 4096"
    using assms(2) unat64_of_nat [of "i * 4096"] by simp
  then show "unat (pool_node h i - h) + 64 \<le> unat pool_bytes"
    using assms(2) by (simp add: pool_node_def)
qed simp

lemma heap_alloc_ok_store:
  assumes "alloc_ok s" "frame_head s \<noteq> 0" "same_on (region (frame_head s) 40) m (mem s)"
  shows "alloc_ok (s\<lparr>mem := m\<rparr>)"
proof -
  have "fb_next m (frame_head s) = fb_next (mem s) (frame_head s)"
    "fb_size m (frame_head s) = fb_size (mem s) (frame_head s)"
    using assms(3) fb_regions [of "frame_head s"] by (auto intro!: load_le_cong intro: same_on_subset)
  then show ?thesis
    using assms(1,2) by (simp add: alloc_ok_def hhdm_def room_def next_free_def boot_current_def)
qed

lemma initNodes_pool:
  assumes "alloc_ok s" "pool_bytes \<le> room s"
  shows "\<exists>s'. initNodes s = Done () s' \<and> freeList s' = next_free s \<and> pool (mem s') (next_free s) \<and>
    read_head (mem s') (pool_node (next_free s) 3071) =
      \<lparr>h_previous = 0, h_right = 0, h_left = 0, h_next = 0, h_status = unused, h_childSize = 0,
       h_size = 0, h_level = 0, h_isBuddyCoalesced = 0\<rparr> \<and>
    alloc_ok s' \<and> next_free s' = next_free s + pool_bytes \<and>
    same_on (below (next_free s)) (mem s') (mem s) \<and> heap_mutex s' = heap_mutex s \<and>
    (\<forall>i < 3071. hd_status (mem s') (pool_node (next_free s) i + 2048) = unused \<and>
       hd_left (mem s') (pool_node (next_free s) i + 2048) = 0)"
proof -
  let ?h = "next_free s"
  let ?b = "bump pool_bytes s"
  let ?m = "init_nodes 3071 0 ?h (mem ?b)"
  let ?s = "?b\<lparr>freeList := ?h, mem := ?m\<rparr>"
  have al: "page_aligned pool_bytes" by (simp add: page_aligned_def)
  note fits = room_fits [OF assms]
  note inside = pool_node_inside [OF fits(1)]
  have zero: "mem ?b x = 0" if "x \<in> region ?h (unat pool_bytes)" for x
    using bump_zero that by blast
  have out: "same_on R ?m (mem ?b)" if "region ?h (unat pool_bytes) \<inter> R = {}" for R
  proof -
    have "same_on R (init_nodes 3071 0 (pool_node ?h 0) (mem ?b)) (mem ?b)"
    proof (rule init_nodes_outside)
      fix j :: nat assume "j < 0 + 3071"
      then show "region (pool_node ?h j) 64 \<inter> R = {}" using inside [of j] that by fastforce
    qed
    then show ?thesis by simp
  qed
  have rh0: "read_head (mem ?b) (pool_node ?h i) =
      \<lparr>h_previous = 0, h_right = 0, h_left = 0, h_next = 0, h_status = unused, h_childSize = 0,
       h_size = 0, h_level = 0, h_isBuddyCoalesced = 0\<rparr>" if "i < 3120" for i
  proof -
    have "same_on (region (pool_node ?h i) 64) (mem ?b) (\<lambda>_. 0)"
      using zero inside [OF that] by (auto simp: same_on_def)
    then have "read_head (mem ?b) (pool_node ?h i) = read_head (\<lambda>_. 0) (pool_node ?h i)"
      by (rule read_head_local)
    then show ?thesis by (simp add: read_head_def load_le_zero flag_defs)
  qed
  have "pool ?m ?h"
    unfolding pool_def malloc_consts
  proof (intro allI impI)
    fix i :: nat assume "i < 3072 - 1"
    then show "read_head ?m (pool_node ?h i) = pool_head ?h i"
      using init_nodes_heads [of 0 i 3071 "mem ?b" ?h] rh0 [of i] by (simp add: read_head_def)
  qed
  moreover have "read_head ?m (pool_node ?h 3071) = read_head (mem ?b) (pool_node ?h 3071)"
    using init_nodes_outside [of 0 3071 ?h "region (pool_node ?h 3071) 64" "mem ?b"]
    by (intro read_head_local) (simp add: pool_nodes_apart del: in_region)
  moreover have "alloc_ok ?s"
  proof -
    have "region ?h (unat pool_bytes) \<inter> region (?h + pool_bytes) 40 = {}"
      using header_apart(1) [of pool_bytes ?h] fits(1) alloc_ok_nonzero [OF assms(1)] by simp
    note same = out [OF this, unfolded bump_fields]
    then have "alloc_ok ((?b\<lparr>freeList := ?h\<rparr>)\<lparr>mem := ?m\<rparr>)"
      using alloc_ok_bump [OF assms al] next_free_bump [OF assms] alloc_ok_nonzero [OF assms(1)]
        fits(2) same by (intro heap_alloc_ok_store) (auto simp: unat_eq_0 [symmetric] simp del: unat_eq_zero)
    then show ?thesis .
  qed
  moreover have "next_free ?s = ?h + pool_bytes"
    using next_free_bump [OF assms] by simp
  moreover have "same_on (below ?h) ?m (mem s)"
  proof -
    have "region ?h (unat pool_bytes) \<inter> below ?h = {}"
      by (rule region_not_below) (use fits(1) in simp_all)
    then show ?thesis using out bump_below [OF assms al] same_on_trans by blast
  qed
  moreover have "hd_status ?m (pool_node ?h i + 2048) = unused \<and> hd_left ?m (pool_node ?h i + 2048) = 0"
    if i: "i < 3071" for i
  proof -
    have "unat (of_nat (i * 4096 + 2048) :: u64) = i * 4096 + 2048"
      by (rule unat64_of_nat) (use i in simp)
    moreover have "pool_node ?h i + 2048 - ?h = of_nat (i * 4096 + 2048)"
      by (simp add: pool_node_def)
    ultimately have "unat (pool_node ?h i + 2048 - ?h) = i * 4096 + 2048" by metis
    then have "region (pool_node ?h i + 2048) 64 \<subseteq> region ?h (unat pool_bytes)"
      by (intro region_subset) (use i in simp_all)
    moreover have "same_on (region (pool_node ?h i + 2048) 64) (init_nodes 3071 0 (pool_node ?h 0) (mem ?b)) (mem ?b)"
      by (rule init_nodes_outside, rule pool_half_apart) (use i in simp_all)
    ultimately have "same_on (region (pool_node ?h i + 2048) 64) ?m (\<lambda>_. 0)"
      using zero by (auto simp: same_on_def)
    note head_local(3,5) [OF this]
    then show ?thesis by (simp add: load_le_zero flag_defs)
  qed
  ultimately show ?thesis
    using initNodes_eq [OF assms] rh0 [of 3071]
    by (intro exI [of _ ?s]) (simp add: malloc_consts bump_def)
qed

section \<open>Requests below one page\<close>

lemma power_between:
  assumes "2 \<le> n" "n \<le> 2 ^ j"
  shows "\<exists>k. 0 < k \<and> k \<le> j \<and> 2 ^ (k - 1) < n \<and> n \<le> (2::nat) ^ k"
proof -
  obtain k where k: "2 ^ k < n" "n \<le> 2 ^ (k + 1)" using ex_power_ivl2 [of 2 n] assms(1) by auto
  then have "(2::nat) ^ k < 2 ^ j" using assms(2) by linarith
  then have "k < j" by (rule power_less_imp_less_exp [rotated]) simp
  then show ?thesis using k by (intro exI [of _ "k + 1"]) simp
qed

lemma block_size_power:
  assumes "unat n + 64 \<le> 2 ^ j" "j \<le> 32"
  shows "\<exists>k. k \<le> j \<and> block_size n = 2 ^ k \<and> unat n + 64 \<le> 2 ^ k \<and> 2 ^ k < 2 * (unat n + 64)"
proof -
  have "(2::nat) ^ j \<le> 2 ^ 32" using assms(2) by (intro power_increasing) simp_all
  then have u: "unat (n + 64) = unat n + 64"
    using assms(1) unat64_add_nowrap [of n 64] by simp
  obtain k where k: "0 < k" "k \<le> j" "2 ^ (k - 1) < unat n + 64" "unat n + 64 \<le> 2 ^ k"
    using power_between [of "unat n + 64" j] assms by auto
  have "roundUpToNextPower2 (n + 64) = 2 ^ k"
    by (rule roundUpToNextPower2_power) (use k u assms(2) in auto)
  moreover have "\<not> n + 64 < 32" using u by (simp add: word_less_nat_alt)
  ultimately have "block_size n = 2 ^ k"
    by (simp add: block_size_def sizeof_head_def MINIMUM_ALLOCATION_SIZE_def Let_def)
  moreover have "2 ^ k < 2 * (unat n + 64)" using k(1,3) by (cases k) auto
  ultimately show ?thesis using k by blast
qed

lemma heap_lock_free: "heap_mutex s = 0 \<Longrightarrow> heap_lock s = Done () (s\<lparr>heap_mutex := 1\<rparr>)"
  by (simp add: heap_lock_def)

lemma heap_lock_held: "heap_mutex s \<noteq> 0 \<Longrightarrow> heap_lock s = Loops"
  by (simp add: heap_lock_def)

lemma heap_unlock_eq: "heap_unlock s = s\<lparr>heap_mutex := 0\<rparr>"
  by (simp add: heap_unlock_def release_def unlock_value_def)

lemma heap_mutex_same: "heap_mutex s = 0 \<Longrightarrow> s\<lparr>heap_mutex := 0\<rparr> = s"
  by (cases s) simp

text \<open>\<open>mallocx\<close> once the heap exists, by the way its loop ends.\<close>

lemma mallocx_found:
  assumes "heap_mutex s = 0" "freeList s \<noteq> 0"
    "malloc_loop (block_size n) (freeList s) (mem s) = Some (Found c m)"
  shows "mallocx n s = Done (c + 64) (s\<lparr>mem := set_hd_status c allocated m\<rparr>)"
  using assms by (simp add: mallocx_def heap_lock_free heap_unlock_eq sizeof_head_def Let_def)

lemma mallocx_too_large:
  assumes "heap_mutex s = 0" "freeList s \<noteq> 0"
    "malloc_loop (block_size n) (freeList s) (mem s) = Some TooLarge"
  shows "mallocx n s = Done 0 s"
  using assms by (simp add: mallocx_def heap_lock_free heap_unlock_eq heap_mutex_same)

lemma mallocx_join:
  assumes "heap_mutex s = 0" "freeList s \<noteq> 0"
    "malloc_loop (block_size n) (freeList s) (mem s) = Some (Join c k)"
  shows "mallocx n s = coalesceBlocks c k s"
  using assms by (simp add: mallocx_def heap_lock_free heap_unlock_eq heap_mutex_same)

text \<open>A heap whose lock is free and whose first page is free.\<close>

definition first_free :: "ptr \<Rightarrow> 'a heap_state_scheme \<Rightarrow> bool" where
  "first_free b s \<longleftrightarrow> heap_mutex s = 0 \<and> freeList s = b \<and> b \<noteq> 0 \<and> free_node (mem s) b 12"

definition halved :: "ptr \<Rightarrow> nat \<Rightarrow> memory \<Rightarrow> memory" where
  "halved b k m = set_hd_status b allocated ((malloc_split b ^^ (12 - k)) m)"

lemma mallocx_first:
  assumes "first_free b s" "k \<le> 12" "block_size n = 2 ^ k"
  shows "mallocx n s = Done (b + 64) (s\<lparr>mem := halved b k (mem s)\<rparr>)"
proof -
  have "malloc_loop (block_size n) (freeList s) (mem s) =
      Some (Found b ((malloc_split b ^^ (12 - k)) (mem s)))"
    unfolding assms(3) using assms malloc_loop_halves [of "mem s" b 12 k] by (simp add: first_free_def)
  from mallocx_found [OF _ _ this] assms(1) show ?thesis
    by (simp add: first_free_def halved_def)
qed

lemma halved_fields:
  assumes "free_node m b 12" "k \<le> 12"
  shows "hd_size (halved b k m) b = 2 ^ k" "hd_status (halved b k m) b = allocated"
    "\<And>R. region b 64 \<inter> R = {} \<Longrightarrow> region (b + 2048) 64 \<inter> R = {} \<Longrightarrow> same_on R (halved b k m) m"
proof -
  have free: "free_node ((malloc_split b ^^ (12 - k)) m) b k"
    by (rule halved_free) (use assms in simp_all)
  then show "hd_size (halved b k m) b = 2 ^ k"
    by (simp add: halved_def hd_setters free_node_def)
  show "hd_status (halved b k m) b = allocated" by (simp add: halved_def hd_setters)
  show "same_on R (halved b k m) m" if "region b 64 \<inter> R = {}" "region (b + 2048) 64 \<inter> R = {}" for R
    unfolding halved_def
    using same_on_set_hd(5) [OF that(1)] halved_outside [of m b k "12 - k" R] assms that
    by (auto intro: same_on_trans)
qed

text \<open>The second request finds the other half.\<close>

lemma mallocx_second:
  assumes "first_free b s" "k \<le> 11" "block_size n = 2 ^ k"
    and other: "hd_status (mem s) (b + 2048) = unused" "hd_left (mem s) (b + 2048) = 0" "b + 2048 \<noteq> 0"
  shows "mallocx n (s\<lparr>mem := halved b k (mem s)\<rparr>) =
    Done (b + 2048 + 64) (s\<lparr>mem := set_hd_status (b + 2048) allocated (halved b k (mem s))\<rparr>)"
proof -
  let ?m = "halved b k (mem s)"
  have free: "free_node (mem s) b (k + Suc (11 - k))"
    using assms(1,2) by (simp add: first_free_def)
  have i: "Suc (11 - k) = 12 - k" using assms(2) by simp
  note p = halved_pair [OF free, unfolded i]
  have m: "hd_left ?m b = b" "hd_right ?m b = b + 2048" "hd_status ?m b = allocated"
    "hd_status ?m (b + 2048) = unused" "hd_size ?m (b + 2048) = 2 ^ k"
    using p other assms(2) by (simp_all add: halved_def hd_setters)
  have "malloc_join (2 ^ k) b ?m = None"
    using assms(2) page_power [of k] by (simp add: malloc_join_def)
  moreover have "malloc_advance b ?m = b + 2048"
    using m other(3) assms(1) by (simp add: malloc_advance_def first_free_def)
  ultimately have "malloc_loop (block_size n) b ?m = Some (Found (b + 2048) ?m)"
    using m by (subst malloc_loop.simps) (simp add: malloc_round_def assms(3))
  with mallocx_found [of "s\<lparr>mem := ?m\<rparr>" n "b + 2048" ?m] assms(1) show ?thesis
    by (simp add: first_free_def)
qed

section \<open>Requests of several pages\<close>

text \<open>A heap as \<open>initNodes\<close> leaves it, with the lock free.\<close>

definition heap_fresh :: "ptr \<Rightarrow> 'a heap_state_scheme \<Rightarrow> bool" where
  "heap_fresh b s \<longleftrightarrow> heap_mutex s = 0 \<and> freeList s = b \<and> 0 < unat b \<and>
     unat b + unat pool_bytes \<le> 18446744073709551616 \<and> pool (mem s) b \<and>
     (\<forall>i < 3071. hd_status (mem s) (pool_node b i + 2048) = unused \<and>
        hd_left (mem s) (pool_node b i + 2048) = 0)"

lemma pool_head_fields:
  assumes "pool m b" "i < 3071"
  shows "hd_previous m (pool_node b i) = (if i = 0 then 0 else pool_node b i - 4096)"
    "hd_right m (pool_node b i) = 0" "hd_left m (pool_node b i) = 0"
    "hd_next m (pool_node b i) = pool_node b (Suc i)" "hd_status m (pool_node b i) = unused"
    "hd_childSize m (pool_node b i) = 2048" "hd_size m (pool_node b i) = 4096"
    "hd_level m (pool_node b i) = 0" "hd_coalesced m (pool_node b i) = 0"
  using assms by (auto simp: pool_def malloc_consts read_head_def pool_head_def pool_node_Suc)

lemma heap_fresh_node:
  assumes "heap_fresh b s" "i < 3120"
  shows "pool_node b i \<noteq> 0" "unat (pool_node b i) = unat b + i * 4096"
proof -
  have "unat (of_nat i * 4096 :: u64) = i * 4096"
    using assms(2) unat64_of_nat [of "i * 4096"] by simp
  then show u: "unat (pool_node b i) = unat b + i * 4096"
    unfolding pool_node_def using assms by (subst unat64_add_nowrap) (simp_all add: heap_fresh_def)
  show "pool_node b i \<noteq> 0" using u assms(1) by (auto simp: heap_fresh_def)
qed

lemma heap_fresh_first: "heap_fresh b s \<Longrightarrow> first_free b s"
  using pool_head_fields [of "mem s" b 0] heap_fresh_node(1) [of b s 0]
  by (simp add: heap_fresh_def first_free_def free_node_def)

lemma nth_next_pool:
  assumes "pool m b" "i + k \<le> 3071"
  shows "nth_next m k (pool_node b i) = pool_node b (i + k)"
  using assms(2)
proof (induction k arbitrary: i)
  case (Suc k)
  then show ?case using pool_head_fields(4) [OF assms(1), of i] Suc.IH [of "Suc i"] by simp
qed simp

lemma can_coalesce_pool:
  assumes "pool m b" "i + k \<le> 3071"
  shows "can_coalesce m k (pool_node b i)"
  using assms(2)
proof (induction k arbitrary: i)
  case (Suc k)
  then show ?case using pool_head_fields(4,5) [OF assms(1), of i] Suc.IH [of "Suc i"]
    by (simp add: flag_defs)
qed simp

lemma malloc_join_pool:
  assumes "heap_fresh b s" "4096 < sz" "sz div 4096 \<le> 4 \<or> 4 < sz div 4096"
  shows "malloc_join sz b (mem s) = Some (if 4 < sz div 4096 then TooLarge else Join b (sz div 4096))"
proof -
  have p: "pool (mem s) b" using assms(1) by (simp add: heap_fresh_def)
  note f = pool_head_fields [OF p, of 0, simplified]
  have n: "pool_node b (Suc 0) \<noteq> 0" by (rule heap_fresh_node(1) [OF assms(1)]) simp
  have "can_coalesce (mem s) (unat (sz div 4096 - 1)) (pool_node b 1)" if "\<not> 4 < sz div 4096"
  proof (rule can_coalesce_pool [OF p])
    have "1 \<le> sz div 4096" using assms(2) by (simp add: word_le_nat_alt word_less_nat_alt unat_div)
    then have "unat (sz div 4096 - 1) \<le> 3"
      using that by (simp add: word_le_nat_alt word_less_nat_alt unat64_diff_eq)
    then show "1 + unat (sz div 4096 - 1) \<le> 3071" by simp
  qed
  then show ?thesis
    using assms(2) f n by (simp add: malloc_join_def malloc_consts flag_defs Let_def)
qed

lemma mallocx_pool:
  assumes "heap_fresh b s" "4096 < block_size n"
  shows "mallocx n s = (if 4 < block_size n div 4096 then Done 0 s
    else coalesceBlocks b (block_size n div 4096) s)"
proof -
  have "malloc_join (block_size n) b (mem s) =
      Some (if 4 < block_size n div 4096 then TooLarge else Join b (block_size n div 4096))"
    using malloc_join_pool [OF assms] by auto
  then have "malloc_loop (block_size n) b (mem s) =
      Some (if 4 < block_size n div 4096 then TooLarge else Join b (block_size n div 4096))"
    by (subst malloc_loop.simps) (simp add: malloc_round_def)
  then show ?thesis
    using mallocx_too_large [of s n] mallocx_join [of s n b "block_size n div 4096"]
      heap_fresh_first [OF assms(1)] by (auto simp: first_free_def split: if_splits)
qed

lemma coalesceBlocks_pool:
  assumes "heap_fresh b s" "0 < k" "k \<le> 3000"
  shows "coalesceBlocks b (of_nat k) s = Done (b + 64) (s\<lparr>mem :=
    set_hd_status b allocated (set_hd_size b (4096 * of_nat k) (set_hd_next b (pool_node b k) (mem s)))\<rparr>)"
proof -
  have p: "pool (mem s) b" using assms(1) by (simp add: heap_fresh_def)
  have "unat (of_nat k - 1 :: u64) = k - 1"
    using assms(2,3) unat64_of_nat [of "k - 1"] by (simp add: of_nat_diff)
  moreover have "nth_next (mem s) (k - 1) b = pool_node b (k - 1)"
    using nth_next_pool [OF p, of 0 "k - 1"] assms(3) by simp
  moreover have "hd_next (mem s) (pool_node b (k - 1)) = pool_node b k"
    using pool_head_fields(4) [OF p, of "k - 1"] assms(2,3) by simp
  ultimately show ?thesis
    using assms(1)
    by (simp add: coalesceBlocks_def heap_lock_free heap_unlock_eq heap_mutex_same heap_fresh_def
        sizeof_head_def PAGE_SIZE_def)
qed

text \<open>The loop of \<open>freex\<close> that makes pages of a block again.\<close>

lemma split_page_heads:
  fixes t :: ptr
  shows "fst (split_page t m) = t + 4096"
    "read_head (snd (split_page t m)) (t + 4096) = (read_head m (t + 4096))\<lparr>h_previous := t,
       h_next := t + 4096 + 4096, h_status := unused, h_childSize := 2048, h_size := 4096, h_level := 0\<rparr>"
    "read_head (snd (split_page t m)) t = (read_head m t)\<lparr>h_next := t + 4096, h_size := 4096\<rparr>"
  by (simp_all add: split_page_def read_head_def hd_setters PAGE_SIZE_def Let_def)

lemma split_page_outside:
  assumes "head_bytes t \<inter> R = {}" "head_bytes (t + 4096) \<inter> R = {}"
  shows "same_on R (snd (split_page t m)) m"
  unfolding split_page_def Let_def PAGE_SIZE_def snd_conv
  by (meson same_on_set_hd_bytes [OF assms(1)] same_on_set_hd_bytes [OF assms(2)] same_on_trans)

lemma head_bytes_apart:
  assumes "i \<noteq> j" "i < 10000" "j < 10000"
  shows "head_bytes (pool_node b i) \<inter> head_bytes (pool_node b j) = {}"
    "head_bytes (pool_node b i) \<inter> region (pool_node b j) 64 = {}"
  using pool_nodes_apart [OF assms] head_bytes_subset by blast+

lemma split_pages_outside:
  assumes "\<And>j. i \<le> j \<Longrightarrow> j \<le> i + k \<Longrightarrow> head_bytes (pool_node b j) \<inter> R = {}"
  shows "same_on R (split_pages k (pool_node b i) m) m"
  using assms
proof (induction k arbitrary: i m)
  case (Suc k)
  let ?m = "snd (split_page (pool_node b i) m)"
  have "same_on R (split_pages k (pool_node b (Suc i)) ?m) ?m"
    by (rule Suc.IH) (rule Suc.prems; simp)
  moreover have "same_on R ?m m"
    by (rule split_page_outside) (use Suc.prems [of i] Suc.prems [of "Suc i"] in \<open>simp_all add: pool_node_Suc\<close>)
  ultimately show ?case
    using split_page_heads(1) [of "pool_node b i" m]
    by (cases "split_page (pool_node b i) m") (auto simp: pool_node_Suc intro: same_on_trans)
qed simp

lemma split_pages_heads:
  assumes "i \<le> j" "j \<le> i + k" "i + k < 10000"
    "read_head m (pool_node b i) = (pool_head b i)\<lparr>h_next := x, h_size := y\<rparr>"
    "k = 0 \<Longrightarrow> x = pool_node b i + 4096 \<and> y = 4096"
    "\<And>l. i < l \<Longrightarrow> l \<le> i + k \<Longrightarrow> read_head m (pool_node b l) = pool_head b l"
  shows "read_head (split_pages k (pool_node b i) m) (pool_node b j) = pool_head b j"
  using assms
proof (induction k arbitrary: i m x y)
  case 0
  then show ?case by (simp add: pool_head_def)
next
  case (Suc k)
  let ?t = "pool_node b i" and ?u = "pool_node b (Suc i)"
  let ?m = "snd (split_page ?t m)"
  have run: "split_pages (Suc k) ?t m = split_pages k ?u ?m"
    using split_page_heads(1) [of ?t m] by (cases "split_page ?t m") (simp add: pool_node_Suc)
  have u: "read_head m ?u = pool_head b (Suc i)" using Suc.prems(6) by simp
  have hu: "read_head ?m ?u = pool_head b (Suc i)"
    unfolding pool_node_Suc split_page_heads(2) by (fold pool_node_Suc, unfold u)
      (simp add: pool_head_def pool_node_Suc)
  have ht: "read_head ?m ?t = pool_head b i"
    unfolding split_page_heads(3) Suc.prems(4) by (simp add: pool_head_def)
  show ?case
  proof (cases "j = i")
    case True
    have "same_on (region ?t 64) (split_pages k ?u ?m) ?m"
      by (rule split_pages_outside) (rule head_bytes_apart(2); use Suc.prems in simp)
    then show ?thesis unfolding run True using ht by (simp only: read_head_local)
  next
    case False
    have "read_head (split_pages k ?u ?m) (pool_node b j) = pool_head b j"
    proof (rule Suc.IH)
      show "read_head ?m ?u = (pool_head b (Suc i))\<lparr>h_next := ?u + 4096, h_size := 4096\<rparr>"
        unfolding hu by (simp add: pool_head_def)
      fix l assume l: "Suc i < l" "l \<le> Suc i + k"
      have "same_on (region (pool_node b l) 64) ?m m"
        by (rule split_page_outside)
          (fold pool_node_Suc, (rule head_bytes_apart(2); use l Suc.prems in simp)+)
      then have "read_head ?m (pool_node b l) = read_head m (pool_node b l)" by (rule read_head_local)
      then show "read_head ?m (pool_node b l) = pool_head b l" using Suc.prems(6) [of l] l by simp
    qed (use False Suc.prems in simp_all)
    then show ?thesis unfolding run .
  qed
qed

text \<open>Joining pages and freeing the block gives back the memory as it was, byte for byte.\<close>

lemma join_split_memory:
  assumes "heap_fresh b s" "0 < k" "k \<le> 3000"
  defines "m1 \<equiv> set_hd_status b unused (set_hd_status b allocated
    (set_hd_size b (4096 * of_nat k) (set_hd_next b (pool_node b k) (mem s))))"
  shows "split_pages (k - 1) b m1 = mem s \<or> k = 1"
proof (cases "k = 1")
  case False
  have p: "pool (mem s) b" using assms(1) by (simp add: heap_fresh_def)
  let ?m = "split_pages (k - 1) b m1"
  have h0: "read_head m1 b = (pool_head b 0)\<lparr>h_next := pool_node b k, h_size := 4096 * of_nat k\<rparr>"
    using pool_head_fields [OF p, of 0]
    by (simp add: m1_def read_head_def hd_setters pool_head_def flag_defs)
  have out: "same_on R m1 (mem s)" if "head_bytes b \<inter> R = {}" for R
    unfolding m1_def by (meson same_on_set_hd_bytes [OF that] same_on_trans)
  have hl: "read_head m1 (pool_node b l) = pool_head b l" if "0 < l" "l < 3071" for l
  proof -
    have "same_on (region (pool_node b l) 64) m1 (mem s)"
      by (rule out) (use head_bytes_apart(2) [of 0 l b] that in simp)
    from read_head_local [OF this] show ?thesis
      using p that by (simp add: pool_def malloc_consts)
  qed
  have heads: "same_on (head_bytes (pool_node b j)) ?m (mem s)" if "j < k" for j
  proof (rule read_head_determines)
    have "read_head (split_pages (k - 1) (pool_node b 0) m1) (pool_node b j) = pool_head b j"
    proof (rule split_pages_heads)
      show "read_head m1 (pool_node b 0) = (pool_head b 0)\<lparr>h_next := pool_node b k, h_size := 4096 * of_nat k\<rparr>"
        using h0 by simp
    qed (use that hl False assms(2,3) in auto)
    then show "read_head ?m (pool_node b j) = read_head (mem s) (pool_node b j)"
      using p that assms(3) by (simp add: pool_def malloc_consts)
  qed
  have "?m x = mem s x" for x
  proof (cases "\<exists>j < k. x \<in> head_bytes (pool_node b j)")
    case True
    then show ?thesis using heads by (auto simp: same_on_def)
  next
    case F: False
    have "same_on {x} (split_pages (k - 1) (pool_node b 0) m1) m1"
      by (rule split_pages_outside) (use F assms(2) in auto)
    moreover have "same_on {x} m1 (mem s)"
      by (rule out) (use F assms(2) in \<open>auto dest: spec [of _ 0]\<close>)
    ultimately show ?thesis by (simp add: same_on_def)
  qed
  then show ?thesis by auto
qed simp

lemma freex_pool:
  assumes "heap_fresh b s" "1 < k" "k \<le> 3000"
  shows "freex (b + 64) (s\<lparr>mem := set_hd_status b allocated
      (set_hd_size b (4096 * of_nat k) (set_hd_next b (pool_node b k) (mem s)))\<rparr>) = Done () s"
proof -
  let ?m = "set_hd_status b unused (set_hd_status b allocated
    (set_hd_size b (4096 * of_nat k) (set_hd_next b (pool_node b k) (mem s))))"
  have p: "pool (mem s) b" using assms(1) by (simp add: heap_fresh_def)
  have c: "hd_coalesced ?m b = 0" "hd_size ?m b = 4096 * of_nat k"
    using pool_head_fields(9) [OF p, of 0] by (simp_all add: hd_setters)
  have u: "unat (4096 * of_nat k :: u64) = 4096 * k"
    using assms(3) unat64_of_nat [of "4096 * k"] by simp
  then have big: "(4096 :: u64) < 4096 * of_nat k" using assms(2) by (simp add: word_less_nat_alt)
  have "(4096 * of_nat k :: u64) div 4096 = of_nat k"
    using u assms(3) by (simp add: word_unat_eq_iff unat_div unat64_of_nat)
  then have d: "unat ((4096 * of_nat k :: u64) div 4096 - 1) = k - 1"
    using assms unat64_of_nat [of "k - 1"] by (simp add: of_nat_diff)
  have m: "split_pages (k - 1) b ?m = mem s"
    using join_split_memory [of b s k] assms by simp
  have "freex (b + 64) (s\<lparr>mem := set_hd_status b allocated
      (set_hd_size b (4096 * of_nat k) (set_hd_next b (pool_node b k) (mem s)))\<rparr>) =
    Done () (s\<lparr>mem := mem s, heap_mutex := 0\<rparr>)"
    using assms(1) c big d m
    by (simp add: freex_def heap_lock_free heap_unlock_eq heap_fresh_def sizeof_head_def PAGE_SIZE_def Let_def)
  moreover have "s\<lparr>mem := mem s, heap_mutex := 0\<rparr> = s"
    using assms(1) by (cases s) (simp add: heap_fresh_def)
  ultimately show ?thesis by simp
qed

section \<open>A block in use is handed out again\<close>

text \<open>
  When the first node is in use and was never halved, the loop steps to the next node and then
  compares only its size with the request.
\<close>

definition used_then :: "ptr \<Rightarrow> ptr \<Rightarrow> memory \<Rightarrow> bool" where
  "used_then b c m \<longleftrightarrow> hd_left m b = 0 \<and> hd_status m b = allocated \<and> hd_next m b = c \<and> c \<noteq> 0"

lemma mallocx_takes_next:
  assumes "heap_mutex s = 0" "freeList s = b" "b \<noteq> 0" "used_then b c (mem s)"
    "hd_size (mem s) c = block_size n" "block_size n \<le> 4096"
  shows "mallocx n s = Done (c + 64) (s\<lparr>mem := set_hd_status c allocated (mem s)\<rparr>)"
proof -
  have "malloc_join (block_size n) b (mem s) = None"
    using leD [OF assms(6)] by (simp add: malloc_join_def PAGE_SIZE_def)
  moreover have "malloc_advance b (mem s) = c"
    using assms(4) by (simp add: malloc_advance_def used_then_def)
  ultimately have "malloc_loop (block_size n) b (mem s) = Some (Found c (mem s))"
    using assms(5) by (subst malloc_loop.simps) (simp add: malloc_round_def)
  then show ?thesis using mallocx_found [of s n c "mem s"] assms by simp
qed

lemma used_then_again:
  assumes "used_then b c m" "region b 64 \<inter> region c 64 = {}"
  shows "used_then b c (set_hd_status c allocated m)"
    "hd_size (set_hd_status c allocated m) c = hd_size m c"
proof -
  have "same_on (region b 64) (set_hd_status c allocated m) m"
    by (rule same_on_set_hd) (use assms(2) in blast)
  then show "used_then b c (set_hd_status c allocated m)"
    using assms(1) head_local [of b "set_hd_status c allocated m" m] by (simp add: used_then_def)
  show "hd_size (set_hd_status c allocated m) c = hd_size m c" by (simp add: hd_setters)
qed

lemma alloc_many_repeats:
  assumes "heap_mutex s = 0" "freeList s = b" "b \<noteq> 0" "used_then b c (mem s)"
    "hd_size (mem s) c = block_size n" "block_size n \<le> 4096" "region b 64 \<inter> region c 64 = {}"
  shows "\<exists>s'. alloc_many mallocx (replicate k n) s = Done (replicate k (c + 64)) s'"
  using assms(1-5)
proof (induction k arbitrary: s)
  case (Suc k)
  let ?t = "s\<lparr>mem := set_hd_status c allocated (mem s)\<rparr>"
  have "mallocx n s = Done (c + 64) ?t" by (rule mallocx_takes_next [OF Suc.prems assms(6)])
  moreover obtain s' where "alloc_many mallocx (replicate k n) ?t = Done (replicate k (c + 64)) s'"
    using Suc.IH [of ?t] Suc.prems used_then_again [OF Suc.prems(4) assms(7)] by auto
  ultimately show ?case by simp
qed simp

section \<open>The first request of all\<close>

text \<open>The first request builds the pool and then is served from it.\<close>

lemma bump_heap_mutex: "bump r (s\<lparr>heap_mutex := l\<rparr>) = (bump r s)\<lparr>heap_mutex := l\<rparr>"
  by (cases s) (simp add: bump_def bump_memory_def next_free_def hhdm_def room_def Let_def)

lemma initNodes_fresh:
  assumes "alloc_ok s" "pool_bytes \<le> room s" "heap_mutex s = 0"
  shows "\<exists>s'. initNodes s = Done () s' \<and> heap_fresh (next_free s) s' \<and> alloc_ok s' \<and>
    next_free s' = next_free s + pool_bytes \<and> same_on (below (next_free s)) (mem s') (mem s)"
proof -
  obtain s' where s': "initNodes s = Done () s'" "freeList s' = next_free s" "pool (mem s') (next_free s)"
    "alloc_ok s'" "next_free s' = next_free s + pool_bytes" "same_on (below (next_free s)) (mem s') (mem s)"
    "heap_mutex s' = 0"
    "\<forall>i < 3071. hd_status (mem s') (pool_node (next_free s) i + 2048) = unused \<and>
      hd_left (mem s') (pool_node (next_free s) i + 2048) = 0"
    using initNodes_pool [OF assms(1,2)] assms(3) by auto
  have "heap_fresh (next_free s) s'"
    using s' room_fits(1) [OF assms(1,2)] alloc_ok_nonzero [OF assms(1)] by (simp add: heap_fresh_def)
  then show ?thesis using s' by blast
qed

lemma mallocx_initialises:
  assumes "alloc_ok s" "pool_bytes \<le> room s" "heap_mutex s = 0" "freeList s = 0"
    "initNodes s = Done () t"
  shows "mallocx n s = mallocx n t"
proof -
  let ?l = "s\<lparr>heap_mutex := 1\<rparr>"
  have t: "t = (bump pool_bytes s)\<lparr>freeList := next_free s,
      mem := init_nodes (POOL_ARRAY_SIZE - 1) 0 (next_free s) (mem (bump pool_bytes s))\<rparr>"
    using initNodes_eq [OF assms(1,2)] assms(5) by simp
  have "initNodes ?l = Done () (t\<lparr>heap_mutex := 1\<rparr>)"
    by (subst initNodes_eq) (use assms(1,2) in \<open>simp_all add: t bump_heap_mutex\<close>)
  moreover have "heap_mutex t = 0" "freeList t \<noteq> 0"
    using assms(3) alloc_ok_nonzero [OF assms(1)] by (auto simp: t bump_def)
  ultimately show ?thesis
    using assms(3,4) by (simp add: mallocx_def heap_lock_free)
qed

section \<open>Properties\<close>

text \<open>
  C20: on a kernel whose heap has not been used yet, \<open>initNodes\<close> returns and leaves the free list at the
  frame it allocated: every page of the pool but the last has a header that is unused, 4096 bytes
  large, and linked to the pages before and after it; no memory handed out before is touched, and
  the frame allocator stays in order.
\<close>

theorem initNodes_builds_pool:
  assumes "alloc_ok s" "pool_bytes \<le> room s" "heap_mutex s = 0"
  shows "\<exists>s'. initNodes s = Done () s' \<and> freeList s' = next_free s \<and>
    (\<forall>i < POOL_ARRAY_SIZE - 1. read_head (mem s') (pool_node (next_free s) i) = pool_head (next_free s) i) \<and>
    alloc_ok s' \<and> same_on (below (next_free s)) (mem s') (mem s)"
  using initNodes_fresh [OF assms] by (auto simp: heap_fresh_def pool_def)

text \<open>A kernel with 16 MB of free memory at 16 MB and an untouched heap.\<close>

definition heap_sample :: heap_state where
  "heap_sample = \<lparr>mem = (\<lambda>_. 0), io_log = [], limine_print = False,
     globalBootInfo = zero_bootInfo\<lparr>memory := zero_Memory\<lparr>freeMemStart := 0x1000000,
       freeMemSize := 0x1000000, hhdmOffset := 0xFFFF800000000000\<rparr>\<rparr>,
     frame_head = 0, freeBlock = 0, totalMemory = 0, usedMemory = 0, bootInformation = zero_bootInfo,
     addressSizeHT = zero_table, list_head = 0, PML4 = 0, kernelPML4 = 0,
     paging_bootInformation = zero_bootInfo, paging_hhdmOffset = 0, paging_mutex = 0, cr3 = 0,
     freeList = 0, heap_mutex = 0\<rparr>"

lemma heap_sample_ok:
  "alloc_ok heap_sample" "pool_bytes \<le> room heap_sample" "heap_mutex heap_sample = 0"
  "freeList heap_sample = 0" "next_free heap_sample = 0xFFFF800001000000"
  by (simp_all add: heap_sample_def alloc_ok_def next_free_def room_def hhdm_def zero_bootInfo_def
      zero_Memory_def page_aligned_def)

theorem initNodes_builds_pool_witness:
  "\<exists>s'. initNodes heap_sample = Done () s' \<and> hd_next (mem s') 0xFFFF800001005000 = 0xFFFF800001006000 \<and>
     hd_size (mem s') 0xFFFF800001005000 = 4096"
proof -
  obtain s' where s': "initNodes heap_sample = Done () s'"
    "read_head (mem s') (pool_node (next_free heap_sample) 5) = pool_head (next_free heap_sample) 5"
    using initNodes_builds_pool [OF heap_sample_ok(1-3)] by (auto simp: malloc_consts)
  then show ?thesis
    by (intro exI [of _ s']) (simp add: read_head_def pool_head_def pool_node_def heap_sample_ok(5))
qed

text \<open>
  C9: on a fresh heap the first two requests, both of the same \<open>n\<close> bytes, at most half a page with the header,
  end and get the two halves of the first page: the blocks do not overlap, each block's size is the power of two that
  holds the request and its header and is less than twice as large, and only the two headers are
  written.
\<close>

theorem mallocx_halves:
  assumes "heap_fresh b s" "unat n + 64 \<le> 2048"
  shows "\<exists>s' k. alloc_many mallocx [n, n] s = Done [b + 64, b + 2048 + 64] s' \<and>
    block_size n = 2 ^ k \<and> unat n + 64 \<le> 2 ^ k \<and> 2 ^ k < 2 * (unat n + 64) \<and>
    hd_size (mem s') b = 2 ^ k \<and> hd_size (mem s') (b + 2048) = 2 ^ k \<and>
    region b (2 ^ k) \<inter> region (b + 2048) (2 ^ k) = {} \<and>
    same_on (- region b 64 - region (b + 2048) 64) (mem s') (mem s) \<and> heap_mutex s' = 0"
proof -
  obtain k where k: "k \<le> 11" "block_size n = 2 ^ k" "unat n + 64 \<le> 2 ^ k" "2 ^ k < 2 * (unat n + 64)"
    using block_size_power [of n 11] assms(2) by auto
  note first = heap_fresh_first [OF assms(1)]
  let ?m = "halved b k (mem s)"
  let ?m2 = "set_hd_status (b + 2048) allocated ?m"
  have half: "hd_status (mem s) (b + 2048) = unused" "hd_left (mem s) (b + 2048) = 0"
    using assms(1) by (auto simp: heap_fresh_def dest: spec [of _ 0])
  have "unat (b + 2048) = unat b + 2048"
    using assms(1) by (subst unat64_add_nowrap) (simp_all add: heap_fresh_def)
  then have nz: "b + 2048 \<noteq> 0" by auto
  have free: "free_node (mem s) b 12" using first by (simp add: first_free_def)
  have run: "alloc_many mallocx [n, n] s = Done [b + 64, b + 2048 + 64] (s\<lparr>mem := ?m2\<rparr>)"
    using mallocx_first [OF first _ k(2)] mallocx_second [OF first k(1,2) half nz] k(1) by simp
  have i: "Suc (11 - k) = 12 - k" using k(1) by simp
  have free': "free_node (mem s) b (k + Suc (11 - k))" using free k(1) by simp
  have "hd_size ?m (b + 2048) = 2 ^ k"
    using halved_pair(4) [OF free', unfolded i] k(1) by (simp add: halved_def hd_setters)
  then have sizes: "hd_size ?m2 b = 2 ^ k" "hd_size ?m2 (b + 2048) = 2 ^ k"
    using halved_fields(1) [OF free, of k] k(1) by (simp_all add: hd_setters)
  have "same_on (- region b 64 - region (b + 2048) 64) ?m2 (mem s)"
    by (rule same_on_trans [OF same_on_set_hd(5) halved_fields(3) [OF free]]) (use k(1) in auto)
  moreover have "(2::nat) ^ k \<le> 2 ^ 11" using k(1) by (intro power_increasing) simp_all
  then have "region b (2 ^ k) \<inter> region (b + 2048) (2 ^ k) = {}"
    by (intro region_disjoint) simp_all
  moreover have "heap_mutex s = 0" using assms(1) by (simp add: heap_fresh_def)
  ultimately show ?thesis using run k sizes by (intro exI [of _ "s\<lparr>mem := ?m2\<rparr>"] exI [of _ k]) simp
qed

lemma heap_sample_fresh:
  "\<exists>t. initNodes heap_sample = Done () t \<and> heap_fresh 0xFFFF800001000000 t \<and>
     (\<forall>n. mallocx n heap_sample = mallocx n t)"
  using initNodes_fresh [OF heap_sample_ok(1-3)] mallocx_initialises [OF heap_sample_ok(1-4)]
  unfolding heap_sample_ok(5) by blast

theorem mallocx_halves_witness:
  "\<exists>s'. alloc_many mallocx [100, 100] heap_sample = Done [0xFFFF800001000040, 0xFFFF800001000840] s' \<and>
     hd_size (mem s') 0xFFFF800001000000 = 256"
proof -
  obtain t where "initNodes heap_sample = Done () t"
    and t: "heap_fresh 0xFFFF800001000000 t" "\<forall>n. mallocx n heap_sample = mallocx n t"
    using heap_sample_fresh by blast
  have "block_size 100 = 256"
    by (simp add: block_size_def sizeof_head_def MINIMUM_ALLOCATION_SIZE_def roundUpToNextPower2_def Let_def)
  then show ?thesis using mallocx_halves [OF t(1), of 100] t(2) by auto
qed

text \<open>Adding the header wraps around for the largest requests: their blocks are not even as large as a header.\<close>

lemma block_size_wraps:
  assumes "18446744073709551552 \<le> unat n"
  shows "block_size n = 2 ^ 5 \<or> block_size n = 2 ^ 6"
proof -
  have u: "unat (n + 64) = unat n + 64 - 18446744073709551616"
    using assms unat64_bound [of n] by (simp add: unat_plus_if')
  consider "unat (n + 64) \<le> 32" | "32 < unat (n + 64)" "unat (n + 64) \<le> 64" using u unat64_bound [of n] by linarith
  then show ?thesis
  proof cases
    case 1
    then have "(if n + 64 < 32 then 32 else n + 64) = 32"
      by (auto simp: word_less_nat_alt word_unat_eq_iff)
    moreover have "roundUpToNextPower2 32 = 2 ^ 5" by (intro roundUpToNextPower2_power) simp_all
    ultimately show ?thesis
      unfolding block_size_def sizeof_head_def MINIMUM_ALLOCATION_SIZE_def Let_def by (simp only: simp_thms)
  next
    case 2
    then have "roundUpToNextPower2 (n + 64) = 2 ^ 6" by (intro roundUpToNextPower2_power) simp_all
    then show ?thesis
      using 2 by (simp add: block_size_def sizeof_head_def MINIMUM_ALLOCATION_SIZE_def word_less_nat_alt Let_def)
  qed
qed

lemma mallocx_wraps:
  assumes "heap_fresh b s" "18446744073709551552 \<le> unat n"
  shows "\<exists>s'. mallocx n s = Done (b + 64) s' \<and> hd_size (mem s') b \<le> 64"
proof -
  note first = heap_fresh_first [OF assms(1)]
  then have free: "free_node (mem s) b 12" by (simp add: first_free_def)
  obtain k where k: "block_size n = 2 ^ k" "k = 5 \<or> k = 6" using block_size_wraps [OF assms(2)] by metis
  then have "k \<le> 12" by auto
  with mallocx_first [OF first this k(1)] halved_fields(1) [OF free this] k(2) show ?thesis by auto
qed

lemma mallocx_pages:
  assumes "heap_fresh b s" "4096 < unat n + 64" "unat n + 64 \<le> 4294967296"
  shows "if unat n + 64 \<le> 16384 then
      \<exists>s'. mallocx n s = Done (b + 64) s' \<and> hd_size (mem s') b = block_size n \<and>
        unat n + 64 \<le> unat (block_size n) \<and> hd_status (mem s') b = allocated \<and>
        hd_next (mem s') b = b + block_size n \<and> freex (b + 64) s' = Done () s
    else mallocx n s = Done 0 s"
proof -
  obtain k where k: "k \<le> 32" "block_size n = 2 ^ k" "unat n + 64 \<le> 2 ^ k" "2 ^ k < 2 * (unat n + 64)"
    using block_size_power [of n 32] assms(3) by auto
  have ub: "unat (block_size n) = 2 ^ k" using k(1,2) unat64_power [of k] by simp
  have "(2::nat) ^ 12 < 2 ^ k" using k(3) assms(2) by simp
  then have k13: "13 \<le> k" using power_less_imp_less_exp [of "2::nat" 12 k] by simp
  have big: "4096 < block_size n" using ub k(3) assms(2) by (simp add: word_less_nat_alt)
  show ?thesis
  proof (cases "unat n + 64 \<le> 16384")
    case True
    have "(2::nat) ^ k < 2 ^ 15" using k(4) True by simp
    then have "k < 15" using power_less_imp_less_exp [of "2::nat" k 15] by simp
    then have "k = 13 \<or> k = 14" using k13 by auto
    then obtain p where p: "block_size n = 4096 * of_nat p" "p = 2 \<or> p = 4" "block_size n div 4096 = of_nat p"
      using k(2) by (elim disjE) (force intro: that [of 2], force intro: that [of 4])
    let ?s = "s\<lparr>mem := set_hd_status b allocated (set_hd_size b (4096 * of_nat p)
      (set_hd_next b (pool_node b p) (mem s)))\<rparr>"
    have "mallocx n s = Done (b + 64) ?s"
      using mallocx_pool [OF assms(1) big] p(2,3) coalesceBlocks_pool [OF assms(1), of p] by auto
    moreover have "freex (b + 64) ?s = Done () s"
      by (rule freex_pool [OF assms(1)]) (use p(2) in auto)
    moreover have "pool_node b p = b + block_size n" by (simp add: p(1) pool_node_def)
    ultimately show ?thesis
      using True ub k(3) p(1) by (simp add: hd_setters)
  next
    case False
    have "(2::nat) ^ 14 < 2 ^ k" using k(3) False by simp
    then have "14 < k" using power_less_imp_less_exp [of "2::nat" 14 k] by simp
    then have "(2::nat) ^ 15 \<le> 2 ^ k" by (intro power_increasing) simp_all
    then have "4 < block_size n div 4096" using ub by (simp add: word_less_nat_alt unat_div)
    then show ?thesis using False mallocx_pool [OF assms(1) big] by simp
  qed
qed

text \<open>
  C10: on a fresh heap a request that needs (with its header) more than one page and at most four gets the first two or four
  pages joined into one block, and \<open>freex\<close> on that block restores the whole state, every byte of memory included. A
  request that needs more than four pages, and at most 4 GB, returns the null pointer and changes nothing. (Above 4 GB the
  code does not round the size to a power of two.) For the 64 largest requests adding the header wraps around: instead of null
  they get a block of at most 64 bytes, its header included.
\<close>

theorem mallocx_pages_roundtrip:
  assumes "heap_fresh b s" "4096 < unat n + 64" "unat n + 64 \<le> 4294967296"
  shows "(if unat n + 64 \<le> 16384 then
      \<exists>s'. mallocx n s = Done (b + 64) s' \<and> hd_size (mem s') b = block_size n \<and>
        unat n + 64 \<le> unat (block_size n) \<and> hd_status (mem s') b = allocated \<and>
        hd_next (mem s') b = b + block_size n \<and> freex (b + 64) s' = Done () s
    else mallocx n s = Done 0 s) \<and>
    (\<forall>m. 18446744073709551552 \<le> unat m \<longrightarrow> (\<exists>s'. mallocx m s = Done (b + 64) s' \<and> hd_size (mem s') b \<le> 64))"
  using mallocx_pages [OF assms] mallocx_wraps [OF assms(1)] by blast

theorem mallocx_pages_roundtrip_witness:
  "\<exists>t s'. initNodes heap_sample = Done () t \<and> mallocx 10000 t = Done 0xFFFF800001000040 s' \<and>
     hd_next (mem s') 0xFFFF800001000000 = 0xFFFF800001004000 \<and>
     freex 0xFFFF800001000040 s' = Done () t \<and> mallocx 20480 t = Done 0 t"
proof -
  obtain t where t: "initNodes heap_sample = Done () t" "heap_fresh 0xFFFF800001000000 t"
    using heap_sample_fresh by blast
  have "block_size 10000 = 16384"
    by (simp add: block_size_def sizeof_head_def MINIMUM_ALLOCATION_SIZE_def roundUpToNextPower2_def Let_def)
  then show ?thesis
    using t mallocx_pages_roundtrip [OF t(2), of 10000] mallocx_pages_roundtrip [OF t(2), of 20480]
    by auto
qed

text \<open>
  C26: requests of one page (with the header) on a fresh heap: the first gets page 0, and every later
  one gets page 1, again and again, although it is in use since the second request. The loop steps
  off an allocated node and takes the next one by its size alone, without a look at its status.
\<close>

theorem mallocx_hands_out_twice:
  assumes "heap_fresh b s" "1984 < unat n" "unat n \<le> 4032"
  shows "\<exists>s'. alloc_many mallocx (replicate (Suc k) n) s =
    Done ((b + 64) # replicate k (b + 4096 + 64)) s'"
proof -
  obtain j where j: "j \<le> 12" "block_size n = 2 ^ j" "unat n + 64 \<le> 2 ^ j"
    using block_size_power [of n 12] assms(3) by auto
  have "(2::nat) ^ 11 < 2 ^ j" using j(3) assms(2) by simp
  then have "11 < j" using power_less_imp_less_exp [of "2::nat" 11 j] by simp
  then have bs: "block_size n = 4096" using j(1,2) by (cases "j = 12") simp_all
  note first = heap_fresh_first [OF assms(1)]
  have p: "pool (mem s) b" using assms(1) by (simp add: heap_fresh_def)
  let ?t = "s\<lparr>mem := set_hd_status b allocated (mem s)\<rparr>"
  have one: "mallocx n s = Done (b + 64) ?t"
    using mallocx_first [OF first, of 12] bs by (simp add: halved_def)
  have c: "pool_node b 1 = b + 4096" using pool_node_Suc [of b 0] by simp
  have used: "used_then b (b + 4096) (mem ?t)"
    using pool_head_fields(3,4) [OF p, of 0] heap_fresh_node(1) [OF assms(1), of 1] c
    by (simp add: used_then_def hd_setters)
  have sz: "hd_size (mem ?t) (b + 4096) = block_size n"
    using pool_head_fields(7) [OF p, of 1] c bs by (simp add: hd_setters)
  have "\<exists>s'. alloc_many mallocx (replicate k n) ?t = Done (replicate k (b + 4096 + 64)) s'"
    by (rule alloc_many_repeats)
      (use first used sz bs pool_nodes_apart [of 0 1 b] c in \<open>simp_all add: first_free_def del: in_region\<close>)
  then show ?thesis using one by auto
qed

theorem mallocx_hands_out_twice_witness:
  "\<exists>s'. alloc_many mallocx [4000, 4000, 4000] heap_sample =
     Done [0xFFFF800001000040, 0xFFFF800001001040, 0xFFFF800001001040] s'"
proof -
  obtain t where "initNodes heap_sample = Done () t"
    and t: "heap_fresh 0xFFFF800001000000 t" "\<forall>n. mallocx n heap_sample = mallocx n t"
    using heap_sample_fresh by blast
  have "replicate (Suc 2) (4000 :: u64) = [4000, 4000, 4000]"
    "replicate 2 (0xFFFF800001000000 + 4096 + 64 :: ptr) = [0xFFFF800001001040, 0xFFFF800001001040]"
    by (simp_all add: eval_nat_numeral(2))
  then show ?thesis using mallocx_hands_out_twice [OF t(1), of 4000 2] t(2) by simp
qed


text \<open>
  for 1 up to 2^32 \<open>roundUpToNextPower2\<close> is the smallest power of two that is not below its
  argument. Zero gives zero.
\<close>

theorem roundUpToNextPower2_exact:
  "roundUpToNextPower2 0 = 0 \<and>
   (1 \<le> n \<and> n \<le> 0x100000000 \<longrightarrow>
     (\<exists>k \<le> 32. unat (roundUpToNextPower2 n) = 2 ^ k \<and> unat n \<le> 2 ^ k \<and> (\<forall>j. unat n \<le> 2 ^ j \<longrightarrow> k \<le> j)))"
proof (intro conjI impI)
  show "roundUpToNextPower2 0 = 0" by (simp add: roundUpToNextPower2_def Let_def)
  assume n: "1 \<le> n \<and> n \<le> 0x100000000"
  show "\<exists>k \<le> 32. unat (roundUpToNextPower2 n) = 2 ^ k \<and> unat n \<le> 2 ^ k \<and> (\<forall>j. unat n \<le> 2 ^ j \<longrightarrow> k \<le> j)"
  proof (cases "n = 1")
    case True
    then show ?thesis
      by (intro exI [of _ 0]) (simp add: roundUpToNextPower2_def Let_def)
  next
    case False
    then have "2 \<le> unat n" "unat n \<le> 2 ^ 32"
      using n by (auto simp: word_le_nat_alt word_unat_eq_iff)
    then obtain k where k: "0 < k" "k \<le> 32" "2 ^ (k - 1) < unat n" "unat n \<le> 2 ^ k"
      using power_between by blast
    then have "unat (roundUpToNextPower2 n) = 2 ^ k"
      by (subst roundUpToNextPower2_power) (auto simp: unat64_power)
    moreover have "k \<le> j" if "unat n \<le> 2 ^ j" for j
    proof -
      have "(2::nat) ^ (k - 1) < 2 ^ j" using k(3) that by linarith
      then have "k - 1 < j" by (rule power_less_imp_less_exp [rotated]) simp
      then show ?thesis by simp
    qed
    ultimately show ?thesis using k by blast
  qed
qed

theorem roundUpToNextPower2_exact_witness:
  "\<exists>k \<le> 32. unat (roundUpToNextPower2 4100) = 2 ^ k \<and> 4100 \<le> (2::nat) ^ k \<and> (\<forall>j. 4100 \<le> (2::nat) ^ j \<longrightarrow> k \<le> j)"
  using roundUpToNextPower2_exact [of 4100] by simp

end
