(* ===== verification/Io_Port.thy ===== *)
theory Io_Port
  imports Machine
begin

text \<open>
  Port input and output (\<open>kernel/io/io.cpp\<close>). What is written goes to the log of events. What a
  device answers to a read is not determined by the kernel: it is the parameter \<open>dev\<close>, which may
  depend on everything sent before.
\<close>

definition outb :: "u16 \<Rightarrow> u8 \<Rightarrow> 'a machine_scheme \<Rightarrow> 'a machine_scheme" where
  "outb port val s = s\<lparr>io_log := io_log s @ [Outb port val]\<rparr>"

definition inb :: "(io_event list \<Rightarrow> u16 \<Rightarrow> u8) \<Rightarrow> u16 \<Rightarrow> 'a machine_scheme \<Rightarrow> u8 \<times> 'a machine_scheme" where
  "inb dev port s = (dev (io_log s) port, s\<lparr>io_log := io_log s @ [Inb port]\<rparr>)"

definition outw :: "u16 \<Rightarrow> u16 \<Rightarrow> 'a machine_scheme \<Rightarrow> 'a machine_scheme" where
  "outw port val s = s\<lparr>io_log := io_log s @ [Outw port val]\<rparr>"

definition inw :: "(io_event list \<Rightarrow> u16 \<Rightarrow> u16) \<Rightarrow> u16 \<Rightarrow> 'a machine_scheme \<Rightarrow> u16 \<times> 'a machine_scheme" where
  "inw dev port s = (dev (io_log s) port, s\<lparr>io_log := io_log s @ [Inw port]\<rparr>)"

definition outl :: "u16 \<Rightarrow> u32 \<Rightarrow> 'a machine_scheme \<Rightarrow> 'a machine_scheme" where
  "outl port val s = s\<lparr>io_log := io_log s @ [Outl port val]\<rparr>"

definition inl :: "(io_event list \<Rightarrow> u16 \<Rightarrow> u32) \<Rightarrow> u16 \<Rightarrow> 'a machine_scheme \<Rightarrow> u32 \<times> 'a machine_scheme" where
  "inl dev port s = (dev (io_log s) port, s\<lparr>io_log := io_log s @ [Inl port]\<rparr>)"

text \<open>A write to the unused port 0x80 takes about a microsecond.\<close>

definition ioWait :: "'a machine_scheme \<Rightarrow> 'a machine_scheme" where
  "ioWait s = s\<lparr>io_log := io_log s @ [Outb 0x80 0]\<rparr>"

text \<open>A list of writes, as the initialisation of a device makes them.\<close>

definition out_bytes :: "(u16 \<times> u8) list \<Rightarrow> 'a machine_scheme \<Rightarrow> 'a machine_scheme" where
  "out_bytes ws s = fold (\<lambda>(port, val). outb port val) ws s"

lemma out_bytes_log:
  "out_bytes ws s = s\<lparr>io_log := io_log s @ map (\<lambda>(port, val). Outb port val) ws\<rparr>"
  by (induction ws arbitrary: s) (auto simp: out_bytes_def outb_def)

end
