(* ===== verification/Console.thy ===== *)
theory Console
  imports Boot
begin

text \<open>
  Printing from the kernel: the format strings a call of \<open>e9_printf\<close> may have, and the effect of such
  a call, which changes nothing but the log of what is sent. The components that print use these
  facts in place of the definition of \<open>e9_printf\<close>.
\<close>

section \<open>Formats that print\<close>

text \<open>Every directive has an argument of its kind, and the format does not end in a percent sign.\<close>

fun fmt_ok :: "string \<Rightarrow> vararg list \<Rightarrow> bool" where
  "fmt_ok [] args = True"
| "fmt_ok (c # fmt) args =
     (if c \<noteq> CHR ''%'' then fmt_ok fmt args
      else case fmt of
        [] \<Rightarrow> False
      | d # rest \<Rightarrow>
          if d = CHR ''x'' \<or> d = CHR ''d'' then
            (case args of ArgNum n # args' \<Rightarrow> fmt_ok rest args' | _ \<Rightarrow> False)
          else if d = CHR ''s'' then
            (case args of ArgStr t # args' \<Rightarrow> fmt_ok rest args' | _ \<Rightarrow> False)
          else fmt_ok rest args)"

lemma e9_format_ok: "e9_format fmt args \<noteq> None \<longleftrightarrow> fmt_ok fmt args"
proof (induction fmt args rule: fmt_ok.induct)
  case (2 c fmt args)
  show ?case
  proof (cases "c = CHR ''%''")
    case False
    with 2 show ?thesis by simp
  next
    case True
    show ?thesis
    proof (cases fmt)
      case (Cons d rest)
      show ?thesis
      proof (cases args)
        case Nil
        with 2 True Cons show ?thesis by auto
      next
        case (Cons a args')
        show ?thesis
        proof (cases a)
          case (ArgNum n)
          obtain x y where "e9_printhex (replicate 17 (CHR 0x00)) n = Some x" "e9_printdec n = Some y"
            using printhex_Some [of "replicate 17 (CHR 0x00)" n] printdec_Some [of n] by auto
          with 2 True ArgNum \<open>fmt = d # rest\<close> \<open>args = a # args'\<close> show ?thesis by auto
        next
          case (ArgStr t)
          with 2 True \<open>fmt = d # rest\<close> \<open>args = a # args'\<close> show ?thesis by auto
        qed
      qed
    qed (use True in simp)
  qed
qed simp

section \<open>The effect of printing\<close>

definition kprintf :: "string \<Rightarrow> vararg list \<Rightarrow> 'a machine_scheme \<Rightarrow> (unit, 'a machine_scheme) outcome" where
  "kprintf fmt args s = of_defined (e9_printf fmt args s) (Done ())"

text \<open>The log after printing.\<close>

definition printed :: "string \<Rightarrow> vararg list \<Rightarrow> 'a machine_scheme \<Rightarrow> io_event list" where
  "printed fmt args s = io_log (fold e9_putc (the (e9_format (c_string fmt) args)) s)"

lemma e9_printf_Some:
  assumes "fmt_ok (c_string fmt) args"
  shows "e9_printf fmt args s = Some (s\<lparr>io_log := printed fmt args s\<rparr>)"
proof -
  obtain t where t: "e9_format (c_string fmt) args = Some t" using assms e9_format_ok by fastforce
  then show ?thesis by (simp add: e9_printf_def printed_def fold_putc_log)
qed

lemma kprintf_Done:
  "fmt_ok (c_string fmt) args \<Longrightarrow> kprintf fmt args s = Done () (s\<lparr>io_log := printed fmt args s\<rparr>)"
  by (simp add: kprintf_def e9_printf_Some)

text \<open>Rules that evaluate the check on a format.\<close>

lemmas fmt_eval = c_string_def nl_def fmt_ok.simps

lemma haltAndCatchFire_Halted: "\<exists>l. haltAndCatchFire f n msg s = Halted (s\<lparr>io_log := l\<rparr>)"
proof -
  have ok: "fmt_ok (c_string (CHR 0x0A # ''ERROR at %s:%d'' @ [CHR 0x0A])) [ArgStr g, ArgNum k]"
    "fmt_ok (c_string (''Halting and catching fire!!'' @ [CHR 0x0A])) []"
    "fmt_ok (c_string (''Error message: %s'' @ [CHR 0x0A])) [ArgStr g]" for g k
    by (simp_all add: fmt_eval)
  show ?thesis
    unfolding haltAndCatchFire_def e9_printf_Some [OF ok(1)] e9_printf_Some [OF ok(2)] e9_printf_Some [OF ok(3)]
    by (cases "msg = []") auto
qed

end
