(* ===== verification/Descriptors.thy ===== *)
theory Descriptors
  imports Malloc Console
begin

text \<open>
  The processor's descriptor tables: the segments of \<open>kernel/gdt/gdt.cpp\<close> and the interrupt gates of
  \<open>kernel/idt/idt.cpp\<close>. The addresses of the two tables, which the linker chooses, are arguments.
\<close>

section \<open>Structures and global variables\<close>

record gdtEntry =
  gdt_limit :: u16
  baseLow :: u16
  baseMiddle :: u8
  gdt_access :: u8
  gdt_flags :: u8
  baseHigh :: u8

record gdtPtrStruct =
  gdtp_limit :: u16
  gdtp_base :: u64

record idtEntry =
  offsetLow :: u16
  segmentSelector :: u16
  gate_reserved :: u8
  gate_attributes :: u8
  offsetMiddle :: u16
  offsetHigh :: u32
  reserved2 :: u32

record idtPtrStruct =
  idtp_limit :: u16
  idtp_base :: u64

text \<open>Sizes of the packed structures in bytes.\<close>

definition sizeof_gdtEntry :: u64 where "sizeof_gdtEntry = 8"
definition sizeof_idtEntry :: u16 where "sizeof_idtEntry = 16"

text \<open>
  The tables and pointers of the two files, and what the processor holds: the registers \<open>gdtr\<close> and
  \<open>idtr\<close>, the code and data segment selectors, and the interrupt flag.
\<close>

record descriptor_state = heap_state +
  gdtPtr :: gdtPtrStruct
  idtEntries :: "u8 \<Rightarrow> idtEntry"
  idtPtr :: idtPtrStruct
  wasInit :: bool
  gdtr :: gdtPtrStruct
  idtr :: idtPtrStruct
  cs_selector :: u16
  data_selector :: u16
  interrupt_flag :: bool

definition cli :: "'a descriptor_state_scheme \<Rightarrow> 'a descriptor_state_scheme" where
  "cli s = s\<lparr>interrupt_flag := False\<rparr>"

definition sti :: "'a descriptor_state_scheme \<Rightarrow> 'a descriptor_state_scheme" where
  "sti s = s\<lparr>interrupt_flag := True\<rparr>"

section \<open>Segments\<close>

definition gdt_row :: "u16 \<Rightarrow> u16 \<Rightarrow> u8 \<Rightarrow> u8 \<Rightarrow> u8 \<Rightarrow> u8 \<Rightarrow> gdtEntry" where
  "gdt_row l bl bm a f bh = \<lparr>gdt_limit = l, baseLow = bl, baseMiddle = bm, gdt_access = a, gdt_flags = f, baseHigh = bh\<rparr>"

definition gdt :: "gdtEntry list" where
  "gdt =
     [gdt_row 0 0 0 0 0 0,
      gdt_row 0xffff 0 0 0x9a 0x80 0,
      gdt_row 0xffff 0 0 0x92 0x80 0,
      gdt_row 0xffff 0 0 0x9a 0xcf 0,
      gdt_row 0xffff 0 0 0x92 0xcf 0,
      gdt_row 0 0 0 0x9a 0xa2 0,
      gdt_row 0 0 0 0x92 0xa0 0,
      gdt_row 0 0 0 0xF2 0 0,
      gdt_row 0 0 0 0xFA 0x20 0]"

text \<open>\<open>gdt.asm\<close>: load the register and then the segment registers.\<close>

definition gdtFlush :: "gdtPtrStruct \<Rightarrow> 'a descriptor_state_scheme \<Rightarrow> 'a descriptor_state_scheme" where
  "gdtFlush p s = s\<lparr>gdtr := p, data_selector := 0x30, cs_selector := 0x28\<rparr>"

definition initGDT :: "ptr \<Rightarrow> 'a descriptor_state_scheme \<Rightarrow> (unit, 'a descriptor_state_scheme) outcome" where
  "initGDT gdt_address s =
     (let s = s\<lparr>gdtPtr := (gdtPtr s)\<lparr>gdtp_limit := ucast (sizeof_gdtEntry * 10 - 1)\<rparr>\<rparr>;
          s = s\<lparr>gdtPtr := (gdtPtr s)\<lparr>gdtp_base := gdt_address\<rparr>\<rparr>;
          s = gdtFlush (gdtPtr s) s
      in kprintf ''done'' [] s)"

section \<open>Interrupt gates\<close>

definition idtInit :: "ptr \<Rightarrow> 'a descriptor_state_scheme \<Rightarrow> 'a descriptor_state_scheme" where
  "idtInit idt_address s =
     (let s = s\<lparr>idtPtr := (idtPtr s)\<lparr>idtp_limit := sizeof_idtEntry * 256 - 1\<rparr>\<rparr>;
          s = s\<lparr>idtPtr := (idtPtr s)\<lparr>idtp_base := idt_address\<rparr>\<rparr>;
          s = s\<lparr>idtr := idtPtr s\<rparr>
      in s\<lparr>wasInit := True\<rparr>)"

definition idtInitAgain :: "'a descriptor_state_scheme \<Rightarrow> 'a descriptor_state_scheme" where
  "idtInitAgain s = (let s = cli s; s = s\<lparr>idtr := idtPtr s\<rparr> in sti s)"

definition gate_entry :: "ptr \<Rightarrow> idtEntry" where
  "gate_entry gateAddr =
     (let offsetLow' = ucast (gateAddr AND 0xFFFF);
          offsetMiddle' = ucast (drop_bit 16 gateAddr AND 0xFFFF);
          offsetHigh' = ucast (drop_bit 32 gateAddr AND 0xFFFFFFFF)
      in \<lparr>offsetLow = offsetLow', segmentSelector = 0x28, gate_reserved = 0, gate_attributes = 0x8E,
          offsetMiddle = offsetMiddle', offsetHigh = offsetHigh', reserved2 = 0\<rparr>)"

definition setIDTGate :: "u8 \<Rightarrow> ptr \<Rightarrow> 'a descriptor_state_scheme \<Rightarrow> 'a descriptor_state_scheme" where
  "setIDTGate gateNumber gateAddr s =
     s\<lparr>idtEntries := (idtEntries s)(gateNumber := gate_entry gateAddr)\<rparr>"

section \<open>What the processor reads\<close>

text \<open>The address an interrupt gate leads to, as the processor assembles it.\<close>

definition gate_target :: "idtEntry \<Rightarrow> ptr" where
  "gate_target e = ucast (offsetLow e) OR push_bit 16 (ucast (offsetMiddle e)) OR push_bit 32 (ucast (offsetHigh e))"

lemma gate_target_entry: "gate_target (gate_entry a) = a"
proof (rule bit_word_eqI)
  fix i assume "i < LENGTH(64)"
  have m: "(0xFFFF :: u64) = mask 16" "(0xFFFFFFFF :: u64) = mask 32" by (simp_all add: mask_eq_exp_minus_1)
  show "bit (gate_target (gate_entry a)) i \<longleftrightarrow> bit a i"
    by (cases "i < 32") (auto simp: gate_target_def gate_entry_def Let_def m bit_or_iff bit_and_iff
        bit_push_bit_iff bit_drop_bit_eq bit_unsigned_iff bit_mask_iff not_less dest: bit_imp_le_length)
qed

text \<open>A selector names an entry of the table by its index, three bits up.\<close>

definition selected :: "u16 \<Rightarrow> gdtEntry" where
  "selected sel = gdt ! unat (drop_bit 3 sel)"

text \<open>Bits of the access byte (present, code or data, executable) and of the flags (long mode).\<close>

definition long_mode_code :: "gdtEntry \<Rightarrow> bool" where
  "long_mode_code e \<longleftrightarrow> gdt_access e AND 0x98 = 0x98 \<and> gdt_flags e AND 0x20 \<noteq> 0"

definition writable_data :: "gdtEntry \<Rightarrow> bool" where
  "writable_data e \<longleftrightarrow> gdt_access e AND 0x9A = 0x92"

section \<open>Properties\<close>

text \<open>
  \<open>initGDT\<close> returns with the table's address in the processor's register, the code selector 0x28
  naming a present 64-bit code segment and the data selector 0x30 a present writable data segment.
  The limit it loads is that of ten entries: one more than the table has.
\<close>

theorem initGDT_segments:
  "\<exists>s'. initGDT a s = Done () s' \<and> gdtp_base (gdtr s') = a \<and>
     long_mode_code (selected (cs_selector s')) \<and> writable_data (selected (data_selector s')) \<and>
     unat (drop_bit 3 (cs_selector s')) < length gdt \<and> unat (drop_bit 3 (data_selector s')) < length gdt \<and>
     unat (gdtp_limit (gdtr s')) + 1 = 8 * (length gdt + 1) \<and> mem s' = mem s"
proof -
  have ok: "fmt_ok (c_string ''done'') []" by (simp add: fmt_eval)
  show ?thesis
    by (simp add: initGDT_def gdtFlush_def Let_def kprintf_Done [OF ok] sizeof_gdtEntry_def selected_def
        gdt_def gdt_row_def long_mode_code_def writable_data_def)
qed

text \<open>
  \<open>setIDTGate\<close> splits the handler's address into three fields that the processor puts together to
  the same address, in the kernel's code segment and with a present 64-bit interrupt gate; it
  changes no other gate.
\<close>

theorem setIDTGate_target:
  "\<exists>e. setIDTGate n a s = s\<lparr>idtEntries := (idtEntries s)(n := e)\<rparr> \<and> gate_target e = a \<and>
     segmentSelector e = 0x28 \<and> gate_attributes e = 0x8E"
  using gate_target_entry [of a]
  by (intro exI [of _ "gate_entry a"]) (simp add: setIDTGate_def gate_entry_def Let_def)

end
