(* ===== verification/Renderer.thy ===== *)
theory Renderer
  imports Console "HOL-Library.Signed_Division"
begin

text \<open>
  The text renderer of \<open>kernel/renderer/BasicRenderer.cpp\<close>: it draws the glyphs of a PSF1 font into
  the frame buffer, keeps a cursor, and prints strings and numbers. Pixels are the 32-bit cells of
  the frame buffer; the renderer changes memory and itself.
\<close>

section \<open>Structures\<close>

record Point =
  PX :: u32
  PY :: u32

record col =
  col_white :: u32
  col_silver :: u32
  col_gray :: u32
  col_bgray :: u32
  col_dgray :: u32
  col_black :: u32
  col_pink :: u32
  col_green :: u32
  col_red :: u32
  col_purple :: u32
  col_orange :: u32
  col_cyan :: u32
  col_yellow :: u32
  col_brown :: u32
  col_blue :: u32
  col_dblue :: u32
  col_bred :: u32
  col_bblue :: u32
  col_bgreen :: u32
  col_tblack :: u32

definition Colors :: col where
  "Colors = \<lparr>col_white = 0xffffffff, col_silver = 0xffc0c0c0, col_gray = 0xff808080,
     col_bgray = 0xffC0C0C0, col_dgray = 0xff404040, col_black = 0xff000000, col_pink = 0xffFF1493,
     col_green = 0xff008000, col_red = 0xff800000, col_purple = 0xff800080, col_orange = 0xffFF4500,
     col_cyan = 0xff008080, col_yellow = 0xffFFD700, col_brown = 0xffA52A2A, col_blue = 0xff000080,
     col_dblue = 0xff000030, col_bred = 0xffFF0000, col_bblue = 0xff0000FF, col_bgreen = 0xff00FF00,
     col_tblack = 0x00000000\<rparr>"

text \<open>
  The two pointers of the class lead to structures that nothing changes once they are set up; the
  record holds the structures.
\<close>

record BasicRenderer =
  CursorPosition :: Point
  r_framebuffer :: Framebuffer
  r_font :: PSF1_FONT
  color :: u32
  overwrite :: bool

definition newRenderer :: "Framebuffer \<Rightarrow> PSF1_FONT \<Rightarrow> BasicRenderer" where
  "newRenderer fb font = \<lparr>CursorPosition = \<lparr>PX = 0, PY = 0\<rparr>, r_framebuffer = fb, r_font = font,
     color = 0xffffffff, overwrite = False\<rparr>"

section \<open>PutChar\<close>

text \<open>\<open>charsize\<close> is the fourth byte of \<open>struct PSF1_HEADER\<close>; \<open>char\<close> is signed.\<close>

definition psf1_charsize :: "memory \<Rightarrow> PSF1_FONT \<Rightarrow> u8" where
  "psf1_charsize m font = m (psf1_Header font + 3)"

definition glyph_address :: "memory \<Rightarrow> PSF1_FONT \<Rightarrow> char \<Rightarrow> ptr" where
  "glyph_address m font chr =
     glyphBuffer font + scast (of_char chr :: u8) * ucast (psf1_charsize m font)"

definition pixel_address :: "Framebuffer \<Rightarrow> u64 \<Rightarrow> u64 \<Rightarrow> ptr" where
  "pixel_address fb x y = BaseAddress fb + 4 * (x + y * ucast (PixelsPerScanLine fb))"

text \<open>The values of a counter that goes from \<open>k\<close> to below \<open>k + n\<close>, a sum of 32-bit numbers.\<close>

definition counter :: "u32 \<Rightarrow> u32 \<Rightarrow> u64 list" where
  "counter k n = map of_nat [unat k ..< unat (k + n)]"

definition put_pixel :: "BasicRenderer \<Rightarrow> ptr \<Rightarrow> u32 \<Rightarrow> u64 \<Rightarrow> u64 \<Rightarrow> memory \<Rightarrow> memory" where
  "put_pixel r fontPtr xOff y x m =
     (if m fontPtr AND drop_bit (unat (x - ucast xOff)) 0b10000000 \<noteq> 0
      then store32 m (pixel_address (r_framebuffer r) x y) (color r) else m)"

definition put_row :: "BasicRenderer \<Rightarrow> u32 \<Rightarrow> u64 \<Rightarrow> ptr \<times> memory \<Rightarrow> ptr \<times> memory" where
  "put_row r xOff y = (\<lambda>(fontPtr, m).
     (fontPtr + 1, fold (put_pixel r fontPtr xOff y) (counter xOff 8) m))"

definition PutChar :: "BasicRenderer \<Rightarrow> char \<Rightarrow> u32 \<Rightarrow> u32 \<Rightarrow> memory \<Rightarrow> memory" where
  "PutChar r chr xOff yOff m =
     snd (fold (put_row r xOff) (counter yOff 16) (glyph_address m (r_font r) chr, m))"

section \<open>Print\<close>

definition newline :: "Point \<Rightarrow> Point" where
  "newline p = \<lparr>PX = 0, PY = PY p + 16\<rparr>"

definition advance :: "Point \<Rightarrow> Point" where
  "advance p = p\<lparr>PX := PX p + 8\<rparr>"

definition print_char :: "char \<Rightarrow> BasicRenderer \<times> memory \<Rightarrow> BasicRenderer \<times> memory" where
  "print_char c = (\<lambda>(r, m).
     let p = CursorPosition r;
         (p, m) = (if c = CHR 0x0A then (newline p, m)
                   else if c = CHR 0x09 then (advance p, m)
                   else (advance p, PutChar r c (PX p) (PY p) m));
         p = (if PX p + 8 > Width (r_framebuffer r) then newline p else p)
     in (r\<lparr>CursorPosition := p\<rparr>, m))"

definition Print :: "string \<Rightarrow> BasicRenderer \<times> memory \<Rightarrow> BasicRenderer \<times> memory" where
  "Print str rm = fold print_char (c_string str) rm"

section \<open>PrintInt\<close>

definition LONG_MIN :: u64 where
  "LONG_MIN = 0x8000000000000000"

text \<open>A character at the cursor, which then moves right; no line break.\<close>

definition draw :: "char \<Rightarrow> BasicRenderer \<times> memory \<Rightarrow> BasicRenderer \<times> memory" where
  "draw c = (\<lambda>(r, m).
     (r\<lparr>CursorPosition := advance (CursorPosition r)\<rparr>,
      PutChar r c (PX (CursorPosition r)) (PY (CursorPosition r)) m))"

text \<open>The digits of a positive number into \<open>buffer\<close>, the last one first.\<close>

function digit_buffer :: "int \<Rightarrow> string \<Rightarrow> string" where
  "digit_buffer num buffer =
     (if num > 0 then digit_buffer (num div 10) (buffer @ [char_of (48 + nat (num mod 10))]) else buffer)"
  by pat_completeness auto
termination by (relation "measure (\<lambda>(num, buffer). nat num)") auto

declare digit_buffer.simps [simp del]

text \<open>
  \<open>num\<close> is an \<open>int\<close>. Its comparison with \<open>LONG_MIN\<close> is made on 64-bit unsigned numbers. Negating the
  least \<open>int\<close> is undefined.
\<close>

definition PrintInt :: "u32 \<Rightarrow> BasicRenderer \<times> memory \<Rightarrow> (BasicRenderer \<times> memory) option" where
  "PrintInt num rm =
     (if num = 0 then Some (draw (CHR ''0'') rm)
      else
        let neg = num <s 0;
            rm = (if neg then draw (CHR ''-'') rm else rm);
            least = (neg \<and> (scast num :: u64) = LONG_MIN);
            rm = (if least then draw (CHR ''8'') rm else rm);
            n = sint num;
            n = (if least then n sdiv (- 10) else n)
        in if neg \<and> n = - (2 ^ 31) then None
           else let n = (if neg then - n else n)
                in Some (fold draw (rev (digit_buffer n [])) rm))"

section \<open>Clear\<close>

definition clear_pixel :: "Framebuffer \<Rightarrow> u32 \<Rightarrow> u64 \<Rightarrow> u64 \<Rightarrow> memory \<Rightarrow> memory" where
  "clear_pixel fb c y x m =
     store32 m (BaseAddress fb + 4 * (x + ucast (PixelsPerScanLine fb) * y)) c"

definition Clear :: "u32 \<Rightarrow> bool \<Rightarrow> BasicRenderer \<times> memory \<Rightarrow> BasicRenderer \<times> memory" where
  "Clear c resetCursor = (\<lambda>(r, m).
     let fb = r_framebuffer r;
         m = fold (\<lambda>y. fold (clear_pixel fb c y) (map of_nat [0..<unat (Width fb)]))
               (map of_nat [0..<unat (Height fb)]) m
     in (if resetCursor then r\<lparr>CursorPosition := \<lparr>PX = 0, PY = 0\<rparr>\<rparr> else r, m))"

section \<open>Painting\<close>

text \<open>
  What a set of pixel writes does: the cells of the pixels, counted from the base of the frame
  buffer, get the colour, every other byte stays.
\<close>

definition paint :: "ptr \<Rightarrow> u32 \<Rightarrow> nat set \<Rightarrow> memory \<Rightarrow> memory" where
  "paint base c K m = (\<lambda>a. if unat (a - base) div 4 \<in> K
     then ucast (drop_bit (8 * (unat (a - base) mod 4)) c) else m a)"

lemma paint_empty [simp]: "paint base c {} m = m"
  by (simp add: paint_def)

lemma paint_paint: "paint base c K (paint base c L m) = paint base c (K \<union> L) m"
  by (auto simp: paint_def)

lemma pixel_region:
  fixes a base :: ptr
  assumes "k < 2 ^ 60"
  shows "unat (a - (base + 4 * of_nat k)) < 4 \<longleftrightarrow> unat (a - base) div 4 = k"
    "unat (a - base) div 4 = k \<Longrightarrow> unat (a - (base + 4 * of_nat k)) = unat (a - base) mod 4"
proof -
  let ?d = "unat (a - base)"
  have k: "unat (4 * of_nat k :: u64) = 4 * k"
    using assms unat64_of_nat [of "4 * k"] by simp
  have e: "a - (base + 4 * of_nat k) = (a - base) - 4 * of_nat k" by simp
  have u: "unat (a - (base + 4 * of_nat k)) = ?d - 4 * k" if "4 * k \<le> ?d"
    unfolding e using k that by (simp add: unat64_diff_eq)
  show "unat (a - (base + 4 * of_nat k)) < 4 \<longleftrightarrow> ?d div 4 = k"
  proof (cases "4 * k \<le> ?d")
    case True
    then show ?thesis unfolding u [OF True] by linarith
  next
    case False
    then have "a - base \<noteq> 4 * of_nat k" using k by auto
    then have "unat (a - (base + 4 * of_nat k)) = 18446744073709551616 - unat (4 * of_nat k - (a - base))"
      unfolding e by (rule unat64_diff_swap)
    moreover have "unat (4 * of_nat k - (a - base)) \<le> 4 * k"
      using False k by (simp add: unat64_diff_eq)
    moreover have "4 * k < 4611686018427387904" using assms by simp
    ultimately show ?thesis using False by linarith
  qed
  assume "?d div 4 = k"
  then show "unat (a - (base + 4 * of_nat k)) = ?d mod 4"
    using u by (auto simp: minus_mult_div_eq_mod)
qed

lemma store32_paint: "k < 2 ^ 60 \<Longrightarrow> store32 m (base + 4 * of_nat k) c = paint base c {k} m"
  using pixel_region by (auto simp: store_le_def paint_def)

text \<open>A painted pixel reads as the colour, another as before.\<close>

lemma load_paint:
  assumes "k < 2 ^ 60"
  shows "load32 (paint base c K m) (base + 4 * of_nat k) = (if k \<in> K then c else load32 m (base + 4 * of_nat k))"
proof (cases "k \<in> K")
  case True
  then have "paint base c K m = paint base c {k} (paint base c K m)" by (simp add: paint_paint insert_absorb)
  also have "\<dots> = store32 (paint base c K m) (base + 4 * of_nat k) c"
    by (rule store32_paint [OF assms, symmetric])
  finally have "load32 (paint base c K m) (base + 4 * of_nat k) =
      load32 (store32 (paint base c K m) (base + 4 * of_nat k) c) (base + 4 * of_nat k)" by simp
  then show ?thesis using True by simp
next
  case False
  have "same_on (region (base + 4 * of_nat k) 4) (paint base c K m) m"
    unfolding same_on_def
  proof
    fix a assume "a \<in> region (base + 4 * of_nat k) 4"
    then have "unat (a - base) div 4 = k" using pixel_region(1) [OF assms] by simp
    then show "paint base c K m a = m a" using False by (simp add: paint_def)
  qed
  then show ?thesis using False by (simp add: load_le_cong)
qed

text \<open>The number of the pixel \<open>(x, y)\<close>.\<close>

definition pixel_no :: "Framebuffer \<Rightarrow> nat \<Rightarrow> nat \<Rightarrow> nat" where
  "pixel_no fb x y = x + y * unat (PixelsPerScanLine fb)"

lemma pixel_no_bound:
  assumes "x < 2 ^ 33" "y < 2 ^ 33" "unat (PixelsPerScanLine fb) < 2 ^ 20"
  shows "pixel_no fb x y < 2 ^ 60"
proof -
  have "y * unat (PixelsPerScanLine fb) \<le> 2 ^ 33 * 2 ^ 20"
    using assms by (intro mult_le_mono) simp_all
  then show ?thesis using assms(1) by (simp add: pixel_no_def)
qed

lemma pixel_address_no:
  "BaseAddress fb + 4 * (of_nat x + of_nat y * ucast (PixelsPerScanLine fb)) =
     BaseAddress fb + 4 * of_nat (pixel_no fb x y)"
  by (simp add: pixel_no_def)

lemma clear_row:
  assumes "unat (PixelsPerScanLine fb) < 2 ^ 20" "y < 2 ^ 33" "W \<le> 2 ^ 33"
  shows "fold (clear_pixel fb c (of_nat y)) (map of_nat [0..<W]) m =
    paint (BaseAddress fb) c ((\<lambda>x. pixel_no fb x y) ` {..<W}) m"
  using assms(3)
proof (induction W)
  case (Suc W)
  have "clear_pixel fb c (of_nat y) (of_nat W) n = paint (BaseAddress fb) c {pixel_no fb W y} n" for n
    using store32_paint [OF pixel_no_bound [of W y fb]] Suc.prems assms pixel_address_no [of fb W y]
    by (simp add: clear_pixel_def mult.commute)
  with Suc show ?case by (simp add: paint_paint lessThan_Suc)
qed simp

lemma clear_rows:
  assumes "unat (PixelsPerScanLine fb) < 2 ^ 20" "H \<le> 2 ^ 33" "W \<le> 2 ^ 33"
  shows "fold (\<lambda>y. fold (clear_pixel fb c y) (map of_nat [0..<W])) (map of_nat [0..<H]) m =
    paint (BaseAddress fb) c ((\<lambda>(x, y). pixel_no fb x y) ` ({..<W} \<times> {..<H})) m"
  using assms(2)
proof (induction H)
  case (Suc H)
  have "(\<lambda>(x, y). pixel_no fb x y) ` ({..<W} \<times> {..<Suc H}) =
      (\<lambda>x. pixel_no fb x H) ` {..<W} \<union> (\<lambda>(x, y). pixel_no fb x y) ` ({..<W} \<times> {..<H})"
    by (auto simp: lessThan_Suc image_iff)
  with Suc clear_row [OF assms(1) _ assms(3), of H] show ?case by (simp add: paint_paint)
qed simp

section \<open>Glyphs\<close>

text \<open>The pixels a glyph sets in a row and in the cell at a position.\<close>

definition row_pixels :: "BasicRenderer \<Rightarrow> u8 \<Rightarrow> nat \<Rightarrow> nat \<Rightarrow> nat \<Rightarrow> nat set" where
  "row_pixels r bits x0 y n = {pixel_no (r_framebuffer r) (x0 + i) y | i. i < n \<and> bit bits (7 - i)}"

lemma drop_bit_128:
  assumes "i < 8"
  shows "b AND drop_bit i (0b10000000 :: u8) \<noteq> 0 \<longleftrightarrow> bit b (7 - i)"
proof -
  have k: "bit (0b10000000 :: u8) k \<longleftrightarrow> k = 7" for k
    using bit_exp_iff [where 'a = "8 word", of 7 k] by (auto simp: possible_bit_def)
  have "b AND drop_bit i (0b10000000 :: u8) \<noteq> 0 \<longleftrightarrow> (\<exists>n < 8. bit b n \<and> bit (0b10000000 :: u8) (i + n))"
    by (auto simp: bit_eq_iff [where 'a = "8 word"] bit_and_iff bit_drop_bit_eq)
  also have "\<dots> \<longleftrightarrow> (\<exists>n < 8. bit b n \<and> i + n = 7)" by (metis k)
  also have "\<dots> \<longleftrightarrow> bit b (7 - i)"
  proof
    assume "\<exists>n < 8. bit b n \<and> i + n = 7"
    then obtain n where n: "bit b n" "i + n = 7" by blast
    have "7 - i = n" using n(2) by linarith
    with n(1) show "bit b (7 - i)" by simp
  qed (use assms in \<open>intro exI [of _ "7 - i"]; simp\<close>)
  finally show ?thesis .
qed

text \<open>An address that no pixel below \<open>N\<close> covers.\<close>

definition clear_of :: "Framebuffer \<Rightarrow> nat \<Rightarrow> ptr \<Rightarrow> bool" where
  "clear_of fb N a \<longleftrightarrow> N \<le> unat (a - BaseAddress fb) div 4"

lemma paint_clear_of: "clear_of fb N a \<Longrightarrow> (\<And>k. k \<in> K \<Longrightarrow> k < N) \<Longrightarrow> paint (BaseAddress fb) c K m a = m a"
  by (force simp: clear_of_def paint_def)

lemma put_pixels_row:
  assumes "n \<le> 8" "unat xOff + 8 < 2 ^ 32" "y < 2 ^ 33"
    and fb: "fb = r_framebuffer r" "unat (PixelsPerScanLine fb) < 2 ^ 20"
    and font: "clear_of fb N f" "pixel_no fb (unat xOff + 8) y \<le> N"
  shows "fold (put_pixel r f xOff (of_nat y)) (map of_nat [unat xOff..<unat xOff + n]) m =
    paint (BaseAddress fb) (color r) (row_pixels r (m f) (unat xOff) y n) m"
  using assms(1)
proof (induction n)
  case 0
  then show ?case by (simp add: row_pixels_def)
next
  case (Suc n)
  let ?x = "unat xOff"
  let ?P = "row_pixels r (m f) ?x y"
  have n8: "n < 8" using Suc.prems by simp
  have u: "unat (of_nat (?x + n) - ucast xOff :: u64) = n"
  proof -
    have "of_nat (?x + n) - ucast xOff = (of_nat n :: u64)" by simp
    then show ?thesis using n8 unat64_of_nat [of n] by simp
  qed
  have below: "k \<in> ?P n \<Longrightarrow> k < N" for k
    using n8 font(2) fb(1) by (auto simp: row_pixels_def pixel_no_def)
  have f: "paint (BaseAddress fb) (color r) (?P n) m f = m f"
    by (rule paint_clear_of [OF font(1) below])
  have st: "store32 z (pixel_address fb (of_nat (?x + n)) (of_nat y)) (color r) =
      paint (BaseAddress fb) (color r) {pixel_no fb (?x + n) y} z" for z
    unfolding pixel_address_def pixel_address_no
    by (rule store32_paint, rule pixel_no_bound) (use assms(2,3) fb(2) n8 in simp_all)
  have P: "?P (Suc n) = (if bit (m f) (7 - n) then {pixel_no fb (?x + n) y} else {}) \<union> ?P n"
    using fb(1) by (auto simp: row_pixels_def less_Suc_eq)
  have "fold (put_pixel r f xOff (of_nat y)) (map of_nat [?x..<?x + Suc n]) m =
      put_pixel r f xOff (of_nat y) (of_nat (?x + n)) (paint (BaseAddress fb) (color r) (?P n) m)"
    using Suc.IH n8 by simp
  also have "\<dots> = paint (BaseAddress fb) (color r) (?P (Suc n)) m"
    unfolding put_pixel_def u f drop_bit_128 [OF n8] fb(1) [symmetric] st P
    by (simp add: paint_paint)
  finally show ?case .
qed

lemma put_rows:
  assumes "n \<le> 16" "unat xOff + 8 < 2 ^ 32" "y0 + 16 < 2 ^ 32"
    and fb: "fb = r_framebuffer r" "unat (PixelsPerScanLine fb) < 2 ^ 20"
    and font: "\<And>j. j < 16 \<Longrightarrow> clear_of fb N (f + of_nat j)" "pixel_no fb (unat xOff + 8) (y0 + 16) \<le> N"
  shows "fold (put_row r xOff) (map of_nat [y0..<y0 + n]) (f, m) =
    (f + of_nat n, paint (BaseAddress fb) (color r)
       (\<Union>j < n. row_pixels r (m (f + of_nat j)) (unat xOff) (y0 + j) 8) m)"
  using assms(1)
proof (induction n)
  case (Suc n)
  let ?K = "\<lambda>n. \<Union>j < n. row_pixels r (m (f + of_nat j)) (unat xOff) (y0 + j) 8"
  let ?m = "paint (BaseAddress fb) (color r) (?K n) m"
  have n16: "n < 16" using Suc.prems by simp
  have row: "pixel_no fb (unat xOff + 8) (y0 + j) \<le> N" if "j < 16" for j
  proof -
    have "(y0 + j) * unat (PixelsPerScanLine fb) \<le> (y0 + 16) * unat (PixelsPerScanLine fb)"
      using that by (intro mult_le_mono1) simp
    then show ?thesis using font(2) unfolding pixel_no_def by linarith
  qed
  have "k < N" if kin: "k \<in> ?K n" for k
  proof -
    obtain i j where ij: "i < 8" "j < n" "k = pixel_no fb (unat xOff + i) (y0 + j)"
      using kin fb(1) by (auto simp: row_pixels_def)
    then have "k < pixel_no fb (unat xOff + 8) (y0 + j)" by (simp add: pixel_no_def)
    then show ?thesis using row [of j] ij(2) n16 by simp
  qed
  then have f: "?m (f + of_nat n) = m (f + of_nat n)" by (rule paint_clear_of [OF font(1) [OF n16]])
  have c: "counter xOff 8 = map of_nat [unat xOff..<unat xOff + 8]"
    using assms(2) by (simp add: counter_def unat_plus_if' del: upt_rec_numeral)
  have "fold (put_pixel r (f + of_nat n) xOff (of_nat (y0 + n))) (counter xOff 8) ?m =
      paint (BaseAddress fb) (color r) (row_pixels r (?m (f + of_nat n)) (unat xOff) (y0 + n) 8) ?m"
    unfolding c by (rule put_pixels_row [OF _ assms(2) _ fb font(1) [OF n16] row [OF n16]])
      (use assms(3) n16 in simp_all)
  with Suc show ?case
    by (simp add: put_row_def f paint_paint lessThan_Suc add.assoc Un_commute)
qed simp

section \<open>Numbers\<close>

definition digit_char :: "nat \<Rightarrow> char" where
  "digit_char d = char_of (48 + d)"

lemma digit_buffer_digits:
  "rev (digit_buffer (int n) buf) = map digit_char (numeral_digits 10 n) @ rev buf"
proof (induction n arbitrary: buf rule: less_induct)
  case (less n)
  show ?case
  proof (cases "n = 0")
    case True
    then show ?thesis by (simp add: digit_buffer.simps numeral_digits.simps)
  next
    case False
    have "digit_buffer (int n) buf = digit_buffer (int (n div 10)) (buf @ [digit_char (n mod 10)])"
      using False by (subst digit_buffer.simps) (simp add: digit_char_def zdiv_int nat_mod_distrib zmod_int)
    moreover have "numeral_digits 10 n = numeral_digits 10 (n div 10) @ [n mod 10]"
      using False by (subst numeral_digits.simps) simp
    ultimately show ?thesis using less.IH [of "n div 10"] False by simp
  qed
qed

section \<open>Properties\<close>

text \<open>The pixels of the glyph of a character, drawn with its upper left corner at \<open>(x, y)\<close>.\<close>

definition glyph_pixels :: "BasicRenderer \<Rightarrow> char \<Rightarrow> nat \<Rightarrow> nat \<Rightarrow> memory \<Rightarrow> nat set" where
  "glyph_pixels r chr x y m = {pixel_no (r_framebuffer r) (x + i) (y + j) | i j. i < 8 \<and> j < 16 \<and>
     bit (m (glyph_address m (r_font r) chr + of_nat j)) (7 - i)}"

text \<open>
  C37: \<open>PutChar\<close> paints exactly the pixels whose bits are set in the character's glyph, eight columns
  and sixteen rows from the given corner on, and changes no other byte, as long as the font does not
  lie under the pixels up to the lower right corner of the cell.
\<close>

theorem PutChar_draws:
  assumes "unat xOff + 8 < 2 ^ 32" "unat yOff + 16 < 2 ^ 32"
    "unat (PixelsPerScanLine (r_framebuffer r)) < 2 ^ 20"
    "\<And>j. j < 16 \<Longrightarrow> clear_of (r_framebuffer r)
      (pixel_no (r_framebuffer r) (unat xOff + 8) (unat yOff + 16)) (glyph_address m (r_font r) chr + of_nat j)"
  shows "PutChar r chr xOff yOff m =
    paint (BaseAddress (r_framebuffer r)) (color r) (glyph_pixels r chr (unat xOff) (unat yOff) m) m"
proof -
  let ?f = "glyph_address m (r_font r) chr"
  have c: "counter yOff 16 = map of_nat [unat yOff..<unat yOff + 16]"
    using assms(2) by (simp add: counter_def unat_plus_if' del: upt_rec_numeral)
  have "(\<Union>j < 16. row_pixels r (m (?f + of_nat j)) (unat xOff) (unat yOff + j) 8) =
      glyph_pixels r chr (unat xOff) (unat yOff) m"
    by (auto simp: row_pixels_def glyph_pixels_def)
  then show ?thesis
    unfolding PutChar_def c
    using put_rows [of 16 xOff "unat yOff" "r_framebuffer r" r _ ?f m, OF _ assms(1,2) refl assms(3,4)]
    by simp
qed

text \<open>A font of 16-byte glyphs at 1 MB, the frame buffer at 16 MB; the glyph of A has one dot.\<close>

definition renderer_sample :: BasicRenderer where
  "renderer_sample = newRenderer \<lparr>BaseAddress = 0x1000000, BufferSize = 0x300000, Width = 1024, Height = 768,
     PixelsPerScanLine = 1024\<rparr> \<lparr>psf1_Header = 0x100000, glyphBuffer = 0x100004\<rparr>"

definition font_sample :: memory where
  "font_sample = (\<lambda>_. 0)(0x100003 := 16, 0x100414 := 0x80)"

lemma font_sample_clear:
  "j < 16 \<Longrightarrow> clear_of (r_framebuffer renderer_sample) (pixel_no (r_framebuffer renderer_sample) (unat (40 :: u32) + 8) (unat (32 :: u32) + 16))
     (glyph_address font_sample (r_font renderer_sample) (CHR ''A'') + of_nat j)"
proof -
  assume j: "j < 16"
  have "unat (0x100414 + of_nat j - 0x1000000 :: u64) = unat (of_nat j + (0x100414 - 0x1000000) :: u64)"
    by (simp add: algebra_simps)
  also have "\<dots> = j + unat (0x100414 - 0x1000000 :: u64)"
    using j unat64_of_nat [of j] by (subst unat64_add_nowrap) simp_all
  finally show ?thesis
    by (simp add: clear_of_def pixel_no_def renderer_sample_def newRenderer_def glyph_address_def
        psf1_charsize_def font_sample_def of_char_def)
qed

theorem PutChar_draws_witness:
  "load32 (PutChar renderer_sample (CHR ''A'') 40 32 font_sample) (0x1000000 + 4 * (40 + 32 * 1024)) = 0xffffffff"
proof -
  note run = PutChar_draws [of 40 32 renderer_sample font_sample "CHR ''A''", OF _ _ _ font_sample_clear]
  have "pixel_no (r_framebuffer renderer_sample) 40 32 \<in> glyph_pixels renderer_sample (CHR ''A'') 40 32 font_sample"
    unfolding glyph_pixels_def
    by (intro CollectI exI [of _ 0])
      (simp add: renderer_sample_def newRenderer_def glyph_address_def psf1_charsize_def font_sample_def of_char_def)
  moreover have "pixel_no (r_framebuffer renderer_sample) 40 32 = 32808"
    by (simp add: pixel_no_def renderer_sample_def newRenderer_def)
  ultimately show ?thesis
    using run load_paint [of 32808 "0x1000000" "0xffffffff"]
    by (simp add: renderer_sample_def newRenderer_def)
qed

text \<open>
  C38: \<open>PrintInt\<close> draws the decimal numeral of every \<open>int\<close> but the least, character by character at the
  cursor: the sign, then one to ten digits that read back as the absolute value. For the least \<open>int\<close> the
  negation is undefined; the code's guard against it compares with the 64-bit minimum and never
  holds.
\<close>

theorem PrintInt_decimal:
  "PrintInt num rm =
    (if sint num = - (2 ^ 31) then None
     else Some (fold draw ((if sint num < 0 then ''-'' else []) @
       (if num = 0 then ''0'' else map digit_char (numeral_digits 10 (nat \<bar>sint num\<bar>)))) rm)) \<and>
   numeral_value 10 (numeral_digits 10 (nat \<bar>sint num\<bar>)) = nat \<bar>sint num\<bar> \<and>
   length (numeral_digits 10 (nat \<bar>sint num\<bar>)) \<le> 10 \<and>
   set (numeral_digits 10 (nat \<bar>sint num\<bar>)) \<subseteq> {..<10}"
proof -
  have range: "- (2 ^ 31) \<le> sint num" "sint num < 2 ^ 31"
    using sint_ge [of num] sint_lt [of num] by simp_all
  have not_least: "(scast num :: u64) \<noteq> LONG_MIN"
  proof
    assume "(scast num :: u64) = LONG_MIN"
    then have "sint (scast num :: u64) = sint LONG_MIN" by simp
    moreover have "sint (scast num :: u64) = sint num" by (simp add: sint_up_scast is_up)
    moreover have "sint LONG_MIN = - (2 ^ 63)" by (simp add: LONG_MIN_def)
    ultimately show False using range(1) by simp
  qed
  have neg: "num <s 0 \<longleftrightarrow> sint num < 0" by (simp add: word_sless_alt)
  have zero: "num = 0 \<longleftrightarrow> sint num = 0" by (simp add: signed_eq_0_iff)
  have buf: "rev (digit_buffer (\<bar>sint num\<bar>) []) = map digit_char (numeral_digits 10 (nat \<bar>sint num\<bar>))"
    using digit_buffer_digits [of "nat \<bar>sint num\<bar>" "[]"] by simp
  have "\<bar>sint num\<bar> < 10 ^ 10" using range by simp
  then have "nat \<bar>sint num\<bar> < 10 ^ 10" by (simp add: nat_less_iff)
  then show ?thesis
    using buf not_least numeral_digits_less [of 10 _ "nat \<bar>sint num\<bar>"]
    by (cases "sint num < 0")
      (auto simp: PrintInt_def neg Let_def numeral_digits_value numeral_digits_length)
qed

text \<open>
  \<open>Clear\<close> writes the colour to every pixel of the visible area and changes no other byte of
  memory; the cursor goes to the corner when it is asked to.
\<close>

theorem Clear_paints:
  assumes "unat (PixelsPerScanLine (r_framebuffer r)) < 2 ^ 20"
  shows "Clear c resetCursor (r, m) =
    (if resetCursor then r\<lparr>CursorPosition := \<lparr>PX = 0, PY = 0\<rparr>\<rparr> else r,
     paint (BaseAddress (r_framebuffer r)) c
       {pixel_no (r_framebuffer r) x y | x y. x < unat (Width (r_framebuffer r)) \<and> y < unat (Height (r_framebuffer r))} m)"
proof -
  have "unat (v :: u32) \<le> 2 ^ 33" for v
    using unsigned_less [of v, where 'a = nat] by simp
  note this [of "Width (r_framebuffer r)"] this [of "Height (r_framebuffer r)"]
  from clear_rows [OF assms this(2,1), of c m]
  have "fold (\<lambda>y. fold (clear_pixel (r_framebuffer r) c y) (map of_nat [0..<unat (Width (r_framebuffer r))]))
      (map of_nat [0..<unat (Height (r_framebuffer r))]) m =
    paint (BaseAddress (r_framebuffer r)) c
      ((\<lambda>(x, y). pixel_no (r_framebuffer r) x y) ` ({..<unat (Width (r_framebuffer r))} \<times> {..<unat (Height (r_framebuffer r))})) m" .
  moreover have "(\<lambda>(x, y). pixel_no (r_framebuffer r) x y) ` ({..<w} \<times> {..<h}) =
      {pixel_no (r_framebuffer r) x y | x y. x < w \<and> y < h}" for w h by force
  ultimately show ?thesis by (simp add: Clear_def Let_def)
qed

theorem Clear_paints_witness:
  "load32 (snd (Clear (col_black Colors) True (renderer_sample, font_sample))) (0x1000000 + 4 * (40 + 32 * 1024)) = 0xff000000"
proof -
  have "32808 \<in> {pixel_no (r_framebuffer renderer_sample) x y | x y.
      x < unat (Width (r_framebuffer renderer_sample)) \<and> y < unat (Height (r_framebuffer renderer_sample))}"
    by (intro CollectI exI [of _ 40] exI [of _ 32])
      (simp add: pixel_no_def renderer_sample_def newRenderer_def)
  then show ?thesis
    using Clear_paints [of renderer_sample "col_black Colors" True font_sample]
      load_paint [of 32808 "0x1000000" "0xff000000"]
    by (simp add: renderer_sample_def newRenderer_def Colors_def)
qed

end
