(* ===== verification/Timer.thy ===== *)
theory Timer
  imports Descriptors Io_Port
begin

text \<open>
  The programmable interval timer as \<open>kernel/process/process.cpp\<close> uses it: its initialisation, the tick
  counter, and the two routines that wait for ticks. What happens between two looks at the counter
  (interrupts, other processors) is the parameter \<open>env\<close>.
\<close>

section \<open>State\<close>

text \<open>
  The entries of \<open>handlers\<close>: the two routines the kernel registers, or none. \<open>pitTicks\<close> and
  \<open>handlers\<close> are globals of \<open>isr.cpp\<close> and \<open>isr.hpp\<close>.
\<close>

datatype interrupt_handler = NoHandler | Isr13 | PitHandler

record timer_state = descriptor_state +
  pitTicks :: u64
  handlers :: "nat \<Rightarrow> interrupt_handler"

definition PIT_COUNTER0 :: u16 where "PIT_COUNTER0 = 0x40"
definition PIT_CMD :: u16 where "PIT_CMD = 0x43"
definition PIT_BINARY :: u8 where "PIT_BINARY = 0x00"
definition PIT_MODE3 :: u8 where "PIT_MODE3 = 0x04"
definition PIT_RW_BOTH :: u8 where "PIT_RW_BOTH = 0x30"

section \<open>Operations\<close>

definition getPITCount :: "'a timer_state_scheme \<Rightarrow> u64" where
  "getPITCount s = pitTicks s"

definition pitInit :: "u8 \<Rightarrow> 'a timer_state_scheme \<Rightarrow> 'a timer_state_scheme" where
  "pitInit hertz s =
     (let divisor = (1193180 :: u32) div 100;
          s = cli s;
          s = outb 0x43 0x34 s;
          l = ucast (divisor AND 0xFF);
          h = ucast (drop_bit 8 divisor AND 0xFF);
          s = outb 0x40 l s;
          s = outb 0x40 h s;
          s = s\<lparr>handlers := (handlers s)(32 := PitHandler)\<rparr>
      in sti s)"

text \<open>\<open>while (getPITCount() - startTime < targetTicks)\<close>\<close>

partial_function (option) wait_ticks ::
    "('a timer_state_scheme \<Rightarrow> 'a timer_state_scheme) \<Rightarrow> u64 \<Rightarrow> u64 \<Rightarrow> 'a timer_state_scheme \<Rightarrow>
     'a timer_state_scheme option" where
  "wait_ticks env startTime targetTicks s =
     (if getPITCount s - startTime < targetTicks then wait_ticks env startTime targetTicks (env s)
      else Some s)"

text \<open>A product of two \<open>int\<close>s, stored in a 64-bit number; an overflow is undefined.\<close>

definition int_mult :: "u32 \<Rightarrow> u32 \<Rightarrow> u64 option" where
  "int_mult a b =
     (let p = sint a * sint b in
      if - (2 ^ 31) \<le> p \<and> p < 2 ^ 31 then Some (word_of_int p) else None)"

definition sleep :: "('a timer_state_scheme \<Rightarrow> 'a timer_state_scheme) \<Rightarrow> u32 \<Rightarrow>
    'a timer_state_scheme \<Rightarrow> (unit, 'a timer_state_scheme) outcome" where
  "sleep env seconds s =
     (let startTime = getPITCount s in
      of_defined (int_mult seconds 100) (\<lambda>targetTicks.
      obind (kprintf (nl ''timer start!!'' 1) [] s) (\<lambda>_ s.
      of_loop (wait_ticks env startTime targetTicks s) (\<lambda>s.
      kprintf (nl ''timer end!!'' 1) [] s))))"

definition sleepMS :: "('a timer_state_scheme \<Rightarrow> 'a timer_state_scheme) \<Rightarrow> u32 \<Rightarrow>
    'a timer_state_scheme \<Rightarrow> (unit, 'a timer_state_scheme) outcome" where
  "sleepMS env milliseconds s =
     (let startTime = getPITCount s in
      of_defined (int_mult milliseconds 10) (\<lambda>targetTicks.
      obind (kprintf (nl ''timer start!!'' 1) [] s) (\<lambda>_ s.
      of_loop (wait_ticks env startTime targetTicks s) (\<lambda>s.
      kprintf (nl ''timer end!!'' 1) [] s))))"

section \<open>Waiting\<close>

lemma timer_formats:
  "fmt_ok (c_string (nl ''timer start!!'' 1)) []" "fmt_ok (c_string (nl ''timer end!!'' 1)) []"
  by (simp_all add: fmt_eval)

text \<open>A counter that has not come far enough and does not move keeps the loop going.\<close>

lemma wait_ticks_stuck:
  assumes "P s" "\<And>s. P s \<Longrightarrow> P (env s) \<and> getPITCount s - startTime < targetTicks"
  shows "wait_ticks env startTime targetTicks s = None"
proof -
  have "e = env \<longrightarrow> a = startTime \<longrightarrow> n = targetTicks \<longrightarrow> \<not> P s"
    if "wait_ticks e a n s = Some t" for e a n s t
  proof (rule wait_ticks.raw_induct [OF _ that])
    fix w e a n and s t :: "'a timer_state_scheme"
    assume IH: "\<And>e a n s t. w e a n s = Some t \<Longrightarrow> e = env \<longrightarrow> a = startTime \<longrightarrow> n = targetTicks \<longrightarrow> \<not> P s"
      and eq: "(if getPITCount s - a < n then w e a n (e s) else Some s) = Some t"
    show "e = env \<longrightarrow> a = startTime \<longrightarrow> n = targetTicks \<longrightarrow> \<not> P s"
      using IH [of e a n "e s" t] eq assms(2) [of s] by (auto split: if_splits)
  qed
  then show ?thesis using assms(1) by (cases "wait_ticks env startTime targetTicks s") auto
qed

text \<open>A counter that goes up by one each time ends the loop after as many rounds as are missing.\<close>

lemma wait_ticks_counts:
  assumes "\<And>s. getPITCount (env s) = getPITCount s + 1"
    "getPITCount s = startTime + of_nat k" "k \<le> unat targetTicks"
  shows "wait_ticks env startTime targetTicks s = Some ((env ^^ (unat targetTicks - k)) s)"
  using assms(2,3)
proof (induction "unat targetTicks - k" arbitrary: k s)
  case 0
  then have k: "unat targetTicks = k" by simp
  have "of_nat (unat targetTicks) = targetTicks" by simp
  then have "of_nat k = targetTicks" by (simp only: k)
  with 0 show ?case by (subst wait_ticks.simps) simp
next
  case (Suc d)
  have k: "k < unat targetTicks" using Suc.hyps(2) by simp
  then have "k < 18446744073709551616" using unat64_bound [of targetTicks] by linarith
  then have "of_nat k < targetTicks" using k by (simp add: word_less_nat_alt unat64_of_nat)
  moreover have "wait_ticks env startTime targetTicks (env s) =
      Some ((env ^^ (unat targetTicks - Suc k)) (env s))"
    by (rule Suc.hyps(1)) (use Suc.hyps(2) Suc.prems k assms(1) in simp_all)
  moreover have "(env ^^ (unat targetTicks - Suc k)) (env s) = (env ^^ (unat targetTicks - k)) s"
    using k by (simp add: Suc_diff_Suc [symmetric] funpow_swap1)
  ultimately show ?case using Suc.prems(1) by (subst wait_ticks.simps) simp
qed

lemma int_mult_ticks:
  assumes "0 \<le> sint n" "sint n * int c < 2 ^ 31" "sint m = int c"
  shows "\<exists>t. int_mult n m = Some t \<and> unat t = nat (sint n) * c"
proof -
  define p where "p = sint n * int c"
  have p: "0 \<le> p" "p < 2 ^ 64" using assms(1,2) by (simp_all add: p_def)
  then have "unat (word_of_int p :: u64) = nat p" by (simp add: uint_word_of_int unat_eq_nat_uint)
  then show ?thesis using assms p
    by (simp add: int_mult_def Let_def p_def [symmetric] del: of_int_mult) (simp add: p_def nat_mult_distrib)
qed

text \<open>One waiting routine for both: it prints, waits for \<open>t\<close> ticks, and prints.\<close>

definition waits :: "('a timer_state_scheme \<Rightarrow> 'a timer_state_scheme) \<Rightarrow> u64 \<Rightarrow>
    'a timer_state_scheme \<Rightarrow> (unit, 'a timer_state_scheme) outcome" where
  "waits env t s =
     obind (kprintf (nl ''timer start!!'' 1) [] s) (\<lambda>_ s'.
     of_loop (wait_ticks env (getPITCount s) t s') (\<lambda>s. kprintf (nl ''timer end!!'' 1) [] s))"

lemma sleep_waits_eq:
  "int_mult n 100 = Some t \<Longrightarrow> sleep env n s = waits env t s"
  "int_mult n 10 = Some t \<Longrightarrow> sleepMS env n s = waits env t s"
  by (simp_all add: sleep_def sleepMS_def waits_def Let_def)

lemma ticks_after:
  fixes env :: "'a timer_state_scheme \<Rightarrow> 'a timer_state_scheme"
  assumes "\<And>s. getPITCount (env s) = getPITCount s + 1"
  shows "getPITCount ((env ^^ k) s) = getPITCount s + of_nat k"
  by (induction k) (simp_all add: assms)

lemma getPITCount_log [simp]: "getPITCount (s\<lparr>io_log := l\<rparr>) = getPITCount s"
  by (simp add: getPITCount_def)

lemma waits_Done:
  fixes env :: "'a timer_state_scheme \<Rightarrow> 'a timer_state_scheme"
  assumes "\<And>s. getPITCount (env s) = getPITCount s + 1"
  shows "\<exists>s'. waits env t s = Done () s' \<and> getPITCount s' = getPITCount s + t"
  using wait_ticks_counts [OF assms, where k = 0 and targetTicks = t and startTime = "getPITCount s"
      and s = "s\<lparr>io_log := printed (nl ''timer start!!'' 1) [] s\<rparr>"]
  by (simp add: waits_def kprintf_Done timer_formats ticks_after [OF assms] del: One_nat_def)

lemma waits_stuck: "0 < t \<Longrightarrow> (\<And>s. getPITCount (env s) = getPITCount s) \<Longrightarrow> waits env t s = Loops"
  using wait_ticks_stuck [of "\<lambda>z. getPITCount z = getPITCount s"
      "s\<lparr>io_log := printed (nl ''timer start!!'' 1) [] s\<rparr>" env "getPITCount s" t]
  by (simp add: waits_def kprintf_Done timer_formats del: One_nat_def)

section \<open>Properties\<close>

text \<open>
  when the timer ticks while it waits, \<open>sleep n\<close> returns after exactly 100 ticks for every second,
  and \<open>sleepMS n\<close> after exactly ten ticks for every millisecond (at 100 ticks a second that is a hundred
  times too long). When no tick arrives, neither ever returns, unless there is nothing to wait for.
\<close>

theorem sleep_waits:
  fixes env :: "'a timer_state_scheme \<Rightarrow> 'a timer_state_scheme"
  assumes "\<And>s. getPITCount (env s) = getPITCount s + 1" "0 \<le> sint n" "sint n * 100 < 2 ^ 31"
  shows "(\<exists>s'. sleep env n s = Done () s' \<and> unat (getPITCount s' - getPITCount s) = 100 * nat (sint n)) \<and>
    (\<exists>s'. sleepMS env n s = Done () s' \<and> unat (getPITCount s' - getPITCount s) = 10 * nat (sint n)) \<and>
    (if n = 0 then True else sleep id n s = Loops \<and> sleepMS id n s = Loops)"
proof -
  obtain t where t: "int_mult n 100 = Some t" "unat t = nat (sint n) * 100"
    using int_mult_ticks [of n 100 100] assms(2,3) by auto
  obtain u where u: "int_mult n 10 = Some u" "unat u = nat (sint n) * 10"
    using int_mult_ticks [of n 10 10] assms(2,3) by auto
  have nz: "0 < t" "0 < u" if "n \<noteq> 0"
  proof -
    have "sint n \<noteq> 0" using that by (simp add: signed_eq_0_iff)
    then have "0 < nat (sint n)" using assms(2) by simp
    then show "0 < t" "0 < u" using t(2) u(2) by (simp_all add: word_less_nat_alt)
  qed
  show ?thesis
    using waits_Done [OF assms(1), of t s] waits_Done [OF assms(1), of u s]
      waits_stuck [of t id s] waits_stuck [of u id s] nz t(2) u(2)
    by (auto simp: sleep_waits_eq(1) [OF t(1)] sleep_waits_eq(2) [OF u(1)])
qed

text \<open>A timer that ticks.\<close>

definition tick :: "'a timer_state_scheme \<Rightarrow> 'a timer_state_scheme" where
  "tick s = s\<lparr>pitTicks := pitTicks s + 1\<rparr>"

theorem sleep_waits_witness:
  "\<forall>s :: timer_state. (\<exists>s'. sleep tick 3 s = Done () s' \<and> unat (getPITCount s' - getPITCount s) = 300) \<and>
     sleepMS id 3 s = Loops"
proof
  fix s :: timer_state
  show "(\<exists>s'. sleep tick 3 s = Done () s' \<and> unat (getPITCount s' - getPITCount s) = 300) \<and>
     sleepMS id 3 s = Loops"
    using sleep_waits [of tick 3 s] by (simp add: tick_def getPITCount_def)
qed

text \<open>
  \<open>pitInit\<close> programs channel 0 with the divisor 11931 (0x2E9B), which is 100 ticks a second, whatever
  frequency it is asked for, registers the handler of vector 32 and leaves interrupts enabled.
\<close>

theorem pitInit_divisor:
  "pitInit hertz s = s\<lparr>io_log := io_log s @ [Outb PIT_CMD (PIT_RW_BOTH OR PIT_MODE3 OR PIT_BINARY),
       Outb PIT_COUNTER0 0x9B, Outb PIT_COUNTER0 0x2E],
     handlers := (handlers s)(32 := PitHandler), interrupt_flag := True\<rparr> \<and>
   (0x2E9B :: nat) = 1193180 div 100"
  by (cases s) (simp add: pitInit_def cli_def sti_def outb_def Let_def PIT_CMD_def PIT_RW_BOTH_def
      PIT_MODE3_def PIT_BINARY_def PIT_COUNTER0_def)

end
