(* ===== verification/Acpi.thy ===== *)
theory Acpi
  imports Timer Lib_String
begin

text \<open>
  The ACPI tables: finding a table by its signature (\<open>kernel/acpi/acpi.cpp\<close>) and reading the list of
  interrupt controllers out of the MADT (\<open>kernel/acpi/madt.cpp\<close>). The tables stay in memory; the
  structures are given by the offsets of their fields.
\<close>

section \<open>Layouts\<close>

text \<open>
  \<open>struct rsdpInfo\<close> and \<open>struct xsdpInfo\<close>, packed. A byte array is a function from indexes.
\<close>

record rsdpInfo =
  rsdp_signature :: "nat \<Rightarrow> u8"
  rsdp_checksum :: u8
  rsdp_oemID :: "nat \<Rightarrow> u8"
  rsdp_revision :: u8
  rsdp_rsdtAddress :: u32

definition read_rsdp :: "memory \<Rightarrow> ptr \<Rightarrow> rsdpInfo" where
  "read_rsdp m a = \<lparr>rsdp_signature = bytes_at m a, rsdp_checksum = m (a + 8),
     rsdp_oemID = bytes_at m (a + 9), rsdp_revision = m (a + 15), rsdp_rsdtAddress = load32 m (a + 16)\<rparr>"

record xsdpInfo = rsdpInfo +
  xsdp_length :: u32
  xsdp_xsdtAddress :: u64
  extendedChecksum :: u8
  xsdp_reserved :: "nat \<Rightarrow> u8"

definition read_xsdp :: "memory \<Rightarrow> ptr \<Rightarrow> xsdpInfo" where
  "read_xsdp m a = rsdpInfo.extend (read_rsdp m a)
     \<lparr>xsdp_length = load32 m (a + 20), xsdp_xsdtAddress = load64 m (a + 24),
      extendedChecksum = m (a + 32), xsdp_reserved = bytes_at m (a + 33)\<rparr>"

text \<open>\<open>struct SDT\<close>, 36 bytes, starts every table; the entries of the RSDT and the XSDT follow it.\<close>

record SDT =
  sdt_signature :: "nat \<Rightarrow> u8"
  sdt_length :: u32
  sdt_revision :: u8
  sdt_checksum :: u8
  sdt_oemID :: "nat \<Rightarrow> u8"
  oemTableID :: "nat \<Rightarrow> u8"
  oemRevision :: u32
  creatorId :: u32
  creator_revision :: u32

definition sizeof_SDT :: u64 where "sizeof_SDT = 36"

definition read_SDT :: "memory \<Rightarrow> ptr \<Rightarrow> SDT" where
  "read_SDT m a = \<lparr>sdt_signature = bytes_at m a, sdt_length = load32 m (a + 4), sdt_revision = m (a + 8),
     sdt_checksum = m (a + 9), sdt_oemID = bytes_at m (a + 10), oemTableID = bytes_at m (a + 16),
     oemRevision = load32 m (a + 24), creatorId = load32 m (a + 28), creator_revision = load32 m (a + 32)\<rparr>"

definition sdt_table :: "ptr \<Rightarrow> ptr" where
  "sdt_table a = a + sizeof_SDT"

text \<open>\<open>struct MADT\<close>: the same fields, two more, and the entries from byte 44 on.\<close>

record MADT = SDT +
  lapicAddress :: u32
  madt_flags :: u32

definition read_MADT :: "memory \<Rightarrow> ptr \<Rightarrow> MADT" where
  "read_MADT m a = SDT.extend (read_SDT m a)
     \<lparr>lapicAddress = load32 m (a + 36), madt_flags = load32 m (a + 40)\<rparr>"

definition madt_table :: "ptr \<Rightarrow> ptr" where
  "madt_table a = a + 44"

record madtEntry =
  entry_type :: u8
  entry_length :: u8

definition read_madtEntry :: "memory \<Rightarrow> ptr \<Rightarrow> madtEntry" where
  "read_madtEntry m a = \<lparr>entry_type = m a, entry_length = m (a + 1)\<rparr>"

text \<open>
  \<open>struct ioAPICInfo\<close>: \<open>apicID\<close> 2, \<open>apicAddr\<close> 4, \<open>gsiBase\<close> 8. \<open>struct madtIso\<close>: \<open>busSrc\<close> 2, \<open>irqSrc\<close> 3,
  \<open>gsi\<close> 4, \<open>flags\<close> 8. \<open>struct lapicAddr\<close> is not packed: \<open>physLapic\<close> is at 8.
\<close>

record ioAPICInfo =
  io_un :: madtEntry
  apicID :: u8
  io_reserved :: u8
  apicAddr :: u32
  gsiBase :: u32

definition read_ioAPICInfo :: "memory \<Rightarrow> ptr \<Rightarrow> ioAPICInfo" where
  "read_ioAPICInfo m a = \<lparr>io_un = read_madtEntry m a, apicID = m (a + 2), io_reserved = m (a + 3),
     apicAddr = load32 m (a + 4), gsiBase = load32 m (a + 8)\<rparr>"

record madtIso =
  iso_un :: madtEntry
  busSrc :: u8
  irqSrc :: u8
  iso_gsi :: u32
  iso_flags :: u16

definition read_madtIso :: "memory \<Rightarrow> ptr \<Rightarrow> madtIso" where
  "read_madtIso m a = \<lparr>iso_un = read_madtEntry m a, busSrc = m (a + 2), irqSrc = m (a + 3), iso_gsi = load32 m (a + 4),
     iso_flags = load16 m (a + 8)\<rparr>"

record lapicAddr =
  la_un :: madtEntry
  la_resv :: u16
  physLapic :: u64

definition read_lapicAddr :: "memory \<Rightarrow> ptr \<Rightarrow> lapicAddr" where
  "read_lapicAddr m a = \<lparr>la_un = read_madtEntry m a, la_resv = load16 m (a + 2), physLapic = load64 m (a + 8)\<rparr>"

section \<open>Global variables\<close>

record xsdtInfo =
  inUse :: bool
  xsdpInformation :: ptr
  rootXSDT :: ptr

record madtInfo =
  ioAPICLen :: u32
  madtISOLen :: u32
  mi_lapicAddr :: ptr

text \<open>
  The log of writes to device registers and \<open>ticksPerMS\<close> belong to the interrupt controllers, whose
  code shares this state.
\<close>

record acpi_state = timer_state +
  rootRSDT :: ptr
  xsdtInformation :: xsdtInfo
  madtInformationList :: "nat \<Rightarrow> ptr"
  madtISOList :: "nat \<Rightarrow> ptr"
  madtInformation :: madtInfo
  mmio_log :: "(ptr \<times> u32) list"
  ticksPerMS :: u32

section \<open>Finding a table\<close>

text \<open>The loops over the entries, from the first to the last.\<close>

fun find_rsdt :: "memory \<Rightarrow> string \<Rightarrow> ptr \<Rightarrow> u64 list \<Rightarrow> ptr" where
  "find_rsdt m name table [] = 0"
| "find_rsdt m name table (i # is) =
     (let sdt = ucast (load32 m (table + 4 * i)) in
      if memorycmp (sdt_signature (read_SDT m sdt)) (bytes_of name) 4 then sdt
      else find_rsdt m name table is)"

fun find_xsdt :: "string \<Rightarrow> ptr \<Rightarrow> u64 list \<Rightarrow> 'a acpi_state_scheme \<Rightarrow> ptr \<times> 'a acpi_state_scheme" where
  "find_xsdt name table [] s = (0, s)"
| "find_xsdt name table (i # is) s =
     (let (sdt, s) = toPhysicalAddr (load64 (mem s) (table + 8 * i)) s in
      if memorycmp (sdt_signature (read_SDT (mem s) sdt)) (bytes_of name) 4 then (sdt, s)
      else find_xsdt name table is s)"

text \<open>The number of entries, a 32-bit number.\<close>

definition entry_count :: "u32 \<Rightarrow> u64 \<Rightarrow> u32" where
  "entry_count len width = ucast ((ucast len - sizeof_SDT) div width)"

definition acpiFindTable :: "string \<Rightarrow> 'a acpi_state_scheme \<Rightarrow> ptr \<times> 'a acpi_state_scheme" where
  "acpiFindTable name s =
     (if rootRSDT s \<noteq> 0 then
        (let (rsdt, s) = toVirtualAddr (rootRSDT s) s;
             entries = entry_count (sdt_length (read_SDT (mem s) rsdt)) 4
         in (find_rsdt (mem s) name (sdt_table rsdt) (map of_nat [0..<unat entries]), s))
      else
        (let (xsdt, s) = toVirtualAddr (rootXSDT (xsdtInformation s)) s;
             entries = entry_count (sdt_length (read_SDT (mem s) xsdt)) 8
         in find_xsdt name (sdt_table xsdt) (map of_nat [0..<unat entries]) s))"

section \<open>initACPI\<close>

text \<open>The argument is the address in the boot loader's response; without a response it is read all the same.\<close>

definition initACPI :: "ptr option \<Rightarrow> 'a acpi_state_scheme \<Rightarrow> (u64, 'a acpi_state_scheme) outcome" where
  "initACPI rsdp_response s =
     of_defined rsdp_response (\<lambda>rsdp.
       if \<not> memorycmp (rsdp_signature (read_rsdp (mem s) rsdp)) (bytes_of ''RSD PTR '') 8 then
         haltAndCatchFire ''acpi/acpi.cpp'' 37 [] s
       else if rsdp_revision (read_rsdp (mem s) rsdp) \<noteq> 0 then
         (let s = s\<lparr>xsdtInformation := (xsdtInformation s)\<lparr>xsdpInformation := rsdp\<rparr>\<rparr>;
              xsdtAddress = xsdp_xsdtAddress (read_xsdp (mem s) (xsdpInformation (xsdtInformation s)));
              (root, s) = toPhysicalAddr xsdtAddress s;
              s = s\<lparr>xsdtInformation := (xsdtInformation s)\<lparr>rootXSDT := root\<rparr>\<rparr>;
              s = s\<lparr>xsdtInformation := (xsdtInformation s)\<lparr>inUse := True\<rparr>\<rparr>
          in Done (xsdp_xsdtAddress (read_xsdp (mem s) (xsdpInformation (xsdtInformation s)))) s)
       else
         (let rsdtAddress = ucast (rsdp_rsdtAddress (read_rsdp (mem s) rsdp));
              (root, s) = toPhysicalAddr rsdtAddress s
          in Done rsdtAddress (s\<lparr>rootRSDT := root\<rparr>)))"

section \<open>initMADT\<close>

definition sizeof_madtInfo :: u64 where "sizeof_madtInfo = 16"

text \<open>One round of the loop for the entry at \<open>e\<close>: the counts are reset, then the entry is noted.\<close>

definition madt_entry :: "ptr \<Rightarrow> 'a acpi_state_scheme \<Rightarrow> 'a acpi_state_scheme" where
  "madt_entry e s =
     (let s = s\<lparr>madtInformation := (madtInformation s)\<lparr>madtISOLen := 0\<rparr>\<rparr>;
          s = s\<lparr>madtInformation := (madtInformation s)\<lparr>ioAPICLen := madtISOLen (madtInformation s)\<rparr>\<rparr>;
          info = madtInformation s;
          t = entry_type (read_madtEntry (mem s) e)
      in if t = 1 then
           s\<lparr>madtInformationList := (madtInformationList s)(unat (ioAPICLen info) := e),
             madtInformation := info\<lparr>ioAPICLen := ioAPICLen info + 1\<rparr>\<rparr>
         else if t = 2 then
           s\<lparr>madtISOList := (madtISOList s)(unat (madtISOLen info) := e),
             madtInformation := info\<lparr>madtISOLen := madtISOLen info + 1\<rparr>\<rparr>
         else if t = 5 then
           s\<lparr>madtInformation := info\<lparr>mi_lapicAddr := physLapic (read_lapicAddr (mem s) e)\<rparr>\<rparr>
         else s)"

text \<open>The last offset the loop looks at; the difference is one of 64-bit numbers.\<close>

definition madt_limit :: "memory \<Rightarrow> ptr \<Rightarrow> u64" where
  "madt_limit m madt = ucast (sdt_length (read_MADT m madt)) - sizeof_madtInfo"

partial_function (option) madt_loop ::
    "ptr \<Rightarrow> u64 \<Rightarrow> 'a acpi_state_scheme \<Rightarrow> 'a acpi_state_scheme option" where
  "madt_loop madt offset s =
     (if offset > madt_limit (mem s) madt then Some s
      else
        let e = madt_table madt + offset;
            s = madt_entry e s
        in madt_loop madt (offset + ucast (entry_length (read_madtEntry (mem s) e))) s)"

definition initMADT :: "'a acpi_state_scheme \<Rightarrow> (unit, 'a acpi_state_scheme) outcome" where
  "initMADT s =
     (let (madt, s) = acpiFindTable ''APIC'' s in
      if madt = 0 then haltAndCatchFire ''acpi/madt.cpp'' 10 [] s
      else of_loop (madt_loop madt 0 s) (Done ()))"

section \<open>What \<open>initMADT\<close> keeps\<close>

text \<open>The offsets of the entries the loop visits, from \<open>off\<close> on, up to the end or to a zero length.\<close>

definition madt_len :: "memory \<Rightarrow> ptr \<Rightarrow> u64 \<Rightarrow> u64" where
  "madt_len m madt off = ucast (entry_length (read_madtEntry m (madt_table madt + off)))"

fun madt_path :: "memory \<Rightarrow> ptr \<Rightarrow> u64 \<Rightarrow> u64 list \<Rightarrow> bool" where
  "madt_path m madt off [] \<longleftrightarrow> madt_limit m madt < off"
| "madt_path m madt off (k # ks) \<longleftrightarrow> k = off \<and> off \<le> madt_limit m madt \<and>
     madt_path m madt (off + madt_len m madt off) ks"

fun madt_stuck :: "memory \<Rightarrow> ptr \<Rightarrow> u64 \<Rightarrow> u64 list \<Rightarrow> bool" where
  "madt_stuck m madt off [] \<longleftrightarrow> off \<le> madt_limit m madt \<and> madt_len m madt off = 0"
| "madt_stuck m madt off (k # ks) \<longleftrightarrow> k = off \<and> off \<le> madt_limit m madt \<and>
     madt_stuck m madt (off + madt_len m madt off) ks"

lemma madt_entry_mem [simp]: "mem (madt_entry e s) = mem s"
  by (simp add: madt_entry_def Let_def)

lemma madt_loop_step:
  "off \<le> madt_limit (mem s) madt \<Longrightarrow> madt_loop madt off s =
     madt_loop madt (off + madt_len (mem s) madt off) (madt_entry (madt_table madt + off) s)"
  by (subst madt_loop.simps) (simp add: madt_len_def Let_def not_less [symmetric])

lemma madt_loop_path:
  "madt_path (mem s) madt off ks \<Longrightarrow>
     madt_loop madt off s = Some (fold (\<lambda>k. madt_entry (madt_table madt + k)) ks s)"
proof (induction ks arbitrary: off s)
  case Nil
  then show ?case by (subst madt_loop.simps) simp
next
  case (Cons k ks)
  then show ?case by (simp add: madt_loop_step)
qed

lemma madt_loop_zero:
  fixes s :: "'a acpi_state_scheme"
  assumes "off \<le> madt_limit (mem s) madt" "madt_len (mem s) madt off = 0"
  shows "madt_loop madt off s = None"
proof -
  have "a = madt \<longrightarrow> k = off \<longrightarrow> mem z \<noteq> mem s" if "madt_loop a k z = Some t" for a k z t
  proof (rule madt_loop.raw_induct [OF _ that], goal_cases)
    case (1 w a k z t)
    show ?case
    proof (intro impI notI)
      assume A: "a = madt" "k = off" "mem z = mem s"
      then have "w a k (madt_entry (madt_table a + k) z) = Some t"
        using 1(2) assms by (simp add: madt_len_def Let_def not_less [symmetric])
      from 1(1) [OF this] A show False by simp
    qed
  qed
  then show ?thesis by (cases "madt_loop madt off s") auto
qed

lemma madt_loop_stuck: "madt_stuck (mem s) madt off ks \<Longrightarrow> madt_loop madt off s = None"
  by (induction ks arbitrary: off s) (simp_all add: madt_loop_zero madt_loop_step)

text \<open>The counts after an entry depend on that entry alone.\<close>

lemma madt_entry_counts:
  "ioAPICLen (madtInformation (madt_entry e s)) = (if mem s e = 1 then 1 else 0)"
  "madtISOLen (madtInformation (madt_entry e s)) = (if mem s e = 2 then 1 else 0)"
  by (simp_all add: madt_entry_def Let_def read_madtEntry_def)

lemma fold_madt_mem: "mem (fold (\<lambda>k. madt_entry (f k)) ks s) = mem s"
  by (induction ks arbitrary: s) simp_all

section \<open>Properties\<close>

text \<open>
  C40: when the lengths in the MADT lead past its end, \<open>initMADT\<close> returns, and the number of interrupt
  controllers and of overrides it leaves is one or zero according to the last entry it read alone:
  the counts are reset for every entry. When the lengths lead to an entry of length zero, it never
  returns.
\<close>

theorem initMADT_keeps_last:
  assumes "acpiFindTable ''APIC'' s = (madt, t)" "madt \<noteq> 0"
  shows "(madt_path (mem t) madt 0 (ks @ [k]) \<longrightarrow> (\<exists>s'. initMADT s = Done () s' \<and> mem s' = mem t \<and>
      ioAPICLen (madtInformation s') = (if mem t (madt_table madt + k) = 1 then 1 else 0) \<and>
      madtISOLen (madtInformation s') = (if mem t (madt_table madt + k) = 2 then 1 else 0))) \<and>
    (madt_stuck (mem t) madt 0 ks \<longrightarrow> initMADT s = Loops)"
proof (intro conjI impI)
  let ?f = "\<lambda>k. madt_entry (madt_table madt + k)"
  assume "madt_path (mem t) madt 0 (ks @ [k])"
  then have "initMADT s = Done () (?f k (fold ?f ks t))"
    using assms by (simp add: initMADT_def madt_loop_path)
  then show "\<exists>s'. initMADT s = Done () s' \<and> mem s' = mem t \<and>
      ioAPICLen (madtInformation s') = (if mem t (madt_table madt + k) = 1 then 1 else 0) \<and>
      madtISOLen (madtInformation s') = (if mem t (madt_table madt + k) = 2 then 1 else 0)"
    by (simp add: madt_entry_counts fold_madt_mem)
next
  assume "madt_stuck (mem t) madt 0 ks"
  then show "initMADT s = Loops" using assms by (simp add: initMADT_def madt_loop_stuck)
qed

text \<open>
  An RSDT at 0x1000 with one entry, a MADT of 66 bytes at 0x2000 with an interrupt controller and an
  override, and behind it an entry of unknown type with the given length.
\<close>

definition madt_memory :: "u8 \<Rightarrow> memory" where
  "madt_memory len = (\<lambda>_. 0)(0x1004 := 40, 0x1025 := 0x20,
     0x2000 := 0x41, 0x2001 := 0x50, 0x2002 := 0x49, 0x2003 := 0x43, 0x2004 := 66,
     0x202C := 1, 0x202D := 12, 0x2038 := 2, 0x2039 := 10, 0x2042 := 9, 0x2043 := len)"

definition madt_sample :: "u8 \<Rightarrow> acpi_state \<Rightarrow> acpi_state" where
  "madt_sample len s = s\<lparr>mem := madt_memory len, rootRSDT := 0x1000, bootInformation := zero_bootInfo,
     globalBootInfo := zero_bootInfo\<rparr>"

lemma load32_bytes:
  "load32 m a = ucast (m a) OR push_bit 8 (ucast (m (a + 1)) OR push_bit 8 (ucast (m (a + 2)) OR
     push_bit 8 (ucast (m (a + 3)))))"
proof -
  have "load32 m a = load_le (Suc (Suc (Suc (Suc 0)))) m a" by (simp add: numeral_eq_Suc)
  then show ?thesis by (simp only: load_le.simps) (simp add: add.assoc)
qed

lemma madt_memory_loads:
  "load32 (madt_memory len) 0x1004 = 40" "load32 (madt_memory len) 0x1024 = 0x2000"
  "load32 (madt_memory len) 0x2004 = 66"
  by (simp_all add: load32_bytes madt_memory_def)

lemma all_less_4: "(\<forall>i < (4 :: nat). P i) \<longleftrightarrow> P 0 \<and> P 1 \<and> P 2 \<and> P 3"
  by (auto simp: numeral_eq_Suc less_Suc_eq)

lemma madt_sample_finds:
  "acpiFindTable ''APIC'' (madt_sample len s) = (0x2000, madt_sample len s)"
proof -
  have v: "toVirtualAddr 0x1000 (madt_sample len s) = (0x1000, madt_sample len s)"
    by (subst toVirtualAddr_current)
      (simp_all add: madt_sample_def boot_current_def hhdm_def zero_bootInfo_def zero_Memory_def)
  have b: "bytes_at (madt_memory len) 0x2000 0 = 0x41" "bytes_at (madt_memory len) 0x2000 1 = 0x50"
    "bytes_at (madt_memory len) 0x2000 2 = 0x49" "bytes_at (madt_memory len) 0x2000 3 = 0x43"
    by (simp_all add: bytes_at_def madt_memory_def)
  have n: "bytes_of ''APIC'' 0 = 0x41" "bytes_of ''APIC'' 1 = 0x50" "bytes_of ''APIC'' 2 = 0x49"
    "bytes_of ''APIC'' 3 = 0x43"
    by (simp_all add: bytes_of_def of_char_def)
  have "unat (4 :: u64) = 4" by simp
  then have sig: "memorycmp (bytes_at (madt_memory len) 0x2000) (bytes_of ''APIC'') 4"
    unfolding memorycmp_iff by (simp only: all_less_4 b n)
  have e: "unat (entry_count 40 4) = 1" by (simp add: entry_count_def sizeof_SDT_def)
  have m: "mem (madt_sample len s) = madt_memory len" "rootRSDT (madt_sample len s) = 0x1000"
    by (simp_all add: madt_sample_def)
  have len: "sdt_length (read_SDT (madt_memory len) 0x1000) = 40"
    "sdt_signature (read_SDT (madt_memory len) 0x2000) = bytes_at (madt_memory len) 0x2000"
    using madt_memory_loads(1) [of len] by (simp_all add: read_SDT_def)
  have t: "sdt_table 0x1000 = 0x1024" by (simp add: sdt_table_def sizeof_SDT_def)
  have "find_rsdt (madt_memory len) ''APIC'' 0x1024 [0] = 0x2000"
    using sig madt_memory_loads(2) [of len] len(2) by simp
  then show ?thesis
    unfolding acpiFindTable_def m v Let_def by (simp add: m len e t)
qed

theorem initMADT_keeps_last_witness:
  "\<forall>s. (\<exists>s'. initMADT (madt_sample 40 s) = Done () s' \<and> ioAPICLen (madtInformation s') = 0 \<and>
     madtISOLen (madtInformation s') = 0) \<and> initMADT (madt_sample 0 s) = Loops"
proof
  fix s
  let ?t = "\<lambda>len. madt_sample len s"
  have m: "mem (?t len) = madt_memory len" for len by (simp add: madt_sample_def)
  have limit: "madt_limit (madt_memory len) 0x2000 = 50" for len
    using madt_memory_loads(3) [of len]
    by (simp add: madt_limit_def read_MADT_def read_SDT_def SDT.defs sizeof_madtInfo_def)
  have lens: "madt_len (madt_memory len) 0x2000 0 = 12" "madt_len (madt_memory len) 0x2000 12 = 10"
    "madt_len (madt_memory len) 0x2000 22 = ucast len" for len
    by (simp_all add: madt_len_def read_madtEntry_def madt_table_def madt_memory_def)
  have path: "madt_path (mem (?t 40)) 0x2000 0 ([0, 12] @ [22])" "madt_stuck (mem (?t 0)) 0x2000 0 [0, 12]"
    by (simp_all add: m limit lens)
  have nine: "mem (?t 40) (madt_table 0x2000 + 22) = 9" by (simp add: m madt_memory_def madt_table_def)
  have nz: "(0x2000 :: ptr) \<noteq> 0" by simp
  note keeps = initMADT_keeps_last [OF madt_sample_finds nz]
  have "initMADT (?t 0) = Loops" by (rule keeps [THEN conjunct2, rule_format, OF path(2)])
  moreover obtain s' where "initMADT (?t 40) = Done () s'"
    "ioAPICLen (madtInformation s') = 0" "madtISOLen (madtInformation s') = 0"
    using keeps [THEN conjunct1, rule_format, OF path(1), unfolded nine] by auto
  ultimately show "(\<exists>s'. initMADT (?t 40) = Done () s' \<and> ioAPICLen (madtInformation s') = 0 \<and>
     madtISOLen (madtInformation s') = 0) \<and> initMADT (?t 0) = Loops"
    by blast
qed

end
