(* ===== verification/Ioapic.thy ===== *)
theory Ioapic
  imports Acpi
begin

text \<open>
  The interrupt controllers: the I/O APIC of \<open>kernel/acpi/ioapic.cpp\<close> and the local APIC of
  \<open>kernel/acpi/lapic.cpp\<close>. Both are programmed through registers in memory. A register does not hold
  what was stored there: every store is logged, and what a device answers to a load is the parameter
  \<open>dev\<close>, which may depend on all the stores before.
\<close>

type_synonym device = "(ptr \<times> u32) list \<Rightarrow> ptr \<Rightarrow> u32"

definition mmio_out :: "ptr \<Rightarrow> u32 \<Rightarrow> 'a acpi_state_scheme \<Rightarrow> 'a acpi_state_scheme" where
  "mmio_out a v s = s\<lparr>mem := mmioWrite32 a v (mem s), mmio_log := mmio_log s @ [(a, v)]\<rparr>"

definition mmio_in :: "device \<Rightarrow> ptr \<Rightarrow> 'a acpi_state_scheme \<Rightarrow> u32" where
  "mmio_in dev a s = dev (mmio_log s) a"

section \<open>Registers of the I/O APIC\<close>

definition IOAPIC_REGSEL :: u32 where "IOAPIC_REGSEL = 0x0"
definition IOAPIC_IOWIN :: u32 where "IOAPIC_IOWIN = 0x10"
definition IOAPIC_ID :: u32 where "IOAPIC_ID = 0x0"
definition IOAPIC_VER :: u32 where "IOAPIC_VER = 0x01"
definition IOAPIC_ARB :: u32 where "IOAPIC_ARB = 0x02"
definition IOAPIC_REDTBL :: u32 where "IOAPIC_REDTBL = 0x10"

lemmas ioapic_consts = IOAPIC_REGSEL_def IOAPIC_IOWIN_def IOAPIC_ID_def IOAPIC_VER_def IOAPIC_ARB_def
  IOAPIC_REDTBL_def

text \<open>The address of the register at an offset, as the kernel reaches it.\<close>

definition ioapic_reg :: "ptr \<Rightarrow> u32 \<Rightarrow> 'a acpi_state_scheme \<Rightarrow> ptr \<times> 'a acpi_state_scheme" where
  "ioapic_reg entry off s = toVirtualAddr (ucast (apicAddr (read_ioAPICInfo (mem s) entry) + off)) s"

definition ioAPICRead :: "device \<Rightarrow> ptr \<Rightarrow> u32 \<Rightarrow> 'a acpi_state_scheme \<Rightarrow> u32 \<times> 'a acpi_state_scheme" where
  "ioAPICRead dev entry reg s =
     (let (a, s) = ioapic_reg entry IOAPIC_REGSEL s;
          s = mmio_out a reg s;
          (a, s) = ioapic_reg entry IOAPIC_IOWIN s
      in (mmio_in dev a s, s))"

definition ioAPICWrite :: "ptr \<Rightarrow> u32 \<Rightarrow> u32 \<Rightarrow> 'a acpi_state_scheme \<Rightarrow> 'a acpi_state_scheme" where
  "ioAPICWrite entry reg val s =
     (let (a, s) = ioapic_reg entry IOAPIC_REGSEL s;
          s = mmio_out a reg s;
          (a, s) = ioapic_reg entry IOAPIC_IOWIN s
      in mmio_out a val s)"

section \<open>Redirection\<close>

definition init_redirection :: "ptr \<Rightarrow> u32 \<Rightarrow> 'a acpi_state_scheme \<Rightarrow> 'a acpi_state_scheme" where
  "init_redirection IOAPIC i s =
     (let s = ioAPICWrite IOAPIC (IOAPIC_REDTBL + 2 * i) (0x00010000 OR (32 + i)) s
      in ioAPICWrite IOAPIC (IOAPIC_REDTBL + 2 * i + 1) 0 s)"

definition initIOAPIC :: "device \<Rightarrow> 'a acpi_state_scheme \<Rightarrow> (unit, 'a acpi_state_scheme) outcome" where
  "initIOAPIC dev s =
     (let IOAPIC = madtInformationList s 0;
          (val, s) = ioAPICRead dev IOAPIC IOAPIC_VER s;
          count = drop_bit 16 val AND 0xFF;
          (ident, s) = ioAPICRead dev IOAPIC 0 s;
          info = read_ioAPICInfo (mem s) IOAPIC
      in if drop_bit 24 ident \<noteq> ucast (apicID info) then haltAndCatchFire ''acpi/ioapic.cpp'' 10 [] s
         else
           obind (kprintf (CHR 0x0A # nl ''IOAPICREAD IOAPIC APICID: %d'' 1) [ArgNum (ucast (apicID info))] s) (\<lambda>_ s.
           obind (kprintf (CHR 0x0A # nl ''IOAPICREAD IOAPIC_VER: %d'' 1) [ArgNum (ucast val)] s) (\<lambda>_ s.
           obind (kprintf (CHR 0x0A # nl ''IOAPIC COUNT: %d'' 1) [ArgNum (ucast count)] s) (\<lambda>_ s.
           Done () (fold (init_redirection IOAPIC) (map of_nat [0..<unat count + 1]) s)))))"

definition setEntry :: "ptr \<Rightarrow> u8 \<Rightarrow> u64 \<Rightarrow> 'a acpi_state_scheme \<Rightarrow> 'a acpi_state_scheme" where
  "setEntry ioapic idx data s =
     (let s = ioAPICWrite ioapic (ucast (ucast (IOAPIC_REDTBL + ucast idx * 2) :: u8)) (ucast data) s
      in ioAPICWrite ioapic (ucast (ucast (IOAPIC_REDTBL + ucast idx * 2 + 1) :: u8)) (ucast (drop_bit 32 data)) s)"

definition getGSICount :: "device \<Rightarrow> ptr \<Rightarrow> 'a acpi_state_scheme \<Rightarrow> u64 \<times> 'a acpi_state_scheme" where
  "getGSICount dev ioapic s =
     (let (v, s) = ioAPICRead dev ioapic 1 s in (ucast (drop_bit 16 (v AND 0xff0000)), s))"

text \<open>The loop over the controllers; the count is only read where the base is not above the number.\<close>

fun find_gsi :: "device \<Rightarrow> u32 \<Rightarrow> nat list \<Rightarrow> 'a acpi_state_scheme \<Rightarrow> ptr \<times> 'a acpi_state_scheme" where
  "find_gsi dev gsi [] s = (0, s)"
| "find_gsi dev gsi (i # is) s =
     (let ioapic = madtInformationList s i;
          base = gsiBase (read_ioAPICInfo (mem s) ioapic)
      in if base \<le> gsi then
           (let (count, s) = getGSICount dev ioapic s in
            if ucast base + count > (ucast gsi :: u64) then (ioapic, s) else find_gsi dev gsi is s)
         else find_gsi dev gsi is s)"

definition getGSI :: "device \<Rightarrow> u32 \<Rightarrow> 'a acpi_state_scheme \<Rightarrow> ptr \<times> 'a acpi_state_scheme" where
  "getGSI dev gsi s = find_gsi dev gsi [0..<unat (ioAPICLen (madtInformation s))] s"

definition redirection :: "u32 \<Rightarrow> u8 \<Rightarrow> u16 \<Rightarrow> bool \<Rightarrow> u64" where
  "redirection lapicID vec flags masked =
     (let redirect = ucast vec;
          redirect = (if flags AND push_bit 1 1 \<noteq> 0 then redirect OR push_bit 13 1 else redirect);
          redirect = (if flags AND push_bit 3 1 \<noteq> 0 then redirect OR push_bit 15 1 else redirect);
          redirect = (if masked then redirect OR push_bit 16 1 else redirect AND NOT (push_bit 16 1))
      in redirect OR push_bit 56 (ucast lapicID))"

definition redirectGSI ::
    "device \<Rightarrow> u32 \<Rightarrow> u8 \<Rightarrow> u32 \<Rightarrow> u16 \<Rightarrow> bool \<Rightarrow> 'a acpi_state_scheme \<Rightarrow> 'a acpi_state_scheme" where
  "redirectGSI dev lapicID vec gsi flags masked s =
     (let (ioapic, s) = getGSI dev gsi s;
          redirect = redirection lapicID vec flags masked;
          redir_table = (gsi - gsiBase (read_ioAPICInfo (mem s) ioapic)) * 2 + 16;
          s = ioAPICWrite ioapic redir_table (ucast redirect) s
      in ioAPICWrite ioapic (redir_table + 1) (ucast (drop_bit 32 redirect)) s)"

definition unregisterIRQ :: "u8 \<Rightarrow> 'a acpi_state_scheme \<Rightarrow> 'a acpi_state_scheme" where
  "unregisterIRQ vec s = s\<lparr>handlers := (handlers s)(unat vec := NoHandler)\<rparr>"

text \<open>
  The search for an override of an interrupt line, by an 8-bit index; with 256 overrides or more and
  no match it would never end, which is \<open>None\<close>.
\<close>

definition iso_at :: "u8 \<Rightarrow> 'a acpi_state_scheme \<Rightarrow> madtIso" where
  "iso_at idx s = read_madtIso (mem s) (madtISOList s (unat idx))"

partial_function (option) find_iso :: "u8 \<Rightarrow> u8 \<Rightarrow> 'a acpi_state_scheme \<Rightarrow> madtIso option option" where
  "find_iso irq idx s =
     (if ucast idx < madtISOLen (madtInformation s) then
        (if irqSrc (iso_at idx s) = irq then Some (Some (iso_at idx s)) else find_iso irq (idx + 1) s)
      else Some None)"

definition redirectIRQ ::
    "device \<Rightarrow> u32 \<Rightarrow> u8 \<Rightarrow> u8 \<Rightarrow> bool \<Rightarrow> 'a acpi_state_scheme \<Rightarrow> (unit, 'a acpi_state_scheme) outcome" where
  "redirectIRQ dev lapicID vec irq masked s =
     of_loop (find_iso irq 0 s) (\<lambda>r. case r of
       Some ov \<Rightarrow> Done () (redirectGSI dev lapicID vec (iso_gsi ov) (iso_flags ov) masked s)
     | None \<Rightarrow> Done () (redirectGSI dev lapicID vec (ucast irq) 0 masked s))"

definition getRedirectIRQ :: "u8 \<Rightarrow> 'a acpi_state_scheme \<Rightarrow> (u32, 'a acpi_state_scheme) outcome" where
  "getRedirectIRQ irq s =
     of_loop (find_iso irq 0 s) (\<lambda>r. case r of Some ov \<Rightarrow> Done (iso_gsi ov) s | None \<Rightarrow> Done (ucast irq) s)"

section \<open>The local APIC\<close>

definition LAPIC_ICDESTSHIFT :: nat where "LAPIC_ICDESTSHIFT = 24"

definition lapicWrite :: "u32 \<Rightarrow> u32 \<Rightarrow> 'a acpi_state_scheme \<Rightarrow> 'a acpi_state_scheme" where
  "lapicWrite reg val s = (let (a, s) = toVirtualAddr (ucast (0xfee00000 + reg)) s in mmio_out a val s)"

definition lapicRead :: "device \<Rightarrow> u32 \<Rightarrow> 'a acpi_state_scheme \<Rightarrow> u32 \<times> 'a acpi_state_scheme" where
  "lapicRead dev reg s = (let (a, s) = toVirtualAddr (ucast (0xfee00000 + reg)) s in (mmio_in dev a s, s))"

definition initLAPIC :: "device \<Rightarrow> 'a acpi_state_scheme \<Rightarrow> 'a acpi_state_scheme" where
  "initLAPIC dev s = (let (v, s) = lapicRead dev 0xf0 s in lapicWrite 0xf0 (v OR 0x100) s)"

definition lapicGetID :: "device \<Rightarrow> 'a acpi_state_scheme \<Rightarrow> u32 \<times> 'a acpi_state_scheme" where
  "lapicGetID dev s = (let (v, s) = lapicRead dev 0x0020 s in (drop_bit LAPIC_ICDESTSHIFT v, s))"

definition lapicIPI :: "u32 \<Rightarrow> u32 \<Rightarrow> 'a acpi_state_scheme \<Rightarrow> 'a acpi_state_scheme" where
  "lapicIPI flags ident s = (let s = lapicWrite 0x310 (push_bit 24 ident) s in lapicWrite 0x300 flags s)"

definition lapicEOI :: "'a acpi_state_scheme \<Rightarrow> 'a acpi_state_scheme" where
  "lapicEOI s = lapicWrite 0xB0 0x00 s"

text \<open>Reading a register, changing the value, and writing it back.\<close>

definition lapicModify :: "device \<Rightarrow> u32 \<Rightarrow> (u32 \<Rightarrow> u32) \<Rightarrow> 'a acpi_state_scheme \<Rightarrow> 'a acpi_state_scheme" where
  "lapicModify dev reg f s = (let (v, s) = lapicRead dev reg s in lapicWrite reg (f v) s)"

definition lapicTimerCalibrate ::
    "device \<Rightarrow> ('a acpi_state_scheme \<Rightarrow> 'a acpi_state_scheme) \<Rightarrow> 'a acpi_state_scheme \<Rightarrow>
     (unit, 'a acpi_state_scheme) outcome" where
  "lapicTimerCalibrate dev env s =
     (let s = lapicWrite 0x3E0 0x03 s;
          s = lapicWrite 0x380 0xFFFFFFFF s;
          s = lapicModify dev 0x320 (\<lambda>v. v AND NOT (push_bit 16 1)) s;
          s = cli s
      in obind (sleepMS env 10 s) (\<lambda>_ s.
         let s = lapicModify dev 0x320 (\<lambda>v. v OR push_bit 16 1) s;
             (v, s) = lapicRead dev 0x390 s
         in Done () (s\<lparr>ticksPerMS := (0xFFFFFFFF - v) div 10\<rparr>)))"

definition lapicTimer ::
    "device \<Rightarrow> ('a acpi_state_scheme \<Rightarrow> 'a acpi_state_scheme) \<Rightarrow> u8 \<Rightarrow> u64 \<Rightarrow> 'a acpi_state_scheme \<Rightarrow>
     (unit, 'a acpi_state_scheme) outcome" where
  "lapicTimer dev env vector ms s =
     obind (if ticksPerMS s = 0 then lapicTimerCalibrate dev env s else Done () s) (\<lambda>_ s.
       let ticks = ucast (ticksPerMS s) * ms;
           s = lapicWrite 0x3E0 0x03 s;
           (v, s) = lapicRead dev 0x320 s;
           val = ucast (v AND NOT (push_bit 17 3));
           val = val OR push_bit 17 0;
           val = val AND 0xFFFFFF00;
           val = val OR ucast vector;
           s = lapicWrite 0x320 (ucast (val :: u64)) s;
           s = lapicWrite 0x380 (if ticks \<noteq> 0 then ucast ticks else 1) s
       in Done () (lapicModify dev 0x320 (\<lambda>v. v AND NOT (push_bit 16 1)) s))"

section \<open>The registers behind the window\<close>

text \<open>
  An I/O APIC has a select register at its base and a window 16 bytes on: a store to the window goes
  to the register that was selected last.
\<close>

record ioapic_device =
  selected_reg :: u32
  io_regs :: "u32 \<Rightarrow> u32"

definition ioapic_store :: "ptr \<Rightarrow> ptr \<times> u32 \<Rightarrow> ioapic_device \<Rightarrow> ioapic_device" where
  "ioapic_store base = (\<lambda>(a, v) d.
     if a = base then d\<lparr>selected_reg := v\<rparr>
     else if a = base + 0x10 then d\<lparr>io_regs := (io_regs d)(selected_reg d := v)\<rparr>
     else d)"

definition ioapic_regs :: "ptr \<Rightarrow> (ptr \<times> u32) list \<Rightarrow> u32 \<Rightarrow> u32" where
  "ioapic_regs base log = io_regs (fold (ioapic_store base) log \<lparr>selected_reg = 0, io_regs = (\<lambda>_. 0)\<rparr>)"

lemma ioapic_regs_write:
  "ioapic_regs base (log @ [(base, r), (base + 0x10, v)]) = (ioapic_regs base log)(r := v)"
  by (simp add: ioapic_regs_def ioapic_store_def)

text \<open>A controller's description and the two registers the kernel reaches it by.\<close>

definition ioapic_base :: "ptr \<Rightarrow> 'a acpi_state_scheme \<Rightarrow> ptr" where
  "ioapic_base c s = ucast (apicAddr (read_ioAPICInfo (mem s) c)) + hhdm s"

definition ioapic_ok :: "ptr \<Rightarrow> 'a acpi_state_scheme \<Rightarrow> bool" where
  "ioapic_ok c s \<longleftrightarrow> boot_current s \<and> unat (apicAddr (read_ioAPICInfo (mem s) c)) + 16 < 2 ^ 32 \<and>
     region (ioapic_base c s) 4 \<inter> region c 12 = {} \<and> region (ioapic_base c s + 0x10) 4 \<inter> region c 12 = {}"

lemma unat_ucast32: "unat (ucast (x :: u32) :: u64) = unat x"
proof -
  have "unat x < 2 ^ 64" using unsigned_less [of x, where 'a = nat] by simp
  then show ?thesis by (simp add: unsigned_ucast_eq take_bit_nat_eq_self)
qed

lemma ucast32_not_failed: "(ucast (x :: u32) :: u64) \<noteq> -1"
proof
  assume "(ucast x :: u64) = -1"
  then have "unat x = 18446744073709551615"
    by (simp add: word_unat_eq_iff unat_ucast32 unsigned_minus_1_eq_mask mask_eq_exp_minus_1)
  then show False using unsigned_less [of x, where 'a = nat] by simp
qed

lemma ioapic_reg_eq:
  assumes "ioapic_ok c s"
  shows "ioapic_reg c IOAPIC_REGSEL s = (ioapic_base c s, s)"
    "ioapic_reg c IOAPIC_IOWIN s = (ioapic_base c s + 0x10, s)"
proof -
  let ?a = "apicAddr (read_ioAPICInfo (mem s) c)"
  have cur: "boot_current s" using assms by (simp add: ioapic_ok_def)
  have "unat (?a + 0x10) = unat ?a + 16"
    using assms by (simp add: ioapic_ok_def unat_plus_if')
  then have "unat (ucast (?a + 0x10) :: u64) = unat (ucast ?a + 0x10 :: u64)"
    using assms by (simp add: ioapic_ok_def unat_ucast32 unat_plus_if')
  then have add: "(ucast (?a + 0x10) :: u64) = ucast ?a + 0x10" by (simp add: word_unat_eq_iff)
  show "ioapic_reg c IOAPIC_REGSEL s = (ioapic_base c s, s)"
    using cur ucast32_not_failed by (simp add: ioapic_reg_def toVirtualAddr_current ioapic_base_def ioapic_consts)
  show "ioapic_reg c IOAPIC_IOWIN s = (ioapic_base c s + 0x10, s)"
    using cur ucast32_not_failed [of "?a + 0x10"]
    by (simp add: ioapic_reg_def toVirtualAddr_current ioapic_base_def ioapic_consts add)
qed

lemma read_ioAPICInfo_local:
  assumes "same_on (region c 12) m m'"
  shows "read_ioAPICInfo m c = read_ioAPICInfo m' c"
proof -
  have "region (c + 4) 4 \<subseteq> region c 12" "region (c + 8) 4 \<subseteq> region c 12"
    by (rule region_subset; simp)+
  then have "load32 m (c + 4) = load32 m' (c + 4)" "load32 m (c + 8) = load32 m' (c + 8)"
    using assms by (auto intro!: load_le_cong intro: same_on_subset)
  moreover have "m c = m' c" "m (c + 1) = m' (c + 1)" "m (c + 2) = m' (c + 2)" "m (c + 3) = m' (c + 3)"
    using assms by (simp_all add: same_on_def)
  ultimately show ?thesis by (simp add: read_ioAPICInfo_def read_madtEntry_def)
qed

lemma mmio_out_ok:
  assumes "ioapic_ok c s" "a = ioapic_base c s \<or> a = ioapic_base c s + 0x10"
  shows "read_ioAPICInfo (mem (mmio_out a v s)) c = read_ioAPICInfo (mem s) c"
    "ioapic_base c (mmio_out a v s) = ioapic_base c s" "ioapic_ok c (mmio_out a v s)"
    "mmio_log (mmio_out a v s) = mmio_log s @ [(a, v)]"
proof -
  have "same_on (region c 12) (mmioWrite32 a v (mem s)) (mem s)"
    unfolding mmioWrite32_def by (rule same_on_store_le) (use assms in \<open>auto simp: ioapic_ok_def simp del: in_region\<close>)
  then show info: "read_ioAPICInfo (mem (mmio_out a v s)) c = read_ioAPICInfo (mem s) c"
    using read_ioAPICInfo_local by (simp add: mmio_out_def)
  then show base: "ioapic_base c (mmio_out a v s) = ioapic_base c s"
    by (simp add: ioapic_base_def) (simp add: mmio_out_def hhdm_def)
  show "ioapic_ok c (mmio_out a v s)"
    using assms(1) unfolding ioapic_ok_def info base by (simp add: mmio_out_def boot_current_def)
  show "mmio_log (mmio_out a v s) = mmio_log s @ [(a, v)]" by (simp add: mmio_out_def)
qed

lemma ioAPICWrite_eq:
  assumes "ioapic_ok c s"
  shows "ioAPICWrite c r v s = mmio_out (ioapic_base c s + 0x10) v (mmio_out (ioapic_base c s) r s)"
  using ioapic_reg_eq [OF assms] ioapic_reg_eq(2) [OF mmio_out_ok(3) [OF assms disjI1 [OF refl]], of r]
    mmio_out_ok(2) [OF assms disjI1 [OF refl], of r]
  by (simp add: ioAPICWrite_def)

lemma ioAPICWrite_ok:
  assumes "ioapic_ok c s"
  shows "read_ioAPICInfo (mem (ioAPICWrite c r v s)) c = read_ioAPICInfo (mem s) c"
    "ioapic_base c (ioAPICWrite c r v s) = ioapic_base c s" "ioapic_ok c (ioAPICWrite c r v s)"
    "ioapic_regs (ioapic_base c s) (mmio_log (ioAPICWrite c r v s)) =
       (ioapic_regs (ioapic_base c s) (mmio_log s))(r := v)"
proof -
  let ?t = "mmio_out (ioapic_base c s) r s"
  note 1 = mmio_out_ok [OF assms disjI1 [OF refl], of r]
  have a: "ioapic_base c s + 0x10 = ioapic_base c ?t \<or> ioapic_base c s + 0x10 = ioapic_base c ?t + 0x10"
    by (simp add: 1(2))
  note 2 = mmio_out_ok [OF 1(3) a, of v]
  show "read_ioAPICInfo (mem (ioAPICWrite c r v s)) c = read_ioAPICInfo (mem s) c"
    "ioapic_base c (ioAPICWrite c r v s) = ioapic_base c s" "ioapic_ok c (ioAPICWrite c r v s)"
    using 1 2 by (simp_all add: ioAPICWrite_eq [OF assms])
  show "ioapic_regs (ioapic_base c s) (mmio_log (ioAPICWrite c r v s)) =
       (ioapic_regs (ioapic_base c s) (mmio_log s))(r := v)"
    using 1(4) 2(4) ioapic_regs_write by (simp add: ioAPICWrite_eq [OF assms])
qed

text \<open>The fields of a redirection entry.\<close>

lemma flag_bit: "flags AND push_bit n 1 \<noteq> 0 \<longleftrightarrow> bit (flags :: 'w::len word) n"
  by (simp add: bit_iff_and_push_bit_not_eq_0)

lemma bit_push_one: "n < 64 \<Longrightarrow> i < 64 \<Longrightarrow> bit (push_bit n 1 :: u64) i \<longleftrightarrow> i = n"
  by (auto simp: bit_exp_iff)

lemma bit_set_if:
  assumes "n < 64" "i < 64"
  shows "bit (if P then x OR push_bit n 1 else (x :: u64)) i \<longleftrightarrow> bit x i \<or> P \<and> i = n"
    "bit (if P then x OR push_bit n 1 else x AND NOT (push_bit n 1)) i \<longleftrightarrow> (if i = n then P else bit x i)"
  using assms by (auto simp: bit_or_iff bit_and_iff bit_not_iff bit_exp_iff)

lemma bit_redirection:
  assumes "i < 64"
  shows "bit (redirection lapicID vec flags masked) i \<longleftrightarrow>
     i < 8 \<and> bit vec i \<or> i = 13 \<and> bit flags 1 \<or> i = 15 \<and> bit flags 3 \<or> i = 16 \<and> masked \<or>
     56 \<le> i \<and> bit lapicID (i - 56)"
proof -
  have vec: "bit (ucast vec :: u64) i \<longleftrightarrow> i < 8 \<and> bit vec i"
    using assms bit_imp_le_length [of vec i] by (auto simp: bit_unsigned_iff)
  have dest: "bit (push_bit 56 (ucast lapicID :: u64)) i \<longleftrightarrow> 56 \<le> i \<and> bit lapicID (i - 56)"
    using assms by (auto simp: bit_push_bit_iff bit_unsigned_iff)
  show ?thesis
    unfolding redirection_def Let_def flag_bit bit_or_iff dest
    by (subst bit_set_if(2) [OF _ assms], simp, subst bit_set_if(1) [OF _ assms], simp,
        subst bit_set_if(1) [OF _ assms], simp) (auto simp: vec)
qed

section \<open>Waiting without interrupts\<close>

text \<open>When ticks only come with interrupts enabled, a wait after \<open>cli\<close> does not end.\<close>

definition ticks_need_interrupts :: "('a timer_state_scheme \<Rightarrow> 'a timer_state_scheme) \<Rightarrow> bool" where
  "ticks_need_interrupts env \<longleftrightarrow> (\<forall>s. \<not> interrupt_flag s \<longrightarrow>
     getPITCount (env s) = getPITCount s \<and> \<not> interrupt_flag (env s))"

lemma sleepMS_stuck:
  assumes "ticks_need_interrupts env" "\<not> interrupt_flag s"
  shows "sleepMS env 10 s = Loops"
proof -
  have "int_mult 10 10 = Some 100" by (simp add: int_mult_def)
  moreover have "wait_ticks env (getPITCount s) 100 (s\<lparr>io_log := l\<rparr>) = None" for l
    by (rule wait_ticks_stuck [where P = "\<lambda>z. \<not> interrupt_flag z \<and> getPITCount z = getPITCount s"])
      (use assms in \<open>auto simp: ticks_need_interrupts_def\<close>)
  ultimately show ?thesis
    using sleep_waits_eq(2) [of 10 100 env s] by (simp add: waits_def kprintf_Done timer_formats del: One_nat_def)
qed

section \<open>Properties\<close>

text \<open>
  C39: \<open>redirectGSI\<close> leaves in the controller's registers for the interrupt the entry it was asked for:
  the vector in the low byte, active-low polarity (bit 13) and level triggering (bit 15) from the
  flags, the mask (bit 16), and the local APIC in the top byte; it changes no other register.
\<close>

theorem redirectGSI_programs:
  assumes "getGSI dev gsi s = (c, t)" "ioapic_ok c t"
  defines "n \<equiv> (gsi - gsiBase (read_ioAPICInfo (mem t) c)) * 2 + 16"
  shows "\<exists>lo hi. ioapic_regs (ioapic_base c t) (mmio_log (redirectGSI dev lapicID vec gsi flags masked s)) =
      (ioapic_regs (ioapic_base c t) (mmio_log t))(n := lo, n + 1 := hi) \<and>
    ucast lo = vec \<and> bit lo 13 = bit flags 1 \<and> bit lo 15 = bit flags 3 \<and> bit lo 16 = masked \<and>
    ucast (drop_bit 24 hi) = (ucast lapicID :: u8)"
proof -
  let ?r = "redirection lapicID vec flags masked"
  let ?t = "ioAPICWrite c n (ucast ?r) t"
  let ?lo = "ucast ?r :: u32" and ?hi = "ucast (drop_bit 32 ?r) :: u32"
  note 1 = ioAPICWrite_ok [OF assms(2), of n ?lo]
  note 2 = ioAPICWrite_ok(4) [OF 1(3), of "n + 1" ?hi]
  have run: "redirectGSI dev lapicID vec gsi flags masked s = ioAPICWrite c (n + 1) ?hi ?t"
    using assms(1) by (simp add: redirectGSI_def n_def Let_def)
  have lo: "bit ?lo i \<longleftrightarrow> i < 32 \<and> bit ?r i" for i by (simp add: bit_unsigned_iff)
  have "(ucast ?lo :: u8) = vec"
    by (rule bit_word_eqI) (simp add: bit_unsigned_iff bit_redirection)
  moreover have "(ucast (drop_bit 24 ?hi) :: u8) = ucast lapicID"
    by (rule bit_word_eqI) (simp add: bit_unsigned_iff bit_drop_bit_eq bit_redirection)
  moreover have "bit ?lo 13 = bit flags 1" "bit ?lo 15 = bit flags 3" "bit ?lo 16 = masked"
    unfolding lo by (simp_all add: bit_redirection)
  ultimately show ?thesis
    unfolding run using 1(2,4) 2 by (intro exI [of _ ?lo] exI [of _ ?hi]) simp
qed

text \<open>One controller for the interrupts 0 to 23, with its registers at 0xFEC00000.\<close>

definition ioapic_memory :: memory where
  "ioapic_memory = (\<lambda>_. 0)(0x2006 := 0xC0, 0x2007 := 0xFE)"

definition ioapic_sample :: "acpi_state \<Rightarrow> acpi_state" where
  "ioapic_sample s = s\<lparr>mem := ioapic_memory, bootInformation := zero_bootInfo, globalBootInfo := zero_bootInfo,
     madtInformationList := (\<lambda>_. 0x2000),
     madtInformation := \<lparr>ioAPICLen = 1, madtISOLen = 0, mi_lapicAddr = 0\<rparr>\<rparr>"

lemma ioapic_sample_info:
  "apicAddr (read_ioAPICInfo ioapic_memory 0x2000) = 0xFEC00000"
  "gsiBase (read_ioAPICInfo ioapic_memory 0x2000) = 0"
  by (simp_all add: read_ioAPICInfo_def load32_bytes) (simp_all add: ioapic_memory_def)

lemma ioapic_sample_ok:
  "ioapic_ok 0x2000 (ioapic_sample s)" "ioapic_base 0x2000 (ioapic_sample s) = 0xFEC00000"
proof -
  show base: "ioapic_base 0x2000 (ioapic_sample s) = 0xFEC00000"
    using ioapic_sample_info(1)
    by (simp add: ioapic_base_def ioapic_sample_def hhdm_def zero_bootInfo_def zero_Memory_def)
  have "region (0xFEC00000 :: ptr) 4 \<inter> region 0x2000 12 = {}" "region (0xFEC00000 + 0x10 :: ptr) 4 \<inter> region 0x2000 12 = {}"
    by (rule region_disjoint; simp)+
  then show "ioapic_ok 0x2000 (ioapic_sample s)"
    unfolding ioapic_ok_def base using ioapic_sample_info(1)
    by (simp add: ioapic_sample_def boot_current_def)
qed

theorem redirectGSI_programs_witness:
  "\<forall>s :: acpi_state. \<exists>lo. ioapic_regs 0xFEC00000
     (mmio_log (redirectGSI (\<lambda>_ _. 0x00170000) 0 33 4 0 False (ioapic_sample s))) 24 = lo \<and>
     ucast lo = (33 :: u8) \<and> \<not> bit lo 16"
proof
  fix s :: acpi_state
  let ?s = "ioapic_sample s"
  let ?t = "mmio_out (ioapic_base 0x2000 ?s) 1 ?s"
  note ok = mmio_out_ok [OF ioapic_sample_ok(1) [of s] disjI1 [OF refl], where v = 1]
  have info: "gsiBase (read_ioAPICInfo (mem ?t) 0x2000) = 0" "gsiBase (read_ioAPICInfo (mem ?s) 0x2000) = 0"
    using ok(1) ioapic_sample_info(2) by (simp_all add: ioapic_sample_def)
  have read: "ioAPICRead (\<lambda>_ _. 0x00170000) 0x2000 1 ?s = (0x00170000, ?t)"
    using ioapic_reg_eq(1) [OF ioapic_sample_ok(1)] ioapic_reg_eq(2) [OF ok(3)] ok(2)
    by (simp add: ioAPICRead_def mmio_in_def)
  have gsi: "getGSI (\<lambda>_ _. 0x00170000) 4 ?s = (0x2000, ?t)"
  proof -
    have "getGSI (\<lambda>_ _. 0x00170000) 4 ?s = find_gsi (\<lambda>_ _. 0x00170000) 4 [0] ?s"
      by (simp add: getGSI_def ioapic_sample_def)
    moreover have "madtInformationList ?s 0 = 0x2000" by (simp add: ioapic_sample_def)
    ultimately show ?thesis using info(2) read by (simp add: getGSICount_def)
  qed
  have base: "ioapic_base 0x2000 ?t = 0xFEC00000" by (rule trans [OF ok(2) ioapic_sample_ok(2)])
  from redirectGSI_programs [OF gsi ok(3), of 0 33 0 False] obtain lo hi
    where "ioapic_regs 0xFEC00000 (mmio_log (redirectGSI (\<lambda>_ _. 0x00170000) 0 33 4 0 False ?s)) =
        (ioapic_regs 0xFEC00000 (mmio_log ?t))(24 := lo, 25 := hi)"
      "ucast lo = (33 :: u8)" "\<not> bit lo 16"
    unfolding info base by auto
  then show "\<exists>lo. ioapic_regs 0xFEC00000 (mmio_log (redirectGSI (\<lambda>_ _. 0x00170000) 0 33 4 0 False ?s)) 24 = lo \<and>
     ucast lo = (33 :: u8) \<and> \<not> bit lo 16"
    by simp
qed

text \<open>
  where timer ticks need interrupts, calibrating the local APIC's timer never returns: it disables
  interrupts and then waits for the counter that only the timer interrupt moves. So the first
  \<open>lapicTimer\<close> never returns either.
\<close>

theorem lapicTimer_never_returns:
  assumes "ticks_need_interrupts env" "ticksPerMS s = 0"
  shows "lapicTimerCalibrate dev env s = Loops \<and> lapicTimer dev env vector ms s = Loops"
proof -
  have "sleepMS env 10 (cli z) = Loops" for z
    by (rule sleepMS_stuck [OF assms(1)]) (simp add: cli_def)
  then have "lapicTimerCalibrate dev env s = Loops"
    by (simp add: lapicTimerCalibrate_def Let_def)
  then show ?thesis using assms(2) by (simp add: lapicTimer_def)
qed

text \<open>A timer whose interrupt is served when interrupts are enabled.\<close>

definition interrupt_tick :: "'a timer_state_scheme \<Rightarrow> 'a timer_state_scheme" where
  "interrupt_tick s = (if interrupt_flag s then tick s else s)"

lemma interrupt_tick_needs: "ticks_need_interrupts interrupt_tick"
  by (simp add: ticks_need_interrupts_def interrupt_tick_def)

theorem lapicTimer_never_returns_witness:
  "\<forall>s :: acpi_state. lapicTimer (\<lambda>_ _. 0) interrupt_tick 32 10 (s\<lparr>ticksPerMS := 0\<rparr>) = Loops"
  by (rule allI, rule lapicTimer_never_returns [OF interrupt_tick_needs, THEN conjunct2]) simp

end
