(* ===== verification/Smp.thy ===== *)
theory Smp
  imports Ioapic Renderer
begin

text \<open>
  The start of the other processors (\<open>kernel/smp/smp.cpp\<close>): the boot processor asks the boot loader
  to send them to \<open>initOtherCPUs\<close> and waits until each has registered itself. The boot loader's
  response is a record; that another processor makes progress while this one waits is the parameter
  \<open>env\<close>.
\<close>

section \<open>Structures\<close>

text \<open>
  Field offsets of the packed \<open>cpuInfo\<close>: \<open>lock\<close> 0, \<open>lapicID\<close> 4, \<open>currentProcess\<close> 8,
  \<open>processList\<close> 16, \<open>processSize\<close> 24, \<open>processIndex\<close> 32, \<open>processPRCount\<close> 40, \<open>lastIdleTime\<close> 48,
  \<open>totalTime\<close> 56, \<open>cpuNumber\<close> 64; 68 bytes in all.
\<close>

record cpuInfo =
  cpu_lock :: u32
  cpu_lapicID :: u32
  currentProcess :: ptr
  processList :: ptr
  processSize :: u64
  processIndex :: u64
  processPRCount :: u64
  lastIdleTime :: u64
  totalTime :: u64
  cpuNumber :: u32

definition sizeof_cpuInfo :: u64 where "sizeof_cpuInfo = 68"

definition read_cpuInfo :: "memory \<Rightarrow> ptr \<Rightarrow> cpuInfo" where
  "read_cpuInfo m a = \<lparr>cpu_lock = load32 m a, cpu_lapicID = load32 m (a + 4),
     currentProcess = load64 m (a + 8), processList = load64 m (a + 16), processSize = load64 m (a + 24),
     processIndex = load64 m (a + 32), processPRCount = load64 m (a + 40), lastIdleTime = load64 m (a + 48),
     totalTime = load64 m (a + 56), cpuNumber = load32 m (a + 64)\<rparr>"

text \<open>What the code reads and writes of Limine's structures; they are the boot loader's memory.\<close>

record limine_smp_info =
  smp_lapic_id :: u32
  goto_other_cpus :: bool  \<comment> \<open>whether \<open>goto_address\<close> is \<open>initOtherCPUs\<close>\<close>

record limine_smp_response =
  cpu_count :: u64
  bsp_lapic_id :: u32
  smp_cpus :: "limine_smp_info list"

record smp_state = acpi_state +
  cpuCount :: u32
  cr3Value2 :: u32
  bspLAPICID :: u32
  cpusStarted :: u32
  cr3Value :: u64
  smpResponse :: limine_smp_response
  cpuInformation :: "nat \<Rightarrow> ptr"
  kernel_renderer :: BasicRenderer

section \<open>Operations\<close>

text \<open>\<open>GlobalRenderer->Print\<close> and \<open>PrintInt\<close>, on the kernel's renderer.\<close>

definition global_Print :: "string \<Rightarrow> 'a smp_state_scheme \<Rightarrow> 'a smp_state_scheme" where
  "global_Print str s =
     (let (r, m) = Print str (kernel_renderer s, mem s) in s\<lparr>kernel_renderer := r, mem := m\<rparr>)"

definition global_PrintInt :: "u32 \<Rightarrow> 'a smp_state_scheme \<Rightarrow> (unit, 'a smp_state_scheme) outcome" where
  "global_PrintInt num s =
     of_defined (PrintInt num (kernel_renderer s, mem s)) (\<lambda>(r, m). Done () (s\<lparr>kernel_renderer := r, mem := m\<rparr>))"

definition cpu0_fields :: "ptr \<Rightarrow> memory \<Rightarrow> memory" where
  "cpu0_fields c m =
     (let m = store32 m c 0;
          m = store32 m (c + 4) 0;
          m = store64 m (c + 8) 0;
          m = store64 (store64 m (c + 24) 0) (c + 32) 0;
          m = store64 (store64 m (c + 56) 0) (c + 48) 0;
          m = store64 m (c + 40) 0
      in store32 m (c + 64) 0)"

definition cpu_fields :: "ptr \<Rightarrow> u32 \<Rightarrow> u32 \<Rightarrow> memory \<Rightarrow> memory" where
  "cpu_fields c lapic number m =
     (let m = store32 m c 0;
          m = store64 m (c + 40) 0;
          m = store64 m (c + 56) 0;
          m = store64 m (c + 48) 0;
          m = store32 m (c + 4) lapic;
          m = store64 (store64 m (c + 32) 0) (c + 24) 0;
          m = store64 m (c + 16) 0;
          m = store64 m (c + 8) 0
      in store32 m (c + 64) number)"

text \<open>The wait for the other processors; \<open>env\<close> is what happens between two looks at the count.\<close>

partial_function (option) wait_cpus ::
    "('a smp_state_scheme \<Rightarrow> 'a smp_state_scheme) \<Rightarrow> u32 \<Rightarrow> 'a smp_state_scheme \<Rightarrow> 'a smp_state_scheme option" where
  "wait_cpus env n s = (if cpusStarted s < n then wait_cpus env n (env s) else Some s)"

text \<open>Sending processor \<open>i\<close> on its way; an index outside the response is undefined.\<close>

definition send_cpu :: "u64 \<Rightarrow> 'a smp_state_scheme \<Rightarrow> (unit, 'a smp_state_scheme) outcome" where
  "send_cpu i s =
     (let cpus = smp_cpus (smpResponse s) in
      if unat i < length cpus then
        Done () (s\<lparr>smpResponse := (smpResponse s)\<lparr>smp_cpus :=
          cpus[unat i := (cpus ! unat i)\<lparr>goto_other_cpus := True\<rparr>]\<rparr>\<rparr>)
      else Undefined)"

definition initSMP ::
    "limine_smp_response option \<Rightarrow> ('a smp_state_scheme \<Rightarrow> 'a smp_state_scheme) \<Rightarrow>
     'a smp_state_scheme \<Rightarrow> (unit, 'a smp_state_scheme) outcome" where
  "initSMP response env s =
     (let s = s\<lparr>cr3Value := PML4 s\<rparr> in
      obind (kprintf (nl ''cr3 value: %x'' 1) [ArgNum (cr3Value s)] s) (\<lambda>_ s.
      of_defined response (\<lambda>resp.
      let s = s\<lparr>smpResponse := resp\<rparr>;
          s = s\<lparr>cpuCount := ucast (cpu_count (smpResponse s))\<rparr>;
          s = s\<lparr>bspLAPICID := bsp_lapic_id (smpResponse s)\<rparr>
      in obind (kprintf (nl ''num cpus: %d'' 1) [ArgNum (ucast (cpuCount s))] s) (\<lambda>_ s.
      obind (mallocx sizeof_cpuInfo s) (\<lambda>cpu0Information s.
      let s = s\<lparr>mem := cpu0_fields cpu0Information (mem s)\<rparr>;
          s = s\<lparr>cpuInformation := (cpuInformation s)(0 := cpu0Information)\<rparr>
      in case smp_cpus (smpResponse s) of
           [] \<Rightarrow> Undefined
         | cpu # _ \<Rightarrow>
      obind (kprintf (nl ''Hello from CPU: %d'' 1) [ArgNum (ucast (smp_lapic_id cpu))] s) (\<lambda>_ s.
      obind (for_range send_cpu 1 (ucast (cpuCount s)) 1 s) (\<lambda>_ s.
      of_loop (wait_cpus env (cpuCount s) s) (\<lambda>s.
      kprintf (nl ''SMP initialized'' 1) [] s))))))))"

text \<open>
  What another processor runs, up to the endless loop it ends in. The arguments are those of the
  routines it calls: the address of the segment table, the local APIC's answers, and what
  \<open>initPaging\<close> takes from the boot loader and the linker.
\<close>

definition initOtherCPUs ::
    "ptr \<Rightarrow> device \<Rightarrow> limine \<Rightarrow> u64 \<Rightarrow> u64 \<Rightarrow> ('a smp_state_scheme \<Rightarrow> 'a smp_state_scheme) \<Rightarrow>
     limine_smp_info \<Rightarrow> 'a smp_state_scheme \<Rightarrow> (unit, 'a smp_state_scheme) outcome" where
  "initOtherCPUs gdt_address dev lim blob_begin blob_size env info s =
     obind (initGDT gdt_address s) (\<lambda>_ s.
     let s = initLAPIC dev s in
     obind (initPaging lim blob_begin blob_size s) (\<lambda>_ s.
     let s = global_Print ''cr3 -> '' s in
     obind (global_PrintInt (ucast (readCr3 s)) s) (\<lambda>_ s.
     let s = global_Print [CHR 0x0A] s;
         s = s\<lparr>cr3Value2 := ucast (readCr3 s)\<rparr>
     in of_loop (wait_cpus env (smp_lapic_id info) s) (\<lambda>s.
     obind (mallocx sizeof_cpuInfo s) (\<lambda>cpu s.
     let s = s\<lparr>mem := cpu_fields cpu (smp_lapic_id info) (cpusStarted s) (mem s)\<rparr>;
         s = s\<lparr>cpuInformation := (cpuInformation s)(unat (cpuNumber (read_cpuInfo (mem s) cpu)) := cpu)\<rparr>
     in Done () (s\<lparr>cpusStarted := cpusStarted s + 1\<rparr>))))))"

definition getCPUInfo :: "u32 \<Rightarrow> 'a smp_state_scheme \<Rightarrow> ptr" where
  "getCPUInfo number s = (if number > cpusStarted s then 0 else cpuInformation s (unat number))"

definition getSMPInfo :: "u32 \<Rightarrow> 'a smp_state_scheme \<Rightarrow> limine_smp_info option" where
  "getSMPInfo number s =
     (let cpus = smp_cpus (smpResponse s) in
      if unat number < length cpus then Some (cpus ! unat number) else None)"

section \<open>Registration\<close>

lemma cpu_fields_read:
  "read_cpuInfo (cpu_fields c lapic number m) c = \<lparr>cpu_lock = 0, cpu_lapicID = lapic, currentProcess = 0,
     processList = 0, processSize = 0, processIndex = 0, processPRCount = 0, lastIdleTime = 0,
     totalTime = 0, cpuNumber = number\<rparr>"
  by (simp add: cpu_fields_def read_cpuInfo_def Let_def)

text \<open>
  The record of the boot processor: every field but \<open>processList\<close>, which keeps what the heap block
  held.
\<close>

lemma cpu0_fields_read:
  "read_cpuInfo (cpu0_fields c m) c = \<lparr>cpu_lock = 0, cpu_lapicID = 0, currentProcess = 0,
     processList = load64 m (c + 16), processSize = 0, processIndex = 0, processPRCount = 0,
     lastIdleTime = 0, totalTime = 0, cpuNumber = 0\<rparr>"
  by (simp add: cpu0_fields_def read_cpuInfo_def Let_def)

end
