(* ===== verification/Process.thy ===== *)
theory Process
  imports Smp
begin

text \<open>
  Threads and processes (\<open>kernel/scheduler/schedulerDecls.hpp\<close>, \<open>kernel/process/process.cpp\<close>). The
  structures live in memory and are given by the offsets of their fields; register sets are also
  read and written as whole records. A variable the code uses before it is set holds whatever was in
  its register: the parameter \<open>wild\<close>.
\<close>

section \<open>Register sets\<close>

record cpuRegs =
  r15 :: u64
  r14 :: u64
  r13 :: u64
  r12 :: u64
  r11 :: u64
  r10 :: u64
  r9 :: u64
  r8 :: u64
  rbp :: u64
  rdi :: u64
  rsi :: u64
  rdx :: u64
  rcx :: u64
  rbx :: u64
  rax :: u64
  core :: u64
  int_no :: u64
  err :: u64
  rip :: u64
  cs :: u64
  eFlags :: u64
  rsp :: u64
  ss :: u64

definition reg_list :: "cpuRegs \<Rightarrow> u64 list" where
  "reg_list r = [r15 r, r14 r, r13 r, r12 r, r11 r, r10 r, r9 r, r8 r, rbp r, rdi r, rsi r, rdx r, rcx r,
     rbx r, rax r, core r, int_no r, err r, rip r, cs r, eFlags r, rsp r, ss r]"

definition regs_of :: "(nat \<Rightarrow> u64) \<Rightarrow> cpuRegs" where
  "regs_of f = \<lparr>r15 = f 0, r14 = f 1, r13 = f 2, r12 = f 3, r11 = f 4, r10 = f 5, r9 = f 6, r8 = f 7,
     rbp = f 8, rdi = f 9, rsi = f 10, rdx = f 11, rcx = f 12, rbx = f 13, rax = f 14, core = f 15,
     int_no = f 16, err = f 17, rip = f 18, cs = f 19, eFlags = f 20, rsp = f 21, ss = f 22\<rparr>"

text \<open>The registers in memory, eight bytes each in this order.\<close>

definition read_regs :: "memory \<Rightarrow> ptr \<Rightarrow> cpuRegs" where
  "read_regs m a = regs_of (\<lambda>i. load64 m (a + of_nat (i * 8)))"

definition write_regs :: "ptr \<Rightarrow> cpuRegs \<Rightarrow> memory \<Rightarrow> memory" where
  "write_regs a r m = fold (\<lambda>i m. store64 m (a + of_nat (i * 8)) (reg_list r ! i)) [0..<23] m"

definition zero_regs :: cpuRegs where
  "zero_regs = regs_of (\<lambda>_. 0)"

lemma length_reg_list [simp]: "length (reg_list r) = 23"
  by (simp add: reg_list_def)

lemma regs_of_list: "regs_of (\<lambda>i. reg_list r ! i) = r"
  by (cases r) (simp add: regs_of_def reg_list_def)

lemma regs_of_cong: "(\<And>i. i < 23 \<Longrightarrow> f i = g i) \<Longrightarrow> regs_of f = regs_of g"
  by (simp add: regs_of_def)

lemma read_write_regs: "read_regs (write_regs a r m) a = r"
proof -
  have "read_regs (write_regs a r m) a = regs_of (\<lambda>i. reg_list r ! i)"
    unfolding read_regs_def write_regs_def
    by (rule regs_of_cong, rule cell64.ld_fold_same) auto
  then show ?thesis by (simp add: regs_of_list)
qed

section \<open>Threads and processes\<close>

datatype threadPriority = PRIORITY_LOW | PRIORITY_MEDIUM | PRIORITY_HIGH

datatype threadState = THREAD_READY | THREAD_RUNNING | THREAD_SUSPENDED

primrec priority_code :: "threadPriority \<Rightarrow> u32" where
  "priority_code PRIORITY_LOW = 0"
| "priority_code PRIORITY_MEDIUM = 1"
| "priority_code PRIORITY_HIGH = 2"

primrec state_code :: "threadState \<Rightarrow> u32" where
  "state_code THREAD_READY = 0"
| "state_code THREAD_RUNNING = 1"
| "state_code THREAD_SUSPENDED = 2"

text \<open>Priorities are ordered as their codes are.\<close>

instantiation threadPriority :: linorder
begin

definition less_eq_threadPriority :: "threadPriority \<Rightarrow> threadPriority \<Rightarrow> bool" where
  "less_eq_threadPriority p q \<longleftrightarrow> priority_code p \<le> priority_code q"

definition less_threadPriority :: "threadPriority \<Rightarrow> threadPriority \<Rightarrow> bool" where
  "less_threadPriority p q \<longleftrightarrow> priority_code p < priority_code q"

instance
proof
  fix p q r :: threadPriority
  show "p < q \<longleftrightarrow> p \<le> q \<and> \<not> q \<le> p"
    by (auto simp: less_eq_threadPriority_def less_threadPriority_def)
  show "p \<le> p" by (simp add: less_eq_threadPriority_def)
  show "p \<le> r" if "p \<le> q" "q \<le> r"
    using that by (simp add: less_eq_threadPriority_def)
  show "p = q" if "p \<le> q" "q \<le> p"
    using that by (cases p; cases q; simp add: less_eq_threadPriority_def word_le_nat_alt)
  show "p \<le> q \<or> q \<le> p" by (auto simp: less_eq_threadPriority_def)
qed

end

text \<open>
  Field offsets of \<open>struct thread\<close>, 256 bytes: \<open>threadID\<close> 0, \<open>regs\<close> 8, \<open>priority\<close> 192, \<open>stackAddress\<close>
  200, \<open>cpuID\<close> 208, \<open>kernelStack\<close> 216, \<open>entryPoint\<close> 224, \<open>state\<close> 232, \<open>parentProcess\<close> 240, \<open>lock\<close> 248.
\<close>

definition sizeof_thread :: u64 where "sizeof_thread = 256"

record thread =
  threadID :: u64
  thread_regs :: cpuRegs
  priority :: u32
  stackAddress :: u64
  cpuID :: u64
  kernelStack :: u64
  entryPoint :: u64
  thread_state :: u32
  parentProcess :: ptr
  thread_lock :: u32

definition read_thread :: "memory \<Rightarrow> ptr \<Rightarrow> thread" where
  "read_thread m t = \<lparr>threadID = load64 m t, thread_regs = read_regs m (t + 8), priority = load32 m (t + 192),
     stackAddress = load64 m (t + 200), cpuID = load64 m (t + 208), kernelStack = load64 m (t + 216),
     entryPoint = load64 m (t + 224), thread_state = load32 m (t + 232), parentProcess = load64 m (t + 240),
     thread_lock = load32 m (t + 248)\<rparr>"

text \<open>\<open>struct threadList\<close>, 16 bytes: \<open>threadInfo\<close> 0, \<open>next\<close> 8.\<close>

definition sizeof_threadList :: u64 where "sizeof_threadList = 16"

record threadList =
  threadInfo :: ptr
  tl_next :: ptr

definition read_threadList :: "memory \<Rightarrow> ptr \<Rightarrow> threadList" where
  "read_threadList m l = \<lparr>threadInfo = load64 m l, tl_next = load64 m (l + 8)\<rparr>"

text \<open>
  \<open>struct process\<close>, 16408 bytes, and \<open>struct processInternal\<close>, 16424 bytes, begin alike: \<open>processID\<close> 0,
  \<open>PML4\<close> 8, \<open>threads\<close> 16, \<open>threadCount\<close> 16400; then \<open>next\<close> 16408 and \<open>userProcess\<close> 16416.
\<close>

definition PROCESS_MAX_THREADS :: nat where "PROCESS_MAX_THREADS = 64"
definition sizeof_process :: u64 where "sizeof_process = 16408"
definition sizeof_processInternal :: u64 where "sizeof_processInternal = 16424"

record process =
  processID :: u64
  process_PML4 :: ptr
  threads :: "nat \<Rightarrow> thread"
  process_threadCount :: u32

definition process_thread :: "ptr \<Rightarrow> nat \<Rightarrow> ptr" where
  "process_thread p i = p + 16 + of_nat i * sizeof_thread"

definition read_process :: "memory \<Rightarrow> ptr \<Rightarrow> process" where
  "read_process m p = \<lparr>processID = load64 m p, process_PML4 = load64 m (p + 8),
     threads = (\<lambda>i. read_thread m (process_thread p i)), process_threadCount = load32 m (p + 16400)\<rparr>"

record processInternal = process +
  pi_next :: ptr
  userProcess :: u8

definition read_processInternal :: "memory \<Rightarrow> ptr \<Rightarrow> processInternal" where
  "read_processInternal m p = process.extend (read_process m p)
     \<lparr>pi_next = load64 m (p + 16408), userProcess = m (p + 16416)\<rparr>"

abbreviation proc_next :: "memory \<Rightarrow> ptr \<Rightarrow> ptr" where "proc_next m p \<equiv> load64 m (p + 16408)"
abbreviation proc_count :: "memory \<Rightarrow> ptr \<Rightarrow> u32" where "proc_count m p \<equiv> load32 m (p + 16400)"
abbreviation info_of :: "memory \<Rightarrow> ptr \<Rightarrow> ptr" where "info_of m l \<equiv> load64 m l"
abbreviation list_next :: "memory \<Rightarrow> ptr \<Rightarrow> ptr" where "list_next m l \<equiv> load64 m (l + 8)"

section \<open>Global variables\<close>

text \<open>Those of \<open>process.cpp\<close>, \<open>scheduler.cpp\<close> and \<open>lockx\<close> of \<open>isr.cpp\<close>.\<close>

record process_state = smp_state +
  processMutex :: u32
  processCount :: u64
  threadCount :: u64
  processHead :: ptr
  currentProcessInternal :: ptr
  threadHead :: ptr
  threadMutex :: u32
  runningThread :: ptr
  lockx :: u32

definition THREAD_STACK_SIZE :: u64 where "THREAD_STACK_SIZE = 20480"
definition THREAD_STACK_ADDR :: u64 where "THREAD_STACK_ADDR = 0x70000000000"

section \<open>Lists of processes and threads\<close>

text \<open>The loop over at most \<open>k\<close> processes; the result is whether one was unlinked.\<close>

primrec unlink_process :: "nat \<Rightarrow> ptr \<Rightarrow> ptr \<Rightarrow> memory \<Rightarrow> bool \<times> memory" where
  "unlink_process 0 p pHead m = (False, m)"
| "unlink_process (Suc k) p pHead m =
     (if proc_next m pHead = p then (True, store64 m (pHead + 16408) (proc_next m (proc_next m pHead)))
      else unlink_process k p (proc_next m pHead) m)"

text \<open>With \<open>processCount\<close> the largest number the loop would never end by its counter.\<close>

definition removeProcessFromList :: "ptr \<Rightarrow> 'a process_state_scheme \<Rightarrow> (bool, 'a process_state_scheme) outcome" where
  "removeProcessFromList p s =
     (case unlink_process (unat (processCount s) + 1) p (processHead s) (mem s) of
        (ok, m) \<Rightarrow> Done ok (s\<lparr>mem := m\<rparr>))"

primrec unlink_thread :: "nat \<Rightarrow> ptr \<Rightarrow> ptr \<Rightarrow> memory \<Rightarrow> bool \<times> memory" where
  "unlink_thread 0 t tHead m = (False, m)"
| "unlink_thread (Suc k) t tHead m =
     (if info_of m (list_next m tHead) = t then
        (True, store64 m (list_next m tHead) (info_of m (list_next m (list_next m tHead))))
      else unlink_thread k t (list_next m tHead) m)"

definition removeThreadFromList :: "ptr \<Rightarrow> 'a process_state_scheme \<Rightarrow> (bool, 'a process_state_scheme) outcome" where
  "removeThreadFromList t s =
     (case unlink_thread (unat (threadID (read_thread (mem s) t)) + 1) t (threadHead s) (mem s) of
        (ok, m) \<Rightarrow> Done ok (s\<lparr>mem := m\<rparr>))"

definition getPid :: "ptr \<Rightarrow> 'a process_state_scheme \<Rightarrow> u32" where
  "getPid p s = ucast (processID (read_process (mem s) p))"

text \<open>The frame is as large as a pointer, not as a process: \<open>sizeof(processHead)\<close> is 8.\<close>

definition initProcesses :: "'a process_state_scheme \<Rightarrow> (ptr, 'a process_state_scheme) outcome" where
  "initProcesses s =
     obind (allocateFrame 8 s) (\<lambda>p s.
       let (h, s) = toVirtualAddr p s; s = s\<lparr>processHead := h\<rparr> in Done (processHead s) s)"

definition setupProcessInfo :: "'a process_state_scheme \<Rightarrow> (ptr, 'a process_state_scheme) outcome" where
  "setupProcessInfo s =
     obind (mallocx sizeof_processInternal s) (\<lambda>p s.
       let m = store64 (mem s) p (7 * processCount s);
           m = store32 m (p + 16400) 1;
           m = store64 m (p + 16408) 0
       in Done p (s\<lparr>mem := m\<rparr>))"

section \<open>Creating threads and processes\<close>

definition map_stack :: "ptr \<Rightarrow> u64 \<Rightarrow> 'a process_state_scheme \<Rightarrow> (unit, 'a process_state_scheme) outcome" where
  "map_stack stack i s =
     (let (pa, s) = toPhysicalAddr stack s in
      obind (map_page (pa + i) (THREAD_STACK_ADDR - THREAD_STACK_SIZE + i) (ReadWrite OR Present OR LargerPages) s)
        (\<lambda>_ s. Done () s))"

definition setupThreadContext ::
    "ptr \<Rightarrow> u64 \<Rightarrow> bool \<Rightarrow> threadState \<Rightarrow> 'a process_state_scheme \<Rightarrow> (unit, 'a process_state_scheme) outcome" where
  "setupThreadContext t entry user st s =
     obind (allocateFrame THREAD_STACK_SIZE s) (\<lambda>p s.
       let (stack, s) = toVirtualAddr p s;
           m = store64 (mem s) (t + 152) entry;
           m = store64 m (t + 224) entry;
           m = store64 m (t + 200) stack
       in obind (mallocx THREAD_STACK_SIZE (s\<lparr>mem := m\<rparr>)) (\<lambda>ks s.
       let m = store64 (mem s) (t + 216) ks;
           m = store64 m (t + 216) (load64 m (t + 216) + THREAD_STACK_SIZE);
           m = store32 m (t + 232) (state_code THREAD_READY);
           m = store32 m (t + 248) 0;
           s = s\<lparr>mem := m\<rparr>
       in obind (if user then
             (let s = s\<lparr>mem := write_regs (t + 8) (zero_regs\<lparr>cs := 0x28, ss := 0x30\<rparr>) (mem s)\<rparr> in
              obind (for_range (map_stack stack) 0 THREAD_STACK_SIZE (2 * ONE_MB) s) (\<lambda>_ s.
              Done () (s\<lparr>mem := store64 (mem s) (t + 8 + 168) (stack + THREAD_STACK_SIZE)\<rparr>)))
           else
             (let m = write_regs (t + 8) (zero_regs\<lparr>cs := 0x28, rsp := load64 (mem s) (t + 216), ss := 0x30\<rparr>) (mem s);
                  m = store64 m (t + 200) (load64 m (t + 216))
              in Done () (s\<lparr>mem := m\<rparr>)))
       (\<lambda>_ s.
         let s = s\<lparr>mem := store64 (mem s) (t + 8 + 160) 0x202\<rparr>
         in Done () (s\<lparr>threadCount := threadCount s + 1\<rparr>))))"

definition threads_lock :: "'a process_state_scheme \<Rightarrow> (unit, 'a process_state_scheme) outcome" where
  "threads_lock s = acquire threadMutex (\<lambda>l s. s\<lparr>threadMutex := l\<rparr>) s"

definition threads_unlock :: "'a process_state_scheme \<Rightarrow> 'a process_state_scheme" where
  "threads_unlock s = release threadMutex (\<lambda>l s. s\<lparr>threadMutex := l\<rparr>) s"

text \<open>The last node of a list, by the field at the given offset.\<close>

partial_function (option) last_node :: "ptr \<Rightarrow> memory \<Rightarrow> ptr \<Rightarrow> ptr option" where
  "last_node off m n = (if load64 m (n + off) \<noteq> 0 then last_node off m (load64 m (n + off)) else Some n)"

definition addThreadToList :: "ptr \<Rightarrow> 'a process_state_scheme \<Rightarrow> (unit, 'a process_state_scheme) outcome" where
  "addThreadToList t s =
     obind (threads_lock s) (\<lambda>_ s.
       if threadHead s = 0 then
         obind (allocateFrame sizeof_threadList s) (\<lambda>p s.
           let (h, s) = toVirtualAddr p s;
               s = s\<lparr>threadHead := h\<rparr>;
               m = store64 (mem s) (threadHead s) t;
               m = store64 m (threadHead s + 8) 0
           in Done () (threads_unlock (s\<lparr>mem := m\<rparr>)))
       else
         of_loop (last_node 8 (mem s) (threadHead s)) (\<lambda>tHead.
         obind (mallocx sizeof_threadList s) (\<lambda>n s.
           let m = store64 (mem s) (tHead + 8) n;
               m = store64 m (load64 m (tHead + 8)) t;
               m = store64 m (load64 m (tHead + 8) + 8) 0
           in Done () (threads_unlock (s\<lparr>mem := m\<rparr>)))))"

text \<open>\<open>wild\<close> is the pointer \<open>thread\<close>, which is never set.\<close>

definition createThreadInternal ::
    "ptr \<Rightarrow> u64 \<Rightarrow> threadPriority \<Rightarrow> u64 \<Rightarrow> threadState \<Rightarrow> bool \<Rightarrow> 'a process_state_scheme \<Rightarrow>
     (ptr, 'a process_state_scheme) outcome" where
  "createThreadInternal wild entry prio cpu st user s =
     obind (if processHead s = 0 then
              obind (initProcesses s) (\<lambda>h s. Done () (s\<lparr>processHead := h\<rparr>)) else Done () s) (\<lambda>_ s.
       if getCPUInfo (ucast cpu) s = 0 then
         haltAndCatchFire ''process/process.cpp'' 149 ''Invalid CPU Requested!!'' s
       else
         obind (setupThreadContext wild entry user st s) (\<lambda>_ s.
         let m = store32 (mem s) (wild + 192) (priority_code prio);
             m = store64 m (wild + 208) cpu
         in obind (addThreadToList wild (s\<lparr>mem := m\<rparr>)) (\<lambda>_ s.
            Done wild (s\<lparr>processCount := processCount s + 1\<rparr>))))"

definition getPageMap :: "bool \<Rightarrow> 'a process_state_scheme \<Rightarrow> (ptr, 'a process_state_scheme) outcome" where
  "getPageMap user s = (if \<not> user then Done (kernelPML4 s) s else newPML4 s)"

text \<open>Assigning a thread copies its 256 bytes.\<close>

definition copy_thread :: "ptr \<Rightarrow> ptr \<Rightarrow> memory \<Rightarrow> memory" where
  "copy_thread dst src m = (\<lambda>a. if a \<in> region dst 256 then m (src + (a - dst)) else m a)"

definition processInternalToProcess :: "ptr \<Rightarrow> ptr \<Rightarrow> 'a process_state_scheme \<Rightarrow> ptr \<times> 'a process_state_scheme" where
  "processInternalToProcess p q s =
     (let m = store64 (mem s) q (load64 (mem s) p);
          m = store32 m (q + 16400) (proc_count m p);
          m = fold (\<lambda>i. copy_thread (process_thread q i) (process_thread p i)) [0..<unat (proc_count m p)] m;
          m = store64 m (q + 8) (load64 m (p + 8))
      in (q, s\<lparr>mem := m\<rparr>))"

definition registerProcess :: "ptr \<Rightarrow> 'a process_state_scheme \<Rightarrow> (unit, 'a process_state_scheme) outcome" where
  "registerProcess p s =
     (if processCount s = 0 then
        (let s = s\<lparr>processHead := p\<rparr>;
             s = s\<lparr>mem := store64 (mem s) (p + 16408) 0\<rparr>
         in Done () (s\<lparr>processCount := processCount s + 1\<rparr>))
      else
        of_loop (last_node 16408 (mem s) (processHead s)) (\<lambda>pHead.
          let m = store64 (mem s) (pHead + 16408) p;
              m = store64 m (p + 16408) 0;
              s = s\<lparr>mem := m\<rparr>
          in Done () (s\<lparr>processCount := processCount s + 1\<rparr>)))"

text \<open>\<open>wild0\<close> is the pointer \<open>threadInfo\<close> when it is tested, before it is set.\<close>

definition createProcessFromRoutine ::
    "ptr \<Rightarrow> ptr \<Rightarrow> u64 \<Rightarrow> threadPriority \<Rightarrow> u64 \<Rightarrow> threadState \<Rightarrow> bool \<Rightarrow> 'a process_state_scheme \<Rightarrow>
     (ptr, 'a process_state_scheme) outcome" where
  "createProcessFromRoutine wild0 wild entry prio cpu st user s =
     obind (acquire processMutex (\<lambda>l s. s\<lparr>processMutex := l\<rparr>) (cli s)) (\<lambda>_ s.
     obind (if processHead s = 0 then
              obind (initProcesses s) (\<lambda>h s. Done () (s\<lparr>processHead := h\<rparr>)) else Done () s) (\<lambda>_ s.
     obind (allocateFrame sizeof_process s) (\<lambda>pa s.
       let (processInfo, s) = toVirtualAddr pa s in
     obind (setupProcessInfo s) (\<lambda>p s.
       if processInfo = 0 then Done 0 s
       else if wild0 = 0 then Done 0 s
       else
     obind (createThreadInternal wild entry prio cpu st user s) (\<lambda>threadInfo s.
       let s = s\<lparr>mem := store64 (mem s) threadInfo (ucast (proc_count (mem s) p + 1))\<rparr> in
     obind (getPageMap user s) (\<lambda>root s.
       let m = store64 (mem s) (p + 8) root;
           m = copy_thread (process_thread p 0) threadInfo m;
           s = s\<lparr>mem := m, currentProcessInternal := p\<rparr>;
           (_, s) = processInternalToProcess p processInfo s;
           s = s\<lparr>mem := store64 (mem s) (threadInfo + 240) processInfo\<rparr>
       in obind (registerProcess (currentProcessInternal s) s) (\<lambda>_ s.
          Done processInfo (sti (release processMutex (\<lambda>l s. s\<lparr>processMutex := l\<rparr>) s)))))))))"

section \<open>Lookups\<close>

text \<open>The process with an identifier, or null; a list that never ends is \<open>None\<close>.\<close>

partial_function (option) find_process :: "u64 \<Rightarrow> memory \<Rightarrow> ptr \<Rightarrow> ptr option" where
  "find_process ident m pHead =
     (if pHead \<noteq> 0 then
        (if load64 m pHead = ident then Some pHead else find_process ident m (proc_next m pHead))
      else Some 0)"

definition getProcessInfo :: "u64 \<Rightarrow> 'a process_state_scheme \<Rightarrow> (ptr, 'a process_state_scheme) outcome" where
  "getProcessInfo ident s =
     of_loop (find_process ident (mem s) (processHead s)) (\<lambda>pHead.
       if pHead = 0 then Done 0 s
       else obind (mallocx sizeof_process s) (\<lambda>q s.
         case processInternalToProcess pHead q s of (r, s) \<Rightarrow> Done r s))"

text \<open>The loop of \<open>getThreadInfo\<close> does not step to the next node.\<close>

partial_function (option) find_thread :: "u64 \<Rightarrow> memory \<Rightarrow> ptr \<Rightarrow> ptr option" where
  "find_thread ident m tList =
     (if tList \<noteq> 0 then
        (if load64 m (info_of m tList) = ident then Some (info_of m tList) else find_thread ident m tList)
      else Some 0)"

definition getThreadInfo :: "u64 \<Rightarrow> 'a process_state_scheme \<Rightarrow> (ptr, 'a process_state_scheme) outcome" where
  "getThreadInfo ident s = of_loop (find_thread ident (mem s) (threadHead s)) (\<lambda>t. Done t s)"

definition getThreadList :: "u64 \<Rightarrow> bool \<Rightarrow> 'a process_state_scheme \<Rightarrow> ptr" where
  "getThreadList ident nxt s =
     (let tList = threadHead s in
      if tList \<noteq> 0 then
        (if load64 (mem s) (info_of (mem s) tList) = ident then tList else list_next (mem s) tList)
      else 0)"

definition getNextThread :: "ptr \<Rightarrow> 'a process_state_scheme \<Rightarrow> ptr" where
  "getNextThread t s =
     info_of (mem s) (list_next (mem s) (getThreadList (load64 (mem s) t) True s))"

end
