(* ===== verification/Process_Lists.thy ===== *)
theory Process_Lists
  imports Process Heap
begin

text \<open>
  What the operations of \<open>process.cpp\<close> do to the list of processes: registration appends, lookup finds
  the first with the identifier; and the lookups and allocations that go wrong.
\<close>

section \<open>Lists linked through a field\<close>

fun chained :: "ptr \<Rightarrow> memory \<Rightarrow> ptr list \<Rightarrow> bool" where
  "chained off m [] \<longleftrightarrow> True"
| "chained off m [n] \<longleftrightarrow> load64 m (n + off) = 0"
| "chained off m (n # n' # ns) \<longleftrightarrow> load64 m (n + off) = n' \<and> chained off m (n' # ns)"

lemma chained_cong:
  "(\<And>n. n \<in> set ns \<Longrightarrow> load64 m (n + off) = load64 m' (n + off)) \<Longrightarrow> chained off m ns = chained off m' ns"
  by (induction off m ns rule: chained.induct) auto

lemma last_node_chained:
  assumes "chained off m ns" "ns \<noteq> []" "0 \<notin> set ns"
  shows "last_node off m (hd ns) = Some (last ns)"
  using assms
proof (induction off m ns rule: chained.induct)
  case (2 off m n)
  then show ?case by (subst last_node.simps) simp
next
  case (3 off m n n' ns)
  then show ?case by (subst last_node.simps) auto
qed simp

text \<open>Writing the field of the last node, and that of a node of its own, appends the node.\<close>

lemma chained_append:
  assumes "chained off m ns" "ns \<noteq> []"
    "\<And>n. n \<in> set (butlast ns) \<Longrightarrow> load64 m' (n + off) = load64 m (n + off)"
    "load64 m' (last ns + off) = p" "load64 m' (p + off) = 0"
  shows "chained off m' (ns @ [p])"
  using assms
proof (induction off m ns rule: chained.induct)
  case (3 off m n n' ns)
  then have "chained off m' ((n' # ns) @ [p])" by (simp split: if_splits)
  moreover have "load64 m' (n + off) = n'" using 3 by simp
  ultimately show ?case by simp
qed simp_all

lemma find_process_chained:
  assumes "chained 16408 m ps" "ps \<noteq> []" "0 \<notin> set ps"
  shows "find_process ident m (hd ps) =
    Some (case filter (\<lambda>p. load64 m p = ident) ps of [] \<Rightarrow> 0 | p # _ \<Rightarrow> p)"
  using assms
proof (induction "16408 :: ptr" m ps rule: chained.induct)
  case (2 m n)
  then show ?case by (subst find_process.simps) (simp add: find_process.simps [of ident m 0])
next
  case (3 m n n' ns)
  then show ?case by (subst find_process.simps) auto
qed simp

abbreviation next_cell :: "ptr \<Rightarrow> ptr set" where "next_cell p \<equiv> region (p + 16408) 8"

text \<open>The processes \<open>ps\<close> are registered, from the head on.\<close>

definition processes :: "'a process_state_scheme \<Rightarrow> ptr list \<Rightarrow> bool" where
  "processes s ps \<longleftrightarrow> chained 16408 (mem s) ps \<and> 0 \<notin> set ps \<and>
     (if ps = [] then processCount s = 0 else processHead s = hd ps \<and> processCount s \<noteq> 0)"

fun cells_apart :: "ptr list \<Rightarrow> bool" where
  "cells_apart [] \<longleftrightarrow> True"
| "cells_apart (p # ps) \<longleftrightarrow> (\<forall>q \<in> set ps. next_cell p \<inter> next_cell q = {}) \<and> cells_apart ps"

lemma cells_apart_append:
  "cells_apart (ps @ qs) \<longleftrightarrow> cells_apart ps \<and> cells_apart qs \<and>
     (\<forall>p \<in> set ps. \<forall>q \<in> set qs. next_cell p \<inter> next_cell q = {})"
  by (induction ps) auto

lemma cells_apart_last:
  assumes "cells_apart ps" "ps \<noteq> []" "q \<in> set (butlast ps)"
  shows "next_cell q \<inter> next_cell (last ps) = {}"
proof -
  have "ps = butlast ps @ [last ps]" using assms(2) by simp
  then have "cells_apart (butlast ps @ [last ps])" using assms(1) by simp
  then show ?thesis using assms(3) by (simp add: cells_apart_append)
qed

text \<open>
  C11: \<open>registerProcess\<close> ends and appends the process to the list, whatever was in its next field; it
  writes only that field and that of the last process. A lookup in the new list ends, and finds the
  first process registered with the identifier, or none.
\<close>

theorem registerProcess_appends:
  assumes "processes s ps" "p \<noteq> 0" "cells_apart (ps @ [p])" "processCount s \<noteq> 0xFFFFFFFFFFFFFFFF"
  shows "\<exists>s'. registerProcess p s = Done () s' \<and> processes s' (ps @ [p]) \<and>
    processCount s' = processCount s + 1 \<and>
    same_on (- next_cell p - (if ps = [] then {} else next_cell (last ps))) (mem s') (mem s) \<and>
    find_process ident (mem s') (processHead s') =
      Some (case filter (\<lambda>q. load64 (mem s') q = ident) (ps @ [p]) of [] \<Rightarrow> 0 | q # _ \<Rightarrow> q)"
proof -
  have count: "processCount s + 1 \<noteq> 0"
  proof
    assume "processCount s + 1 = 0"
    then have "processCount s = - 1" by (simp add: eq_neg_iff_add_eq_0)
    with assms(4) show False by simp
  qed
  have "\<exists>s'. registerProcess p s = Done () s' \<and> processes s' (ps @ [p]) \<and>
    processCount s' = processCount s + 1 \<and>
    same_on (- next_cell p - (if ps = [] then {} else next_cell (last ps))) (mem s') (mem s)"
  proof (cases "ps = []")
    case True
    with assms(1,2) count show ?thesis
      by (simp add: registerProcess_def processes_def Let_def same_on_store_le)
  next
    case False
    let ?m = "store64 (store64 (mem s) (last ps + 16408) p) (p + 16408) 0"
    have ps: "chained 16408 (mem s) ps" "0 \<notin> set ps" "processHead s = hd ps" "processCount s \<noteq> 0"
      using assms(1) False by (auto simp: processes_def)
    have d: "next_cell (last ps) \<inter> next_cell p = {}"
      "\<And>q. q \<in> set ps \<Longrightarrow> next_cell q \<inter> next_cell p = {}"
      "\<And>q. q \<in> set (butlast ps) \<Longrightarrow> next_cell q \<inter> next_cell (last ps) = {}"
      using assms(3) False cells_apart_last [of ps] by (auto simp: cells_apart_append simp del: in_region)
    have "last_node 16408 (mem s) (hd ps) = Some (last ps)"
      by (rule last_node_chained [OF ps(1) False ps(2)])
    then have run: "registerProcess p s = Done () (s\<lparr>mem := ?m, processCount := processCount s + 1\<rparr>)"
      using ps(3,4) by (simp add: registerProcess_def Let_def)
    have "chained 16408 ?m (ps @ [p])"
    proof (rule chained_append [OF ps(1) False])
      fix q assume "q \<in> set (butlast ps)"
      then have "next_cell p \<inter> next_cell q = {}" "next_cell (last ps) \<inter> next_cell q = {}"
        using d(2) [OF in_set_butlastD] d(3) by blast+
      then show "load64 ?m (q + 16408) = load64 (mem s) (q + 16408)" by (simp add: load_store_disjoint)
    next
      have "next_cell p \<inter> next_cell (last ps) = {}" using d(1) by blast
      then show "load64 ?m (last ps + 16408) = p" by (simp add: load_store_disjoint)
    qed simp
    moreover have "same_on (- next_cell p - next_cell (last ps)) ?m (mem s)"
      by (rule same_on_trans [OF same_on_store_le same_on_store_le]) auto
    ultimately show ?thesis using False ps(2,3) assms(2) count by (simp add: run processes_def)
  qed
  then obtain s' where s': "registerProcess p s = Done () s'" "processes s' (ps @ [p])"
    "processCount s' = processCount s + 1"
    "same_on (- next_cell p - (if ps = [] then {} else next_cell (last ps))) (mem s') (mem s)" by blast
  moreover have "find_process ident (mem s') (processHead s') =
      Some (case filter (\<lambda>q. load64 (mem s') q = ident) (ps @ [p]) of [] \<Rightarrow> 0 | q # _ \<Rightarrow> q)"
    using s'(2) find_process_chained [of "mem s'" "ps @ [p]" ident] by (simp add: processes_def)
  ultimately show ?thesis by blast
qed

text \<open>A second process behind one with identifier 7 at 0x10000.\<close>

theorem registerProcess_appends_witness:
  "\<forall>z :: process_state. \<exists>s'. registerProcess 0x20000
      (z\<lparr>mem := store64 (\<lambda>_. 0) 0x10000 7, processHead := 0x10000, processCount := 1\<rparr>) = Done () s' \<and>
    processes s' [0x10000, 0x20000] \<and> find_process 7 (mem s') (processHead s') = Some 0x10000"
proof
  fix z :: process_state
  let ?s = "z\<lparr>mem := store64 (\<lambda>_. 0) 0x10000 7, processHead := 0x10000, processCount := 1\<rparr>"
  have "processes ?s [0x10000]" by (simp add: processes_def load_le_zero)
  moreover have "cells_apart ([0x10000] @ [0x20000])" by (simp add: region_disjoint)
  ultimately obtain s' where s': "registerProcess 0x20000 ?s = Done () s'"
    "processes s' ([0x10000] @ [0x20000])" "same_on (- next_cell 0x20000 - next_cell 0x10000) (mem s') (mem ?s)"
    "find_process 7 (mem s') (processHead s') = Some (case filter (\<lambda>q. load64 (mem s') q = 7)
      ([0x10000] @ [0x20000]) of [] \<Rightarrow> 0 | q # _ \<Rightarrow> q)"
    using registerProcess_appends [of ?s "[0x10000]" "0x20000" 7] by auto
  have "region (0x10000 :: ptr) 8 \<inter> next_cell 0x20000 = {}" "region (0x10000 :: ptr) 8 \<inter> next_cell 0x10000 = {}"
    by (rule region_disjoint; simp)+
  then have "load64 (mem s') 0x10000 = load64 (mem ?s) 0x10000"
    by (intro load_le_cong [OF same_on_subset [OF s'(3)]]) auto
  then have "find_process 7 (mem s') (processHead s') = Some 0x10000" using s'(4) by simp
  with s' show "\<exists>s'. registerProcess 0x20000 ?s = Done () s' \<and> processes s' [0x10000, 0x20000] \<and>
      find_process 7 (mem s') (processHead s') = Some 0x10000" by auto
qed

section \<open>Lookups of threads\<close>

lemma find_thread_stuck:
  assumes "n \<noteq> 0" "load64 m (info_of m n) \<noteq> ident"
  shows "find_thread ident m n = None"
proof -
  have "k = n \<longrightarrow> i = ident \<longrightarrow> w = m \<longrightarrow> False" if "find_thread i w k = Some t" for i w k t
  proof (rule find_thread.raw_induct [OF _ that], goal_cases)
    case (1 f i w k t)
    then show ?case using assms by (auto split: if_splits)
  qed
  then show ?thesis by (cases "find_thread ident m n") auto
qed

text \<open>
  \<open>getThreadInfo\<close> returns null for an empty list and the first thread when it has the identifier;
  for every other identifier it never returns, even if a later thread has it.
\<close>

theorem getThreadInfo_first_only:
  "getThreadInfo ident s =
    (if threadHead s = 0 then Done 0 s
     else if threadID (read_thread (mem s) (info_of (mem s) (threadHead s))) = ident
       then Done (info_of (mem s) (threadHead s)) s
     else Loops)"
proof (cases "threadHead s = 0 \<or> load64 (mem s) (info_of (mem s) (threadHead s)) = ident")
  case True
  then show ?thesis
    by (subst getThreadInfo_def, subst find_thread.simps) (auto simp: read_thread_def)
next
  case False
  then show ?thesis
    using find_thread_stuck [of "threadHead s" "mem s" ident] by (simp add: getThreadInfo_def read_thread_def)
qed

section \<open>Allocations that fail\<close>

text \<open>
  on a fresh heap \<open>setupProcessInfo\<close> gets the null pointer from \<open>mallocx\<close>, as a process structure
  needs more than four pages, does not notice it, and writes the process to address 0.
\<close>

theorem setupProcessInfo_at_null:
  assumes "heap_fresh b s"
  shows "setupProcessInfo s = Done 0 (s\<lparr>mem :=
    store64 (store32 (store64 (mem s) 0 (7 * processCount s)) 16400 1) 16408 0\<rparr>)"
proof -
  have "block_size sizeof_processInternal = 32768"
    by (simp add: block_size_def sizeof_processInternal_def sizeof_head_def MINIMUM_ALLOCATION_SIZE_def
        roundUpToNextPower2_def Let_def)
  then have "mallocx sizeof_processInternal s = Done 0 s"
    using mallocx_pool [OF assms, of sizeof_processInternal] by simp
  then show ?thesis by (simp add: setupProcessInfo_def Let_def)
qed

text \<open>The state that the kernel's first \<open>initNodes\<close> leaves, in a kernel that has counted two processes.\<close>

theorem setupProcessInfo_at_null_witness:
  "\<exists>s :: process_state. heap_fresh 0xFFFF800001000000 s \<and> processCount s = 2 \<and>
    setupProcessInfo s = Done 0 (s\<lparr>mem :=
      store64 (store32 (store64 (mem s) 0 14) 16400 1) 16408 0\<rparr>)"
proof -
  obtain t :: heap_state where t: "heap_fresh 0xFFFF800001000000 t" using heap_sample_fresh by blast
  define s :: process_state where "s = (undefined :: process_state)\<lparr>mem := mem t, heap_mutex := heap_mutex t, freeList := freeList t, processCount := 2\<rparr>"
  have "heap_fresh 0xFFFF800001000000 s" using t by (simp add: heap_fresh_def s_def)
  moreover have "processCount s = 2" by (simp add: s_def)
  ultimately show ?thesis using setupProcessInfo_at_null [of "0xFFFF800001000000" s] by auto
qed

end
