(* ===== verification/Scheduler.thy ===== *)
theory Scheduler
  imports Process "HOL-Library.Multiset"
begin

text \<open>
  The scheduler (\<open>kernel/scheduler/scheduler.cpp\<close>, \<open>contextSwitch.asm\<close>): sorting the list of threads by
  priority, and giving the processor to a thread. A context switch does not come back to its caller:
  the result of \<open>runThread\<close> says whether it returned or what registers the processor was loaded with.
\<close>

section \<open>Sorting by priority\<close>

abbreviation priority_of :: "memory \<Rightarrow> ptr \<Rightarrow> u32" where "priority_of m t \<equiv> load32 m (t + 192)"

definition swap_info :: "ptr \<Rightarrow> memory \<Rightarrow> memory" where
  "swap_info c m =
     (let temp = info_of m c;
          m = store64 m c (info_of m (list_next m c))
      in store64 m (list_next m c) temp)"

text \<open>The inner loop, from the node \<open>c\<close> on. It reads through the next pointer of the last node.\<close>

partial_function (option) sort_pass :: "ptr \<Rightarrow> bool \<Rightarrow> memory \<Rightarrow> (bool \<times> memory) option" where
  "sort_pass c swapped m =
     (if info_of m (list_next m c) \<noteq> 0 then
        (if priority_of m (info_of m c) < priority_of m (info_of m (list_next m c)) then
           (let m = swap_info c m in sort_pass (list_next m c) True m)
         else sort_pass (list_next m c) swapped m)
      else Some (swapped, m))"

partial_function (option) sort_loop :: "ptr \<Rightarrow> memory \<Rightarrow> memory option" where
  "sort_loop tList m =
     (case sort_pass tList False m of
        None \<Rightarrow> None
      | Some r \<Rightarrow> if fst r then sort_loop tList (snd r) else Some (snd r))"

definition prioritySort :: "ptr \<Rightarrow> 'a process_state_scheme \<Rightarrow> (ptr, 'a process_state_scheme) outcome" where
  "prioritySort tList s =
     (if tList = 0 \<or> list_next (mem s) tList = 0 then Done tList s
      else of_loop (sort_loop tList (mem s)) (\<lambda>m. Done tList (s\<lparr>mem := m\<rparr>)))"

section \<open>Running a thread\<close>

datatype switch_result = Returned | Switched cpuRegs

text \<open>
  \<open>contextSwitch\<close> sets the stack pointer to the register set and pops all of it: the general registers,
  then, past \<open>core\<close>, \<open>int_no\<close> and \<open>err\<close>, what \<open>iretq\<close> takes.
\<close>

definition contextSwitch :: "ptr \<Rightarrow> 'a process_state_scheme \<Rightarrow> (switch_result, 'a process_state_scheme) outcome" where
  "contextSwitch regs s = Done (Switched (read_regs (mem s) regs)) s"

definition lock_thread :: "ptr \<Rightarrow> 'a process_state_scheme \<Rightarrow> (unit, 'a process_state_scheme) outcome" where
  "lock_thread t s =
     acquire (\<lambda>s. load32 (mem s) (t + 248)) (\<lambda>l s. s\<lparr>mem := store32 (mem s) (t + 248) l\<rparr>) s"

definition unlock_thread :: "ptr \<Rightarrow> 'a process_state_scheme \<Rightarrow> 'a process_state_scheme" where
  "unlock_thread t s =
     release (\<lambda>s. load32 (mem s) (t + 248)) (\<lambda>l s. s\<lparr>mem := store32 (mem s) (t + 248) l\<rparr>) s"

text \<open>
  From the lock to the switch; \<open>wrapper\<close> is the address of \<open>schedulerWrapper\<close>. What follows the switch
  in the code is never reached.
\<close>

definition switch_to_running ::
    "u64 \<Rightarrow> ptr \<Rightarrow> 'a process_state_scheme \<Rightarrow> (switch_result, 'a process_state_scheme) outcome" where
  "switch_to_running wrapper regs s =
     obind (lock_thread (runningThread s) s) (\<lambda>_ s.
       let t = runningThread s;
           s = setCr3 (load64 (mem s) (load64 (mem s) (t + 240) + 8)) s;
           m = store32 (mem s) (t + 232) (state_code THREAD_RUNNING);
           m = store64 m (t + 8 + 72) (load64 m (t + 224));
           m = store64 m (t + 8 + 144) wrapper;
           m = write_regs regs (read_regs m (t + 8)) m
       in contextSwitch (t + 8) (s\<lparr>mem := m\<rparr>))"

text \<open>
  When there is no next thread the routine calls itself, now with no running thread, and goes on
  after the call should it return.
\<close>

function (sequential) runThread ::
    "u64 \<Rightarrow> ptr \<Rightarrow> 'a process_state_scheme \<Rightarrow> (switch_result, 'a process_state_scheme) outcome" where
  "runThread wrapper regs s =
     (let s = sti s in
      if processHead s = 0 \<or> threadHead s = 0 \<or> info_of (mem s) (threadHead s) = 0 \<or> threadCount s = 0 then
        Done Returned s
      else if runningThread s = 0 then
        switch_to_running wrapper regs (s\<lparr>runningThread := info_of (mem s) (threadHead s)\<rparr>)
      else
        (let t = runningThread s;
             m = write_regs (t + 8) (read_regs (mem s) regs) (mem s);
             m = store32 m (t + 232) (state_code THREAD_READY);
             s = s\<lparr>mem := m\<rparr>;
             s = s\<lparr>runningThread := getNextThread t s\<rparr>
         in if runningThread s = 0 then
              obind (runThread wrapper regs s) (\<lambda>r s.
                case r of Switched f \<Rightarrow> Done (Switched f) s | Returned \<Rightarrow> switch_to_running wrapper regs s)
            else switch_to_running wrapper regs s))"
  by pat_completeness auto

termination
  by (relation "measure (\<lambda>(w, r, s). if runningThread s = 0 then 0 else 1)") (auto simp: sti_def)

declare runThread.simps [simp del]

text \<open>\<open>schedulerWrapper\<close> runs the routine it is given (\<open>call\<close>) and looks for another thread.\<close>

definition schedulerWrapper ::
    "(u64 \<Rightarrow> 'a process_state_scheme \<Rightarrow> (unit, 'a process_state_scheme) outcome) \<Rightarrow> u64 \<Rightarrow> u64 \<Rightarrow>
     'a process_state_scheme \<Rightarrow> (switch_result, 'a process_state_scheme) outcome" where
  "schedulerWrapper call wrapper func s =
     obind (call func s) (\<lambda>_ s.
       let s = s\<lparr>mem := store32 (mem s) (runningThread s + 232) (state_code THREAD_SUSPENDED)\<rparr>;
           s = unlock_thread (runningThread s) s;
           s = release lockx (\<lambda>l s. s\<lparr>lockx := l\<rparr>) s;
           s = s\<lparr>threadCount := threadCount s - 1\<rparr>;
           s = sti s;
           nxt = getNextThread (runningThread s) s
       in obind (runThread wrapper (nxt + 8) s) (\<lambda>r s.
          case r of Switched f \<Rightarrow> Done (Switched f) s | Returned \<Rightarrow> Loops))"

definition getProcessorCount :: "'a process_state_scheme \<Rightarrow> u32" where
  "getProcessorCount s = cpusStarted s"

text \<open>On the codes of the priorities, which need not be one of the three.\<close>

definition getQuanta :: "u32 \<Rightarrow> u32" where
  "getQuanta p =
     (if p = priority_code PRIORITY_HIGH then 8
      else if p = priority_code PRIORITY_MEDIUM then 6
      else if p = priority_code PRIORITY_LOW then 3
      else 3)"

definition changePriority :: "u32 \<Rightarrow> u32" where
  "changePriority p =
     (if p = priority_code PRIORITY_HIGH then priority_code PRIORITY_LOW
      else if p = priority_code PRIORITY_LOW then priority_code PRIORITY_MEDIUM
      else if p = priority_code PRIORITY_MEDIUM then priority_code PRIORITY_HIGH
      else priority_code PRIORITY_LOW)"

section \<open>Thread lists\<close>

text \<open>
  The nodes \<open>ns\<close> of a list, linked through their next pointers and holding the threads \<open>ts\<close>. Nodes do
  not overlap each other, the null page's first word or the threads' priorities.
\<close>

fun linked :: "memory \<Rightarrow> ptr list \<Rightarrow> bool" where
  "linked m [] \<longleftrightarrow> True"
| "linked m [n] \<longleftrightarrow> list_next m n = 0"
| "linked m (n # n' # ns) \<longleftrightarrow> list_next m n = n' \<and> linked m (n' # ns)"

abbreviation node_bytes :: "ptr \<Rightarrow> ptr set" where "node_bytes n \<equiv> region n 16"

fun apart :: "ptr list \<Rightarrow> bool" where
  "apart [] \<longleftrightarrow> True"
| "apart (n # ns) \<longleftrightarrow> (\<forall>k \<in> set ns. node_bytes n \<inter> node_bytes k = {}) \<and> apart ns"

definition thread_list :: "memory \<Rightarrow> ptr list \<Rightarrow> ptr list \<Rightarrow> bool" where
  "thread_list m ns ts \<longleftrightarrow> linked m ns \<and> map (info_of m) ns = ts \<and> 0 \<notin> set ns \<and> 0 \<notin> set ts"

text \<open>The nodes lie apart from each other, from the null page's first word and from the priorities of \<open>T\<close>.\<close>

definition list_place :: "ptr set \<Rightarrow> ptr list \<Rightarrow> bool" where
  "list_place T ns \<longleftrightarrow> apart ns \<and> (\<forall>n \<in> set ns. node_bytes n \<inter> region 0 8 = {} \<and>
     (\<forall>t \<in> T. node_bytes n \<inter> region (t + 192) 4 = {}))"

abbreviation nodes_bytes :: "ptr list \<Rightarrow> ptr set" where
  "nodes_bytes ns \<equiv> \<Union>n \<in> set ns. node_bytes n"

section \<open>The pass on lists\<close>

fun bubble :: "('t \<Rightarrow> 'k::linorder) \<Rightarrow> 't list \<Rightarrow> bool \<times> 't list" where
  "bubble p (x # y # r) =
     (if p x < p y then (True, y # snd (bubble p (x # r)))
      else (fst (bubble p (y # r)), x # snd (bubble p (y # r))))"
| "bubble p l = (False, l)"

lemma bubble_mset [simp]: "mset (snd (bubble p l)) = mset l"
  by (induction p l rule: bubble.induct) auto

lemma bubble_set [simp]: "set (snd (bubble p l)) = set l"
  using bubble_mset by (rule mset_eq_setD)

lemma bubble_stable: "filter (\<lambda>x. p x = k) (snd (bubble p l)) = filter (\<lambda>x. p x = k) l"
  by (induction p l rule: bubble.induct) auto

lemma bubble_done: "\<not> fst (bubble p l) \<Longrightarrow> snd (bubble p l) = l \<and> sorted_wrt (\<lambda>x y. p y \<le> p x) l"
proof (induction p l rule: bubble.induct)
  case (1 p x y r)
  then have le: "\<not> p x < p y" by (auto split: if_splits)
  with 1 have "snd (bubble p (y # r)) = y # r \<and> sorted_wrt (\<lambda>x y. p y \<le> p x) (y # r)" by simp
  with le show ?case by (auto simp: not_less intro: order_trans)
qed simp_all

text \<open>Every exchange makes the sum of position times key smaller.\<close>

fun position_sum :: "('t \<Rightarrow> nat) \<Rightarrow> 't list \<Rightarrow> nat" where
  "position_sum p [] = 0"
| "position_sum p (x # l) = sum_list (map p l) + position_sum p l"

lemma bubble_sum_list [simp]:
  fixes w :: "'t \<Rightarrow> nat"
  shows "sum_list (map w (snd (bubble p l))) = sum_list (map w l)"
  using bubble_mset [of p l] by (metis mset_map sum_mset_sum_list)

lemma bubble_position_sum:
  fixes w :: "'t \<Rightarrow> nat"
  assumes "\<And>x y. p x < p y \<Longrightarrow> w x < w y"
  shows "position_sum w (snd (bubble p l)) + (if fst (bubble p l) then 1 else 0) \<le> position_sum w l"
  using assms
proof (induction p l rule: bubble.induct)
  case (1 p x y r)
  show ?case
  proof (cases "p x < p y")
    case True
    then have "w x < w y" by (rule "1.prems")
    with True show ?thesis using "1.IH"(1) [OF True "1.prems"] by (simp split: if_splits)
  next
    case False
    then show ?thesis using "1.IH"(2) "1.prems" by auto
  qed
qed simp_all

definition by_priority :: "('t \<Rightarrow> u32) \<Rightarrow> 't list \<Rightarrow> 't list" where
  "by_priority p = sort_key (\<lambda>t. - uint (p t))"

lemma by_priority_bubble: "by_priority p (snd (bubble p l)) = by_priority p l"
  unfolding by_priority_def
proof (rule properties_for_sort_key [symmetric])
  show "filter (\<lambda>x. - uint (p k) = - uint (p x)) (sort_key (\<lambda>t. - uint (p t)) (snd (bubble p l))) =
      filter (\<lambda>x. - uint (p k) = - uint (p x)) l" for k
    using sort_key_stable [of "\<lambda>t. - uint (p t)" "- uint (p k)" "snd (bubble p l)"]
      bubble_stable [of p "p k" l] by (simp add: eq_commute word_uint_eq_iff)
qed simp_all

lemma by_priority_done:
  assumes "\<not> fst (bubble p l)"
  shows "by_priority p l = l"
  unfolding by_priority_def
proof (rule sort_key_id_if_sorted)
  show "sorted (map (\<lambda>t. - uint (p t)) l)"
    using bubble_done [OF assms] by (simp add: sorted_wrt_map word_le_def)
qed

section \<open>The routine on thread lists\<close>

lemma node_words [simp]:
  "region n 8 \<subseteq> node_bytes n" "region (n + 8) 8 \<subseteq> node_bytes n"
  by (rule region_subset; simp)+

lemma load_same_on:
  assumes "same_on R m m'" "region a k \<subseteq> R" "k \<le> 8"
  shows "load_le k m a = (load_le k m' a :: 'w::len word)"
  by (rule load_le_cong) (use assms in \<open>auto intro: same_on_subset\<close>)

lemma swap_info_eq:
  assumes "list_next m n = k" "node_bytes n \<inter> node_bytes k = {}"
  shows "info_of (swap_info n m) n = info_of m k" "info_of (swap_info n m) k = info_of m n"
    "same_on (- region n 8 - region k 8) (swap_info n m) m"
proof -
  have d: "region n 8 \<inter> region k 8 = {}" "region n 8 \<inter> region (n + 8) 8 = {}"
    using assms(2) node_words [of n] node_words [of k] by (blast, intro region_disjoint) simp_all
  have 1: "list_next (store64 m n v) n = k" for v
    using assms(1) d(2) by (simp add: load_store_disjoint)
  have 2: "swap_info n m = store64 (store64 m n (info_of m k)) k (info_of m n)"
    by (simp add: swap_info_def Let_def 1 assms(1))
  show "info_of (swap_info n m) n = info_of m k"
    unfolding 2 by (subst load_store_disjoint) (use d(1) in auto)
  show "info_of (swap_info n m) k = info_of m n"
    unfolding 2 by simp
  show "same_on (- region n 8 - region k 8) (swap_info n m) m"
    unfolding 2 by (auto simp: same_on_def store_le_apply)
qed


lemma list_place_parts:
  assumes "list_place T ns" "n \<in> set ns"
  shows "node_bytes n \<inter> region 0 8 = {}" "t \<in> T \<Longrightarrow> node_bytes n \<inter> region (t + 192) 4 = {}"
  using assms by (auto simp: list_place_def)

lemma sort_pass_bubble:
  assumes "thread_list m ns ts" "ns \<noteq> []" "list_place T ns" "set ts \<subseteq> T" "info_of m 0 = 0"
    "\<forall>t \<in> T. priority_of m t = p t"
  shows "\<exists>m'. sort_pass (hd ns) swapped m = Some (swapped \<or> fst (bubble p ts), m') \<and>
    thread_list m' ns (snd (bubble p ts)) \<and> same_on (- nodes_bytes ns) m' m"
  using assms
proof (induction ns arbitrary: m ts swapped)
  case Nil
  then show ?case by simp
next
  case (Cons n ns)
  show ?case
  proof (cases ns)
    case Nil
    with Cons.prems show ?thesis
      by (subst sort_pass.simps) (auto simp: thread_list_def)
  next
    case ns: (Cons k r)
    obtain x y us where ts: "ts = x # y # us" and us: "us = map (info_of m) r"
      using Cons.prems(1) ns by (auto simp: thread_list_def)
    have nk: "list_next m n = k" "info_of m n = x" "info_of m k = y" "y \<noteq> 0"
      using Cons.prems(1) by (auto simp: thread_list_def ts ns)
    have d: "node_bytes n \<inter> node_bytes j = {}" if "j \<in> set ns" for j
      using Cons.prems(3) that by (auto simp: list_place_def)
    have place: "list_place T ns" using Cons.prems(3) by (auto simp: list_place_def)
    have p: "p x = priority_of m x" "p y = priority_of m y"
      using Cons.prems(4,6) by (auto simp: ts)
    define m1 where "m1 = (if p x < p y then swap_info n m else m)"
    define v where "v = (if p x < p y then x else y)"
    define u where "u = (if p x < p y then y else x)"
    have m1: "info_of m1 n = u" "info_of m1 k = v" "same_on (- region n 8 - region k 8) m1 m"
      using swap_info_eq [OF nk(1) d] nk by (auto simp: m1_def u_def v_def ns)
    have keep: "load64 m1 a = load64 m a" if "region a 8 \<subseteq> - region n 8 - region k 8" for a
      by (rule load_same_on [OF m1(3) that]) simp
    have "region (j + 8) 8 \<inter> region j 8 = {}" for j :: ptr
      by (rule region_disjoint) simp_all
    note word = this
    have links: "list_next m1 j = list_next m j" if "j \<in> set (n # ns)" for j
    proof (rule keep)
      have "region (j + 8) 8 \<inter> region i 8 = {}" if "i \<in> {n, k}" for i
      proof (cases "i = j")
        case True then show ?thesis using word by simp
      next
        case False
        then have "node_bytes i \<inter> node_bytes j = {}"
          using that \<open>j \<in> set (n # ns)\<close> d [of k] d [of j] place by (auto simp: ns list_place_def)
        then show ?thesis using node_words [of i] node_words [of j] by blast
      qed
      then show "region (j + 8) 8 \<subseteq> - region n 8 - region k 8" by blast
    qed
    have links_eq: "linked m1 l = linked m l" if "set l \<subseteq> set (n # ns)" for l
      using that links by (induction m l rule: linked.induct) auto
    have infos: "info_of m1 j = info_of m j" if "j \<in> set r" for j
    proof (rule keep)
      have "node_bytes n \<inter> node_bytes j = {}" "node_bytes k \<inter> node_bytes j = {}"
        using d place that by (auto simp: ns list_place_def)
      then show "region j 8 \<subseteq> - region n 8 - region k 8"
        using node_words [of n] node_words [of k] node_words [of j] by blast
    qed
    have tl: "thread_list m1 ns (v # us)"
      using Cons.prems(1) links_eq [of ns] m1 infos
      by (auto simp: thread_list_def ns us ts v_def)
    have null: "info_of m1 0 = 0"
    proof -
      have "region 0 8 \<subseteq> - region n 8 - region k 8"
        using list_place_parts(1) [OF Cons.prems(3)] node_words [of n] node_words [of k]
        by (fastforce simp: ns)
      from keep [OF this] show ?thesis using Cons.prems(5) by simp
    qed
    have prio: "priority_of m1 t = p t" if "t \<in> T" for t
    proof -
      have "region (t + 192) 4 \<subseteq> - region n 8 - region k 8"
        using list_place_parts(2) [OF Cons.prems(3) _ that] node_words [of n] node_words [of k]
        by (fastforce simp: ns)
      from load_same_on [OF m1(3) this, where 'w = 32] show ?thesis using Cons.prems(6) that by simp
    qed
    obtain m' where m': "sort_pass k (swapped \<or> p x < p y) m1 =
        Some ((swapped \<or> p x < p y) \<or> fst (bubble p (v # us)), m')"
      "thread_list m' ns (snd (bubble p (v # us)))" "same_on (- nodes_bytes ns) m' m1"
    proof -
      have "set (v # us) \<subseteq> T" using Cons.prems(4) by (simp add: ts v_def)
      from Cons.IH [OF tl _ place this null, of "swapped \<or> p x < p y"] prio that
      show ?thesis by (simp add: ns disj_assoc) blast
    qed
    have b: "bubble p ts = (p x < p y \<or> fst (bubble p (v # us)), u # snd (bubble p (v # us)))"
      by (simp add: ts u_def v_def)
    have "list_next (swap_info n m) n = k" if "p x < p y"
      using links [of n] nk(1) that by (simp add: m1_def)
    then have "sort_pass n swapped m = sort_pass k (swapped \<or> p x < p y) m1"
      using nk p by (subst sort_pass.simps) (simp add: m1_def Let_def)
    then have run: "sort_pass (hd (n # ns)) swapped m = Some (swapped \<or> fst (bubble p ts), m')"
      using m'(1) by (simp add: b disj_assoc)
    have out: "node_bytes n \<inter> nodes_bytes ns = {}" using d by blast
    then have sub: "region (n + 8) 8 \<subseteq> - nodes_bytes ns" "region n 8 \<subseteq> - nodes_bytes ns"
      using node_words [of n] by blast+
    have "list_next m' n = k" "info_of m' n = u"
      using links [of n] nk(1) m1(1) load_same_on [OF m'(3) sub(1), where 'w = 64]
        load_same_on [OF m'(3) sub(2), where 'w = 64] by simp_all
    moreover have "u \<noteq> 0" "n \<noteq> 0" using Cons.prems(1) by (auto simp: u_def thread_list_def ts)
    ultimately have "thread_list m' (n # ns) (snd (bubble p ts))"
      using m'(2) by (auto simp: thread_list_def ns b)
    moreover have "same_on (- nodes_bytes (n # ns)) m' m"
    proof -
      have "same_on (- nodes_bytes (n # ns)) m' m1" by (rule same_on_subset [OF m'(3)]) auto
      moreover have "same_on (- nodes_bytes (n # ns)) m1 m"
        using node_words [of n] node_words [of k] by (intro same_on_subset [OF m1(3)]) (auto simp: ns)
      ultimately show ?thesis by (rule same_on_trans)
    qed
    ultimately show ?thesis using run by blast
  qed
qed

lemma sort_loop_sorts:
  assumes "thread_list m ns ts" "ns \<noteq> []" "list_place T ns" "set ts \<subseteq> T" "info_of m 0 = 0"
    "\<forall>t \<in> T. priority_of m t = p t"
  shows "\<exists>m'. sort_loop (hd ns) m = Some m' \<and> thread_list m' ns (by_priority p ts) \<and>
    same_on (- nodes_bytes ns) m' m"
  using assms
proof (induction "position_sum (\<lambda>t. unat (p t)) ts" arbitrary: m ts rule: less_induct)
  case less
  obtain m1 where m1: "sort_pass (hd ns) False m = Some (fst (bubble p ts), m1)"
    "thread_list m1 ns (snd (bubble p ts))" "same_on (- nodes_bytes ns) m1 m"
    using sort_pass_bubble [OF less.prems, of False] by auto
  show ?case
  proof (cases "fst (bubble p ts)")
    case False
    then show ?thesis
      using m1 bubble_done [OF False] by (subst sort_loop.simps) (simp add: by_priority_done)
  next
    case True
    have null: "info_of m1 0 = 0"
      using less.prems(3,5) load_same_on [OF m1(3), of 0 8, where 'w = 64] by (fastforce simp: list_place_def)
    have prio: "\<forall>t \<in> T. priority_of m1 t = p t"
      using less.prems(3,6) load_same_on [OF m1(3), of _ 4, where 'w = 32] by (fastforce simp: list_place_def)
    have "position_sum (\<lambda>t. unat (p t)) (snd (bubble p ts)) < position_sum (\<lambda>t. unat (p t)) ts"
      using bubble_position_sum [of p "\<lambda>t. unat (p t)" ts] True by (simp add: word_less_nat_alt)
    from less.hyps [OF this m1(2) less.prems(2,3) _ null prio]
    obtain m2 where "sort_loop (hd ns) m1 = Some m2"
      "thread_list m2 ns (by_priority p ts)" "same_on (- nodes_bytes ns) m2 m1"
      using less.prems(4) by (auto simp: by_priority_bubble)
    moreover have "sort_loop (hd ns) m = sort_loop (hd ns) m1"
      using m1(1) True by (subst sort_loop.simps) simp
    ultimately show ?thesis using same_on_trans [OF _ m1(3)] by auto
  qed
qed


section \<open>The sorted list\<close>

text \<open>
  C6: on a list of threads, \<open>prioritySort\<close> ends, and the list then holds the same threads stably sorted by
  falling priority; it writes nothing but the thread pointers in the nodes. The nodes must lie apart from
  each other, from the word at address 0 and from the threads' priorities, and that word must be zero: at the end of every
  list of two or more nodes the code follows the last node's null pointer and reads its \<open>threadInfo\<close> (\<open>scheduler.cpp\<close>, line 18),
  and the pass ends only because it finds zero there. As \<open>initPaging\<close> maps page 0, that is an ordinary read.
\<close>

theorem prioritySort_sorts:
  assumes "thread_list (mem s) ns ts" "ns \<noteq> []" "list_place (set ts) ns" "info_of (mem s) 0 = 0"
  shows "\<exists>m'. prioritySort (hd ns) s = Done (hd ns) (s\<lparr>mem := m'\<rparr>) \<and>
    thread_list m' ns (sort_key (\<lambda>t. - uint (priority_of (mem s) t)) ts) \<and>
    same_on (- nodes_bytes ns) m' (mem s)"
proof (cases "list_next (mem s) (hd ns) = 0")
  case True
  obtain n r where ns: "ns = n # r" using assms(2) by (cases ns) auto
  then have "r = []" using assms(1) True by (cases r) (auto simp: thread_list_def)
  moreover have "prioritySort (hd ns) s = Done (hd ns) (s\<lparr>mem := mem s\<rparr>)"
    using True by (simp add: prioritySort_def)
  ultimately show ?thesis using assms(1) ns by (intro exI [of _ "mem s"]) (auto simp: thread_list_def)
next
  case False
  have "hd ns \<noteq> 0" using assms(1,2) hd_in_set by (metis thread_list_def)
  moreover obtain m' where "sort_loop (hd ns) (mem s) = Some m'"
    "thread_list m' ns (by_priority (priority_of (mem s)) ts)" "same_on (- nodes_bytes ns) m' (mem s)"
    using sort_loop_sorts [OF assms(1-3) subset_refl assms(4), of "priority_of (mem s)"] by auto
  ultimately show ?thesis using False
    by (intro exI [of _ m']) (simp add: prioritySort_def by_priority_def)
qed

text \<open>Three nodes from 4096 on with the threads at 65536, 131072 and 196608, of priorities 0, 2 and 1.\<close>

definition sort_sample :: memory where
  "sort_sample =
     (let m = store64 (store64 (\<lambda>_. 0) 4096 65536) 4104 8192;
          m = store64 (store64 m 8192 131072) 8200 12288;
          m = store64 m 12288 196608;
          m = store32 m (131072 + 192) 2
      in store32 m (196608 + 192) 1)"

lemma sort_sample_loads:
  "info_of sort_sample 4096 = 65536" "info_of sort_sample 8192 = 131072" "info_of sort_sample 12288 = 196608"
  "info_of sort_sample 4104 = 8192" "info_of sort_sample 8200 = 12288" "info_of sort_sample 12296 = 0"
  "info_of sort_sample 0 = 0" "load32 sort_sample 65728 = 0" "load32 sort_sample 131264 = 2"
  "load32 sort_sample 196800 = 1"
  by (simp_all add: sort_sample_def Let_def load_le_zero)

lemma prioritySort_sorts_witness:
  "\<forall>s :: process_state. \<exists>m'. prioritySort 4096 (s\<lparr>mem := sort_sample\<rparr>) = Done 4096 (s\<lparr>mem := m'\<rparr>) \<and>
     thread_list m' [4096, 8192, 12288] [131072, 196608, 65536]"
proof
  fix z :: process_state
  let ?s = "z\<lparr>mem := sort_sample\<rparr>"
  have "thread_list (mem ?s) [4096, 8192, 12288] [65536, 131072, 196608]"
    by (simp add: thread_list_def sort_sample_loads)
  moreover have "list_place (set [65536, 131072, 196608]) [4096, 8192, 12288]"
    by (simp add: list_place_def region_disjoint)
  moreover have "info_of (mem ?s) 0 = 0" by (simp add: sort_sample_loads)
  ultimately show "\<exists>m'. prioritySort 4096 ?s = Done 4096 (z\<lparr>mem := m'\<rparr>) \<and>
      thread_list m' [4096, 8192, 12288] [131072, 196608, 65536]"
    using prioritySort_sorts [of ?s "[4096, 8192, 12288]" "[65536, 131072, 196608]"]
    by (auto simp: sort_sample_loads sort_key_simps)
qed

end
