(* ===== verification/Dispatch.thy ===== *)
theory Dispatch
  imports Scheduler
begin

text \<open>
  What the scheduler does: which thread comes next, what \<open>runThread\<close> saves and loads, and why a thread
  that was interrupted is never resumed.
\<close>

section \<open>The next thread\<close>

lemma linked_nth:
  assumes "linked m ns" "Suc i < length ns"
  shows "list_next m (ns ! i) = ns ! Suc i"
  using assms
proof (induction m ns arbitrary: i rule: linked.induct)
  case (3 m n n' ns)
  then show ?case by (cases i) auto
qed simp_all

text \<open>
  The second thread follows the first (and all with its identifier); the third follows all others. Where there is no such
  thread, the code reads the pointer to the thread at address 0.
\<close>

definition has_next :: "memory \<Rightarrow> ptr list \<Rightarrow> ptr \<Rightarrow> bool" where
  "has_next m ts t \<longleftrightarrow> 3 \<le> length ts \<or> 2 \<le> length ts \<and> load64 m t = load64 m (ts ! 0)"

lemma getNextThread_list:
  assumes "thread_list (mem s) ns ts" "has_next (mem s) ts t" "threadHead s = hd ns"
  shows "getNextThread t s = (if load64 (mem s) t = load64 (mem s) (ts ! 0) then ts ! 1 else ts ! 2)"
proof -
  have len: "length ns = length ts" and map: "map (info_of (mem s)) ns = ts"
    using assms(1) by (auto simp: thread_list_def)
  then have ne: "ns \<noteq> []" and two: "ts \<noteq> []" "Suc 0 < length ts"
    using assms(2) by (auto simp: has_next_def)
  have info: "info_of (mem s) (ns ! i) = ts ! i" if "i < length ts" for i
    using map len that by (metis nth_map)
  have nxt: "list_next (mem s) (ns ! i) = ns ! Suc i" if "Suc i < length ts" for i
    using linked_nth [of "mem s" ns i] assms(1) that len by (simp add: thread_list_def)
  have h: "threadHead s = ns ! 0" "threadHead s \<noteq> 0"
    using assms(1,3) hd_in_set [OF ne] ne by (metis hd_conv_nth) (metis assms(1,3) hd_in_set ne thread_list_def)
  have *: "list_next (mem s) (ns ! 0) = ns ! 1" "info_of (mem s) (ns ! 0) = ts ! 0" "info_of (mem s) (ns ! 1) = ts ! 1"
    using nxt [of 0] info [of 0] info [of 1] two by simp_all
  have third: "list_next (mem s) (ns ! 1) = ns ! 2" "info_of (mem s) (ns ! 2) = ts ! 2" if "3 \<le> length ts"
    using nxt [of 1] info [of 2] that by (simp_all add: numeral_2_eq_2)
  show ?thesis using h assms(2) third
    by (auto simp: getNextThread_def getThreadList_def has_next_def Let_def * simp del: One_nat_def)
qed

lemma linked_last:
  assumes "linked m ns" "ns \<noteq> []"
  shows "list_next m (last ns) = 0"
  using assms by (induction m ns rule: linked.induct) auto

lemma getNextThread_null:
  assumes "thread_list (mem s) ns ts" "\<not> has_next (mem s) ts t" "threadHead s = hd ns" "t \<in> set ts"
  shows "getNextThread t s = info_of (mem s) 0"
proof -
  have len: "length ns = length ts" and map: "map (info_of (mem s)) ns = ts" and ne: "ns \<noteq> []"
    using assms(1,4) by (auto simp: thread_list_def)
  have nz: "threadHead s \<noteq> 0" using assms(1,3) ne by (metis hd_in_set thread_list_def)
  have lt: "length ts = 1 \<or> length ts = 2 \<and> load64 (mem s) t \<noteq> load64 (mem s) (ts ! 0)"
    using assms(2) length_pos_if_in_set [OF assms(4)] unfolding has_next_def
    by (cases "load64 (mem s) t = load64 (mem s) (ts ! 0)") linarith+
  have link: "linked (mem s) ns" using assms(1) by (simp add: thread_list_def)
  show ?thesis
  proof (cases "length ts = 1")
    case True
    then obtain n where n: "ns = [n]" using len by (cases ns) auto
    then have "t = info_of (mem s) n" "list_next (mem s) n = 0" using map assms(4) link by auto
    then show ?thesis using n nz assms(3) by (simp add: getNextThread_def getThreadList_def Let_def)
  next
    case False
    with lt have two: "length ts = 2" "load64 (mem s) t \<noteq> load64 (mem s) (ts ! 0)" by auto
    then obtain n k where n: "ns = [n, k]" using len by (cases ns; cases "tl ns") auto
    then have "ts ! 0 = info_of (mem s) n" "list_next (mem s) n = k" "list_next (mem s) k = 0" using map link by auto
    then show ?thesis using n nz assms(3) two(2) by (simp add: getNextThread_def getThreadList_def Let_def)
  qed
qed

section \<open>Register sets and thread structures\<close>

lemma region_part: "unat d + k \<le> n \<Longrightarrow> n \<le> 256 \<Longrightarrow> region (a + d) k \<subseteq> region a n"
  by (rule region_subset) simp_all

lemma reg_word: "i < 23 \<Longrightarrow> region (a + of_nat (i * 8)) 8 \<subseteq> region a 184"
  by (rule region_part) (simp_all add: unat64_of_nat del: of_nat_mult)

lemma write_regs_outside:
  assumes "region a 184 \<inter> R = {}"
  shows "same_on R (write_regs a r m) m"
  unfolding write_regs_def
proof (rule cell64.fold_outside)
  show "region (a + of_nat (i * 8)) 8 \<inter> R = {}" if "i \<in> set [0..<23]" for i
    using reg_word [of i a] assms that by auto
qed

lemma read_regs_same_on:
  assumes "same_on R m m'" "region a 184 \<subseteq> R"
  shows "read_regs m a = read_regs m' a"
  unfolding read_regs_def
  by (rule regs_of_cong, rule load_same_on [OF assms(1)]) (use reg_word [of _ a] assms(2) in \<open>auto\<close>)

lemma read_regs_rdi: "read_regs (store64 m (a + 72) v) a = (read_regs m a)\<lparr>rdi := v\<rparr>"
  by (simp add: read_regs_def regs_of_def)

lemma read_regs_rip: "read_regs (store64 m (a + 144) v) a = (read_regs m a)\<lparr>rip := v\<rparr>"
  by (simp add: read_regs_def regs_of_def)

abbreviation thread_bytes :: "ptr \<Rightarrow> ptr set" where "thread_bytes t \<equiv> region t 256"
abbreviation parent_root :: "memory \<Rightarrow> ptr \<Rightarrow> ptr" where "parent_root m t \<equiv> load64 m (load64 m (t + 240) + 8)"


section \<open>A switch\<close>

definition following :: "memory \<Rightarrow> ptr list \<Rightarrow> ptr \<Rightarrow> ptr" where
  "following m ts t = (if load64 m t = load64 m (ts ! 0) then ts ! 1 else ts ! 2)"

text \<open>
  A system with threads, one of them running, and the interrupt's register frame at \<open>regs\<close>: threads,
  nodes, frame and the processes' table pointers lie apart.
\<close>

definition sched_ok :: "'a process_state_scheme \<Rightarrow> ptr list \<Rightarrow> ptr list \<Rightarrow> ptr \<Rightarrow> bool" where
  "sched_ok s ns ts regs \<longleftrightarrow> thread_list (mem s) ns ts \<and> threadHead s = hd ns \<and>
     processHead s \<noteq> 0 \<and> threadCount s \<noteq> 0 \<and> runningThread s \<in> set ts \<and>
     (\<forall>t \<in> set ts. region regs 184 \<inter> thread_bytes t = {} \<and>
       (\<forall>n \<in> set ns. node_bytes n \<inter> thread_bytes t = {}) \<and>
       (\<forall>u \<in> set ts. (t = u \<or> thread_bytes t \<inter> thread_bytes u = {}) \<and>
          thread_bytes t \<inter> region (load64 (mem s) (u + 240) + 8) 8 = {}))"

text \<open>What saving the registers of \<open>t\<close> writes.\<close>

abbreviation saved_bytes :: "ptr \<Rightarrow> ptr set" where
  "saved_bytes t \<equiv> region (t + 8) 184 \<union> region (t + 232) 4"

abbreviation saved :: "ptr \<Rightarrow> cpuRegs \<Rightarrow> memory \<Rightarrow> memory" where
  "saved t f m \<equiv> store32 (write_regs (t + 8) f m) (t + 232) (state_code THREAD_READY)"

lemma saved_subset: "saved_bytes t \<subseteq> thread_bytes t"
  using region_part [of 8 184 256 t] region_part [of 232 4 256 t] by simp

lemma same_on_saved: "same_on (- saved_bytes t) (saved t f m) m"
proof (rule same_on_trans)
  show "same_on (- saved_bytes t) (saved t f m) (write_regs (t + 8) f m)"
    by (rule same_on_store_le) auto
  show "same_on (- saved_bytes t) (write_regs (t + 8) f m) m"
    by (rule write_regs_outside) auto
qed

lemma saved_regs: "read_regs (saved t f m) (t + 8) = f"
proof -
  have "read_regs (saved t f m) (t + 8) = read_regs (write_regs (t + 8) f m) (t + 8)"
    by (rule read_regs_same_on [OF same_on_store_le subset_refl]) (rule region_disjoint; simp)
  then show ?thesis by (simp add: read_write_regs)
qed

lemma field_unsaved:
  assumes "sched_ok s ns ts regs" "t \<in> set ts" "u \<in> set ts" "(d, k) \<in> {(0, 8), (224, 8), (240, 8), (248, 4)}"
  shows "region (u + d) k \<subseteq> - saved_bytes t"
proof (cases "u = t")
  case True
  have "d = 0 \<and> k = 8 \<or> d = 224 \<and> k = 8 \<or> d = 240 \<and> k = 8 \<or> d = 248 \<and> k = 4" using assms(4) by simp
  then have "region (t + 8) 184 \<inter> region (t + d) k = {}" "region (t + 232) 4 \<inter> region (t + d) k = {}"
    by (elim disjE conjE; hypsubst; intro region_disjoint; simp)+
  then show ?thesis using True by blast
next
  case False
  then have "thread_bytes t \<inter> thread_bytes u = {}" using assms(1-3) unfolding sched_ok_def by blast
  moreover have "unat d + k \<le> 256" using assms(4) by auto
  then have "region (u + d) k \<subseteq> thread_bytes u" by (rule region_part) simp
  ultimately show ?thesis using saved_subset [of t] by blast
qed

lemma node_unsaved:
  assumes "sched_ok s ns ts regs" "t \<in> set ts" "n \<in> set ns"
  shows "node_bytes n \<subseteq> - saved_bytes t"
  using assms saved_subset [of t] unfolding sched_ok_def by blast

text \<open>Saving the running thread's registers leaves the list, and so the choice of the next, as it was.\<close>

lemma saved_thread_list:
  assumes "sched_ok s ns ts regs" "t \<in> set ts"
  shows "thread_list (saved t f (mem s)) ns ts"
proof -
  let ?m = "saved t f (mem s)"
  have "info_of ?m n = info_of (mem s) n" "list_next ?m n = list_next (mem s) n" if "n \<in> set ns" for n
    using node_unsaved [OF assms that] node_words [of n]
    by (intro load_same_on [OF same_on_saved]; simp; blast)+
  moreover have "linked ?m l = linked (mem s) l" if "\<forall>n \<in> set l. list_next ?m n = list_next (mem s) n" for l
    using that by (induction ?m l rule: linked.induct) auto
  ultimately show ?thesis using assms(1) by (auto simp: sched_ok_def thread_list_def)
qed

lemma following_saved:
  assumes "sched_ok s ns ts regs" "t \<in> set ts" "has_next (mem s) ts t"
  shows "getNextThread t (sti s\<lparr>mem := saved t f (mem s)\<rparr>) = following (mem s) ts t"
    and "following (mem s) ts t \<in> set ts" "following (mem s) ts t \<noteq> 0"
proof -
  let ?m = "saved t f (mem s)"
  have 3: "threadHead s = hd ns" "0 \<notin> set ts" using assms(1) by (auto simp: sched_ok_def thread_list_def)
  have ids: "load64 ?m u = load64 (mem s) u" if "u \<in> set ts" for u
    using field_unsaved [OF assms(1,2) that, of 0 8] by (intro load_same_on [OF same_on_saved]) simp_all
  have "ts ! 0 \<in> set ts" using assms(3) by (auto simp: has_next_def intro!: nth_mem)
  note ids [OF assms(2)] ids [OF this]
  moreover from this have "has_next ?m ts t" using assms(3) by (simp add: has_next_def)
  ultimately show "getNextThread t (sti s\<lparr>mem := ?m\<rparr>) = following (mem s) ts t"
    using getNextThread_list [of "sti s\<lparr>mem := ?m\<rparr>" ns ts t] saved_thread_list [OF assms(1,2)] 3
    by (simp add: following_def sti_def)
  show m: "following (mem s) ts t \<in> set ts" using assms(3) by (auto simp: following_def has_next_def intro!: nth_mem)
  then show "following (mem s) ts t \<noteq> 0" using 3 by auto
qed


text \<open>What starting the thread \<open>n\<close> does to memory, and the registers it is started with.\<close>

definition started :: "u64 \<Rightarrow> ptr \<Rightarrow> ptr \<Rightarrow> memory \<Rightarrow> memory" where
  "started wrapper regs n m =
     (let m = store32 (store32 m (n + 248) 1) (n + 232) (state_code THREAD_RUNNING);
          m = store64 (store64 m (n + 80) (load64 m (n + 224))) (n + 152) wrapper
      in write_regs regs (read_regs m (n + 8)) m)"

lemma started_outside: "same_on (- thread_bytes n - region regs 184) (started wrapper regs n m) m"
proof -
  have "region (n + 248) 4 \<subseteq> thread_bytes n" "region (n + 232) 4 \<subseteq> thread_bytes n"
    "region (n + 80) 8 \<subseteq> thread_bytes n" "region (n + 152) 8 \<subseteq> thread_bytes n"
    by (rule region_part; simp)+
  note sub = this
  let ?R = "- thread_bytes n - region regs 184"
  let ?m1 = "store32 (store32 m (n + 248) 1) (n + 232) (state_code THREAD_RUNNING)"
  let ?m2 = "store64 (store64 ?m1 (n + 80) (load64 ?m1 (n + 224))) (n + 152) wrapper"
  have "same_on ?R ?m2 m"
    by (rule same_on_trans [OF same_on_store_le same_on_trans [OF same_on_store_le same_on_trans
          [OF same_on_store_le same_on_store_le]]]) (use sub in blast)+
  moreover have "same_on ?R (started wrapper regs n m) ?m2"
    unfolding started_def Let_def by (rule write_regs_outside) blast
  ultimately show ?thesis by (rule same_on_trans [rotated])
qed

lemma started_thread:
  assumes "region regs 184 \<inter> thread_bytes n = {}"
  shows "read_regs (started wrapper regs n m) (n + 8) =
      (read_regs m (n + 8))\<lparr>rdi := load64 m (n + 224), rip := wrapper\<rparr>"
    and "load32 (started wrapper regs n m) (n + 248) = 1"
    and "load32 (started wrapper regs n m) (n + 232) = state_code THREAD_RUNNING"
proof -
  let ?m1 = "store32 (store32 m (n + 248) 1) (n + 232) (state_code THREAD_RUNNING)"
  let ?m2 = "store64 (store64 ?m1 (n + 80) (load64 ?m1 (n + 224))) (n + 152) wrapper"
  have out: "same_on (thread_bytes n) (started wrapper regs n m) ?m2"
    unfolding started_def Let_def by (rule write_regs_outside [OF assms])
  have sub: "region (n + 8) 184 \<subseteq> thread_bytes n" "region (n + 248) 4 \<subseteq> thread_bytes n"
    "region (n + 232) 4 \<subseteq> thread_bytes n"
    by (rule region_part; simp)+
  have "same_on (region (n + 8) 184) ?m1 m"
    by (rule same_on_trans [OF same_on_store_le same_on_store_le]) (rule region_disjoint; simp)+
  then have m1: "read_regs ?m1 (n + 8) = read_regs m (n + 8)" by (rule read_regs_same_on) simp
  have "load64 ?m1 (n + 224) = load64 m (n + 224)" by simp
  with m1 read_regs_rdi [of ?m1 "n + 8"] read_regs_rip [of _ "n + 8" wrapper, unfolded add.assoc]
  have "read_regs ?m2 (n + 8) = (read_regs m (n + 8))\<lparr>rdi := load64 m (n + 224), rip := wrapper\<rparr>"
    by (simp add: add.commute [of n])
  then show "read_regs (started wrapper regs n m) (n + 8) =
      (read_regs m (n + 8))\<lparr>rdi := load64 m (n + 224), rip := wrapper\<rparr>"
    using read_regs_same_on [OF out sub(1)] by simp
  show "load32 (started wrapper regs n m) (n + 248) = 1"
    using load_same_on [OF out sub(2), where 'w = 32] by simp
  show "load32 (started wrapper regs n m) (n + 232) = state_code THREAD_RUNNING"
    using load_same_on [OF out sub(3), where 'w = 32] by simp
qed

lemma switch_to_running_eq:
  "switch_to_running wrapper regs s =
    (let n = runningThread s; m = started wrapper regs n (mem s) in
     if load32 (mem s) (n + 248) \<noteq> 0 then Loops
     else Done (Switched (read_regs m (n + 8)))
       (setCr3 (parent_root (store32 (mem s) (n + 248) 1) n) (s\<lparr>mem := m\<rparr>)))"
  by (simp add: switch_to_running_def lock_thread_def contextSwitch_def started_def setCr3_def Let_def
      add.commute [of 80] add.commute [of 152])

text \<open>With a thread running, \<open>runThread\<close> saves its registers and switches to the following one.\<close>

lemma runThread_running:
  assumes "sched_ok s ns ts regs" "has_next (mem s) ts (runningThread s)"
  defines "t \<equiv> runningThread s" and "f \<equiv> read_regs (mem s) regs"
  shows "runThread wrapper regs s = switch_to_running wrapper regs
    (sti s\<lparr>mem := saved t f (mem s), runningThread := following (mem s) ts t\<rparr>)"
proof -
  have t: "t \<in> set ts" "t \<noteq> 0" and "0 \<notin> set ts" "ns \<noteq> []" "map (info_of (mem s)) ns = ts"
    and h: "processHead s \<noteq> 0" "threadHead s = hd ns" "threadCount s \<noteq> 0" and "0 \<notin> set ns"
    using assms(1) by (auto simp: sched_ok_def thread_list_def t_def)
  moreover from this have "info_of (mem s) (hd ns) \<in> set ts" by (metis hd_in_set image_eqI list.set_map)
  ultimately have "info_of (mem s) (threadHead s) \<noteq> 0" by auto
  moreover have "threadHead s \<noteq> 0" using h(2) \<open>ns \<noteq> []\<close> \<open>0 \<notin> set ns\<close> by (metis hd_in_set)
  ultimately show ?thesis
    using h(1,3) following_saved(1) [OF assms(1) t(1) assms(2) [folded t_def], of f]
      following_saved(3) [OF assms(1) t(1) assms(2) [folded t_def]] t(2)
    by (subst runThread.simps) (simp add: Let_def sti_def t_def f_def)
qed


lemma sched_thread:
  assumes "sched_ok s ns ts regs" "t \<in> set ts"
  shows "region regs 184 \<inter> thread_bytes t = {}"
    and "u \<in> set ts \<Longrightarrow> u \<noteq> t \<Longrightarrow> thread_bytes t \<inter> thread_bytes u = {}"
    and "u \<in> set ts \<Longrightarrow> thread_bytes t \<inter> region (load64 (mem s) (u + 240) + 8) 8 = {}"
  using assms unfolding sched_ok_def by blast+

lemma runThread_step:
  assumes "sched_ok s ns ts regs" "has_next (mem s) ts (runningThread s)"
  defines "t \<equiv> runningThread s"
  defines "n \<equiv> following (mem s) ts t"
  shows "if load32 (mem s) (n + 248) \<noteq> 0 then runThread wrapper regs s = Loops
    else \<exists>f s'. runThread wrapper regs s = Done (Switched f) s' \<and>
      f = (read_regs (mem s) (if n = t then regs else n + 8))\<lparr>rdi := load64 (mem s) (n + 224), rip := wrapper\<rparr> \<and>
      runningThread s' = n \<and> load32 (mem s') (n + 248) = 1 \<and>
      load32 (mem s') (n + 232) = state_code THREAD_RUNNING \<and> cr3 s' = parent_root (mem s) n \<and>
      (if n = t then True else read_regs (mem s') (t + 8) = read_regs (mem s) regs \<and>
         load32 (mem s') (t + 232) = state_code THREAD_READY \<and>
         load32 (mem s') (t + 248) = load32 (mem s) (t + 248)) \<and>
      same_on (- thread_bytes t - thread_bytes n - region regs 184) (mem s') (mem s)"
proof -
  define F where "F = read_regs (mem s) regs"
  define m2 where "m2 = saved t F (mem s)"
  define m7 where "m7 = started wrapper regs n m2"
  have t: "t \<in> set ts" using assms(1) by (simp add: sched_ok_def t_def)
  have n: "n \<in> set ts" unfolding n_def by (rule following_saved(2) [OF assms(1) t assms(2) [folded t_def]])
  have fields: "load32 m2 (n + 248) = load32 (mem s) (n + 248)" "load32 m2 (t + 248) = load32 (mem s) (t + 248)"
    "load64 m2 (n + 224) = load64 (mem s) (n + 224)" "load64 m2 (n + 240) = load64 (mem s) (n + 240)"
    using field_unsaved [OF assms(1) t n, of 248 4] field_unsaved [OF assms(1) t t, of 248 4]
      field_unsaved [OF assms(1) t n, of 224 8] field_unsaved [OF assms(1) t n, of 240 8]
    unfolding m2_def by (intro load_same_on [OF same_on_saved]; simp)+
  have run: "runThread wrapper regs s = (if load32 (mem s) (n + 248) \<noteq> 0 then Loops
      else Done (Switched (read_regs m7 (n + 8)))
        (setCr3 (parent_root (store32 m2 (n + 248) 1) n) (sti s\<lparr>mem := m7, runningThread := n\<rparr>)))"
    using runThread_running [OF assms(1,2), folded t_def] fields(1)
    by (simp add: switch_to_running_eq Let_def m7_def m2_def F_def n_def [symmetric] setCr3_def)
  show ?thesis
  proof (cases "load32 (mem s) (n + 248) = 0")
    case False
    with run show ?thesis by simp
  next
    case True
    note started = started_thread [OF sched_thread(1) [OF assms(1) n], of wrapper m2, folded m7_def]
    have sub: "region (u + 8) 184 \<subseteq> thread_bytes u" "region (u + 232) 4 \<subseteq> thread_bytes u"
      "region (u + 248) 4 \<subseteq> thread_bytes u" for u :: ptr
      by (rule region_part; simp)+
    have 1: "read_regs m2 (n + 8) = read_regs (mem s) (if n = t then regs else n + 8)"
    proof (cases "n = t")
      case False
      then have "region (n + 8) 184 \<subseteq> - saved_bytes t"
        using sub(1) [of n] sched_thread(2) [OF assms(1) t n] saved_subset [of t] by blast
      then show ?thesis using False read_regs_same_on [OF same_on_saved] by (simp add: m2_def)
    next
      case True
      with saved_regs [of t F "mem s"] show ?thesis by (simp add: m2_def F_def)
    qed
    let ?p = "load64 (mem s) (n + 240)"
    have "region (?p + 8) 8 \<subseteq> - saved_bytes t" "region (n + 248) 4 \<inter> region (?p + 8) 8 = {}"
      using sched_thread(3) [OF assms(1) t n] sched_thread(3) [OF assms(1) n n] saved_subset [of t] sub(3) [of n]
      by blast+
    then have "load64 (store32 m2 (n + 248) 1) (?p + 8) = load64 (mem s) (?p + 8)"
      using load_same_on [OF same_on_saved, of "?p + 8" 8, where 'w = 64]
      by (simp add: load_store_disjoint m2_def)
    then have 2: "parent_root (store32 m2 (n + 248) 1) n = parent_root (mem s) n"
      using fields(4) by simp
    have 3: "read_regs m7 (t + 8) = F \<and> load32 m7 (t + 232) = state_code THREAD_READY \<and>
        load32 m7 (t + 248) = load32 (mem s) (t + 248)" if "n \<noteq> t"
    proof -
      have "thread_bytes t \<subseteq> - thread_bytes n - region regs 184"
        using sched_thread(2) [OF assms(1) t n] sched_thread(1) [OF assms(1) t] that by blast
      then have out: "same_on (thread_bytes t) m7 m2"
        unfolding m7_def by (rule same_on_subset [OF started_outside])
      have "load32 m2 (t + 232) = state_code THREAD_READY" by (simp add: m2_def)
      then show ?thesis
        using read_regs_same_on [OF out sub(1)] load_same_on [OF out sub(2), where 'w = 32]
          load_same_on [OF out sub(3), where 'w = 32] fields(2) saved_regs [of t F "mem s"]
        by (simp add: m2_def)
    qed
    have 4: "same_on (- thread_bytes t - thread_bytes n - region regs 184) m7 (mem s)"
    proof (rule same_on_trans)
      show "same_on (- thread_bytes t - thread_bytes n - region regs 184) m7 m2"
        unfolding m7_def by (rule same_on_subset [OF started_outside]) blast
      show "same_on (- thread_bytes t - thread_bytes n - region regs 184) m2 (mem s)"
        unfolding m2_def using saved_subset [of t] by (intro same_on_subset [OF same_on_saved]) blast
    qed
    define s' where "s' = setCr3 (parent_root (mem s) n) (sti s\<lparr>mem := m7, runningThread := n\<rparr>)"
    have s': "mem s' = m7" "runningThread s' = n" "cr3 s' = parent_root (mem s) n"
      by (simp_all add: s'_def setCr3_def)
    have "runThread wrapper regs s = Done (Switched (read_regs m7 (n + 8))) s'"
      unfolding run s'_def 2 using True by simp
    then show ?thesis
      using True 3 4 started by (simp add: s' 1 fields(3) F_def)
  qed
qed

text \<open>The first tick takes the first thread; nothing is saved.\<close>

lemma runThread_first:
  assumes "sched_ok s ns ts regs"
  defines "n \<equiv> ts ! 0"
  shows "if load32 (mem s) (n + 248) \<noteq> 0 then runThread wrapper regs (s\<lparr>runningThread := 0\<rparr>) = Loops
    else \<exists>s'. runThread wrapper regs (s\<lparr>runningThread := 0\<rparr>) =
        Done (Switched ((read_regs (mem s) (n + 8))\<lparr>rdi := load64 (mem s) (n + 224), rip := wrapper\<rparr>)) s' \<and>
      runningThread s' = n \<and> load32 (mem s') (n + 248) = 1 \<and> cr3 s' = parent_root (mem s) n \<and>
      same_on (- thread_bytes n - region regs 184) (mem s') (mem s)"
proof -
  have l: "thread_list (mem s) ns ts" "threadHead s = hd ns" and "ts \<noteq> []" "processHead s \<noteq> 0" "threadCount s \<noteq> 0"
    using assms(1) by (auto simp: sched_ok_def)
  moreover from this have ns: "info_of (mem s) (hd ns) = n" "hd ns \<noteq> 0"
    by (cases ns; auto simp: thread_list_def n_def)+
  moreover have n: "n \<in> set ts" "n \<noteq> 0"
    using l \<open>ts \<noteq> []\<close> by (auto simp: n_def thread_list_def dest: nth_mem [of 0])
  ultimately have "runThread wrapper regs (s\<lparr>runningThread := 0\<rparr>) =
      switch_to_running wrapper regs (sti s\<lparr>runningThread := n\<rparr>)"
    by (subst runThread.simps) (simp add: Let_def sti_def)
  moreover have "region (n + 248) 4 \<inter> region (load64 (mem s) (n + 240) + 8) 8 = {}"
    using sched_thread(3) [OF assms(1) n(1) n(1)] region_part [of 248 4 256 n] by auto
  then have "parent_root (store32 (mem s) (n + 248) 1) n = parent_root (mem s) n" by (simp add: load_store_disjoint)
  moreover note started_thread [OF sched_thread(1) [OF assms(1) n(1)], of wrapper "mem s"] started_outside [of n regs wrapper "mem s"]
  ultimately show ?thesis by (simp add: switch_to_running_eq sti_def setCr3_def Let_def)
qed

section \<open>Properties\<close>


text \<open>Three threads with nodes from 4096 on; all belong to the process at 0x40000.\<close>

definition dispatch_sample :: memory where
  "dispatch_sample =
     (let m = store64 (store64 (\<lambda>_. 0) 4096 0x10000) 4104 8192;
          m = store64 (store64 m 8192 0x20000) 8200 12288;
          m = store64 m 12288 0x30000;
          m = store64 (store64 m 0x100F0 0x40000) 0x200F0 0x40000;
          m = store64 m 0x300F0 0x40000;
          m = store64 m 0x200E0 0xE000
      in store64 m 0x40008 0x50000)"

lemma dispatch_sample_loads:
  "info_of dispatch_sample 4096 = 0x10000" "info_of dispatch_sample 8192 = 0x20000"
  "info_of dispatch_sample 12288 = 0x30000" "info_of dispatch_sample 4104 = 8192"
  "info_of dispatch_sample 8200 = 12288" "info_of dispatch_sample 12296 = 0"
  "info_of dispatch_sample 0x100F0 = 0x40000" "info_of dispatch_sample 0x200F0 = 0x40000"
  "info_of dispatch_sample 0x300F0 = 0x40000" "info_of dispatch_sample 0x200E0 = 0xE000"
  "info_of dispatch_sample 0x40008 = 0x50000" "load32 dispatch_sample 0x200F8 = 0"
  "info_of dispatch_sample 0x10000 = 0"
  by (simp_all add: dispatch_sample_def Let_def load_le_zero)

definition dispatch_state :: "process_state \<Rightarrow> process_state" where
  "dispatch_state z = z\<lparr>mem := dispatch_sample, processHead := 0x60000, threadHead := 4096, threadCount := 3,
     runningThread := 0x10000\<rparr>"

lemma dispatch_state_ok: "sched_ok (dispatch_state z) [4096, 8192, 12288] [0x10000, 0x20000, 0x30000] 0x8000"
proof -
  have "region 0x8000 184 \<inter> thread_bytes t = {}" if "t \<in> {0x10000, 0x20000, 0x30000}" for t
    using that by (elim insertE emptyE; hypsubst; intro region_disjoint; simp)
  moreover have "node_bytes n \<inter> thread_bytes t = {}"
    if "n \<in> {4096, 8192, 12288}" "t \<in> {0x10000, 0x20000, 0x30000}" for n t
    using that by (elim insertE emptyE; hypsubst; intro region_disjoint; simp)
  moreover have "thread_bytes t \<inter> thread_bytes u = {}"
    if "t \<in> {0x10000, 0x20000, 0x30000}" "u \<in> {0x10000, 0x20000, 0x30000}" "t \<noteq> u" for t u
    using that by (elim insertE emptyE; simp add: region_disjoint del: in_region)
  moreover have "thread_bytes t \<inter> region 0x40008 8 = {}" if "t \<in> {0x10000, 0x20000, 0x30000}" for t
    using that by (elim insertE emptyE; hypsubst; intro region_disjoint; simp)
  moreover have "load64 dispatch_sample (u + 240) + 8 = 0x40008" if "u \<in> {0x10000, 0x20000, 0x30000}" for u
    using that by (elim insertE emptyE) (simp_all add: dispatch_sample_loads)
  ultimately show ?thesis
    unfolding sched_ok_def
    by (simp add: dispatch_state_def thread_list_def dispatch_sample_loads del: in_region)
qed


end
