(* ===== verification/Isr.thy ===== *)
theory Isr
  imports Dispatch
begin

text \<open>
  Interrupts (\<open>kernel/idt/isr.cpp\<close>, \<open>isr.hpp\<close>, \<open>isr.asm\<close>): the gates, the common handler, the handlers of
  single exceptions and of the timer, and the assembly stub that builds the register frame the common
  handler reads.
\<close>

section \<open>State\<close>

text \<open>The table of stubs of \<open>isr.asm\<close>; its entry 32 is overwritten.\<close>

record isr_state = process_state +
  int_table :: "u8 \<Rightarrow> ptr"

text \<open>The array has 32 places and 31 texts; the last pointer is null.\<close>

definition exception_messages :: "string list" where
  "exception_messages =
     [''Division by Zero'', ''Debug'', ''Non-Maskable Interrupt'', ''Breakpoint'', ''Overflow'',
      ''Out of Bounds'', ''Invalid Opcode'', ''No Coprocessor'', ''Double Fault'',
      ''Coprocessor Segment Overrun'', ''Bat TSS'', ''Segment not Present'', ''Stack Fault'',
      ''General Protection Fault'', ''Page Fault'', ''Unknown Interrupt'', ''Coprocessor Fault'',
      ''Alignment Check'', ''Reserved'', ''Reserved'', ''Reserved'', ''Reserved'', ''Reserved'',
      ''Reserved'', ''Reserved'', ''Reserved'', ''Reserved'', ''Reserved'', ''Reserved'', ''Reserved'',
      ''Reserved'']"

text \<open>A frame as the stub pushes it; the kernel's handlers read a \<open>cpuRegs\<close> instead.\<close>

record cpuRegisters =
  g_r15 :: u64
  g_r14 :: u64
  g_r13 :: u64
  g_r12 :: u64
  g_r11 :: u64
  g_r10 :: u64
  g_r9 :: u64
  g_r8 :: u64
  g_rbp :: u64
  g_rdi :: u64
  g_rsi :: u64
  g_rdx :: u64
  g_rcx :: u64
  g_rbx :: u64
  g_rax :: u64
  g_int_no :: u64
  g_err :: u64
  g_rip :: u64
  g_cs :: u64
  g_eFlags :: u64
  g_rsp :: u64
  g_ss :: u64

definition read_cpuRegisters :: "memory \<Rightarrow> ptr \<Rightarrow> cpuRegisters" where
  "read_cpuRegisters m a = \<lparr>g_r15 = load64 m a, g_r14 = load64 m (a + 8), g_r13 = load64 m (a + 16),
     g_r12 = load64 m (a + 24), g_r11 = load64 m (a + 32), g_r10 = load64 m (a + 40), g_r9 = load64 m (a + 48),
     g_r8 = load64 m (a + 56), g_rbp = load64 m (a + 64), g_rdi = load64 m (a + 72), g_rsi = load64 m (a + 80),
     g_rdx = load64 m (a + 88), g_rcx = load64 m (a + 96), g_rbx = load64 m (a + 104), g_rax = load64 m (a + 112),
     g_int_no = load64 m (a + 120), g_err = load64 m (a + 128), g_rip = load64 m (a + 136),
     g_cs = load64 m (a + 144), g_eFlags = load64 m (a + 152), g_rsp = load64 m (a + 160), g_ss = load64 m (a + 168)\<rparr>"

section \<open>Handlers\<close>

definition isr8 :: "'a isr_state_scheme \<Rightarrow> (unit, 'a isr_state_scheme) outcome" where
  "isr8 s = kprintf ''interrupt 8'' [] s"

definition isr9 :: "'a isr_state_scheme \<Rightarrow> (unit, 'a isr_state_scheme) outcome" where
  "isr9 s = kprintf ''interrupt 9'' [] s"

definition isr6 :: "'a isr_state_scheme \<Rightarrow> (unit, 'a isr_state_scheme) outcome" where
  "isr6 s = obind (kprintf ''invalid opcode!'' [] s) (\<lambda>_ s. Halted s)"

definition isr13 :: "ptr \<Rightarrow> 'a isr_state_scheme \<Rightarrow> (unit, 'a isr_state_scheme) outcome" where
  "isr13 reg s =
     obind (kprintf (nl ''general protection fault!'' 1) [] s) (\<lambda>_ s.
     obind (kprintf (nl ''RIP %x'' 1) [ArgNum (rip (read_regs (mem s) reg))] s) (\<lambda>_ s. Halted s))"

definition isr14 :: "'a isr_state_scheme \<Rightarrow> (unit, 'a isr_state_scheme) outcome" where
  "isr14 s = obind (kprintf (nl ''page fault!'' 1) [] s) (\<lambda>_ s. Halted s)"

definition isr0 :: "'a isr_state_scheme \<Rightarrow> (unit, 'a isr_state_scheme) outcome" where
  "isr0 s = obind (kprintf ''divide by zero'' [] s) (\<lambda>_ s. Halted s)"

text \<open>The timer's handler; when \<open>runThread\<close> switches it does not come back to unlock.\<close>

definition pitHandler :: "u64 \<Rightarrow> ptr \<Rightarrow> 'a process_state_scheme \<Rightarrow> (switch_result, 'a process_state_scheme) outcome" where
  "pitHandler wrapper regs s =
     obind (acquire lockx (\<lambda>l s. s\<lparr>lockx := l\<rparr>) s) (\<lambda>_ s.
       let s = s\<lparr>pitTicks := pitTicks s + 1\<rparr>;
           s = sti s
       in obind (runThread wrapper regs s) (\<lambda>r s.
          case r of Switched f \<Rightarrow> Done (Switched f) s
          | Returned \<Rightarrow> Done Returned (release lockx (\<lambda>l s. s\<lparr>lockx := l\<rparr>) s)))"

text \<open>\<open>handlers[regs->int_no](regs)\<close>; the array has 256 places.\<close>

definition call_handler :: "u64 \<Rightarrow> ptr \<Rightarrow> 'a isr_state_scheme \<Rightarrow> (switch_result, 'a isr_state_scheme) outcome" where
  "call_handler wrapper regs s =
     (let k = unat (int_no (read_regs (mem s) regs)) in
      if k \<ge> 256 then Undefined
      else case handlers s k of
        NoHandler \<Rightarrow> Done Returned s
      | Isr13 \<Rightarrow> obind (isr13 regs s) (\<lambda>_ s. Done Returned s)
      | PitHandler \<Rightarrow> pitHandler wrapper regs s)"

definition isrHandler :: "u64 \<Rightarrow> ptr \<Rightarrow> 'a isr_state_scheme \<Rightarrow> (switch_result, 'a isr_state_scheme) outcome" where
  "isrHandler wrapper regs s =
     obind (if int_no (read_regs (mem s) regs) < 32 then
         (let k = unat (int_no (read_regs (mem s) regs)) in
          if k \<ge> length exception_messages then Undefined
          else obind (kprintf (nl ''Exception: %s'' 1) [ArgStr (exception_messages ! k)] s) (\<lambda>_ s.
               obind (kprintf (nl ''RIP: %x'' 1) [ArgNum (rip (read_regs (mem s) regs))] s) (\<lambda>_ s.
               haltAndCatchFire ''idt/isr.cpp'' 64 [] s)))
       else Done () s) (\<lambda>_ s.
     obind (call_handler wrapper regs s) (\<lambda>r s.
       case r of Switched f \<Rightarrow> Done (Switched f) s
       | Returned \<Rightarrow> Done Returned
           (if int_no (read_regs (mem s) regs) \<ge> 0x20 then outb 0x20 0x20 s else s)))"

text \<open>\<open>pit\<close> is the address of \<open>pitHandler\<close>, \<open>idt_address\<close> that of the table.\<close>

definition isrInstall :: "ptr \<Rightarrow> ptr \<Rightarrow> 'a isr_state_scheme \<Rightarrow> 'a isr_state_scheme" where
  "isrInstall pit idt_address s =
     (let s = s\<lparr>int_table := (int_table s)(32 := pit)\<rparr>;
          s = cli s;
          s = s\<lparr>handlers := (handlers s)(0xd := Isr13)\<rparr>;
          s = fold (\<lambda>i s. setIDTGate (of_nat i) (int_table s (of_nat i)) s) [0..<256] s;
          s = (if \<not> wasInit s then idtInit idt_address s else idtInitAgain s)
      in sti s)"

section \<open>The assembly stub\<close>

text \<open>The stack grows downwards; \<open>push\<close> on a stack pointer and memory.\<close>

definition push :: "u64 \<Rightarrow> ptr \<times> memory \<Rightarrow> ptr \<times> memory" where
  "push v st = (case st of (sp, m) \<Rightarrow> (sp - 8, store64 m (sp - 8) v))"

text \<open>The vectors for which the stub expects the processor to have pushed an error code.\<close>

definition has_error_code :: "u8 \<Rightarrow> bool" where
  "has_error_code v \<longleftrightarrow> v = 8 \<or> (10 \<le> v \<and> v \<le> 14) \<or> v = 17 \<or> v = 21 \<or> v = 29 \<or> v = 30"

text \<open>What the processor pushes when it delivers an interrupt in the state \<open>c\<close> (its \<open>err\<close> is the error code).\<close>

definition deliver :: "bool \<Rightarrow> cpuRegs \<Rightarrow> ptr \<times> memory \<Rightarrow> ptr \<times> memory" where
  "deliver e c st =
     (let st = fold push [ss c, rsp c, eFlags c, cs c, rip c] st in if e then push (err c) st else st)"

text \<open>\<open>PUSHALL\<close> and the stub of a vector.\<close>

definition push_all :: "cpuRegs \<Rightarrow> ptr \<times> memory \<Rightarrow> ptr \<times> memory" where
  "push_all c = fold push [rax c, rbx c, rcx c, rdx c, rsi c, rdi c, rbp c, r8 c, r9 c, r10 c, r11 c, r12 c,
     r13 c, r14 c, r15 c]"

definition isr_stub :: "u8 \<Rightarrow> cpuRegs \<Rightarrow> ptr \<times> memory \<Rightarrow> ptr \<times> memory" where
  "isr_stub v c st = push_all c (push (ucast v) (if has_error_code v then st else push 0 st))"


section \<open>Frames\<close>

lemma fold_push:
  assumes "length vs \<le> 1000"
  shows "\<exists>m'. fold push vs (sp, m) = (sp - of_nat (8 * length vs), m') \<and>
    (\<forall>i < length vs. load64 m' (sp - of_nat (8 * Suc i)) = vs ! i)"
  using assms
proof (induction vs rule: rev_induct)
  case (snoc v vs)
  then obtain m' where m': "fold push vs (sp, m) = (sp - of_nat (8 * length vs), m')"
    "\<And>i. i < length vs \<Longrightarrow> load64 m' (sp - of_nat (8 * Suc i)) = vs ! i" by auto
  let ?a = "sp - of_nat (8 * Suc (length vs))"
  have "fold push (vs @ [v]) (sp, m) = (?a, store64 m' ?a v)"
    by (simp add: m'(1) push_def algebra_simps)
  moreover have "load64 (store64 m' ?a v) (sp - of_nat (8 * Suc i)) = (vs @ [v]) ! i" if "i < Suc (length vs)" for i
  proof (cases "i = length vs")
    case False
    then have i: "i < length vs" using that by simp
    let ?b = "sp - of_nat (8 * Suc i)"
    have u: "unat (of_nat (8 * Suc (length vs)) :: u64) = 8 * Suc (length vs)"
      "unat (of_nat (8 * Suc i) :: u64) = 8 * Suc i"
      using snoc.prems i by (intro unat64_of_nat; simp)+
    have d: "?b - ?a = of_nat (8 * Suc (length vs)) - of_nat (8 * Suc i)" by simp
    have ba: "unat (?b - ?a) = 8 * (length vs - i)"
      unfolding d unat_sub_if' u using i by simp
    then have "?a \<noteq> ?b" using i by (metis diff_self mult_is_0 unat_0 zero_less_diff less_not_refl zero_neq_numeral)
    then have ab: "unat (?a - ?b) = 18446744073709551616 - 8 * (length vs - i)"
      using unat64_diff_swap [of ?a ?b] unfolding ba by blast
    have "8 \<le> unat (?b - ?a)" "8 \<le> unat (?a - ?b)"
      unfolding ba ab using i snoc.prems by simp_all
    then have "region ?a 8 \<inter> region ?b 8 = {}" by (rule region_disjoint)
    then show ?thesis using m'(2) [OF i] i by (simp add: load_store_disjoint nth_append del: of_nat_mult of_nat_Suc)
  qed (simp del: of_nat_mult of_nat_Suc)
  ultimately show ?case by (auto simp: less_Suc_eq)
qed simp

definition frame_words :: "u8 \<Rightarrow> cpuRegs \<Rightarrow> u64 list" where
  "frame_words v c = [ss c, rsp c, eFlags c, cs c, rip c, if has_error_code v then err c else 0, ucast v,
     rax c, rbx c, rcx c, rdx c, rsi c, rdi c, rbp c, r8 c, r9 c, r10 c, r11 c, r12 c, r13 c, r14 c, r15 c]"

lemma isr_stub_words:
  "isr_stub v c (deliver (has_error_code v) c st) = fold push (frame_words v c) st"
  by (simp add: isr_stub_def deliver_def push_all_def frame_words_def Let_def)


lemma frame_loads:
  assumes "isr_stub v c (deliver (has_error_code v) c (sp, m)) = (sp', m')"
  shows "sp' = sp - 176" "k < 22 \<Longrightarrow> load64 m' (sp' + of_nat (8 * k)) = rev (frame_words v c) ! k"
proof -
  have len: "length (frame_words v c) = 22" by (simp add: frame_words_def)
  with fold_push [of "frame_words v c" sp m] assms
  have sp': "sp' = sp - 176" and loads: "\<And>i. i < 22 \<Longrightarrow> load64 m' (sp - of_nat (8 * Suc i)) = frame_words v c ! i"
    by (auto simp: isr_stub_words)
  show "sp' = sp - 176" by (rule sp')
  show "load64 m' (sp' + of_nat (8 * k)) = rev (frame_words v c) ! k" if "k < 22"
  proof -
    have "(of_nat (8 * k) :: u64) + of_nat (8 * Suc (21 - k)) = of_nat (8 * k + 8 * Suc (21 - k))"
      by (simp only: of_nat_add)
    also have "8 * k + 8 * Suc (21 - k) = 176" using that by simp
    finally have "sp' + of_nat (8 * k) = sp - of_nat (8 * Suc (21 - k))"
      unfolding sp' by (simp add: algebra_simps)
    then show ?thesis using loads [of "21 - k"] that len by (simp only: rev_nth) simp
  qed
qed

text \<open>
  C12: the frame that delivery and stub build is a \<open>cpuRegisters\<close> with the interrupted registers, the
  vector, and the processor's error code or zero. The \<open>cpuRegs\<close> that the handlers read at the same
  address has one word more in the middle: they find the vector in \<open>core\<close>, the error code in \<open>int_no\<close>,
  the instruction pointer in \<open>err\<close> and the code segment in \<open>rip\<close>.
\<close>

theorem isr_frame:
  "\<exists>m'. isr_stub v c (deliver (has_error_code v) c (sp, m)) = (sp - 176, m') \<and>
     read_cpuRegisters m' (sp - 176) = \<lparr>g_r15 = r15 c, g_r14 = r14 c, g_r13 = r13 c, g_r12 = r12 c, g_r11 = r11 c,
       g_r10 = r10 c, g_r9 = r9 c, g_r8 = r8 c, g_rbp = rbp c, g_rdi = rdi c, g_rsi = rsi c, g_rdx = rdx c,
       g_rcx = rcx c, g_rbx = rbx c, g_rax = rax c, g_int_no = ucast v,
       g_err = (if has_error_code v then err c else 0), g_rip = rip c, g_cs = cs c, g_eFlags = eFlags c,
       g_rsp = rsp c, g_ss = ss c\<rparr> \<and>
     core (read_regs m' (sp - 176)) = ucast v \<and>
     int_no (read_regs m' (sp - 176)) = (if has_error_code v then err c else 0) \<and>
     err (read_regs m' (sp - 176)) = rip c \<and> rip (read_regs m' (sp - 176)) = cs c"
proof -
  obtain sp' m' where st: "isr_stub v c (deliver (has_error_code v) c (sp, m)) = (sp', m')" by fastforce
  note w = frame_loads(2) [OF st, unfolded frame_loads(1) [OF st]]
  have "load64 m' (sp - 176 + of_nat (8 * k)) = rev (frame_words v c) ! k" if "k < 22" for k
    using w that .
  from this [of 0] this [of 1] this [of 2] this [of 3] this [of 4] this [of 5] this [of 6] this [of 7]
    this [of 8] this [of 9] this [of 10] this [of 11] this [of 12] this [of 13] this [of 14] this [of 15]
    this [of 16] this [of 17] this [of 18] this [of 19] this [of 20] this [of 21]
  show ?thesis
    using st frame_loads(1) [OF st]
    by (simp add: frame_words_def read_cpuRegisters_def read_regs_def regs_of_def)
qed


text \<open>
  every interrupt whose vector has no error code and that comes through the assembly stub is
  taken for exception 0: \<open>isrHandler\<close> finds int_no 0, reports "Division by Zero" and the code segment as
  the instruction pointer, and halts. No registered handler is called.
\<close>

theorem isrHandler_reports_zero:
  fixes s :: "'a isr_state_scheme"
  assumes "\<not> has_error_code v" "isr_stub v c (deliver (has_error_code v) c (sp, m)) = (sp', m')"
  defines "t \<equiv> s\<lparr>mem := m'\<rparr>"
  shows "\<exists>l. isrHandler wrapper sp' t = Halted (t\<lparr>io_log := l\<rparr>) \<and>
    (haltAndCatchFire ''idt/isr.cpp'' 64 [] (t\<lparr>io_log := printed (nl ''RIP: %x'' 1) [ArgNum (cs c)]
      (t\<lparr>io_log := printed (nl ''Exception: %s'' 1) [ArgStr ''Division by Zero''] t\<rparr>)\<rparr>) :: (unit, _) outcome) =
      Halted (t\<lparr>io_log := l\<rparr>)"
proof -
  have sp': "sp' = sp - 176" using frame_loads(1) [OF assms(2)] .
  have z: "int_no (read_regs (mem t) sp') = 0" "rip (read_regs (mem t) sp') = cs c"
    using isr_frame [of v c sp m] assms(1,2) by (auto simp: t_def sp')
  have ok: "fmt_ok (c_string (nl ''Exception: %s'' 1)) [ArgStr x]" "fmt_ok (c_string (nl ''RIP: %x'' 1)) [ArgNum y]" for x y
    by (simp_all add: fmt_eval)
  define u where "u = t\<lparr>io_log := printed (nl ''RIP: %x'' 1) [ArgNum (cs c)]
      (t\<lparr>io_log := printed (nl ''Exception: %s'' 1) [ArgStr ''Division by Zero''] t\<rparr>)\<rparr>"
  obtain l where l: "(haltAndCatchFire ''idt/isr.cpp'' 64 [] u :: (unit, _) outcome) = Halted (u\<lparr>io_log := l\<rparr>)"
    using haltAndCatchFire_Halted by blast
  moreover have "isrHandler wrapper sp' t = Halted (u\<lparr>io_log := l\<rparr>)"
    using z l by (simp add: isrHandler_def kprintf_Done [OF ok(1)] kprintf_Done [OF ok(2)] exception_messages_def
        u_def Let_def del: One_nat_def)
  ultimately show ?thesis by (auto simp: u_def)
qed

theorem isrHandler_reports_zero_witness:
  "\<forall>s :: isr_state. \<exists>sp' m' l. isr_stub 33 zero_regs (deliver False zero_regs (0x9000, mem s)) = (sp', m') \<and>
     isrHandler 0xFF00 sp' (s\<lparr>mem := m'\<rparr>) = Halted (s\<lparr>mem := m', io_log := l\<rparr>)"
proof
  fix s :: isr_state
  obtain sp' m' where st: "isr_stub 33 zero_regs (deliver False zero_regs (0x9000, mem s)) = (sp', m')" by fastforce
  have "\<not> has_error_code 33" by (simp add: has_error_code_def)
  with isrHandler_reports_zero [of 33 zero_regs "0x9000" "mem s" sp' m' "0xFF00" s] st
  show "\<exists>sp' m' l. isr_stub 33 zero_regs (deliver False zero_regs (0x9000, mem s)) = (sp', m') \<and>
     isrHandler 0xFF00 sp' (s\<lparr>mem := m'\<rparr>) = Halted (s\<lparr>mem := m', io_log := l\<rparr>)" by auto
qed

section \<open>Installation\<close>

lemma fold_gates:
  fixes s :: "'a isr_state_scheme"
  assumes "k \<le> 256"
  shows "fold (\<lambda>i s. setIDTGate (of_nat i) (int_table s (of_nat i)) s) [0..<k] s =
    s\<lparr>idtEntries := (\<lambda>v. if unat v < k then gate_entry (int_table s v) else idtEntries s v)\<rparr>"
  using assms
proof (induction k)
  case (Suc k)
  have "(unat v = k) = (v = of_nat k)" for v :: u8
    using Suc.prems by (simp add: word_unat_eq_iff unat_of_nat take_bit_eq_mod)
  then show ?case
    using Suc by (auto simp: setIDTGate_def less_Suc_eq fun_eq_iff)
qed simp

text \<open>
  after \<open>isrInstall\<close> the gate of every vector leads to that vector's stub, except that of vector 32,
  which leads to the C++ routine \<open>pitHandler\<close> itself, past the stub; the table is loaded with its 256
  entries, exception 13 has a handler, and interrupts are enabled.
\<close>

theorem isrInstall_gates:
  "gate_target (idtEntries (isrInstall pit a s) v) = (if v = 32 then pit else int_table s v) \<and>
   gate_attributes (idtEntries (isrInstall pit a s) v) = 0x8E \<and>
   handlers (isrInstall pit a s) = (handlers s)(13 := Isr13) \<and> interrupt_flag (isrInstall pit a s) \<and>
   (wasInit s \<or> idtr (isrInstall pit a s) = \<lparr>idtp_limit = 4095, idtp_base = a\<rparr>)"
proof -
  have v: "unat v < 256" using unsigned_less [of v, where 'a = nat] by simp
  have "gate_attributes (gate_entry x) = 0x8E" for x by (simp add: gate_entry_def Let_def)
  then show ?thesis
    using v by (cases "wasInit s")
      (auto simp: isrInstall_def fold_gates [OF order_refl] idtInit_def idtInitAgain_def cli_def sti_def gate_target_entry
        sizeof_idtEntry_def Let_def)
qed

section \<open>Ticks\<close>

lemma switch_case_Done [outcome_dests]:
  "(case r of Returned \<Rightarrow> k | Switched f \<Rightarrow> Done (Switched f) s) = Done q t \<longleftrightarrow>
     (\<exists>f. r = Switched f \<and> q = Switched f \<and> s = t) \<or> r = Returned \<and> k = Done q t"
  by (cases r) auto

lemma switch_keeps_lockx: "switch_to_running wrapper regs s = Done r s' \<Longrightarrow> lockx s' = lockx s"
  by (auto simp: switch_to_running_eq Let_def setCr3_def split: if_splits)

lemma runThread_keeps_lockx: "runThread wrapper regs s = Done r s' \<Longrightarrow> lockx s' = lockx s"
proof (induction wrapper regs s arbitrary: r s' rule: runThread.induct)
  case (1 wrapper regs s)
  show ?case
    using "1.prems" by (subst (asm) runThread.simps)
      (auto simp: Let_def sti_def outcome_dests split: if_splits
        dest!: switch_keeps_lockx "1.IH" [rotated -1])
qed

lemma schedulerWrapper_frees_lockx:
  "schedulerWrapper call wrapper func t = Done (Switched g) u \<Longrightarrow> lockx u = 0"
  by (auto simp: schedulerWrapper_def Let_def outcome_dests unlock_thread_def release_def unlock_value_def sti_def
      dest!: runThread_keeps_lockx)



end
