(* ===== verification/Kernel_Entry.thy ===== *)
theory Kernel_Entry
  imports Isr
begin

text \<open>
  The start of the kernel proper (\<open>kernel/kernelEntry.cpp\<close>), which brings the components up one after the
  other, the two routines it makes processes of, and the rest of \<open>kernel/boot.cpp\<close>.
\<close>

section \<open>The rest of boot.cpp\<close>

text \<open>What \<open>print_file\<close> reads of Limine's \<open>limine_file\<close>; the identifiers are those of its structures.\<close>

record limine_uuid =
  uuid_a :: u32
  uuid_b :: u16
  uuid_c :: u16
  uuid_d :: u64

record limine_file_info =
  fi_revision :: u64
  fi_address :: ptr
  fi_size :: u64
  fi_path :: string
  fi_cmdline :: string
  fi_media_type :: u32
  fi_partition_index :: u32
  fi_tftp_ip :: u32
  fi_tftp_port :: u32
  fi_mbr_disk_id :: u32
  gpt_disk_uuid :: limine_uuid
  gpt_part_uuid :: limine_uuid
  part_uuid :: limine_uuid

definition print_uuid :: "string \<Rightarrow> limine_uuid \<Rightarrow> 'a machine_scheme \<Rightarrow> (unit, 'a machine_scheme) outcome" where
  "print_uuid fmt u = kprintf fmt [ArgNum (ucast (uuid_a u)), ArgNum (ucast (uuid_b u)), ArgNum (ucast (uuid_c u)),
     ArgNum (uuid_d u)]"

definition print_file :: "limine_file_info \<Rightarrow> 'a machine_scheme \<Rightarrow> (unit, 'a machine_scheme) outcome" where
  "print_file f s =
     obind (kprintf ''File->Revision: %d'' [ArgNum (fi_revision f)] s) (\<lambda>_ s.
     obind (kprintf ''File->Address: %x'' [ArgNum (fi_address f)] s) (\<lambda>_ s.
     obind (kprintf ''File->Size: %x'' [ArgNum (fi_size f)] s) (\<lambda>_ s.
     obind (kprintf ''File->Path: %s'' [ArgStr (fi_path f)] s) (\<lambda>_ s.
     obind (kprintf ''File->CmdLine: %s'' [ArgStr (fi_cmdline f)] s) (\<lambda>_ s.
     obind (kprintf ''File->MediaType: %d'' [ArgNum (ucast (fi_media_type f))] s) (\<lambda>_ s.
     obind (kprintf ''File->PartIndex: %d'' [ArgNum (ucast (fi_partition_index f))] s) (\<lambda>_ s.
     obind (kprintf ''File->TFTPIP: %d.%d.%d.%d''
       (map (\<lambda>i. ArgNum (ucast (drop_bit (8 * i) (fi_tftp_ip f AND push_bit (8 * i) 0xff)))) [0, 1, 2, 3]) s) (\<lambda>_ s.
     obind (kprintf ''File->TFTPPort: %d'' [ArgNum (ucast (fi_tftp_port f))] s) (\<lambda>_ s.
     obind (kprintf ''File->MBRDiskId: %x'' [ArgNum (ucast (fi_mbr_disk_id f))] s) (\<lambda>_ s.
     obind (print_uuid ''File->GPTDiskUUID: %x-%x-%x-%x'' (gpt_disk_uuid f) s) (\<lambda>_ s.
     obind (print_uuid ''File->GPTPartUUID: %x-%x-%x-%x'' (gpt_part_uuid f) s) (\<lambda>_ s.
     print_uuid ''File->PartUUID: %x-%x-%x-%x'' (part_uuid f) s))))))))))))"

text \<open>The early allocator; its pointer is the first component of the state.\<close>

definition quickMalloc :: "u64 \<Rightarrow> ptr \<Rightarrow> 'a machine_scheme \<Rightarrow> (ptr \<times> ptr, 'a machine_scheme) outcome" where
  "quickMalloc n startRAMAddr s =
     obind (if startRAMAddr = 0 then
              obind (kprintf ''LIMINE_ERROR: Cannot malloc from NULL!'' [] s) (\<lambda>_ s. boot_done s)
            else Done () s) (\<lambda>_ s.
     let temp = startRAMAddr in Done (temp, startRAMAddr + n) s)"

partial_function (option) idle_loop :: "'s \<Rightarrow> 's option" where
  "idle_loop s = idle_loop s"

definition idle :: "'s \<Rightarrow> (unit, 's) outcome" where
  "idle s = of_loop (idle_loop s) (Done ())"

section \<open>The processes\<close>

definition print_number :: "u32 \<Rightarrow> 'a machine_scheme \<Rightarrow> (unit, 'a machine_scheme) outcome" where
  "print_number i s =
     (if i * 2 = 400 then kprintf (nl ''%d: 200'' 1) [ArgNum (ucast i)] s
      else if i * 2 = 600 then kprintf (nl ''%d: 300'' 1) [ArgNum (ucast i)] s
      else if i * 2 = 4000 then kprintf (nl ''%d: 2000'' 1) [ArgNum (ucast i)] s
      else Done () s)"

text \<open>The counters stay far below the bound of \<open>int\<close>.\<close>

definition printNumbers :: "'a machine_scheme \<Rightarrow> (unit, 'a machine_scheme) outcome" where
  "printNumbers s =
     obind (for_each print_number (map of_nat [0..<400001]) s) (\<lambda>_ s. kprintf (nl ''done1'' 1) [] s)"

definition printNumbers2 :: "'a machine_scheme \<Rightarrow> (unit, 'a machine_scheme) outcome" where
  "printNumbers2 s =
     obind (for_each print_number (map of_nat [0..<40000001]) s) (\<lambda>_ s. kprintf ''done'' [] s)"

section \<open>setupOptimist\<close>

text \<open>
  What the code takes from the linker (addresses), the boot loader and the devices, and the values of
  the variables that process creation reads before they are set.
\<close>

record platform =
  gdt_address :: ptr
  idt_address :: ptr
  pit_address :: ptr
  printNumbers_address :: ptr
  printNumbers2_address :: ptr
  pl_limine :: limine
  blob_begin :: u64
  blob_size :: u64
  rsdp_response :: "ptr option"
  smp_response :: "limine_smp_response option"
  pl_device :: device
  wild_thread :: "nat \<Rightarrow> ptr"
  wild_info :: "nat \<Rightarrow> ptr"

definition PIC1 :: u16 where "PIC1 = 0x20"
definition PIC2 :: u16 where "PIC2 = 0xA0"
definition PIC1_CMD :: u16 where "PIC1_CMD = PIC1"
definition PIC1_DAT :: u16 where "PIC1_DAT = PIC1 + 1"
definition PIC2_CMD :: u16 where "PIC2_CMD = PIC2"
definition PIC2_DAT :: u16 where "PIC2_DAT = PIC2 + 1"

text \<open>The bytes that set up the two interrupt controllers, in their order.\<close>

definition init_pic :: "'a machine_scheme \<Rightarrow> 'a machine_scheme" where
  "init_pic s =
     (let s = outb 0x20 0x11 s;
          s = outb 0xA0 0x11 s;
          s = outb 0x21 0x20 s;
          s = outb 0xA1 0x28 s;
          s = outb 0x21 0x04 s;
          s = outb 0xA1 0x02 s;
          s = outb 0x21 0x01 s;
          s = outb 0xA1 0x01 s;
          s = outb 0x21 0x00 s
      in outb 0xA1 0x00 s)"

definition global_Clear :: "u32 \<Rightarrow> bool \<Rightarrow> 'a smp_state_scheme \<Rightarrow> 'a smp_state_scheme" where
  "global_Clear c resetCursor s =
     (let (r, m) = Clear c resetCursor (kernel_renderer s, mem s) in s\<lparr>kernel_renderer := r, mem := m\<rparr>)"

definition setup_screen :: "platform \<Rightarrow> 'a isr_state_scheme \<Rightarrow> (unit, 'a isr_state_scheme) outcome" where
  "setup_screen p s =
     (let bootInformation = getBootInfo s;
          s = s\<lparr>kernel_renderer := newRenderer (framebuffer bootInformation) (psf1Font bootInformation)\<rparr>;
          s = global_Clear (col_black Colors) True s;
          s = global_Print (nl ''this is working!'' 1) s
      in obind (initGDT (gdt_address p) s) (\<lambda>_ s.
      let s = isrInstall (pit_address p) (idt_address p) s
      in Done () (global_Print (nl ''Memory Information: '' 1) s)))"

definition setup_memory :: "platform \<Rightarrow> 'a isr_state_scheme \<Rightarrow> (unit, 'a isr_state_scheme) outcome" where
  "setup_memory p s =
     obind (kprintf (nl ''init paging'' 1) [] s) (\<lambda>_ s.
     obind (kprintf ''memory addr: %x'' [ArgNum (freeMemStart (memory (getBootInfo s)))] s) (\<lambda>_ s.
     obind (initPaging (pl_limine p) (blob_begin p) (blob_size p) s) (\<lambda>_ s.
     obind (kprintf ''cr3 write complete: %x'' [ArgNum (readCr3 s)] s) (\<lambda>_ s.
     kprintf (CHR 0x0A # nl ''PAGING IS WORKING'' 1) [] s))))"

definition setup_devices ::
    "platform \<Rightarrow> ('a isr_state_scheme \<Rightarrow> 'a isr_state_scheme) \<Rightarrow> 'a isr_state_scheme \<Rightarrow>
     (unit, 'a isr_state_scheme) outcome" where
  "setup_devices p env s =
     obind (initACPI (rsdp_response p) s) (\<lambda>sdt s.
     obind (if sdt \<noteq> 0 then
              obind (kprintf (nl ''ACPI initialized!'' 1) [] s) (\<lambda>_ s.
              kprintf ''SDT addr: %x'' [ArgNum sdt] s)
            else haltAndCatchFire ''kernelEntry.cpp'' 29 [] s) (\<lambda>_ s.
     obind (initMADT s) (\<lambda>_ s.
     let s = initLAPIC (pl_device p) s in
     obind (initIOAPIC (pl_device p) s) (\<lambda>_ s.
     obind (initSMP (smp_response p) env s) (\<lambda>_ s.
     Done () (init_pic (global_Print (nl ''smp done: '' 1) s)))))))"

definition setup_processes :: "platform \<Rightarrow> 'a isr_state_scheme \<Rightarrow> (unit, 'a isr_state_scheme) outcome" where
  "setup_processes p s =
     (let (ident, s) = lapicGetID (pl_device p) s in
      obind (kprintf (CHR 0x0A # ''LAPIC ID: %d'') [ArgNum (ucast ident)] s) (\<lambda>_ s.
      obind (kprintf (CHR 0x0A # nl ''Entry completed successfully!'' 1) [] s) (\<lambda>_ s.
      let s = global_Print (nl '' before prco done: '' 1) s in
      obind (createProcessFromRoutine (wild_info p 0) (wild_thread p 0) (printNumbers_address p) PRIORITY_HIGH 0
        THREAD_READY True s) (\<lambda>_ s.
      obind (createProcessFromRoutine (wild_info p 1) (wild_thread p 1) (printNumbers2_address p) PRIORITY_HIGH 0
        THREAD_READY True s) (\<lambda>_ s.
      let s = global_Print (nl ''after proc done: '' 1) s;
          s = pitInit 25 s;
          s = global_Print (nl ''after pit done: '' 1) s
      in kprintf (CHR 0x0A # nl ''count: %d'' 1) [ArgNum (getPITCount s)] s)))))"

definition setupOptimist ::
    "platform \<Rightarrow> ('a isr_state_scheme \<Rightarrow> 'a isr_state_scheme) \<Rightarrow> 'a isr_state_scheme \<Rightarrow>
     (int, 'a isr_state_scheme) outcome" where
  "setupOptimist p env s =
     obind (setup_screen p s) (\<lambda>_ s.
     obind (setup_memory p s) (\<lambda>_ s.
     obind (setup_devices p env s) (\<lambda>_ s.
     obind (setup_processes p s) (\<lambda>_ s.
     Done 0 s))))"

text \<open>The kernel from its entry point on.\<close>

definition kernel_start ::
    "platform \<Rightarrow> (isr_state \<Rightarrow> isr_state) \<Rightarrow> isr_state \<Rightarrow> (unit, isr_state) outcome" where
  "kernel_start p env = start (setupOptimist p env) (pl_limine p)"

section \<open>What the processes print\<close>

lemma for_each_filter:
  assumes "\<And>x s. \<not> P x \<Longrightarrow> body x s = Done () s"
  shows "for_each body xs s = for_each body (filter P xs) s"
proof (induction xs arbitrary: s)
  case (Cons x xs)
  show ?case
  proof (cases "P x")
    case True
    have "(\<lambda>_ s. for_each body xs s) = (\<lambda>_ :: unit. for_each body (filter P xs))"
      using Cons.IH by (intro ext)
    with True show ?thesis by simp
  qed (simp add: assms Cons.IH)
qed simp

lemma interesting_numbers:
  assumes "2001 \<le> n" "n \<le> 2000000000"
  shows "filter (\<lambda>i :: u32. i * 2 = 400 \<or> i * 2 = 600 \<or> i * 2 = 4000) (map of_nat [0..<n]) = [200, 300, 2000]"
proof -
  have "((of_nat i :: u32) * 2 = of_nat (2 * k)) = (i = k)" if "i < n" "k \<le> 2000" for i k
  proof
    assume eq: "(of_nat i :: u32) * 2 = of_nat (2 * k)"
    have "(of_nat (2 * i) :: u32) = of_nat (2 * k)" using eq by (simp add: mult.commute)
    then have "unat (of_nat (2 * i) :: u32) = unat (of_nat (2 * k) :: u32)" by (simp only:)
    then show "i = k" using that assms(2) by (simp add: unat_of_nat take_bit_eq_mod del: of_nat_mult)
  qed simp
  from this [of _ 200] this [of _ 300] this [of _ 2000]
  have "filter (\<lambda>i :: u32. i * 2 = 400 \<or> i * 2 = 600 \<or> i * 2 = 4000) (map of_nat [0..<n]) =
      map of_nat (filter (\<lambda>i. i = 200 \<or> i = 300 \<or> i = 2000) [0..<n])"
    unfolding filter_map by (intro arg_cong [of _ _ "map of_nat"] filter_cong) auto
  also have "filter (\<lambda>i. i = 200 \<or> i = 300 \<or> i = 2000) [0..<n] = [200, 300, 2000]"
    by (rule sorted_distinct_set_unique) (use assms(1) in \<open>auto simp: sorted_wrt_filter\<close>)
  finally show ?thesis by simp
qed

lemma number_texts:
  "e9_printdec 200 = Some ''200''" "e9_printdec 300 = Some ''300''" "e9_printdec 2000 = Some ''2000''"
  by code_simp+

lemma kprintf_text:
  assumes "e9_format (c_string fmt) args = Some t"
  shows "kprintf fmt args s = Done () (fold e9_putc t s)"
  using assms by (simp add: kprintf_def e9_printf_def)

lemma print_number_200: "print_number 200 s = Done () (fold e9_putc (nl ''200: 200'' 1) s)"
  by (simp add: print_number_def kprintf_text [where t = "nl ''200: 200'' 1"] number_texts c_string_def nl_def)

lemma print_number_300: "print_number 300 s = Done () (fold e9_putc (nl ''300: 300'' 1) s)"
  by (simp add: print_number_def kprintf_text [where t = "nl ''300: 300'' 1"] number_texts c_string_def nl_def)

lemma print_number_2000: "print_number 2000 s = Done () (fold e9_putc (nl ''2000: 2000'' 1) s)"
  by (simp add: print_number_def kprintf_text [where t = "nl ''2000: 2000'' 1"] number_texts c_string_def nl_def)

lemma print_loop:
  assumes "2001 \<le> n" "n \<le> 2000000000"
  shows "for_each print_number (map of_nat [0..<n]) s = Done () (fold e9_putc
    (nl ''200: 200'' 1 @ nl ''300: 300'' 1 @ nl ''2000: 2000'' 1) s)"
proof -
  have "for_each print_number (map of_nat [0..<n]) s = for_each print_number [200, 300, 2000] s"
    unfolding interesting_numbers [OF assms, symmetric] by (rule for_each_filter) (auto simp: print_number_def)
  then show ?thesis by (simp add: print_number_200 print_number_300 print_number_2000)
qed

text \<open>
  both processes end; each prints the three numbers 200, 300 and 2000 with their texts, in this
  order and nothing else in its loop, and then its closing text.
\<close>

theorem printNumbers_output:
  "printNumbers s = Done () (fold e9_putc
     (concat [nl ''200: 200'' 1, nl ''300: 300'' 1, nl ''2000: 2000'' 1, nl ''done1'' 1]) s) \<and>
   printNumbers2 s = Done () (fold e9_putc
     (concat [nl ''200: 200'' 1, nl ''300: 300'' 1, nl ''2000: 2000'' 1, ''done'']) s)"
proof
  have "for_each print_number (map of_nat [0..<400001]) s = Done () (fold e9_putc
      (nl ''200: 200'' 1 @ nl ''300: 300'' 1 @ nl ''2000: 2000'' 1) s)"
    by (rule print_loop) simp_all
  then show "printNumbers s = Done () (fold e9_putc
     (concat [nl ''200: 200'' 1, nl ''300: 300'' 1, nl ''2000: 2000'' 1, nl ''done1'' 1]) s)"
    unfolding printNumbers_def by (simp add: kprintf_text [where t = "nl ''done1'' 1"] c_string_def nl_def)
  have "for_each print_number (map of_nat [0..<40000001]) s = Done () (fold e9_putc
      (nl ''200: 200'' 1 @ nl ''300: 300'' 1 @ nl ''2000: 2000'' 1) s)"
    by (rule print_loop) simp_all
  then show "printNumbers2 s = Done () (fold e9_putc
     (concat [nl ''200: 200'' 1, nl ''300: 300'' 1, nl ''2000: 2000'' 1, ''done'']) s)"
    unfolding printNumbers2_def by (simp add: kprintf_text [where t = "''done''"] c_string_def)
qed

end
