(* ===== verification/Kernel_Boot.thy ===== *)
theory Kernel_Boot
  imports Kernel_Entry Kernel_Space
begin

text \<open>
  What the start of the kernel leaves alone of the state of the memory management: the boot phase only
  sets the boot information, and neither the screen nor the descriptor tables touch the globals of the frame
  allocator and the page tables. So the state in which \<open>setupOptimist\<close> calls \<open>initPaging\<close> is known from
  the boot loader's answers.
\<close>

section \<open>The boot phase\<close>

text \<open>Nothing but the log, the terminal's flag and the boot information.\<close>

lemma start_boot_exact:
  assumes "lim_terminal_count lim = Some (Suc t)" "lim_framebuffers lim = Some (f # fs)"
    and "lim_memmap lim = Some es" "lim_kernel_address lim = Some ka"
    and "memmap_scan (physical_base ka) es = (b, n, k)" "b \<noteq> 0"
    and "lim_modules lim = Some ms" "getFile ms = Some (Some file)"
    and "mem s (file_address file) = PSF1_MAGIC0" "mem s (file_address file + 1) = PSF1_MAGIC1"
    and "lim_hhdm_offset lim = Some off"
  shows "\<exists>l p fb font. start_boot lim s = Done () (s\<lparr>io_log := l, limine_print := p,
    globalBootInfo := \<lparr>framebuffer = fb, psf1Font = font, memory = \<lparr>freeMemStart = b, extraMemStart = b,
      freeMemSize = n, kernelStart = physical_base ka, kernelSize = k, kernelStartV = virtual_base ka,
      hhdmOffset = off\<rparr>\<rparr>\<rparr>)"
proof -
  obtain l1 where 1: "start_terminal lim s = Done () (s\<lparr>limine_print := True, io_log := l1\<rparr>)"
    using assms(1) by (simp add: start_terminal_def terminal_write_def)
  obtain fb l2 where 2: "start_framebuffer lim (s\<lparr>limine_print := True, io_log := l1\<rparr>) =
      Done fb (s\<lparr>limine_print := True, io_log := l2\<rparr>)"
    using assms(2) by (simp add: start_framebuffer_def terminal_write_def e9_print_def fold_putc_log)
  obtain l3 where 3: "start_kernel_address lim (s\<lparr>limine_print := True, io_log := l2\<rparr>) =
      Done (es, ka) (s\<lparr>limine_print := True, io_log := l3\<rparr>)"
    using start_kernel_address_Done [OF assms(3,4), of "s\<lparr>limine_print := True, io_log := l2\<rparr>"] by auto
  obtain font where 4: "start_font lim (s\<lparr>limine_print := True, io_log := l3\<rparr>) =
      Done font (s\<lparr>limine_print := True, io_log := l3\<rparr>)"
    using assms(7-10) by (simp add: start_font_def)
  let ?mi = "\<lparr>freeMemStart = b, extraMemStart = b, freeMemSize = n, kernelStart = physical_base ka,
      kernelSize = k, kernelStartV = virtual_base ka, hhdmOffset = off\<rparr>"
  obtain l5 where 5: "start_publish fb font ?mi (s\<lparr>limine_print := True, io_log := l3\<rparr>) =
      Done () (setBootInfo \<lparr>framebuffer = fb, psf1Font = font, memory = ?mi\<rparr> (s\<lparr>limine_print := True, io_log := l5\<rparr>))"
    using start_publish_Done [of fb font ?mi "s\<lparr>limine_print := True, io_log := l3\<rparr>"] by auto
  have "start_boot lim s = Done () (s\<lparr>io_log := l5, limine_print := True,
      globalBootInfo := \<lparr>framebuffer = fb, psf1Font = font, memory = ?mi\<rparr>\<rparr>)"
    using assms(5,6,11) by (simp add: start_boot_def 1 2 3 4 5 setBootInfo_def)
  then show ?thesis by blast
qed

section \<open>Screen and descriptor tables\<close>

text \<open>The globals of the memory management that matter before the first allocation.\<close>

definition mm_view :: "'a paging_state_scheme \<Rightarrow> ptr \<times> bootInfo \<times> bootInfo \<times> u32" where
  "mm_view s = (frame_head s, bootInformation s, globalBootInfo s, paging_mutex s)"

lemma global_Print_view [simp]: "mm_view (global_Print t s) = mm_view s"
  by (simp add: global_Print_def mm_view_def split: prod.splits)

lemma isrInstall_view [simp]: "mm_view (isrInstall pit a s) = mm_view s"
  by (simp add: isrInstall_def fold_gates [OF order_refl] idtInit_def idtInitAgain_def cli_def sti_def mm_view_def Let_def)

lemma initGDT_view: "\<exists>s'. initGDT a s = Done () s' \<and> mm_view s' = mm_view s"
proof -
  have ok: "fmt_ok (c_string ''done'') []" by (simp add: fmt_eval)
  show ?thesis by (simp add: initGDT_def gdtFlush_def Let_def kprintf_Done [OF ok] mm_view_def)
qed

lemma setup_screen_view: "\<exists>s'. setup_screen p s = Done () s' \<and> mm_view s' = mm_view s"
proof -
  let ?r = "newRenderer (framebuffer (getBootInfo s)) (psf1Font (getBootInfo s))"
  let ?s = "global_Print (nl ''this is working!'' 1) (global_Clear (col_black Colors) True (s\<lparr>kernel_renderer := ?r\<rparr>))"
  obtain t where t: "initGDT (gdt_address p) ?s = Done () t" "mm_view t = mm_view ?s"
    using initGDT_view by blast
  have "mm_view ?s = mm_view s"
    by (simp add: global_Clear_def split: prod.splits) (simp add: mm_view_def)
  then show ?thesis using t by (simp add: setup_screen_def Let_def)
qed

section \<open>Up to the end of initPaging\<close>

lemma fresh_alloc_ok:
  assumes "mm_view s = (0, b, g, 0)" "hhdmOffset (memory b) = 0" "memory g = m"
    and "page_aligned (freeMemStart m)" "page_aligned (hhdmOffset m)" "freeMemStart m \<noteq> 0"
    and "unat (hhdmOffset m) + unat (freeMemStart m) + unat (freeMemSize m) + 40 \<le> 2 ^ 64"
  shows "alloc_ok s" "next_free s = freeMemStart m + hhdmOffset m" "room s = freeMemSize m" "hhdm s = hhdmOffset m"
    "unat (next_free s) = unat (freeMemStart m) + unat (hhdmOffset m)"
proof -
  have s: "frame_head s = 0" "bootInformation s = b" "globalBootInfo s = g" using assms(1) by (simp_all add: mm_view_def)
  show next_free: "next_free s = freeMemStart m + hhdmOffset m" and room: "room s = freeMemSize m"
    and hhdm: "hhdm s = hhdmOffset m"
    using s assms(3) by (simp_all add: next_free_def room_def hhdm_def)
  have sum: "unat (freeMemStart m + hhdmOffset m) = unat (freeMemStart m) + unat (hhdmOffset m)"
    using assms(7) by (simp add: unat_plus_if')
  then show "unat (next_free s) = unat (freeMemStart m) + unat (hhdmOffset m)" by (simp add: next_free)
  have "freeMemStart m \<noteq> -1" using assms(4) by (auto simp: page_aligned_def unsigned_minus_1_eq_mask mask_eq_exp_minus_1)
  moreover have "0 < unat (freeMemStart m)" using assms(6) by (simp add: unat_gt_0)
  moreover have "page_aligned (freeMemStart m + hhdmOffset m)"
    using assms(4,5) by (intro page_aligned_add)
  ultimately show "alloc_ok s"
    using assms s sum by (simp add: alloc_ok_def next_free room hhdm)
qed

text \<open>Printing does not change the address space.\<close>

lemma log_ents: "ents (s\<lparr>io_log := l\<rparr>) = ents s"
  by (simp add: fun_eq_iff ents_def hhdm_def)

lemma log_paging:
  "maps_to (s\<lparr>io_log := l\<rparr>) = maps_to s" "paging_ok (s\<lparr>io_log := l\<rparr>) = paging_ok s"
  by (simp_all add: fun_eq_iff maps_to_def translate_def log_ents paging_ok_def pt_ok_def alloc_ok_def next_free_def
      room_def hhdm_def boot_current_def table_place_def)

lemma kprintf_log: "fmt_ok (c_string fmt) args \<Longrightarrow> \<exists>l'. kprintf fmt args (s\<lparr>io_log := l\<rparr>) = Done () (s\<lparr>io_log := l'\<rparr>)"
  by (simp add: kprintf_Done) (rule exI, rule refl)

definition image_mapped :: "u64 \<Rightarrow> limine_memmap_entry list \<Rightarrow> limine_kernel_address \<Rightarrow> u64 \<Rightarrow> nat \<Rightarrow> 'a paging_state_scheme \<Rightarrow> bool" where
  "image_mapped off es ka first n s \<longleftrightarrow> paging_ok s \<and> cr3 s = PML4 s \<and> paging_mutex s = 0 \<and>
     (\<forall>va. unat va < 2 ^ 32 \<longrightarrow> maps_to s va va \<and> maps_to s (va + off) va) \<and>
     (\<forall>e \<in> set es. is_high e \<longrightarrow>
       (\<forall>pa. unat (me_base e) \<le> unat pa \<and> unat pa < entry_end e \<longrightarrow> maps_to s (pa + off) pa)) \<and>
     (\<forall>va. unat (va - first) < 4096 * n \<longrightarrow> maps_to s va (image_frame ka va))"

lemma log_image_mapped: "image_mapped off es ka first n (s\<lparr>io_log := l\<rparr>) = image_mapped off es ka first n s"
  by (simp add: image_mapped_def log_paging)

lemma offset_page_aligned: "offset_ok off \<Longrightarrow> page_aligned off"
  unfolding offset_ok_def page_aligned_def by (rule dvd_trans [of _ "2 ^ 30"]) auto

lemma setup_memory_ok:
  assumes "mm_view s = (0, b, g, 0)" "hhdmOffset (memory b) = 0" "memory g = m"
    and "page_aligned (freeMemStart m)" "freeMemStart m \<noteq> 0"
    and "unat (hhdmOffset m) + unat (freeMemStart m) + unat (freeMemSize m) + 40 \<le> 2 ^ 64"
    and "unat (freeMemStart m) + unat (freeMemSize m) \<le> 2 ^ 52"
    and lim: "lim_hhdm_offset (pl_limine p) = Some (hhdmOffset m)" "lim_memmap (pl_limine p) = Some es"
      "lim_kernel_address (pl_limine p) = Some ka"
    and off: "offset_ok (hhdmOffset m)" and es: "memmap_ok (hhdmOffset m) hi es"
    and blob: "blob_ok ka (hhdmOffset m) hi (blob_first (blob_begin p)) (blob_pages (blob_begin p) (blob_size p))"
    and needs: "paging_needs (blob_pages (blob_begin p) (blob_size p)) + memmap_needs es \<le> unat (freeMemSize m)"
  shows "\<exists>s'. setup_memory p s = Done () s' \<and>
    image_mapped (hhdmOffset m) es ka (blob_first (blob_begin p)) (blob_pages (blob_begin p) (blob_size p)) s'"
proof -
  have ok: "fmt_ok (c_string (nl ''init paging'' 1)) []" "fmt_ok (c_string ''memory addr: %x'') [ArgNum n]"
    "fmt_ok (c_string ''cr3 write complete: %x'') [ArgNum n]" "fmt_ok (c_string (CHR 0x0A # nl ''PAGING IS WORKING'' 1)) []" for n
    by (simp_all add: fmt_eval)
  obtain l where 1: "kprintf (nl ''init paging'' 1) [] s = Done () (s\<lparr>io_log := l\<rparr>)" using kprintf_Done [OF ok(1)] by blast
  obtain l' where 2: "kprintf ''memory addr: %x'' [ArgNum (freeMemStart (memory (getBootInfo (s\<lparr>io_log := l\<rparr>))))] (s\<lparr>io_log := l\<rparr>)
      = Done () (s\<lparr>io_log := l'\<rparr>)" using kprintf_log [OF ok(2)] by blast
  let ?t = "s\<lparr>io_log := l'\<rparr>"
  have view: "mm_view ?t = (0, b, g, 0)" using assms(1) by (simp add: mm_view_def)
  note fresh = fresh_alloc_ok [OF view assms(2,3,4) offset_page_aligned [OF off] assms(5,6)]
  have small: "unat (next_free ?t) + unat (room ?t) \<le> unat (hhdm ?t) + 2 ^ 52"
    using fresh assms(7) by simp
  have "paging_mutex ?t = 0" using view by (simp add: mm_view_def)
  from initPaging_builds_space [OF this fresh(1) small lim off es blob] needs
  obtain u where u: "initPaging (pl_limine p) (blob_begin p) (blob_size p) ?t = Done () u"
    "image_mapped (hhdmOffset m) es ka (blob_first (blob_begin p)) (blob_pages (blob_begin p) (blob_size p)) u"
    by (auto simp: fresh(3) image_mapped_def)
  obtain l2 where 3: "kprintf ''cr3 write complete: %x'' [ArgNum (readCr3 u)] u = Done () (u\<lparr>io_log := l2\<rparr>)"
    using kprintf_Done [OF ok(3)] by blast
  obtain l3 where 4: "kprintf (CHR 0x0A # nl ''PAGING IS WORKING'' 1) [] (u\<lparr>io_log := l2\<rparr>) = Done () (u\<lparr>io_log := l3\<rparr>)"
    using kprintf_log [OF ok(4)] by blast
  show ?thesis using u(2) by (simp add: setup_memory_def 1 2 3 4 u(1) log_image_mapped del: One_nat_def)
qed

lemma kernel_start_steps:
  assumes "start_boot (pl_limine p) s = Done () s1" "setup_screen p s1 = Done () s2" "setup_memory p s2 = Done () s3"
  shows "kernel_start p env s =
    obind (setup_devices p env s3) (\<lambda>_ s. obind (setup_processes p s) (\<lambda>_ s. Loops))"
  by (simp add: kernel_start_def start_def setupOptimist_def assms obind_assoc)

end
