(* ===== verification/Stl_Ops.thy ===== *)
theory Stl_Ops
  imports Main "HOL-Library.Multiset"
begin

text \<open>
  The C++ library headers the kernel ships (\<open>kernel/include/bits\<close>): what their algorithms share. A
  range of objects is a list, a random access iterator into it a position; \<open>*it\<close> is \<open>xs ! it\<close> and an
  assignment through it \<open>xs[it := v]\<close>. The algorithms demand valid ranges, so positions they use lie
  inside the list. The function objects of \<open>predefined_ops.h\<close> apply a comparison or a predicate to
  what iterators point at.
\<close>

section \<open>Function objects\<close>

definition iter_less_iter :: "'a::linorder list \<Rightarrow> nat \<Rightarrow> nat \<Rightarrow> bool" where
  "iter_less_iter xs i j \<longleftrightarrow> xs ! i < xs ! j"

definition iter_less_val :: "'a::linorder list \<Rightarrow> nat \<Rightarrow> 'a \<Rightarrow> bool" where
  "iter_less_val xs i v \<longleftrightarrow> xs ! i < v"

definition val_less_iter :: "'a::linorder list \<Rightarrow> 'a \<Rightarrow> nat \<Rightarrow> bool" where
  "val_less_iter xs v i \<longleftrightarrow> v < xs ! i"

definition iter_equal_to_iter :: "'a list \<Rightarrow> nat \<Rightarrow> nat \<Rightarrow> bool" where
  "iter_equal_to_iter xs i j \<longleftrightarrow> xs ! i = xs ! j"

definition iter_equal_to_val :: "'a list \<Rightarrow> nat \<Rightarrow> 'a \<Rightarrow> bool" where
  "iter_equal_to_val xs i v \<longleftrightarrow> xs ! i = v"

definition iter_comp_iter :: "('a \<Rightarrow> 'a \<Rightarrow> bool) \<Rightarrow> 'a list \<Rightarrow> nat \<Rightarrow> nat \<Rightarrow> bool" where
  "iter_comp_iter cmp xs i j \<longleftrightarrow> cmp (xs ! i) (xs ! j)"

definition iter_comp_val :: "('a \<Rightarrow> 'b \<Rightarrow> bool) \<Rightarrow> 'a list \<Rightarrow> nat \<Rightarrow> 'b \<Rightarrow> bool" where
  "iter_comp_val cmp xs i v \<longleftrightarrow> cmp (xs ! i) v"

definition val_comp_iter :: "('b \<Rightarrow> 'a \<Rightarrow> bool) \<Rightarrow> 'a list \<Rightarrow> 'b \<Rightarrow> nat \<Rightarrow> bool" where
  "val_comp_iter cmp xs v i \<longleftrightarrow> cmp v (xs ! i)"

definition iter_equals_val :: "'a \<Rightarrow> 'a list \<Rightarrow> nat \<Rightarrow> bool" where
  "iter_equals_val v xs i \<longleftrightarrow> xs ! i = v"

definition iter_pred :: "('a \<Rightarrow> bool) \<Rightarrow> 'a list \<Rightarrow> nat \<Rightarrow> bool" where
  "iter_pred p xs i \<longleftrightarrow> p (xs ! i)"

named_theorems iter_ops "what the function objects compute"

lemmas iter_op_defs [iter_ops] = iter_less_iter_def iter_less_val_def val_less_iter_def
  iter_equal_to_iter_def iter_equal_to_val_def iter_comp_iter_def iter_comp_val_def val_comp_iter_def
  iter_equals_val_def iter_pred_def

text \<open>The objects without a comparison are those for \<open><\<close> and \<open>==\<close>.\<close>

lemma iter_less_comp:
  "iter_less_iter = iter_comp_iter (<)" "iter_less_val = iter_comp_val (<)" "val_less_iter = val_comp_iter (<)"
  "iter_equal_to_iter = iter_comp_iter (=)" "iter_equal_to_val = iter_comp_val (=)"
  by (simp_all add: fun_eq_iff iter_ops)

section \<open>Comparisons\<close>

text \<open>
  What the sorting algorithms demand of a comparison: a strict weak ordering. \<open>le\<close> is the order it
  stands for.
\<close>

locale weak_order =
  fixes cmp :: "'a \<Rightarrow> 'a \<Rightarrow> bool"
  assumes asym: "cmp x y \<Longrightarrow> \<not> cmp y x"
    and neg_trans: "\<not> cmp x y \<Longrightarrow> \<not> cmp y z \<Longrightarrow> \<not> cmp x z"
begin

definition le :: "'a \<Rightarrow> 'a \<Rightarrow> bool" where
  "le x y \<longleftrightarrow> \<not> cmp y x"

lemma irrefl [simp]: "\<not> cmp x x"
  using asym by blast

lemma le_refl [simp, intro]: "le x x"
  using asym by (auto simp: le_def)

lemma le_trans [trans]: "le x y \<Longrightarrow> le y z \<Longrightarrow> le x z"
  using neg_trans by (auto simp: le_def)

lemma comp_le: "cmp x y \<Longrightarrow> le x y"
  using asym by (auto simp: le_def)

lemma not_comp_le: "\<not> cmp x y \<longleftrightarrow> le y x"
  by (simp add: le_def)

end

interpretation less_order: weak_order "(<) :: 'a::linorder \<Rightarrow> 'a \<Rightarrow> bool"
  by unfold_locales auto

text \<open>A list in the order of a comparison.\<close>

definition ordered :: "('a \<Rightarrow> 'a \<Rightarrow> bool) \<Rightarrow> 'a list \<Rightarrow> bool" where
  "ordered cmp xs \<longleftrightarrow> sorted_wrt (\<lambda>x y. \<not> cmp y x) xs"

lemma ordered_less [simp]: "ordered (<) (xs :: 'a::linorder list) \<longleftrightarrow> sorted xs"
  by (simp add: ordered_def not_less)

section \<open>Parts of a list\<close>

text \<open>The range from \<open>first\<close> up to, not including, \<open>stop\<close>.\<close>

definition range_of :: "nat \<Rightarrow> nat \<Rightarrow> 'a list \<Rightarrow> 'a list" where
  "range_of first stop xs = take (stop - first) (drop first xs)"

lemma length_range_of: "stop \<le> length xs \<Longrightarrow> length (range_of first stop xs) = stop - first"
  by (simp add: range_of_def)

lemma nth_range_of: "i < stop - first \<Longrightarrow> stop \<le> length xs \<Longrightarrow> range_of first stop xs ! i = xs ! (first + i)"
  by (simp add: range_of_def)

lemma range_of_parts: "range_of (length ps) (length ps + length as) (ps @ as @ ss) = as"
  by (simp add: range_of_def)

lemma set_range_of:
  assumes "stop \<le> length xs"
  shows "set (range_of first stop xs) = {xs ! i | i. first \<le> i \<and> i < stop}"
proof -
  have "xs ! i \<in> set (range_of first stop xs)" if "first \<le> i" "i < stop" for i
    using that assms nth_mem [of "i - first" "range_of first stop xs"] by (simp add: length_range_of nth_range_of)
  then show ?thesis
    using assms by (fastforce simp: in_set_conv_nth length_range_of nth_range_of)
qed

lemma ordered_range:
  assumes "stop \<le> length xs"
  shows "ordered cmp (range_of first stop xs) \<longleftrightarrow>
    (\<forall>i j. first \<le> i \<longrightarrow> i < j \<longrightarrow> j < stop \<longrightarrow> \<not> cmp (xs ! j) (xs ! i))"
proof
  assume o: "ordered cmp (range_of first stop xs)"
  show "\<forall>i j. first \<le> i \<longrightarrow> i < j \<longrightarrow> j < stop \<longrightarrow> \<not> cmp (xs ! j) (xs ! i)"
  proof (intro allI impI)
    fix i j assume "first \<le> i" "i < j" "j < stop"
    moreover from this have "\<not> cmp (range_of first stop xs ! (j - first)) (range_of first stop xs ! (i - first))"
      using o assms by (simp add: ordered_def sorted_wrt_iff_nth_less length_range_of)
    ultimately show "\<not> cmp (xs ! j) (xs ! i)" using assms by (simp add: nth_range_of)
  qed
qed (use assms in \<open>simp add: ordered_def sorted_wrt_iff_nth_less length_range_of nth_range_of\<close>)

text \<open>The permutations of a range: what an algorithm does that only moves elements inside it.\<close>

definition permutes_range :: "nat \<Rightarrow> nat \<Rightarrow> 'a list \<Rightarrow> 'a list \<Rightarrow> bool" where
  "permutes_range first stop xs ys \<longleftrightarrow> length ys = length xs \<and> mset ys = mset xs \<and>
     (\<forall>i < length xs. i < first \<or> stop \<le> i \<longrightarrow> ys ! i = xs ! i)"

lemma permutes_range_refl [simp]: "permutes_range first stop xs xs"
  by (simp add: permutes_range_def)

lemma permutes_range_trans [trans]:
  "permutes_range first stop xs ys \<Longrightarrow> permutes_range first stop ys zs \<Longrightarrow> permutes_range first stop xs zs"
  by (simp add: permutes_range_def)

lemma permutes_range_sym: "permutes_range first stop xs ys \<Longrightarrow> permutes_range first stop ys xs"
  by (auto simp: permutes_range_def)

lemma permutes_range_mono:
  "permutes_range a b xs ys \<Longrightarrow> first \<le> a \<Longrightarrow> b \<le> stop \<Longrightarrow> permutes_range first stop xs ys"
  by (auto simp: permutes_range_def)

definition swap_at :: "nat \<Rightarrow> nat \<Rightarrow> 'a list \<Rightarrow> 'a list" where
  "swap_at i j xs = xs[i := xs ! j, j := xs ! i]"

lemma length_swap_at [simp]: "length (swap_at i j xs) = length xs"
  by (simp add: swap_at_def)

lemma nth_swap_at:
  "i < length xs \<Longrightarrow> j < length xs \<Longrightarrow> swap_at i j xs ! k = (if k = i then xs ! j else if k = j then xs ! i else xs ! k)"
  by (auto simp: swap_at_def nth_list_update)

lemma swap_at_parts:
  "swap_at (length ps) (length ps + 1 + length s1) (ps @ x # s1 @ y # s2) = ps @ y # s1 @ x # s2"
  by (simp add: swap_at_def nth_append list_update_append)

lemma permutes_swap_at:
  assumes "first \<le> i" "i < stop" "first \<le> j" "j < stop" "stop \<le> length xs"
  shows "permutes_range first stop xs (swap_at i j xs)"
  using assms mset_swap [of j xs i] by (auto simp: permutes_range_def nth_swap_at swap_at_def)

text \<open>A permutation of a range permutes its elements.\<close>

lemma range_split: "first \<le> stop \<Longrightarrow> xs = take first xs @ range_of first stop xs @ drop stop xs"
  by (simp add: range_of_def) (metis append_take_drop_id drop_drop le_add_diff_inverse2)

lemma permutes_range_split:
  assumes "permutes_range first stop xs ys" "first \<le> stop" "stop \<le> length xs"
  shows "take first ys = take first xs" "drop stop ys = drop stop xs"
    "mset (range_of first stop ys) = mset (range_of first stop xs)"
proof -
  have len: "length ys = length xs" and m: "mset ys = mset xs" using assms(1) by (auto simp: permutes_range_def)
  show t: "take first ys = take first xs"
    using assms by (intro nth_equalityI) (auto simp: permutes_range_def)
  show d: "drop stop ys = drop stop xs"
    using assms by (intro nth_equalityI) (auto simp: permutes_range_def)
  have "mset ys = mset (take first ys) + mset (range_of first stop ys) + mset (drop stop ys)"
    using range_split [OF assms(2), of ys] by (metis add.assoc mset_append)
  moreover have "mset xs = mset (take first xs) + mset (range_of first stop xs) + mset (drop stop xs)"
    using range_split [OF assms(2), of xs] by (metis add.assoc mset_append)
  ultimately show "mset (range_of first stop ys) = mset (range_of first stop xs)"
    using t d m by simp
qed

lemma permutes_range_all:
  assumes "permutes_range first stop xs ys" "stop \<le> length xs"
    "\<And>i. first \<le> i \<Longrightarrow> i < stop \<Longrightarrow> P (xs ! i)" "first \<le> i" "i < stop"
  shows "P (ys ! i)"
proof -
  have len: "length ys = length xs" using assms(1) by (simp add: permutes_range_def)
  have "mset (range_of first stop ys) = mset (range_of first stop xs)"
    using permutes_range_split(3) [OF assms(1)] assms(2,4,5) by simp
  then have "set (range_of first stop ys) = set (range_of first stop xs)" by (rule mset_eq_setD)
  then have "ys ! i \<in> {xs ! i | i. first \<le> i \<and> i < stop}"
    using assms(2,4,5) len set_range_of [of stop ys first] set_range_of [of stop xs first] by auto
  then obtain j where "ys ! i = xs ! j" "first \<le> j" "j < stop" by blast
  with assms(3) [of j] show ?thesis by simp
qed

section \<open>Classes of equivalent elements\<close>

text \<open>The elements that the comparison does not tell from \<open>v\<close>, in their order.\<close>

definition equivs :: "('a \<Rightarrow> 'a \<Rightarrow> bool) \<Rightarrow> 'a \<Rightarrow> 'a list \<Rightarrow> 'a list" where
  "equivs cmp v xs = filter (\<lambda>x. \<not> cmp v x \<and> \<not> cmp x v) xs"

lemma equivs_append: "equivs cmp v (xs @ ys) = equivs cmp v xs @ equivs cmp v ys"
  by (simp add: equivs_def)

lemma equivs_Nil [simp]: "equivs cmp v [] = []"
  by (simp add: equivs_def)

lemma equivs_Cons: "equivs cmp v (x # xs) = (if \<not> cmp v x \<and> \<not> cmp x v then x # equivs cmp v xs else equivs cmp v xs)"
  by (simp add: equivs_def)

context weak_order
begin

lemma same_class: "\<not> cmp x y \<Longrightarrow> \<not> cmp y x \<Longrightarrow> \<not> cmp v x \<and> \<not> cmp x v \<longleftrightarrow> \<not> cmp v y \<and> \<not> cmp y v"
  using neg_trans by blast

text \<open>Moving an element over larger ones leaves every class in its order.\<close>

lemma equivs_move:
  assumes "\<And>z. z \<in> set zs \<Longrightarrow> cmp x z"
  shows "equivs cmp u (x # zs) = equivs cmp u (zs @ [x])"
proof (cases "\<not> cmp u x \<and> \<not> cmp x u")
  case True
  then have "equivs cmp u zs = []"
    unfolding equivs_def using assms neg_trans by (intro filter_False) blast
  then show ?thesis by (simp add: equivs_append equivs_Cons)
next
  case False
  then have "equivs cmp u [x] = []" by (simp add: equivs_Cons)
  moreover have "equivs cmp u (x # zs) = equivs cmp u [x] @ equivs cmp u zs" by (simp flip: equivs_append)
  ultimately show ?thesis by (simp add: equivs_append)
qed

lemma equivs_swap:
  assumes "Suc n < length xs" "cmp (xs ! Suc n) (xs ! n)"
  shows "equivs cmp u (swap_at n (Suc n) xs) = equivs cmp u xs"
proof -
  have xs: "xs = take n xs @ [xs ! n] @ [xs ! Suc n] @ drop (Suc (Suc n)) xs"
    using assms(1) by (simp add: Cons_nth_drop_Suc)
  have "swap_at n (Suc n) xs = take n xs @ [xs ! Suc n, xs ! n] @ drop (Suc (Suc n)) xs"
  proof (rule nth_equalityI)
    fix i assume "i < length (swap_at n (Suc n) xs)"
    then show "swap_at n (Suc n) xs ! i = (take n xs @ [xs ! Suc n, xs ! n] @ drop (Suc (Suc n)) xs) ! i"
      using assms(1) by (auto simp: nth_swap_at nth_append nth_Cons' intro!: arg_cong [where f = "(!) xs"])
  qed (use assms(1) in simp)
  moreover have "equivs cmp u [xs ! Suc n, xs ! n] = equivs cmp u ([xs ! n] @ [xs ! Suc n])"
    using assms(2) by (intro equivs_move) simp
  ultimately show ?thesis
    by (subst xs) (simp only: equivs_append append_assoc)
qed

end

end
