(* ===== verification/Stl_Heap.thy ===== *)
theory Stl_Heap
  imports Stl_Ops
begin

text \<open>
  The heap algorithms of \<open>kernel/include/bits/stl_heap.h\<close>: a binary heap in a range, the largest element
  first. The internal routines take the comparison that their function object wraps.
\<close>

section \<open>Testing\<close>

function is_heap_loop :: "('a \<Rightarrow> 'a \<Rightarrow> bool) \<Rightarrow> nat \<Rightarrow> nat \<Rightarrow> nat \<Rightarrow> nat \<Rightarrow> 'a list \<Rightarrow> nat" where
  "is_heap_loop cmp first n parent child xs =
     (if child < n then
        (if iter_comp_iter cmp xs (first + parent) (first + child) then child
         else is_heap_loop cmp first n (if child mod 2 = 0 then parent + 1 else parent) (child + 1) xs)
      else n)"
  by pat_completeness auto
termination by (relation "measure (\<lambda>(c, f, n, p, child, xs). n - child)") auto

declare is_heap_loop.simps [simp del]

definition is_heap_until_n :: "('a \<Rightarrow> 'a \<Rightarrow> bool) \<Rightarrow> nat \<Rightarrow> nat \<Rightarrow> 'a list \<Rightarrow> nat" where
  "is_heap_until_n cmp first n xs = is_heap_loop cmp first n 0 1 xs"

definition is_heap_n :: "nat \<Rightarrow> nat \<Rightarrow> 'a::linorder list \<Rightarrow> bool" where
  "is_heap_n first n xs \<longleftrightarrow> is_heap_until_n (<) first n xs = n"

definition is_heap_n_comp :: "('a \<Rightarrow> 'a \<Rightarrow> bool) \<Rightarrow> nat \<Rightarrow> nat \<Rightarrow> 'a list \<Rightarrow> bool" where
  "is_heap_n_comp cmp first n xs \<longleftrightarrow> is_heap_until_n cmp first n xs = n"

definition is_heap_range :: "nat \<Rightarrow> nat \<Rightarrow> 'a::linorder list \<Rightarrow> bool" where
  "is_heap_range first stop xs = is_heap_n first (stop - first) xs"

definition is_heap_range_comp :: "('a \<Rightarrow> 'a \<Rightarrow> bool) \<Rightarrow> nat \<Rightarrow> nat \<Rightarrow> 'a list \<Rightarrow> bool" where
  "is_heap_range_comp cmp first stop xs = is_heap_n_comp cmp first (stop - first) xs"

definition is_heap_until :: "nat \<Rightarrow> nat \<Rightarrow> 'a::linorder list \<Rightarrow> nat" where
  "is_heap_until first stop xs = first + is_heap_until_n (<) first (stop - first) xs"

definition is_heap_until_comp :: "('a \<Rightarrow> 'a \<Rightarrow> bool) \<Rightarrow> nat \<Rightarrow> nat \<Rightarrow> 'a list \<Rightarrow> nat" where
  "is_heap_until_comp cmp first stop xs = first + is_heap_until_n cmp first (stop - first) xs"

definition is_heap :: "nat \<Rightarrow> nat \<Rightarrow> 'a::linorder list \<Rightarrow> bool" where
  "is_heap first stop xs \<longleftrightarrow> is_heap_until first stop xs = stop"

definition is_heap_comp :: "('a \<Rightarrow> 'a \<Rightarrow> bool) \<Rightarrow> nat \<Rightarrow> nat \<Rightarrow> 'a list \<Rightarrow> bool" where
  "is_heap_comp cmp first stop xs \<longleftrightarrow> (let dist = stop - first in is_heap_until_n cmp first dist xs = dist)"

section \<open>Pushing\<close>

function push_heap_hole ::
    "('a \<Rightarrow> 'a \<Rightarrow> bool) \<Rightarrow> nat \<Rightarrow> nat \<Rightarrow> nat \<Rightarrow> 'a \<Rightarrow> 'a list \<Rightarrow> 'a list" where
  "push_heap_hole cmp first holeIndex topIndex val xs =
     (let parent = (holeIndex - 1) div 2 in
      if holeIndex > topIndex \<and> iter_comp_val cmp xs (first + parent) val then
        push_heap_hole cmp first parent topIndex val (xs[first + holeIndex := xs ! (first + parent)])
      else xs[first + holeIndex := val])"
  by pat_completeness auto
termination by (relation "measure (\<lambda>(c, f, h, t, v, xs). h)") auto

declare push_heap_hole.simps [simp del]

definition push_heap :: "nat \<Rightarrow> nat \<Rightarrow> 'a::linorder list \<Rightarrow> 'a list" where
  "push_heap first stop xs =
     (let val = xs ! (stop - 1) in push_heap_hole (<) first ((stop - first) - 1) 0 val xs)"

definition push_heap_comp :: "('a \<Rightarrow> 'a \<Rightarrow> bool) \<Rightarrow> nat \<Rightarrow> nat \<Rightarrow> 'a list \<Rightarrow> 'a list" where
  "push_heap_comp cmp first stop xs =
     (let val = xs ! (stop - 1) in push_heap_hole cmp first ((stop - first) - 1) 0 val xs)"

section \<open>Popping\<close>

text \<open>
  The descent of the hole to a leaf, always to the larger child; the lengths are signed in the code,
  so \<open>(len - 2) / 2\<close> is taken of integers.
\<close>

function descend ::
    "('a \<Rightarrow> 'a \<Rightarrow> bool) \<Rightarrow> nat \<Rightarrow> nat \<Rightarrow> nat \<Rightarrow> nat \<Rightarrow> 'a list \<Rightarrow> nat \<times> nat \<times> 'a list" where
  "descend cmp first len holeIndex secondChild xs =
     (if secondChild < (len - 1) div 2 then
        let secondChild = 2 * (secondChild + 1);
            secondChild = (if iter_comp_iter cmp xs (first + secondChild) (first + (secondChild - 1))
              then secondChild - 1 else secondChild)
        in descend cmp first len secondChild secondChild
             (xs[first + holeIndex := xs ! (first + secondChild)])
      else (holeIndex, secondChild, xs))"
  by pat_completeness auto
termination by (relation "measure (\<lambda>(c, f, len, h, s, xs). len - s)") (auto simp: Let_def)

declare descend.simps [simp del]

definition adjust_heap :: "('a \<Rightarrow> 'a \<Rightarrow> bool) \<Rightarrow> nat \<Rightarrow> nat \<Rightarrow> nat \<Rightarrow> 'a \<Rightarrow> 'a list \<Rightarrow> 'a list" where
  "adjust_heap cmp first holeIndex len val xs =
     (let topIndex = holeIndex;
          (holeIndex, secondChild, xs) = descend cmp first len holeIndex holeIndex xs;
          (holeIndex, xs) =
            (if len mod 2 = 0 \<and> int secondChild = (int len - 2) div 2 then
               let secondChild = 2 * (secondChild + 1)
               in (secondChild - 1, xs[first + holeIndex := xs ! (first + (secondChild - 1))])
             else (holeIndex, xs))
      in push_heap_hole cmp first holeIndex topIndex val xs)"

definition pop_heap_to :: "('a \<Rightarrow> 'a \<Rightarrow> bool) \<Rightarrow> nat \<Rightarrow> nat \<Rightarrow> nat \<Rightarrow> 'a list \<Rightarrow> 'a list" where
  "pop_heap_to cmp first stop result xs =
     (let val = xs ! result;
          xs = xs[result := xs ! first]
      in adjust_heap cmp first 0 (stop - first) val xs)"

definition pop_heap :: "nat \<Rightarrow> nat \<Rightarrow> 'a::linorder list \<Rightarrow> 'a list" where
  "pop_heap first stop xs =
     (if stop - first > 1 then let stop = stop - 1 in pop_heap_to (<) first stop stop xs else xs)"

definition pop_heap_comp :: "('a \<Rightarrow> 'a \<Rightarrow> bool) \<Rightarrow> nat \<Rightarrow> nat \<Rightarrow> 'a list \<Rightarrow> 'a list" where
  "pop_heap_comp cmp first stop xs =
     (if stop - first > 1 then let stop = stop - 1 in pop_heap_to cmp first stop stop xs else xs)"

section \<open>Making and sorting\<close>

fun make_heap_loop :: "('a \<Rightarrow> 'a \<Rightarrow> bool) \<Rightarrow> nat \<Rightarrow> nat \<Rightarrow> nat \<Rightarrow> 'a list \<Rightarrow> 'a list" where
  "make_heap_loop cmp first len parent xs =
     (let val = xs ! (first + parent);
          xs = adjust_heap cmp first parent len val xs
      in if parent = 0 then xs else make_heap_loop cmp first len (parent - 1) xs)"

declare make_heap_loop.simps [simp del]

definition make_heap_with :: "('a \<Rightarrow> 'a \<Rightarrow> bool) \<Rightarrow> nat \<Rightarrow> nat \<Rightarrow> 'a list \<Rightarrow> 'a list" where
  "make_heap_with cmp first stop xs =
     (if stop - first < 2 then xs
      else let len = stop - first; parent = (len - 2) div 2 in make_heap_loop cmp first len parent xs)"

definition make_heap :: "nat \<Rightarrow> nat \<Rightarrow> 'a::linorder list \<Rightarrow> 'a list" where
  "make_heap first stop xs = make_heap_with (<) first stop xs"

definition make_heap_comp :: "('a \<Rightarrow> 'a \<Rightarrow> bool) \<Rightarrow> nat \<Rightarrow> nat \<Rightarrow> 'a list \<Rightarrow> 'a list" where
  "make_heap_comp cmp first stop xs = make_heap_with cmp first stop xs"

fun sort_heap_with :: "('a \<Rightarrow> 'a \<Rightarrow> bool) \<Rightarrow> nat \<Rightarrow> nat \<Rightarrow> 'a list \<Rightarrow> 'a list" where
  "sort_heap_with cmp first stop xs =
     (if stop - first > 1 then
        let stop = stop - 1 in sort_heap_with cmp first stop (pop_heap_to cmp first stop stop xs)
      else xs)"

declare sort_heap_with.simps [simp del]

definition sort_heap :: "nat \<Rightarrow> nat \<Rightarrow> 'a::linorder list \<Rightarrow> 'a list" where
  "sort_heap first stop xs = sort_heap_with (<) first stop xs"

definition sort_heap_comp :: "('a \<Rightarrow> 'a \<Rightarrow> bool) \<Rightarrow> nat \<Rightarrow> nat \<Rightarrow> 'a list \<Rightarrow> 'a list" where
  "sort_heap_comp cmp first stop xs = sort_heap_with cmp first stop xs"


section \<open>The heap order\<close>

definition par :: "nat \<Rightarrow> nat" where
  "par i = (i - 1) div 2"

text \<open>No element of the first \<open>n\<close> is larger than its parent, as far as the parent is at \<open>t\<close> or behind.\<close>

definition heap_from :: "('a \<Rightarrow> 'a \<Rightarrow> bool) \<Rightarrow> nat \<Rightarrow> nat \<Rightarrow> nat \<Rightarrow> 'a list \<Rightarrow> bool" where
  "heap_from cmp t first n xs \<longleftrightarrow>
     (\<forall>i < n. 0 < i \<and> t \<le> par i \<longrightarrow> \<not> cmp (xs ! (first + par i)) (xs ! (first + i)))"

abbreviation heap_range :: "('a \<Rightarrow> 'a \<Rightarrow> bool) \<Rightarrow> nat \<Rightarrow> nat \<Rightarrow> 'a list \<Rightarrow> bool" where
  "heap_range cmp first stop xs \<equiv> heap_from cmp 0 first (stop - first) xs"

lemma par_less [simp]: "0 < i \<Longrightarrow> par i < i"
  by (simp add: par_def)

lemma par_neq [simp]: "0 < i \<Longrightarrow> par i \<noteq> i" "0 < i \<Longrightarrow> i \<noteq> par i" "0 < i \<Longrightarrow> \<not> i \<le> par i"
  by (metis par_less less_irrefl) (metis par_less less_irrefl, simp add: not_le)

lemma par_le [simp]: "par i \<le> i" "\<not> i < par i"
  by (simp_all add: par_def)

lemma par_children: "0 < c \<Longrightarrow> par c = h \<longleftrightarrow> c = 2 * h + 1 \<or> c = 2 * h + 2"
  by (auto simp: par_def)

lemma par_Suc: "0 < c \<Longrightarrow> par (c + 1) = (if c mod 2 = 0 then par c + 1 else par c)"
  by (auto simp: par_def elim!: oddE evenE simp flip: even_iff_mod_2_eq_zero)

lemma is_heap_loop_iff:
  assumes "par child = parent" "0 < child" "child \<le> n"
    "\<forall>i < child. 0 < i \<longrightarrow> \<not> cmp (xs ! (first + par i)) (xs ! (first + i))"
  shows "is_heap_loop cmp first n parent child xs \<le> n \<and>
    (\<forall>k \<le> n. k \<le> is_heap_loop cmp first n parent child xs \<longleftrightarrow> heap_from cmp 0 first k xs)"
  using assms
proof (induction cmp first n parent child xs rule: is_heap_loop.induct)
  case (1 cmp first n parent child xs)
  show ?case
  proof (cases "child < n")
    case False
    then have "is_heap_loop cmp first n parent child xs = n" by (simp add: is_heap_loop.simps)
    with "1.prems" False show ?thesis by (auto simp: heap_from_def)
  next
    case True
    show ?thesis
    proof (cases "iter_comp_iter cmp xs (first + parent) (first + child)")
      case True
      then have "is_heap_loop cmp first n parent child xs = child"
        using \<open>child < n\<close> by (simp add: is_heap_loop.simps)
      moreover have "k \<le> child \<longleftrightarrow> heap_from cmp 0 first k xs" for k
        using "1.prems" True by (force simp: heap_from_def iter_ops not_less)
      ultimately show ?thesis using \<open>child < n\<close> by simp
    next
      case False
      have p: "par (child + 1) = (if child mod 2 = 0 then parent + 1 else parent)"
        using par_Suc [OF "1.prems"(2)] "1.prems"(1) by simp
      have "is_heap_loop cmp first n parent child xs =
          is_heap_loop cmp first n (if child mod 2 = 0 then parent + 1 else parent) (child + 1) xs"
        using \<open>child < n\<close> False by (subst is_heap_loop.simps) simp
      moreover have "\<forall>i < child + 1. 0 < i \<longrightarrow> \<not> cmp (xs ! (first + par i)) (xs ! (first + i))"
        using "1.prems" False by (auto simp: iter_ops less_Suc_eq)
      ultimately show ?thesis
        using "1.IH" [OF \<open>child < n\<close> False p] "1.prems" \<open>child < n\<close> by simp
    qed
  qed
qed

lemma is_heap_until_n_spec:
  "is_heap_until_n cmp first n xs \<le> n"
  "k \<le> n \<Longrightarrow> k \<le> is_heap_until_n cmp first n xs \<longleftrightarrow> heap_from cmp 0 first k xs"
proof -
  have "is_heap_until_n cmp first n xs \<le> n \<and>
    (\<forall>k \<le> n. k \<le> is_heap_until_n cmp first n xs \<longleftrightarrow> heap_from cmp 0 first k xs)"
  proof (cases "n = 0")
    case True
    then show ?thesis by (simp add: is_heap_until_n_def is_heap_loop.simps heap_from_def)
  next
    case False
    then show ?thesis unfolding is_heap_until_n_def by (intro is_heap_loop_iff) (auto simp: par_def)
  qed
  then show "is_heap_until_n cmp first n xs \<le> n"
    "k \<le> n \<Longrightarrow> k \<le> is_heap_until_n cmp first n xs \<longleftrightarrow> heap_from cmp 0 first k xs" by auto
qed

lemma is_heap_until_n_eq: "is_heap_until_n cmp first n xs = n \<longleftrightarrow> heap_from cmp 0 first n xs"
  using is_heap_until_n_spec(1) [of cmp first n xs] is_heap_until_n_spec(2) [OF order_refl, of n cmp first xs] by auto

section \<open>A hole on its way\<close>

text \<open>\<open>h\<close> lies in the subtree of \<open>t\<close>.\<close>

definition below_top :: "nat \<Rightarrow> nat \<Rightarrow> bool" where
  "below_top t h \<longleftrightarrow> (\<exists>k. (par ^^ k) h = t)"

lemma below_top_refl [simp]: "below_top t t"
  unfolding below_top_def by (rule exI [of _ 0]) simp

lemma below_top_child: "below_top t h \<Longrightarrow> par c = h \<Longrightarrow> below_top t c"
  unfolding below_top_def by (metis comp_apply funpow_Suc_right)

lemma below_top_parent:
  assumes "below_top t h" "t < h"
  shows "below_top t (par h)" "t \<le> par h"
proof -
  obtain k where k: "(par ^^ k) h = t" using assms(1) by (auto simp: below_top_def)
  with assms(2) obtain j where "(par ^^ j) (par h) = t"
    by (cases k) (auto simp: funpow_swap1)
  moreover have "(par ^^ j) x \<le> x" for x
    by (induction j) (auto intro: order_trans [OF par_le(1)])
  ultimately show "below_top t (par h)" "t \<le> par h" by (auto simp: below_top_def)
qed

context weak_order
begin

text \<open>The order holds but for the hole, which may be too large, and around the hole.\<close>

definition up_ok :: "nat \<Rightarrow> nat \<Rightarrow> nat \<Rightarrow> nat \<Rightarrow> 'a list \<Rightarrow> bool" where
  "up_ok t first n h xs \<longleftrightarrow>
     (\<forall>i < n. 0 < i \<and> t \<le> par i \<and> i \<noteq> h \<longrightarrow> le (xs ! (first + i)) (xs ! (first + par i))) \<and>
     (0 < h \<and> t \<le> par h \<longrightarrow> (\<forall>c < n. 0 < c \<and> par c = h \<longrightarrow> le (xs ! (first + c)) (xs ! (first + par h))))"

text \<open>The order holds but for the hole, which may be anything.\<close>

definition down_ok :: "nat \<Rightarrow> nat \<Rightarrow> nat \<Rightarrow> nat \<Rightarrow> 'a list \<Rightarrow> bool" where
  "down_ok t first n h xs \<longleftrightarrow>
     (\<forall>i < n. 0 < i \<and> t \<le> par i \<and> i \<noteq> h \<and> par i \<noteq> h \<longrightarrow> le (xs ! (first + i)) (xs ! (first + par i))) \<and>
     (0 < h \<and> t \<le> par h \<longrightarrow> (\<forall>c < n. 0 < c \<and> par c = h \<longrightarrow> le (xs ! (first + c)) (xs ! (first + par h))))"

lemma heap_from_le:
  "heap_from cmp t first n xs \<longleftrightarrow>
     (\<forall>i < n. 0 < i \<and> t \<le> par i \<longrightarrow> le (xs ! (first + i)) (xs ! (first + par i)))"
  by (simp add: heap_from_def le_def)

lemma up_ok_done:
  assumes "up_ok t first n h xs" "h \<le> t \<or> le (xs ! (first + h)) (xs ! (first + par h))"
  shows "heap_from cmp t first n xs"
  unfolding heap_from_le
proof (intro allI impI)
  fix i assume i: "i < n" "0 < i \<and> t \<le> par i"
  show "le (xs ! (first + i)) (xs ! (first + par i))"
  proof (cases "i = h")
    case True
    then have "\<not> h \<le> t" using i par_less [of i] by linarith
    with True assms(2) show ?thesis by blast
  next
    case False
    with assms(1) i show ?thesis by (simp add: up_ok_def)
  qed
qed

lemma up_ok_step:
  assumes "up_ok t first n h xs" "first + n \<le> length xs" "h < n" "t < h" "t \<le> par h"
    "cmp (xs ! (first + par h)) (xs ! (first + h))"
  shows "up_ok t first n (par h) (swap_at (first + h) (first + par h) xs)"
proof -
  let ?p = "par h" and ?ys = "swap_at (first + h) (first + par h) xs"
  have p: "?p < h" "?p < n" using assms(3,4) par_less [of h] by linarith+
  have ys: "?ys ! (first + k) = (if k = h then xs ! (first + ?p) else if k = ?p then xs ! (first + h) else xs ! (first + k))"
    for k using assms(2,3) p by (simp add: nth_swap_at)
  have 1: "le (xs ! (first + i)) (xs ! (first + par i))" if "i < n" "0 < i" "t \<le> par i" "i \<noteq> h" for i
    using assms(1) that by (simp add: up_ok_def)
  have 2: "le (xs ! (first + c)) (xs ! (first + ?p))" if "c < n" "0 < c" "par c = h" for c
    using assms(1,4,5) that by (simp add: up_ok_def)
  have up: "le (xs ! (first + ?p)) (xs ! (first + h))" by (rule comp_le [OF assms(6)])
  have "le (?ys ! (first + i)) (?ys ! (first + par i))" if i: "i < n" "0 < i" "t \<le> par i" "i \<noteq> ?p" for i
  proof -
    consider "i = h" | "i \<noteq> h" "par i = ?p" | "i \<noteq> h" "par i = h" | "i \<noteq> h" "par i \<noteq> ?p" "par i \<noteq> h" by blast
    then show ?thesis
    proof cases
      case 1
      then show ?thesis using up p by (simp add: ys)
    next
      case 2
      then have "le (xs ! (first + i)) (xs ! (first + ?p))" using 1 [of i] i by simp
      then show ?thesis using 2 i p le_trans [OF _ up] by (simp add: ys)
    next
      case 3
      then show ?thesis using 2 [of i] i p by (simp add: ys)
    next
      case 4
      then show ?thesis using 1 [of i] i by (simp add: ys)
    qed
  qed
  moreover have "le (?ys ! (first + c)) (?ys ! (first + par ?p))"
    if pp: "0 < ?p" "t \<le> par ?p" and c: "c < n" "0 < c" "par c = ?p" for c
  proof -
    have "par ?p < ?p" using pp by simp
    have gp: "le (xs ! (first + ?p)) (xs ! (first + par ?p))" using 1 [of ?p] pp p by simp
    show ?thesis
    proof (cases "c = h")
      case True
      then show ?thesis using gp p \<open>par ?p < ?p\<close> by (simp add: ys)
    next
      case False
      then have "le (xs ! (first + c)) (xs ! (first + ?p))" using 1 [of c] c assms(5) by simp
      moreover have "c \<noteq> ?p" using c par_less [of c] by auto
      ultimately show ?thesis using le_trans [OF _ gp] False p \<open>par ?p < ?p\<close> by (simp add: ys)
    qed
  qed
  ultimately show ?thesis by (simp add: up_ok_def)
qed

lemma push_heap_hole_ok:
  assumes "up_ok t first n h (xs[first + h := v])" "first + n \<le> length xs" "h < n" "below_top t h"
  shows "permutes_range first (first + n) (xs[first + h := v]) (push_heap_hole cmp first h t v xs)"
    "heap_from cmp t first n (push_heap_hole cmp first h t v xs)"
proof -
  have "permutes_range first (first + n) (xs[first + h := v]) (push_heap_hole cmp first h t v xs) \<and>
    heap_from cmp t first n (push_heap_hole cmp first h t v xs)"
    using assms
  proof (induction h arbitrary: xs rule: less_induct)
    case (less h)
    let ?ys = "xs[first + h := v]" and ?p = "par h"
    show ?case
    proof (cases "h > t \<and> cmp (xs ! (first + ?p)) v")
      case False
      then have "push_heap_hole cmp first h t v xs = ?ys"
        by (subst push_heap_hole.simps) (auto simp: iter_ops par_def)
      moreover have "h \<le> t \<or> le (?ys ! (first + h)) (?ys ! (first + ?p))"
        using False less.prems(2,3) by (cases "h = 0") (auto simp: not_comp_le)
      ultimately show ?thesis using up_ok_done [OF less.prems(1)] by simp
    next
      case True
      then have p: "?p < h" "below_top t ?p" "t \<le> ?p"
        using below_top_parent [OF less.prems(4)] by simp_all
      have len: "first + n \<le> length ?ys" "first + h < length xs" "first + ?p < length xs"
        using less.prems(2,3) p(1) by simp_all
      let ?xs' = "xs[first + h := xs ! (first + ?p)]"
      have run: "push_heap_hole cmp first h t v xs = push_heap_hole cmp first ?p t v ?xs'"
        using True by (subst push_heap_hole.simps) (simp add: iter_ops par_def Let_def)
      have eq: "?xs'[first + ?p := v] = swap_at (first + h) (first + ?p) ?ys"
        using p(1) len by (simp add: swap_at_def)
      have "cmp (?ys ! (first + ?p)) (?ys ! (first + h))" using True p(1) len by simp
      then have up: "up_ok t first n ?p (?xs'[first + ?p := v])"
        unfolding eq using less.prems p True len by (intro up_ok_step) auto
      have "permutes_range first (first + n) ?ys (?xs'[first + ?p := v])"
        unfolding eq using p(1) less.prems(2,3) by (intro permutes_swap_at) auto
      with less.IH [OF p(1) up] p less.prems(2,3) show ?thesis
        unfolding run by (auto intro: permutes_range_trans)
    qed
  qed
  then show "permutes_range first (first + n) (xs[first + h := v]) (push_heap_hole cmp first h t v xs)"
    "heap_from cmp t first n (push_heap_hole cmp first h t v xs)" by auto
qed

text \<open>Moving the larger child up into the hole.\<close>

lemma down_ok_step:
  assumes "down_ok t first n h xs" "first + n \<le> length xs" "0 < s" "s < n" "par s = h" "t \<le> h"
    "\<And>c. c < n \<Longrightarrow> 0 < c \<Longrightarrow> par c = h \<Longrightarrow> le (xs ! (first + c)) (xs ! (first + s))"
  shows "down_ok t first n s (xs[first + h := xs ! (first + s)])"
proof -
  let ?ys = "xs[first + h := xs ! (first + s)]"
  have h: "h < s" "h < n" using par_less [OF assms(3)] assms(4,5) by auto
  have ys: "?ys ! (first + k) = (if k = h then xs ! (first + s) else xs ! (first + k))" for k
    using assms(2) h by simp
  have 1: "le (xs ! (first + i)) (xs ! (first + par i))"
    if "i < n" "0 < i" "t \<le> par i" "i \<noteq> h" "par i \<noteq> h" for i
    using assms(1) that by (simp add: down_ok_def)
  have "le (?ys ! (first + i)) (?ys ! (first + par i))"
    if i: "i < n" "0 < i" "t \<le> par i" "i \<noteq> s" "par i \<noteq> s" for i
  proof -
    consider "i = h" | "i \<noteq> h" "par i = h" | "i \<noteq> h" "par i \<noteq> h" by blast
    then show ?thesis
    proof cases
      case 1
      then have "le (xs ! (first + s)) (xs ! (first + par h))"
        using assms(1,3-5) i by (simp add: down_ok_def)
      moreover have "par h \<noteq> h" using 1 i(2) by simp
      ultimately show ?thesis using 1 by (simp add: ys)
    next
      case 2
      then show ?thesis using assms(7) [of i] i by (simp add: ys)
    next
      case 3
      then show ?thesis using 1 [of i] i by (simp add: ys)
    qed
  qed
  moreover have "le (?ys ! (first + c)) (?ys ! (first + par s))" if c: "c < n" "0 < c" "par c = s" for c
  proof -
    have "c \<noteq> h" using c h par_less [of c] by auto
    moreover have "le (xs ! (first + c)) (xs ! (first + s))"
      using 1 [of c] c h assms(6) \<open>c \<noteq> h\<close> by simp
    ultimately show ?thesis using assms(5) by (simp add: ys)
  qed
  ultimately show ?thesis by (simp add: down_ok_def)
qed

lemma hole_moves:
  assumes "first + n \<le> length xs" "0 < s" "s < n" "par s = h"
  shows "permutes_range first (first + n) (xs[first + h := v])
    (xs[first + h := xs ! (first + s), first + s := v])"
proof -
  have h: "h < s" "h < n" using par_less [OF assms(2)] assms(3,4) by auto
  have "xs[first + h := xs ! (first + s), first + s := v] =
      swap_at (first + h) (first + s) (xs[first + h := v])"
    using h assms(1,3) by (simp add: swap_at_def)
  then show ?thesis using h assms(1,3) by (simp add: permutes_swap_at)
qed

lemma descend_ok:
  assumes "down_ok t first n h xs" "first + n \<le> length xs" "h < n" "below_top t h" "t \<le> h"
    "descend cmp first n h h xs = (h', s', xs')"
  shows "s' = h' \<and> h' < n \<and> below_top t h' \<and> t \<le> h' \<and> down_ok t first n h' xs' \<and> length xs' = length xs \<and>
    \<not> h' < (n - 1) div 2 \<and> permutes_range first (first + n) (xs[first + h := v]) (xs'[first + h' := v])"
  using assms
proof (induction "n - h" arbitrary: h xs rule: less_induct)
  case less
  show ?case
  proof (cases "h < (n - 1) div 2")
    case False
    with less.prems show ?thesis by (subst (asm) descend.simps) auto
  next
    case True
    define s where "s = (if iter_comp_iter cmp xs (first + 2 * (h + 1)) (first + (2 * (h + 1) - 1))
        then 2 * (h + 1) - 1 else 2 * (h + 1))"
    have s: "0 < s" "s < n" "par s = h" "h < s" using True by (auto simp: s_def par_def)
    have run: "descend cmp first n s s (xs[first + h := xs ! (first + s)]) = (h', s', xs')"
      using less.prems(6) True by (subst (asm) descend.simps) (simp add: s_def Let_def cong: if_cong)
    have max: "le (xs ! (first + c)) (xs ! (first + s))" if "c < n" "0 < c" "par c = h" for c
    proof -
      have "c = 2 * h + 1 \<or> c = 2 * h + 2" using that par_children by simp
      then show ?thesis
        using comp_le by (auto simp: s_def iter_ops not_comp_le algebra_simps)
    qed
    have "down_ok t first n s (xs[first + h := xs ! (first + s)])"
      by (rule down_ok_step [OF less.prems(1,2) s(1-3) less.prems(5) max])
    from less.hyps [OF _ this _ s(2) below_top_child [OF less.prems(4) s(3)] _ run]
    show ?thesis
      using hole_moves [OF less.prems(2) s(1-3), of v] less.prems(2,3,5) s
      by (auto intro: permutes_range_trans)
  qed
qed

lemma adjust_heap_ok:
  assumes "heap_from cmp (Suc t) first n xs" "first + n \<le> length xs" "t < n"
  shows "permutes_range first (first + n) (xs[first + t := v]) (adjust_heap cmp first t n v xs)"
    "heap_from cmp t first n (adjust_heap cmp first t n v xs)"
proof -
  have "down_ok t first n t xs"
    using assms(1) by (auto simp: down_ok_def heap_from_le)
  moreover obtain h s xs1 where d: "descend cmp first n t t xs = (h, s, xs1)" by (metis prod_cases3)
  ultimately have 1: "s = h" "h < n" "below_top t h" "t \<le> h" "down_ok t first n h xs1" "length xs1 = length xs"
    "\<not> h < (n - 1) div 2" "permutes_range first (first + n) (xs[first + t := v]) (xs1[first + h := v])"
    using descend_ok [OF _ assms(2,3) below_top_refl order_refl d, of v] by blast+
  define one where "one \<longleftrightarrow> n mod 2 = 0 \<and> int h = (int n - 2) div 2"
  define k where "k = (if one then 2 * (h + 1) - 1 else h)"
  define xs2 where "xs2 = (if one then xs1[first + h := xs1 ! (first + k)] else xs1)"
  have run: "adjust_heap cmp first t n v xs = push_heap_hole cmp first k t v xs2"
    by (simp add: adjust_heap_def d 1(1) one_def k_def xs2_def Let_def)
  have one: "n = 2 * h + 2" if one using that by (auto simp: one_def)
  have 2: "k < n \<and> below_top t k \<and> down_ok t first n k xs2 \<and> length xs2 = length xs \<and> \<not> 2 * k + 1 < n \<and>
      permutes_range first (first + n) (xs[first + t := v]) (xs2[first + k := v])"
  proof (cases one)
    case False
    have "\<not> 2 * h + 1 < n"
    proof
      assume "2 * h + 1 < n"
      with 1(7) have "n = 2 * h + 2" by linarith
      with False show False by (simp add: one_def)
    qed
    then show ?thesis using False 1 by (simp add: k_def xs2_def)
  next
    case True
    then have k: "0 < k" "k < n" "par k = h" "k = 2 * h + 1" using one by (auto simp: k_def par_def)
    have max: "le (xs1 ! (first + c)) (xs1 ! (first + k))" if "c < n" "0 < c" "par c = h" for c
      using that one [OF True] k(4) par_children [of c h] by auto
    have "first + n \<le> length xs1" using assms(2) 1(6) by simp
    note len = this
    have xs2: "xs2 = xs1[first + h := xs1 ! (first + k)]" using True by (simp add: xs2_def)
    have "down_ok t first n k xs2"
      unfolding xs2 by (rule down_ok_step [OF 1(5) len k(1-3) 1(4) max])
    moreover have "permutes_range first (first + n) (xs[first + t := v]) (xs2[first + k := v])"
      unfolding xs2 by (rule permutes_range_trans [OF 1(8) hole_moves [OF len k(1-3)]])
    moreover have "below_top t k" by (rule below_top_child [OF 1(3) k(3)])
    moreover have "length xs2 = length xs" by (simp add: xs2 1(6))
    ultimately show ?thesis using k(2,4) one [OF True] by simp
  qed
  have no_child: "par c \<noteq> k" if "c < n" "0 < c" for c using 2 that par_children [of c k] by auto
  have "up_ok t first n k (xs2[first + k := v])"
    unfolding up_ok_def
  proof (intro conjI allI impI)
    fix i assume i: "i < n" "0 < i \<and> t \<le> par i \<and> i \<noteq> k"
    then have "le (xs2 ! (first + i)) (xs2 ! (first + par i))" and "par i \<noteq> k"
      using 2 no_child [of i] by (auto simp: down_ok_def)
    then show "le (xs2[first + k := v] ! (first + i)) (xs2[first + k := v] ! (first + par i))"
      using i by simp
  qed (use no_child in blast)
  then have "permutes_range first (first + n) (xs2[first + k := v]) (push_heap_hole cmp first k t v xs2)"
    "heap_from cmp t first n (push_heap_hole cmp first k t v xs2)"
    using 2 assms(2) by (auto intro!: push_heap_hole_ok)
  then show "permutes_range first (first + n) (xs[first + t := v]) (adjust_heap cmp first t n v xs)"
    "heap_from cmp t first n (adjust_heap cmp first t n v xs)"
    unfolding run using 2 by (auto intro: permutes_range_trans)
qed

lemma below_root: "below_top 0 h"
proof (induction h rule: less_induct)
  case (less h)
  show ?case
  proof (cases "h = 0")
    case False
    then show ?thesis using less.IH [of "par h"] below_top_child [of 0 "par h" h] by simp
  qed simp
qed

lemma push_heap_ok:
  assumes "heap_from cmp 0 first n xs" "first + Suc n \<le> length xs"
  shows "permutes_range first (first + Suc n) xs (push_heap_comp cmp first (first + Suc n) xs)"
    "heap_from cmp 0 first (Suc n) (push_heap_comp cmp first (first + Suc n) xs)"
proof -
  have id: "xs[first + n := xs ! (first + n)] = xs" by simp
  have "up_ok 0 first (Suc n) n xs"
    using assms(1) par_children by (auto simp: up_ok_def heap_from_le less_Suc_eq)
  then show "permutes_range first (first + Suc n) xs (push_heap_comp cmp first (first + Suc n) xs)"
    "heap_from cmp 0 first (Suc n) (push_heap_comp cmp first (first + Suc n) xs)"
    using push_heap_hole_ok [of 0 first "Suc n" n xs "xs ! (first + n)"] assms(2) below_root [of n]
    by (simp_all add: push_heap_comp_def Let_def)
qed

lemma heap_root:
  assumes "heap_from cmp 0 first n xs" "i < n"
  shows "le (xs ! (first + i)) (xs ! first)"
  using assms(2)
proof (induction i rule: less_induct)
  case (less i)
  show ?case
  proof (cases "i = 0")
    case False
    then have "le (xs ! (first + i)) (xs ! (first + par i))" "par i < i"
      using assms(1) less.prems by (simp_all add: heap_from_le)
    then show ?thesis using less le_trans by (metis order_less_trans)
  qed simp
qed

text \<open>The root goes to \<open>r\<close> behind the heap, and the element from there into the heap.\<close>

lemma pop_heap_to_swap:
  assumes "heap_from cmp 0 first n xs" "0 < n" "first + n \<le> r" "r < length xs"
  shows "permutes_range first (first + n) (swap_at r first xs) (pop_heap_to cmp first (first + n) r xs)"
    "heap_from cmp 0 first n (pop_heap_to cmp first (first + n) r xs)"
proof -
  let ?xs = "xs[r := xs ! first]"
  have h: "heap_from cmp (Suc 0) first n ?xs"
    unfolding heap_from_le
  proof (intro allI impI)
    fix i assume i: "i < n" "0 < i \<and> Suc 0 \<le> par i"
    then have "par i < n" using par_less [of i] by linarith
    with i assms(1,3) show "le (?xs ! (first + i)) (?xs ! (first + par i))" by (simp add: heap_from_le)
  qed
  have run: "pop_heap_to cmp first (first + n) r xs = adjust_heap cmp first 0 n (xs ! r) ?xs"
    by (simp add: pop_heap_to_def Let_def)
  have swap: "swap_at r first xs = ?xs[first := xs ! r]" by (simp add: swap_at_def)
  note ok = adjust_heap_ok [OF h, of "xs ! r"]
  show "permutes_range first (first + n) (swap_at r first xs) (pop_heap_to cmp first (first + n) r xs)"
    using ok(1) assms(2-4) by (simp add: run swap)
  show "heap_from cmp 0 first n (pop_heap_to cmp first (first + n) r xs)"
    using ok(2) assms(2-4) by (simp add: run)
qed

text \<open>The largest element goes behind the heap of the others.\<close>

lemma pop_heap_to_ok:
  assumes "heap_from cmp 0 first (Suc n) xs" "0 < n" "first + Suc n \<le> length xs"
  defines "ys \<equiv> pop_heap_to cmp first (first + n) (first + n) xs"
  shows "permutes_range first (first + Suc n) xs ys" "heap_from cmp 0 first n ys"
    "ys ! (first + n) = xs ! first"
proof -
  have h: "heap_from cmp 0 first n xs" using assms(1) by (simp add: heap_from_def)
  have p: "permutes_range first (first + n) (swap_at (first + n) first xs) ys"
    using pop_heap_to_swap(1) [OF h assms(2), of "first + n"] assms(3) by (simp add: ys_def)
  show "heap_from cmp 0 first n ys"
    using pop_heap_to_swap(2) [OF h assms(2), of "first + n"] assms(3) by (simp add: ys_def)
  show "permutes_range first (first + Suc n) xs ys"
  proof (rule permutes_range_trans)
    show "permutes_range first (first + Suc n) xs (swap_at (first + n) first xs)"
      using assms(3) by (intro permutes_swap_at) simp_all
    show "permutes_range first (first + Suc n) (swap_at (first + n) first xs) ys"
      using p by (rule permutes_range_mono) simp_all
  qed
  show "ys ! (first + n) = xs ! first"
    using p assms(2,3) by (simp add: permutes_range_def nth_swap_at)
qed

lemma make_heap_loop_ok:
  assumes "heap_from cmp (Suc p) first n xs" "first + n \<le> length xs" "p < n"
  shows "permutes_range first (first + n) xs (make_heap_loop cmp first n p xs) \<and>
    heap_from cmp 0 first n (make_heap_loop cmp first n p xs)"
  using assms
proof (induction p arbitrary: xs)
  case 0
  then show ?case
    using adjust_heap_ok [of 0 first n xs "xs ! first"] by (subst (1 2) make_heap_loop.simps) (simp add: Let_def)
next
  case (Suc p)
  let ?ys = "adjust_heap cmp first (Suc p) n (xs ! (first + Suc p)) xs"
  have ys: "permutes_range first (first + n) xs ?ys" "heap_from cmp (Suc p) first n ?ys"
    using adjust_heap_ok [OF Suc.prems, of "xs ! (first + Suc p)"] by simp_all
  have "make_heap_loop cmp first n (Suc p) xs = make_heap_loop cmp first n p ?ys"
    by (subst make_heap_loop.simps) (simp add: Let_def)
  then show ?case
    using Suc.IH [OF ys(2)] ys(1) Suc.prems(2,3) by (auto simp: permutes_range_def)
qed

lemma make_heap_ok:
  assumes "first \<le> stop" "stop \<le> length xs"
  shows "permutes_range first stop xs (make_heap_with cmp first stop xs)"
    "heap_range cmp first stop (make_heap_with cmp first stop xs)"
proof -
  let ?n = "stop - first"
  have "permutes_range first stop xs (make_heap_with cmp first stop xs) \<and>
    heap_range cmp first stop (make_heap_with cmp first stop xs)"
  proof (cases "?n < 2")
    case True
    then show ?thesis by (simp add: make_heap_with_def heap_from_le)
  next
    case False
    have "heap_from cmp (Suc ((?n - 2) div 2)) first ?n xs"
      unfolding heap_from_le par_def by auto
    from make_heap_loop_ok [OF this] show ?thesis
      using False assms by (simp add: make_heap_with_def Let_def)
  qed
  then show "permutes_range first stop xs (make_heap_with cmp first stop xs)"
    "heap_range cmp first stop (make_heap_with cmp first stop xs)" by auto
qed

lemma sort_heap_ok:
  assumes "heap_from cmp 0 first n xs" "first + n \<le> length xs"
  shows "permutes_range first (first + n) xs (sort_heap_with cmp first (first + n) xs) \<and>
    ordered cmp (range_of first (first + n) (sort_heap_with cmp first (first + n) xs))"
  using assms
proof (induction n arbitrary: xs)
  case 0
  then show ?case by (simp add: sort_heap_with.simps range_of_def ordered_def)
next
  case (Suc n)
  show ?case
  proof (cases "n = 0")
    case True
    then have "sort_heap_with cmp first (first + Suc n) xs = xs" by (subst sort_heap_with.simps) simp
    then show ?thesis using True by (cases "drop first xs") (simp_all add: range_of_def ordered_def)
  next
    case False
    let ?ys = "pop_heap_to cmp first (first + n) (first + n) xs"
    let ?zs = "sort_heap_with cmp first (first + n) ?ys"
    note ys = pop_heap_to_ok [OF Suc.prems(1) _ Suc.prems(2)]
    have run: "sort_heap_with cmp first (first + Suc n) xs = ?zs"
      using False by (subst sort_heap_with.simps) (simp add: Let_def)
    have len: "length ?ys = length xs" using ys(1) False by (simp add: permutes_range_def)
    have IH: "permutes_range first (first + n) ?ys ?zs" "ordered cmp (range_of first (first + n) ?zs)"
      using Suc.IH [OF ys(2)] False Suc.prems(2) len by simp_all
    have perm: "permutes_range first (first + Suc n) xs ?zs"
      using permutes_range_trans [OF ys(1) permutes_range_mono [OF IH(1)]] False by simp
    have zlen: "length ?zs = length xs" using perm by (simp add: permutes_range_def)
    have top: "?zs ! (first + n) = xs ! first"
      using IH(1) ys(3) False Suc.prems(2) len by (simp add: permutes_range_def)
    have "le z (xs ! first)" if "z \<in> set (range_of first (first + n) ?zs)" for z
    proof -
      have "mset (range_of first (first + n) ?zs) = mset (range_of first (first + n) ?ys)"
        using permutes_range_split(3) [OF IH(1)] Suc.prems(2) len by simp
      then have "set (range_of first (first + n) ?zs) = set (range_of first (first + n) ?ys)"
        by (rule mset_eq_setD)
      also have "\<dots> \<subseteq> set (range_of first (first + Suc n) ?ys)"
        by (simp add: range_of_def set_take_subset_set_take)
      also have "\<dots> = set (range_of first (first + Suc n) xs)"
        using permutes_range_split(3) [OF ys(1)] False Suc.prems(2) by (metis mset_eq_setD le_add1 zero_less_iff_neq_zero)
      finally have "z \<in> set (range_of first (first + Suc n) xs)" using that by blast
      then obtain i where "i < Suc n" "z = xs ! (first + i)"
        using Suc.prems(2) by (auto simp: in_set_conv_nth length_range_of nth_range_of)
      then show ?thesis using heap_root [OF Suc.prems(1)] by simp
    qed
    moreover have "range_of first (first + Suc n) ?zs = range_of first (first + n) ?zs @ [xs ! first]"
      using Suc.prems(2) zlen by (simp add: range_of_def take_Suc_conv_app_nth top)
    ultimately have "ordered cmp (range_of first (first + Suc n) ?zs)"
      using IH(2) by (auto simp: ordered_def sorted_wrt_append le_def)
    with perm show ?thesis by (simp only: run)
  qed
qed

end

section \<open>Properties\<close>

text \<open>
  for every comparison that is a strict weak ordering: \<open>push_heap\<close> turns a heap and one more
  element into a heap, \<open>pop_heap\<close> moves a largest element behind a heap of the others, and \<open>is_heap_until\<close>
  gives the end of the longest prefix that is a heap. The first two only permute the range.
\<close>

theorem heap_operations:
  assumes "weak_order cmp" "first < stop" "stop \<le> length xs"
  shows "(heap_range cmp first (stop - 1) xs \<longrightarrow>
      permutes_range first stop xs (push_heap_comp cmp first stop xs) \<and>
      heap_range cmp first stop (push_heap_comp cmp first stop xs)) \<and>
    (heap_range cmp first stop xs \<longrightarrow>
      permutes_range first stop xs (pop_heap_comp cmp first stop xs) \<and>
      heap_range cmp first (stop - 1) (pop_heap_comp cmp first stop xs) \<and>
      pop_heap_comp cmp first stop xs ! (stop - 1) = xs ! first \<and>
      (\<forall>x \<in> set (range_of first stop xs). \<not> cmp (xs ! first) x)) \<and>
    (\<forall>k. first \<le> k \<and> k \<le> stop \<longrightarrow>
      (k \<le> is_heap_until_comp cmp first stop xs) = heap_range cmp first k xs)"
proof (intro conjI impI allI)
  obtain n where stop: "stop = first + Suc n" using assms(2) by (metis less_iff_Suc_add add_Suc_right)
  have len: "first + Suc n \<le> length xs" using assms(3) by (simp add: stop)
  show "permutes_range first stop xs (push_heap_comp cmp first stop xs)"
    "heap_range cmp first stop (push_heap_comp cmp first stop xs)" if "heap_range cmp first (stop - 1) xs"
    using weak_order.push_heap_ok [OF assms(1) _ len] that by (simp_all add: stop)
  have pop: "pop_heap_comp cmp first stop xs =
      (if n = 0 then xs else pop_heap_to cmp first (first + n) (first + n) xs)"
    by (simp add: stop pop_heap_comp_def Let_def)
  show "permutes_range first stop xs (pop_heap_comp cmp first stop xs)"
    "heap_range cmp first (stop - 1) (pop_heap_comp cmp first stop xs)"
    "pop_heap_comp cmp first stop xs ! (stop - 1) = xs ! first" if "heap_range cmp first stop xs"
    using weak_order.pop_heap_to_ok [OF assms(1) _ _ len] that unfolding pop
    by (cases "n = 0"; simp add: stop heap_from_def)+
  show "\<forall>x \<in> set (range_of first stop xs). \<not> cmp (xs ! first) x" if "heap_range cmp first stop xs"
  proof
    fix x assume "x \<in> set (range_of first stop xs)"
    then obtain i where "i < Suc n" "x = xs ! (first + i)"
      using len by (auto simp: in_set_conv_nth length_range_of nth_range_of stop)
    then show "\<not> cmp (xs ! first) x"
      using weak_order.heap_root [OF assms(1), of first "Suc n" xs i] that
      by (simp add: stop weak_order.le_def [OF assms(1)])
  qed
  show "(k \<le> is_heap_until_comp cmp first stop xs) = heap_range cmp first k xs" if "first \<le> k \<and> k \<le> stop" for k
  proof -
    have "k - first \<le> stop - first" using that by (simp add: diff_le_mono)
    moreover have "k \<le> first + m \<longleftrightarrow> k - first \<le> m" for m using that by linarith
    ultimately show ?thesis
      using is_heap_until_n_spec(2) by (simp add: is_heap_until_comp_def)
  qed
qed

theorem heap_operations_witness:
  "weak_order (\<lambda>x y :: nat. x mod 10 < y mod 10) \<and>
   push_heap_comp (\<lambda>x y. x mod 10 < y mod 10) 1 5 [99, 27, 15, 4, 38 :: nat] = [99, 38, 27, 4, 15] \<and>
   heap_range (\<lambda>x y. x mod 10 < y mod 10) 1 5 [99, 38, 27, 4, 15 :: nat]"
proof -
  have w: "weak_order (\<lambda>x y :: nat. x mod 10 < y mod 10)" by unfold_locales auto
  have "heap_range (\<lambda>x y. x mod 10 < y mod 10) 1 (5 - 1) [99, 27, 15, 4, 38 :: nat]"
    by code_simp
  moreover have "push_heap_comp (\<lambda>x y. x mod 10 < y mod 10) 1 5 [99, 27, 15, 4, 38 :: nat] = [99, 38, 27, 4, 15]"
    by code_simp
  ultimately show ?thesis
    using w heap_operations [OF w, of 1 5 "[99, 27, 15, 4, 38]"] by simp
qed

text \<open>Sorting with any comparison that is a strict weak ordering.\<close>

lemma heap_sort_ok:
  assumes "weak_order cmp" "first \<le> stop" "stop \<le> length xs"
  defines "ys \<equiv> sort_heap_comp cmp first stop (make_heap_comp cmp first stop xs)"
  shows "permutes_range first stop xs ys" "ordered cmp (range_of first stop ys)"
proof -
  obtain n where stop: "stop = first + n" using assms(2) by (metis le_iff_add)
  note make = weak_order.make_heap_ok [OF assms(1-3)]
  have len: "length (make_heap_with cmp first stop xs) = length xs"
    using make(1) by (simp add: permutes_range_def)
  show "permutes_range first stop xs ys" "ordered cmp (range_of first stop ys)"
    using weak_order.sort_heap_ok [OF assms(1), of first n] make assms(3) len
    by (auto simp: ys_def sort_heap_comp_def make_heap_comp_def stop intro: permutes_range_trans)
qed

text \<open>
  \<open>make_heap\<close> followed by \<open>sort_heap\<close> sorts exactly the range: on a linear order it gives what the
  library's \<open>sort\<close> gives, and what lies outside the range stays.
\<close>

theorem heap_sort_sorts:
  assumes "first \<le> stop" "stop \<le> length (xs :: 'a::linorder list)"
  shows "sort_heap first stop (make_heap first stop xs) =
    take first xs @ sort (range_of first stop xs) @ drop stop xs"
proof -
  let ?ys = "sort_heap first stop (make_heap first stop xs)"
  have ys: "?ys = sort_heap_comp (<) first stop (make_heap_comp (<) first stop xs)"
    by (simp add: sort_heap_def sort_heap_comp_def make_heap_def make_heap_comp_def)
  note ok = heap_sort_ok [OF less_order.weak_order_axioms assms]
  have "sort (range_of first stop xs) = range_of first stop ?ys"
    using ok(2) permutes_range_split(3) [OF ok(1) assms] unfolding ys by (intro properties_for_sort) simp_all
  moreover have "take first ?ys = take first xs" "drop stop ?ys = drop stop xs"
    using permutes_range_split(1,2) [OF ok(1) assms] unfolding ys by simp_all
  ultimately show ?thesis using range_split [OF assms(1), of ?ys] by simp
qed

theorem heap_sort_sorts_witness:
  "sort_heap 1 6 (make_heap 1 6 [9, 4, 7, 1, 8, 2, 5 :: nat]) = [9, 1, 2, 4, 7, 8, 5]"
  using heap_sort_sorts [of 1 6 "[9, 4, 7, 1, 8, 2, 5 :: nat]"] by (simp add: range_of_def)

end
