(* ===== verification/Stl_Search.thy ===== *)
theory Stl_Search
  imports Stl_Ops
begin

text \<open>
  The binary searches of \<open>kernel/include/bits/stl_algobase.h\<close> and \<open>stl_algo.h\<close>. The internal routines
  take a function object; the lengths they keep are never negative, so they are natural numbers here.
\<close>

section \<open>Routines\<close>

function lower_bound_loop :: "('a list \<Rightarrow> nat \<Rightarrow> 'b \<Rightarrow> bool) \<Rightarrow> nat \<Rightarrow> nat \<Rightarrow> 'b \<Rightarrow> 'a list \<Rightarrow> nat" where
  "lower_bound_loop cmp first len val xs =
     (if len > 0 then
        let half = len div 2; middle = first + half in
        if cmp xs middle val then lower_bound_loop cmp (middle + 1) (len - half - 1) val xs
        else lower_bound_loop cmp first half val xs
      else first)"
  by pat_completeness auto
termination by (relation "measure (\<lambda>(c, f, len, v, xs). len)") auto

declare lower_bound_loop.simps [simp del]

definition lower_bound_with :: "('a list \<Rightarrow> nat \<Rightarrow> 'b \<Rightarrow> bool) \<Rightarrow> nat \<Rightarrow> nat \<Rightarrow> 'b \<Rightarrow> 'a list \<Rightarrow> nat" where
  "lower_bound_with cmp first stop val xs = lower_bound_loop cmp first (stop - first) val xs"

definition lower_bound :: "nat \<Rightarrow> nat \<Rightarrow> 'a \<Rightarrow> 'a::linorder list \<Rightarrow> nat" where
  "lower_bound first stop val xs = lower_bound_with iter_less_val first stop val xs"

definition lower_bound_comp :: "('a \<Rightarrow> 'b \<Rightarrow> bool) \<Rightarrow> nat \<Rightarrow> nat \<Rightarrow> 'b \<Rightarrow> 'a list \<Rightarrow> nat" where
  "lower_bound_comp cmp first stop val xs = lower_bound_with (iter_comp_val cmp) first stop val xs"

function upper_bound_loop :: "('a list \<Rightarrow> 'b \<Rightarrow> nat \<Rightarrow> bool) \<Rightarrow> nat \<Rightarrow> nat \<Rightarrow> 'b \<Rightarrow> 'a list \<Rightarrow> nat" where
  "upper_bound_loop cmp first len val xs =
     (if len > 0 then
        let half = len div 2; middle = first + half in
        if cmp xs val middle then upper_bound_loop cmp first half val xs
        else upper_bound_loop cmp (middle + 1) (len - half - 1) val xs
      else first)"
  by pat_completeness auto
termination by (relation "measure (\<lambda>(c, f, len, v, xs). len)") auto

declare upper_bound_loop.simps [simp del]

definition upper_bound_with :: "('a list \<Rightarrow> 'b \<Rightarrow> nat \<Rightarrow> bool) \<Rightarrow> nat \<Rightarrow> nat \<Rightarrow> 'b \<Rightarrow> 'a list \<Rightarrow> nat" where
  "upper_bound_with cmp first stop val xs = upper_bound_loop cmp first (stop - first) val xs"

definition upper_bound :: "nat \<Rightarrow> nat \<Rightarrow> 'a \<Rightarrow> 'a::linorder list \<Rightarrow> nat" where
  "upper_bound first stop val xs = upper_bound_with val_less_iter first stop val xs"

definition upper_bound_comp :: "('b \<Rightarrow> 'a \<Rightarrow> bool) \<Rightarrow> nat \<Rightarrow> nat \<Rightarrow> 'b \<Rightarrow> 'a list \<Rightarrow> nat" where
  "upper_bound_comp cmp first stop val xs = upper_bound_with (val_comp_iter cmp) first stop val xs"

function equal_range_loop :: "('a list \<Rightarrow> nat \<Rightarrow> 'b \<Rightarrow> bool) \<Rightarrow> ('a list \<Rightarrow> 'b \<Rightarrow> nat \<Rightarrow> bool) \<Rightarrow>
    nat \<Rightarrow> nat \<Rightarrow> 'b \<Rightarrow> 'a list \<Rightarrow> nat \<times> nat" where
  "equal_range_loop comp_it_val comp_val_it first len val xs =
     (if len > 0 then
        let half = len div 2; middle = first + half in
        if comp_it_val xs middle val then
          equal_range_loop comp_it_val comp_val_it (middle + 1) (len - half - 1) val xs
        else if comp_val_it xs val middle then
          equal_range_loop comp_it_val comp_val_it first half val xs
        else
          (let left = lower_bound_with comp_it_val first middle val xs;
               first = first + len;
               right = upper_bound_with comp_val_it (middle + 1) first val xs
           in (left, right))
      else (first, first))"
  by pat_completeness auto
termination by (relation "measure (\<lambda>(c, d, f, len, v, xs). len)") auto

declare equal_range_loop.simps [simp del]

definition equal_range_with :: "('a list \<Rightarrow> nat \<Rightarrow> 'b \<Rightarrow> bool) \<Rightarrow> ('a list \<Rightarrow> 'b \<Rightarrow> nat \<Rightarrow> bool) \<Rightarrow>
    nat \<Rightarrow> nat \<Rightarrow> 'b \<Rightarrow> 'a list \<Rightarrow> nat \<times> nat" where
  "equal_range_with comp_it_val comp_val_it first stop val xs =
     equal_range_loop comp_it_val comp_val_it first (stop - first) val xs"

definition equal_range :: "nat \<Rightarrow> nat \<Rightarrow> 'a \<Rightarrow> 'a::linorder list \<Rightarrow> nat \<times> nat" where
  "equal_range first stop val xs = equal_range_with iter_less_val val_less_iter first stop val xs"

definition equal_range_comp :: "('a \<Rightarrow> 'a \<Rightarrow> bool) \<Rightarrow> nat \<Rightarrow> nat \<Rightarrow> 'a \<Rightarrow> 'a list \<Rightarrow> nat \<times> nat" where
  "equal_range_comp cmp first stop val xs =
     equal_range_with (iter_comp_val cmp) (val_comp_iter cmp) first stop val xs"

definition binary_search :: "nat \<Rightarrow> nat \<Rightarrow> 'a \<Rightarrow> 'a::linorder list \<Rightarrow> bool" where
  "binary_search first stop val xs \<longleftrightarrow>
     (let i = lower_bound_with iter_less_val first stop val xs in i \<noteq> stop \<and> \<not> val < xs ! i)"

definition binary_search_comp :: "('a \<Rightarrow> 'a \<Rightarrow> bool) \<Rightarrow> nat \<Rightarrow> nat \<Rightarrow> 'a \<Rightarrow> 'a list \<Rightarrow> bool" where
  "binary_search_comp cmp first stop val xs \<longleftrightarrow>
     (let i = lower_bound_with (iter_comp_val cmp) first stop val xs in i \<noteq> stop \<and> \<not> cmp val (xs ! i))"

section \<open>Partitioned ranges\<close>

definition partitioned :: "(nat \<Rightarrow> bool) \<Rightarrow> nat \<Rightarrow> nat \<Rightarrow> bool" where
  "partitioned P first stop \<longleftrightarrow> (\<forall>i j. first \<le> i \<and> i < j \<and> j < stop \<and> P j \<longrightarrow> P i)"

definition split_point :: "(nat \<Rightarrow> bool) \<Rightarrow> nat \<Rightarrow> nat \<Rightarrow> nat \<Rightarrow> bool" where
  "split_point P first stop r \<longleftrightarrow> first \<le> r \<and> r \<le> stop \<and>
     (\<forall>i. first \<le> i \<and> i < r \<longrightarrow> P i) \<and> (\<forall>i. r \<le> i \<and> i < stop \<longrightarrow> \<not> P i)"

lemma partitionedD: "partitioned P first stop \<Longrightarrow> P j \<Longrightarrow> first \<le> i \<Longrightarrow> i \<le> j \<Longrightarrow> j < stop \<Longrightarrow> P i"
  unfolding partitioned_def by (metis le_neq_implies_less)

lemma split_point_empty: "split_point P first first r \<longleftrightarrow> r = first"
  by (auto simp: split_point_def)

lemma split_point_right:
  assumes "partitioned P first stop" "P middle" "first \<le> middle" "middle < stop" "split_point P (middle + 1) stop r"
  shows "split_point P first stop r"
  unfolding split_point_def
proof (intro conjI allI impI)
  fix i assume i: "first \<le> i \<and> i < r"
  show "P i"
  proof (cases "i \<le> middle")
    case True
    then show ?thesis using partitionedD [OF assms(1,2)] i assms(4) by blast
  qed (use i assms(5) in \<open>simp add: split_point_def\<close>)
qed (use assms in \<open>auto simp: split_point_def\<close>)

lemma split_point_left:
  assumes "partitioned P first stop" "\<not> P middle" "first \<le> middle" "middle < stop" "split_point P first middle r"
  shows "split_point P first stop r"
  unfolding split_point_def
proof (intro conjI allI impI)
  fix i assume i: "r \<le> i \<and> i < stop"
  show "\<not> P i"
  proof (cases "i < middle")
    case False
    then show ?thesis using partitionedD [OF assms(1), of i middle] i assms(2,3) by auto
  qed (use i assms(5) in \<open>simp add: split_point_def\<close>)
qed (use assms in \<open>auto simp: split_point_def\<close>)

lemma partitioned_mono: "partitioned P first stop \<Longrightarrow> first \<le> a \<Longrightarrow> b \<le> stop \<Longrightarrow> partitioned P a b"
  unfolding partitioned_def by (meson less_le_trans order_trans)

lemma split_point_take:
  assumes "split_point (\<lambda>i. P (xs ! i)) first stop r" "stop \<le> length xs"
  shows "r = first + length (takeWhile P (range_of first stop xs))"
proof -
  let ?n = "r - first"
  have "takeWhile P (range_of first stop xs) = take ?n (range_of first stop xs)"
    using assms by (intro takeWhile_eq_take_P_nth) (auto simp: split_point_def length_range_of nth_range_of)
  then show ?thesis using assms by (auto simp: split_point_def length_range_of)
qed

section \<open>The loops find the split\<close>

lemma lower_bound_loop_split:
  assumes "partitioned (\<lambda>i. cmp xs i val) first (first + len)"
  shows "split_point (\<lambda>i. cmp xs i val) first (first + len) (lower_bound_loop cmp first len val xs)"
  using assms
proof (induction cmp first len val xs rule: lower_bound_loop.induct)
  case (1 cmp first len val xs)
  show ?case
  proof (cases "len > 0")
    case False
    then show ?thesis by (simp add: lower_bound_loop.simps split_point_empty)
  next
    case True
    define middle where "middle = first + len div 2"
    have m: "first \<le> middle" "middle < first + len" "middle + 1 + (len - len div 2 - 1) = first + len"
      using True by (auto simp: middle_def)
    show ?thesis
    proof (cases "cmp xs middle val")
      case c: True
      have "split_point (\<lambda>i. cmp xs i val) (middle + 1) (first + len)
          (lower_bound_loop cmp (middle + 1) (len - len div 2 - 1) val xs)"
        by (rule "1.IH"(1) [OF True refl middle_def c, unfolded m(3)]) (rule partitioned_mono [OF "1.prems"]; simp add: m(1) le_SucI)
      from split_point_right [OF "1.prems" c m(1,2) this] show ?thesis
        using True c by (subst lower_bound_loop.simps) (simp add: middle_def Let_def)
    next
      case c: False
      have "split_point (\<lambda>i. cmp xs i val) first middle (lower_bound_loop cmp first (len div 2) val xs)"
        using "1.IH"(2) [OF True refl middle_def c] partitioned_mono [OF "1.prems"] m by (simp add: middle_def)
      from split_point_left [OF "1.prems" c m(1,2) this] show ?thesis
        using True c by (subst lower_bound_loop.simps) (simp add: middle_def Let_def)
    qed
  qed
qed

text \<open>The search for the upper bound is that for the lower bound with the negated comparison.\<close>

lemma upper_bound_loop_lower:
  "upper_bound_loop cmp first len val xs = lower_bound_loop (\<lambda>xs i v. \<not> cmp xs v i) first len val xs"
proof (induction cmp first len val xs rule: upper_bound_loop.induct)
  case (1 cmp first len val xs)
  then show ?case
    by (subst upper_bound_loop.simps, subst lower_bound_loop.simps) (simp add: Let_def)
qed

lemma upper_bound_loop_split:
  assumes "partitioned (\<lambda>i. \<not> cmp xs val i) first (first + len)"
  shows "split_point (\<lambda>i. \<not> cmp xs val i) first (first + len) (upper_bound_loop cmp first len val xs)"
  using lower_bound_loop_split [of "\<lambda>xs i v. \<not> cmp xs v i"] assms by (simp add: upper_bound_loop_lower)

lemma equal_range_loop_split:
  assumes "partitioned (\<lambda>i. c xs i val) first (first + len)" "partitioned (\<lambda>i. \<not> d xs val i) first (first + len)"
    "\<And>i. first \<le> i \<Longrightarrow> i < first + len \<Longrightarrow> c xs i val \<Longrightarrow> \<not> d xs val i"
  shows "split_point (\<lambda>i. c xs i val) first (first + len) (fst (equal_range_loop c d first len val xs)) \<and>
    split_point (\<lambda>i. \<not> d xs val i) first (first + len) (snd (equal_range_loop c d first len val xs))"
  using assms
proof (induction c d first len val xs rule: equal_range_loop.induct)
  case (1 c d first len val xs)
  show ?case
  proof (cases "len > 0")
    case False
    then show ?thesis by (simp add: equal_range_loop.simps split_point_empty)
  next
    case True
    define middle where "middle = first + len div 2"
    have m: "first \<le> middle" "middle < first + len" "middle + 1 + (len - len div 2 - 1) = first + len"
      "first + len div 2 = middle" using True by (auto simp: middle_def)
    note right = split_point_right [OF _ _ m(1,2)] and left = split_point_left [OF _ _ m(1,2)]
    consider (less) "c xs middle val" | (greater) "\<not> c xs middle val" "d xs val middle"
      | (equal) "\<not> c xs middle val" "\<not> d xs val middle" by blast
    then show ?thesis
    proof cases
      case less
      then have run: "equal_range_loop c d first len val xs = equal_range_loop c d (middle + 1) (len - len div 2 - 1) val xs"
        using True by (subst equal_range_loop.simps) (simp add: Let_def middle_def)
      have "\<not> d xs val middle" using "1.prems"(3) m less by simp
      with "1.IH"(1) [OF True refl middle_def less, unfolded m(3)] show ?thesis
        using partitioned_mono [OF "1.prems"(1)] partitioned_mono [OF "1.prems"(2)] "1.prems" m less
        by (auto simp: run intro: right)
    next
      case greater
      then have run: "equal_range_loop c d first len val xs = equal_range_loop c d first (len div 2) val xs"
        using True by (subst equal_range_loop.simps) (simp add: Let_def middle_def)
      from "1.IH"(2) [OF True refl middle_def greater] show ?thesis
        using partitioned_mono [OF "1.prems"(1)] partitioned_mono [OF "1.prems"(2)] "1.prems" m greater
        by (auto simp: run intro: left)
    next
      case equal
      have l: "split_point (\<lambda>i. c xs i val) first middle (lower_bound_with c first middle val xs)"
        using lower_bound_loop_split [of c xs val first "middle - first"] partitioned_mono [OF "1.prems"(1)] m(1,2)
        by (simp add: lower_bound_with_def)
      have u: "split_point (\<lambda>i. \<not> d xs val i) (middle + 1) (first + len)
          (upper_bound_with d (middle + 1) (first + len) val xs)"
        using upper_bound_loop_split [of d xs val "middle + 1" "first + len - (middle + 1)"]
          partitioned_mono [OF "1.prems"(2)] m(1,2)
        by (simp add: upper_bound_with_def)
      show ?thesis
        using True equal left [OF "1.prems"(1) equal(1) l] right [OF "1.prems"(2) equal(2) u]
        by (subst (1 2) equal_range_loop.simps) (simp add: Let_def m(4))
    qed
  qed
qed

context weak_order
begin

lemma partitioned_ordered:
  assumes "ordered cmp (range_of first stop xs)" "stop \<le> length xs"
  shows "partitioned (\<lambda>i. cmp (xs ! i) val) first stop" "partitioned (\<lambda>i. \<not> cmp val (xs ! i)) first stop"
proof -
  have "le (xs ! i) (xs ! j)" if "first \<le> i" "i < j" "j < stop" for i j
    using assms that by (simp add: ordered_range le_def)
  then show "partitioned (\<lambda>i. cmp (xs ! i) val) first stop" "partitioned (\<lambda>i. \<not> cmp val (xs ! i)) first stop"
    unfolding partitioned_def by (metis neg_trans asym not_comp_le)+
qed

lemma search_ok:
  assumes "ordered cmp (range_of first stop xs)" "first \<le> stop" "stop \<le> length xs"
  shows "lower_bound_comp cmp first stop val xs = first + length (takeWhile (\<lambda>x. cmp x val) (range_of first stop xs))"
    "upper_bound_comp cmp first stop val xs = first + length (takeWhile (\<lambda>x. \<not> cmp val x) (range_of first stop xs))"
    "equal_range_comp cmp first stop val xs = (lower_bound_comp cmp first stop val xs, upper_bound_comp cmp first stop val xs)"
    "binary_search_comp cmp first stop val xs \<longleftrightarrow> (\<exists>x \<in> set (range_of first stop xs). \<not> cmp x val \<and> \<not> cmp val x)"
proof -
  note p = partitioned_ordered [OF assms(1,3), of val]
  have l: "split_point (\<lambda>i. cmp (xs ! i) val) first stop (lower_bound_comp cmp first stop val xs)"
    using lower_bound_loop_split [of "iter_comp_val cmp" xs val first "stop - first"] p assms(2)
    by (simp add: lower_bound_comp_def lower_bound_with_def iter_ops)
  show lower: "lower_bound_comp cmp first stop val xs = first + length (takeWhile (\<lambda>x. cmp x val) (range_of first stop xs))"
    by (rule split_point_take [OF l assms(3)])
  have u: "split_point (\<lambda>i. \<not> cmp val (xs ! i)) first stop (upper_bound_comp cmp first stop val xs)"
    using upper_bound_loop_split [of "val_comp_iter cmp" xs val first "stop - first"] p assms(2)
    by (simp add: upper_bound_comp_def upper_bound_with_def iter_ops)
  show upper: "upper_bound_comp cmp first stop val xs = first + length (takeWhile (\<lambda>x. \<not> cmp val x) (range_of first stop xs))"
    by (rule split_point_take [OF u assms(3)])
  have "split_point (\<lambda>i. cmp (xs ! i) val) first stop (fst (equal_range_comp cmp first stop val xs)) \<and>
    split_point (\<lambda>i. \<not> cmp val (xs ! i)) first stop (snd (equal_range_comp cmp first stop val xs))"
    using equal_range_loop_split [of "iter_comp_val cmp" xs val first "stop - first" "val_comp_iter cmp"] p asym assms(2)
    by (simp add: equal_range_comp_def equal_range_with_def iter_ops)
  then show "equal_range_comp cmp first stop val xs = (lower_bound_comp cmp first stop val xs, upper_bound_comp cmp first stop val xs)"
    using split_point_take [OF _ assms(3), of "\<lambda>x. cmp x val" first] split_point_take [OF _ assms(3), of "\<lambda>x. \<not> cmp val x" first]
    by (simp add: prod_eq_iff lower upper)
  have i: "lower_bound_with (iter_comp_val cmp) first stop val xs = lower_bound_comp cmp first stop val xs"
    by (simp add: lower_bound_comp_def)
  let ?r = "lower_bound_comp cmp first stop val xs"
  have "(\<exists>x \<in> set (range_of first stop xs). \<not> cmp x val \<and> \<not> cmp val x) \<longleftrightarrow>
      (\<exists>j. first \<le> j \<and> j < stop \<and> \<not> cmp (xs ! j) val \<and> \<not> cmp val (xs ! j))"
    using assms(3) by (auto simp: set_range_of)
  also have "\<dots> \<longleftrightarrow> ?r \<noteq> stop \<and> \<not> cmp val (xs ! ?r)"
  proof
    assume "\<exists>j. first \<le> j \<and> j < stop \<and> \<not> cmp (xs ! j) val \<and> \<not> cmp val (xs ! j)"
    then obtain j where j: "first \<le> j" "j < stop" "\<not> cmp (xs ! j) val" "\<not> cmp val (xs ! j)" by blast
    then have "first \<le> ?r" "?r \<le> j" using l unfolding split_point_def by (auto simp: not_less [symmetric])
    with partitionedD [OF p(2) j(4) _ _ j(2)] j(2) show "?r \<noteq> stop \<and> \<not> cmp val (xs ! ?r)" by auto
  qed (use l in \<open>auto simp: split_point_def intro!: exI [of _ ?r]\<close>)
  finally show "binary_search_comp cmp first stop val xs \<longleftrightarrow>
      (\<exists>x \<in> set (range_of first stop xs). \<not> cmp x val \<and> \<not> cmp val x)"
    by (simp add: binary_search_comp_def i Let_def)
qed

end

section \<open>Properties\<close>

text \<open>The searches without a comparison are those with \<open><\<close>.\<close>

lemma search_less:
  "lower_bound = lower_bound_comp (<)" "upper_bound = upper_bound_comp (<)"
  "equal_range = equal_range_comp (<)" "binary_search = binary_search_comp (<)"
  by (simp_all add: fun_eq_iff lower_bound_def lower_bound_comp_def upper_bound_def upper_bound_comp_def
    equal_range_def equal_range_comp_def binary_search_def binary_search_comp_def iter_less_comp)

text \<open>
  on a range ordered by a strict weak ordering the binary searches give what a walk through the
  range from its start gives: \<open>lower_bound\<close> stops at the first element not less than the value,
  \<open>upper_bound\<close> at the first greater one, \<open>equal_range\<close> is the pair of the two, and \<open>binary_search\<close> tells
  whether an equivalent element is there.
\<close>

theorem binary_searches_linear:
  assumes "weak_order cmp" "first \<le> stop" "stop \<le> length xs" "ordered cmp (range_of first stop xs)"
  shows "lower_bound_comp cmp first stop val xs = first + length (takeWhile (\<lambda>x. cmp x val) (range_of first stop xs)) \<and>
    upper_bound_comp cmp first stop val xs = first + length (takeWhile (\<lambda>x. \<not> cmp val x) (range_of first stop xs)) \<and>
    equal_range_comp cmp first stop val xs =
      (lower_bound_comp cmp first stop val xs, upper_bound_comp cmp first stop val xs) \<and>
    binary_search_comp cmp first stop val xs =
      (\<exists>x \<in> set (range_of first stop xs). \<not> cmp x val \<and> \<not> cmp val x)"
  using weak_order.search_ok [OF assms(1,4,2,3)] by blast

theorem binary_searches_linear_witness:
  "weak_order (\<lambda>x y :: nat. x div 10 < y div 10) \<and>
   equal_range_comp (\<lambda>x y. x div 10 < y div 10) 1 7 25 [99, 11, 21, 29, 20, 37, 43, 5 :: nat] = (2, 5)"
proof -
  have w: "weak_order (\<lambda>x y :: nat. x div 10 < y div 10)" by unfold_locales auto
  have "ordered (\<lambda>x y :: nat. x div 10 < y div 10) (range_of 1 7 [99, 11, 21, 29, 20, 37, 43, 5])"
    by code_simp
  with w show ?thesis
    using binary_searches_linear [OF w, of 1 7 "[99, 11, 21, 29, 20, 37, 43, 5]" 25] by (simp add: range_of_def)
qed

end
