(* ===== verification/Stl_Sort.thy ===== *)
theory Stl_Sort
  imports Stl_Heap "HOL-Library.Monad_Syntax"
begin

text \<open>
  The sorting algorithms of \<open>kernel/include/bits/stl_algo.h\<close>: \<open>sort\<close> (introsort: quicksort that falls back to
  heap sort, then insertion sort), \<open>partial_sort\<close> and \<open>nth_element\<close>. Some of the internal loops have no bound
  of their own and rely on an element that stops them: they return \<open>None\<close> where they would read beyond the
  objects there are, and the properties show that this never happens.
\<close>

section \<open>Insertion sort\<close>

text \<open>Moving a range up, from its end on.\<close>

fun move_backward :: "nat \<Rightarrow> nat \<Rightarrow> nat \<Rightarrow> 'a list \<Rightarrow> 'a list" where
  "move_backward first stop result xs =
     (if stop > first then move_backward first (stop - 1) (result - 1) (xs[result - 1 := xs ! (stop - 1)]) else xs)"

declare move_backward.simps [simp del]

fun linear_insert_loop :: "('a \<Rightarrow> 'a \<Rightarrow> bool) \<Rightarrow> 'a \<Rightarrow> nat \<Rightarrow> 'a list \<Rightarrow> 'a list option" where
  "linear_insert_loop cmp val stop xs =
     (if stop = 0 then None
      else let nxt = stop - 1 in
        if val_comp_iter cmp xs val nxt then linear_insert_loop cmp val nxt (xs[stop := xs ! nxt])
        else Some (xs[stop := val]))"

declare linear_insert_loop.simps [simp del]

definition unguarded_linear_insert :: "('a \<Rightarrow> 'a \<Rightarrow> bool) \<Rightarrow> nat \<Rightarrow> 'a list \<Rightarrow> 'a list option" where
  "unguarded_linear_insert cmp stop xs = (let val = xs ! stop in linear_insert_loop cmp val stop xs)"

function insertion_loop :: "('a \<Rightarrow> 'a \<Rightarrow> bool) \<Rightarrow> nat \<Rightarrow> nat \<Rightarrow> nat \<Rightarrow> 'a list \<Rightarrow> 'a list option" where
  "insertion_loop cmp first i stop xs =
     (if i < stop then
        do { xs \<leftarrow> (if iter_comp_iter cmp xs i first then
                let val = xs ! i; xs = move_backward first i (i + 1) xs in Some (xs[first := val])
              else unguarded_linear_insert cmp i xs);
             insertion_loop cmp first (i + 1) stop xs }
      else Some xs)"
  by pat_completeness auto
termination by (relation "measure (\<lambda>(c, f, i, stop, xs). stop - i)") auto

declare insertion_loop.simps [simp del]

definition insertion_sort :: "('a \<Rightarrow> 'a \<Rightarrow> bool) \<Rightarrow> nat \<Rightarrow> nat \<Rightarrow> 'a list \<Rightarrow> 'a list option" where
  "insertion_sort cmp first stop xs = (if first = stop then Some xs else insertion_loop cmp first (first + 1) stop xs)"

function unguarded_insertion_sort :: "('a \<Rightarrow> 'a \<Rightarrow> bool) \<Rightarrow> nat \<Rightarrow> nat \<Rightarrow> 'a list \<Rightarrow> 'a list option" where
  "unguarded_insertion_sort cmp i stop xs =
     (if i < stop then do { xs \<leftarrow> unguarded_linear_insert cmp i xs; unguarded_insertion_sort cmp (i + 1) stop xs }
      else Some xs)"
  by pat_completeness auto
termination by (relation "measure (\<lambda>(c, i, stop, xs). stop - i)") auto

declare unguarded_insertion_sort.simps [simp del]

definition S_threshold :: nat where
  "S_threshold = 16"

definition final_insertion_sort :: "('a \<Rightarrow> 'a \<Rightarrow> bool) \<Rightarrow> nat \<Rightarrow> nat \<Rightarrow> 'a list \<Rightarrow> 'a list option" where
  "final_insertion_sort cmp first stop xs =
     (if stop - first > S_threshold then
        do { xs \<leftarrow> insertion_sort cmp first (first + S_threshold) xs;
             unguarded_insertion_sort cmp (first + S_threshold) stop xs }
      else insertion_sort cmp first stop xs)"

section \<open>Partitioning\<close>

definition move_median_to_first :: "('a \<Rightarrow> 'a \<Rightarrow> bool) \<Rightarrow> nat \<Rightarrow> nat \<Rightarrow> nat \<Rightarrow> nat \<Rightarrow> 'a list \<Rightarrow> 'a list" where
  "move_median_to_first cmp result a b c xs =
     (if iter_comp_iter cmp xs a b then
        if iter_comp_iter cmp xs b c then swap_at result b xs
        else if iter_comp_iter cmp xs a c then swap_at result c xs
        else swap_at result a xs
      else if iter_comp_iter cmp xs a c then swap_at result a xs
      else if iter_comp_iter cmp xs b c then swap_at result c xs
      else swap_at result b xs)"

text \<open>The two scans of the partition.\<close>

function scan_up :: "('a \<Rightarrow> 'a \<Rightarrow> bool) \<Rightarrow> nat \<Rightarrow> nat \<Rightarrow> 'a list \<Rightarrow> nat option" where
  "scan_up cmp first pivot xs =
     (if first < length xs then
        if iter_comp_iter cmp xs first pivot then scan_up cmp (first + 1) pivot xs else Some first
      else None)"
  by pat_completeness auto
termination by (relation "measure (\<lambda>(c, first, p, xs). length xs - first)") auto

declare scan_up.simps [simp del]

fun scan_down :: "('a \<Rightarrow> 'a \<Rightarrow> bool) \<Rightarrow> nat \<Rightarrow> nat \<Rightarrow> 'a list \<Rightarrow> nat option" where
  "scan_down cmp stop pivot xs =
     (if stop = 0 then None
      else let stop = stop - 1 in
        if iter_comp_iter cmp xs pivot stop then scan_down cmp stop pivot xs else Some stop)"

declare scan_down.simps [simp del]

lemma scan_down_less: "scan_down cmp stop pivot xs = Some s \<Longrightarrow> s < stop"
proof (induction cmp stop pivot xs rule: scan_down.induct)
  case (1 cmp stop pivot xs)
  then show ?case
    by (subst (asm) (2) scan_down.simps) (auto simp: Let_def split: if_splits)
qed

function unguarded_partition :: "('a \<Rightarrow> 'a \<Rightarrow> bool) \<Rightarrow> nat \<Rightarrow> nat \<Rightarrow> nat \<Rightarrow> 'a list \<Rightarrow> (nat \<times> 'a list) option" where
  "unguarded_partition cmp first stop pivot xs =
     do { first \<leftarrow> scan_up cmp first pivot xs;
          stop \<leftarrow> scan_down cmp stop pivot xs;
          if \<not> first < stop then Some (first, xs)
          else unguarded_partition cmp (first + 1) stop pivot (swap_at first stop xs) }"
  by pat_completeness auto
termination by (relation "measure (\<lambda>(c, f, stop, p, xs). stop)") (auto dest: scan_down_less)

declare unguarded_partition.simps [simp del]

definition unguarded_partition_pivot :: "('a \<Rightarrow> 'a \<Rightarrow> bool) \<Rightarrow> nat \<Rightarrow> nat \<Rightarrow> 'a list \<Rightarrow> (nat \<times> 'a list) option" where
  "unguarded_partition_pivot cmp first stop xs =
     (let mid = first + (stop - first) div 2;
          xs = move_median_to_first cmp first (first + 1) mid (stop - 1) xs
      in unguarded_partition cmp (first + 1) stop first xs)"

section \<open>Selecting with a heap\<close>

function heap_select_loop :: "('a \<Rightarrow> 'a \<Rightarrow> bool) \<Rightarrow> nat \<Rightarrow> nat \<Rightarrow> nat \<Rightarrow> nat \<Rightarrow> 'a list \<Rightarrow> 'a list" where
  "heap_select_loop cmp first middle i stop xs =
     (if i < stop then
        heap_select_loop cmp first middle (i + 1) stop
          (if iter_comp_iter cmp xs i first then pop_heap_to cmp first middle i xs else xs)
      else xs)"
  by pat_completeness auto
termination by (relation "measure (\<lambda>(c, f, m, i, stop, xs). stop - i)") auto

declare heap_select_loop.simps [simp del]

definition heap_select :: "('a \<Rightarrow> 'a \<Rightarrow> bool) \<Rightarrow> nat \<Rightarrow> nat \<Rightarrow> nat \<Rightarrow> 'a list \<Rightarrow> 'a list" where
  "heap_select cmp first middle stop xs =
     (let xs = make_heap_with cmp first middle xs in heap_select_loop cmp first middle middle stop xs)"

definition partial_sort_with :: "('a \<Rightarrow> 'a \<Rightarrow> bool) \<Rightarrow> nat \<Rightarrow> nat \<Rightarrow> nat \<Rightarrow> 'a list \<Rightarrow> 'a list" where
  "partial_sort_with cmp first middle stop xs =
     (let xs = heap_select cmp first middle stop xs in sort_heap_with cmp first middle xs)"

definition partial_sort :: "nat \<Rightarrow> nat \<Rightarrow> nat \<Rightarrow> 'a::linorder list \<Rightarrow> 'a list" where
  "partial_sort first middle stop xs = partial_sort_with (<) first middle stop xs"

definition partial_sort_comp :: "('a \<Rightarrow> 'a \<Rightarrow> bool) \<Rightarrow> nat \<Rightarrow> nat \<Rightarrow> nat \<Rightarrow> 'a list \<Rightarrow> 'a list" where
  "partial_sort_comp cmp first middle stop xs = partial_sort_with cmp first middle stop xs"

section \<open>Introsort and introselect\<close>

text \<open>The position of the highest bit that is set.\<close>

fun bit_width :: "nat \<Rightarrow> nat" where
  "bit_width n = (if n = 0 then 0 else bit_width (n div 2) + 1)"

declare bit_width.simps [simp del]

definition lg :: "nat \<Rightarrow> nat" where
  "lg n = bit_width n - 1"

function introsort_loop :: "('a \<Rightarrow> 'a \<Rightarrow> bool) \<Rightarrow> nat \<Rightarrow> nat \<Rightarrow> nat \<Rightarrow> 'a list \<Rightarrow> 'a list option" where
  "introsort_loop cmp first stop depth_limit xs =
     (if stop - first > S_threshold then
        if depth_limit = 0 then Some (partial_sort_with cmp first stop stop xs)
        else do { let depth_limit = depth_limit - 1;
                  (cut, xs) \<leftarrow> unguarded_partition_pivot cmp first stop xs;
                  xs \<leftarrow> introsort_loop cmp cut stop depth_limit xs;
                  introsort_loop cmp first cut depth_limit xs }
      else Some xs)"
  by pat_completeness auto
termination by (relation "measure (\<lambda>(c, f, s, depth, xs). depth)") auto

declare introsort_loop.simps [simp del]

definition sort_with :: "('a \<Rightarrow> 'a \<Rightarrow> bool) \<Rightarrow> nat \<Rightarrow> nat \<Rightarrow> 'a list \<Rightarrow> 'a list option" where
  "sort_with cmp first stop xs =
     (if first \<noteq> stop then
        do { xs \<leftarrow> introsort_loop cmp first stop (lg (stop - first) * 2) xs; final_insertion_sort cmp first stop xs }
      else Some xs)"

definition sort_range :: "nat \<Rightarrow> nat \<Rightarrow> 'a::linorder list \<Rightarrow> 'a list option" where
  "sort_range first stop xs = sort_with (<) first stop xs"

definition sort_range_comp :: "('a \<Rightarrow> 'a \<Rightarrow> bool) \<Rightarrow> nat \<Rightarrow> nat \<Rightarrow> 'a list \<Rightarrow> 'a list option" where
  "sort_range_comp cmp first stop xs = sort_with cmp first stop xs"

function introselect :: "('a \<Rightarrow> 'a \<Rightarrow> bool) \<Rightarrow> nat \<Rightarrow> nat \<Rightarrow> nat \<Rightarrow> nat \<Rightarrow> 'a list \<Rightarrow> 'a list option" where
  "introselect cmp first nth_pos stop depth_limit xs =
     (if stop - first > 3 then
        if depth_limit = 0 then
          let xs = heap_select cmp first (nth_pos + 1) stop xs in Some (swap_at first nth_pos xs)
        else do { let depth_limit = depth_limit - 1;
                  (cut, xs) \<leftarrow> unguarded_partition_pivot cmp first stop xs;
                  if cut \<le> nth_pos then introselect cmp cut nth_pos stop depth_limit xs
                  else introselect cmp first nth_pos cut depth_limit xs }
      else insertion_sort cmp first stop xs)"
  by pat_completeness auto
termination by (relation "measure (\<lambda>(c, f, n, s, depth, xs). depth)") auto

declare introselect.simps [simp del]

definition nth_element :: "nat \<Rightarrow> nat \<Rightarrow> nat \<Rightarrow> 'a::linorder list \<Rightarrow> 'a list option" where
  "nth_element first nth_pos stop xs =
     (if first = stop \<or> nth_pos = stop then Some xs
      else introselect (<) first nth_pos stop (lg (stop - first) * 2) xs)"

definition nth_element_comp :: "('a \<Rightarrow> 'a \<Rightarrow> bool) \<Rightarrow> nat \<Rightarrow> nat \<Rightarrow> nat \<Rightarrow> 'a list \<Rightarrow> 'a list option" where
  "nth_element_comp cmp first nth_pos stop xs =
     (if first = stop \<or> nth_pos = stop then Some xs
      else introselect cmp first nth_pos stop (lg (stop - first) * 2) xs)"


section \<open>Insertion sort sorts\<close>

lemma length_move_backward [simp]: "length (move_backward first stop result xs) = length xs"
  by (induction first stop result xs rule: move_backward.induct) (subst move_backward.simps, simp)

lemma nth_move_backward:
  assumes "first \<le> stop" "stop < length xs"
  shows "move_backward first stop (stop + 1) xs ! k = (if first < k \<and> k \<le> stop then xs ! (k - 1) else xs ! k)"
  using assms
proof (induction "stop - first" arbitrary: stop xs)
  case 0
  then have "stop = first" by simp
  then show ?case by (subst move_backward.simps) auto
next
  case (Suc d)
  then obtain s where s: "stop = Suc s" "first \<le> s" by (cases stop) auto
  have "move_backward first stop (stop + 1) xs = move_backward first s (s + 1) (xs[stop := xs ! s])"
    using s by (subst move_backward.simps) simp
  with Suc s show ?case by (auto simp: nth_list_update less_Suc_eq_le le_Suc_eq)
qed

lemma rotate_range:
  assumes "first \<le> i" "i < length xs"
  defines "ys \<equiv> (move_backward first i (i + 1) xs)[first := xs ! i]"
  shows "permutes_range first (i + 1) xs ys"
    "ys ! k = (if k = first then xs ! i else if first < k \<and> k \<le> i then xs ! (k - 1) else xs ! k)"
    "ys = take first xs @ (xs ! i # range_of first i xs) @ drop (i + 1) xs"
    "xs = take first xs @ (range_of first i xs @ [xs ! i]) @ drop (i + 1) xs"
proof -
  show nth: "ys ! k = (if k = first then xs ! i else if first < k \<and> k \<le> i then xs ! (k - 1) else xs ! k)" for k
    unfolding ys_def nth_move_backward [OF assms(1,2), symmetric] using assms(1,2) by (simp add: nth_list_update)
  have len: "length ys = length xs" by (simp add: ys_def)
  show ys: "ys = take first xs @ (xs ! i # range_of first i xs) @ drop (i + 1) xs"
    using assms(1,2) len by (intro nth_equalityI) (auto simp: nth nth_append nth_Cons length_range_of nth_range_of
        split: nat.split intro!: arg_cong [where f = "(!) xs"])
  show "xs = take first xs @ (range_of first i xs @ [xs ! i]) @ drop (i + 1) xs"
    using range_split [OF assms(1), of xs] Cons_nth_drop_Suc [OF assms(2)] by simp
  then have "mset xs = mset (take first xs @ (range_of first i xs @ [xs ! i]) @ drop (i + 1) xs)" by (rule arg_cong)
  then have "mset ys = mset xs" unfolding ys by simp
  with len nth assms(1) show "permutes_range first (i + 1) xs ys" by (auto simp: permutes_range_def)
qed

context weak_order
begin

definition in_order :: "nat \<Rightarrow> nat \<Rightarrow> 'a list \<Rightarrow> bool" where
  "in_order first stop xs \<longleftrightarrow> (\<forall>i j. first \<le> i \<longrightarrow> i < j \<longrightarrow> j < stop \<longrightarrow> le (xs ! i) (xs ! j))"

lemma in_orderD: "in_order first stop xs \<Longrightarrow> first \<le> i \<Longrightarrow> i \<le> j \<Longrightarrow> j < stop \<Longrightarrow> le (xs ! i) (xs ! j)"
  by (cases "i = j") (simp_all add: in_order_def)

lemma ordered_in_order: "stop \<le> length xs \<Longrightarrow> ordered cmp (range_of first stop xs) \<longleftrightarrow> in_order first stop xs"
  by (simp add: ordered_range in_order_def le_def)

text \<open>Inserting: the place left free at \<open>h\<close> is for \<open>v\<close>, and what stands above it is larger.\<close>

lemma linear_insert_loop_ok:
  assumes "\<And>a b. first \<le> a \<Longrightarrow> a < b \<Longrightarrow> b \<le> i \<Longrightarrow> a \<noteq> h \<Longrightarrow> b \<noteq> h \<Longrightarrow> le (xs ! a) (xs ! b)"
    "\<And>b. h < b \<Longrightarrow> b \<le> i \<Longrightarrow> le v (xs ! b)"
    "h \<le> i" "i < length xs" "first \<le> s" "s < h" "\<not> cmp v (xs ! s)"
  shows "\<exists>ys. linear_insert_loop cmp v h xs = Some ys \<and>
    permutes_range first (i + 1) (xs[h := v]) ys \<and> in_order first (i + 1) ys \<and>
    (\<forall>u. equivs cmp u ys = equivs cmp u (xs[h := v]))"
  using assms
proof (induction h arbitrary: xs)
  case (Suc n)
  have run: "linear_insert_loop cmp v (Suc n) xs =
      (if cmp v (xs ! n) then linear_insert_loop cmp v n (xs[Suc n := xs ! n]) else Some (xs[Suc n := v]))"
    by (subst linear_insert_loop.simps) (simp add: iter_ops)
  show ?case
  proof (cases "cmp v (xs ! n)")
    case True
    let ?xs = "xs[Suc n := xs ! n]"
    have "s \<noteq> n" using True Suc.prems(7) by auto
    then have s: "s < n" using Suc.prems(6) by simp
    have "\<exists>ys. linear_insert_loop cmp v n ?xs = Some ys \<and>
      permutes_range first (i + 1) (?xs[n := v]) ys \<and> in_order first (i + 1) ys \<and>
      (\<forall>u. equivs cmp u ys = equivs cmp u (?xs[n := v]))"
    proof (rule Suc.IH)
      fix a b assume ab: "first \<le> a" "a < b" "b \<le> i" "a \<noteq> n" "b \<noteq> n"
      show "le (?xs ! a) (?xs ! b)"
        using ab Suc.prems(1) [of a b] Suc.prems(1) [of n b] Suc.prems(1) [of a n] Suc.prems(3,4,5) s
        by (auto simp: nth_list_update)
    next
      fix b assume "n < b" "b \<le> i"
      then show "le v (?xs ! b)"
        using Suc.prems(2) [of b] Suc.prems(4) comp_le [OF True] by (cases "b = Suc n") auto
    qed (use Suc.prems s in auto)
    moreover have swap: "?xs[n := v] = swap_at n (Suc n) (xs[Suc n := v])"
      using Suc.prems(3,4) by (simp add: swap_at_def list_update_swap [of n "Suc n"])
    then have "permutes_range first (i + 1) (xs[Suc n := v]) (?xs[n := v])"
      using permutes_swap_at [of first n "i + 1" "Suc n" "xs[Suc n := v]"] Suc.prems(3,4,5) s by simp
    moreover have "equivs cmp u (?xs[n := v]) = equivs cmp u (xs[Suc n := v])" for u
      unfolding swap using Suc.prems(3,4) True by (intro equivs_swap) simp_all
    ultimately show ?thesis using True run by (auto intro: permutes_range_trans)
  next
    case False
    have "le (xs ! n) v" using False by (simp add: le_def)
    then have "le (xs ! a) v" if "first \<le> a" "a \<le> n" for a
      using that Suc.prems(1) [of a n] Suc.prems(3) le_trans by (cases "a = n") auto
    then have "in_order first (i + 1) (xs[Suc n := v])"
      using Suc.prems(1-4) by (auto simp: in_order_def nth_list_update)
    with False run show ?thesis by auto
  qed
qed simp

lemma unguarded_linear_insert_ok:
  assumes "in_order first i xs" "first < i" "i < length xs" "\<not> cmp (xs ! i) (xs ! first)"
  shows "\<exists>ys. unguarded_linear_insert cmp i xs = Some ys \<and> permutes_range first (i + 1) xs ys \<and> in_order first (i + 1) ys \<and>
    (\<forall>u. equivs cmp u ys = equivs cmp u xs)"
  using linear_insert_loop_ok [of first i i xs "xs ! i" first] assms
  by (auto simp: unguarded_linear_insert_def in_order_def)

lemma insertion_loop_ok:
  assumes "in_order first i xs" "first < i" "i \<le> stop" "stop \<le> length xs"
  shows "\<exists>ys. insertion_loop cmp first i stop xs = Some ys \<and> permutes_range first stop xs ys \<and> in_order first stop ys \<and>
    (\<forall>u. equivs cmp u ys = equivs cmp u xs)"
  using assms
proof (induction "stop - i" arbitrary: i xs)
  case 0
  then show ?case by (simp add: insertion_loop.simps)
next
  case (Suc d)
  have i_less: "i < stop" using Suc.hyps(2) by simp
  let ?step = "if iter_comp_iter cmp xs i first
    then Some ((move_backward first i (i + 1) xs)[first := xs ! i]) else unguarded_linear_insert cmp i xs"
  have run: "insertion_loop cmp first i stop xs = ?step \<bind> insertion_loop cmp first (i + 1) stop"
    using i_less by (subst insertion_loop.simps) (simp add: Let_def)
  have "\<exists>ys. ?step = Some ys \<and> permutes_range first (i + 1) xs ys \<and> in_order first (i + 1) ys \<and>
    (\<forall>u. equivs cmp u ys = equivs cmp u xs)"
  proof (cases "cmp (xs ! i) (xs ! first)")
    case True
    define ys where "ys = (move_backward first i (i + 1) xs)[first := xs ! i]"
    have i: "first \<le> i" "i < length xs" using Suc.prems Suc.hyps(2) by simp_all
    note ys = rotate_range [OF i, folded ys_def]
    have above: "le (xs ! i) (xs ! a)" if "first \<le> a" "a < i" for a
      using comp_le [OF True] in_orderD [OF Suc.prems(1), of first a] that le_trans by blast
    have "in_order first (i + 1) ys"
      unfolding in_order_def
    proof (intro allI impI)
      fix a b assume "first \<le> a" "a < b" "b < i + 1"
      then show "le (ys ! a) (ys ! b)"
        using above [of "b - 1"] in_orderD [OF Suc.prems(1), of "a - 1" "b - 1"] by (auto simp: ys(2))
    qed
    moreover have "equivs cmp u ys = equivs cmp u xs" for u
    proof -
      have larger: "cmp (xs ! i) z" if "z \<in> set (range_of first i xs)" for z
      proof -
        have "z \<in> {xs ! k | k. first \<le> k \<and> k < i}" using that set_range_of [of i xs first] i(2) by simp
        then obtain k where k: "z = xs ! k" "first \<le> k" "k < i" by blast
        then have "le (xs ! first) (xs ! k)" using in_orderD [OF Suc.prems(1), of first k] by simp
        with True k(1) show ?thesis using neg_trans unfolding le_def by blast
      qed
      have "equivs cmp u (xs ! i # range_of first i xs) = equivs cmp u (range_of first i xs @ [xs ! i])"
        by (rule equivs_move) (rule larger)
      moreover have "equivs cmp u xs = equivs cmp u (take first xs @ (range_of first i xs @ [xs ! i]) @ drop (i + 1) xs)"
        using ys(4) by (rule arg_cong)
      ultimately show ?thesis by (subst ys(3)) (simp only: equivs_append)
    qed
    ultimately show ?thesis using True ys(1) by (simp add: iter_ops ys_def)
  next
    case False
    then show ?thesis using unguarded_linear_insert_ok [OF Suc.prems(1,2)] Suc.prems Suc.hyps(2) by (simp add: iter_ops)
  qed
  then obtain ys where ys: "?step = Some ys" "permutes_range first (i + 1) xs ys" "in_order first (i + 1) ys"
    "\<forall>u. equivs cmp u ys = equivs cmp u xs" by blast
  have len: "length ys = length xs" using ys(2) by (simp add: permutes_range_def)
  obtain zs where zs: "insertion_loop cmp first (i + 1) stop ys = Some zs" "permutes_range first stop ys zs" "in_order first stop zs"
    "\<forall>u. equivs cmp u zs = equivs cmp u ys"
  proof -
    have "d = stop - (i + 1)" "first < i + 1" "i + 1 \<le> stop" "stop \<le> length ys"
      using Suc.hyps(2) Suc.prems len by simp_all
    from Suc.hyps(1) [OF this(1) ys(3) this(2-4)] that show ?thesis by blast
  qed
  have "permutes_range first stop xs ys"
    using Suc.hyps(2) by (intro permutes_range_mono [OF ys(2)]) auto
  with zs ys(1,4) run show ?case by (auto intro: permutes_range_trans)
qed

lemma insertion_sort_ok:
  assumes "first \<le> stop" "stop \<le> length xs"
  shows "\<exists>ys. insertion_sort cmp first stop xs = Some ys \<and> permutes_range first stop xs ys \<and> in_order first stop ys \<and>
    (\<forall>u. equivs cmp u ys = equivs cmp u xs)"
proof (cases "first = stop")
  case False
  then show ?thesis
    using insertion_loop_ok [of first "first + 1" xs stop] assms by (simp add: insertion_sort_def in_order_def)
qed (simp add: insertion_sort_def in_order_def)

end

end
