(* ===== verification/Stl_Introsort.thy ===== *)
theory Stl_Introsort
  imports Stl_Sort
begin

text \<open>
  That \<open>sort\<close> sorts, on every path: the partition around the median of three, the fall-back to heap sort
  when the depth limit is spent, and the insertion sort that finishes blocks of at most 16 elements.
\<close>

section \<open>The partition\<close>

lemma permutes_outside:
  "permutes_range first stop xs ys \<Longrightarrow> i < first \<or> stop \<le> i \<Longrightarrow> i < length xs \<Longrightarrow> ys ! i = xs ! i"
  by (auto simp: permutes_range_def)

lemma permutes_length: "permutes_range first stop xs ys \<Longrightarrow> length ys = length xs"
  by (simp add: permutes_range_def)

lemma scan_up_ok:
  assumes "first \<le> k" "k < length xs" "\<not> cmp (xs ! k) (xs ! p)"
  shows "\<exists>f. scan_up cmp first p xs = Some f \<and> first \<le> f \<and> f \<le> k \<and> \<not> cmp (xs ! f) (xs ! p) \<and>
    (\<forall>i. first \<le> i \<longrightarrow> i < f \<longrightarrow> cmp (xs ! i) (xs ! p))"
  using assms
proof (induction "k - first" arbitrary: first)
  case 0
  then show ?case by (subst scan_up.simps) (simp add: iter_ops)
next
  case (Suc d)
  then have first: "first < length xs" "first < k" by simp_all
  show ?case
  proof (cases "cmp (xs ! first) (xs ! p)")
    case True
    then have run: "scan_up cmp first p xs = scan_up cmp (first + 1) p xs"
      using first by (subst scan_up.simps) (simp add: iter_ops)
    obtain f where f: "scan_up cmp (first + 1) p xs = Some f" "first + 1 \<le> f" "f \<le> k" "\<not> cmp (xs ! f) (xs ! p)"
      "\<forall>i. first + 1 \<le> i \<longrightarrow> i < f \<longrightarrow> cmp (xs ! i) (xs ! p)"
    proof -
      have "d = k - (first + 1)" "first + 1 \<le> k" using Suc.hyps(2) first by simp_all
      from Suc.hyps(1) [OF this Suc.prems(2,3)] that show ?thesis by blast
    qed
    have "cmp (xs ! i) (xs ! p)" if "first \<le> i" "i < f" for i
      using f(5) that True by (cases "i = first") auto
    with f run show ?thesis by auto
  next
    case False
    then show ?thesis using first by (subst scan_up.simps) (simp add: iter_ops)
  qed
qed

lemma scan_down_ok:
  assumes "k < stop" "\<not> cmp (xs ! p) (xs ! k)"
  shows "\<exists>s. scan_down cmp stop p xs = Some s \<and> k \<le> s \<and> s < stop \<and> \<not> cmp (xs ! p) (xs ! s) \<and>
    (\<forall>i. s < i \<longrightarrow> i < stop \<longrightarrow> cmp (xs ! p) (xs ! i))"
  using assms
proof (induction stop)
  case (Suc n)
  have run: "scan_down cmp (Suc n) p xs = (if cmp (xs ! p) (xs ! n) then scan_down cmp n p xs else Some n)"
    by (subst scan_down.simps) (simp add: iter_ops)
  show ?case
  proof (cases "cmp (xs ! p) (xs ! n)")
    case True
    then have "k \<noteq> n" using Suc.prems(2) by auto
    then obtain s where "scan_down cmp n p xs = Some s" "k \<le> s" "s < n" "\<not> cmp (xs ! p) (xs ! s)"
      "\<forall>i. s < i \<longrightarrow> i < n \<longrightarrow> cmp (xs ! p) (xs ! i)"
      using Suc by auto
    with True run show ?thesis by (auto simp: less_Suc_eq)
  qed (use run Suc.prems in auto)
qed simp

context weak_order
begin

text \<open>
  Around the pivot at \<open>p\<close>: what is passed is in its place, and elements at \<open>u\<close> and \<open>d\<close> stop the scans.
\<close>

lemma partition_ok:
  assumes "p < lo" "lo \<le> first" "stop \<le> hi" "hi \<le> length xs"
    "\<And>i. lo \<le> i \<Longrightarrow> i < first \<Longrightarrow> le (xs ! i) (xs ! p)" "\<And>i. stop \<le> i \<Longrightarrow> i < hi \<Longrightarrow> le (xs ! p) (xs ! i)"
    "first \<le> u" "u < hi" "le (xs ! p) (xs ! u)" "lo \<le> d" "d < stop" "le (xs ! d) (xs ! p)"
  shows "\<exists>cut ys. unguarded_partition cmp first stop p xs = Some (cut, ys) \<and> permutes_range lo hi xs ys \<and>
    lo \<le> cut \<and> cut < hi \<and> (\<forall>i. lo \<le> i \<longrightarrow> i < cut \<longrightarrow> le (ys ! i) (xs ! p)) \<and>
    (\<forall>i. cut \<le> i \<longrightarrow> i < hi \<longrightarrow> le (xs ! p) (ys ! i))"
  using assms
proof (induction stop arbitrary: first xs u d rule: less_induct)
  case (less stop)
  note prems = less.prems
  have "u < length xs" "\<not> cmp (xs ! u) (xs ! p)" using prems(4,8,9) by (auto simp: le_def)
  from scan_up_ok [of first u xs cmp p, OF prems(7) this]
  obtain f where f: "scan_up cmp first p xs = Some f" "first \<le> f" "f \<le> u" "\<not> cmp (xs ! f) (xs ! p)"
    "\<forall>i. first \<le> i \<longrightarrow> i < f \<longrightarrow> cmp (xs ! i) (xs ! p)" by blast
  have "\<not> cmp (xs ! p) (xs ! d)" using prems(12) by (simp add: le_def)
  from scan_down_ok [of d stop cmp xs p, OF prems(11) this]
  obtain s where s: "scan_down cmp stop p xs = Some s" "d \<le> s" "s < stop" "\<not> cmp (xs ! p) (xs ! s)"
    "\<forall>i. s < i \<longrightarrow> i < stop \<longrightarrow> cmp (xs ! p) (xs ! i)" by blast
  have low: "le (xs ! i) (xs ! p)" if "lo \<le> i" "i < f" for i
    using prems(5) f(5) comp_le that by (cases "i < first") auto
  have high: "le (xs ! p) (xs ! i)" if "s < i" "i < hi" for i
    using prems(6) s(5) comp_le that by (cases "i < stop") auto
  show ?case
  proof (cases "f < s")
    case False
    have "unguarded_partition cmp first stop p xs = Some (f, xs)"
      using False f(1) s(1) by (subst unguarded_partition.simps) simp
    moreover have "le (xs ! p) (xs ! i)" if "f \<le> i" "i < hi" for i
      using high [of i] f(4) False that by (cases "i = f") (auto simp: le_def)
    ultimately show ?thesis using low f(2,3) prems(2,8) by auto
  next
    case True
    let ?ys = "swap_at f s xs"
    have nth: "?ys ! k = (if k = f then xs ! s else if k = s then xs ! f else xs ! k)" for k
      using True s(3) prems(3,4) by (intro nth_swap_at) auto
    have pos: "p \<noteq> f" "p \<noteq> s" using prems(1,2) f(2) True by auto
    then have p: "?ys ! p = xs ! p" by (simp add: nth)
    have run: "unguarded_partition cmp first stop p xs = unguarded_partition cmp (f + 1) s p ?ys"
      using True f(1) s(1) by (subst unguarded_partition.simps) simp
    have "\<exists>cut ys. unguarded_partition cmp (f + 1) s p ?ys = Some (cut, ys) \<and> permutes_range lo hi ?ys ys \<and>
      lo \<le> cut \<and> cut < hi \<and> (\<forall>i. lo \<le> i \<longrightarrow> i < cut \<longrightarrow> le (ys ! i) (?ys ! p)) \<and>
      (\<forall>i. cut \<le> i \<longrightarrow> i < hi \<longrightarrow> le (?ys ! p) (ys ! i))"
    proof (rule less.IH [where u = s and d = f])
      show "le (?ys ! i) (?ys ! p)" if "lo \<le> i" "i < f + 1" for i
        using low [of i] that s(4) True pos unfolding nth p by (auto simp: le_def)
      show "le (?ys ! p) (?ys ! i)" if "s \<le> i" "i < hi" for i
        using high [of i] that f(4) True pos unfolding nth p by (auto simp: le_def)
      show "le (?ys ! p) (?ys ! s)" "le (?ys ! f) (?ys ! p)"
        using f(4) s(4) True pos unfolding nth p by (auto simp: le_def)
    qed (use prems(1-4) f(2) s(3) True in auto)
    moreover have "permutes_range lo hi xs ?ys"
      using prems(2,3,4) f(2) s(3) True by (intro permutes_swap_at) auto
    ultimately show ?thesis unfolding run p by (blast intro: permutes_range_trans)
  qed
qed

lemma median_ok:
  assumes "distinct [a, b, c]"
  shows "\<exists>m u d. m \<in> {a, b, c} \<and> u \<in> {a, b, c} - {m} \<and> d \<in> {a, b, c} - {m} \<and>
    move_median_to_first cmp r a b c xs = swap_at r m xs \<and> le (xs ! m) (xs ! u) \<and> le (xs ! d) (xs ! m)"
proof -
  have pick: ?thesis if "move_median_to_first cmp r a b c xs = swap_at r m xs" "le (xs ! m) (xs ! u)"
    "le (xs ! d) (xs ! m)" "m \<in> {a, b, c}" "u \<in> {a, b, c} - {m}" "d \<in> {a, b, c} - {m}" for m u d
    by (intro exI conjI) (fact that)+
  note s = move_median_to_first_def iter_ops le_def
  consider (abc) "cmp (xs ! a) (xs ! b)" "cmp (xs ! b) (xs ! c)"
    | (acb) "cmp (xs ! a) (xs ! b)" "\<not> cmp (xs ! b) (xs ! c)" "cmp (xs ! a) (xs ! c)"
    | (cab) "cmp (xs ! a) (xs ! b)" "\<not> cmp (xs ! b) (xs ! c)" "\<not> cmp (xs ! a) (xs ! c)"
    | (bac) "\<not> cmp (xs ! a) (xs ! b)" "cmp (xs ! a) (xs ! c)"
    | (bca) "\<not> cmp (xs ! a) (xs ! b)" "\<not> cmp (xs ! a) (xs ! c)" "cmp (xs ! b) (xs ! c)"
    | (cba) "\<not> cmp (xs ! a) (xs ! b)" "\<not> cmp (xs ! a) (xs ! c)" "\<not> cmp (xs ! b) (xs ! c)" by blast
  then show ?thesis
  proof cases
    case abc then show ?thesis using assms by (intro pick [of b c a]) (auto simp: s dest: asym)
  next
    case acb then show ?thesis using assms by (intro pick [of c b a]) (auto simp: s dest: asym)
  next
    case cab then show ?thesis using assms by (intro pick [of a b c]) (auto simp: s dest: asym)
  next
    case bac then show ?thesis using assms by (intro pick [of a c b]) (auto simp: s dest: asym)
  next
    case bca then show ?thesis using assms by (intro pick [of c a b]) (auto simp: s dest: asym)
  next
    case cba then show ?thesis using assms by (intro pick [of b a c]) (auto simp: s dest: asym)
  qed
qed

lemma partition_pivot_ok:
  assumes "3 < stop - first" "stop \<le> length xs"
  shows "\<exists>cut ys v. unguarded_partition_pivot cmp first stop xs = Some (cut, ys) \<and> permutes_range first stop xs ys \<and>
    first < cut \<and> cut < stop \<and> (\<forall>i. first \<le> i \<longrightarrow> i < cut \<longrightarrow> le (ys ! i) v) \<and>
    (\<forall>i. cut \<le> i \<longrightarrow> i < stop \<longrightarrow> le v (ys ! i))"
proof -
  let ?mid = "first + (stop - first) div 2"
  have "distinct [first + 1, ?mid, stop - 1]" using assms(1) by auto
  from median_ok [OF this, of first xs]
  obtain m u d where m: "m \<in> {first + 1, ?mid, stop - 1}" "u \<in> {first + 1, ?mid, stop - 1} - {m}"
    "d \<in> {first + 1, ?mid, stop - 1} - {m}"
    "move_median_to_first cmp first (first + 1) ?mid (stop - 1) xs = swap_at first m xs"
    "le (xs ! m) (xs ! u)" "le (xs ! d) (xs ! m)" by (elim exE conjE) (rule that)
  let ?xs = "swap_at first m xs"
  have inside: "first < k \<and> k < stop" if "k \<in> {first + 1, ?mid, stop - 1}" for k using that assms(1) by auto
  note in_m = inside [OF m(1)]
  have nth: "?xs ! k = (if k = first then xs ! m else if k = m then xs ! first else xs ! k)" for k
    using in_m assms by (intro nth_swap_at) auto
  have u: "first < u" "u < stop" "u \<noteq> m" using inside [OF DiffD1 [OF m(2)]] m(2) by blast+
  have d: "first < d" "d < stop" "d \<noteq> m" using inside [OF DiffD1 [OF m(3)]] m(3) by blast+
  have "\<exists>cut ys. unguarded_partition cmp (first + 1) stop first ?xs = Some (cut, ys) \<and>
    permutes_range (first + 1) stop ?xs ys \<and> first + 1 \<le> cut \<and> cut < stop \<and>
    (\<forall>i. first + 1 \<le> i \<longrightarrow> i < cut \<longrightarrow> le (ys ! i) (?xs ! first)) \<and>
    (\<forall>i. cut \<le> i \<longrightarrow> i < stop \<longrightarrow> le (?xs ! first) (ys ! i))"
    by (rule partition_ok [where u = u and d = d]) (use u d m(5,6) assms in \<open>simp_all add: nth\<close>)
  then obtain cut ys where c: "unguarded_partition cmp (first + 1) stop first ?xs = Some (cut, ys)"
    "permutes_range (first + 1) stop ?xs ys" "first + 1 \<le> cut" "cut < stop"
    "\<forall>i. first + 1 \<le> i \<longrightarrow> i < cut \<longrightarrow> le (ys ! i) (?xs ! first)"
    "\<forall>i. cut \<le> i \<longrightarrow> i < stop \<longrightarrow> le (?xs ! first) (ys ! i)" by blast
  have "permutes_range first stop xs ?xs" using in_m assms by (intro permutes_swap_at) auto
  moreover have "permutes_range first stop ?xs ys" by (rule permutes_range_mono [OF c(2)]) simp_all
  ultimately have "permutes_range first stop xs ys" by (rule permutes_range_trans)
  moreover have "ys ! first = ?xs ! first" using permutes_outside [OF c(2), of first] assms by simp
  then have "le (ys ! i) (?xs ! first)" if "first \<le> i" "i < cut" for i
    using c(5) that by (cases "i = first") auto
  moreover have "unguarded_partition_pivot cmp first stop xs = Some (cut, ys)"
    using c(1) m(4) by (simp add: unguarded_partition_pivot_def Let_def)
  ultimately show ?thesis using c(3,4,6) by auto
qed


section \<open>Sorting up to blocks\<close>

text \<open>Elements that are at least a block apart are in order.\<close>

definition near :: "nat \<Rightarrow> nat \<Rightarrow> 'a list \<Rightarrow> bool" where
  "near first stop xs \<longleftrightarrow> (\<forall>i j. first \<le> i \<longrightarrow> i + S_threshold \<le> j \<longrightarrow> j < stop \<longrightarrow> le (xs ! i) (xs ! j))"

lemma in_order_near: "in_order first stop xs \<Longrightarrow> near first stop xs"
  by (simp add: near_def in_order_def S_threshold_def)

lemma heap_sort_range:
  assumes "first \<le> stop" "stop \<le> length xs"
  shows "permutes_range first stop xs (partial_sort_with cmp first stop stop xs)"
    "in_order first stop (partial_sort_with cmp first stop stop xs)"
proof -
  let ?ys = "make_heap_with cmp first stop xs"
  have run: "partial_sort_with cmp first stop stop xs = sort_heap_with cmp first stop ?ys"
    by (simp add: partial_sort_with_def heap_select_def heap_select_loop.simps Let_def)
  note make = make_heap_ok [OF assms]
  have len: "length ?ys = length xs" using make(1) by (rule permutes_length)
  note sorted = sort_heap_ok [OF make(2)]
  show p: "permutes_range first stop xs (partial_sort_with cmp first stop stop xs)"
    unfolding run using make(1) sorted assms len by (auto intro: permutes_range_trans)
  show "in_order first stop (partial_sort_with cmp first stop stop xs)"
    using sorted assms len permutes_length [OF p] by (simp add: run ordered_in_order)
qed

lemma introsort_loop_ok:
  assumes "first \<le> stop" "stop \<le> length xs"
  shows "\<exists>ys. introsort_loop cmp first stop depth xs = Some ys \<and> permutes_range first stop xs ys \<and> near first stop ys"
  using assms
proof (induction depth arbitrary: first stop xs)
  case 0
  then show ?case
    using heap_sort_range [OF 0] in_order_near
    by (subst introsort_loop.simps) (auto simp: near_def S_threshold_def)
next
  case (Suc depth)
  show ?case
  proof (cases "stop - first > S_threshold")
    case False
    then have "introsort_loop cmp first stop (Suc depth) xs = Some xs" by (subst introsort_loop.simps) simp
    with False show ?thesis by (auto simp: near_def)
  next
    case True
    then have three: "3 < stop - first" by (simp add: S_threshold_def)
    obtain cut ys v where c: "unguarded_partition_pivot cmp first stop xs = Some (cut, ys)"
      "permutes_range first stop xs ys" "first < cut" "cut < stop"
      "\<forall>i. first \<le> i \<longrightarrow> i < cut \<longrightarrow> le (ys ! i) v" "\<forall>i. cut \<le> i \<longrightarrow> i < stop \<longrightarrow> le v (ys ! i)"
      using partition_pivot_ok [OF three Suc.prems(2)] by blast
    have ylen: "length ys = length xs" using c(2) by (rule permutes_length)
    obtain zs where z: "introsort_loop cmp cut stop depth ys = Some zs" "permutes_range cut stop ys zs" "near cut stop zs"
      using Suc.IH [of cut stop ys] c(4) Suc.prems(2) ylen by auto
    have zlen: "length zs = length xs" using permutes_length [OF z(2)] ylen by simp
    obtain ws where w: "introsort_loop cmp first cut depth zs = Some ws" "permutes_range first cut zs ws" "near first cut ws"
      using Suc.IH [of first cut zs] c(3,4) Suc.prems(2) zlen by auto
    have wlen: "length ws = length xs" using permutes_length [OF w(2)] zlen by simp
    have "introsort_loop cmp first stop (Suc depth) xs = Some ws"
      using True c(1) z(1) w(1) by (subst introsort_loop.simps) simp
    moreover have "permutes_range first stop xs ws"
      using c(2) permutes_range_mono [OF z(2), of first stop] permutes_range_mono [OF w(2), of first stop] c(3,4)
      by (auto intro: permutes_range_trans)
    moreover have "near first stop ws"
    proof -
      have low: "le (ws ! i) v" if "first \<le> i" "i < cut" for i
      proof (rule permutes_range_all [OF w(2)])
        show "le (zs ! j) v" if "first \<le> j" "j < cut" for j
          using permutes_outside [OF z(2), of j] c(4,5) that Suc.prems(2) ylen by simp
      qed (use that c(4) Suc.prems(2) zlen in auto)
      have high: "le v (ws ! i)" if "cut \<le> i" "i < stop" for i
      proof -
        have "le v (zs ! i)"
          by (rule permutes_range_all [OF z(2)]) (use that c(6) Suc.prems(2) ylen in auto)
        then show ?thesis using permutes_outside [OF w(2), of i] that Suc.prems(2) zlen by simp
      qed
      have same: "ws ! i = zs ! i" if "cut \<le> i" "i < stop" for i
        using permutes_outside [OF w(2), of i] that Suc.prems(2) zlen by simp
      show ?thesis
        unfolding near_def
      proof (intro allI impI)
        fix i j assume ij: "first \<le> i" "i + S_threshold \<le> j" "j < stop"
        then consider "j < cut" | "i < cut" "cut \<le> j" | "cut \<le> i" by linarith
        then show "le (ws ! i) (ws ! j)"
        proof cases
          case 1
          then show ?thesis using w(3) ij by (simp add: near_def)
        next
          case 2
          then show ?thesis using low [of i] high [of j] ij le_trans by blast
        next
          case 3
          then show ?thesis using z(3) ij same [of i] same [of j] by (simp add: near_def)
        qed
      qed
    qed
    ultimately show ?thesis by blast
  qed
qed

section \<open>Finishing the blocks\<close>

lemma sorted_first:
  assumes "permutes_range first stop xs ys" "in_order first stop ys" "first < stop" "stop \<le> length xs"
  shows "le (ys ! first) (xs ! first)"
  by (rule permutes_range_all [OF permutes_range_sym [OF assms(1)], where i = first])
    (use assms permutes_length [OF assms(1)] in_orderD [OF assms(2), of first] in simp_all)

lemma unguarded_insertion_sort_ok:
  assumes "in_order first i xs" "first < i" "i \<le> stop" "stop \<le> length xs"
    "\<And>j. i \<le> j \<Longrightarrow> j < stop \<Longrightarrow> le (xs ! first) (xs ! j)"
  shows "\<exists>ys. unguarded_insertion_sort cmp i stop xs = Some ys \<and> permutes_range first stop xs ys \<and> in_order first stop ys"
  using assms
proof (induction "stop - i" arbitrary: i xs)
  case 0
  then have "i = stop" by simp
  with 0 show ?case by (auto simp: unguarded_insertion_sort.simps)
next
  case (Suc d)
  have i: "i < stop" "d = stop - (i + 1)" "i < length xs" using Suc.hyps(2) Suc.prems(4) by simp_all
  have "\<not> cmp (xs ! i) (xs ! first)" using Suc.prems(5) [of i] i by (simp add: le_def)
  from unguarded_linear_insert_ok [OF Suc.prems(1,2) i(3) this]
  obtain ys where ys: "unguarded_linear_insert cmp i xs = Some ys" "permutes_range first (i + 1) xs ys"
    "in_order first (i + 1) ys" by blast
  have len: "length ys = length xs" using ys(2) by (rule permutes_length)
  have "le (ys ! first) (ys ! j)" if "i + 1 \<le> j" "j < stop" for j
  proof -
    have "ys ! j = xs ! j" using permutes_outside [OF ys(2), of j] that Suc.prems(4) by simp
    moreover have "le (ys ! first) (xs ! first)"
      using sorted_first [OF ys(2,3)] Suc.prems(2) i(3) by simp
    ultimately show ?thesis using Suc.prems(5) [of j] that le_trans by simp
  qed
  then obtain zs where zs: "unguarded_insertion_sort cmp (i + 1) stop ys = Some zs" "permutes_range first stop ys zs"
    "in_order first stop zs"
    using Suc.hyps(1) [OF i(2) ys(3)] Suc.prems(2,4) i(1) len by auto
  have "permutes_range first stop xs ys" using i(1) by (intro permutes_range_mono [OF ys(2)]) auto
  moreover have "unguarded_insertion_sort cmp i stop xs = Some zs"
    using i(1) ys(1) zs(1) by (subst unguarded_insertion_sort.simps) simp
  ultimately show ?case using zs by (blast intro: permutes_range_trans)
qed

lemma final_insertion_sort_ok:
  assumes "near first stop xs" "first \<le> stop" "stop \<le> length xs"
  shows "\<exists>ys. final_insertion_sort cmp first stop xs = Some ys \<and> permutes_range first stop xs ys \<and> in_order first stop ys"
proof (cases "stop - first > S_threshold")
  case False
  then show ?thesis using insertion_sort_ok [OF assms(2,3)] by (auto simp: final_insertion_sort_def)
next
  case True
  let ?m = "first + S_threshold"
  have m: "first < ?m" "?m \<le> stop" using True by (auto simp: S_threshold_def)
  obtain ys where ys: "insertion_sort cmp first ?m xs = Some ys" "permutes_range first ?m xs ys" "in_order first ?m ys"
    using insertion_sort_ok [of first ?m xs] m assms(3) by auto
  have len: "length ys = length xs" using ys(2) by (rule permutes_length)
  have "le (ys ! first) (ys ! j)" if "?m \<le> j" "j < stop" for j
  proof -
    have "ys ! j = xs ! j" using permutes_outside [OF ys(2), of j] that assms(3) by simp
    moreover have "le (ys ! first) (xs ! first)" using sorted_first [OF ys(2,3)] m assms(3) by simp
    moreover have "le (xs ! first) (xs ! j)" using assms(1) that by (simp add: near_def)
    ultimately show ?thesis using le_trans by simp
  qed
  then obtain zs where "unguarded_insertion_sort cmp ?m stop ys = Some zs" "permutes_range first stop ys zs"
    "in_order first stop zs"
    using unguarded_insertion_sort_ok [OF ys(3) m(1,2)] assms(3) len by auto
  moreover have "permutes_range first stop xs ys" using m by (intro permutes_range_mono [OF ys(2)]) auto
  ultimately show ?thesis
    using True ys(1) by (auto simp: final_insertion_sort_def intro: permutes_range_trans)
qed

lemma sort_with_ok:
  assumes "first \<le> stop" "stop \<le> length xs"
  shows "\<exists>ys. sort_with cmp first stop xs = Some ys \<and> permutes_range first stop xs ys \<and> in_order first stop ys"
proof (cases "first = stop")
  case False
  obtain ys where ys: "introsort_loop cmp first stop (lg (stop - first) * 2) xs = Some ys"
    "permutes_range first stop xs ys" "near first stop ys"
    using introsort_loop_ok [OF assms] by blast
  then obtain zs where "final_insertion_sort cmp first stop ys = Some zs" "permutes_range first stop ys zs" "in_order first stop zs"
    using final_insertion_sort_ok [OF ys(3) assms(1)] assms(2) permutes_length [OF ys(2)] by auto
  with False ys show ?thesis by (auto simp: sort_with_def intro: permutes_range_trans)
qed (simp add: sort_with_def in_order_def)

end

section \<open>Properties\<close>

text \<open>
  C13: \<open>sort\<close> with any strict weak ordering returns, without one of its unguarded loops reading outside the
  objects there are, and leaves the range a permutation of itself in the order of the comparison; what lies
  outside the range stays. On a linear order this is the library's \<open>sort\<close>.
\<close>

theorem sort_range_sorts:
  assumes "weak_order cmp" "first \<le> stop" "stop \<le> length xs" "stop \<le> length (zs :: 'b::linorder list)"
  shows "(\<exists>ys. sort_range_comp cmp first stop xs = Some ys \<and> permutes_range first stop xs ys \<and>
      ordered cmp (range_of first stop ys)) \<and>
    sort_range first stop zs = Some (take first zs @ sort (range_of first stop zs) @ drop stop zs)"
proof
  obtain ys where ys: "sort_range_comp cmp first stop xs = Some ys" "permutes_range first stop xs ys"
    "weak_order.in_order cmp first stop ys"
    using weak_order.sort_with_ok [OF assms(1-3)] by (auto simp: sort_range_comp_def)
  then have "ordered cmp (range_of first stop ys)"
    using weak_order.ordered_in_order [OF assms(1)] assms(3) permutes_length by metis
  with ys show "\<exists>ys. sort_range_comp cmp first stop xs = Some ys \<and> permutes_range first stop xs ys \<and>
      ordered cmp (range_of first stop ys)" by blast
next
  obtain ys where ys: "sort_range first stop zs = Some ys" "permutes_range first stop zs ys" "less_order.in_order first stop ys"
    using less_order.sort_with_ok [OF assms(2,4)] by (auto simp: sort_range_def)
  then have "sorted (range_of first stop ys)"
    using less_order.ordered_in_order [of stop ys first] assms(4) permutes_length [OF ys(2)] by simp
  then have "sort (range_of first stop zs) = range_of first stop ys"
    using permutes_range_split(3) [OF ys(2) assms(2,4)] by (intro properties_for_sort) simp_all
  then show "sort_range first stop zs = Some (take first zs @ sort (range_of first stop zs) @ drop stop zs)"
    using ys(1) range_split [OF assms(2), of ys] permutes_range_split(1,2) [OF ys(2) assms(2,4)] by simp
qed

theorem sort_range_sorts_witness:
  "weak_order (\<lambda>x y :: nat. y < x) \<and>
   (\<exists>ys. sort_range_comp (\<lambda>x y. y < x) 1 5 [0, 3, 9, 4, 7 :: nat] = Some ys \<and> ordered (\<lambda>x y. y < x) (range_of 1 5 ys)) \<and>
   sort_range 2 5 [9, 8, 3, 2, 1, 0 :: nat] = Some [9, 8, 1, 2, 3, 0]"
proof -
  have w: "weak_order (\<lambda>x y :: nat. y < x)" by unfold_locales auto
  have s: "sort_range_comp (\<lambda>x y. y < x) 1 5 [0, 3, 9, 4, 7 :: nat] = Some [0, 9, 7, 4, 3]" by code_simp
  have o: "ordered (\<lambda>x y :: nat. y < x) (range_of 1 5 [0, 9, 7, 4, 3])" by code_simp
  have "sort_range 2 5 [9, 8, 3, 2, 1, 0 :: nat] = Some [9, 8, 1, 2, 3, 0]"
    using sort_range_sorts [OF less_order.weak_order_axioms, of 2 5 "[9, 8, 3, 2, 1, 0 :: nat]" "[9, 8, 3, 2, 1, 0 :: nat]"]
    by (simp add: range_of_def)
  with w s o show ?thesis by simp
qed

end
