(* ===== verification/Stl_Select.thy ===== *)
theory Stl_Select
  imports Stl_Introsort
begin

text \<open>
  That \<open>partial_sort\<close> and \<open>nth_element\<close> select: the smallest elements, in order, and the element that a sort
  would put at a position.
\<close>

section \<open>Selecting with a heap\<close>

lemma pop_heap_to_empty: "pop_heap_to cmp first first r xs = swap_at r first xs"
  by (simp add: pop_heap_to_def adjust_heap_def descend.simps push_heap_hole.simps swap_at_def Let_def)

lemma heap_select_loop_empty:
  assumes "first \<le> i" "i \<le> stop" "stop \<le> length xs"
  shows "permutes_range first stop xs (heap_select_loop cmp first first i stop xs)"
  using assms
proof (induction "stop - i" arbitrary: i xs)
  case 0
  then show ?case by (simp add: heap_select_loop.simps)
next
  case (Suc d)
  let ?xs = "if iter_comp_iter cmp xs i first then pop_heap_to cmp first first i xs else xs"
  have i: "i < stop" "d = stop - (i + 1)" using Suc.hyps(2) by simp_all
  have "permutes_range first stop xs ?xs"
    using Suc.prems i(1) by (auto simp: pop_heap_to_empty intro: permutes_swap_at)
  moreover have "permutes_range first stop ?xs (heap_select_loop cmp first first (i + 1) stop ?xs)"
    using Suc.hyps(1) [OF i(2), of ?xs] Suc.prems i(1) permutes_length [OF calculation] by simp
  ultimately show ?case using i(1) by (subst heap_select_loop.simps) (auto intro: permutes_range_trans)
qed

context weak_order
begin

lemma heap_select_loop_ok:
  assumes "heap_from cmp 0 first n xs" "0 < n" "first + n \<le> i" "i \<le> stop" "stop \<le> length xs"
    "\<And>j. first + n \<le> j \<Longrightarrow> j < i \<Longrightarrow> le (xs ! first) (xs ! j)"
  defines "ys \<equiv> heap_select_loop cmp first (first + n) i stop xs"
  shows "permutes_range first stop xs ys \<and> heap_from cmp 0 first n ys \<and>
    (\<forall>j. first + n \<le> j \<longrightarrow> j < stop \<longrightarrow> le (ys ! first) (ys ! j))"
  using assms(1-6) unfolding ys_def
proof (induction "stop - i" arbitrary: i xs)
  case 0
  then show ?case by (simp add: heap_select_loop.simps)
next
  case (Suc d)
  have i: "i < stop" "d = stop - (i + 1)" "i < length xs" using Suc.hyps(2) Suc.prems(5) by simp_all
  define zs where "zs = (if cmp (xs ! i) (xs ! first) then pop_heap_to cmp first (first + n) i xs else xs)"
  have run: "heap_select_loop cmp first (first + n) i stop xs = heap_select_loop cmp first (first + n) (i + 1) stop zs"
    using i(1) by (subst heap_select_loop.simps) (simp add: zs_def iter_ops)
  have "permutes_range first stop xs zs \<and> heap_from cmp 0 first n zs \<and>
    (\<forall>j. first + n \<le> j \<longrightarrow> j < i + 1 \<longrightarrow> le (zs ! first) (zs ! j))"
  proof (cases "cmp (xs ! i) (xs ! first)")
    case False
    then show ?thesis using Suc.prems(1,6) by (auto simp: zs_def less_Suc_eq le_def)
  next
    case True
    let ?swap = "swap_at i first xs"
    note pop = pop_heap_to_swap [OF Suc.prems(1,2,3) i(3)]
    have zs: "permutes_range first (first + n) ?swap zs" "heap_from cmp 0 first n zs"
      using pop True by (simp_all add: zs_def)
    have nth: "?swap ! k = (if k = i then xs ! first else if k = first then xs ! i else xs ! k)" for k
      using Suc.prems(3) i(3) by (intro nth_swap_at) auto
    have "permutes_range first stop xs ?swap"
      using Suc.prems(2,3,5) i(1) by (intro permutes_swap_at) auto
    moreover have "permutes_range first stop ?swap zs"
      using Suc.prems(3) i(1) by (intro permutes_range_mono [OF zs(1)]) auto
    ultimately have "permutes_range first stop xs zs" by (rule permutes_range_trans)
    moreover have "le (zs ! first) (xs ! first)"
    proof (rule permutes_range_all [OF zs(1), where i = first])
      show "le (?swap ! k) (xs ! first)" if "first \<le> k" "k < first + n" for k
        using heap_root [OF Suc.prems(1), of "k - first"] that comp_le [OF True] Suc.prems(3) by (auto simp: nth)
    qed (use Suc.prems(2,3) i(3) in auto)
    moreover have "le (zs ! first) (zs ! j)" if "first + n \<le> j" "j < i + 1" "le (zs ! first) (xs ! first)" for j
    proof -
      have "zs ! j = ?swap ! j" using permutes_outside [OF zs(1), of j] that i(3) by simp
      also have "\<dots> = (if j = i then xs ! first else xs ! j)" using that Suc.prems(2) by (simp add: nth)
      finally show ?thesis using Suc.prems(6) [of j] that le_trans by (cases "j = i") auto
    qed
    ultimately show ?thesis using zs(2) by blast
  qed
  then have zs: "permutes_range first stop xs zs" "heap_from cmp 0 first n zs"
    "\<And>j. first + n \<le> j \<Longrightarrow> j < i + 1 \<Longrightarrow> le (zs ! first) (zs ! j)" by blast+
  have "first + n \<le> i + 1" "i + 1 \<le> stop" "stop \<le> length zs"
    using Suc.prems(3,5) i(1) permutes_length [OF zs(1)] by simp_all
  from Suc.hyps(1) [OF i(2) zs(2) Suc.prems(2) this zs(3)] show ?case
    using zs(1) unfolding run by (blast intro: permutes_range_trans)
qed

lemma heap_select_ok:
  assumes "first < middle" "middle \<le> stop" "stop \<le> length xs"
  defines "ys \<equiv> heap_select cmp first middle stop xs"
  shows "permutes_range first stop xs ys" "heap_range cmp first middle ys"
    "\<And>i j. first \<le> i \<Longrightarrow> i < middle \<Longrightarrow> le (ys ! i) (ys ! first)"
    "\<And>j. middle \<le> j \<Longrightarrow> j < stop \<Longrightarrow> le (ys ! first) (ys ! j)"
proof -
  let ?n = "middle - first"
  let ?zs = "make_heap_with cmp first middle xs"
  have make: "permutes_range first middle xs ?zs" "heap_range cmp first middle ?zs"
    using make_heap_ok [of first middle xs] assms(1-3) by auto
  have n: "0 < ?n" "first + ?n = middle" using assms(1) by simp_all
  have run: "ys = heap_select_loop cmp first (first + ?n) middle stop ?zs"
    using n(2) by (simp add: ys_def heap_select_def Let_def)
  have "permutes_range first stop ?zs ys \<and> heap_range cmp first middle ys \<and>
    (\<forall>j. first + ?n \<le> j \<longrightarrow> j < stop \<longrightarrow> le (ys ! first) (ys ! j))"
    unfolding run
    by (rule heap_select_loop_ok [OF make(2) n(1)]) (use n assms(2,3) permutes_length [OF make(1)] in auto)
  moreover have "permutes_range first stop xs ?zs"
    using assms(2) by (intro permutes_range_mono [OF make(1)]) auto
  ultimately show "permutes_range first stop xs ys" and heap: "heap_range cmp first middle ys"
    and "\<And>j. middle \<le> j \<Longrightarrow> j < stop \<Longrightarrow> le (ys ! first) (ys ! j)"
    using n(2) by (auto intro: permutes_range_trans)
  show "le (ys ! i) (ys ! first)" if "first \<le> i" "i < middle" for i
    using heap_root [OF heap, of "i - first"] that by simp
qed

lemma partial_sort_ok:
  assumes "first \<le> middle" "middle \<le> stop" "stop \<le> length xs"
  defines "ys \<equiv> partial_sort_with cmp first middle stop xs"
  shows "permutes_range first stop xs ys \<and> in_order first middle ys \<and>
    (\<forall>i j. first \<le> i \<longrightarrow> i < middle \<longrightarrow> middle \<le> j \<longrightarrow> j < stop \<longrightarrow> le (ys ! i) (ys ! j))"
proof (cases "first = middle")
  case True
  then have "ys = heap_select_loop cmp first first first stop xs"
    by (simp add: ys_def partial_sort_with_def heap_select_def make_heap_with_def sort_heap_with.simps Let_def)
  with True show ?thesis using heap_select_loop_empty [of first first stop xs cmp] assms(2,3) by (simp add: in_order_def)
next
  case False
  then have fm: "first < middle" using assms(1) by simp
  let ?zs = "heap_select cmp first middle stop xs"
  note sel = heap_select_ok [OF fm assms(2,3)]
  have zlen: "length ?zs = length xs" using sel(1) by (rule permutes_length)
  have run: "ys = sort_heap_with cmp first middle ?zs" by (simp add: ys_def partial_sort_with_def)
  have s: "permutes_range first middle ?zs ys" "ordered cmp (range_of first middle ys)"
    using sort_heap_ok [OF sel(2)] fm assms(2,3) zlen by (simp_all add: run)
  have ylen: "length ys = length xs" using permutes_length [OF s(1)] zlen by simp
  have "in_order first middle ys"
    using s(2) ordered_in_order assms(2,3) ylen by simp
  moreover have "permutes_range first stop xs ys"
    using sel(1) permutes_range_mono [OF s(1), of first stop] assms(2) by (auto intro: permutes_range_trans)
  moreover have "le (ys ! i) (ys ! j)" if "first \<le> i" "i < middle" "middle \<le> j" "j < stop" for i j
  proof -
    have "le (ys ! i) (?zs ! first)"
      by (rule permutes_range_all [OF s(1)]) (use that sel(3) assms(2,3) zlen in auto)
    moreover have "ys ! j = ?zs ! j" using permutes_outside [OF s(1), of j] that assms(3) zlen by simp
    ultimately show ?thesis using sel(4) [of j] that le_trans by simp
  qed
  ultimately show ?thesis by blast
qed

section \<open>Introselect\<close>

definition selected :: "nat \<Rightarrow> nat \<Rightarrow> nat \<Rightarrow> 'a list \<Rightarrow> bool" where
  "selected n first stop xs \<longleftrightarrow>
     (\<forall>i. first \<le> i \<longrightarrow> i \<le> n \<longrightarrow> le (xs ! i) (xs ! n)) \<and> (\<forall>i. n \<le> i \<longrightarrow> i < stop \<longrightarrow> le (xs ! n) (xs ! i))"

lemma introselect_ok:
  assumes "first \<le> n" "n < stop" "stop \<le> length xs"
  shows "\<exists>ys. introselect cmp first n stop depth xs = Some ys \<and> permutes_range first stop xs ys \<and> selected n first stop ys"
  using assms
proof (induction depth arbitrary: first stop xs)
  case 0
  show ?case
  proof (cases "stop - first > 3")
    case False
    then show ?thesis
      using insertion_sort_ok [of first stop xs] 0 in_orderD
      by (subst introselect.simps) (fastforce simp: selected_def)
  next
    case True
    let ?zs = "heap_select cmp first (n + 1) stop xs"
    have m: "first < n + 1" "n + 1 \<le> stop" using 0 by simp_all
    note sel = heap_select_ok [OF m 0(3)]
    have zlen: "length ?zs = length xs" using sel(1) by (rule permutes_length)
    have nth: "swap_at first n ?zs ! k = (if k = first then ?zs ! n else if k = n then ?zs ! first else ?zs ! k)" for k
      using 0 zlen by (intro nth_swap_at) auto
    have "permutes_range first stop ?zs (swap_at first n ?zs)"
      using 0 zlen by (intro permutes_swap_at) auto
    moreover have "selected n first stop (swap_at first n ?zs)"
      unfolding selected_def nth using sel(3,4) 0 by auto
    moreover have "introselect cmp first n stop 0 xs = Some (swap_at first n ?zs)"
      using True by (subst introselect.simps) (simp add: Let_def)
    ultimately show ?thesis using sel(1) by (blast intro: permutes_range_trans)
  qed
next
  case (Suc depth)
  show ?case
  proof (cases "stop - first > 3")
    case False
    then show ?thesis
      using insertion_sort_ok [of first stop xs] Suc.prems in_orderD
      by (subst introselect.simps) (fastforce simp: selected_def)
  next
    case True
    obtain cut ys v where c: "unguarded_partition_pivot cmp first stop xs = Some (cut, ys)"
      "permutes_range first stop xs ys" "first < cut" "cut < stop"
      "\<forall>i. first \<le> i \<longrightarrow> i < cut \<longrightarrow> le (ys ! i) v" "\<forall>i. cut \<le> i \<longrightarrow> i < stop \<longrightarrow> le v (ys ! i)"
      using partition_pivot_ok [OF True Suc.prems(3)] by blast
    have ylen: "length ys = length xs" using c(2) by (rule permutes_length)
    show ?thesis
    proof (cases "cut \<le> n")
      case right: True
      obtain zs where z: "introselect cmp cut n stop depth ys = Some zs" "permutes_range cut stop ys zs" "selected n cut stop zs"
        using Suc.IH [of cut stop ys] right Suc.prems(2,3) ylen by auto
      have v: "le v (zs ! n)"
        by (rule permutes_range_all [OF z(2)]) (use right Suc.prems(2,3) ylen c(6) in auto)
      have "le (zs ! i) (zs ! n)" if "first \<le> i" "i < cut" for i
        using permutes_outside [OF z(2), of i] that c(4,5) Suc.prems(3) ylen le_trans [OF _ v] by simp
      then have "selected n first stop zs" using z(3) unfolding selected_def by (meson not_less)
      moreover have "permutes_range first stop xs zs"
        using c(2,3) permutes_range_mono [OF z(2), of first stop] by (auto intro: permutes_range_trans)
      moreover have "introselect cmp first n stop (Suc depth) xs = Some zs"
        using True right c(1) z(1) by (subst introselect.simps) simp
      ultimately show ?thesis by blast
    next
      case left: False
      obtain zs where z: "introselect cmp first n cut depth ys = Some zs" "permutes_range first cut ys zs" "selected n first cut zs"
        using Suc.IH [of first cut ys] left Suc.prems c(4) ylen by auto
      have v: "le (zs ! n) v"
        by (rule permutes_range_all [OF z(2)]) (use left Suc.prems c(4,5) ylen in auto)
      have "le (zs ! n) (zs ! i)" if "cut \<le> i" "i < stop" for i
        using permutes_outside [OF z(2), of i] that c(6) Suc.prems(3) ylen le_trans [OF v] by simp
      then have "selected n first stop zs" using z(3) unfolding selected_def by (meson not_less)
      moreover have "permutes_range first stop xs zs"
        using c(2,4) permutes_range_mono [OF z(2), of first stop] by (auto intro: permutes_range_trans)
      moreover have "introselect cmp first n stop (Suc depth) xs = Some zs"
        using True left c(1) z(1) by (subst introselect.simps) simp
      ultimately show ?thesis by blast
    qed
  qed
qed

end

section \<open>Properties\<close>

text \<open>
  C33: for every strict weak ordering, \<open>partial_sort\<close> leaves the smallest elements of the range sorted at its
  front, and \<open>nth_element\<close> returns, without reading outside the objects there are, with an element at the
  position asked for that none before it exceeds and none behind it is less than. Both only permute the range.
\<close>

theorem selection_algorithms:
  assumes "weak_order cmp" "first \<le> middle" "middle \<le> stop" "stop \<le> length xs"
  shows "permutes_range first stop xs (partial_sort_comp cmp first middle stop xs) \<and>
    ordered cmp (range_of first middle (partial_sort_comp cmp first middle stop xs)) \<and>
    (\<forall>i j. first \<le> i \<and> i < middle \<and> middle \<le> j \<and> j < stop \<longrightarrow>
      \<not> cmp (partial_sort_comp cmp first middle stop xs ! j) (partial_sort_comp cmp first middle stop xs ! i)) \<and>
    (\<exists>ys. nth_element_comp cmp first middle stop xs = Some ys \<and> permutes_range first stop xs ys \<and>
      (middle < stop \<longrightarrow> (\<forall>i. first \<le> i \<and> i < stop \<longrightarrow>
        (i \<le> middle \<longrightarrow> \<not> cmp (ys ! middle) (ys ! i)) \<and> (middle \<le> i \<longrightarrow> \<not> cmp (ys ! i) (ys ! middle)))))"
proof (intro conjI)
  let ?ys = "partial_sort_comp cmp first middle stop xs"
  note ok = weak_order.partial_sort_ok [OF assms, folded partial_sort_comp_def]
  show p: "permutes_range first stop xs ?ys" using ok by blast
  show "ordered cmp (range_of first middle ?ys)"
    using ok weak_order.ordered_in_order [OF assms(1)] assms(3,4) permutes_length [OF p] by simp
  show "\<forall>i j. first \<le> i \<and> i < middle \<and> middle \<le> j \<and> j < stop \<longrightarrow> \<not> cmp (?ys ! j) (?ys ! i)"
    using ok by (simp add: weak_order.le_def [OF assms(1)])
  show "\<exists>ys. nth_element_comp cmp first middle stop xs = Some ys \<and> permutes_range first stop xs ys \<and>
      (middle < stop \<longrightarrow> (\<forall>i. first \<le> i \<and> i < stop \<longrightarrow>
        (i \<le> middle \<longrightarrow> \<not> cmp (ys ! middle) (ys ! i)) \<and> (middle \<le> i \<longrightarrow> \<not> cmp (ys ! i) (ys ! middle))))"
  proof (cases "middle < stop")
    case True
    then show ?thesis
      using weak_order.introselect_ok [OF assms(1,2) True assms(4), of "lg (stop - first) * 2"] assms(2)
      by (auto simp: nth_element_comp_def weak_order.selected_def [OF assms(1)] weak_order.le_def [OF assms(1)])
  next
    case False
    then show ?thesis using assms(3) by (simp add: nth_element_comp_def)
  qed
qed

theorem selection_algorithms_witness:
  "weak_order (\<lambda>x y :: nat. x mod 10 < y mod 10) \<and>
   permutes_range 1 6 [7, 14, 33, 28, 41, 52 :: nat] (partial_sort_comp (\<lambda>x y. x mod 10 < y mod 10) 1 3 6 [7, 14, 33, 28, 41, 52]) \<and>
   partial_sort_comp (\<lambda>x y. x mod 10 < y mod 10) 1 3 6 [7, 14, 33, 28, 41, 52 :: nat] ! 1 = 41"
proof -
  have w: "weak_order (\<lambda>x y :: nat. x mod 10 < y mod 10)" by unfold_locales auto
  have "partial_sort_comp (\<lambda>x y. x mod 10 < y mod 10) 1 3 6 [7, 14, 33, 28, 41, 52 :: nat] ! 1 = 41" by code_simp
  with w show ?thesis using selection_algorithms [OF w, of 1 3 6 "[7, 14, 33, 28, 41, 52]"] by simp
qed

end
