(* ===== verification/Stl_Merge.thy ===== *)
theory Stl_Merge
  imports Stl_Ops
begin

text \<open>
  Merging and the set operations on sorted ranges of \<open>kernel/include/bits/stl_algo.h\<close>. The input ranges are
  only walked through and the output must not overlap them, so a range is the list of its elements and
  what is written to the output iterator is the list that is returned.
\<close>

section \<open>Routines\<close>

fun merge_with :: "('a \<Rightarrow> 'a \<Rightarrow> bool) \<Rightarrow> 'a list \<Rightarrow> 'a list \<Rightarrow> 'a list" where
  "merge_with cmp (x # xs) (y # ys) =
     (if cmp y x then y # merge_with cmp (x # xs) ys else x # merge_with cmp xs (y # ys))"
| "merge_with cmp xs ys = xs @ ys"

definition merge :: "'a::linorder list \<Rightarrow> 'a list \<Rightarrow> 'a list" where
  "merge xs ys = merge_with (<) xs ys"

definition merge_comp :: "('a \<Rightarrow> 'a \<Rightarrow> bool) \<Rightarrow> 'a list \<Rightarrow> 'a list \<Rightarrow> 'a list" where
  "merge_comp cmp xs ys = merge_with cmp xs ys"

fun set_union_with :: "('a \<Rightarrow> 'a \<Rightarrow> bool) \<Rightarrow> 'a list \<Rightarrow> 'a list \<Rightarrow> 'a list" where
  "set_union_with cmp (x # xs) (y # ys) =
     (if cmp x y then x # set_union_with cmp xs (y # ys)
      else if cmp y x then y # set_union_with cmp (x # xs) ys
      else x # set_union_with cmp xs ys)"
| "set_union_with cmp xs ys = xs @ ys"

definition set_union :: "'a::linorder list \<Rightarrow> 'a list \<Rightarrow> 'a list" where
  "set_union xs ys = set_union_with (<) xs ys"

definition set_union_comp :: "('a \<Rightarrow> 'a \<Rightarrow> bool) \<Rightarrow> 'a list \<Rightarrow> 'a list \<Rightarrow> 'a list" where
  "set_union_comp cmp xs ys = set_union_with cmp xs ys"

fun set_intersection_with :: "('a \<Rightarrow> 'a \<Rightarrow> bool) \<Rightarrow> 'a list \<Rightarrow> 'a list \<Rightarrow> 'a list" where
  "set_intersection_with cmp (x # xs) (y # ys) =
     (if cmp x y then set_intersection_with cmp xs (y # ys)
      else if cmp y x then set_intersection_with cmp (x # xs) ys
      else x # set_intersection_with cmp xs ys)"
| "set_intersection_with cmp xs ys = []"

definition set_intersection :: "'a::linorder list \<Rightarrow> 'a list \<Rightarrow> 'a list" where
  "set_intersection xs ys = set_intersection_with (<) xs ys"

definition set_intersection_comp :: "('a \<Rightarrow> 'a \<Rightarrow> bool) \<Rightarrow> 'a list \<Rightarrow> 'a list \<Rightarrow> 'a list" where
  "set_intersection_comp cmp xs ys = set_intersection_with cmp xs ys"

fun set_difference_with :: "('a \<Rightarrow> 'a \<Rightarrow> bool) \<Rightarrow> 'a list \<Rightarrow> 'a list \<Rightarrow> 'a list" where
  "set_difference_with cmp (x # xs) (y # ys) =
     (if cmp x y then x # set_difference_with cmp xs (y # ys)
      else if cmp y x then set_difference_with cmp (x # xs) ys
      else set_difference_with cmp xs ys)"
| "set_difference_with cmp xs ys = xs"

definition set_difference :: "'a::linorder list \<Rightarrow> 'a list \<Rightarrow> 'a list" where
  "set_difference xs ys = set_difference_with (<) xs ys"

definition set_difference_comp :: "('a \<Rightarrow> 'a \<Rightarrow> bool) \<Rightarrow> 'a list \<Rightarrow> 'a list \<Rightarrow> 'a list" where
  "set_difference_comp cmp xs ys = set_difference_with cmp xs ys"

fun set_symmetric_difference_with :: "('a \<Rightarrow> 'a \<Rightarrow> bool) \<Rightarrow> 'a list \<Rightarrow> 'a list \<Rightarrow> 'a list" where
  "set_symmetric_difference_with cmp (x # xs) (y # ys) =
     (if cmp x y then x # set_symmetric_difference_with cmp xs (y # ys)
      else if cmp y x then y # set_symmetric_difference_with cmp (x # xs) ys
      else set_symmetric_difference_with cmp xs ys)"
| "set_symmetric_difference_with cmp xs ys = xs @ ys"

definition set_symmetric_difference :: "'a::linorder list \<Rightarrow> 'a list \<Rightarrow> 'a list" where
  "set_symmetric_difference xs ys = set_symmetric_difference_with (<) xs ys"

definition set_symmetric_difference_comp :: "('a \<Rightarrow> 'a \<Rightarrow> bool) \<Rightarrow> 'a list \<Rightarrow> 'a list \<Rightarrow> 'a list" where
  "set_symmetric_difference_comp cmp xs ys = set_symmetric_difference_with cmp xs ys"

fun includes_with :: "('a \<Rightarrow> 'a \<Rightarrow> bool) \<Rightarrow> 'a list \<Rightarrow> 'a list \<Rightarrow> bool" where
  "includes_with cmp (x # xs) (y # ys) \<longleftrightarrow>
     (if cmp y x then False else includes_with cmp xs (if \<not> cmp x y then ys else y # ys))"
| "includes_with cmp xs ys \<longleftrightarrow> ys = []"

definition set_includes :: "'a::linorder list \<Rightarrow> 'a list \<Rightarrow> bool" where
  "set_includes xs ys = includes_with (<) xs ys"

definition set_includes_comp :: "('a \<Rightarrow> 'a \<Rightarrow> bool) \<Rightarrow> 'a list \<Rightarrow> 'a list \<Rightarrow> bool" where
  "set_includes_comp cmp xs ys = includes_with cmp xs ys"

section \<open>Walking through two ranges\<close>

lemma ordered_Cons: "ordered cmp (x # xs) \<longleftrightarrow> (\<forall>y \<in> set xs. \<not> cmp y x) \<and> ordered cmp xs"
  by (simp add: ordered_def)

lemma ordered_Nil [simp]: "ordered cmp []"
  by (simp add: ordered_def)

text \<open>Induction over two lists that are walked through together.\<close>

lemma walk_induct [case_names left right both]:
  assumes "\<And>ys. P [] ys" "\<And>x xs. P (x # xs) []"
    "\<And>x xs y ys. P xs (y # ys) \<Longrightarrow> P (x # xs) ys \<Longrightarrow> P xs ys \<Longrightarrow> P (x # xs) (y # ys)"
  shows "P xs ys"
proof (induction xs arbitrary: ys)
  case (Cons x xs)
  show ?case by (induction ys) (use assms Cons.IH in auto)
qed (rule assms(1))

context weak_order
begin

lemma smaller_all: "ordered cmp (y # ys) \<Longrightarrow> cmp x y \<Longrightarrow> z \<in> set (y # ys) \<Longrightarrow> cmp x z"
  unfolding ordered_Cons using neg_trans by (metis set_ConsD)

lemma equivs_smaller:
  assumes "ordered cmp (y # ys)" "cmp x y" "\<not> cmp v x" "\<not> cmp x v"
  shows "equivs cmp v (y # ys) = []"
  using smaller_all [OF assms(1,2)] assms(3,4) neg_trans unfolding equivs_def
  by (intro filter_False) blast

lemma below_all: "ordered cmp (y # ys) \<Longrightarrow> \<not> cmp y x \<Longrightarrow> z \<in> set (y # ys) \<Longrightarrow> \<not> cmp z x"
  unfolding ordered_Cons using neg_trans by (metis set_ConsD)

lemmas class_steps = equivs_Cons equivs_append ordered_Cons

lemma merge_ok:
  assumes "ordered cmp xs" "ordered cmp ys"
  shows "set (merge_with cmp xs ys) = set xs \<union> set ys \<and> ordered cmp (merge_with cmp xs ys) \<and>
    equivs cmp v (merge_with cmp xs ys) = equivs cmp v xs @ equivs cmp v ys"
  using assms
proof (induction xs ys rule: walk_induct)
  case (both x xs y ys)
  show ?case
  proof (cases "cmp y x")
    case True
    have "equivs cmp v (x # xs) = []" if "\<not> cmp v y" "\<not> cmp y v"
      using equivs_smaller [OF both.prems(1) True that] .
    moreover have "\<forall>z \<in> set (x # xs). \<not> cmp z y"
      using smaller_all [OF both.prems(1) True] asym by blast
    ultimately show ?thesis
      using both.IH(2) [OF both.prems(1)] both.prems(2) True by (auto simp: ordered_Cons equivs_Cons [of _ _ y])
  next
    case False
    then show ?thesis
      using both.IH(1) [OF _ both.prems(2)] both.prems(1) below_all [OF both.prems(2) False]
      by (auto simp: ordered_Cons equivs_Cons [of _ _ x])
  qed
qed (simp_all add: class_steps)

lemma set_union_ok:
  assumes "ordered cmp xs" "ordered cmp ys"
  shows "set (set_union_with cmp xs ys) \<subseteq> set xs \<union> set ys \<and> ordered cmp (set_union_with cmp xs ys) \<and>
    equivs cmp v (set_union_with cmp xs ys) = equivs cmp v xs @ drop (length (equivs cmp v xs)) (equivs cmp v ys)"
  using assms
proof (induction xs ys rule: walk_induct)
  case (both x xs y ys)
  show ?case
  proof (cases "cmp x y")
    case less: True
    have "equivs cmp v (y # ys) = []" if "\<not> cmp v x" "\<not> cmp x v"
      using equivs_smaller [OF both.prems(2) less that] .
    moreover have "\<forall>z \<in> set (y # ys). \<not> cmp z x"
      using smaller_all [OF both.prems(2) less] asym by blast
    ultimately show ?thesis
      using both.IH(1) [OF _ both.prems(2)] both.prems(1) less by (auto simp: ordered_Cons equivs_Cons [of _ _ x])
  next
    case not_less: False
    show ?thesis
    proof (cases "cmp y x")
      case greater: True
      have "equivs cmp v (x # xs) = []" if "\<not> cmp v y" "\<not> cmp y v"
        using equivs_smaller [OF both.prems(1) greater that] .
      moreover have "\<forall>z \<in> set (x # xs). \<not> cmp z y"
        using smaller_all [OF both.prems(1) greater] asym by blast
      ultimately show ?thesis
        using both.IH(2) [OF both.prems(1)] both.prems(2) not_less greater
        by (auto simp: ordered_Cons equivs_Cons [of _ _ y])
    next
      case equal: False
      then show ?thesis
        using both.IH(3) both.prems not_less same_class [OF not_less equal, of v] below_all [OF both.prems(2) equal]
        by (auto simp: ordered_Cons equivs_Cons)
    qed
  qed
qed (simp_all add: class_steps)

lemma set_intersection_ok:
  assumes "ordered cmp xs" "ordered cmp ys"
  shows "set (set_intersection_with cmp xs ys) \<subseteq> set xs \<and> ordered cmp (set_intersection_with cmp xs ys) \<and>
    equivs cmp v (set_intersection_with cmp xs ys) = take (length (equivs cmp v ys)) (equivs cmp v xs)"
  using assms
proof (induction xs ys rule: walk_induct)
  case (both x xs y ys)
  show ?case
  proof (cases "cmp x y")
    case less: True
    have "equivs cmp v (y # ys) = []" if "\<not> cmp v x" "\<not> cmp x v"
      using equivs_smaller [OF both.prems(2) less that] .
    moreover have "\<forall>z \<in> set (y # ys). \<not> cmp z x"
      using smaller_all [OF both.prems(2) less] asym by blast
    ultimately show ?thesis
      using both.IH(1) [OF _ both.prems(2)] both.prems(1) less by (auto simp: ordered_Cons equivs_Cons [of _ _ x])
  next
    case not_less: False
    show ?thesis
    proof (cases "cmp y x")
      case greater: True
      have "equivs cmp v (x # xs) = []" if "\<not> cmp v y" "\<not> cmp y v"
        using equivs_smaller [OF both.prems(1) greater that] .
      moreover have "\<forall>z \<in> set (x # xs). \<not> cmp z y"
        using smaller_all [OF both.prems(1) greater] asym by blast
      ultimately show ?thesis
        using both.IH(2) [OF both.prems(1)] both.prems(2) not_less greater
        by (auto simp: ordered_Cons equivs_Cons [of _ _ y])
    next
      case equal: False
      then show ?thesis
        using both.IH(3) both.prems not_less same_class [OF not_less equal, of v] below_all [OF both.prems(2) equal]
        by (auto simp: ordered_Cons equivs_Cons)
    qed
  qed
qed (simp_all add: class_steps)

lemma set_difference_ok:
  assumes "ordered cmp xs" "ordered cmp ys"
  shows "set (set_difference_with cmp xs ys) \<subseteq> set xs \<and> ordered cmp (set_difference_with cmp xs ys) \<and>
    equivs cmp v (set_difference_with cmp xs ys) = drop (length (equivs cmp v ys)) (equivs cmp v xs)"
  using assms
proof (induction xs ys rule: walk_induct)
  case (both x xs y ys)
  show ?case
  proof (cases "cmp x y")
    case less: True
    have "equivs cmp v (y # ys) = []" if "\<not> cmp v x" "\<not> cmp x v"
      using equivs_smaller [OF both.prems(2) less that] .
    moreover have "\<forall>z \<in> set (y # ys). \<not> cmp z x"
      using smaller_all [OF both.prems(2) less] asym by blast
    ultimately show ?thesis
      using both.IH(1) [OF _ both.prems(2)] both.prems(1) less by (auto simp: ordered_Cons equivs_Cons [of _ _ x])
  next
    case not_less: False
    show ?thesis
    proof (cases "cmp y x")
      case greater: True
      have "equivs cmp v (x # xs) = []" if "\<not> cmp v y" "\<not> cmp y v"
        using equivs_smaller [OF both.prems(1) greater that] .
      moreover have "\<forall>z \<in> set (x # xs). \<not> cmp z y"
        using smaller_all [OF both.prems(1) greater] asym by blast
      ultimately show ?thesis
        using both.IH(2) [OF both.prems(1)] both.prems(2) not_less greater
        by (auto simp: ordered_Cons equivs_Cons [of _ _ y])
    next
      case equal: False
      then show ?thesis
        using both.IH(3) both.prems not_less same_class [OF not_less equal, of v] below_all [OF both.prems(2) equal]
        by (auto simp: ordered_Cons equivs_Cons)
    qed
  qed
qed (simp_all add: class_steps)

lemma set_symmetric_difference_ok:
  assumes "ordered cmp xs" "ordered cmp ys"
  shows "set (set_symmetric_difference_with cmp xs ys) \<subseteq> set xs \<union> set ys \<and> ordered cmp (set_symmetric_difference_with cmp xs ys) \<and>
    equivs cmp v (set_symmetric_difference_with cmp xs ys) = drop (length (equivs cmp v ys)) (equivs cmp v xs) @
      drop (length (equivs cmp v xs)) (equivs cmp v ys)"
  using assms
proof (induction xs ys rule: walk_induct)
  case (both x xs y ys)
  show ?case
  proof (cases "cmp x y")
    case less: True
    have "equivs cmp v (y # ys) = []" if "\<not> cmp v x" "\<not> cmp x v"
      using equivs_smaller [OF both.prems(2) less that] .
    moreover have "\<forall>z \<in> set (y # ys). \<not> cmp z x"
      using smaller_all [OF both.prems(2) less] asym by blast
    ultimately show ?thesis
      using both.IH(1) [OF _ both.prems(2)] both.prems(1) less by (auto simp: ordered_Cons equivs_Cons [of _ _ x])
  next
    case not_less: False
    show ?thesis
    proof (cases "cmp y x")
      case greater: True
      have "equivs cmp v (x # xs) = []" if "\<not> cmp v y" "\<not> cmp y v"
        using equivs_smaller [OF both.prems(1) greater that] .
      moreover have "\<forall>z \<in> set (x # xs). \<not> cmp z y"
        using smaller_all [OF both.prems(1) greater] asym by blast
      ultimately show ?thesis
        using both.IH(2) [OF both.prems(1)] both.prems(2) not_less greater
        by (auto simp: ordered_Cons equivs_Cons [of _ _ y])
    next
      case equal: False
      then show ?thesis
        using both.IH(3) both.prems not_less same_class [OF not_less equal, of v] below_all [OF both.prems(2) equal]
        by (auto simp: ordered_Cons equivs_Cons)
    qed
  qed
qed (simp_all add: class_steps)

lemma includes_ok:
  assumes "ordered cmp xs" "ordered cmp ys"
  shows "includes_with cmp xs ys \<longleftrightarrow> (\<forall>v. length (equivs cmp v ys) \<le> length (equivs cmp v xs))"
  using assms
proof (induction xs ys rule: walk_induct)
  case (left ys)
  have "equivs cmp y (y # zs) \<noteq> []" for y zs using asym [of y y] by (auto simp: equivs_Cons)
  then show ?case by (cases ys) auto
next
  case (both x xs y ys)
  show ?case
  proof (cases "cmp y x")
    case greater: True
    have "\<not> cmp y y" using asym by blast
    then have "equivs cmp y (x # xs) = []" "length (equivs cmp y (y # ys)) > 0"
      using equivs_smaller [OF both.prems(1) greater, of y] by (simp_all add: equivs_Cons)
    then show ?thesis using greater by (metis includes_with.simps(1) length_greater_0_conv list.size(3) not_le)
  next
    case not_greater: False
    show ?thesis
    proof (cases "cmp x y")
      case less: True
      have "length (equivs cmp v (y # ys)) \<le> length (equivs cmp v (x # xs)) \<longleftrightarrow>
          length (equivs cmp v (y # ys)) \<le> length (equivs cmp v xs)" for v
        using equivs_smaller [OF both.prems(2) less, of v] by (simp add: equivs_Cons [of _ _ x])
      then show ?thesis
        using both.IH(1) [OF _ both.prems(2)] both.prems(1) less not_greater by (simp add: ordered_Cons)
    next
      case equal: False
      have "length (equivs cmp v (y # ys)) \<le> length (equivs cmp v (x # xs)) \<longleftrightarrow>
          length (equivs cmp v ys) \<le> length (equivs cmp v xs)" for v
        using same_class [OF equal not_greater, of v] by (auto simp: equivs_Cons)
      then show ?thesis
        using both.IH(3) both.prems equal not_greater by (simp add: ordered_Cons)
    qed
  qed
qed simp

end

section \<open>Properties\<close>

text \<open>
  \<open>merge\<close> of two ranges ordered by a strict weak ordering is ordered, has all elements of both, and is
  stable: among equivalent elements those of the first range come first, each range's in their order. On
  a linear order it gives the library's \<open>sort\<close> of both ranges.
\<close>

theorem merge_stable:
  assumes "weak_order cmp" "ordered cmp xs" "ordered cmp ys" "sorted as" "sorted (bs :: 'b::linorder list)"
  shows "ordered cmp (merge_comp cmp xs ys) \<and> set (merge_comp cmp xs ys) = set xs \<union> set ys \<and>
    (\<forall>v. equivs cmp v (merge_comp cmp xs ys) = equivs cmp v xs @ equivs cmp v ys) \<and>
    merge as bs = sort (as @ bs)"
proof -
  have "mset (merge_with (<) as bs) = mset (as @ bs)"
    by (induction as bs rule: walk_induct) simp_all
  moreover have "sorted (merge_with (<) as bs)"
    using less_order.merge_ok [of as bs] assms(4,5) by simp
  ultimately have "merge as bs = sort (as @ bs)"
    unfolding merge_def by (intro properties_for_sort [symmetric])
  then show ?thesis
    using weak_order.merge_ok [OF assms(1-3)] by (simp add: merge_comp_def)
qed

theorem merge_stable_witness:
  "weak_order (\<lambda>x y :: nat. x div 10 < y div 10) \<and>
   equivs (\<lambda>x y. x div 10 < y div 10) 25 (merge_comp (\<lambda>x y. x div 10 < y div 10) [11, 29, 22, 35] [20, 21, 48 :: nat]) =
     [29, 22, 20, 21] \<and> merge [1, 4, 9] [2, 4, 5 :: nat] = [1, 2, 4, 4, 5, 9]"
proof -
  let ?cmp = "\<lambda>x y :: nat. x div 10 < y div 10"
  have w: "weak_order ?cmp" by unfold_locales auto
  have o: "ordered ?cmp [11, 29, 22, 35]" "ordered ?cmp [20, 21, 48]" by code_simp+
  have s: "sorted [1, 4, 9 :: nat]" "sorted [2, 4, 5 :: nat]" by simp_all
  note m = merge_stable [OF w o s]
  have "equivs ?cmp 25 [11, 29, 22, 35] = [29, 22]" "equivs ?cmp 25 [20, 21, 48] = [20, 21]" by code_simp+
  moreover have "equivs ?cmp 25 (merge_comp ?cmp [11, 29, 22, 35] [20, 21, 48]) =
      equivs ?cmp 25 [11, 29, 22, 35] @ equivs ?cmp 25 [20, 21, 48]" using m by blast
  moreover have "merge [1, 4, 9] [2, 4, 5 :: nat] = sort ([1, 4, 9] @ [2, 4, 5])" using m by blast
  ultimately show ?thesis using w by simp
qed

text \<open>
  C28: the set operations on ranges ordered by a strict weak ordering keep, of each class of equivalent
  elements, exactly those that the C++ standard says. With m of the class in the first range and n in the
  second: union takes the first range's and the last n - m of the second; intersection the first
  min(m, n) of the first range; difference the last m - n of the first range; symmetric difference the last
  m - n of the first or n - m of the second. The results are ordered, and \<open>includes\<close> tells whether
  n is at most m for every class.
\<close>

theorem set_operations:
  assumes "weak_order cmp" "ordered cmp xs" "ordered cmp ys"
  shows "(\<forall>v. equivs cmp v (set_union_comp cmp xs ys) =
        equivs cmp v xs @ drop (length (equivs cmp v xs)) (equivs cmp v ys) \<and>
      equivs cmp v (set_intersection_comp cmp xs ys) = take (length (equivs cmp v ys)) (equivs cmp v xs) \<and>
      equivs cmp v (set_difference_comp cmp xs ys) = drop (length (equivs cmp v ys)) (equivs cmp v xs) \<and>
      equivs cmp v (set_symmetric_difference_comp cmp xs ys) =
        drop (length (equivs cmp v ys)) (equivs cmp v xs) @ drop (length (equivs cmp v xs)) (equivs cmp v ys)) \<and>
    ordered cmp (set_union_comp cmp xs ys) \<and> ordered cmp (set_intersection_comp cmp xs ys) \<and>
    ordered cmp (set_difference_comp cmp xs ys) \<and> ordered cmp (set_symmetric_difference_comp cmp xs ys) \<and>
    set_includes_comp cmp xs ys = (\<forall>v. length (equivs cmp v ys) \<le> length (equivs cmp v xs))"
  using weak_order.set_union_ok [OF assms] weak_order.set_intersection_ok [OF assms]
    weak_order.set_difference_ok [OF assms] weak_order.set_symmetric_difference_ok [OF assms]
    weak_order.includes_ok [OF assms]
  by (simp add: set_union_comp_def set_intersection_comp_def set_difference_comp_def
      set_symmetric_difference_comp_def set_includes_comp_def)

theorem set_operations_witness:
  "weak_order (\<lambda>x y :: nat. x div 10 < y div 10) \<and>
   set_symmetric_difference_comp (\<lambda>x y. x div 10 < y div 10) [11, 29, 22, 35] [20, 31, 38 :: nat] = [11, 22, 38] \<and>
   equivs (\<lambda>x y. x div 10 < y div 10) 25
     (set_difference_comp (\<lambda>x y. x div 10 < y div 10) [11, 29, 22, 35] [20, 31, 38 :: nat]) = [22]"
proof -
  let ?cmp = "\<lambda>x y :: nat. x div 10 < y div 10"
  have w: "weak_order ?cmp" by unfold_locales auto
  have o: "ordered ?cmp [11, 29, 22, 35]" "ordered ?cmp [20, 31, 38]" by code_simp+
  have s: "set_symmetric_difference_comp ?cmp [11, 29, 22, 35] [20, 31, 38] = [11, 22, 38]" by code_simp
  have "equivs ?cmp 25 [11, 29, 22, 35] = [29, 22]" "equivs ?cmp 25 [20, 31, 38] = [20]" by code_simp+
  moreover have "equivs ?cmp 25 (set_difference_comp ?cmp [11, 29, 22, 35] [20, 31, 38]) =
      drop (length (equivs ?cmp 25 [20, 31, 38])) (equivs ?cmp 25 [11, 29, 22, 35])"
    using set_operations [OF w o] by blast
  ultimately show ?thesis using w s by simp
qed

end
