(* ===== verification/Stl_Rotate.thy ===== *)
theory Stl_Rotate
  imports Stl_Sort
begin

text \<open>
  Reversing and rotating ranges (\<open>kernel/include/bits/stl_algo.h\<close>). The library picks an algorithm by the
  category of the iterators; the variants for random access and for bidirectional iterators are modelled. \<open>pod\<close> is the compiler's answer to whether the elements are plain data.
\<close>

section \<open>Reversing\<close>

function reverse_bidirectional :: "nat \<Rightarrow> nat \<Rightarrow> 'a list \<Rightarrow> 'a list" where
  "reverse_bidirectional first stop xs =
     (if first < stop then
        let stop = stop - 1 in
        if first = stop then xs else reverse_bidirectional (first + 1) stop (swap_at first stop xs)
      else xs)"
  by pat_completeness auto
termination by (relation "measure (\<lambda>(first, stop, xs). stop - first)") auto

declare reverse_bidirectional.simps [simp del]

function reverse_loop :: "nat \<Rightarrow> nat \<Rightarrow> 'a list \<Rightarrow> 'a list" where
  "reverse_loop first stop xs =
     (if first < stop then reverse_loop (first + 1) (stop - 1) (swap_at first stop xs) else xs)"
  by pat_completeness auto
termination by (relation "measure (\<lambda>(first, stop, xs). stop - first)") auto

declare reverse_loop.simps [simp del]

definition reverse_random :: "nat \<Rightarrow> nat \<Rightarrow> 'a list \<Rightarrow> 'a list" where
  "reverse_random first stop xs = (if first = stop then xs else reverse_loop first (stop - 1) xs)"

section \<open>Rotating\<close>

text \<open>Swaps element by element, the two positions going up or down together.\<close>

primrec swaps_up :: "nat \<Rightarrow> nat \<Rightarrow> nat \<Rightarrow> 'a list \<Rightarrow> 'a list" where
  "swaps_up 0 p q xs = xs"
| "swaps_up (Suc i) p q xs = swaps_up i (p + 1) (q + 1) (swap_at p q xs)"

primrec swaps_down :: "nat \<Rightarrow> nat \<Rightarrow> nat \<Rightarrow> 'a list \<Rightarrow> 'a list" where
  "swaps_down 0 p q xs = xs"
| "swaps_down (Suc i) p q xs = (let p = p - 1; q = q - 1 in swaps_down i p q (swap_at p q xs))"

definition swap_ranges :: "nat \<Rightarrow> nat \<Rightarrow> nat \<Rightarrow> 'a list \<Rightarrow> 'a list" where
  "swap_ranges first1 stop1 first2 xs = swaps_up (stop1 - first1) first1 first2 xs"

function move_forward :: "nat \<Rightarrow> nat \<Rightarrow> nat \<Rightarrow> 'a list \<Rightarrow> 'a list" where
  "move_forward first stop result xs =
     (if stop > first then move_forward (first + 1) stop (result + 1) (xs[result := xs ! first]) else xs)"
  by pat_completeness auto
termination by (relation "measure (\<lambda>(first, stop, result, xs). stop - first)") auto

declare move_forward.simps [simp del]

text \<open>The loop that rotates the \<open>n\<close> elements from \<open>p\<close> on by \<open>k\<close>.\<close>

function rotate_loop :: "bool \<Rightarrow> nat \<Rightarrow> nat \<Rightarrow> nat \<Rightarrow> 'a list \<Rightarrow> 'a list" where
  "rotate_loop pod n k p xs =
     (if k < n - k then
        if pod \<and> k = 1 then
          (let t = xs ! p; xs = move_forward (p + 1) (p + n) p xs in xs[p + n - 1 := t])
        else
          (let q = p + k;
               xs = swaps_up (n - k) p q xs;
               p = p + (n - k);
               n' = n mod k
           in if n' = 0 then xs else let n = k; k = n - n' in rotate_loop pod n k p xs)
      else
        (let k = n - k in
         if pod \<and> k = 1 then
           (let t = xs ! (p + n - 1); xs = move_backward p (p + n - 1) (p + n) xs in xs[p := t])
         else
           (let q = p + n;
                p = q - k;
                xs = swaps_down (n - k) p q xs;
                p = p - (n - k);
                n' = n mod k
            in if n' = 0 then xs else let n = k; k = n' in rotate_loop pod n k p xs)))"
  by pat_completeness auto
termination
proof (relation "measure (\<lambda>(pod, n, k, p, xs). n)", goal_cases)
  case (3 pod n k p xs x xa xb xc xd xe xf xg)
  then show ?case by (cases "k = 0"; cases "n = 0") auto
qed auto

declare rotate_loop.simps [simp del]

definition rotate_random :: "bool \<Rightarrow> nat \<Rightarrow> nat \<Rightarrow> nat \<Rightarrow> 'a list \<Rightarrow> nat \<times> 'a list" where
  "rotate_random pod first middle stop xs =
     (if first = middle then (stop, xs)
      else if stop = middle then (first, xs)
      else
        let n = stop - first; k = middle - first in
        if k = n - k then (middle, swap_ranges first middle middle xs)
        else let p = first; ret = first + (stop - middle) in (ret, rotate_loop pod n k p xs))"

function swap_ends :: "nat \<Rightarrow> nat \<Rightarrow> nat \<Rightarrow> 'a list \<Rightarrow> nat \<times> nat \<times> 'a list" where
  "swap_ends first middle stop xs =
     (if first < middle \<and> middle < stop then
        let stop = stop - 1 in swap_ends (first + 1) middle stop (swap_at first stop xs)
      else (first, stop, xs))"
  by pat_completeness auto
termination by (relation "measure (\<lambda>(first, middle, stop, xs). stop)") auto

declare swap_ends.simps [simp del]

definition rotate_bidirectional :: "nat \<Rightarrow> nat \<Rightarrow> nat \<Rightarrow> 'a list \<Rightarrow> nat \<times> 'a list" where
  "rotate_bidirectional first middle stop xs =
     (if first = middle then (stop, xs)
      else if stop = middle then (first, xs)
      else
        let xs = reverse_bidirectional first middle xs;
            xs = reverse_bidirectional middle stop xs;
            (first, stop, xs) = swap_ends first middle stop xs
        in if first = middle then (stop, reverse_bidirectional middle stop xs)
           else (first, reverse_bidirectional first middle xs))"

section \<open>The entry points\<close>

text \<open>The category of the iterators decides which variant is called.\<close>

datatype iterator_category = Random_access bool | Bidirectional

primrec reverse_range_of :: "iterator_category \<Rightarrow> nat \<Rightarrow> nat \<Rightarrow> 'a list \<Rightarrow> 'a list" where
  "reverse_range_of (Random_access pod) first stop xs = reverse_random first stop xs"
| "reverse_range_of Bidirectional first stop xs = reverse_bidirectional first stop xs"

primrec rotate_range_of :: "iterator_category \<Rightarrow> nat \<Rightarrow> nat \<Rightarrow> nat \<Rightarrow> 'a list \<Rightarrow> nat \<times> 'a list" where
  "rotate_range_of (Random_access pod) first middle stop xs = rotate_random pod first middle stop xs"
| "rotate_range_of Bidirectional first middle stop xs = rotate_bidirectional first middle stop xs"

section \<open>What reversing does\<close>

definition reversed_at :: "nat \<Rightarrow> nat \<Rightarrow> 'a list \<Rightarrow> 'a list \<Rightarrow> bool" where
  "reversed_at first stop xs ys \<longleftrightarrow> length ys = length xs \<and>
     (\<forall>i < length xs. ys ! i = (if first \<le> i \<and> i < stop then xs ! (first + stop - 1 - i) else xs ! i))"

lemma reversed_at_step:
  assumes "reversed_at (first + 1) stop (swap_at first stop xs) ys" "first < stop" "stop < length xs"
  shows "reversed_at first (stop + 1) xs ys"
  unfolding reversed_at_def
proof (intro conjI allI impI)
  show "length ys = length xs" using assms(1) by (simp add: reversed_at_def)
  fix i assume i: "i < length xs"
  have swap: "swap_at first stop xs ! k = (if k = first then xs ! stop else if k = stop then xs ! first else xs ! k)" for k
    using assms(2,3) by (intro nth_swap_at) auto
  have "ys ! i = (if first + 1 \<le> i \<and> i < stop then swap_at first stop xs ! (first + 1 + stop - 1 - i) else swap_at first stop xs ! i)"
    using assms(1) i by (simp add: reversed_at_def)
  then show "ys ! i = (if first \<le> i \<and> i < stop + 1 then xs ! (first + (stop + 1) - 1 - i) else xs ! i)"
    using assms(2) by (auto simp: swap not_less le_Suc_eq)
qed

lemma reversed_at_short: "stop \<le> first + 1 \<Longrightarrow> reversed_at first stop xs xs"
  by (auto simp: reversed_at_def intro!: arg_cong [where f = "(!) xs"])

lemma reverse_bidirectional_ok: "stop \<le> length xs \<Longrightarrow> reversed_at first stop xs (reverse_bidirectional first stop xs)"
proof (induction first stop xs rule: reverse_bidirectional.induct)
  case (1 first stop xs)
  show ?case
  proof (cases "first < stop \<and> first \<noteq> stop - 1")
    case True
    then have "reverse_bidirectional first stop xs = reverse_bidirectional (first + 1) (stop - 1) (swap_at first (stop - 1) xs)"
      by (subst reverse_bidirectional.simps) (simp add: Let_def)
    moreover have "reversed_at (first + 1) (stop - 1) (swap_at first (stop - 1) xs)
        (reverse_bidirectional (first + 1) (stop - 1) (swap_at first (stop - 1) xs))"
      using "1.IH" True "1.prems" by simp
    moreover have "first < stop - 1" "stop - 1 < length xs" "stop - 1 + 1 = stop" using True "1.prems" by auto
    ultimately show ?thesis using reversed_at_step [of first "stop - 1" xs] by metis
  next
    case False
    then have "reverse_bidirectional first stop xs = xs" by (subst reverse_bidirectional.simps) auto
    with False show ?thesis using reversed_at_short [of stop first xs] by auto
  qed
qed

lemma reverse_loop_ok: "stop < length xs \<Longrightarrow> reversed_at first (stop + 1) xs (reverse_loop first stop xs)"
proof (induction first stop xs rule: reverse_loop.induct)
  case (1 first stop xs)
  show ?case
  proof (cases "first < stop")
    case True
    then have "reversed_at (first + 1) stop (swap_at first stop xs) (reverse_loop first stop xs)"
      using "1.IH" "1.prems" by (subst reverse_loop.simps) simp
    from reversed_at_step [OF this True "1.prems"] show ?thesis .
  next
    case False
    then show ?thesis using reversed_at_short [of "stop + 1" first xs] by (subst reverse_loop.simps) simp
  qed
qed

section \<open>What rotating does\<close>

definition rotated_at :: "nat \<Rightarrow> nat \<Rightarrow> nat \<Rightarrow> 'a list \<Rightarrow> 'a list \<Rightarrow> bool" where
  "rotated_at p n k xs ys \<longleftrightarrow> length ys = length xs \<and> (\<forall>i < n. ys ! (p + i) = xs ! (p + (i + k) mod n)) \<and>
     (\<forall>i < length xs. i < p \<or> p + n \<le> i \<longrightarrow> ys ! i = xs ! i)"

lemma swaps_up_nth:
  assumes "0 < k" "p + k + m \<le> length xs"
  defines "ys \<equiv> swaps_up m p (p + k) xs"
  shows "length ys = length xs \<and> (\<forall>j < m. ys ! (p + j) = xs ! (p + k + j)) \<and>
    (\<forall>i < k. ys ! (p + m + i) = xs ! (p + (m + i) mod k)) \<and>
    (\<forall>j < length xs. j < p \<or> p + m + k \<le> j \<longrightarrow> ys ! j = xs ! j)"
  using assms(1,2) unfolding ys_def
proof (induction m arbitrary: p xs)
  case (Suc m)
  let ?xs = "swap_at p (p + k) xs"
  have swap: "?xs ! j = (if j = p then xs ! (p + k) else if j = p + k then xs ! p else xs ! j)" for j
    using Suc.prems by (intro nth_swap_at) auto
  have IH: "length (swaps_up m (p + 1) (p + 1 + k) ?xs) = length xs"
    "\<forall>j < m. swaps_up m (p + 1) (p + 1 + k) ?xs ! (p + 1 + j) = ?xs ! (p + 1 + k + j)"
    "\<forall>i < k. swaps_up m (p + 1) (p + 1 + k) ?xs ! (p + 1 + m + i) = ?xs ! (p + 1 + (m + i) mod k)"
    "\<forall>j < length xs. j < p + 1 \<or> p + 1 + m + k \<le> j \<longrightarrow> swaps_up m (p + 1) (p + 1 + k) ?xs ! j = ?xs ! j"
    using Suc.IH [of "p + 1" ?xs] Suc.prems by simp_all
  have run: "swaps_up (Suc m) p (p + k) xs = swaps_up m (p + 1) (p + 1 + k) ?xs" by simp
  show ?case
    unfolding run
  proof (intro conjI allI impI)
    fix j assume "j < Suc m"
    then show "swaps_up m (p + 1) (p + 1 + k) ?xs ! (p + j) = xs ! (p + k + j)"
      using IH(2) [rule_format, of "j - 1"] IH(4) [rule_format, of p] Suc.prems by (cases j) (simp_all add: swap)
  next
    fix i assume i: "i < k"
    have "Suc (m + i) mod k = (if Suc ((m + i) mod k) = k then 0 else Suc ((m + i) mod k))"
      by (simp add: mod_Suc)
    then show "swaps_up m (p + 1) (p + 1 + k) ?xs ! (p + Suc m + i) = xs ! (p + (Suc m + i) mod k)"
      using IH(3) [rule_format, OF i] Suc.prems(1) by (auto simp: swap)
  next
    fix j assume "j < length xs" "j < p \<or> p + Suc m + k \<le> j"
    then show "swaps_up m (p + 1) (p + 1 + k) ?xs ! j = xs ! j"
      using IH(4) [rule_format, of j] by (auto simp: swap)
  qed (use IH(1) in simp)
qed simp

lemma swaps_down_nth:
  assumes "0 < k" "m \<le> p" "p + k \<le> length xs"
  defines "ys \<equiv> swaps_down m p (p + k) xs"
  shows "length ys = length xs \<and> (\<forall>j < m. ys ! (p - m + k + j) = xs ! (p - m + j)) \<and>
    (\<forall>i < k. ys ! (p - m + i) = xs ! (p + (i + m * (k - 1)) mod k)) \<and>
    (\<forall>j < length xs. j < p - m \<or> p + k \<le> j \<longrightarrow> ys ! j = xs ! j)"
  using assms(1-3) unfolding ys_def
proof (induction m arbitrary: p xs)
  case (Suc m)
  obtain r where r: "p = Suc r" "m \<le> r" using Suc.prems(2) by (cases p) auto
  let ?xs = "swap_at r (r + k) xs"
  have swap: "?xs ! j = (if j = r then xs ! (r + k) else if j = r + k then xs ! r else xs ! j)" for j
    using Suc.prems r by (intro nth_swap_at) auto
  have IH: "length (swaps_down m r (r + k) ?xs) = length xs"
    "\<forall>j < m. swaps_down m r (r + k) ?xs ! (r - m + k + j) = ?xs ! (r - m + j)"
    "\<forall>i < k. swaps_down m r (r + k) ?xs ! (r - m + i) = ?xs ! (r + (i + m * (k - 1)) mod k)"
    "\<forall>j < length xs. j < r - m \<or> r + k \<le> j \<longrightarrow> swaps_down m r (r + k) ?xs ! j = ?xs ! j"
    using Suc.IH [of r ?xs] Suc.prems r by simp_all
  have run: "swaps_down (Suc m) p (p + k) xs = swaps_down m r (r + k) ?xs" using r by (simp add: Let_def)
  have b: "p - Suc m = r - m" using r by simp
  show ?case
    unfolding run b
  proof (intro conjI allI impI)
    fix j assume j: "j < Suc m"
    show "swaps_down m r (r + k) ?xs ! (r - m + k + j) = xs ! (r - m + j)"
    proof (cases "j = m")
      case True
      then have "r - m + k + j = r + k" "r - m + j = r" using r(2) by simp_all
      then show ?thesis using IH(4) [rule_format, of "r + k"] Suc.prems r by (simp add: swap)
    next
      case False
      then have "j < m" "r - m + j < r" using j r(2) by auto
      then show ?thesis using IH(2) by (simp add: swap)
    qed
  next
    fix i assume i: "i < k"
    define a where "a = (i + m * (k - 1)) mod k"
    have less: "a < k" using Suc.prems(1) by (simp add: a_def)
    have "(i + Suc m * (k - 1)) mod k = (a + (k - 1)) mod k" 
      unfolding mult_Suc a_def by (metis add.assoc add.commute mod_add_left_eq)
    also have "\<dots> = (if a = 0 then k - 1 else a - 1)"
    proof (cases "a = 0")
      case False
      have "(a + (k - 1)) mod k = ((a - 1) + k) mod k" using False Suc.prems(1) by simp
      also have "\<dots> = a - 1" using less by simp
      finally show ?thesis using False by simp
    qed (use Suc.prems(1) in simp)
    finally have e: "(i + Suc m * (k - 1)) mod k = (if a = 0 then k - 1 else a - 1)" .
    show "swaps_down m r (r + k) ?xs ! (r - m + i) = xs ! (p + (i + Suc m * (k - 1)) mod k)"
      using IH(3) [rule_format, OF i] Suc.prems(1) less unfolding e r(1) a_def [symmetric] by (auto simp: swap)
  next
    fix j assume "j < length xs" "j < r - m \<or> p + k \<le> j"
    then show "swaps_down m r (r + k) ?xs ! j = xs ! j"
      using IH(4) [rule_format, of j] r by (auto simp: swap)
  qed (use IH(1) in simp)
qed simp

lemma length_move_forward [simp]: "length (move_forward first stop result xs) = length xs"
  by (induction first stop result xs rule: move_forward.induct) (subst move_forward.simps, simp)

lemma nth_move_forward:
  assumes "stop \<le> length xs" "0 < first"
  shows "move_forward first stop (first - 1) xs ! k = (if first \<le> k + 1 \<and> k + 1 < stop then xs ! (k + 1) else xs ! k)"
  using assms
proof (induction "stop - first" arbitrary: first xs)
  case 0
  then show ?case by (subst move_forward.simps) auto
next
  case (Suc d)
  have first: "first < stop" using Suc.hyps(2) by simp
  have "move_forward first stop (first - 1) xs = move_forward (first + 1) stop first (xs[first - 1 := xs ! first])"
    using first Suc.prems(2) by (subst move_forward.simps) simp
  moreover have "d = stop - (first + 1)" using Suc.hyps(2) by simp
  ultimately show ?case
    using Suc.hyps(1) [of "first + 1" "xs[first - 1 := xs ! first]"] Suc.prems Suc.hyps(2)
    by (auto simp: nth_list_update)
qed

lemma cycle_back:
  assumes "i < (K :: nat)"
  shows "((i + (K + k) mod K) mod K + k * (K - 1)) mod K = i"
proof -
  obtain j where K: "K = Suc j" using assms by (cases K) auto
  have "((i + (K + k) mod K) mod K + k * (K - 1)) mod K = (i + (K + k) + k * (K - 1)) mod K"
    by (simp only: mod_add_left_eq mod_add_right_eq)
  also have "i + (K + k) + k * (K - 1) = i + K * Suc k" by (simp add: K algebra_simps)
  also have "(i + K * Suc k) mod K = i" using assms by (simp only: mod_mult_self2 mod_less)
  finally show ?thesis .
qed

text \<open>The loop rotates its window.\<close>

lemma rotate_loop_ok:
  assumes "0 < k" "k < n" "p + n \<le> length xs"
  shows "rotated_at p n k xs (rotate_loop pod n k p xs)"
  using assms
proof (induction n arbitrary: k xs p rule: less_induct)
  case (less n)
  note prems = less.prems
  show ?case
  proof (cases "k < n - k")
    case up: True
    show ?thesis
    proof (cases "pod \<and> k = 1")
      case True
      define ys where "ys = move_forward (p + 1) (p + n) p xs"
      have run: "rotate_loop pod n k p xs = ys[p + n - 1 := xs ! p]"
        using up True by (subst rotate_loop.simps) (simp add: Let_def ys_def)
      have nth: "ys ! j = (if p \<le> j \<and> j + 1 < p + n then xs ! (j + 1) else xs ! j)" for j
        using nth_move_forward [of "p + n" xs "p + 1" j] prems(3) by (simp add: ys_def)
      have len: "length ys = length xs" by (simp add: ys_def)
      show ?thesis
        unfolding rotated_at_def run
      proof (intro conjI allI impI)
        fix i assume i: "i < n"
        then show "ys[p + n - 1 := xs ! p] ! (p + i) = xs ! (p + (i + k) mod n)"
          using True prems len by (cases "Suc i = n") (auto simp: nth nth_list_update)
      qed (use prems len in \<open>auto simp: nth nth_list_update\<close>)
    next
      case False
      let ?ys = "swaps_up (n - k) p (p + k) xs"
      let ?n' = "n mod k"
      have ys: "length ?ys = length xs" "\<forall>j < n - k. ?ys ! (p + j) = xs ! (p + k + j)"
        "\<forall>i < k. ?ys ! (p + (n - k) + i) = xs ! (p + ((n - k) + i) mod k)"
        "\<forall>j < length xs. j < p \<or> p + (n - k) + k \<le> j \<longrightarrow> ?ys ! j = xs ! j"
        using swaps_up_nth [of k p "n - k" xs] prems by auto
      have run: "rotate_loop pod n k p xs =
          (if ?n' = 0 then ?ys else rotate_loop pod k (k - ?n') (p + (n - k)) ?ys)"
        using up False by (subst rotate_loop.simps) (auto simp: Let_def)
      have cyc: "((n - k) + (i + (k - ?n')) mod k) mod k = i" if "i < k" for i
      proof -
        have "((n - k) + (i + (k - ?n')) mod k) mod k = ((n - k) + (i + (k - ?n'))) mod k" by (simp add: mod_simps)
        also have "(n - k) + (i + (k - ?n')) = i + (n - ?n')"
          using prems(1,2) mod_less_divisor [OF prems(1), of n] mod_le_divisor by simp
        also have "(i + (n - ?n')) mod k = i"
          using that by (simp add: minus_mod_eq_mult_div)
        finally show ?thesis .
      qed
      obtain zs where zs: "rotate_loop pod n k p xs = zs" "length zs = length xs"
        "\<forall>i < k. zs ! (p + (n - k) + i) = xs ! (p + i)"
        "\<forall>j < length xs. j < p + (n - k) \<or> p + n \<le> j \<longrightarrow> zs ! j = ?ys ! j"
      proof (cases "?n' = 0")
        case True
        have "(n - k + i) mod k = i" if "i < k" for i using cyc [OF that] True by (simp add: mod_simps)
        with True run ys prems show ?thesis by (intro that [of ?ys]) simp_all
      next
        case n': False
        have "?n' < k" using prems(1) by simp
        then have "rotated_at (p + (n - k)) k (k - ?n') ?ys (rotate_loop pod k (k - ?n') (p + (n - k)) ?ys)"
          using n' prems ys(1) by (intro less.IH) auto
        then show ?thesis
          using n' run ys(1,3) cyc prems
          by (intro that [of "rotate_loop pod k (k - ?n') (p + (n - k)) ?ys"]) (auto simp: rotated_at_def)
      qed
      show ?thesis
        unfolding rotated_at_def zs(1)
      proof (intro conjI allI impI)
        fix i assume i: "i < n"
        show "zs ! (p + i) = xs ! (p + (i + k) mod n)"
        proof (cases "i < n - k")
          case True
          then have "zs ! (p + i) = ?ys ! (p + i)" using zs(4) prems i by simp
          then show ?thesis using ys(2) True prems by (simp add: ac_simps)
        next
          case False
          then obtain j where j: "i = (n - k) + j" "j < k" using i prems(2) by (metis add_diff_inverse_nat add_less_cancel_left le_add_diff_inverse2 less_imp_le_nat)
          have "(i + k) mod n = j" using j prems by simp
          then show ?thesis using zs(3) j by (simp add: add.assoc)
        qed
      next
        fix j assume j: "j < length xs" "j < p \<or> p + n \<le> j"
        then show "zs ! j = xs ! j" using zs(4) ys(4) prems by auto
      qed (use zs in simp)
    qed
  next
    case down: False
    let ?k = "n - k"
    have k: "0 < ?k" "?k \<le> k" "n = ?k + k" using down prems by auto
    show ?thesis
    proof (cases "pod \<and> ?k = 1")
      case True
      define ys where "ys = move_backward p (p + n - 1) (p + n) xs"
      have run: "rotate_loop pod n k p xs = ys[p := xs ! (p + n - 1)]"
        using down True by (subst rotate_loop.simps) (simp add: Let_def ys_def)
      have nth: "ys ! j = (if p < j \<and> j \<le> p + n - 1 then xs ! (j - 1) else xs ! j)" for j
        using nth_move_backward [of p "p + n - 1" xs j] prems by (simp add: ys_def)
      have len: "length ys = length xs" by (simp add: ys_def)
      show ?thesis
        unfolding rotated_at_def run
      proof (intro conjI allI impI)
        fix i assume i: "i < n"
        show "ys[p := xs ! (p + n - 1)] ! (p + i) = xs ! (p + (i + k) mod n)"
        proof (cases i)
          case 0
          then show ?thesis using True k prems len by (simp add: nth_list_update)
        next
          case (Suc j)
          have "(i + k) mod n = j" using Suc True k i by (metis Suc_eq_plus1 add.commute add_Suc_right mod_add_self2 mod_less Suc_lessD)
          then show ?thesis using Suc i prems len by (auto simp: nth_list_update nth)
        qed
      qed (use prems len in \<open>auto simp: nth nth_list_update\<close>)
    next
      case False
      let ?ys = "swaps_down k (p + k) (p + k + ?k) xs"
      let ?n' = "n mod ?k"
      have ys: "length ?ys = length xs" "\<forall>j < k. ?ys ! (p + ?k + j) = xs ! (p + j)"
        "\<forall>i < ?k. ?ys ! (p + i) = xs ! (p + k + (i + k * (?k - 1)) mod ?k)"
        "\<forall>j < length xs. j < p \<or> p + n \<le> j \<longrightarrow> ?ys ! j = xs ! j"
        using swaps_down_nth [of ?k k "p + k" xs] prems k by auto
      have e: "p + n - ?k = p + k" "n - ?k = k" "p + k - k = p" "p + n = p + k + ?k" using k by auto
      have run: "rotate_loop pod n k p xs = (if ?n' = 0 then ?ys else rotate_loop pod ?k ?n' p ?ys)"
      proof -
        have "swaps_down (n - ?k) (p + n - ?k) (p + n) xs = ?ys" by (subst e(1), subst e(2), subst e(4)) (rule refl)
        moreover have "p + n - ?k - (n - ?k) = p" using k by simp
        ultimately show ?thesis
          by (subst rotate_loop.simps) (simp only: Let_def if_not_P [OF down] if_not_P [OF False])
      qed
      have "?n' = (?k + k) mod ?k" using k(3) by (rule arg_cong [where f = "\<lambda>x. x mod ?k"])
      then have cyc: "((i + ?n') mod ?k + k * (?k - 1)) mod ?k = i" if "i < ?k" for i
        using cycle_back [OF that, of k] by (simp only:)
      obtain zs where zs: "rotate_loop pod n k p xs = zs" "length zs = length xs"
        "\<forall>i < ?k. zs ! (p + i) = xs ! (p + k + i)"
        "\<forall>j < length xs. j < p \<or> p + ?k \<le> j \<longrightarrow> zs ! j = ?ys ! j"
      proof (cases "?n' = 0")
        case True
        have "(i + k * (?k - 1)) mod ?k = i" if "i < ?k" for i using cyc [OF that] that True by simp
        with True run ys show ?thesis by (intro that [of ?ys]) simp_all
      next
        case n': False
        have "?n' < ?k" using k(1) by simp
        then have "rotated_at p ?k ?n' ?ys (rotate_loop pod ?k ?n' p ?ys)"
          using n' prems ys(1) k by (intro less.IH) auto
        then show ?thesis
          using n' run ys(1,3) cyc k
          by (intro that [of "rotate_loop pod ?k ?n' p ?ys"]) (auto simp: rotated_at_def)
      qed
      show ?thesis
        unfolding rotated_at_def zs(1)
      proof (intro conjI allI impI)
        fix i assume i: "i < n"
        show "zs ! (p + i) = xs ! (p + (i + k) mod n)"
        proof (cases "i < ?k")
          case True
          then have "(i + k) mod n = i + k" using k by simp
          then show ?thesis using zs(3) True by (simp add: ac_simps)
        next
          case False
          then obtain j where j: "i = ?k + j" "j < k" using i k by (metis add_diff_inverse_nat add_less_cancel_left)
          have "(i + k) mod n = j" using j k by (metis add.assoc add.commute mod_add_self1 mod_less trans_less_add2)
          moreover have "zs ! (p + i) = ?ys ! (p + i)" using zs(4) i prems False by auto
          ultimately show ?thesis using ys(2) j by (simp add: add.assoc)
        qed
      next
        fix j assume "j < length xs" "j < p \<or> p + n \<le> j"
        then show "zs ! j = xs ! j" using zs(4) ys(4) k by auto
      qed (use zs in simp)
    qed
  qed
qed

definition rotated :: "nat \<Rightarrow> nat \<Rightarrow> nat \<Rightarrow> 'a list \<Rightarrow> 'a list" where
  "rotated first middle stop xs = take first xs @ range_of middle stop xs @ range_of first middle xs @ drop stop xs"

lemma length_rotated: "first \<le> middle \<Longrightarrow> middle \<le> stop \<Longrightarrow> stop \<le> length xs \<Longrightarrow> length (rotated first middle stop xs) = length xs"
  by (simp add: rotated_def length_range_of)

lemma nth_rotated:
  assumes "first \<le> middle" "middle \<le> stop" "stop \<le> length xs" "j < length xs"
  shows "rotated first middle stop xs ! j =
    (if j < first \<or> stop \<le> j then xs ! j
     else if j < first + (stop - middle) then xs ! (j + (middle - first)) else xs ! (j - (stop - middle)))"
  using assms by (auto simp: rotated_def nth_append length_range_of nth_range_of intro!: arg_cong [where f = "(!) xs"])

lemma rotated_at_rotated:
  assumes "first \<le> middle" "middle \<le> stop" "stop \<le> length xs" "rotated_at first (stop - first) (middle - first) xs ys"
  shows "ys = rotated first middle stop xs"
proof (rule nth_equalityI)
  show len: "length ys = length (rotated first middle stop xs)"
    using assms by (simp add: rotated_at_def length_rotated)
  fix j assume "j < length ys"
  then have j: "j < length xs" using len assms(1-3) by (simp add: length_rotated)
  show "ys ! j = rotated first middle stop xs ! j"
  proof (cases "j < first \<or> stop \<le> j")
    case True
    then show ?thesis using assms j by (auto simp: rotated_at_def nth_rotated)
  next
    case False
    then obtain i where i: "j = first + i" "i < stop - first" by (metis add_diff_inverse_nat diff_less_mono not_le)
    have "ys ! j = xs ! (first + (i + (middle - first)) mod (stop - first))" using assms(4) i by (simp add: rotated_at_def)
    moreover have "(i + (middle - first)) mod (stop - first) =
        (if i < stop - middle then i + (middle - first) else i - (stop - middle))"
    proof (cases "i < stop - middle")
      case True
      then have "i + (middle - first) < stop - first" using assms(1,2) by linarith
      with True show ?thesis by simp
    next
      case False
      then have "i + (middle - first) = (i - (stop - middle)) + (stop - first)" "i - (stop - middle) < stop - first"
        using assms(1,2) i by linarith+
      then have "(i + (middle - first)) mod (stop - first) = i - (stop - middle)" by (simp only: mod_add_self2 mod_less)
      with False show ?thesis by (simp only: if_False)
    qed
    ultimately show ?thesis
      using False j assms(1-3) i by (auto simp: nth_rotated intro!: arg_cong [where f = "(!) xs"])
  qed
qed

lemma swap_halves:
  assumes "0 < k" "first + k + k \<le> length xs"
  shows "rotated_at first (k + k) k xs (swaps_up k first (first + k) xs)"
proof -
  define ys where "ys = swaps_up k first (first + k) xs"
  have s: "length ys = length xs" "\<forall>j < k. ys ! (first + j) = xs ! (first + k + j)"
    "\<forall>i < k. ys ! (first + k + i) = xs ! (first + (k + i) mod k)"
    "\<forall>j < length xs. j < first \<or> first + k + k \<le> j \<longrightarrow> ys ! j = xs ! j"
    using swaps_up_nth [of k first k xs] assms by (simp_all add: ys_def)
  have "ys ! (first + i) = xs ! (first + (i + k) mod (k + k))" if i: "i < k + k" for i
  proof (cases "i < k")
    case True
    then have "(i + k) mod (k + k) = k + i" by simp
    moreover have "ys ! (first + i) = xs ! (first + k + i)" using s(2) True by blast
    ultimately show ?thesis by (simp only: add.assoc)
  next
    case False
    then obtain j where j: "i = k + j" "j < k" using i by (metis add_diff_inverse_nat add_less_cancel_left)
    have "(i + k) mod (k + k) = j"
      using j by (metis add.assoc add.commute mod_add_self1 mod_less trans_less_add2)
    then show ?thesis using s(3) j by (simp add: add.assoc)
  qed
  then show ?thesis using s(1,4) by (simp add: rotated_at_def ys_def [symmetric] add.assoc)
qed

lemma rotate_random_ok:
  assumes "first \<le> middle" "middle \<le> stop" "stop \<le> length xs"
  shows "rotate_random pod first middle stop xs = (first + (stop - middle), rotated first middle stop xs)"
proof -
  have edge: "rotated first first stop xs = xs" "rotated first stop stop xs = xs"
    using range_split [of first stop xs] assms by (simp_all add: rotated_def range_of_def)
  consider (left) "first = middle" | (right) "first \<noteq> middle" "stop = middle"
    | (half) "first < middle" "middle < stop" "middle - first = stop - first - (middle - first)"
    | (loop) "first < middle" "middle < stop" "middle - first \<noteq> stop - first - (middle - first)"
    using assms by linarith
  then show ?thesis
  proof cases
    case left
    then show ?thesis using edge assms by (simp add: rotate_random_def)
  next
    case right
    then show ?thesis using edge assms by (simp add: rotate_random_def)
  next
    case half
    let ?k = "middle - first"
    have k: "0 < ?k" "middle = first + ?k" "stop = first + ?k + ?k" using half by linarith+
    have "rotated_at first (?k + ?k) ?k xs (swaps_up ?k first (first + ?k) xs)"
      using k assms(3) by (intro swap_halves) auto
    moreover have "stop - first = ?k + ?k" using k by simp
    ultimately have "rotated_at first (stop - first) ?k xs (swap_ranges first middle middle xs)"
      using k(2) by (simp add: swap_ranges_def)
    moreover have "middle = first + (stop - middle)" using half by linarith
    ultimately show ?thesis
      using rotated_at_rotated [OF assms] half by (simp add: rotate_random_def Let_def)
  next
    case loop
    then have "rotated_at first (stop - first) (middle - first) xs (rotate_loop pod (stop - first) (middle - first) first xs)"
      using assms(3) by (intro rotate_loop_ok) auto
    then show ?thesis
      using rotated_at_rotated [OF assms] loop by (simp add: rotate_random_def Let_def)
  qed
qed

text \<open>The bidirectional variant: reversing the two parts, then the whole, in two steps.\<close>

lemma swap_ends_ok:
  assumes "first \<le> middle" "middle \<le> stop" "stop \<le> length xs"
  shows "\<exists>d ys. swap_ends first middle stop xs = (first + d, stop - d, ys) \<and> first + d \<le> middle \<and> middle \<le> stop - d \<and>
    d \<le> stop \<and> (first + d = middle \<or> stop - d = middle) \<and> length ys = length xs \<and>
    (\<forall>i < length xs. ys ! i = (if first \<le> i \<and> i < first + d \<or> stop - d \<le> i \<and> i < stop
      then xs ! (first + stop - 1 - i) else xs ! i))"
  using assms
proof (induction first middle stop xs rule: swap_ends.induct)
  case (1 first middle stop xs)
  show ?case
  proof (cases "first < middle \<and> middle < stop")
    case False
    then have "swap_ends first middle stop xs = (first, stop, xs)" by (subst swap_ends.simps) auto
    with False "1.prems" show ?thesis by (intro exI [of _ 0] exI [of _ xs]) auto
  next
    case True
    define zs where "zs = swap_at first (stop - 1) xs"
    have swap: "zs ! j = (if j = first then xs ! (stop - 1) else if j = stop - 1 then xs ! first else xs ! j)" for j
      unfolding zs_def using True "1.prems" by (intro nth_swap_at) auto
    have zlen: "length zs = length xs" by (simp add: zs_def)
    have run: "swap_ends first middle stop xs = swap_ends (first + 1) middle (stop - 1) zs"
      using True by (subst swap_ends.simps) (simp add: Let_def zs_def)
    obtain d ys where d: "swap_ends (first + 1) middle (stop - 1) zs = (first + 1 + d, stop - 1 - d, ys)"
      "first + 1 + d \<le> middle" "middle \<le> stop - 1 - d" "d \<le> stop - 1" "first + 1 + d = middle \<or> stop - 1 - d = middle"
      "length ys = length xs"
      "\<forall>i < length xs. ys ! i = (if first + 1 \<le> i \<and> i < first + 1 + d \<or> stop - 1 - d \<le> i \<and> i < stop - 1
        then zs ! (first + 1 + (stop - 1) - 1 - i) else zs ! i)"
    proof -
      have "first + 1 \<le> middle" "middle \<le> stop - 1" "stop - 1 \<le> length zs" using True "1.prems" zlen by auto
      from "1.IH" [OF True refl, folded zs_def, OF this] that show ?thesis unfolding zlen by blast
    qed
    have "ys ! i = (if first \<le> i \<and> i < first + (d + 1) \<or> stop - (d + 1) \<le> i \<and> i < stop
        then xs ! (first + stop - 1 - i) else xs ! i)" if "i < length xs" for i
    proof -
      consider "i = first" | "i = stop - 1" | "i \<noteq> first" "i \<noteq> stop - 1" by blast
      then show ?thesis
      proof cases
        case 1
        then show ?thesis using d(7) [rule_format, OF that] d(2-4) True by (auto simp: swap)
      next
        case 2
        then show ?thesis using d(7) [rule_format, OF that] d(2-4) True by (auto simp: swap)
      next
        case 3
        then have "(first + 1 \<le> i \<and> i < first + 1 + d \<or> stop - 1 - d \<le> i \<and> i < stop - 1) \<longleftrightarrow>
            (first \<le> i \<and> i < first + (d + 1) \<or> stop - (d + 1) \<le> i \<and> i < stop)" using True by auto
        moreover have "first + 1 + (stop - 1) - 1 - i = first + stop - 1 - i" using True by simp
        moreover have "zs ! (first + stop - 1 - i) = xs ! (first + stop - 1 - i)"
          if "first \<le> i \<and> i < first + (d + 1) \<or> stop - (d + 1) \<le> i \<and> i < stop"
          using 3 that d(2-4) True by (auto simp: swap)
        ultimately show ?thesis using d(7) [rule_format, OF \<open>i < length xs\<close>] 3 by (simp add: swap)
      qed
    qed
    then show ?thesis
      using d True unfolding run by (intro exI [of _ "d + 1"] exI [of _ ys]) auto
  qed
qed

lemma rotate_bidirectional_ok:
  assumes "first \<le> middle" "middle \<le> stop" "stop \<le> length xs"
  shows "rotate_bidirectional first middle stop xs = (first + (stop - middle), rotated first middle stop xs)"
proof -
  have edge: "rotated first first stop xs = xs" "rotated first stop stop xs = xs"
    using range_split [of first stop xs] assms by (simp_all add: rotated_def range_of_def)
  show ?thesis
  proof (cases "first = middle \<or> stop = middle")
    case True
    then show ?thesis using edge assms by (auto simp: rotate_bidirectional_def)
  next
    case False
    define xs1 where "xs1 = reverse_bidirectional first middle xs"
    define xs2 where "xs2 = reverse_bidirectional middle stop xs1"
    have r1: "reversed_at first middle xs xs1" unfolding xs1_def by (rule reverse_bidirectional_ok) (use assms in simp)
    then have l1: "length xs1 = length xs" by (simp add: reversed_at_def)
    have r2: "reversed_at middle stop xs1 xs2" unfolding xs2_def by (rule reverse_bidirectional_ok) (use assms l1 in simp)
    then have l2: "length xs2 = length xs" using l1 by (simp add: reversed_at_def)
    have xs2: "xs2 ! i = (if first \<le> i \<and> i < middle then xs ! (first + middle - 1 - i)
        else if middle \<le> i \<and> i < stop then xs ! (middle + stop - 1 - i) else xs ! i)" if "i < length xs" for i
    proof (cases "middle \<le> i \<and> i < stop")
      case True
      then have "\<not> (first \<le> middle + stop - 1 - i \<and> middle + stop - 1 - i < middle)" "middle + stop - 1 - i < length xs"
        using assms by auto
      then show ?thesis using r1 r2 that True l1 unfolding reversed_at_def by auto
    qed (use r1 r2 that l1 in \<open>auto simp: reversed_at_def\<close>)
    obtain d ys where d: "swap_ends first middle stop xs2 = (first + d, stop - d, ys)" "first + d \<le> middle" "middle \<le> stop - d"
      "d \<le> stop" "first + d = middle \<or> stop - d = middle" "length ys = length xs"
      "\<forall>i < length xs. ys ! i = (if first \<le> i \<and> i < first + d \<or> stop - d \<le> i \<and> i < stop
        then xs2 ! (first + stop - 1 - i) else xs2 ! i)"
      using swap_ends_ok [OF assms(1,2), of xs2] assms(3) l2 by auto
    define zs where "zs = reverse_bidirectional (first + d) (stop - d) ys"
    have run: "rotate_bidirectional first middle stop xs = (first + (stop - middle), zs)"
      using False d(1,5) d(2-4) by (auto simp: rotate_bidirectional_def xs1_def [symmetric] xs2_def [symmetric] zs_def Let_def)
    have r: "reversed_at (first + d) (stop - d) ys zs" unfolding zs_def by (rule reverse_bidirectional_ok) (use d(6) assms in simp)
    have "zs ! i = rotated first middle stop xs ! i" if i: "i < length xs" for i
    proof -
      have "zs ! i = (if first \<le> i \<and> i < stop then xs2 ! (first + stop - 1 - i) else xs2 ! i)"
      proof (cases "first + d \<le> i \<and> i < stop - d")
        case True
        then have "first + d + (stop - d) - 1 - i = first + stop - 1 - i" "first + stop - 1 - i < length xs"
          "\<not> (first \<le> first + stop - 1 - i \<and> first + stop - 1 - i < first + d \<or>
              stop - d \<le> first + stop - 1 - i \<and> first + stop - 1 - i < stop)"
          using d(4) assms(3) by auto
        then show ?thesis using r True d(6,7) i by (auto simp: reversed_at_def)
      next
        case False
        then show ?thesis using r d(2-4,6,7) i by (auto simp: reversed_at_def)
      qed
      also have "\<dots> = rotated first middle stop xs ! i"
      proof (cases "first \<le> i \<and> i < stop")
        case True
        define j where "j = first + stop - 1 - i"
        have j: "j < length xs" "first \<le> j" "j < stop" "j < middle \<longleftrightarrow> \<not> i < first + (stop - middle)"
          using True assms by (auto simp: j_def)
        have "first + middle - 1 - j = i - (stop - middle)" if "j < middle"
          using True assms that by (auto simp: j_def)
        moreover have "middle + stop - 1 - j = i + (middle - first)"
          using True assms by (auto simp: j_def)
        ultimately have "xs2 ! j = rotated first middle stop xs ! i"
          using True i assms j by (cases "j < middle") (simp_all add: xs2 [OF j(1)] nth_rotated not_less)
        then show ?thesis unfolding if_P [OF True] j_def .
      qed (use assms i xs2 [OF i] in \<open>auto simp: nth_rotated\<close>)
      finally show ?thesis .
    qed
    moreover have "length zs = length xs" using r d(6) by (simp add: reversed_at_def)
    ultimately have "zs = rotated first middle stop xs"
      using assms by (intro nth_equalityI) (simp_all add: length_rotated)
    then show ?thesis by (simp add: run)
  qed
qed

lemma reversed_at_rev:
  assumes "reversed_at first stop xs ys" "first \<le> stop" "stop \<le> length xs"
  shows "ys = take first xs @ rev (range_of first stop xs) @ drop stop xs"
proof (rule nth_equalityI)
  show "length ys = length (take first xs @ rev (range_of first stop xs) @ drop stop xs)"
    using assms by (simp add: reversed_at_def length_range_of)
  fix i assume "i < length ys"
  then show "ys ! i = (take first xs @ rev (range_of first stop xs) @ drop stop xs) ! i"
    using assms by (auto simp: reversed_at_def nth_append length_range_of rev_nth nth_range_of intro!: arg_cong [where f = "(!) xs"])
qed

section \<open>Properties\<close>

lemma reverse_range_of_eq:
  assumes "first \<le> stop" "stop \<le> length xs"
  shows "reverse_range_of cat first stop xs = take first xs @ rev (range_of first stop xs) @ drop stop xs"
proof -
  have "reversed_at first stop xs (reverse_random first stop xs)"
    using reverse_loop_ok [of "stop - 1" xs first] reversed_at_short [of stop first xs] assms
    by (cases "first = stop") (auto simp: reverse_random_def)
  from reversed_at_rev [OF this] reversed_at_rev [OF reverse_bidirectional_ok [OF assms(2)], of first]
  show ?thesis using assms by (cases cat) simp_all
qed

text \<open>
  \<open>rotate\<close>, for either category of iterators and whether the elements are plain data or not, exchanges the two parts of the
  range, each in its order, and returns the new place of its first element; \<open>reverse\<close> gives
  the range backwards. What lies outside the range stays.
\<close>

theorem rotate_exchanges:
  assumes "first \<le> middle" "middle \<le> stop" "stop \<le> length xs"
  shows "rotate_range_of cat first middle stop xs = (first + (stop - middle),
      take first xs @ range_of middle stop xs @ range_of first middle xs @ drop stop xs) \<and>
    reverse_range_of cat first stop xs = take first xs @ rev (range_of first stop xs) @ drop stop xs"
  using assms reverse_range_of_eq [of first stop xs cat]
  by (cases cat) (simp_all add: rotate_random_ok rotate_bidirectional_ok rotated_def)

theorem rotate_exchanges_witness:
  "rotate_range_of (Random_access True) 1 4 6 [0, 1, 2, 3, 4, 5, 6 :: nat] = (3, [0, 4, 5, 1, 2, 3, 6])"
  using rotate_exchanges [of 1 4 6 "[0, 1, 2, 3, 4, 5, 6 :: nat]" "Random_access True"] by (simp add: range_of_def)

end
