(* ===== verification/Stl_Stable.thy ===== *)
theory Stl_Stable
  imports Stl_Rotate Stl_Merge Stl_Search
begin

text \<open>
  Merging in place and the stable sort of \<open>kernel/include/bits/stl_algo.h\<close>. The kernel is compiled for a
  freestanding environment, where \<open>_GLIBCXX_HOSTED\<close> is 0 and the algorithms work without a buffer.
\<close>

section \<open>Routines\<close>

partial_function (option) merge_without_buffer ::
    "iterator_category \<Rightarrow> ('a \<Rightarrow> 'a \<Rightarrow> bool) \<Rightarrow> nat \<Rightarrow> nat \<Rightarrow> nat \<Rightarrow> nat \<Rightarrow> nat \<Rightarrow> 'a list \<Rightarrow> 'a list option" where
  "merge_without_buffer cat cmp first middle stop len1 len2 xs =
     (if len1 = 0 \<or> len2 = 0 then Some xs
      else if len1 + len2 = 2 then
        Some (if iter_comp_iter cmp xs middle first then swap_at first middle xs else xs)
      else
        let (first_cut, second_cut, len11, len22) =
              (if len1 > len2 then
                 let len11 = len1 div 2;
                     first_cut = first + len11;
                     second_cut = lower_bound_with (iter_comp_val cmp) middle stop (xs ! first_cut) xs
                 in (first_cut, second_cut, len11, second_cut - middle)
               else
                 let len22 = len2 div 2;
                     second_cut = middle + len22;
                     first_cut = upper_bound_with (val_comp_iter cmp) first middle (xs ! second_cut) xs
                 in (first_cut, second_cut, first_cut - first, len22));
            (new_middle, xs) = rotate_range_of cat first_cut middle second_cut xs
        in do { xs \<leftarrow> merge_without_buffer cat cmp first first_cut new_middle len11 len22 xs;
                merge_without_buffer cat cmp new_middle second_cut stop (len1 - len11) (len2 - len22) xs })"

definition inplace_merge_with ::
    "iterator_category \<Rightarrow> ('a \<Rightarrow> 'a \<Rightarrow> bool) \<Rightarrow> nat \<Rightarrow> nat \<Rightarrow> nat \<Rightarrow> 'a list \<Rightarrow> 'a list option" where
  "inplace_merge_with cat cmp first middle stop xs =
     (if first = middle \<or> middle = stop then Some xs
      else let len1 = middle - first; len2 = stop - middle in
        merge_without_buffer cat cmp first middle stop len1 len2 xs)"

definition inplace_merge ::
    "iterator_category \<Rightarrow> nat \<Rightarrow> nat \<Rightarrow> nat \<Rightarrow> 'a::linorder list \<Rightarrow> 'a list option" where
  "inplace_merge cat first middle stop xs = inplace_merge_with cat (<) first middle stop xs"

definition inplace_merge_comp ::
    "iterator_category \<Rightarrow> ('a \<Rightarrow> 'a \<Rightarrow> bool) \<Rightarrow> nat \<Rightarrow> nat \<Rightarrow> nat \<Rightarrow> 'a list \<Rightarrow> 'a list option" where
  "inplace_merge_comp cat cmp first middle stop xs = inplace_merge_with cat cmp first middle stop xs"

function inplace_stable_sort :: "bool \<Rightarrow> ('a \<Rightarrow> 'a \<Rightarrow> bool) \<Rightarrow> nat \<Rightarrow> nat \<Rightarrow> 'a list \<Rightarrow> 'a list option" where
  "inplace_stable_sort pod cmp first stop xs =
     (if stop - first < 15 then insertion_sort cmp first stop xs
      else
        let middle = first + (stop - first) div 2 in
        do { xs \<leftarrow> inplace_stable_sort pod cmp first middle xs;
             xs \<leftarrow> inplace_stable_sort pod cmp middle stop xs;
             merge_without_buffer (Random_access pod) cmp first middle stop (middle - first) (stop - middle) xs })"
  by pat_completeness auto
termination by (relation "measure (\<lambda>(pod, cmp, first, stop, xs). stop - first)") auto

declare inplace_stable_sort.simps [simp del]

definition stable_sort_with :: "bool \<Rightarrow> ('a \<Rightarrow> 'a \<Rightarrow> bool) \<Rightarrow> nat \<Rightarrow> nat \<Rightarrow> 'a list \<Rightarrow> 'a list option" where
  "stable_sort_with pod cmp first stop xs =
     (if first = stop then Some xs else inplace_stable_sort pod cmp first stop xs)"

definition stable_sort :: "bool \<Rightarrow> nat \<Rightarrow> nat \<Rightarrow> 'a::linorder list \<Rightarrow> 'a list option" where
  "stable_sort pod first stop xs = stable_sort_with pod (<) first stop xs"

definition stable_sort_comp :: "bool \<Rightarrow> ('a \<Rightarrow> 'a \<Rightarrow> bool) \<Rightarrow> nat \<Rightarrow> nat \<Rightarrow> 'a list \<Rightarrow> 'a list option" where
  "stable_sort_comp pod cmp first stop xs = stable_sort_with pod cmp first stop xs"

section \<open>Merging in two parts\<close>

lemma length_merge_with [simp]: "length (merge_with cmp xs ys) = length xs + length ys"
  by (induction xs ys rule: walk_induct) simp_all

lemma mset_merge_with [simp]: "mset (merge_with cmp xs ys) = mset xs + mset ys"
  by (induction xs ys rule: walk_induct) simp_all

lemma merge_right_first:
  "(\<And>x y. x \<in> set xs \<Longrightarrow> y \<in> set zs \<Longrightarrow> cmp y x) \<Longrightarrow> merge_with cmp xs (zs @ ys) = zs @ merge_with cmp xs ys"
  by (induction zs; cases xs) simp_all

lemma merge_left_first:
  "(\<And>x y. x \<in> set zs \<Longrightarrow> y \<in> set ys \<Longrightarrow> \<not> cmp y x) \<Longrightarrow> merge_with cmp (zs @ xs) ys = zs @ merge_with cmp xs ys"
  by (induction zs; cases ys) simp_all

lemma merge_parts:
  assumes "\<And>x y. x \<in> set as \<Longrightarrow> y \<in> set ds \<Longrightarrow> \<not> cmp y x" "\<And>x y. x \<in> set bs \<Longrightarrow> y \<in> set cs \<Longrightarrow> cmp y x"
  shows "merge_with cmp (as @ bs) (cs @ ds) = merge_with cmp as cs @ merge_with cmp bs ds"
  using assms
proof (induction as cs rule: walk_induct)
  case (left cs)
  then show ?case using merge_right_first [of bs cs cmp ds] by (cases cs) simp_all
next
  case (right a as)
  then show ?case using merge_left_first [of "a # as" ds cmp bs] by simp
qed simp_all

lemma rotate_range_of_parts:
  "rotate_range_of cat (length ps) (length ps + length as) (length ps + length as + length bs) (ps @ as @ bs @ ss) =
   (length ps + length bs, ps @ bs @ as @ ss)"
  by (cases cat) (simp_all add: rotate_random_ok rotate_bidirectional_ok rotated_def range_of_def)

text \<open>The two ways to cut, with everything named that is passed on.\<close>

lemma merge_without_buffer_left:
  assumes "0 < len2" "len2 < len1" "len11 = len1 div 2" "first_cut = first + len11"
    "lower_bound_with (iter_comp_val cmp) middle stop (xs ! first_cut) xs = second_cut"
    "rotate_range_of cat first_cut middle second_cut xs = (new_middle, ys)"
    "len22 = second_cut - middle" "len12 = len1 - len11" "len21 = len2 - len22" "stop = stop'"
  shows "merge_without_buffer cat cmp first middle stop len1 len2 xs =
    do { zs \<leftarrow> merge_without_buffer cat cmp first first_cut new_middle len11 len22 ys;
         merge_without_buffer cat cmp new_middle second_cut stop' len12 len21 zs }"
  using assms by (subst merge_without_buffer.simps) (simp add: Let_def)

lemma merge_without_buffer_right:
  assumes "0 < len1" "len1 \<le> len2" "len1 + len2 \<noteq> 2" "len22 = len2 div 2" "second_cut = middle + len22"
    "upper_bound_with (val_comp_iter cmp) first middle (xs ! second_cut) xs = first_cut"
    "rotate_range_of cat first_cut middle second_cut xs = (new_middle, ys)"
    "len11 = first_cut - first" "len12 = len1 - len11" "len21 = len2 - len22" "stop = stop'"
  shows "merge_without_buffer cat cmp first middle stop len1 len2 xs =
    do { zs \<leftarrow> merge_without_buffer cat cmp first first_cut new_middle len11 len22 ys;
         merge_without_buffer cat cmp new_middle second_cut stop' len12 len21 zs }"
  using assms by (subst merge_without_buffer.simps) (simp add: Let_def)

section \<open>Merging without a buffer\<close>

context weak_order
begin

lemma lower_parts:
  assumes "ordered cmp bs" "m = length ps"
  shows "lower_bound_with (iter_comp_val cmp) m (m + length bs) v (ps @ bs @ ss) = m + length (takeWhile (\<lambda>b. cmp b v) bs)"
  using search_ok(1) [of "length ps" "length ps + length bs" "ps @ bs @ ss" v] assms
  by (simp add: range_of_parts lower_bound_comp_def)

lemma upper_parts:
  assumes "ordered cmp bs" "m = length ps"
  shows "upper_bound_with (val_comp_iter cmp) m (m + length bs) v (ps @ bs @ ss) = m + length (takeWhile (\<lambda>b. \<not> cmp v b) bs)"
  using search_ok(2) [of "length ps" "length ps + length bs" "ps @ bs @ ss" v] assms
  by (simp add: range_of_parts upper_bound_comp_def)

lemma ordered_append:
  "ordered cmp (xs @ ys) \<longleftrightarrow> ordered cmp xs \<and> ordered cmp ys \<and> (\<forall>x \<in> set xs. \<forall>y \<in> set ys. \<not> cmp y x)"
  by (auto simp: ordered_def sorted_wrt_append)

text \<open>Where a sorted range is cut by a value.\<close>

lemma cut_below:
  assumes "ordered cmp bs" "b \<in> set (dropWhile (\<lambda>b. cmp b v) bs)"
  shows "\<not> cmp b v"
  using assms
proof (induction bs)
  case (Cons x bs)
  then show ?case
    using below_all [of x bs x b] neg_trans [of b x v] asym by (auto simp: ordered_Cons split: if_splits)
qed simp

lemma cut_above:
  assumes "ordered cmp as" "a \<in> set (dropWhile (\<lambda>a. \<not> cmp v a) as)"
  shows "cmp v a"
  using assms
proof (induction as)
  case (Cons x as)
  then show ?case
    using smaller_all [of x as v a] by (auto simp: ordered_Cons split: if_splits)
qed simp

lemma pivot_left:
  assumes "ordered cmp (as @ v # vs)" "ordered cmp bs"
  defines "cs \<equiv> takeWhile (\<lambda>b. cmp b v) bs" and "ds \<equiv> dropWhile (\<lambda>b. cmp b v) bs"
  shows "merge_with cmp (as @ v # vs) bs = merge_with cmp as cs @ merge_with cmp (v # vs) ds"
proof -
  have "merge_with cmp (as @ v # vs) (cs @ ds) = merge_with cmp as cs @ merge_with cmp (v # vs) ds"
  proof (rule merge_parts)
    fix x y assume "x \<in> set as" "y \<in> set ds"
    then show "\<not> cmp y x"
      using cut_below [OF assms(2), of y v] assms(1) neg_trans [of y v x] by (auto simp: ds_def ordered_append)
  next
    fix x y assume "x \<in> set (v # vs)" "y \<in> set cs"
    then show "cmp y x"
      using assms(1) set_takeWhileD [of y _ bs] smaller_all [of v vs y x] by (auto simp: cs_def ordered_append)
  qed
  then show ?thesis by (simp add: cs_def ds_def)
qed

lemma pivot_right:
  assumes "ordered cmp as" "ordered cmp (cs @ v # vs)"
  defines "bs \<equiv> takeWhile (\<lambda>a. \<not> cmp v a) as" and "ds \<equiv> dropWhile (\<lambda>a. \<not> cmp v a) as"
  shows "merge_with cmp as (cs @ v # vs) = merge_with cmp bs cs @ merge_with cmp ds (v # vs)"
proof -
  have "merge_with cmp (bs @ ds) (cs @ v # vs) = merge_with cmp bs cs @ merge_with cmp ds (v # vs)"
  proof (rule merge_parts)
    fix x y assume "x \<in> set bs" "y \<in> set (v # vs)"
    then show "\<not> cmp y x"
      using assms(2) set_takeWhileD [of x _ as] neg_trans [of y v x] by (auto simp: bs_def ordered_append ordered_Cons)
  next
    fix x y assume "x \<in> set ds" "y \<in> set cs"
    have "cmp v x" using cut_above [OF assms(1)] \<open>x \<in> set ds\<close> unfolding ds_def .
    moreover have "\<not> cmp v y" using assms(2) \<open>y \<in> set cs\<close> by (simp add: ordered_append)
    ultimately show "cmp y x" using neg_trans [of v y x] by blast
  qed
  then show ?thesis by (simp add: bs_def ds_def)
qed

lemma ordered_cut: "ordered cmp bs \<Longrightarrow> ordered cmp (takeWhile P bs) \<and> ordered cmp (dropWhile P bs)"
  using ordered_append [of "takeWhile P bs" "dropWhile P bs"] by simp

text \<open>One step, with the cut on either side: merging the first pieces and then the second ones is what is left.\<close>

lemma merge_step_left:
  assumes "ordered cmp bs" "bs \<noteq> []" "length bs < n1" "n1 = length (as1 @ v # vs)" "length as1 = n1 div 2"
    "m = length ps + length as1"
  defines "bs1 \<equiv> takeWhile (\<lambda>b. cmp b v) bs" and "bs2 \<equiv> dropWhile (\<lambda>b. cmp b v) bs"
  shows "merge_without_buffer cat cmp (length ps) (length ps + n1) (length ps + n1 + length bs) n1 (length bs)
       (ps @ (as1 @ v # vs) @ bs @ ss) =
     do { xs \<leftarrow> merge_without_buffer cat cmp (length ps) m (m + length bs1) (length as1) (length bs1)
            (ps @ as1 @ bs1 @ (v # vs) @ bs2 @ ss);
          merge_without_buffer cat cmp (m + length bs1) (m + length bs1 + length (v # vs))
            (m + length bs1 + length (v # vs) + length bs2) (length (v # vs)) (length bs2) xs }"
proof -
  have bs: "bs = bs1 @ bs2" by (simp add: bs1_def bs2_def)
  have n1: "n1 = length as1 + length (v # vs)" using assms(4) by simp
  have len: "length bs = length bs1 + length bs2" by (simp add: bs)
  have v: "(ps @ (as1 @ v # vs) @ bs @ ss) ! m = v" by (simp add: nth_append assms(6))
  show ?thesis
  proof (rule merge_without_buffer_left)
    show "lower_bound_with (iter_comp_val cmp) (length ps + n1) (length ps + n1 + length bs)
        ((ps @ (as1 @ v # vs) @ bs @ ss) ! m) (ps @ (as1 @ v # vs) @ bs @ ss) = m + length bs1 + length (v # vs)"
      using lower_parts [OF assms(1), of "length ps + n1" "ps @ (as1 @ v # vs)" v ss] n1 assms(6)
      unfolding v by (simp add: bs1_def)
    show "rotate_range_of cat m (length ps + n1) (m + length bs1 + length (v # vs)) (ps @ (as1 @ v # vs) @ bs @ ss) =
        (m + length bs1, ps @ as1 @ bs1 @ (v # vs) @ bs2 @ ss)"
      using rotate_range_of_parts [of cat "ps @ as1" "v # vs" bs1 "bs2 @ ss"] by (simp add: n1 assms(6) bs ac_simps)
    show "length as1 = n1 div 2" by (fact assms(5))
    show "0 < length bs" using assms(2) by simp
  qed (use assms(2,3,6) n1 len in simp_all)
qed

lemma merge_step_right:
  assumes "ordered cmp as" "as \<noteq> []" "length as \<le> n2" "length as + n2 \<noteq> 2" "n2 = length (bs1 @ v # vs)"
    "length bs1 = n2 div 2"
  defines "as1 \<equiv> takeWhile (\<lambda>a. \<not> cmp v a) as" and "as2 \<equiv> dropWhile (\<lambda>a. \<not> cmp v a) as"
  assumes "m = length ps + length as1"
  shows "merge_without_buffer cat cmp (length ps) (length ps + length as) (length ps + length as + n2) (length as) n2
       (ps @ as @ (bs1 @ v # vs) @ ss) =
     do { xs \<leftarrow> merge_without_buffer cat cmp (length ps) m (m + length bs1) (length as1) (length bs1)
            (ps @ as1 @ bs1 @ as2 @ (v # vs) @ ss);
          merge_without_buffer cat cmp (m + length bs1) (m + length bs1 + length as2)
            (m + length bs1 + length as2 + length (v # vs)) (length as2) (length (v # vs)) xs }"
proof -
  have as: "as = as1 @ as2" by (simp add: as1_def as2_def)
  have n2: "n2 = length bs1 + length (v # vs)" using assms(5) by simp
  have len: "length as = length as1 + length as2" by (simp add: as)
  have v: "(ps @ as @ (bs1 @ v # vs) @ ss) ! (m + length bs1 + length as2) = v"
    by (simp add: nth_append assms(9) as)
  show ?thesis
  proof (rule merge_without_buffer_right)
    show "upper_bound_with (val_comp_iter cmp) (length ps) (length ps + length as)
        ((ps @ as @ (bs1 @ v # vs) @ ss) ! (m + length bs1 + length as2)) (ps @ as @ (bs1 @ v # vs) @ ss) = m"
      using upper_parts [OF assms(1), of "length ps" ps v] unfolding v by (simp add: as1_def assms(9))
    show "rotate_range_of cat m (length ps + length as) (m + length bs1 + length as2) (ps @ as @ (bs1 @ v # vs) @ ss) =
        (m + length bs1, ps @ as1 @ bs1 @ as2 @ (v # vs) @ ss)"
      using rotate_range_of_parts [of cat "ps @ as1" as2 bs1 "(v # vs) @ ss"] by (simp add: as assms(9) ac_simps)
    show "length bs1 = n2 div 2" by (fact assms(6))
    show "0 < length as" using assms(2) by simp
  qed (use assms(2-4,9) n2 len in simp_all)
qed

lemma merge_without_buffer_ok:
  assumes "ordered cmp as" "ordered cmp bs"
  shows "merge_without_buffer cat cmp (length ps) (length ps + length as) (length ps + length as + length bs)
     (length as) (length bs) (ps @ as @ bs @ ss) = Some (ps @ merge_with cmp as bs @ ss)"
  using assms
proof (induction "length as + length bs" arbitrary: as bs ps ss rule: less_induct)
  case less
  have pieces: "do { xs \<leftarrow> merge_without_buffer cat cmp (length ps) m (m + length bs1) (length as1) (length bs1)
            (ps @ as1 @ bs1 @ as2 @ bs2 @ ss);
          merge_without_buffer cat cmp (m + length bs1) (m + length bs1 + length as2)
            (m + length bs1 + length as2 + length bs2) (length as2) (length bs2) xs } =
       Some (ps @ (merge_with cmp as1 bs1 @ merge_with cmp as2 bs2) @ ss)"
    if "m = length ps + length as1" "ordered cmp as1" "ordered cmp as2" "ordered cmp bs1" "ordered cmp bs2"
      "length as1 + length bs1 < length as + length bs" "length as2 + length bs2 < length as + length bs"
    for m as1 as2 bs1 bs2
    using less.hyps [OF that(6,2,4), of ps "as2 @ bs2 @ ss"]
      less.hyps [OF that(7,3,5), of "ps @ merge_with cmp as1 bs1" ss] that(1)
    by (simp add: add.assoc)
  consider (none) "as = [] \<or> bs = []" | (two) "as \<noteq> []" "bs \<noteq> []" "length as + length bs = 2"
    | (left) "bs \<noteq> []" "length bs < length as" | (right) "as \<noteq> []" "length as \<le> length bs" "length as + length bs \<noteq> 2"
    by fastforce
  then show ?case
  proof cases
    case none
    then show ?thesis by (subst merge_without_buffer.simps) (cases as; cases bs; simp)
  next
    case two
    then obtain a b where "as = [a]" "bs = [b]" by (cases as; cases bs) auto
    then show ?thesis
      by (subst merge_without_buffer.simps) (simp add: iter_ops swap_at_def nth_append list_update_append)
  next
    case left
    define as1 v vs where "as1 = take (length as div 2) as" and "v = as ! (length as div 2)"
      and "vs = drop (Suc (length as div 2)) as"
    have "length as div 2 < length as" using left by simp
    then have as: "as = as1 @ v # vs" "length as1 = length as div 2"
      unfolding as1_def v_def vs_def by (simp_all add: id_take_nth_drop)
    have "0 < length as1" using left by (cases bs) (auto simp: as(2))
    have o: "ordered cmp as1" "ordered cmp (v # vs)" using less.prems(1) by (auto simp: as(1) ordered_append)
    note cut = ordered_cut [OF less.prems(2), of "\<lambda>b. cmp b v"]
    have "length as1 + length (takeWhile (\<lambda>b. cmp b v) bs) < length as + length bs"
      "length (v # vs) + length (dropWhile (\<lambda>b. cmp b v) bs) < length as + length bs"
      using left \<open>0 < length as1\<close> arg_cong [OF as(1), of length] length_takeWhile_le [of "\<lambda>b. cmp b v" bs]
        length_dropWhile_le [of "\<lambda>b. cmp b v" bs]
      by (auto simp del: length_greater_0_conv)
    from pieces [OF refl o cut [THEN conjunct1] cut [THEN conjunct2] this]
      merge_step_left [OF less.prems(2) left arg_cong [OF as(1), of length] as(2) refl, of cat ps ss]
      pivot_left [OF less.prems(1) [unfolded as(1)] less.prems(2)]
    show ?thesis by (simp only: as(1) [symmetric])
  next
    case right
    define bs1 v vs where "bs1 = take (length bs div 2) bs" and "v = bs ! (length bs div 2)"
      and "vs = drop (Suc (length bs div 2)) bs"
    have "length bs div 2 < length bs" using right by (cases as) auto
    then have bs: "bs = bs1 @ v # vs" "length bs1 = length bs div 2"
      unfolding bs1_def v_def vs_def by (simp_all add: id_take_nth_drop)
    have "0 < length bs1" using right by (cases as) (auto simp: bs(2))
    have o: "ordered cmp bs1" "ordered cmp (v # vs)" using less.prems(2) by (auto simp: bs(1) ordered_append)
    note cut = ordered_cut [OF less.prems(1), of "\<lambda>a. \<not> cmp v a"]
    have "length (takeWhile (\<lambda>a. \<not> cmp v a) as) + length bs1 < length as + length bs"
      "length (dropWhile (\<lambda>a. \<not> cmp v a) as) + length (v # vs) < length as + length bs"
      using right \<open>0 < length bs1\<close> arg_cong [OF bs(1), of length] length_takeWhile_le [of "\<lambda>a. \<not> cmp v a" as]
        length_dropWhile_le [of "\<lambda>a. \<not> cmp v a" as]
      by (auto simp del: length_greater_0_conv)
    from pieces [OF refl cut [THEN conjunct1] cut [THEN conjunct2] o this]
      merge_step_right [OF less.prems(1) right arg_cong [OF bs(1), of length] bs(2) refl, of cat ps ss]
      pivot_right [OF less.prems(1) less.prems(2) [unfolded bs(1)]]
    show ?thesis by (simp only: bs(1) [symmetric])
  qed
qed

section \<open>The stable sort\<close>

text \<open>What the caller is given: the range is a stable rearrangement in order.\<close>

definition stably_sorted :: "nat \<Rightarrow> nat \<Rightarrow> 'a list \<Rightarrow> 'a list \<Rightarrow> bool" where
  "stably_sorted first stop xs ys \<longleftrightarrow> permutes_range first stop xs ys \<and> ordered cmp (range_of first stop ys) \<and>
     (\<forall>u. equivs cmp u ys = equivs cmp u xs)"

lemma stable_step:
  assumes "first \<le> middle" "middle \<le> stop" "stop \<le> length xs"
    "ordered cmp (range_of first middle xs)" "ordered cmp (range_of middle stop xs)"
  shows "\<exists>ys. merge_without_buffer cat cmp first middle stop (middle - first) (stop - middle) xs = Some ys \<and>
    ys = take first xs @ merge_with cmp (range_of first middle xs) (range_of middle stop xs) @ drop stop xs \<and>
    stably_sorted first stop xs ys"
proof -
  define ps as bs ss where "ps = take first xs" and "as = range_of first middle xs"
    and "bs = range_of middle stop xs" and "ss = drop stop xs"
  have xs: "xs = ps @ as @ bs @ ss"
    using range_split [of first middle xs] range_split [of middle stop xs] assms(1-3)
    by (simp add: ps_def as_def bs_def ss_def range_of_def) (metis append_take_drop_id drop_drop le_add_diff_inverse2)
  have len: "first = length ps" "middle = length ps + length as" "stop = length ps + length as + length bs"
    "middle - first = length as" "stop - middle = length bs"
    using assms(1-3) by (simp_all add: ps_def as_def bs_def length_range_of)
  let ?ys = "ps @ merge_with cmp as bs @ ss"
  have run: "merge_without_buffer cat cmp first middle stop (middle - first) (stop - middle) xs = Some ?ys"
    using merge_without_buffer_ok [OF assms(4,5), folded as_def bs_def, of cat ps ss] len xs by simp
  have "permutes_range first stop xs ?ys"
    unfolding permutes_range_def
  proof (intro conjI allI impI)
    fix i assume "i < length xs" "i < first \<or> stop \<le> i"
    then show "?ys ! i = xs ! i" using len(1,3) by (auto simp: xs nth_append add.assoc)
  qed (simp_all add: xs)
  moreover have "range_of first stop ?ys = merge_with cmp as bs" using len(1,3) by (simp add: range_of_def)
  moreover have "equivs cmp u ?ys = equivs cmp u xs" for u
    using merge_ok [OF assms(4,5), folded as_def bs_def, of u] by (simp add: xs equivs_append)
  ultimately have "stably_sorted first stop xs ?ys"
    using merge_ok [OF assms(4,5), folded as_def bs_def] by (simp add: stably_sorted_def)
  with run show ?thesis by (auto simp: ps_def ss_def as_def bs_def)
qed

lemma inplace_stable_sort_ok:
  assumes "first \<le> stop" "stop \<le> length xs"
  shows "\<exists>ys. inplace_stable_sort pod cmp first stop xs = Some ys \<and> stably_sorted first stop xs ys"
  using assms
proof (induction "stop - first" arbitrary: first stop xs rule: less_induct)
  case less
  show ?case
  proof (cases "stop - first < 15")
    case True
    then show ?thesis
      using insertion_sort_ok [OF less.prems] less.prems(2)
      by (subst inplace_stable_sort.simps) (auto simp: stably_sorted_def ordered_in_order permutes_range_def)
  next
    case False
    define middle where "middle = first + (stop - first) div 2"
    have m: "first \<le> middle" "middle \<le> stop" "middle - first < stop - first" "stop - middle < stop - first"
      using False less.prems(1) by (auto simp: middle_def)
    obtain ys where ys: "inplace_stable_sort pod cmp first middle xs = Some ys" "stably_sorted first middle xs ys"
      using less.hyps [OF m(3,1)] m(2) less.prems(2) by (meson order_trans)
    have yl: "length ys = length xs" using ys(2) by (auto simp: stably_sorted_def permutes_range_def)
    obtain zs where zs: "inplace_stable_sort pod cmp middle stop ys = Some zs" "stably_sorted middle stop ys zs"
      using less.hyps [OF m(4,2)] less.prems(2) yl by metis
    have zl: "length zs = length xs" using zs(2) yl by (auto simp: stably_sorted_def permutes_range_def)
    have "take middle zs = take middle ys"
      using permutes_range_split(1) [of middle stop ys zs] zs(2) m(2) less.prems(2) yl by (simp add: stably_sorted_def)
    then have "range_of first middle zs = range_of first middle ys"
      using m(1) by (simp add: range_of_def take_drop)
    then obtain vs where vs: "merge_without_buffer (Random_access pod) cmp first middle stop (middle - first) (stop - middle) zs = Some vs"
      "stably_sorted first stop zs vs"
      using stable_step [OF m(1,2), of zs "Random_access pod"] ys(2) zs(2) less.prems(2) zl by (auto simp: stably_sorted_def)
    have "permutes_range first stop xs ys" "permutes_range first stop ys zs"
      using ys(2) zs(2) m(1,2) by (auto simp: stably_sorted_def intro: permutes_range_mono)
    then have "stably_sorted first stop xs vs"
      using vs(2) ys(2) zs(2) by (auto simp: stably_sorted_def intro: permutes_range_trans)
    moreover have "inplace_stable_sort pod cmp first stop xs = Some vs"
      using False ys(1) zs(1) vs(1) by (subst inplace_stable_sort.simps) (simp add: Let_def middle_def)
    ultimately show ?thesis by blast
  qed
qed

lemma inplace_merge_with_ok:
  assumes "first \<le> middle" "middle \<le> stop" "stop \<le> length xs"
    "ordered cmp (range_of first middle xs)" "ordered cmp (range_of middle stop xs)"
  shows "inplace_merge_with cat cmp first middle stop xs =
    Some (take first xs @ merge_with cmp (range_of first middle xs) (range_of middle stop xs) @ drop stop xs)"
proof -
  have "inplace_merge_with cat cmp first middle stop xs =
      merge_without_buffer cat cmp first middle stop (middle - first) (stop - middle) xs"
    by (auto simp: inplace_merge_with_def merge_without_buffer.simps)
  then show ?thesis using stable_step [OF assms, of cat] by auto
qed

lemma stable_sort_with_ok:
  assumes "first \<le> stop" "stop \<le> length xs"
  shows "\<exists>ys. stable_sort_with pod cmp first stop xs = Some ys \<and> stably_sorted first stop xs ys"
  using inplace_stable_sort_ok [OF assms]
  by (auto simp: stable_sort_with_def inplace_stable_sort.simps [of _ _ stop stop] insertion_sort_def)

end

section \<open>Properties\<close>

text \<open>
  C14: \<open>stable_sort\<close> always returns; for every strict weak ordering the range is then a rearrangement of its
  elements in ascending order, equivalent elements are in the order they had, and what lies outside the
  range is untouched. On a linear order the range is the library's \<open>sort\<close> of it.
\<close>

theorem stable_sort_stable:
  assumes "weak_order cmp" "first \<le> stop" "stop \<le> length xs" "stop \<le> length (ns :: 'b::linorder list)"
  shows "(\<exists>ys. stable_sort_comp pod cmp first stop xs = Some ys \<and> permutes_range first stop xs ys \<and>
      ordered cmp (range_of first stop ys) \<and> (\<forall>u. equivs cmp u ys = equivs cmp u xs)) \<and>
    stable_sort pod first stop ns = Some (take first ns @ sort (range_of first stop ns) @ drop stop ns)"
proof
  show "\<exists>ys. stable_sort_comp pod cmp first stop xs = Some ys \<and> permutes_range first stop xs ys \<and>
      ordered cmp (range_of first stop ys) \<and> (\<forall>u. equivs cmp u ys = equivs cmp u xs)"
    using weak_order.stable_sort_with_ok [OF assms(1-3), of pod]
    by (simp add: stable_sort_comp_def weak_order.stably_sorted_def [OF assms(1)])
  obtain ys where ys: "stable_sort pod first stop ns = Some ys" "permutes_range first stop ns ys"
    "sorted (range_of first stop ys)"
    using less_order.stable_sort_with_ok [OF assms(2,4), of pod]
    by (auto simp: stable_sort_def less_order.stably_sorted_def)
  then have "sort (range_of first stop ns) = range_of first stop ys"
    using permutes_range_split(3) [OF ys(2) assms(2,4)] by (intro properties_for_sort) simp_all
  then show "stable_sort pod first stop ns = Some (take first ns @ sort (range_of first stop ns) @ drop stop ns)"
    using ys(1) range_split [OF assms(2), of ys] permutes_range_split(1,2) [OF ys(2) assms(2,4)] by simp
qed

theorem stable_sort_stable_witness:
  "weak_order (\<lambda>x y :: nat. x div 10 < y div 10) \<and>
   (\<exists>ys. stable_sort_comp True (\<lambda>x y. x div 10 < y div 10) 1 5 [0, 35, 29, 31, 22 :: nat] = Some ys \<and>
     equivs (\<lambda>x y. x div 10 < y div 10) 30 ys = [35, 31]) \<and>
   stable_sort True 2 5 [9, 8, 3, 2, 1, 0 :: nat] = Some [9, 8, 1, 2, 3, 0]"
proof -
  have w: "weak_order (\<lambda>x y :: nat. x div 10 < y div 10)" by unfold_locales auto
  note run = stable_sort_stable [OF w, where xs = "[0, 35, 29, 31, 22]" and ns = "[9, 8, 3, 2, 1, 0 :: nat]" and pod = True]
  obtain ys where ys: "stable_sort_comp True (\<lambda>x y. x div 10 < y div 10) 1 5 [0, 35, 29, 31, 22 :: nat] = Some ys"
    "equivs (\<lambda>x y. x div 10 < y div 10) 30 ys = equivs (\<lambda>x y. x div 10 < y div 10) 30 [0, 35, 29, 31, 22]"
    using run [of 1 5] by auto
  moreover have "equivs (\<lambda>x y. x div 10 < y div 10) 30 [0, 35, 29, 31, 22 :: nat] = [35, 31]" by code_simp
  moreover have "stable_sort True 2 5 [9, 8, 3, 2, 1, 0 :: nat] = Some [9, 8, 1, 2, 3, 0]"
    using run [of 2 5] by (simp add: range_of_def)
  ultimately show ?thesis using w by simp
qed

text \<open>
  merging in place two consecutive ordered ranges, for either category of iterators, returns and gives what \<open>merge\<close>
  of the two into a new place gives: the rotations and the recursion refine the plain merge.
\<close>

theorem inplace_merge_merges:
  assumes "weak_order cmp" "first \<le> middle" "middle \<le> stop" "stop \<le> length xs"
    "ordered cmp (range_of first middle xs)" "ordered cmp (range_of middle stop xs)"
  shows "inplace_merge_comp cat cmp first middle stop xs =
      Some (take first xs @ merge_comp cmp (range_of first middle xs) (range_of middle stop xs) @ drop stop xs)"
  using weak_order.inplace_merge_with_ok [OF assms] by (simp add: inplace_merge_comp_def merge_comp_def)

theorem inplace_merge_merges_witness:
  "inplace_merge_comp Bidirectional (<) 1 4 7 [9, 1, 4, 6, 2, 4, 5, 0 :: nat] = Some [9, 1, 2, 4, 4, 5, 6, 0]"
  using inplace_merge_merges [OF less_order.weak_order_axioms, of 1 4 7 "[9, 1, 4, 6, 2, 4, 5, 0 :: nat]" Bidirectional]
  by (simp add: range_of_def merge_comp_def)

end
