(* ===== verification/Stl_Permutation.thy ===== *)
theory Stl_Permutation
  imports "HOL-Library.Word" Stl_Rotate
begin

text \<open>
  Lexicographic comparison (\<open>kernel/include/bits/stl_algobase.h\<close>) and the generation of permutations
  (\<open>kernel/include/bits/stl_algo.h\<close>). The scans of the latter step down without a bound of their own: they are \<open>None\<close>
  where they would step below the beginning of the objects.
\<close>

section \<open>Lexicographic comparison\<close>

text \<open>For random access iterators the end of the first range is moved first, so that one test ends the loop.\<close>

definition lc_newlast1 :: "bool \<Rightarrow> 'a list \<Rightarrow> 'a list \<Rightarrow> 'a list" where
  "lc_newlast1 rai xs ys = (if rai \<and> length ys < length xs then take (length ys) xs else xs)"

fun lc_loop :: "('a \<Rightarrow> 'a \<Rightarrow> bool) \<Rightarrow> 'a list \<Rightarrow> 'a list \<Rightarrow> bool" where
  "lc_loop cmp (x # xs) (y # ys) = (if cmp x y then True else if cmp y x then False else lc_loop cmp xs ys)"
| "lc_loop cmp xs ys \<longleftrightarrow> xs = [] \<and> ys \<noteq> []"

definition lexicographical_compare_with :: "bool \<Rightarrow> ('a \<Rightarrow> 'a \<Rightarrow> bool) \<Rightarrow> 'a list \<Rightarrow> 'a list \<Rightarrow> bool" where
  "lexicographical_compare_with rai cmp xs ys = (let xs = lc_newlast1 rai xs ys in lc_loop cmp xs ys)"

definition lexicographical_compare :: "bool \<Rightarrow> 'a::linorder list \<Rightarrow> 'a list \<Rightarrow> bool" where
  "lexicographical_compare rai xs ys = lexicographical_compare_with rai (<) xs ys"

definition lexicographical_compare_comp :: "bool \<Rightarrow> ('a \<Rightarrow> 'a \<Rightarrow> bool) \<Rightarrow> 'a list \<Rightarrow> 'a list \<Rightarrow> bool" where
  "lexicographical_compare_comp rai cmp xs ys = lexicographical_compare_with rai cmp xs ys"

text \<open>The three-way comparison of the same ranges, as an \<open>int\<close>.\<close>

fun lc_3way :: "'a::linorder list \<Rightarrow> 'a list \<Rightarrow> int" where
  "lc_3way (x # xs) (y # ys) = (if x < y then - 1 else if y < x then 1 else lc_3way xs ys)"
| "lc_3way (x # xs) [] = 1"
| "lc_3way [] ys = of_bool (ys = []) - 1"

text \<open>
  Arrays of bytes are compared by \<open>__memcmp\<close>, which loops in a constant expression and otherwise is the compiler's
  \<open>__builtin_memcmp\<close>, a parameter here. The difference of the lengths is taken in \<open>size_t\<close> and read back as
  \<open>ptrdiff_t\<close>.\<close>

fun memcmp_loop :: "8 word list \<Rightarrow> 8 word list \<Rightarrow> nat \<Rightarrow> int" where
  "memcmp_loop (x # xs) (y # ys) (Suc n) = (if x \<noteq> y then (if x < y then - 1 else 1) else memcmp_loop xs ys n)"
| "memcmp_loop xs ys n = 0"

definition memcmp_bytes ::
    "(8 word list \<Rightarrow> 8 word list \<Rightarrow> nat \<Rightarrow> int) \<Rightarrow> bool \<Rightarrow> 8 word list \<Rightarrow> 8 word list \<Rightarrow> nat \<Rightarrow> int" where
  "memcmp_bytes builtin const_eval xs ys n = (if const_eval then memcmp_loop xs ys n else builtin xs ys n)"

definition lc_3way_bytes ::
    "(8 word list \<Rightarrow> 8 word list \<Rightarrow> nat \<Rightarrow> int) \<Rightarrow> bool \<Rightarrow> 8 word list \<Rightarrow> 8 word list \<Rightarrow> int" where
  "lc_3way_bytes builtin const_eval xs ys =
     (let len1 = of_nat (length xs) :: 64 word;
          len2 = of_nat (length ys);
          len = min len1 len2;
          result = memcmp_bytes builtin const_eval xs ys (unat len)
      in if len \<noteq> 0 \<and> result \<noteq> 0 then result else sint (len1 - len2))"

definition lexicographical_compare_bytes ::
    "(8 word list \<Rightarrow> 8 word list \<Rightarrow> nat \<Rightarrow> int) \<Rightarrow> bool \<Rightarrow> 8 word list \<Rightarrow> 8 word list \<Rightarrow> bool" where
  "lexicographical_compare_bytes builtin const_eval xs ys \<longleftrightarrow> lc_3way_bytes builtin const_eval xs ys < 0"

section \<open>Permutations\<close>

text \<open>The scan \<open>while (!__comp(__i, --__j))\<close>.\<close>

fun permutation_scan :: "('a \<Rightarrow> 'a \<Rightarrow> bool) \<Rightarrow> nat \<Rightarrow> nat \<Rightarrow> 'a list \<Rightarrow> nat option" where
  "permutation_scan cmp i 0 xs = None"
| "permutation_scan cmp i (Suc j) xs = (if iter_comp_iter cmp xs i j then Some j else permutation_scan cmp i j xs)"

text \<open>The endless loop, with \<open>__ii\<close> the position above \<open>__i\<close>.\<close>

fun next_permutation_loop ::
    "iterator_category \<Rightarrow> ('a \<Rightarrow> 'a \<Rightarrow> bool) \<Rightarrow> nat \<Rightarrow> nat \<Rightarrow> nat \<Rightarrow> 'a list \<Rightarrow> (bool \<times> 'a list) option" where
  "next_permutation_loop cat cmp first stop 0 xs = None"
| "next_permutation_loop cat cmp first stop (Suc i) xs =
     (let ii = Suc i in
      if iter_comp_iter cmp xs i ii then
        do { j \<leftarrow> permutation_scan cmp i stop xs;
             let xs = swap_at i j xs;
             Some (True, reverse_range_of cat ii stop xs) }
      else if i = first then Some (False, reverse_range_of cat first stop xs)
      else next_permutation_loop cat cmp first stop i xs)"

definition next_permutation_with ::
    "iterator_category \<Rightarrow> ('a \<Rightarrow> 'a \<Rightarrow> bool) \<Rightarrow> nat \<Rightarrow> nat \<Rightarrow> 'a list \<Rightarrow> (bool \<times> 'a list) option" where
  "next_permutation_with cat cmp first stop xs =
     (if first = stop then Some (False, xs)
      else let i = first + 1 in
        if i = stop then Some (False, xs)
        else let i = stop - 1 in next_permutation_loop cat cmp first stop i xs)"

definition next_permutation ::
    "iterator_category \<Rightarrow> nat \<Rightarrow> nat \<Rightarrow> 'a::linorder list \<Rightarrow> (bool \<times> 'a list) option" where
  "next_permutation cat first stop xs = next_permutation_with cat (<) first stop xs"

definition next_permutation_comp ::
    "iterator_category \<Rightarrow> ('a \<Rightarrow> 'a \<Rightarrow> bool) \<Rightarrow> nat \<Rightarrow> nat \<Rightarrow> 'a list \<Rightarrow> (bool \<times> 'a list) option" where
  "next_permutation_comp cat cmp first stop xs = next_permutation_with cat cmp first stop xs"

text \<open>The scan \<open>while (!__comp(--__j, __i))\<close>.\<close>

fun prev_permutation_scan :: "('a \<Rightarrow> 'a \<Rightarrow> bool) \<Rightarrow> nat \<Rightarrow> nat \<Rightarrow> 'a list \<Rightarrow> nat option" where
  "prev_permutation_scan cmp i 0 xs = None"
| "prev_permutation_scan cmp i (Suc j) xs =
     (if iter_comp_iter cmp xs j i then Some j else prev_permutation_scan cmp i j xs)"

fun prev_permutation_loop ::
    "iterator_category \<Rightarrow> ('a \<Rightarrow> 'a \<Rightarrow> bool) \<Rightarrow> nat \<Rightarrow> nat \<Rightarrow> nat \<Rightarrow> 'a list \<Rightarrow> (bool \<times> 'a list) option" where
  "prev_permutation_loop cat cmp first stop 0 xs = None"
| "prev_permutation_loop cat cmp first stop (Suc i) xs =
     (let ii = Suc i in
      if iter_comp_iter cmp xs ii i then
        do { j \<leftarrow> prev_permutation_scan cmp i stop xs;
             let xs = swap_at i j xs;
             Some (True, reverse_range_of cat ii stop xs) }
      else if i = first then Some (False, reverse_range_of cat first stop xs)
      else prev_permutation_loop cat cmp first stop i xs)"

definition prev_permutation_with ::
    "iterator_category \<Rightarrow> ('a \<Rightarrow> 'a \<Rightarrow> bool) \<Rightarrow> nat \<Rightarrow> nat \<Rightarrow> 'a list \<Rightarrow> (bool \<times> 'a list) option" where
  "prev_permutation_with cat cmp first stop xs =
     (if first = stop then Some (False, xs)
      else let i = first + 1 in
        if i = stop then Some (False, xs)
        else let i = stop - 1 in prev_permutation_loop cat cmp first stop i xs)"

definition prev_permutation ::
    "iterator_category \<Rightarrow> nat \<Rightarrow> nat \<Rightarrow> 'a::linorder list \<Rightarrow> (bool \<times> 'a list) option" where
  "prev_permutation cat first stop xs = prev_permutation_with cat (<) first stop xs"

definition prev_permutation_comp ::
    "iterator_category \<Rightarrow> ('a \<Rightarrow> 'a \<Rightarrow> bool) \<Rightarrow> nat \<Rightarrow> nat \<Rightarrow> 'a list \<Rightarrow> (bool \<times> 'a list) option" where
  "prev_permutation_comp cat cmp first stop xs = prev_permutation_with cat cmp first stop xs"

section \<open>The comparisons agree\<close>

lemma lc_loop_take: "lc_loop cmp (take (length ys) xs) ys = lc_loop cmp xs ys"
  by (induction cmp xs ys rule: lc_loop.induct) auto

lemma lc_newlast1_loop: "lc_loop (<) (lc_newlast1 rai xs ys) ys = lc_loop (<) xs (ys :: 'a::linorder list)"
proof (cases "rai \<and> length ys < length xs")
  case True
  have "lc_loop (<) (take (length ys) xs) ys = lc_loop (<) xs ys"
    by (rule lc_loop_take)
  then show ?thesis using True by (simp add: lc_newlast1_def)
qed (auto simp: lc_newlast1_def)

lemma lc_3way_loop: "lc_3way xs ys < 0 \<longleftrightarrow> lc_loop (<) xs ys"
  by (induction xs ys rule: lc_3way.induct) (auto simp: neq_Nil_conv)

lemma memcmp_loop_3way:
  "sgn (lc_3way xs ys) = (let r = memcmp_loop xs ys (min (length xs) (length ys))
     in if r \<noteq> 0 then sgn r else sgn (int (length xs) - int (length ys)))"
  by (induction xs ys rule: lc_3way.induct) (auto simp: Let_def neq_iff)

lemma memcmp_loop_nonzero: "memcmp_loop xs ys n \<noteq> 0 \<Longrightarrow> n \<noteq> 0"
  by (cases n) auto

lemma size_difference:
  assumes "m < 2 ^ 63" "n < 2 ^ 63"
  shows "sint (of_nat m - of_nat n :: 64 word) = int m - int n" "unat (min (of_nat m) (of_nat n) :: 64 word) = min m n"
    "min (of_nat m) (of_nat n) = (0 :: 64 word) \<longleftrightarrow> min m n = 0"
proof -
  have "sint (of_int (int m - int n) :: 64 word) = int m - int n"
    using assms by (simp only: int_word_sint) simp
  then show "sint (of_nat m - of_nat n :: 64 word) = int m - int n" by simp
  have u: "unat (of_nat m :: 64 word) = m" "unat (of_nat n :: 64 word) = n"
    using assms by (simp_all add: unat_of_nat)
  then show "unat (min (of_nat m) (of_nat n) :: 64 word) = min m n"
    by (simp add: min_def word_le_nat_alt)
  then show "min (of_nat m) (of_nat n) = (0 :: 64 word) \<longleftrightarrow> min m n = 0"
    by (metis unat_eq_zero)
qed

text \<open>C31: the ways to compare two arrays of bytes agree: with \<open>__memcmp\<close>, as a loop or as a builtin that gives the sign
  it is documented to give, with \<open>lexicographical_compare\<close> for either kind of iterator, and with its three-way
  comparison, for all arrays that fit into half of the address space.\<close>

theorem byte_comparisons_agree:
  assumes "\<And>us vs n. sgn (builtin us vs n) = sgn (memcmp_loop us vs n)" "length xs < 2 ^ 63" "length ys < 2 ^ 63"
  shows "lexicographical_compare_bytes builtin const_eval xs ys = lexicographical_compare rai xs ys \<and>
    sgn (lc_3way_bytes builtin const_eval xs ys) = sgn (lc_3way xs ys) \<and>
    (lc_3way xs ys < 0 \<longleftrightarrow> lexicographical_compare rai xs ys)"
proof -
  have m: "sgn (memcmp_bytes builtin const_eval us vs n) = sgn (memcmp_loop us vs n)" for us vs n
    using assms(1) by (simp add: memcmp_bytes_def)
  then have z: "memcmp_bytes builtin const_eval us vs n = 0 \<longleftrightarrow> memcmp_loop us vs n = 0" for us vs n
    by (metis sgn_eq_0_iff)
  have s: "sgn (lc_3way_bytes builtin const_eval xs ys) = sgn (lc_3way xs ys)"
    using memcmp_loop_nonzero [of xs ys "min (length xs) (length ys)"] size_difference [OF assms(2,3)]
    by (auto simp: lc_3way_bytes_def memcmp_loop_3way Let_def m z)
  moreover have "lc_3way xs ys < 0 \<longleftrightarrow> lexicographical_compare rai xs ys"
    by (simp add: lc_3way_loop lexicographical_compare_def lexicographical_compare_with_def lc_newlast1_loop)
  moreover have "lexicographical_compare_bytes builtin const_eval xs ys \<longleftrightarrow> lc_3way xs ys < 0"
    unfolding lexicographical_compare_bytes_def using s by (metis sgn_less)
  ultimately show ?thesis by blast
qed

theorem byte_comparisons_agree_witness:
  "lexicographical_compare_bytes memcmp_loop False [1, 200] [1, 200, 0] \<and>
   lexicographical_compare True [1, 200] [1, 200, 0 :: 8 word]"
proof -
  have "lexicographical_compare True [1, 200] [1, 200, 0 :: 8 word]" by code_simp
  with byte_comparisons_agree [of memcmp_loop "[1, 200]" "[1, 200, 0]" False True] show ?thesis by simp
qed

section \<open>Lists with the same classes\<close>

text \<open>Up to equivalence the second list is a permutation of the first.\<close>

definition same_classes :: "('a \<Rightarrow> 'a \<Rightarrow> bool) \<Rightarrow> 'a list \<Rightarrow> 'a list \<Rightarrow> bool" where
  "same_classes cmp xs ys \<longleftrightarrow> (\<forall>v. length (equivs cmp v xs) = length (equivs cmp v ys))"

lemma same_classes_mset: "mset xs = mset ys \<Longrightarrow> same_classes cmp xs ys"
  unfolding same_classes_def equivs_def by (metis mset_filter size_mset)

lemma same_classes_rev [simp]: "same_classes cmp (rev xs) ys = same_classes cmp xs ys"
  by (simp add: same_classes_def equivs_def rev_filter [symmetric])

context weak_order
begin

lemma same_classes_member:
  assumes "same_classes cmp xs ys" "y \<in> set ys"
  shows "\<exists>x \<in> set xs. \<not> cmp x y \<and> \<not> cmp y x"
proof -
  have "y \<in> set (equivs cmp y ys)" using assms(2) by (simp add: equivs_def)
  then have "0 < length (equivs cmp y xs)" using assms(1) by (auto simp: same_classes_def dest: length_pos_if_in_set)
  then show ?thesis by (auto simp: equivs_def filter_empty_conv)
qed

lemma same_classes_Nil: "same_classes cmp [] ys \<longleftrightarrow> ys = []"
  using same_classes_member [of "[]" ys] by (cases ys) (auto simp: same_classes_def)

lemma same_classes_Cons:
  assumes "\<not> cmp x y" "\<not> cmp y x"
  shows "same_classes cmp (x # xs) (y # ys) \<longleftrightarrow> same_classes cmp xs ys"
  using same_class [OF assms] by (auto simp: same_classes_def equivs_Cons)

definition descending :: "'a list \<Rightarrow> bool" where
  "descending xs \<longleftrightarrow> sorted_wrt (\<lambda>x y. \<not> cmp x y) xs"

lemma descending_Cons: "descending (x # xs) \<longleftrightarrow> (\<forall>y \<in> set xs. \<not> cmp x y) \<and> descending xs"
  by (simp add: descending_def)

lemma descending_append:
  "descending (xs @ ys) \<longleftrightarrow> descending xs \<and> descending ys \<and> (\<forall>x \<in> set xs. \<forall>y \<in> set ys. \<not> cmp x y)"
  by (auto simp: descending_def sorted_wrt_append)

text \<open>A descending list is the largest and an ascending one the smallest of those with its classes.\<close>

lemma descending_largest: "descending xs \<Longrightarrow> same_classes cmp xs ys \<Longrightarrow> \<not> lc_loop cmp xs ys"
proof (induction xs arbitrary: ys)
  case Nil
  then show ?case by (simp add: same_classes_Nil)
next
  case (Cons x xs)
  show ?case
  proof (cases ys)
    case (Cons y ys')
    then have "\<not> cmp x y"
      using same_classes_member [OF Cons.prems(2), of y] Cons.prems(1) neg_trans [of x _ y] by (auto simp: descending_Cons)
    moreover have "\<not> lc_loop cmp xs ys'" if "\<not> cmp y x"
      using Cons.IH [of ys'] Cons.prems \<open>\<not> cmp x y\<close> that by (simp add: Cons same_classes_Cons descending_Cons)
    ultimately show ?thesis by (simp add: Cons)
  qed simp
qed

lemma ascending_smallest: "ordered cmp xs \<Longrightarrow> same_classes cmp xs ys \<Longrightarrow> \<not> lc_loop cmp ys xs"
proof (induction xs arbitrary: ys)
  case (Cons x xs)
  show ?case
  proof (cases ys)
    case Nil
    then show ?thesis using Cons.prems(2) by (auto simp: same_classes_def equivs_Cons dest: spec [of _ x])
  next
    case (Cons y ys')
    then have "\<not> cmp y x"
      using same_classes_member [OF Cons.prems(2), of y] Cons.prems(1) neg_trans [of y _ x] by (auto simp: ordered_def)
    moreover have "\<not> lc_loop cmp ys' xs" if "\<not> cmp x y"
      using Cons.IH [of ys'] Cons.prems \<open>\<not> cmp y x\<close> that by (simp add: Cons same_classes_Cons ordered_def)
    ultimately show ?thesis by (simp add: Cons)
  qed
qed (simp add: same_classes_Nil)

text \<open>What lies between two lists with a common beginning begins like them.\<close>

lemma lc_between:
  assumes "lc_loop cmp (p @ xs) zs" "lc_loop cmp zs (p @ ys)" "length xs = length ys" "length zs = length (p @ xs)"
  shows "\<exists>q ws. zs = q @ ws \<and> length ws = length xs \<and> lc_loop cmp xs ws \<and> lc_loop cmp ws ys \<and>
    (\<forall>us vs. same_classes cmp (p @ us) (q @ vs) \<longleftrightarrow> same_classes cmp us vs)"
  using assms
proof (induction p arbitrary: zs)
  case Nil
  then show ?case by (intro exI [of _ "[]"] exI [of _ zs]) simp
next
  case (Cons a p)
  obtain z zs' where z: "zs = z # zs'" using Cons.prems(4) by (cases zs) auto
  have e: "\<not> cmp a z" "\<not> cmp z a" "lc_loop cmp (p @ xs) zs'" "lc_loop cmp zs' (p @ ys)"
    using Cons.prems(1,2) asym by (auto simp: z split: if_splits)
  obtain q ws where "zs' = q @ ws" "length ws = length xs" "lc_loop cmp xs ws" "lc_loop cmp ws ys"
    "\<forall>us vs. same_classes cmp (p @ us) (q @ vs) \<longleftrightarrow> same_classes cmp us vs"
    using Cons.IH [OF e(3,4)] Cons.prems(3,4) z by auto
  then show ?case
    by (intro exI [of _ "z # q"] exI [of _ ws]) (simp add: z same_classes_Cons [OF e(1,2)])
qed

section \<open>The next permutation\<close>

text \<open>What one call does to the list of a range: the answer and the list afterwards.\<close>

definition next_step :: "'a list \<Rightarrow> bool \<Rightarrow> 'a list \<Rightarrow> bool" where
  "next_step xs b ys \<longleftrightarrow>
     (if b then \<exists>p x s1 y s2. xs = p @ x # s1 @ y # s2 \<and> ys = p @ y # rev (s1 @ x # s2) \<and> cmp x y \<and>
         (\<forall>z \<in> set s2. \<not> cmp x z) \<and> descending (s1 @ y # s2)
      else descending xs \<and> ys = rev xs)"

lemma lc_loop_prefix: "lc_loop cmp (p @ xs) (p @ ys) = lc_loop cmp xs ys"
  by (induction p) simp_all

lemma ordered_rev: "ordered cmp (rev xs) \<longleftrightarrow> descending xs"
  by (simp add: ordered_def descending_def sorted_wrt_rev)

lemma next_step_mset: "next_step xs b ys \<Longrightarrow> mset ys = mset xs"
  by (auto simp: next_step_def split: if_splits)

lemma next_step_less: "next_step xs True ys \<Longrightarrow> lc_loop cmp xs ys"
  by (auto simp: next_step_def lc_loop_prefix)

lemma next_step_last:
  "next_step xs False ys \<Longrightarrow> same_classes cmp xs zs \<Longrightarrow> \<not> lc_loop cmp xs zs \<and> \<not> lc_loop cmp zs ys"
  using descending_largest [of xs zs] ascending_smallest [of "rev xs" zs] by (simp add: next_step_def ordered_rev)

lemma next_step_between:
  assumes "next_step xs True ys" "same_classes cmp xs zs" "length zs = length xs"
  shows "\<not> (lc_loop cmp xs zs \<and> lc_loop cmp zs ys)"
proof
  assume lc: "lc_loop cmp xs zs \<and> lc_loop cmp zs ys"
  obtain p x s1 y s2 where step: "xs = p @ x # s1 @ y # s2" "ys = p @ y # rev (s1 @ x # s2)" "cmp x y"
    "\<forall>z \<in> set s2. \<not> cmp x z" "descending (s1 @ y # s2)" using assms(1) by (auto simp: next_step_def)
  obtain q ws where q: "zs = q @ ws" "length ws = length (x # s1 @ y # s2)" "lc_loop cmp (x # s1 @ y # s2) ws"
    "lc_loop cmp ws (y # rev (s1 @ x # s2))" "same_classes cmp (x # s1 @ y # s2) ws"
    using lc_between [of p "x # s1 @ y # s2" zs "y # rev (s1 @ x # s2)"] lc assms(2,3) step(1,2) by auto
  obtain b ws' where b: "ws = b # ws'" using q(2) by (cases ws) auto
  have bounds: "\<not> cmp b x" "\<not> cmp y b" using q(3,4) asym by (auto simp: b split: if_splits)
  show False
  proof (cases "cmp x b")
    case False
    then have "lc_loop cmp (s1 @ y # s2) ws'" "same_classes cmp (s1 @ y # s2) ws'"
      using q(3,5) bounds(1) by (simp_all add: b same_classes_Cons)
    then show False using descending_largest [OF step(5)] by blast
  next
    case True
    obtain z where z: "z \<in> set (x # s1 @ y # s2)" "\<not> cmp z b" "\<not> cmp b z"
      using same_classes_member [OF q(5), of b] b by auto
    have "z \<noteq> x" using True z(2) by blast
    moreover have "z \<notin> set s2" using True z(2) step(4) neg_trans [of x z b] by blast
    ultimately have "\<not> cmp z y" using z(1) step(5) by (auto simp: descending_append descending_Cons)
    then have "\<not> cmp b y" using neg_trans [of b z y] z(3) by blast
    then have "lc_loop cmp ws' (rev (s1 @ x # s2))"
      using q(4) bounds(2) by (simp add: b)
    moreover have "same_classes cmp (y # s1 @ x # s2) ws"
      using q(5) same_classes_mset [of "y # s1 @ x # s2" "x # s1 @ y # s2" cmp] by (simp add: same_classes_def)
    then have "same_classes cmp (rev (s1 @ x # s2)) ws'"
      using \<open>\<not> cmp b y\<close> bounds(2) by (simp add: b same_classes_Cons del: rev_append)
    moreover have "\<not> cmp s x" if "s \<in> set s1" for s
      using that step(3,5) neg_trans [of s y x] asym by (auto simp: descending_append)
    then have "descending (s1 @ x # s2)"
      using step(4,5) by (auto simp: descending_append descending_Cons)
    then have "ordered cmp (rev (s1 @ x # s2))" by (simp only: ordered_rev)
    ultimately show False using ascending_smallest by blast
  qed
qed

end

section \<open>The loops\<close>

lemma permutation_scan_Some:
  "permutation_scan cmp i n xs = Some j \<longleftrightarrow>
   j < n \<and> cmp (xs ! i) (xs ! j) \<and> (\<forall>k. j < k \<and> k < n \<longrightarrow> \<not> cmp (xs ! i) (xs ! k))"
proof (induction n)
  case (Suc n)
  then show ?case by (auto simp: iter_ops less_Suc_eq)
qed simp

lemma permutation_scan_finds: "k < n \<Longrightarrow> cmp (xs ! i) (xs ! k) \<Longrightarrow> \<exists>j. permutation_scan cmp i n xs = Some j"
  by (induction n) (auto simp: iter_ops less_Suc_eq)

text \<open>From position \<open>i\<close> on the range is descending when the loop looks at \<open>i\<close>.\<close>

lemma next_permutation_loop_cases:
  assumes "first < i" "i < stop" "\<forall>k. i \<le> k \<and> k + 1 < stop \<longrightarrow> \<not> cmp (xs ! k) (xs ! (k + 1))"
  shows "(\<exists>k j. first \<le> k \<and> k < j \<and> j < stop \<and> cmp (xs ! k) (xs ! j) \<and> (\<forall>l. j < l \<and> l < stop \<longrightarrow> \<not> cmp (xs ! k) (xs ! l)) \<and>
      (\<forall>l. k < l \<and> l + 1 < stop \<longrightarrow> \<not> cmp (xs ! l) (xs ! (l + 1))) \<and>
      next_permutation_loop cat cmp first stop i xs = Some (True, reverse_range_of cat (k + 1) stop (swap_at k j xs))) \<or>
    (\<forall>l. first \<le> l \<and> l + 1 < stop \<longrightarrow> \<not> cmp (xs ! l) (xs ! (l + 1))) \<and>
      next_permutation_loop cat cmp first stop i xs = Some (False, reverse_range_of cat first stop xs)"
  using assms
proof (induction i)
  case (Suc i)
  show ?case
  proof (cases "cmp (xs ! i) (xs ! Suc i)")
    case True
    obtain j where j: "permutation_scan cmp i stop xs = Some j"
      using permutation_scan_finds [of "Suc i" stop] True Suc.prems(2) by blast
    then have "j < stop" "cmp (xs ! i) (xs ! j)" "\<forall>l. j < l \<and> l < stop \<longrightarrow> \<not> cmp (xs ! i) (xs ! l)"
      by (simp_all add: permutation_scan_Some)
    moreover have "i < j" using calculation True Suc.prems(2) by (metis Suc_lessI linorder_neqE_nat not_less_eq)
    moreover have "next_permutation_loop cat cmp first stop (Suc i) xs = Some (True, reverse_range_of cat (i + 1) stop (swap_at i j xs))"
      using True j by (simp add: iter_ops Let_def)
    ultimately show ?thesis using Suc.prems by (intro disjI1 exI [of _ i] exI [of _ j]) auto
  next
    case False
    then have desc: "\<forall>k. i \<le> k \<and> k + 1 < stop \<longrightarrow> \<not> cmp (xs ! k) (xs ! (k + 1))"
      using Suc.prems(3) by (metis Suc_eq_plus1 le_antisym not_less_eq_eq)
    show ?thesis
    proof (cases "i = first")
      case True
      then show ?thesis using False desc by (simp add: iter_ops Let_def)
    next
      case i: False
      then have "next_permutation_loop cat cmp first stop (Suc i) xs = next_permutation_loop cat cmp first stop i xs"
        using False by (simp add: iter_ops Let_def)
      then show ?thesis using Suc.IH [OF _ _ desc] Suc.prems i by simp
    qed
  qed
qed simp

section \<open>What a call does to the range\<close>

lemma split_two:
  assumes "k < j" "j < stop" "stop \<le> length xs"
  shows "xs = take k xs @ xs ! k # range_of (k + 1) j xs @ xs ! j # range_of (j + 1) stop xs @ drop stop xs"
proof -
  have "drop (k + 1) xs = range_of (k + 1) j xs @ drop j xs"
    using assms by (simp add: range_of_def) (metis add.commute append_take_drop_id drop_drop le_add_diff_inverse2 Suc_leI)
  moreover have "drop (j + 1) xs = range_of (j + 1) stop xs @ drop stop xs"
    using assms by (simp add: range_of_def) (metis add.commute append_take_drop_id drop_drop le_add_diff_inverse2 Suc_leI)
  ultimately show ?thesis
    using assms id_take_nth_drop [of k xs] Cons_nth_drop_Suc [of j xs] by simp
qed

context weak_order
begin

lemma descending_adjacent:
  assumes "\<forall>l. first \<le> l \<and> l + 1 < stop \<longrightarrow> \<not> cmp (xs ! l) (xs ! (l + 1))" "stop \<le> length xs"
  shows "descending (range_of first stop xs)"
proof -
  have "transp (\<lambda>x y. \<not> cmp x y)" using neg_trans by (auto intro: transpI)
  then show ?thesis
    unfolding descending_def using assms
    by (auto simp: sorted_wrt_iff_nth_Suc_transp length_range_of nth_range_of)
qed

lemma next_permutation_with_ok:
  assumes "first \<le> stop" "stop \<le> length xs"
  shows "\<exists>b ys. next_permutation_with cat cmp first stop xs = Some (b, take first xs @ ys @ drop stop xs) \<and>
    next_step (range_of first stop xs) b ys"
proof (cases "stop - first \<le> 1")
  case True
  have "length (range_of first stop xs) \<le> 1" using True assms by (simp add: length_range_of)
  then have "next_step (range_of first stop xs) False (range_of first stop xs)"
    by (cases "range_of first stop xs") (auto simp: next_step_def descending_def)
  moreover have "next_permutation_with cat cmp first stop xs = Some (False, xs)"
    using True assms(1) by (auto simp: next_permutation_with_def Let_def)
  ultimately show ?thesis using range_split [OF assms(1), of xs] by (metis (no_types))
next
  case False
  then have run: "next_permutation_with cat cmp first stop xs = next_permutation_loop cat cmp first stop (stop - 1) xs"
    by (auto simp: next_permutation_with_def Let_def)
  have "first < stop - 1" "stop - 1 < stop" "\<forall>k. stop - 1 \<le> k \<and> k + 1 < stop \<longrightarrow> \<not> cmp (xs ! k) (xs ! (k + 1))"
    using False by auto
  from next_permutation_loop_cases [OF this, of cat]
  consider (found) k j where "first \<le> k" "k < j" "j < stop" "cmp (xs ! k) (xs ! j)"
      "\<forall>l. j < l \<and> l < stop \<longrightarrow> \<not> cmp (xs ! k) (xs ! l)" "\<forall>l. k < l \<and> l + 1 < stop \<longrightarrow> \<not> cmp (xs ! l) (xs ! (l + 1))"
      "next_permutation_loop cat cmp first stop (stop - 1) xs = Some (True, reverse_range_of cat (k + 1) stop (swap_at k j xs))"
    | (none) "\<forall>l. first \<le> l \<and> l + 1 < stop \<longrightarrow> \<not> cmp (xs ! l) (xs ! (l + 1))"
      "next_permutation_loop cat cmp first stop (stop - 1) xs = Some (False, reverse_range_of cat first stop xs)"
    by blast
  then show ?thesis
  proof cases
    case none
    then show ?thesis
      using descending_adjacent [OF none(1) assms(2)] assms
      by (auto simp: run reverse_range_of_eq next_step_def)
  next
    case found
    define p s1 s2 where "p = range_of first k xs" and "s1 = range_of (k + 1) j xs" and "s2 = range_of (j + 1) stop xs"
    let ?x = "xs ! k" and ?y = "xs ! j" and ?ps = "take k xs" and ?ss = "drop stop xs"
    have xs: "xs = ?ps @ ?x # s1 @ ?y # s2 @ ?ss"
      unfolding s1_def s2_def by (rule split_two [OF found(2,3) assms(2)])
    have len: "length ?ps = k" "j = k + 1 + length s1" "length s2 = stop - (j + 1)"
      using found(2,3) assms(2) by (simp_all add: s1_def s2_def length_range_of)
    have ps: "?ps = take first xs @ p"
      using found(1) by (simp add: p_def range_of_def take_drop) (metis append_take_drop_id min.absorb1 take_take)
    have swap: "swap_at k j xs = ?ps @ ?y # s1 @ ?x # s2 @ ?ss"
      using swap_at_parts [of ?ps s1 ?x ?y "s2 @ ?ss"] by (simp only: xs [symmetric] len(1) len(2) [symmetric])
    have first: "length (take first xs) = first" using assms by simp
    have stop: "stop = k + 1 + length (s1 @ ?x # s2)" using len found(3) by simp
    have k: "k = first + length p" using found(1-3) assms(2) by (simp add: p_def length_range_of)
    have "stop = length (take first xs) + length (p @ ?x # s1 @ ?y # s2)" using first stop k by simp
    then have "range_of first stop (take first xs @ (p @ ?x # s1 @ ?y # s2) @ ?ss) = p @ ?x # s1 @ ?y # s2"
      using range_of_parts [of "take first xs" "p @ ?x # s1 @ ?y # s2" ?ss] by (simp only: first)
    moreover have "take first xs @ (p @ ?x # s1 @ ?y # s2) @ ?ss = xs" using xs ps by simp
    ultimately have range: "range_of first stop xs = p @ ?x # s1 @ ?y # s2" by simp
    have tail: "range_of (Suc k) stop (swap_at k j xs) = s1 @ ?x # s2" "take (Suc k) (swap_at k j xs) = ?ps @ [?y]"
      "drop stop (swap_at k j xs) = ?ss"
      using range_of_parts [of "?ps @ [?y]" "s1 @ ?x # s2" ?ss] len(1) stop by (simp_all add: swap)
    have tail0: "reverse_range_of cat (k + 1) stop (swap_at k j xs) = take first xs @ (p @ ?y # rev (s1 @ ?x # s2)) @ ?ss"
      using found(2,3) assms(2) by (simp add: reverse_range_of_eq tail ps)
    have "\<forall>z \<in> set s2. \<not> cmp ?x z"
      using found(5) assms(2) by (auto simp: s2_def set_range_of)
    moreover have "range_of (k + 1) stop ((?ps @ [?x]) @ (s1 @ ?y # s2) @ ?ss) = s1 @ ?y # s2"
      using range_of_parts [of "?ps @ [?x]" "s1 @ ?y # s2" ?ss] len(1) stop by simp
    then have "range_of (k + 1) stop xs = s1 @ ?y # s2" using xs by simp
    then have "descending (s1 @ ?y # s2)"
      using descending_adjacent [of "k + 1" stop xs] found(6) assms(2) by auto
    ultimately have "next_step (range_of first stop xs) True (p @ ?y # rev (s1 @ ?x # s2))"
      using found(4) unfolding next_step_def range by (simp del: rev_append) blast
    then show ?thesis using tail0 found(7) run by auto
  qed
qed

end

section \<open>The two directions\<close>

text \<open>Going down is going up under the flipped comparison.\<close>

lemma prev_permutation_scan_flip: "prev_permutation_scan cmp i n xs = permutation_scan (\<lambda>x y. cmp y x) i n xs"
  by (induction n) (simp_all add: iter_ops)

lemma prev_permutation_loop_flip:
  "prev_permutation_loop cat cmp first stop i xs = next_permutation_loop cat (\<lambda>x y. cmp y x) first stop i xs"
  by (induction i) (simp_all add: iter_ops prev_permutation_scan_flip Let_def)

lemma prev_permutation_with_flip:
  "prev_permutation_with cat cmp first stop xs = next_permutation_with cat (\<lambda>x y. cmp y x) first stop xs"
  by (simp add: prev_permutation_with_def next_permutation_with_def prev_permutation_loop_flip)

lemma lc_loop_flip: "length xs = length ys \<Longrightarrow> lc_loop (\<lambda>x y. cmp y x) xs ys = lc_loop cmp ys xs"
  by (induction xs ys rule: list_induct2) simp_all

lemma lc_loop_total:
  "length xs = length ys \<Longrightarrow> (\<And>x y. cmp x y \<or> cmp y x \<or> x = y) \<Longrightarrow> xs = ys \<or> lc_loop cmp xs ys \<or> lc_loop cmp ys xs"
  by (induction xs ys rule: list_induct2) auto

lemma weak_order_flip: "weak_order cmp \<Longrightarrow> weak_order (\<lambda>x y. cmp y x)"
  unfolding weak_order_def by metis

lemma next_step_flip:
  assumes w: "weak_order cmp" and total: "\<And>x y. cmp x y \<or> cmp y x \<or> x = y"
    and up: "weak_order.next_step cmp xs b ys" and down: "weak_order.next_step (\<lambda>x y. cmp y x) ys b' zs"
  shows "b' = b \<and> zs = xs"
proof -
  note w' = weak_order_flip [OF w]
  have mset: "mset ys = mset xs" "mset zs = mset xs"
    using weak_order.next_step_mset [OF w up] weak_order.next_step_mset [OF w' down] by simp_all
  note len = mset [THEN mset_eq_length]
  have flip: "lc_loop (\<lambda>x y. cmp y x) us vs = lc_loop cmp vs us" if "length us = length vs" for us vs
    using lc_loop_flip [OF that] .
  have classes: "same_classes c us vs" if "us \<in> {xs, ys, zs}" "vs \<in> {xs, ys, zs}" for c us vs
    using that mset by (intro same_classes_mset) auto
  show ?thesis
  proof (cases b)
    case True
    have up': "weak_order.next_step cmp xs True ys" using up True by simp
    have less: "lc_loop cmp xs ys" by (rule weak_order.next_step_less [OF w up'])
    have "b'"
    proof (rule ccontr)
      assume "\<not> b'"
      then have "\<not> lc_loop (\<lambda>x y. cmp y x) ys xs"
        using weak_order.next_step_last [OF w', of ys zs xs] down classes [of ys xs] by simp
      then show False using less by (simp add: flip len)
    qed
    then have down': "weak_order.next_step (\<lambda>x y. cmp y x) ys True zs" using down by simp
    have "lc_loop cmp zs ys" using weak_order.next_step_less [OF w' down'] by (simp add: flip len)
    then have "\<not> lc_loop cmp xs zs" using weak_order.next_step_between [OF w up', of zs] classes [of xs zs] len by simp
    moreover have "\<not> lc_loop cmp zs xs"
      using weak_order.next_step_between [OF w' down', of xs] classes [of ys xs] less len by (simp add: flip)
    ultimately show ?thesis using lc_loop_total [of zs xs cmp] total len \<open>b'\<close> True by auto
  next
    case False
    then have "\<not> lc_loop cmp zs ys" using weak_order.next_step_last [OF w, of xs ys zs] up classes [of xs zs] by simp
    then have "\<not> b'" using weak_order.next_step_less [OF w', of ys zs] down by (cases b') (simp_all add: flip len)
    then show ?thesis
      using up down False by (simp add: weak_order.next_step_def [OF w] weak_order.next_step_def [OF w'])
  qed
qed

lemma next_permutation_with_flip:
  assumes w: "weak_order cmp" and total: "\<And>x y. cmp x y \<or> cmp y x \<or> x = y" and range: "first \<le> stop" "stop \<le> length xs"
  shows "\<exists>b ys. next_permutation_with cat cmp first stop xs = Some (b, ys) \<and>
    next_permutation_with cat (\<lambda>x y. cmp y x) first stop ys = Some (b, xs)"
proof -
  obtain b r where up: "next_permutation_with cat cmp first stop xs = Some (b, take first xs @ r @ drop stop xs)"
    "weak_order.next_step cmp (range_of first stop xs) b r"
    using weak_order.next_permutation_with_ok [OF w range, of cat] by blast
  define ys where "ys = take first xs @ r @ drop stop xs"
  have "length r = stop - first"
    using mset_eq_length [OF weak_order.next_step_mset [OF w up(2)]] range by (simp add: length_range_of)
  then have ys: "range_of first stop ys = r" "take first ys = take first xs" "drop stop ys = drop stop xs" "stop \<le> length ys"
    using range_of_parts [of "take first xs" r "drop stop xs"] range by (simp_all add: ys_def)
  obtain b' r' where down:
    "next_permutation_with cat (\<lambda>x y. cmp y x) first stop ys = Some (b', take first ys @ r' @ drop stop ys)"
    "weak_order.next_step (\<lambda>x y. cmp y x) (range_of first stop ys) b' r'"
    using weak_order.next_permutation_with_ok [OF weak_order_flip [OF w] range(1) ys(4), of cat] by blast
  have "b' = b \<and> r' = range_of first stop xs" using next_step_flip [OF w total up(2)] down(2) ys(1) by simp
  then show ?thesis using up(1) down(1) range_split [OF range(1), of xs] by (auto simp: ys(2,3) ys_def [symmetric])
qed

section \<open>The properties\<close>

text \<open>C15: \<open>next_permutation\<close> goes through the permutations in dictionary order. For a strict weak order and a range of the
  list the call returns, changes only the range and leaves a permutation of it; if it answers \<open>true\<close> the new range is
  above the old one and nothing with the same elements (up to equivalence) is between them, and if it answers
  \<open>false\<close> the old range was the last of its permutations and the new one is the first.\<close>

theorem next_permutation_successor:
  assumes "weak_order cmp" "first \<le> stop" "stop \<le> length xs"
  shows "\<exists>b ys. next_permutation_comp cat cmp first stop xs = Some (b, take first xs @ ys @ drop stop xs) \<and>
    mset ys = mset (range_of first stop xs) \<and>
    (if b then lc_loop cmp (range_of first stop xs) ys \<and>
        (\<forall>zs. same_classes cmp (range_of first stop xs) zs \<and> length zs = length ys \<longrightarrow>
          \<not> (lc_loop cmp (range_of first stop xs) zs \<and> lc_loop cmp zs ys))
      else \<forall>zs. same_classes cmp (range_of first stop xs) zs \<longrightarrow>
        \<not> lc_loop cmp (range_of first stop xs) zs \<and> \<not> lc_loop cmp zs ys)"
proof -
  obtain b ys where run: "next_permutation_comp cat cmp first stop xs = Some (b, take first xs @ ys @ drop stop xs)"
    and step: "weak_order.next_step cmp (range_of first stop xs) b ys"
    using weak_order.next_permutation_with_ok [OF assms, of cat] unfolding next_permutation_comp_def by blast
  note m = weak_order.next_step_mset [OF assms(1) step]
  then have len: "length ys = length (range_of first stop xs)" by (rule mset_eq_length)
  show ?thesis
  proof (cases b)
    case True
    then show ?thesis
      using run m len step weak_order.next_step_less [OF assms(1)] weak_order.next_step_between [OF assms(1)] by auto
  next
    case False
    then show ?thesis
      using run m weak_order.next_step_last [OF assms(1)] step by auto
  qed
qed


theorem next_permutation_successor_witness:
  "weak_order (\<lambda>x y :: nat. x div 10 < y div 10) \<and>
   next_permutation_comp (Random_access False) (\<lambda>x y. x div 10 < y div 10) 1 5 [0, 11, 35, 31, 22 :: nat] =
     Some (True, [0, 22, 11, 31, 35]) \<and>
   lc_loop (\<lambda>x y. x div 10 < y div 10) [11, 35, 31, 22 :: nat] [22, 11, 31, 35]"
proof -
  let ?c = "\<lambda>x y :: nat. x div 10 < y div 10"
  have w: "weak_order ?c" by unfold_locales auto
  have run: "next_permutation_comp (Random_access False) ?c 1 5 [0, 11, 35, 31, 22] = Some (True, [0, 22, 11, 31, 35])"
    by code_simp
  have "range_of 1 5 [0, 11, 35, 31, 22 :: nat] = [11, 35, 31, 22]" by (simp add: range_of_def)
  with next_permutation_successor [OF w, of 1 5 "[0, 11, 35, 31, 22]" "Random_access False"] run
  have "lc_loop ?c [11, 35, 31, 22] [22, 11, 31, 35]" by auto
  with w run show ?thesis by blast
qed

text \<open>C16: \<open>next_permutation\<close> and \<open>prev_permutation\<close> undo each other on a linearly ordered type: each returns, and the other
  one, run on what it left, answers the same and gives the list back, the wrap from the last permutation to the first
  one and back included.\<close>

theorem permutations_roundtrip:
  assumes "first \<le> stop" "stop \<le> length (xs :: 'a::linorder list)"
  shows "(\<exists>b ys. next_permutation cat first stop xs = Some (b, ys) \<and> prev_permutation cat first stop ys = Some (b, xs)) \<and>
    (\<exists>b ys. prev_permutation cat first stop xs = Some (b, ys) \<and> next_permutation cat first stop ys = Some (b, xs))"
proof
  have w: "weak_order ((<) :: 'a \<Rightarrow> 'a \<Rightarrow> bool)" by (rule less_order.weak_order_axioms)
  have total: "x < y \<or> y < x \<or> x = y" for x y :: 'a by auto
  show "\<exists>b ys. next_permutation cat first stop xs = Some (b, ys) \<and> prev_permutation cat first stop ys = Some (b, xs)"
    using next_permutation_with_flip [OF w total assms, of cat]
    by (auto simp: next_permutation_def prev_permutation_def prev_permutation_with_flip)
  show "\<exists>b ys. prev_permutation cat first stop xs = Some (b, ys) \<and> next_permutation cat first stop ys = Some (b, xs)"
    using next_permutation_with_flip [OF weak_order_flip [OF w] _ assms, of cat] total
    by (auto simp: next_permutation_def prev_permutation_def prev_permutation_with_flip)
qed

theorem permutations_roundtrip_witness:
  "(\<exists>b ys. next_permutation Bidirectional 1 4 [9, 1, 3, 2 :: nat] = Some (b, ys) \<and>
     prev_permutation Bidirectional 1 4 ys = Some (b, [9, 1, 3, 2])) \<and>
   next_permutation Bidirectional 1 4 [9, 1, 3, 2 :: nat] = Some (True, [9, 2, 1, 3])"
proof
  show "\<exists>b ys. next_permutation Bidirectional 1 4 [9, 1, 3, 2 :: nat] = Some (b, ys) \<and>
     prev_permutation Bidirectional 1 4 ys = Some (b, [9, 1, 3, 2])"
    using permutations_roundtrip [of 1 4 "[9, 1, 3, 2 :: nat]" Bidirectional] by simp
  show "next_permutation Bidirectional 1 4 [9, 1, 3, 2 :: nat] = Some (True, [9, 2, 1, 3])"
    by code_simp
qed

end
