(* ===== verification/Stl_Max_Size.thy ===== *)
theory Stl_Max_Size
  imports "HOL-Library.Word" "HOL-Library.Signed_Division" "HOL-Library.Monad_Syntax"
begin

unbundle bit_operations_syntax

text \<open>
  The integer types of \<open>kernel/include/bits/max_size_type.h\<close>, one bit wider than the widest integer of the
  machine: \<open>__max_size_type\<close> keeps 128 bits in a word and the highest bit beside it, \<open>__max_diff_type\<close> is the
  signed type on the same representation. The assertions of the header are empty in the kernel's
  configuration, so an operation whose assertion fails has no defined behaviour: it is \<open>None\<close>.
\<close>

section \<open>The unsigned type\<close>

record max_size =
  M_val :: "128 word"
  M_msb :: bool

definition S_rep_bits :: nat where
  "S_rep_bits = 128"

text \<open>The constructor from any integer type of the machine, signed or not.\<close>

definition size_of_int :: "int \<Rightarrow> max_size" where
  "size_of_int i = \<lparr>M_val = word_of_int i, M_msb = i < 0\<rparr>"

definition size_to_word :: "max_size \<Rightarrow> 'w::len word" where
  "size_to_word s = ucast (M_val s)"

definition size_to_bool :: "max_size \<Rightarrow> bool" where
  "size_to_bool s \<longleftrightarrow> M_val s \<noteq> 0 \<or> M_msb s"

definition size_eq :: "max_size \<Rightarrow> max_size \<Rightarrow> bool" where
  "size_eq l r \<longleftrightarrow> M_val l = M_val r \<and> M_msb l = M_msb r"

definition size_less :: "max_size \<Rightarrow> max_size \<Rightarrow> bool" where
  "size_less l r \<longleftrightarrow> (if M_msb l = M_msb r then M_val l < M_val r else M_msb r)"

datatype strong_ordering = Less | Equal | Greater

definition size_compare :: "max_size \<Rightarrow> max_size \<Rightarrow> strong_ordering" where
  "size_compare l r =
     (if M_msb l \<noteq> M_msb r then (if M_msb l then Greater else Less)
      else if M_val l < M_val r then Less else if M_val l = M_val r then Equal else Greater)"

definition size_greater :: "max_size \<Rightarrow> max_size \<Rightarrow> bool" where
  "size_greater l r \<longleftrightarrow> size_less r l"

definition size_le :: "max_size \<Rightarrow> max_size \<Rightarrow> bool" where
  "size_le l r \<longleftrightarrow> \<not> size_greater l r"

definition size_ge :: "max_size \<Rightarrow> max_size \<Rightarrow> bool" where
  "size_ge l r \<longleftrightarrow> size_le r l"

definition size_not :: "max_size \<Rightarrow> max_size" where
  "size_not s = \<lparr>M_val = NOT (M_val s), M_msb = (\<not> M_msb s)\<rparr>"

definition size_add :: "max_size \<Rightarrow> max_size \<Rightarrow> max_size" where
  "size_add l r =
     (let sum = M_val l + M_val r;
          overflow = sum < M_val l
      in l\<lparr>M_msb := (M_msb l \<noteq> M_msb r) \<noteq> overflow, M_val := sum\<rparr>)"

definition size_neg :: "max_size \<Rightarrow> max_size" where
  "size_neg s = size_add (size_not s) (size_of_int 1)"

definition size_sub :: "max_size \<Rightarrow> max_size \<Rightarrow> max_size" where
  "size_sub l r = size_add l (size_neg r)"

text \<open>Increment and decrement: what the expression gives, and the new value of the object.\<close>

definition size_pre_inc :: "max_size \<Rightarrow> max_size \<times> max_size" where
  "size_pre_inc s = (let s = size_add s (size_of_int 1) in (s, s))"

definition size_post_inc :: "max_size \<Rightarrow> max_size \<times> max_size" where
  "size_post_inc s = (let tmp = s; (_, s) = size_pre_inc s in (tmp, s))"

definition size_pre_dec :: "max_size \<Rightarrow> max_size \<times> max_size" where
  "size_pre_dec s = (let s = size_sub s (size_of_int 1) in (s, s))"

definition size_post_dec :: "max_size \<Rightarrow> max_size \<times> max_size" where
  "size_post_dec s = (let tmp = s; (_, s) = size_pre_dec s in (tmp, s))"

definition size_shl :: "max_size \<Rightarrow> max_size \<Rightarrow> max_size option" where
  "size_shl l r =
     (if \<not> size_le r (size_of_int (int S_rep_bits)) then None
      else if \<not> size_eq r (size_of_int 0) then
        let l = l\<lparr>M_msb := odd (drop_bit (S_rep_bits - unat (M_val r)) (M_val l))\<rparr> in
        Some (if M_val r = of_nat S_rep_bits then l\<lparr>M_val := 0\<rparr>
              else l\<lparr>M_val := push_bit (unat (M_val r)) (M_val l)\<rparr>)
      else Some l)"

definition size_shr :: "max_size \<Rightarrow> max_size \<Rightarrow> max_size option" where
  "size_shr l r =
     (if \<not> size_le r (size_of_int (int S_rep_bits)) then None
      else if \<not> size_eq r (size_of_int 0) then
        let l = (if M_val r = of_nat S_rep_bits then l\<lparr>M_val := 0\<rparr>
                 else l\<lparr>M_val := drop_bit (unat (M_val r)) (M_val l)\<rparr>)
        in Some (if M_msb l then l\<lparr>M_val := M_val l OR push_bit (S_rep_bits - unat (M_val r)) 1, M_msb := False\<rparr>
                 else l)
      else Some l)"

definition size_and :: "max_size \<Rightarrow> max_size \<Rightarrow> max_size" where
  "size_and l r = l\<lparr>M_val := M_val l AND M_val r, M_msb := M_msb l \<and> M_msb r\<rparr>"

definition size_or :: "max_size \<Rightarrow> max_size \<Rightarrow> max_size" where
  "size_or l r = l\<lparr>M_val := M_val l OR M_val r, M_msb := M_msb l \<or> M_msb r\<rparr>"

definition size_xor :: "max_size \<Rightarrow> max_size \<Rightarrow> max_size" where
  "size_xor l r = l\<lparr>M_val := M_val l XOR M_val r, M_msb := M_msb l \<noteq> M_msb r\<rparr>"

definition mul_threshold :: max_size where
  "mul_threshold = size_of_int (2 ^ (S_rep_bits div 2 - 1))"

definition size_mul :: "max_size \<Rightarrow> max_size \<Rightarrow> max_size option" where
  "size_mul l r =
     (if size_less \<lparr>M_val = M_val l, M_msb = False\<rparr> mul_threshold \<and> size_less r mul_threshold then
        Some (l\<lparr>M_val := M_val l * M_val r\<rparr>)
      else
        let lsb = odd (M_val l); rlsb = odd (M_val r) in
        do { l \<leftarrow> size_shr l (size_of_int 1);
             r \<leftarrow> size_shr r (size_of_int 1);
             let l = l\<lparr>M_val := 2 * M_val l * M_val r + M_val l * of_bool rlsb + M_val r * of_bool lsb\<rparr>;
             l \<leftarrow> size_shl l (size_of_int 1);
             Some (size_add l (size_of_int (of_bool rlsb * of_bool lsb))) })"

definition size_div :: "max_size \<Rightarrow> max_size \<Rightarrow> max_size option" where
  "size_div l r =
     (if size_eq r (size_of_int 0) then None
      else if \<not> M_msb l \<and> \<not> M_msb r then Some (l\<lparr>M_val := M_val l div M_val r\<rparr>)
      else if M_msb l \<and> M_msb r then Some (l\<lparr>M_val := of_bool (M_val l \<ge> M_val r), M_msb := False\<rparr>)
      else if \<not> M_msb l \<and> M_msb r then Some (l\<lparr>M_val := 0\<rparr>)
      else
        let orig = l in
        do { l \<leftarrow> size_shr l (size_of_int 1);
             let l = l\<lparr>M_val := M_val l div M_val r\<rparr>;
             l \<leftarrow> size_shl l (size_of_int 1);
             p \<leftarrow> size_mul l r;
             Some (if size_ge (size_sub orig p) r then l\<lparr>M_val := M_val l + 1\<rparr> else l) })"

definition size_mod :: "max_size \<Rightarrow> max_size \<Rightarrow> max_size option" where
  "size_mod l r =
     (if \<not> M_msb l \<and> \<not> M_msb r then (if M_val r = 0 then None else Some (l\<lparr>M_val := M_val l mod M_val r\<rparr>))
      else do { q \<leftarrow> size_div l r; p \<leftarrow> size_mul q r; Some (size_sub l p) })"

text \<open>
  The compound assignments to an integer of the machine; \<open>rd\<close> is the value of its bits, \<open>uint\<close> for an
  unsigned and \<open>sint\<close> for a signed type.
\<close>

definition int_assign ::
    "('w::len word \<Rightarrow> int) \<Rightarrow> (max_size \<Rightarrow> max_size \<Rightarrow> max_size option) \<Rightarrow> 'w word \<Rightarrow> max_size \<Rightarrow> 'w word option" where
  "int_assign rd op a b = map_option size_to_word (op (size_of_int (rd a)) b)"

section \<open>The signed type\<close>

record max_diff =
  M_rep :: max_size

definition diff_of_int :: "int \<Rightarrow> max_diff" where
  "diff_of_int i = \<lparr>M_rep = size_of_int i\<rparr>"

definition diff_of_size :: "max_size \<Rightarrow> max_diff" where
  "diff_of_size d = \<lparr>M_rep = d\<rparr>"

definition size_of_diff :: "max_diff \<Rightarrow> max_size" where
  "size_of_diff d = M_rep d"

definition diff_to_word :: "max_diff \<Rightarrow> 'w::len word" where
  "diff_to_word d = size_to_word (M_rep d)"

definition diff_to_bool :: "max_diff \<Rightarrow> bool" where
  "diff_to_bool d \<longleftrightarrow> \<not> size_eq (M_rep d) (size_of_int 0)"

definition diff_neg :: "max_diff \<Rightarrow> max_diff" where
  "diff_neg d = diff_of_size (size_neg (M_rep d))"

definition diff_not :: "max_diff \<Rightarrow> max_diff" where
  "diff_not d = diff_of_size (size_not (M_rep d))"

definition diff_eq :: "max_diff \<Rightarrow> max_diff \<Rightarrow> bool" where
  "diff_eq l r \<longleftrightarrow> size_eq (M_rep l) (M_rep r)"

definition diff_compare :: "max_diff \<Rightarrow> max_diff \<Rightarrow> strong_ordering" where
  "diff_compare l r =
     (let lsign = M_msb (M_rep l); rsign = M_msb (M_rep r) in
      if lsign \<noteq> rsign then (if lsign then Less else Greater) else size_compare (M_rep l) (M_rep r))"

definition diff_less :: "max_diff \<Rightarrow> max_diff \<Rightarrow> bool" where
  "diff_less l r \<longleftrightarrow>
     (let lsign = M_msb (M_rep l); rsign = M_msb (M_rep r) in
      if lsign \<noteq> rsign then lsign else size_less (M_rep l) (M_rep r))"

definition diff_greater :: "max_diff \<Rightarrow> max_diff \<Rightarrow> bool" where
  "diff_greater l r \<longleftrightarrow> diff_less r l"

definition diff_le :: "max_diff \<Rightarrow> max_diff \<Rightarrow> bool" where
  "diff_le l r \<longleftrightarrow> \<not> diff_less r l"

definition diff_ge :: "max_diff \<Rightarrow> max_diff \<Rightarrow> bool" where
  "diff_ge l r \<longleftrightarrow> \<not> diff_less l r"

definition diff_add :: "max_diff \<Rightarrow> max_diff \<Rightarrow> max_diff" where
  "diff_add l r = l\<lparr>M_rep := size_add (M_rep l) (M_rep r)\<rparr>"

definition diff_sub :: "max_diff \<Rightarrow> max_diff \<Rightarrow> max_diff" where
  "diff_sub l r = l\<lparr>M_rep := size_sub (M_rep l) (M_rep r)\<rparr>"

definition diff_pre_inc :: "max_diff \<Rightarrow> max_diff \<times> max_diff" where
  "diff_pre_inc d = (let d = diff_add d (diff_of_int 1) in (d, d))"

definition diff_post_inc :: "max_diff \<Rightarrow> max_diff \<times> max_diff" where
  "diff_post_inc d = (let tmp = d; (_, d) = diff_pre_inc d in (tmp, d))"

definition diff_pre_dec :: "max_diff \<Rightarrow> max_diff \<times> max_diff" where
  "diff_pre_dec d = (let d = diff_sub d (diff_of_int 1) in (d, d))"

definition diff_post_dec :: "max_diff \<Rightarrow> max_diff \<times> max_diff" where
  "diff_post_dec d = (let tmp = d; (_, d) = diff_pre_dec d in (tmp, d))"

definition diff_mul :: "max_diff \<Rightarrow> max_diff \<Rightarrow> max_diff option" where
  "diff_mul l r = do { m \<leftarrow> size_mul (M_rep l) (M_rep r); Some (l\<lparr>M_rep := m\<rparr>) }"

definition diff_div :: "max_diff \<Rightarrow> max_diff \<Rightarrow> max_diff option" where
  "diff_div l r =
     (let neg = diff_less l (diff_of_int 0); rneg = diff_less r (diff_of_int 0) in
      if diff_eq r (diff_of_int 0) then None
      else if \<not> neg \<and> \<not> rneg then do { q \<leftarrow> size_div (M_rep l) (M_rep r); Some (l\<lparr>M_rep := q\<rparr>) }
      else if neg \<and> rneg then do { q \<leftarrow> size_div (size_neg (M_rep l)) (size_neg (M_rep r)); Some (l\<lparr>M_rep := q\<rparr>) }
      else if neg \<and> \<not> rneg then do { q \<leftarrow> size_div (size_neg (M_rep l)) (M_rep r); Some (l\<lparr>M_rep := size_neg q\<rparr>) }
      else do { q \<leftarrow> size_div (M_rep l) (size_neg (M_rep r)); Some (l\<lparr>M_rep := size_neg q\<rparr>) })"

definition diff_mod :: "max_diff \<Rightarrow> max_diff \<Rightarrow> max_diff option" where
  "diff_mod l r =
     (if diff_eq r (diff_of_int 0) then None
      else if diff_ge l (diff_of_int 0) \<and> diff_greater r (diff_of_int 0) then
        do { m \<leftarrow> size_mod (M_rep l) (M_rep r); Some (l\<lparr>M_rep := m\<rparr>) }
      else do { q \<leftarrow> diff_div l r; p \<leftarrow> diff_mul q r; Some (diff_sub l p) })"

definition diff_shl :: "max_diff \<Rightarrow> max_diff \<Rightarrow> max_diff option" where
  "diff_shl l r = do { m \<leftarrow> size_shl (M_rep l) (M_rep r); Some (l\<lparr>M_rep := m\<rparr>) }"

definition diff_shr :: "max_diff \<Rightarrow> max_diff \<Rightarrow> max_diff option" where
  "diff_shr l r =
     (let msb = M_msb (M_rep l) in
      do { m \<leftarrow> size_shr (M_rep l) (M_rep r);
           n \<leftarrow> size_shr (size_of_int (- 1)) (M_rep r);
           Some (l\<lparr>M_rep := if msb then size_or m (size_not n) else m\<rparr>) })"

definition diff_and :: "max_diff \<Rightarrow> max_diff \<Rightarrow> max_diff" where
  "diff_and l r = l\<lparr>M_rep := size_and (M_rep l) (M_rep r)\<rparr>"

definition diff_or :: "max_diff \<Rightarrow> max_diff \<Rightarrow> max_diff" where
  "diff_or l r = l\<lparr>M_rep := size_or (M_rep l) (M_rep r)\<rparr>"

definition diff_xor :: "max_diff \<Rightarrow> max_diff \<Rightarrow> max_diff" where
  "diff_xor l r = l\<lparr>M_rep := size_xor (M_rep l) (M_rep r)\<rparr>"

definition diff_int_assign ::
    "('w::len word \<Rightarrow> int) \<Rightarrow> (max_diff \<Rightarrow> max_diff \<Rightarrow> max_diff option) \<Rightarrow> 'w word \<Rightarrow> max_diff \<Rightarrow> 'w word option" where
  "diff_int_assign rd op a b = map_option diff_to_word (op (diff_of_int (rd a)) b)"

text \<open>\<open>numeric_limits\<close> of the two types.\<close>

definition size_max :: max_size where
  "size_max = \<lparr>M_val = - 1, M_msb = True\<rparr>"

definition diff_min :: max_diff where
  "diff_min = diff_of_size \<lparr>M_val = 0, M_msb = True\<rparr>"

definition diff_max :: max_diff where
  "diff_max = diff_of_size \<lparr>M_val = - 1, M_msb = False\<rparr>"

section \<open>What the unsigned type stands for\<close>

definition nat_of_size :: "max_size \<Rightarrow> nat" where
  "nat_of_size s = unat (M_val s) + of_bool (M_msb s) * 2 ^ 128"

definition size_word :: "max_size \<Rightarrow> 129 word" where
  "size_word s = of_nat (nat_of_size s)"

lemma val_bound: "unat (w :: 128 word) < 340282366920938463463374607431768211456"
  using unsigned_less [of w] by simp

lemma nat_of_size_bound: "nat_of_size s < 2 ^ 129"
  using val_bound [of "M_val s"] by (cases "M_msb s") (simp_all add: nat_of_size_def)

lemma unat_size_word [simp]: "unat (size_word s) = nat_of_size s"
  using nat_of_size_bound [of s] by (simp add: size_word_def unat_of_nat take_bit_nat_eq_self_iff)

lemma nat_of_size_inj: "nat_of_size l = nat_of_size r \<longleftrightarrow> l = (r :: max_size)"
proof
  assume "nat_of_size l = nat_of_size r"
  then have "M_msb l = M_msb r \<and> unat (M_val l) = unat (M_val r)"
    using val_bound [of "M_val l"] val_bound [of "M_val r"]
    by (cases "M_msb l"; cases "M_msb r") (simp_all add: nat_of_size_def)
  then show "l = r" by (simp add: word_unat_eq_iff)
qed simp

lemma size_word_inj: "size_word l = size_word r \<longleftrightarrow> l = (r :: max_size)"
  by (simp add: word_unat_eq_iff nat_of_size_inj)

lemma bit_size_word: "bit (size_word s) k \<longleftrightarrow> (if k = 128 then M_msb s else bit (M_val s) k)"
proof -
  have "size_word s = ucast (M_val s) + push_bit 128 (of_bool (M_msb s))"
    by (simp add: size_word_def nat_of_size_def push_bit_eq_mult)
  also have "\<dots> = ucast (M_val s) OR push_bit 128 (of_bool (M_msb s))"
    by (intro disjunctive_add_eq_or bit_eqI) (auto simp: bit_simps dest: bit_imp_le_length)
  finally show ?thesis using bit_imp_le_length [of "M_val s" k] by (auto simp: bit_simps)
qed

lemma size_word_of_int:
  assumes "- (2 ^ 127) \<le> i" "i < 2 ^ 128"
  shows "size_word (size_of_int i) = word_of_int i"
proof (rule bit_eqI)
  fix k assume "possible_bit TYPE(129 word) k"
  moreover have "bit i 128 \<longleftrightarrow> i < 0"
  proof -
    have "i div 2 ^ 128 = (if i < 0 then - 1 else 0)"
      using assms by (auto simp: int_div_neg_eq [of i "2 ^ 128" "- 1" "i + 2 ^ 128"] intro: div_pos_pos_trivial)
    then show ?thesis by (simp add: bit_iff_odd)
  qed
  ultimately show "bit (size_word (size_of_int i)) k = bit (word_of_int i :: 129 word) k"
    by (auto simp: bit_size_word size_of_int_def bit_simps)
qed

lemma nat_of_size_of_int: "0 \<le> i \<Longrightarrow> i < 2 ^ 128 \<Longrightarrow> nat_of_size (size_of_int i) = nat i"
  using unat_size_word [of "size_of_int i"] unfolding unat_size_word [symmetric]
  by (simp add: size_word_of_int unsigned_of_int take_bit_int_eq_self)

lemma nat_of_size_add: "nat_of_size (size_add l r) = (nat_of_size l + nat_of_size r) mod 2 ^ 129"
proof -
  define a b where "a = unat (M_val l)" and "b = unat (M_val r)"
  have bound: "a < 2 ^ 128" "b < 2 ^ 128"
    using val_bound [of "M_val l"] val_bound [of "M_val r"] by (simp_all add: a_def b_def)
  have sum: "unat (M_val l + M_val r) = (if a + b < 2 ^ 128 then a + b else a + b - 2 ^ 128)"
    by (simp add: unat_plus_if' a_def b_def)
  have over: "M_val l + M_val r < M_val l \<longleftrightarrow> 2 ^ 128 \<le> a + b"
    using bound unfolding word_less_nat_alt sum a_def [symmetric] by auto
  show ?thesis
    using bound unfolding nat_of_size_def size_add_def Let_def a_def [symmetric] b_def [symmetric]
    by (cases "M_msb l"; cases "M_msb r"; cases "2 ^ 128 \<le> a + b")
      (simp_all add: sum over mod_if a_def [symmetric] b_def [symmetric])
qed

lemma size_word_add: "size_word (size_add l r) = size_word l + size_word r"
  by (simp add: word_unat_eq_iff nat_of_size_add unat_word_ariths)

lemma size_word_not: "size_word (size_not s) = NOT (size_word s)"
  by (rule bit_eqI) (auto simp: bit_size_word size_not_def bit_simps)

lemma size_word_neg: "size_word (size_neg s) = - size_word s"
  unfolding size_neg_def size_word_add size_word_not minus_eq_not_plus_1 [of "size_word s"]
  by (simp add: size_word_of_int)

lemma size_word_sub: "size_word (size_sub l r) = size_word l - size_word r"
  by (simp add: size_sub_def size_word_add size_word_neg)

lemma size_word_bits:
  "size_word (size_and l r) = size_word l AND size_word r"
  "size_word (size_or l r) = size_word l OR size_word r"
  "size_word (size_xor l r) = size_word l XOR size_word r"
  by (rule bit_eqI; auto simp: bit_size_word size_and_def size_or_def size_xor_def bit_simps)+

lemma size_eq_iff [simp]: "size_eq l r \<longleftrightarrow> l = (r :: max_size)"
  by (auto simp: size_eq_def)

lemma size_less_iff: "size_less l r \<longleftrightarrow> size_word l < size_word r"
  unfolding word_less_nat_alt unat_size_word nat_of_size_def
  using val_bound [of "M_val l"] val_bound [of "M_val r"]
  by (cases "M_msb l"; cases "M_msb r") (simp_all add: size_less_def word_less_nat_alt)

lemma size_order: "size_greater l r \<longleftrightarrow> size_word r < size_word l" "size_le l r \<longleftrightarrow> size_word l \<le> size_word r"
  "size_ge l r \<longleftrightarrow> size_word r \<le> size_word l"
  by (auto simp: size_greater_def size_le_def size_ge_def size_less_iff)

lemma size_compare_eq:
  "size_compare l r = (if size_word l < size_word r then Less else if l = r then Equal else Greater)"
  unfolding size_less_iff [symmetric] size_eq_iff [symmetric] by (auto simp: size_compare_def size_less_def size_eq_def simp del: size_eq_iff)

text \<open>Shifts by a count in range.\<close>

lemma shift_count:
  assumes "nat_of_size r \<le> 128"
  shows "unat (M_val r) = nat_of_size r" "\<not> M_msb r" "size_le r (size_of_int (int S_rep_bits))"
    "M_val r = of_nat S_rep_bits \<longleftrightarrow> nat_of_size r = 128" "r = size_of_int 0 \<longleftrightarrow> nat_of_size r = 0"
proof -
  show msb: "\<not> M_msb r" using assms by (auto simp: nat_of_size_def)
  then show val: "unat (M_val r) = nat_of_size r" by (simp add: nat_of_size_def)
  show "size_le r (size_of_int (int S_rep_bits))"
    using assms by (simp add: size_order word_le_nat_alt nat_of_size_of_int S_rep_bits_def)
  show "M_val r = of_nat S_rep_bits \<longleftrightarrow> nat_of_size r = 128"
    using val by (simp add: word_unat_eq_iff S_rep_bits_def)
  show "r = size_of_int 0 \<longleftrightarrow> nat_of_size r = 0"
    using nat_of_size_inj [of r "size_of_int 0"] by (simp add: nat_of_size_of_int)
qed

lemma size_shl_word:
  assumes "nat_of_size r \<le> 128"
  shows "\<exists>s. size_shl l r = Some s \<and> size_word s = push_bit (nat_of_size r) (size_word l)"
proof (cases "nat_of_size r = 0")
  case False
  define m where "m = \<lparr>M_val = (if nat_of_size r = 128 then 0 else push_bit (nat_of_size r) (M_val l)),
    M_msb = odd (drop_bit (128 - nat_of_size r) (M_val l))\<rparr>"
  have "size_shl l r = Some m"
    using shift_count [OF assms] False by (cases l) (simp add: size_shl_def Let_def m_def S_rep_bits_def)
  moreover have "size_word m = push_bit (nat_of_size r) (size_word l)"
    by (rule bit_eqI) (use assms False in \<open>auto simp: bit_size_word m_def bit_simps bit_iff_odd_drop_bit [symmetric]\<close>)
  ultimately show ?thesis by blast
qed (use shift_count [OF assms] in \<open>simp add: size_shl_def\<close>)

lemma size_shr_word:
  assumes "nat_of_size r \<le> 128"
  shows "\<exists>s. size_shr l r = Some s \<and> size_word s = drop_bit (nat_of_size r) (size_word l)"
proof (cases "nat_of_size r = 0")
  case False
  define v where "v = (if nat_of_size r = 128 then 0 else drop_bit (nat_of_size r) (M_val l))"
  define m where "m = \<lparr>M_val = (if M_msb l then v OR push_bit (128 - nat_of_size r) 1 else v), M_msb = False\<rparr>"
  have "size_shr l r = Some m"
    using shift_count [OF assms] False by (cases l) (simp add: size_shr_def Let_def m_def v_def S_rep_bits_def)
  moreover have "size_word m = drop_bit (nat_of_size r) (size_word l)"
    by (rule bit_eqI) (use assms False in \<open>auto simp: bit_size_word m_def v_def bit_simps dest: bit_imp_le_length\<close>)
  ultimately show ?thesis by blast
qed (use shift_count [OF assms] in \<open>simp add: size_shr_def\<close>)

lemma size_shift_none: "128 < nat_of_size r \<Longrightarrow> size_shl l r = None \<and> size_shr l r = None"
  by (simp add: size_shl_def size_shr_def size_order word_le_nat_alt nat_of_size_of_int S_rep_bits_def)

text \<open>
  Multiplication: the exact product, unless the left factor has only its highest bit set above the threshold and the
  right one is even and below it. The short path then forgets that the highest bit is shifted out.
\<close>

definition mul_wrong :: "max_size \<Rightarrow> max_size \<Rightarrow> bool" where
  "mul_wrong l r \<longleftrightarrow> M_msb l \<and> unat (M_val l) < 2 ^ 63 \<and> nat_of_size r < 2 ^ 63 \<and> even (nat_of_size r)"

lemma low_nat [simp]: "nat_of_size \<lparr>M_val = v, M_msb = False\<rparr> = unat v"
  by (simp add: nat_of_size_def)

lemma below_threshold: "size_less r mul_threshold \<longleftrightarrow> nat_of_size r < 2 ^ 63"
  by (simp add: size_less_iff word_less_nat_alt mul_threshold_def nat_of_size_of_int S_rep_bits_def)

lemma size_mul_small:
  assumes "unat (M_val l) < 2 ^ 63" "nat_of_size r < 2 ^ 63"
  shows "\<exists>m. size_mul l r = Some m \<and> nat_of_size m = unat (M_val l) * nat_of_size r + of_bool (M_msb l) * 2 ^ 128"
proof -
  have r: "unat (M_val r) = nat_of_size r" using assms(2) by (cases "M_msb r") (simp_all add: nat_of_size_def)
  have "unat (M_val l) * nat_of_size r < 2 ^ 63 * 2 ^ 63"
    using assms by (intro mult_strict_mono') auto
  then have "unat (M_val l * M_val r) = unat (M_val l) * nat_of_size r"
    by (simp add: unat_word_ariths r)
  then show ?thesis using assms by (simp add: size_mul_def below_threshold nat_of_size_def)
qed

lemma shift_by_one:
  "\<exists>a. size_shr l (size_of_int 1) = Some a \<and> nat_of_size a = nat_of_size l div 2"
  "\<exists>a. size_shl l (size_of_int 1) = Some a \<and> nat_of_size a = 2 * nat_of_size l mod 2 ^ 129"
proof -
  have one: "nat_of_size (size_of_int 1) = 1" by (simp add: nat_of_size_of_int)
  obtain a where a: "size_shr l (size_of_int 1) = Some a" "size_word a = drop_bit 1 (size_word l)"
    using size_shr_word [of "size_of_int 1" l] one by auto
  have "nat_of_size a = drop_bit 1 (nat_of_size l)"
    using arg_cong [OF a(2), of unat] by (simp only: unsigned_drop_bit_eq unat_size_word)
      (simp add: take_bit_nat_eq_self nat_of_size_bound [simplified])
  with a show "\<exists>a. size_shr l (size_of_int 1) = Some a \<and> nat_of_size a = nat_of_size l div 2" by (simp add: drop_bit_eq_div)
  obtain b where b: "size_shl l (size_of_int 1) = Some b" "size_word b = push_bit 1 (size_word l)"
    using size_shl_word [of "size_of_int 1" l] one by auto
  have "nat_of_size b = 2 * nat_of_size l mod 2 ^ 129"
    using arg_cong [OF b(2), of unat] by (simp only: unsigned_push_bit_eq unat_size_word)
      (simp add: take_bit_eq_mod push_bit_eq_mult mult.commute)
  with b show "\<exists>a. size_shl l (size_of_int 1) = Some a \<and> nat_of_size a = 2 * nat_of_size l mod 2 ^ 129" by simp
qed

lemma odd_size_nat: "odd (nat_of_size s) \<longleftrightarrow> odd (M_val s)"
  by (simp add: nat_of_size_def bit_0 [symmetric] bit_unsigned_iff)

lemma low_half: "nat_of_size s < 2 ^ 128 \<Longrightarrow> unat (M_val s) = nat_of_size s \<and> \<not> M_msb s"
  by (cases "M_msb s") (simp_all add: nat_of_size_def)

lemma size_mul_large:
  assumes "\<not> (unat (M_val l) < 2 ^ 63 \<and> nat_of_size r < 2 ^ 63)"
  shows "\<exists>m. size_mul l r = Some m \<and> nat_of_size m = nat_of_size l * nat_of_size r mod 2 ^ 129"
proof -
  obtain a where a: "size_shr l (size_of_int 1) = Some a" "nat_of_size a = nat_of_size l div 2"
    using shift_by_one(1) by blast
  obtain b where b: "size_shr r (size_of_int 1) = Some b" "nat_of_size b = nat_of_size r div 2"
    using shift_by_one(1) by blast
  define x y :: nat where "x = of_bool (odd (M_val l))" and "y = of_bool (odd (M_val r))"
  let ?c = "a\<lparr>M_val := 2 * M_val a * M_val b + M_val a * of_bool (odd (M_val r)) + M_val b * of_bool (odd (M_val l))\<rparr>"
  let ?e = "2 * nat_of_size a * nat_of_size b + nat_of_size a * y + nat_of_size b * x"
  have val: "unat (M_val a) = nat_of_size a" "unat (M_val b) = nat_of_size b" "\<not> M_msb a"
    using low_half [of a] low_half [of b] a(2) b(2) nat_of_size_bound [of l] nat_of_size_bound [of r] by auto
  have "M_val a = of_nat (nat_of_size a)" "M_val b = of_nat (nat_of_size b)"
    unfolding val(1,2) [symmetric] by simp_all
  then have "M_val ?c = of_nat ?e" by (simp add: x_def y_def)
  then have "unat (M_val ?c) = ?e mod 2 ^ 128" by (simp only: unsigned_of_nat take_bit_eq_mod) simp
  then have c: "nat_of_size ?c = ?e mod 2 ^ 128" using val(3) unfolding nat_of_size_def [of ?c] by simp
  obtain d where d: "size_shl ?c (size_of_int 1) = Some d" "nat_of_size d = 2 * nat_of_size ?c mod 2 ^ 129"
    using shift_by_one(2) by blast
  let ?m = "size_add d (size_of_int (of_bool (odd (M_val r)) * of_bool (odd (M_val l))))"
  have "nat_of_size d = 2 * ?e mod 2 ^ 129"
    unfolding d(2) c using mult_mod_right [of 2 ?e "2 ^ 128"] by simp
  moreover have "nat_of_size (size_of_int (of_bool (odd (M_val r)) * of_bool (odd (M_val l)))) = x * y"
    by (simp add: x_def y_def nat_of_size_of_int)
  ultimately have "nat_of_size ?m = (2 * ?e + x * y) mod 2 ^ 129"
    by (simp only: nat_of_size_add mod_add_left_eq)
  moreover have "2 * ?e + x * y = nat_of_size l * nat_of_size r"
  proof -
    have "nat_of_size l = 2 * nat_of_size a + x" "nat_of_size r = 2 * nat_of_size b + y"
      unfolding a(2) b(2) x_def y_def odd_size_nat [symmetric] by (simp_all add: mod_2_eq_odd [symmetric])
    then show ?thesis by (simp add: algebra_simps)
  qed
  moreover have "size_mul l r = Some ?m"
    by (simp only: size_mul_def below_threshold low_nat assms if_False) (simp add: Let_def a(1) b(1) d(1))
  ultimately show ?thesis by simp
qed

lemma size_mul_exact:
  "\<exists>m. size_mul l r = Some m \<and> (nat_of_size m = nat_of_size l * nat_of_size r mod 2 ^ 129 \<longleftrightarrow> \<not> mul_wrong l r)"
proof (cases "unat (M_val l) < 2 ^ 63 \<and> nat_of_size r < 2 ^ 63")
  case True
  obtain m where m: "size_mul l r = Some m" "nat_of_size m = unat (M_val l) * nat_of_size r + of_bool (M_msb l) * 2 ^ 128"
    using size_mul_small True by blast
  have small: "unat (M_val l) * nat_of_size r < 2 ^ 128"
    using True mult_strict_mono' [of "unat (M_val l)" "2 ^ 63" "nat_of_size r" "2 ^ 63"] by simp
  show ?thesis
  proof (cases "M_msb l")
    case msb: True
    define c k where "c = (of_bool (odd (nat_of_size r)) :: nat)" and "k = nat_of_size r div 2"
    have r: "nat_of_size r = 2 * k + c" by (simp add: c_def k_def mod_2_eq_odd [symmetric])
    have "(v + 2 ^ 128) * (2 * k + c) = v * (2 * k + c) + c * 2 ^ 128 + k * 2 ^ 129" for v :: nat
      by (simp add: algebra_simps)
    from this [of "unat (M_val l)", folded r]
    have "nat_of_size l * nat_of_size r = unat (M_val l) * nat_of_size r + of_bool (odd (nat_of_size r)) * 2 ^ 128 + k * 2 ^ 129"
      using msb by (simp add: nat_of_size_def [of l] c_def)
    then have "nat_of_size l * nat_of_size r mod 2 ^ 129 =
        unat (M_val l) * nat_of_size r + of_bool (odd (nat_of_size r)) * 2 ^ 128"
      using small by simp
    then show ?thesis using m msb True by (auto simp: mul_wrong_def)
  next
    case False
    then show ?thesis using m small by (simp add: mul_wrong_def nat_of_size_def)
  qed
next
  case False
  then show ?thesis using size_mul_large [OF False] by (auto simp: mul_wrong_def)
qed

text \<open>Division: the quotient, in the case of the highest bit by halving and correcting by at most one.\<close>

lemma not_wrong_quotient:
  assumes "nat_of_size q * nat_of_size r < 2 ^ 129" "0 < nat_of_size r"
  shows "\<not> mul_wrong q r"
proof
  assume w: "mul_wrong q r"
  then have "2 ^ 128 \<le> nat_of_size q" "2 \<le> nat_of_size r"
    using assms(2) by (auto simp: mul_wrong_def nat_of_size_def elim: oddE)
  then have "2 ^ 128 * 2 \<le> nat_of_size q * nat_of_size r" by (rule mult_le_mono)
  with assms(1) show False by simp
qed

lemma halving_quotient:
  fixes r n :: nat
  assumes "0 < r"
  defines "q \<equiv> 2 * (n div 2 div r)"
  shows "n div r = (if r \<le> n - q * r then q + 1 else q)" "q * r \<le> n"
proof -
  have "q = n div (2 * r) * 2" by (simp add: q_def div_mult2_eq)
  then have q: "n = q * r + n mod (2 * r)" by (metis div_mult_mod_eq mult.assoc)
  then show "q * r \<le> n" by simp
  have "n mod (2 * r) < 2 * r" using assms(1) by simp
  moreover have "n div r = q + n mod (2 * r) div r"
    by (subst q) (use assms(1) in simp)
  ultimately show "n div r = (if r \<le> n - q * r then q + 1 else q)"
    using q by (auto simp: div_if)
qed

lemma nat_of_size_sub: "nat_of_size r \<le> nat_of_size l \<Longrightarrow> nat_of_size (size_sub l r) = nat_of_size l - nat_of_size r"
  using unat_size_word [of "size_sub l r"] by (simp add: size_word_sub unat_sub_if')

lemma even_increment:
  assumes "even (nat_of_size d)"
  shows "nat_of_size (d\<lparr>M_val := M_val d + 1\<rparr>) = nat_of_size d + 1"
proof -
  have "M_val d + 1 \<noteq> 0"
  proof
    assume "M_val d + 1 = 0"
    then have "M_val d = - 1" by (simp add: add_eq_0_iff2)
    with assms odd_size_nat [of d] show False by simp
  qed
  then have "unat (M_val d + 1) = unat (M_val d) + 1" by (simp add: unatSuc add.commute)
  then show ?thesis by (simp add: nat_of_size_def)
qed

lemma size_div_exact:
  assumes "0 < nat_of_size r"
  shows "\<exists>q. size_div l r = Some q \<and> nat_of_size q = nat_of_size l div nat_of_size r"
proof -
  have r: "r \<noteq> size_of_int 0" using assms by (auto simp: nat_of_size_of_int)
  have big: "2 ^ 128 \<le> nat_of_size s \<and> nat_of_size s = unat (M_val s) + 2 ^ 128" if "M_msb s" for s
    using that by (simp add: nat_of_size_def)
  consider (low) "\<not> M_msb l" "\<not> M_msb r" | (high) "M_msb l" "M_msb r" | (zero) "\<not> M_msb l" "M_msb r"
    | (mixed) "M_msb l" "\<not> M_msb r" by blast
  then show ?thesis
  proof cases
    case low
    then show ?thesis using r by (simp add: size_div_def nat_of_size_def unat_div_distrib)
  next
    case high
    have "nat_of_size l div nat_of_size r = of_bool (M_val r \<le> M_val l)"
      using big [OF high(1)] big [OF high(2)] nat_of_size_bound [of l] nat_of_size_bound [of r]
      by (auto simp: div_if word_le_nat_alt)
    then show ?thesis using high r by (simp add: size_div_def nat_of_size_def)
  next
    case zero
    have "nat_of_size l < nat_of_size r" using low_half [of l] big [OF zero(2)] zero(1) val_bound [of "M_val l"]
      by (simp add: nat_of_size_def)
    then show ?thesis using zero r by (simp add: size_div_def nat_of_size_def)
  next
    case mixed
    let ?n = "nat_of_size l" and ?r = "nat_of_size r"
    let ?q = "2 * (?n div 2 div ?r)"
    note half = halving_quotient [OF assms, of ?n]
    obtain a where a: "size_shr l (size_of_int 1) = Some a" "nat_of_size a = ?n div 2"
      using shift_by_one(1) by blast
    have val: "unat (M_val a) = nat_of_size a" "\<not> M_msb a" "unat (M_val r) = ?r"
      using low_half [of a] a(2) nat_of_size_bound [of l] mixed(2) by (auto simp: nat_of_size_def [of r])
    let ?c = "a\<lparr>M_val := M_val a div M_val r\<rparr>"
    have c: "nat_of_size ?c = ?n div 2 div ?r"
      using val a(2) by (simp add: nat_of_size_def [of ?c] unat_div_distrib)
    obtain d where d: "size_shl ?c (size_of_int 1) = Some d" "nat_of_size d = 2 * nat_of_size ?c mod 2 ^ 129"
      using shift_by_one(2) by blast
    have "?q \<le> ?n" using half(2) assms by (metis le_trans mult.right_neutral mult_le_mono2 Suc_leI One_nat_def)
    then have q: "nat_of_size d = ?q" using d(2) c nat_of_size_bound [of l] by simp
    have small: "?q * ?r < 2 ^ 129" using half(2) nat_of_size_bound [of l] by (rule le_less_trans)
    then have "\<not> mul_wrong d r" by (intro not_wrong_quotient [OF _ assms]) (simp only: q)
    then obtain p where p: "size_mul d r = Some p" "nat_of_size p = ?q * ?r"
      using size_mul_exact [of d r] small by (auto simp: q)
    have "size_div l r = Some (if ?r \<le> ?n - ?q * ?r then d\<lparr>M_val := M_val d + 1\<rparr> else d)"
      using mixed r half(2) a(1) d(1) p
      by (simp add: size_div_def Let_def size_order word_le_nat_alt nat_of_size_sub)
    moreover have "nat_of_size (d\<lparr>M_val := M_val d + 1\<rparr>) = ?q + 1" using even_increment [of d] q by simp
    ultimately show ?thesis using half(1) q by simp
  qed
qed

lemma size_mod_exact:
  assumes "0 < nat_of_size r"
  shows "\<exists>m. size_mod l r = Some m \<and> nat_of_size m = nat_of_size l mod nat_of_size r"
proof (cases "M_msb l \<or> M_msb r")
  case True
  obtain q where q: "size_div l r = Some q" "nat_of_size q = nat_of_size l div nat_of_size r"
    using size_div_exact [OF assms] by blast
  have le: "nat_of_size q * nat_of_size r \<le> nat_of_size l" by (simp add: q(2) div_times_less_eq_dividend)
  then have small: "nat_of_size q * nat_of_size r < 2 ^ 129" using nat_of_size_bound [of l] by (rule le_less_trans)
  obtain p where p: "size_mul q r = Some p" "nat_of_size p = nat_of_size q * nat_of_size r"
    using size_mul_exact [of q r] not_wrong_quotient [OF small assms] small by auto
  have "nat_of_size (size_sub l p) = nat_of_size l mod nat_of_size r"
    using le by (simp add: nat_of_size_sub p(2) q(2) minus_div_mult_eq_mod)
  moreover have "size_mod l r = Some (size_sub l p)" using True q(1) p(1) by (auto simp: size_mod_def)
  ultimately show ?thesis by blast
next
  case False
  then have "M_val r \<noteq> 0" using assms by (auto simp: nat_of_size_def)
  then show ?thesis using False by (simp add: size_mod_def nat_of_size_def unat_mod_distrib)
qed

lemma size_div_zero: "nat_of_size r = 0 \<Longrightarrow> size_div l r = None \<and> size_mod l r = None"
proof -
  assume z: "nat_of_size r = 0"
  then have "r = size_of_int 0" using nat_of_size_inj [of r "size_of_int 0"] by (simp add: nat_of_size_of_int)
  moreover have "M_val r = 0" "\<not> M_msb r" using z by (auto simp: nat_of_size_def word_unat_eq_iff)
  ultimately show ?thesis by (simp add: size_div_def size_mod_def)
qed

section \<open>What the signed type stands for\<close>

definition int_of_diff :: "max_diff \<Rightarrow> int" where
  "int_of_diff d = sint (size_word (M_rep d))"

definition diff_word :: "max_diff \<Rightarrow> 129 word" where
  "diff_word d = size_word (M_rep d)"

lemma diff_word_simps:
  "diff_word (diff_add l r) = diff_word l + diff_word r" "diff_word (diff_sub l r) = diff_word l - diff_word r"
  "diff_word (diff_neg l) = - diff_word l" "diff_word (diff_not l) = NOT (diff_word l)"
  "diff_word (diff_and l r) = diff_word l AND diff_word r" "diff_word (diff_or l r) = diff_word l OR diff_word r"
  "diff_word (diff_xor l r) = diff_word l XOR diff_word r"
  by (simp_all add: diff_word_def diff_add_def diff_sub_def diff_neg_def diff_not_def diff_and_def diff_or_def
      diff_xor_def diff_of_size_def size_word_add size_word_sub size_word_neg size_word_not size_word_bits)

lemma val_int: "0 \<le> uint (w :: 128 word)" "uint (w :: 128 word) < 2 ^ 128"
  using uint_bounded [of w] by simp_all

lemma int_of_diff_value: "int_of_diff d = uint (M_val (M_rep d)) - of_bool (M_msb (M_rep d)) * 2 ^ 128"
proof -
  have "uint (size_word (M_rep d)) = uint (M_val (M_rep d)) + of_bool (M_msb (M_rep d)) * 2 ^ 128"
    unfolding uint_nat unat_size_word nat_of_size_def by simp
  then have "int_of_diff d = (uint (M_val (M_rep d)) + of_bool (M_msb (M_rep d)) * 2 ^ 128 + 2 ^ 128) mod 2 ^ 129 - 2 ^ 128"
    unfolding int_of_diff_def sint_uint by (simp add: signed_take_bit_eq_take_bit_shift take_bit_eq_mod)
  then show ?thesis
    using uint_bounded [of "M_val (M_rep d)"] by (cases "M_msb (M_rep d)") simp_all
qed

lemma int_of_diff_cases:
  obtains (nonneg) u where "\<not> M_msb (M_rep d)" "int_of_diff d = u" "uint (M_val (M_rep d)) = u" "0 \<le> u" "u < 2 ^ 128"
  | (neg) u where "M_msb (M_rep d)" "int_of_diff d = u - 2 ^ 128" "uint (M_val (M_rep d)) = u" "0 \<le> u" "u < 2 ^ 128"
proof (cases "M_msb (M_rep d)")
  case True
  then show ?thesis using neg val_int [of "M_val (M_rep d)"] by (simp only: int_of_diff_value of_bool_eq mult_1)
next
  case False
  then show ?thesis using val_int [of "M_val (M_rep d)"]
    by (intro nonneg [of "uint (M_val (M_rep d))"]) (simp_all add: int_of_diff_value)
qed

lemma int_of_diff_bounds: "- (2 ^ 128) \<le> int_of_diff d \<and> int_of_diff d < 2 ^ 128"
  by (cases d rule: int_of_diff_cases) simp_all

lemma int_of_diff_neg: "int_of_diff d < 0 \<longleftrightarrow> M_msb (M_rep d)"
  by (cases d rule: int_of_diff_cases) simp_all

lemma diff_less_iff: "diff_less l r \<longleftrightarrow> int_of_diff l < int_of_diff r"
  by (cases l rule: int_of_diff_cases; cases r rule: int_of_diff_cases)
    (simp_all add: diff_less_def size_less_def word_less_def)

lemma diff_eq_iff: "diff_eq l r \<longleftrightarrow> int_of_diff l = int_of_diff r"
  by (auto simp: diff_eq_def int_of_diff_def size_word_inj [symmetric] intro: signed_word_eqI)

lemma word_of_int_of_diff: "word_of_int (int_of_diff d) = diff_word d"
  by (simp add: int_of_diff_def diff_word_def)

lemma int_of_diff_of_int: "- (2 ^ 127) \<le> i \<Longrightarrow> i < 2 ^ 127 \<Longrightarrow> int_of_diff (diff_of_int i) = i"
  by (simp add: int_of_diff_def diff_of_int_def size_word_of_int signed_of_int signed_take_bit_int_eq_self)

text \<open>The magnitude, by which division is reduced to the unsigned type.\<close>

lemma magnitude:
  "nat_of_size (if int_of_diff d < 0 then size_neg (M_rep d) else M_rep d) = nat \<bar>int_of_diff d\<bar>"
proof (cases "int_of_diff d < 0")
  case True
  define i where "i = - int_of_diff d"
  have "size_word (size_neg (M_rep d)) = word_of_int i"
    by (simp add: size_word_neg int_of_diff_def i_def)
  then have "nat_of_size (size_neg (M_rep d)) = unat (word_of_int i :: 129 word)"
    by (metis unat_size_word)
  also have "\<dots> = nat (- int_of_diff d)"
    using True int_of_diff_bounds [of d] by (simp add: unsigned_of_int take_bit_int_eq_self i_def [symmetric])
      (simp add: i_def take_bit_int_eq_self)
  finally show ?thesis using True by simp
next
  case False
  then have "\<not> M_msb (M_rep d)" using int_of_diff_neg by blast
  then show ?thesis using False by (simp add: int_of_diff_value nat_of_size_def)
qed

lemma diff_div_word:
  assumes "int_of_diff r \<noteq> 0"
  shows "\<exists>q. diff_div l r = Some q \<and> diff_word q = word_of_int (int_of_diff l sdiv int_of_diff r)"
proof -
  define a b where "a = (if int_of_diff l < 0 then size_neg (M_rep l) else M_rep l)"
    and "b = (if int_of_diff r < 0 then size_neg (M_rep r) else M_rep r)"
  have nat: "nat_of_size a = nat \<bar>int_of_diff l\<bar>" "nat_of_size b = nat \<bar>int_of_diff r\<bar>"
    using magnitude by (simp_all add: a_def b_def)
  obtain q where q: "size_div a b = Some q" "nat_of_size q = nat_of_size a div nat_of_size b"
    using size_div_exact [of b a] nat assms by auto
  have q_word: "size_word q = word_of_int (\<bar>int_of_diff l\<bar> div \<bar>int_of_diff r\<bar>)"
  proof -
    have "int (nat_of_size q) = \<bar>int_of_diff l\<bar> div \<bar>int_of_diff r\<bar>" by (simp add: q(2) nat zdiv_int)
    then show ?thesis unfolding size_word_def by (metis of_int_of_nat_eq)
  qed
  have zero: "int_of_diff (diff_of_int 0) = 0" by (simp add: int_of_diff_of_int)
  let ?q = "if (int_of_diff l < 0) = (int_of_diff r < 0) then q else size_neg q"
  have "diff_div l r = Some (l\<lparr>M_rep := ?q\<rparr>)"
    using q(1) assms by (auto simp: diff_div_def Let_def diff_less_iff diff_eq_iff zero a_def b_def split: if_splits)
  moreover have "size_word ?q = word_of_int (int_of_diff l sdiv int_of_diff r)"
    using assms by (cases "int_of_diff l = 0") (auto simp: size_word_neg q_word signed_divide_int_def sgn_if)
  ultimately show ?thesis by (auto simp: diff_word_def)
qed

lemma diff_mul_word:
  assumes "\<not> mul_wrong (M_rep l) (M_rep r)"
  shows "\<exists>m. diff_mul l r = Some m \<and> diff_word m = diff_word l * diff_word r"
proof -
  obtain m where m: "size_mul (M_rep l) (M_rep r) = Some m"
    "nat_of_size m = nat_of_size (M_rep l) * nat_of_size (M_rep r) mod 2 ^ 129"
    using size_mul_exact assms by blast
  have "size_word m = size_word (M_rep l) * size_word (M_rep r)"
    by (simp add: word_unat_eq_iff m(2) unat_word_ariths)
  then show ?thesis using m(1) by (simp add: diff_mul_def diff_word_def)
qed

lemma int_of_diff_word: "diff_word d = word_of_int k \<Longrightarrow> int_of_diff d = signed_take_bit 128 k"
  unfolding int_of_diff_def diff_word_def [symmetric] by (simp add: signed_of_int)

lemma sdiv_bound:
  assumes "- (2 ^ 128) \<le> (a :: int)" "a < 2 ^ 128" "2 \<le> b"
  shows "- (2 ^ 127) \<le> a sdiv b \<and> a sdiv b \<le> 2 ^ 127"
proof -
  have "\<bar>a\<bar> \<le> 2 ^ 128" using assms by auto
  then have "\<bar>a\<bar> div \<bar>b\<bar> \<le> 2 ^ 128 div 2"
    using assms(3) zdiv_mono1 [of "\<bar>a\<bar>" "2 ^ 128" b] zdiv_mono2 [of "2 ^ 128" 2 b] by auto
  moreover have "0 \<le> \<bar>a\<bar> div \<bar>b\<bar>" using assms(3) by (simp add: pos_imp_zdiv_nonneg_iff)
  ultimately show ?thesis by (auto simp: signed_divide_int_def sgn_if)
qed

lemma quotient_not_wrong:
  assumes "diff_word q = word_of_int (int_of_diff l sdiv int_of_diff r)"
  shows "\<not> mul_wrong (M_rep q) (M_rep r)"
proof
  assume w: "mul_wrong (M_rep q) (M_rep r)"
  have r: "\<not> M_msb (M_rep r)" "int_of_diff r = int (nat_of_size (M_rep r))"
  proof -
    show "\<not> M_msb (M_rep r)" using w by (auto simp: mul_wrong_def nat_of_size_def)
    then show "int_of_diff r = int (nat_of_size (M_rep r))" by (simp add: int_of_diff_value nat_of_size_def)
  qed
  show False
  proof (cases "nat_of_size (M_rep r) = 0")
    case True
    then have "diff_word q = 0" using assms r(2) by (simp add: signed_divide_int_def)
    then have "nat_of_size (M_rep q) = 0" by (metis diff_word_def unat_size_word unsigned_0)
    then show False using w by (auto simp: mul_wrong_def nat_of_size_def)
  next
    case False
    then have "2 \<le> int_of_diff r" using w r(2) by (auto simp: mul_wrong_def elim!: evenE)
    then have b: "- (2 ^ 127) \<le> int_of_diff l sdiv int_of_diff r \<and> int_of_diff l sdiv int_of_diff r \<le> 2 ^ 127"
      using int_of_diff_bounds [of l] sdiv_bound by blast
    then have "int_of_diff q = int_of_diff l sdiv int_of_diff r"
      using int_of_diff_word [OF assms] by (simp add: signed_take_bit_int_eq_self)
    moreover have "int_of_diff q < - (2 ^ 128) + 2 ^ 63"
      using w by (cases q rule: int_of_diff_cases) (auto simp: mul_wrong_def unat_eq_nat_uint nat_less_iff)
    ultimately show False using b by simp
  qed
qed

lemma diff_mod_word:
  assumes "int_of_diff r \<noteq> 0"
  shows "\<exists>m. diff_mod l r = Some m \<and> diff_word m = word_of_int (int_of_diff l smod int_of_diff r)"
proof (cases "0 \<le> int_of_diff l \<and> 0 < int_of_diff r")
  case True
  then have nat: "nat_of_size (M_rep l) = nat (int_of_diff l)" "nat_of_size (M_rep r) = nat (int_of_diff r)"
    using magnitude [of l] magnitude [of r] by auto
  obtain m where m: "size_mod (M_rep l) (M_rep r) = Some m" "nat_of_size m = nat_of_size (M_rep l) mod nat_of_size (M_rep r)"
    using size_mod_exact [of "M_rep r" "M_rep l"] nat True by auto
  have "int (nat_of_size m) = int_of_diff l smod int_of_diff r"
    using True by (simp add: m(2) nat zmod_int signed_modulo_int_def sgn_if)
  then have "size_word m = word_of_int (int_of_diff l smod int_of_diff r)"
    unfolding size_word_def by (metis of_int_of_nat_eq)
  moreover have "diff_mod l r = Some (l\<lparr>M_rep := m\<rparr>)"
    using True m(1) assms
    by (simp add: diff_mod_def diff_eq_iff diff_ge_def diff_greater_def diff_less_iff int_of_diff_of_int)
  ultimately show ?thesis by (simp add: diff_word_def)
next
  case False
  obtain q where q: "diff_div l r = Some q" "diff_word q = word_of_int (int_of_diff l sdiv int_of_diff r)"
    using diff_div_word [OF assms] by blast
  obtain p where p: "diff_mul q r = Some p" "diff_word p = diff_word q * diff_word r"
    using diff_mul_word [OF quotient_not_wrong [OF q(2)]] by blast
  have "diff_word (diff_sub l p) = word_of_int (int_of_diff l - int_of_diff l sdiv int_of_diff r * int_of_diff r)"
    by (simp add: diff_word_simps p(2) q(2) word_of_int_of_diff)
  then have "diff_word (diff_sub l p) = word_of_int (int_of_diff l smod int_of_diff r)"
    by (simp only: minus_sdiv_mult_eq_smod)
  moreover have "diff_mod l r = Some (diff_sub l p)"
    using False q(1) p(1) assms
    by (auto simp: diff_mod_def diff_eq_iff diff_ge_def diff_greater_def diff_less_iff int_of_diff_of_int)
  ultimately show ?thesis by blast
qed

lemma diff_shl_word:
  "nat_of_size (M_rep r) \<le> 128 \<Longrightarrow>
   \<exists>m. diff_shl l r = Some m \<and> diff_word m = push_bit (nat_of_size (M_rep r)) (diff_word l)"
  using size_shl_word [of "M_rep r" "M_rep l"] by (auto simp: diff_shl_def diff_word_def)

lemma diff_shr_word:
  assumes "nat_of_size (M_rep r) \<le> 128"
  shows "\<exists>m. diff_shr l r = Some m \<and> diff_word m = word_of_int (drop_bit (nat_of_size (M_rep r)) (int_of_diff l))"
proof -
  obtain m where m: "size_shr (M_rep l) (M_rep r) = Some m"
    "size_word m = drop_bit (nat_of_size (M_rep r)) (size_word (M_rep l))" using size_shr_word [OF assms] by blast
  obtain n where n: "size_shr (size_of_int (- 1)) (M_rep r) = Some n"
    "size_word n = drop_bit (nat_of_size (M_rep r)) (size_word (size_of_int (- 1)))" using size_shr_word [OF assms] by blast
  let ?m = "if M_msb (M_rep l) then size_or m (size_not n) else m"
  have msb: "M_msb (M_rep l) \<longleftrightarrow> bit (size_word (M_rep l)) 128" by (simp add: bit_size_word)
  have "size_word ?m = word_of_int (drop_bit (nat_of_size (M_rep r)) (int_of_diff l))"
  proof (rule bit_eqI)
    fix k assume "possible_bit TYPE(129 word) k"
    then show "bit (size_word ?m) k = bit (word_of_int (drop_bit (nat_of_size (M_rep r)) (int_of_diff l)) :: 129 word) k"
      using bit_imp_le_length [of "size_word (M_rep l)" "nat_of_size (M_rep r) + k"]
      by (cases "nat_of_size (M_rep r) + k = 128") (auto simp: size_word_bits size_word_not m(2) n(2) size_word_of_int int_of_diff_def msb bit_simps min_def)
  qed
  then show ?thesis using m(1) n(1) by (simp add: diff_shr_def diff_word_def)
qed

section \<open>Properties\<close>

lemma size_shifts_word:
  "map_option size_word (size_shl l r) = (if nat_of_size r \<le> 128 then Some (push_bit (nat_of_size r) (size_word l)) else None)"
  "map_option size_word (size_shr l r) = (if nat_of_size r \<le> 128 then Some (drop_bit (nat_of_size r) (size_word l)) else None)"
  using size_shl_word [of r l] size_shr_word [of r l] size_shift_none [of r l] by auto

lemma size_division_word:
  "map_option size_word (size_div l r) = (if size_word r = 0 then None else Some (size_word l div size_word r))"
  "map_option size_word (size_mod l r) = (if size_word r = 0 then None else Some (size_word l mod size_word r))"
  using size_div_exact [of r l] size_mod_exact [of r l] size_div_zero [of r l]
  by (auto simp: word_unat_eq_iff unat_div_distrib unat_mod_distrib)

lemma size_mul_word: "map_option size_word (size_mul l r) = Some (size_word l * size_word r) \<longleftrightarrow> \<not> mul_wrong l r"
  using size_mul_exact [of l r] by (auto simp: word_unat_eq_iff unat_word_ariths)

text \<open>
  C18: \<open>__max_size_type\<close> is the ring of 129-bit words: every operation is the one on those words, for shift counts
  up to 128 and divisors other than zero (beyond, its assertion fails), but for the product. That
  is wrong exactly when the left factor has its highest bit set and less than 2^63 below it, and the right factor is
  even and less than 2^63; so 2^128 times 0 is 2^128.
\<close>

theorem max_size_arithmetic:
  "inj size_word \<and>
   size_word (size_add l r) = size_word l + size_word r \<and> size_word (size_sub l r) = size_word l - size_word r \<and>
   size_word (size_neg l) = - size_word l \<and> size_word (size_not l) = NOT (size_word l) \<and>
   size_word (size_and l r) = size_word l AND size_word r \<and> size_word (size_or l r) = size_word l OR size_word r \<and>
   size_word (size_xor l r) = size_word l XOR size_word r \<and> (size_less l r \<longleftrightarrow> size_word l < size_word r) \<and>
   map_option size_word (size_shl l r) = (if nat_of_size r \<le> 128 then Some (push_bit (nat_of_size r) (size_word l)) else None) \<and>
   map_option size_word (size_shr l r) = (if nat_of_size r \<le> 128 then Some (drop_bit (nat_of_size r) (size_word l)) else None) \<and>
   map_option size_word (size_div l r) = (if size_word r = 0 then None else Some (size_word l div size_word r)) \<and>
   map_option size_word (size_mod l r) = (if size_word r = 0 then None else Some (size_word l mod size_word r)) \<and>
   (map_option size_word (size_mul l r) = Some (size_word l * size_word r) \<longleftrightarrow>
     \<not> (M_msb l \<and> unat (M_val l) < 2 ^ 63 \<and> nat_of_size r < 2 ^ 63 \<and> even (nat_of_size r))) \<and>
   size_mul \<lparr>M_val = 0, M_msb = True\<rparr> (size_of_int 0) = Some \<lparr>M_val = 0, M_msb = True\<rparr>"
proof -
  have "size_mul \<lparr>M_val = 0, M_msb = True\<rparr> (size_of_int 0) = Some \<lparr>M_val = 0, M_msb = True\<rparr>"
    by (simp add: size_mul_def size_of_int_def size_less_def mul_threshold_def S_rep_bits_def)
  then show ?thesis
    unfolding size_shifts_word size_division_word size_mul_word mul_wrong_def
    by (simp add: inj_def size_word_inj size_word_add size_word_sub size_word_neg size_word_not size_word_bits size_less_iff)
qed

lemma diff_divisions:
  "map_option int_of_diff (diff_div l r) =
     (if int_of_diff r = 0 then None else Some (signed_take_bit 128 (int_of_diff l sdiv int_of_diff r)))"
  "map_option int_of_diff (diff_mod l r) = (if int_of_diff r = 0 then None else Some (int_of_diff l smod int_of_diff r))"
proof -
  have zero: "diff_div l r = None \<and> diff_mod l r = None" if "int_of_diff r = 0"
    using that by (simp add: diff_div_def diff_mod_def diff_eq_iff int_of_diff_of_int Let_def)
  show "map_option int_of_diff (diff_div l r) =
     (if int_of_diff r = 0 then None else Some (signed_take_bit 128 (int_of_diff l sdiv int_of_diff r)))"
    using zero diff_div_word [of r l] int_of_diff_word by auto
  have "\<bar>int_of_diff l smod int_of_diff r\<bar> < 2 ^ 128" if r: "int_of_diff r \<noteq> 0"
  proof -
    define m where "m = \<bar>int_of_diff l\<bar> mod \<bar>int_of_diff r\<bar>"
    have "0 \<le> m" "m < \<bar>int_of_diff r\<bar>" using r by (simp_all add: m_def)
    moreover have "\<bar>int_of_diff r\<bar> \<le> 2 ^ 128" using int_of_diff_bounds [of r] by auto
    moreover have "\<bar>int_of_diff l smod int_of_diff r\<bar> \<le> m"
      using \<open>0 \<le> m\<close> by (simp add: signed_modulo_int_def m_def [symmetric] sgn_if)
    ultimately show ?thesis by linarith
  qed
  then have "signed_take_bit 128 (int_of_diff l smod int_of_diff r) = int_of_diff l smod int_of_diff r"
    if "int_of_diff r \<noteq> 0" using that by (intro signed_take_bit_int_eq_self) (auto simp: abs_less_iff)
  then show "map_option int_of_diff (diff_mod l r) = (if int_of_diff r = 0 then None else Some (int_of_diff l smod int_of_diff r))"
    using zero diff_mod_word [of r l] int_of_diff_word by (auto split: if_splits)
qed

lemma shift_range: "nat_of_size (M_rep r) \<le> 128 \<longleftrightarrow> 0 \<le> int_of_diff r \<and> int_of_diff r \<le> 128"
  "nat_of_size (M_rep r) \<le> 128 \<Longrightarrow> nat_of_size (M_rep r) = nat (int_of_diff r)"
  by (cases r rule: int_of_diff_cases; auto simp: nat_of_size_def unat_eq_nat_uint)+

lemma diff_compare_eq:
  "diff_compare l r = (if int_of_diff l < int_of_diff r then Less else if int_of_diff l = int_of_diff r then Equal else Greater)"
  by (cases l rule: int_of_diff_cases; cases r rule: int_of_diff_cases)
    (auto simp: diff_compare_def size_compare_def word_less_def word_uint_eq_iff)

lemma limits: "int_of_diff diff_min = - (2 ^ 128)" "int_of_diff diff_max = 2 ^ 128 - 1" "size_word size_max = - 1"
  by (simp_all add: int_of_diff_value diff_min_def diff_max_def diff_of_size_def unsigned_minus_1_eq_mask mask_eq_exp_minus_1)
    (rule bit_eqI, simp add: bit_size_word size_max_def bit_simps)

lemma diff_shr_int:
  "map_option int_of_diff (diff_shr l r) =
     (if 0 \<le> int_of_diff r \<and> int_of_diff r \<le> 128 then Some (int_of_diff l div 2 ^ nat (int_of_diff r)) else None)"
proof (cases "nat_of_size (M_rep r) \<le> 128")
  case True
  let ?n = "nat_of_size (M_rep r)"
  obtain m where m: "diff_shr l r = Some m" "diff_word m = word_of_int (drop_bit ?n (int_of_diff l))"
    using diff_shr_word [OF True] by blast
  have "signed_take_bit 128 (drop_bit ?n (int_of_diff l)) = drop_bit ?n (int_of_diff l)"
    by (rule bit_eqI) (auto simp: int_of_diff_def bit_simps min_def)
  then have "int_of_diff m = int_of_diff l div 2 ^ ?n"
    using int_of_diff_word [OF m(2)] by (simp add: drop_bit_eq_div)
  then show ?thesis using m(1) shift_range(2) [OF True] True shift_range(1) [of r] by simp
next
  case False
  then show ?thesis using size_shift_none [of "M_rep r" "M_rep l"] shift_range(1) [of r] by (auto simp: diff_shr_def Let_def)
qed

lemma quotient_wraps_once:
  fixes a b :: int
  assumes "- (2 ^ 128) \<le> a" "a < 2 ^ 128"
  shows "signed_take_bit 128 (a sdiv b) = (if a = - (2 ^ 128) \<and> b = - 1 then - (2 ^ 128) else a sdiv b)"
proof (cases "a = - (2 ^ 128) \<and> b = - 1")
  case True
  then show ?thesis by (simp add: signed_take_bit_eq_take_bit_shift take_bit_eq_mod)
next
  case False
  have "\<bar>a sdiv b\<bar> \<le> \<bar>a\<bar>" using sdiv_int_range [of a b] by auto
  moreover have "a sdiv b \<noteq> 2 ^ 128" if "a = - (2 ^ 128)"
  proof
    assume q: "a sdiv b = 2 ^ 128"
    have nonneg: "0 \<le> \<bar>a\<bar> div \<bar>b\<bar>" by (simp add: pos_imp_zdiv_nonneg_iff div_int_pos_iff)
    have m: "\<bar>a\<bar> div \<bar>b\<bar> = 2 ^ 128"
      using q nonneg that unfolding signed_divide_int_def by (cases "b = 0"; cases "0 < b") (simp_all add: sgn_if)
    have "\<bar>b\<bar> \<noteq> 0" using m by auto
    moreover have "\<not> 2 \<le> \<bar>b\<bar>"
      using zdiv_mono2 [of "2 ^ 128" 2 "\<bar>b\<bar>"] m that by auto
    ultimately have "b = 1 \<or> b = - 1" by linarith
    with q that False show False by (auto simp: signed_divide_int_def)
  qed
  ultimately have "- (2 ^ 128) \<le> a sdiv b \<and> a sdiv b < 2 ^ 128" using assms by linarith
  then show ?thesis using False by (simp add: signed_take_bit_int_eq_self)
qed

lemma diff_quotient:
  "map_option int_of_diff (diff_div l r) =
     (if int_of_diff r = 0 then None
      else if int_of_diff l = - (2 ^ 128) \<and> int_of_diff r = - 1 then Some (- (2 ^ 128))
      else Some (int_of_diff l sdiv int_of_diff r))"
  using int_of_diff_bounds [of l] by (simp only: diff_divisions(1) quotient_wraps_once if_distrib [of Some])

text \<open>
  C32: \<open>__max_diff_type\<close> computes with signed numbers of 129 bits. Order and equality are those of the numbers. Sum,
  difference and negation wrap around at 129 bits. The quotient is the one rounded towards zero, with one exception,
  where it wraps around: the least number divided by -1 is the least number. The remainder (with the sign of the
  dividend) and the right shift (division rounding down) are exact. Division by zero and shift counts that are
  negative or above 128 have no defined result. The product has the unsigned type's mistake: the least number times 0 is itself.
\<close>

theorem max_diff_arithmetic:
  "(diff_less l r \<longleftrightarrow> int_of_diff l < int_of_diff r) \<and> (diff_eq l r \<longleftrightarrow> int_of_diff l = int_of_diff r) \<and>
   int_of_diff (diff_add l r) = signed_take_bit 128 (int_of_diff l + int_of_diff r) \<and>
   int_of_diff (diff_sub l r) = signed_take_bit 128 (int_of_diff l - int_of_diff r) \<and>
   int_of_diff (diff_neg l) = signed_take_bit 128 (- int_of_diff l) \<and>
   map_option int_of_diff (diff_div l r) =
     (if int_of_diff r = 0 then None
      else if int_of_diff l = - (2 ^ 128) \<and> int_of_diff r = - 1 then Some (- (2 ^ 128))
      else Some (int_of_diff l sdiv int_of_diff r)) \<and>
   map_option int_of_diff (diff_mod l r) =
     (if int_of_diff r = 0 then None else Some (int_of_diff l smod int_of_diff r)) \<and>
   map_option int_of_diff (diff_shr l r) =
     (if 0 \<le> int_of_diff r \<and> int_of_diff r \<le> 128 then Some (int_of_diff l div 2 ^ nat (int_of_diff r)) else None) \<and>
   diff_mul diff_min (diff_of_int 0) = Some diff_min"
proof -
  have "diff_mul diff_min (diff_of_int 0) = Some diff_min"
    by (simp add: diff_mul_def diff_min_def diff_of_size_def diff_of_int_def size_mul_def size_of_int_def size_less_def
        mul_threshold_def S_rep_bits_def)
  moreover have "int_of_diff (diff_add l r) = signed_take_bit 128 (int_of_diff l + int_of_diff r)"
    "int_of_diff (diff_sub l r) = signed_take_bit 128 (int_of_diff l - int_of_diff r)"
    "int_of_diff (diff_neg l) = signed_take_bit 128 (- int_of_diff l)"
    by (auto intro!: int_of_diff_word simp: diff_word_simps word_of_int_of_diff)
  ultimately show ?thesis
    by (simp only: diff_quotient diff_divisions(2) diff_shr_int diff_less_iff diff_eq_iff simp_thms)
qed

end
