(* ===== verification/Stl_Scan.thy ===== *)
theory Stl_Scan
  imports Stl_Ops
begin

text \<open>
  Linear searches (\<open>kernel/include/bits/stl_algobase.h\<close>, \<open>kernel/include/bits/stl_algo.h\<close>). They only look at what the
  iterators point at, so a predicate here is one on positions, e.g. \<open>iter_pred p xs\<close>. The category of the iterators picks
  the variant. Ranges are valid: \<open>first\<close> is not behind \<open>stop\<close>, so an iterator that went up to \<open>stop\<close> step by step is
  before it or at it.
\<close>

datatype iterator_tag = Input_iterator | Forward_iterator | Bidirectional_iterator | Random_access_iterator

lemma range_of_append: "a \<le> b \<Longrightarrow> b \<le> c \<Longrightarrow> range_of a c xs = range_of a b xs @ range_of b c xs"
proof -
  assume "a \<le> b" "b \<le> c"
  then have "c - a = (b - a) + (c - b)" "drop (b - a) (drop a xs) = drop b xs" by simp_all
  then show ?thesis by (simp only: range_of_def take_add)
qed

lemma range_of_Cons: "first < stop \<Longrightarrow> stop \<le> length xs \<Longrightarrow> range_of first stop xs = xs ! first # range_of (first + 1) stop xs"
  by (simp add: range_of_def Cons_nth_drop_Suc [symmetric] take_Cons' )

section \<open>Finding an element\<close>

function find_if_input :: "(nat \<Rightarrow> bool) \<Rightarrow> nat \<Rightarrow> nat \<Rightarrow> nat" where
  "find_if_input pr first stop = (if first < stop \<and> \<not> pr first then find_if_input pr (first + 1) stop else first)"
  by pat_completeness auto
termination by (relation "measure (\<lambda>(pr, first, stop). stop - first)") auto

declare find_if_input.simps [simp del]

text \<open>For random access the loop is unrolled four times; \<open>Inl\<close> is its \<open>return\<close>, \<open>Inr\<close> where it leaves off. The \<open>switch\<close>
  behind it falls through.\<close>

primrec find_if_trips :: "(nat \<Rightarrow> bool) \<Rightarrow> nat \<Rightarrow> nat \<Rightarrow> nat + nat" where
  "find_if_trips pr 0 first = Inr first"
| "find_if_trips pr (Suc trip_count) first =
     (if pr first then Inl first
      else let first = first + 1 in
        if pr first then Inl first
        else let first = first + 1 in
          if pr first then Inl first
          else let first = first + 1 in
            if pr first then Inl first
            else let first = first + 1 in find_if_trips pr trip_count first)"

definition find_if_switch :: "(nat \<Rightarrow> bool) \<Rightarrow> nat \<Rightarrow> nat \<Rightarrow> nat" where
  "find_if_switch pr first stop =
     (let case1 = (\<lambda>first. if pr first then first else stop);
          case2 = (\<lambda>first. if pr first then first else let first = first + 1 in case1 first);
          case3 = (\<lambda>first. if pr first then first else let first = first + 1 in case2 first)
      in if stop - first = 3 then case3 first
         else if stop - first = 2 then case2 first
         else if stop - first = 1 then case1 first
         else stop)"

definition find_if_random :: "(nat \<Rightarrow> bool) \<Rightarrow> nat \<Rightarrow> nat \<Rightarrow> nat" where
  "find_if_random pr first stop =
     (let trip_count = (stop - first) div 4 in
      case find_if_trips pr trip_count first of Inl r \<Rightarrow> r | Inr first \<Rightarrow> find_if_switch pr first stop)"

definition find_if :: "iterator_tag \<Rightarrow> (nat \<Rightarrow> bool) \<Rightarrow> nat \<Rightarrow> nat \<Rightarrow> nat" where
  "find_if tag pr first stop = (if tag = Random_access_iterator then find_if_random pr first stop else find_if_input pr first stop)"

definition find_if_not :: "iterator_tag \<Rightarrow> (nat \<Rightarrow> bool) \<Rightarrow> nat \<Rightarrow> nat \<Rightarrow> nat" where
  "find_if_not tag pr first stop = find_if tag (\<lambda>i. \<not> pr i) first stop"

text \<open>This one counts the length down instead of looking for the end; it returns both.\<close>

primrec find_if_not_n :: "(nat \<Rightarrow> bool) \<Rightarrow> nat \<Rightarrow> nat \<Rightarrow> nat \<times> nat" where
  "find_if_not_n pr first 0 = (first, 0)"
| "find_if_not_n pr first (Suc len) = (if \<not> pr first then (first, Suc len) else find_if_not_n pr (first + 1) len)"

definition all_of :: "iterator_tag \<Rightarrow> (nat \<Rightarrow> bool) \<Rightarrow> nat \<Rightarrow> nat \<Rightarrow> bool" where
  "all_of tag pr first stop \<longleftrightarrow> stop = find_if_not tag pr first stop"

definition none_of :: "iterator_tag \<Rightarrow> (nat \<Rightarrow> bool) \<Rightarrow> nat \<Rightarrow> nat \<Rightarrow> bool" where
  "none_of tag pr first stop \<longleftrightarrow> stop = find_if tag pr first stop"

definition any_of :: "iterator_tag \<Rightarrow> (nat \<Rightarrow> bool) \<Rightarrow> nat \<Rightarrow> nat \<Rightarrow> bool" where
  "any_of tag pr first stop \<longleftrightarrow> \<not> none_of tag pr first stop"

definition is_partitioned :: "iterator_tag \<Rightarrow> (nat \<Rightarrow> bool) \<Rightarrow> nat \<Rightarrow> nat \<Rightarrow> bool" where
  "is_partitioned tag pr first stop =
     (let first = find_if_not tag pr first stop in
      if first = stop then True else none_of tag pr (first + 1) stop)"

function count_if_loop :: "(nat \<Rightarrow> bool) \<Rightarrow> nat \<Rightarrow> nat \<Rightarrow> nat \<Rightarrow> nat" where
  "count_if_loop pr n first stop =
     (if first < stop then count_if_loop pr (if pr first then n + 1 else n) (first + 1) stop else n)"
  by pat_completeness auto
termination by (relation "measure (\<lambda>(pr, n, first, stop). stop - first)") auto

declare count_if_loop.simps [simp del]

definition count_if :: "(nat \<Rightarrow> bool) \<Rightarrow> nat \<Rightarrow> nat \<Rightarrow> nat" where
  "count_if pr first stop = count_if_loop pr 0 first stop"

function adjacent_find_loop :: "(nat \<Rightarrow> nat \<Rightarrow> bool) \<Rightarrow> nat \<Rightarrow> nat \<Rightarrow> nat \<Rightarrow> nat" where
  "adjacent_find_loop bp first nxt stop =
     (let nxt = nxt + 1 in
      if nxt < stop then (if bp first nxt then first else let first = nxt in adjacent_find_loop bp first nxt stop)
      else stop)"
  by pat_completeness auto
termination by (relation "measure (\<lambda>(bp, first, nxt, stop). stop - nxt)") auto

declare adjacent_find_loop.simps [simp del]

definition adjacent_find_with :: "(nat \<Rightarrow> nat \<Rightarrow> bool) \<Rightarrow> nat \<Rightarrow> nat \<Rightarrow> nat" where
  "adjacent_find_with bp first stop = (if first = stop then stop else let nxt = first in adjacent_find_loop bp first nxt stop)"

text \<open>Two searches differ where one says so: what they return is the first position with a property, or the end.\<close>

definition first_at :: "(nat \<Rightarrow> bool) \<Rightarrow> nat \<Rightarrow> nat \<Rightarrow> nat \<Rightarrow> bool" where
  "first_at P first stop r \<longleftrightarrow> first \<le> r \<and> r \<le> stop \<and> (\<forall>i. first \<le> i \<and> i < r \<longrightarrow> \<not> P i) \<and> (r < stop \<longrightarrow> P r)"

lemma first_at_unique: "first_at P first stop r \<Longrightarrow> first_at P first stop s \<Longrightarrow> r = s"
  unfolding first_at_def by (metis le_less_trans linorder_neqE_nat order_less_le_trans)

lemma first_at_cong: "(\<And>i. first \<le> i \<Longrightarrow> i < stop \<Longrightarrow> P i = Q i) \<Longrightarrow> first_at P first stop r = first_at Q first stop r"
  unfolding first_at_def by (metis order_less_le_trans)

lemma first_at_later:
  "first_at P a stop r \<Longrightarrow> first \<le> a \<Longrightarrow> (\<And>i. first \<le> i \<Longrightarrow> i < a \<Longrightarrow> \<not> P i) \<Longrightarrow> first_at P first stop r"
  unfolding first_at_def by (metis le_trans not_le)

lemma first_at_end: "first_at P first stop stop \<longleftrightarrow> first \<le> stop \<and> (\<forall>i. first \<le> i \<and> i < stop \<longrightarrow> \<not> P i)"
  by (auto simp: first_at_def)

lemma find_if_input_first: "first \<le> stop \<Longrightarrow> first_at pr first stop (find_if_input pr first stop)"
proof (induction pr first stop rule: find_if_input.induct)
  case (1 pr first stop)
  show ?case
  proof (cases "first < stop \<and> \<not> pr first")
    case True
    then have "first_at pr (first + 1) stop (find_if_input pr (first + 1) stop)" using 1 by simp
    then have "first_at pr first stop (find_if_input pr (first + 1) stop)"
      by (rule first_at_later) (use True in \<open>auto simp: less_Suc_eq\<close>)
    then show ?thesis using True by (subst find_if_input.simps) simp
  next
    case False
    then show ?thesis using 1(2) by (subst find_if_input.simps) (auto simp: first_at_def)
  qed
qed

lemma find_if_input_step:
  "find_if_input pr first stop = (if first < stop then if pr first then first else find_if_input pr (first + 1) stop else first)"
  by (subst find_if_input.simps) simp

lemma find_if_trips_input:
  "first + 4 * t \<le> stop \<Longrightarrow>
   (case find_if_trips pr t first of Inl r \<Rightarrow> find_if_input pr first stop = r
    | Inr f \<Rightarrow> f = first + 4 * t \<and> find_if_input pr first stop = find_if_input pr f stop)"
proof (induction t arbitrary: first)
  case (Suc t)
  have step: "find_if_input pr f stop = (if pr f then f else find_if_input pr (f + 1) stop)" if "f < first + 4" for f
    using that Suc.prems find_if_input_step [of pr f stop] by simp
  note steps = step [of first] step [of "first + 1"] step [of "first + 2"] step [of "first + 3"]
  show ?case
    using Suc.IH [of "first + 4"] Suc.prems steps
    by (simp add: Let_def numeral_eq_Suc split: sum.splits)
qed simp

lemma find_if_switch_input: "stop - first \<le> 3 \<Longrightarrow> first \<le> stop \<Longrightarrow> find_if_switch pr first stop = find_if_input pr first stop"
proof -
  assume "stop - first \<le> 3" "first \<le> stop"
  then consider "stop = first" | "stop = first + 1" | "stop = first + 2" | "stop = first + 3" by linarith
  then show ?thesis
    by cases (simp_all add: find_if_switch_def Let_def find_if_input_step [of pr first]
        find_if_input_step [of pr "Suc first"] find_if_input_step [of pr "Suc (Suc first)"]
        find_if_input_step [of pr "Suc (Suc (Suc first))"] numeral_eq_Suc)
qed

lemma find_if_eq_input: "first \<le> stop \<Longrightarrow> find_if tag pr first stop = find_if_input pr first stop"
proof (cases "tag = Random_access_iterator")
  case True
  assume le: "first \<le> stop"
  have "first + 4 * ((stop - first) div 4) \<le> stop" using le by linarith
  from find_if_trips_input [OF this, of pr] show ?thesis
    using find_if_switch_input [of stop "first + 4 * ((stop - first) div 4)" pr] le True
    by (auto simp: find_if_def find_if_random_def Let_def split: sum.splits)
qed (simp add: find_if_def)

lemma find_if_first: "first \<le> stop \<Longrightarrow> first_at pr first stop (find_if tag pr first stop)"
  by (simp add: find_if_eq_input find_if_input_first)

lemma find_if_bounds: "first \<le> stop \<Longrightarrow> first \<le> find_if tag pr first stop \<and> find_if tag pr first stop \<le> stop"
  using find_if_first [of first stop pr tag] by (simp add: first_at_def)

lemma quantifiers_ok:
  assumes "first \<le> stop"
  shows "all_of tag pr first stop \<longleftrightarrow> (\<forall>i. first \<le> i \<and> i < stop \<longrightarrow> pr i)"
    "none_of tag pr first stop \<longleftrightarrow> (\<forall>i. first \<le> i \<and> i < stop \<longrightarrow> \<not> pr i)"
    "any_of tag pr first stop \<longleftrightarrow> (\<exists>i. first \<le> i \<and> i < stop \<and> pr i)"
proof -
  have eq: "stop = find_if tag pr first stop \<longleftrightarrow> (\<forall>i. first \<le> i \<and> i < stop \<longrightarrow> \<not> pr i)" for pr
    using find_if_first [OF assms, of pr tag] first_at_unique first_at_end assms by metis
  show "all_of tag pr first stop \<longleftrightarrow> (\<forall>i. first \<le> i \<and> i < stop \<longrightarrow> pr i)"
    by (simp add: all_of_def find_if_not_def eq)
  show none: "none_of tag pr first stop \<longleftrightarrow> (\<forall>i. first \<le> i \<and> i < stop \<longrightarrow> \<not> pr i)"
    by (simp add: none_of_def eq)
  show "any_of tag pr first stop \<longleftrightarrow> (\<exists>i. first \<le> i \<and> i < stop \<and> pr i)"
    by (auto simp: any_of_def none)
qed

lemma adjacent_find_loop_ok:
  "first < stop \<Longrightarrow> first_at (\<lambda>i. i + 1 < stop \<and> bp i (i + 1)) first stop (adjacent_find_loop bp first first stop)"
proof (induction "stop - first" arbitrary: first)
  case (Suc n)
  let ?P = "\<lambda>i. i + 1 < stop \<and> bp i (i + 1)"
  show ?case
  proof (cases "first + 1 < stop \<and> \<not> bp first (first + 1)")
    case True
    then have "first_at ?P (first + 1) stop (adjacent_find_loop bp (first + 1) (first + 1) stop)"
      using Suc(1) [of "first + 1"] Suc(2) by simp
    then have "first_at ?P first stop (adjacent_find_loop bp (first + 1) (first + 1) stop)"
      by (rule first_at_later) (use True in \<open>auto simp: less_Suc_eq\<close>)
    then show ?thesis using True by (subst adjacent_find_loop.simps) (simp add: Let_def)
  next
    case False
    then show ?thesis using Suc(3) by (subst adjacent_find_loop.simps) (auto simp: Let_def first_at_def)
  qed
qed simp

lemma adjacent_find_ok:
  "first \<le> stop \<Longrightarrow> first_at (\<lambda>i. i + 1 < stop \<and> bp i (i + 1)) first stop (adjacent_find_with bp first stop)"
  using adjacent_find_loop_ok [of first stop bp] by (auto simp: adjacent_find_with_def first_at_def)

section \<open>Finding a sequence\<close>

text \<open>The loop that compares behind the first element: \<open>Some\<close> is a \<open>return\<close> of \<open>search\<close>, of \<open>first1\<close> for \<open>True\<close>
  and of \<open>stop1\<close> for \<open>False\<close>.\<close>

function search_match :: "(nat \<Rightarrow> nat \<Rightarrow> bool) \<Rightarrow> nat \<Rightarrow> nat \<Rightarrow> nat \<Rightarrow> nat \<Rightarrow> bool option" where
  "search_match bp current p stop1 stop2 =
     (if bp current p then
        let p = p + 1 in
        if stop2 \<le> p then Some True
        else let current = current + 1 in
          if current = stop1 then Some False else search_match bp current p stop1 stop2
      else None)"
  by pat_completeness auto
termination by (relation "measure (\<lambda>(bp, current, p, stop1, stop2). stop2 - p)") auto

declare search_match.simps [simp del]

function search_loop :: "iterator_tag \<Rightarrow> (nat \<Rightarrow> nat \<Rightarrow> bool) \<Rightarrow> nat \<Rightarrow> nat \<Rightarrow> nat \<Rightarrow> nat \<Rightarrow> nat \<Rightarrow> nat" where
  "search_loop tag bp first1 stop1 first2 p1 stop2 =
     (if stop1 < first1 then stop1
      else let first1 = find_if tag (\<lambda>i. bp i first2) first1 stop1 in
        if first1 = stop1 then stop1
        else let p = p1; current = first1 + 1 in
          if current = stop1 then stop1
          else case search_match bp current p stop1 stop2 of
            Some True \<Rightarrow> first1
          | Some False \<Rightarrow> stop1
          | None \<Rightarrow> let first1 = first1 + 1 in search_loop tag bp first1 stop1 first2 p1 stop2)"
  by pat_completeness auto
termination
proof (relation "measure (\<lambda>(tag, bp, first1, stop1, first2, p1, stop2). stop1 - first1)", goal_cases)
  case (2 tag bp first1 stop1 first2 p1 stop2 x xa xb xc)
  then show ?case using find_if_bounds [of first1 stop1 tag "\<lambda>i. bp i first2"] by auto
qed auto

declare search_loop.simps [simp del]

definition search_with :: "iterator_tag \<Rightarrow> (nat \<Rightarrow> nat \<Rightarrow> bool) \<Rightarrow> nat \<Rightarrow> nat \<Rightarrow> nat \<Rightarrow> nat \<Rightarrow> nat" where
  "search_with tag bp first1 stop1 first2 stop2 =
     (if first1 = stop1 \<or> first2 = stop2 then first1
      else let p1 = first2 + 1 in
        if p1 = stop2 then find_if tag (\<lambda>i. bp i first2) first1 stop1
        else search_loop tag bp first1 stop1 first2 p1 stop2)"

function find_end_loop :: "iterator_tag \<Rightarrow> (nat \<Rightarrow> nat \<Rightarrow> bool) \<Rightarrow> nat \<Rightarrow> nat \<Rightarrow> nat \<Rightarrow> nat \<Rightarrow> nat \<Rightarrow> nat" where
  "find_end_loop tag bp first1 stop1 first2 stop2 result =
     (let new_result = search_with tag bp first1 stop1 first2 stop2 in
      if \<not> (first1 \<le> new_result \<and> new_result < stop1) then result
      else let result = new_result; first1 = new_result + 1 in find_end_loop tag bp first1 stop1 first2 stop2 result)"
  by pat_completeness auto
termination by (relation "measure (\<lambda>(tag, bp, first1, stop1, first2, stop2, result). stop1 - first1)") auto

declare find_end_loop.simps [simp del]

definition find_end_forward :: "iterator_tag \<Rightarrow> (nat \<Rightarrow> nat \<Rightarrow> bool) \<Rightarrow> nat \<Rightarrow> nat \<Rightarrow> nat \<Rightarrow> nat \<Rightarrow> nat" where
  "find_end_forward tag bp first1 stop1 first2 stop2 =
     (if first2 = stop2 then stop1 else let result = stop1 in find_end_loop tag bp first1 stop1 first2 stop2 result)"

text \<open>Backwards a \<open>reverse_iterator\<close> counts from the end: at \<open>n\<close> steps from the reverse beginning it points at the
  element before \<open>stop - n\<close>, its base.\<close>

definition find_end_bidirectional :: "iterator_tag \<Rightarrow> (nat \<Rightarrow> nat \<Rightarrow> bool) \<Rightarrow> nat \<Rightarrow> nat \<Rightarrow> nat \<Rightarrow> nat \<Rightarrow> nat" where
  "find_end_bidirectional tag bp first1 stop1 first2 stop2 =
     (let rstop1 = stop1 - first1;
          rstop2 = stop2 - first2;
          rresult = search_with tag (\<lambda>m n. bp (stop1 - m - 1) (stop2 - n - 1)) 0 rstop1 0 rstop2
      in if rresult = rstop1 then stop1
         else let result = stop1 - rresult in result - (stop2 - first2))"

definition find_end_with :: "iterator_tag \<Rightarrow> (nat \<Rightarrow> nat \<Rightarrow> bool) \<Rightarrow> nat \<Rightarrow> nat \<Rightarrow> nat \<Rightarrow> nat \<Rightarrow> nat" where
  "find_end_with tag bp first1 stop1 first2 stop2 =
     (if tag = Bidirectional_iterator \<or> tag = Random_access_iterator
      then find_end_bidirectional tag bp first1 stop1 first2 stop2
      else find_end_forward tag bp first1 stop1 first2 stop2)"

section \<open>Finding a run\<close>

function run_forward :: "(nat \<Rightarrow> bool) \<Rightarrow> nat \<Rightarrow> nat \<Rightarrow> nat \<Rightarrow> nat \<times> nat" where
  "run_forward pr i n stop =
     (if i < stop \<and> n \<noteq> 1 \<and> pr i then run_forward pr (i + 1) (n - 1) stop else (i, n))"
  by pat_completeness auto
termination by (relation "measure (\<lambda>(pr, i, n, stop). stop - i)") auto

declare run_forward.simps [simp del]

lemma run_forward_bounds: "run_forward pr i n stop = (j, m) \<Longrightarrow> i \<le> j \<and> (i \<le> stop \<longrightarrow> j \<le> stop)"
proof (induction pr i n stop rule: run_forward.induct)
  case (1 pr i n stop)
  then show ?case by (subst (asm) (2) run_forward.simps) (fastforce split: if_splits)
qed

function search_n_forward_loop :: "iterator_tag \<Rightarrow> nat \<Rightarrow> (nat \<Rightarrow> bool) \<Rightarrow> nat \<Rightarrow> nat \<Rightarrow> nat" where
  "search_n_forward_loop tag cnt pr first stop =
     (if first < stop then
        let n = cnt;
            i = first + 1;
            (i, n) = run_forward pr i n stop
        in if n = 1 then first
           else if i = stop then stop
           else if stop < i then stop
           else let first = find_if tag pr (i + 1) stop in search_n_forward_loop tag cnt pr first stop
      else stop)"
  by pat_completeness auto
termination
proof (relation "measure (\<lambda>(tag, cnt, pr, first, stop). stop - first)", goal_cases)
  case (2 tag cnt pr first stop x xa xb xc y xd)
  then have "first + 1 \<le> xc" using run_forward_bounds [of pr xa x stop xc y] by simp
  moreover have "xc + 1 \<le> xd" using 2 find_if_bounds [of "xc + 1" stop tag pr] by simp
  ultimately show ?case using 2(1) by simp
qed auto

declare search_n_forward_loop.simps [simp del]

definition search_n_forward :: "iterator_tag \<Rightarrow> nat \<Rightarrow> (nat \<Rightarrow> bool) \<Rightarrow> nat \<Rightarrow> nat \<Rightarrow> nat" where
  "search_n_forward tag cnt pr first stop =
     (let first = find_if tag pr first stop in search_n_forward_loop tag cnt pr first stop)"

text \<open>For random access one looks backwards from the end of the next possible run: \<open>None\<close> when all of it matched,
  otherwise where it did not. \<open>remainder\<close> is never 0 before.\<close>

primrec search_n_back :: "(nat \<Rightarrow> bool) \<Rightarrow> nat \<Rightarrow> nat \<Rightarrow> nat option" where
  "search_n_back pr back_track 0 = None"
| "search_n_back pr back_track (Suc remainder) =
     (let back_track = back_track - 1 in
      if pr back_track then search_n_back pr back_track remainder else Some back_track)"

function search_n_random :: "nat \<Rightarrow> (nat \<Rightarrow> bool) \<Rightarrow> nat \<Rightarrow> nat \<Rightarrow> nat \<Rightarrow> nat \<Rightarrow> nat" where
  "search_n_random cnt pr first tail_size remainder stop =
     (if remainder \<le> tail_size \<and> 0 < remainder then
        let first = first + remainder;
            tail_size = tail_size - remainder
        in case search_n_back pr first remainder of
             None \<Rightarrow> first - cnt
           | Some back_track \<Rightarrow>
               let remainder = cnt + 1 - (first - back_track) in
               search_n_random cnt pr first tail_size remainder stop
      else stop)"
  by pat_completeness auto
termination by (relation "measure (\<lambda>(cnt, pr, first, tail_size, remainder, stop). tail_size)") auto

declare search_n_random.simps [simp del]

definition search_n_with :: "iterator_tag \<Rightarrow> int \<Rightarrow> (nat \<Rightarrow> bool) \<Rightarrow> nat \<Rightarrow> nat \<Rightarrow> nat" where
  "search_n_with tag cnt pr first stop =
     (if cnt \<le> 0 then first
      else if cnt = 1 then find_if tag pr first stop
      else if tag = Random_access_iterator then search_n_random (nat cnt) pr first (stop - first) (nat cnt) stop
      else search_n_forward tag (nat cnt) pr first stop)"

section \<open>What the searches for sequences find\<close>

definition occurs :: "(nat \<Rightarrow> nat \<Rightarrow> bool) \<Rightarrow> nat \<Rightarrow> nat \<Rightarrow> nat \<Rightarrow> nat \<Rightarrow> bool" where
  "occurs bp first2 stop2 stop1 i \<longleftrightarrow> i + (stop2 - first2) \<le> stop1 \<and> (\<forall>k < stop2 - first2. bp (i + k) (first2 + k))"

lemma search_match_ok:
  "p < stop2 \<Longrightarrow> current < stop1 \<Longrightarrow>
   (case search_match bp current p stop1 stop2 of
      Some True \<Rightarrow> current + (stop2 - p) \<le> stop1 \<and> (\<forall>k < stop2 - p. bp (current + k) (p + k))
    | Some False \<Rightarrow> stop1 < current + (stop2 - p)
    | None \<Rightarrow> \<exists>k < stop2 - p. \<not> bp (current + k) (p + k))"
proof (induction bp current p stop1 stop2 rule: search_match.induct)
  case (1 bp current p stop1 stop2)
  have "stop2 - p = Suc (stop2 - (p + 1))" using 1(2) by simp
  then have split: "(\<forall>k < stop2 - p. Q k) \<longleftrightarrow> Q 0 \<and> (\<forall>k < stop2 - (p + 1). Q (Suc k))"
    "(\<exists>k < stop2 - p. Q k) \<longleftrightarrow> Q 0 \<or> (\<exists>k < stop2 - (p + 1). Q (Suc k))" for Q
    by (simp_all only: All_less_Suc2 Ex_less_Suc2)
  show ?case
  proof (cases "bp current p \<and> p + 1 < stop2 \<and> current + 1 \<noteq> stop1")
    case True
    then have "search_match bp current p stop1 stop2 = search_match bp (current + 1) (p + 1) stop1 stop2"
      by (subst search_match.simps) (simp add: Let_def)
    moreover have "case search_match bp (current + 1) (p + 1) stop1 stop2 of
        Some True \<Rightarrow> current + 1 + (stop2 - (p + 1)) \<le> stop1 \<and> (\<forall>k < stop2 - (p + 1). bp (current + 1 + k) (p + 1 + k))
      | Some False \<Rightarrow> stop1 < current + 1 + (stop2 - (p + 1))
      | None \<Rightarrow> \<exists>k < stop2 - (p + 1). \<not> bp (current + 1 + k) (p + 1 + k)"
      by (rule 1(1) [OF _ refl _ refl]) (use True 1(3) in auto)
    moreover have "current + 1 + (stop2 - (p + 1)) = current + (stop2 - p)" using 1(2) by simp
    ultimately show ?thesis using True by (auto simp: split split: option.splits bool.splits)
  next
    case False
    then show ?thesis
      using 1(2,3) by (subst search_match.simps) (auto simp: Let_def split)
  qed
qed

lemma search_loop_first:
  "first1 \<le> stop1 \<Longrightarrow> first2 + 1 < stop2 \<Longrightarrow>
   first_at (occurs bp first2 stop2 stop1) first1 stop1 (search_loop tag bp first1 stop1 first2 (first2 + 1) stop2)"
proof (induction "stop1 - first1" arbitrary: first1 rule: less_induct)
  case less
  let ?O = "occurs bp first2 stop2 stop1"
  define r where "r = find_if tag (\<lambda>i. bp i first2) first1 stop1"
  have r: "first_at (\<lambda>i. bp i first2) first1 stop1 r"
    unfolding r_def by (rule find_if_first) (rule less.prems)
  have head: "bp i first2" "i + 1 < stop1" if "?O i" for i
    using that less.prems(2) by (auto simp: occurs_def dest: spec [of _ 0])
  have before: "\<not> ?O i" if "first1 \<le> i" "i < r" for i
    using r head(1) that by (auto simp: first_at_def)
  have none: "first_at ?O first1 stop1 stop1" if "\<And>i. r \<le> i \<Longrightarrow> \<not> ?O i"
    using that before less.prems(1) by (auto simp: first_at_end) (meson not_le)
  show ?case
  proof (cases "r = stop1 \<or> r + 1 = stop1")
    case True
    have "\<not> ?O i" if "r \<le> i" for i using head(2) [of i] True that by auto
    then show ?thesis
      using none True less.prems(1) by (subst search_loop.simps) (auto simp: r_def [symmetric] Let_def)
  next
    case False
    then have lt: "r + 1 < stop1" using r by (auto simp: first_at_def)
    let ?m = "search_match bp (r + 1) (first2 + 1) stop1 stop2"
    have run: "search_loop tag bp first1 stop1 first2 (first2 + 1) stop2 =
        (case ?m of Some True \<Rightarrow> r | Some False \<Rightarrow> stop1 | None \<Rightarrow> search_loop tag bp (r + 1) stop1 first2 (first2 + 1) stop2)"
      using False less.prems(1)
      by (subst search_loop.simps) (simp add: r_def [symmetric] Let_def split: option.split bool.split)
    have m: "case ?m of Some True \<Rightarrow> r + 1 + (stop2 - (first2 + 1)) \<le> stop1 \<and> (\<forall>k < stop2 - (first2 + 1). bp (r + 1 + k) (first2 + 1 + k))
      | Some False \<Rightarrow> stop1 < r + 1 + (stop2 - (first2 + 1))
      | None \<Rightarrow> \<exists>k < stop2 - (first2 + 1). \<not> bp (r + 1 + k) (first2 + 1 + k)"
      by (rule search_match_ok [OF less.prems(2) lt])
    consider (found) "?m = Some True" | (short) "?m = Some False" | (other) "?m = None"
      by (cases ?m) auto
    then show ?thesis
    proof cases
      case found
      have "bp (r + k) (first2 + k)" if "k < stop2 - first2" for k
        using m found that r lt by (cases k) (auto simp: first_at_def)
      then have "?O r" using m found less.prems(2) by (auto simp: occurs_def)
      then show ?thesis using found run before r by (auto simp: first_at_def)
    next
      case short
      then have "\<not> ?O i" if "r \<le> i" for i using m that less.prems(2) by (auto simp: occurs_def)
      then show ?thesis using none short run by simp
    next
      case other
      then obtain k where k: "k < stop2 - (first2 + 1)" "\<not> bp (r + 1 + k) (first2 + 1 + k)" using m by auto
      then have "\<not> ?O r" using k(2) by (auto simp: occurs_def intro!: exI [of _ "Suc k"])
      then have "\<And>i. first1 \<le> i \<Longrightarrow> i < r + 1 \<Longrightarrow> \<not> ?O i" using before by (auto simp: less_Suc_eq)
      moreover have "first_at ?O (r + 1) stop1 (search_loop tag bp (r + 1) stop1 first2 (first2 + 1) stop2)"
        using less.hyps [of "r + 1"] less.prems(2) lt r by (auto simp: first_at_def)
      moreover have "first1 \<le> r + 1" using r by (simp add: first_at_def)
      ultimately have "first_at ?O first1 stop1 (search_loop tag bp (r + 1) stop1 first2 (first2 + 1) stop2)"
        by (blast intro: first_at_later)
      then show ?thesis using other run by simp
    qed
  qed
qed

lemma search_first:
  assumes "first1 \<le> stop1" "first2 \<le> stop2"
  shows "first_at (occurs bp first2 stop2 stop1) first1 stop1 (search_with tag bp first1 stop1 first2 stop2)"
proof -
  consider "first1 = stop1 \<or> first2 = stop2" | "first1 < stop1" "first2 + 1 = stop2" | "first1 < stop1" "first2 + 1 < stop2"
    using assms by linarith
  then show ?thesis
  proof cases
    case 1
    then show ?thesis using assms by (auto simp: search_with_def first_at_def occurs_def)
  next
    case 2
    then have "occurs bp first2 stop2 stop1 i \<longleftrightarrow> bp i first2" if "i < stop1" for i using that by (auto simp: occurs_def)
    then have "first_at (occurs bp first2 stop2 stop1) first1 stop1 r = first_at (\<lambda>i. bp i first2) first1 stop1 r" for r
      by (intro first_at_cong) simp
    then show ?thesis
      using 2 find_if_first [OF assms(1), of "\<lambda>i. bp i first2" tag] by (simp add: search_with_def Let_def)
  next
    case 3
    then show ?thesis using search_loop_first [of first1 stop1 first2 stop2 bp tag] by (simp add: search_with_def Let_def)
  qed
qed

text \<open>The last position with a property, or the end.\<close>

definition last_at :: "(nat \<Rightarrow> bool) \<Rightarrow> nat \<Rightarrow> nat \<Rightarrow> nat \<Rightarrow> bool" where
  "last_at P first stop r \<longleftrightarrow>
     r = stop \<and> (\<forall>i. first \<le> i \<and> i < stop \<longrightarrow> \<not> P i) \<or>
     first \<le> r \<and> r < stop \<and> P r \<and> (\<forall>i. r < i \<and> i < stop \<longrightarrow> \<not> P i)"

lemma find_end_loop_last:
  assumes "first2 \<le> stop2" "first1 \<le> stop1" "first \<le> first1"
    "last_at (\<lambda>i. occurs bp first2 stop2 stop1 i \<and> i < first1) first stop1 result"
  shows "last_at (occurs bp first2 stop2 stop1) first stop1 (find_end_loop tag bp first1 stop1 first2 stop2 result)"
  using assms(2-)
proof (induction "stop1 - first1" arbitrary: first1 result rule: less_induct)
  case less
  let ?O = "occurs bp first2 stop2 stop1"
  define r where "r = search_with tag bp first1 stop1 first2 stop2"
  have r: "first_at ?O first1 stop1 r" unfolding r_def by (rule search_first [OF less.prems(1) assms(1)])
  show ?case
  proof (cases "r = stop1")
    case True
    then have "\<not> ?O i" if "first1 \<le> i" "i < stop1" for i using r that by (auto simp: first_at_def)
    then have "last_at ?O first stop1 result"
      using less.prems(3) by (auto simp: last_at_def)
    then show ?thesis using True by (subst find_end_loop.simps) (simp add: r_def [symmetric])
  next
    case False
    then have lt: "first1 \<le> r" "r < stop1" "?O r" using r by (auto simp: first_at_def)
    have "last_at (\<lambda>i. ?O i \<and> i < r + 1) first stop1 r"
      using lt less.prems(2) by (auto simp: last_at_def)
    then have "last_at ?O first stop1 (find_end_loop tag bp (r + 1) stop1 first2 stop2 r)"
      using less.hyps [of "r + 1" r] lt less.prems(2) by simp
    moreover have "find_end_loop tag bp first1 stop1 first2 stop2 result = find_end_loop tag bp (r + 1) stop1 first2 stop2 r"
      using lt by (subst find_end_loop.simps) (simp add: r_def [symmetric] Let_def)
    ultimately show ?thesis by simp
  qed
qed

lemma find_end_forward_last:
  assumes "first1 \<le> stop1" "first2 < stop2"
  shows "last_at (occurs bp first2 stop2 stop1) first1 stop1 (find_end_forward tag bp first1 stop1 first2 stop2)"
  using assms find_end_loop_last [of first2 stop2 first1 stop1 first1 bp stop1 tag]
  by (auto simp: find_end_forward_def last_at_def)

lemma occurs_mirror:
  assumes "first1 \<le> stop1" "first2 \<le> stop2" "q + (stop2 - first2) \<le> stop1 - first1"
  shows "occurs (\<lambda>m n. bp (stop1 - m - 1) (stop2 - n - 1)) 0 (stop2 - first2) (stop1 - first1) q \<longleftrightarrow>
    occurs bp first2 stop2 stop1 (stop1 - q - (stop2 - first2))"
proof -
  define m i where "m = stop2 - first2" and "i = stop1 - q - (stop2 - first2)"
  have flip: "(\<forall>k < m. Q k) \<longleftrightarrow> (\<forall>k < m. Q (m - k - 1))" for Q
  proof (intro iffI allI impI)
    fix k assume Q: "\<forall>k < m. Q (m - k - 1)" and k: "k < m"
    then have "Q (m - (m - k - 1) - 1)" by (meson diff_less less_imp_diff_less zero_less_one order_less_le_trans diff_is_0_eq zero_less_diff le_less_trans diff_le_self le0 Suc_leI)
    moreover have "m - (m - k - 1) - 1 = k" using k by simp
    ultimately show "Q k" by simp
  qed auto
  have ends: "stop1 - (q + k) - 1 = i + (m - k - 1)" "stop2 - k - 1 = first2 + (m - k - 1)" if "k < m" for k
    using assms that by (auto simp: m_def i_def)
  have "(\<forall>k < m. bp (i + k) (first2 + k)) \<longleftrightarrow> (\<forall>k < m. bp (stop1 - (q + k) - 1) (stop2 - k - 1))"
    by (subst flip) (intro all_cong, simp only: ends)
  then show ?thesis
    using assms by (simp add: occurs_def m_def i_def)
qed

lemma find_end_bidirectional_last:
  assumes "first1 \<le> stop1" "first2 < stop2"
  shows "last_at (occurs bp first2 stop2 stop1) first1 stop1 (find_end_bidirectional tag bp first1 stop1 first2 stop2)"
proof -
  define m n where "m = stop2 - first2" and "n = stop1 - first1"
  let ?R = "occurs (\<lambda>m n. bp (stop1 - m - 1) (stop2 - n - 1)) 0 m n" and ?O = "occurs bp first2 stop2 stop1"
  define r where "r = search_with tag (\<lambda>m n. bp (stop1 - m - 1) (stop2 - n - 1)) 0 n 0 m"
  have r: "first_at ?R 0 n r" unfolding r_def by (rule search_first) simp_all
  have m: "0 < m" using assms(2) by (simp add: m_def)
  note mirrored = occurs_mirror [OF assms(1) less_imp_le [OF assms(2)], of _ bp, folded m_def n_def]
  have mirror: "?R (stop1 - i - m)" if "?O i" "first1 \<le> i" for i
  proof -
    have "i + m \<le> stop1" using that(1) by (simp add: occurs_def m_def)
    then have "stop1 - i - m + m \<le> n" "stop1 - (stop1 - i - m) - m = i" using that(2) by (simp_all add: n_def)
    then show ?thesis using mirrored [of "stop1 - i - m"] that(1) by simp
  qed
  have result: "find_end_bidirectional tag bp first1 stop1 first2 stop2 = (if r = n then stop1 else stop1 - r - m)"
    unfolding find_end_bidirectional_def Let_def m_def [symmetric] n_def [symmetric] r_def [symmetric] ..
  show ?thesis
  proof (cases "r = n")
    case True
    have "\<not> ?O i" if "first1 \<le> i" "i < stop1" for i
    proof
      assume O: "?O i"
      then have "stop1 - i - m < n" using that m by (auto simp: n_def)
      then show False using r True mirror [OF O that(1)] by (simp add: first_at_def)
    qed
    then show ?thesis using True by (simp add: result last_at_def)
  next
    case False
    then have lt: "r < n" "?R r" using r by (auto simp: first_at_def)
    then have room: "r + m \<le> n" by (simp add: occurs_def)
    then have O: "?O (stop1 - r - m)" using mirrored [OF room] lt(2) by simp
    have "\<not> ?O i" if "stop1 - r - m < i" "i < stop1" for i
    proof
      assume O: "?O i"
      have "first1 \<le> i" using that room by (auto simp: n_def)
      from mirror [OF O this] have "?R (stop1 - i - m)" .
      moreover have "stop1 - i - m < r" using that O m by (auto simp: occurs_def m_def)
      ultimately show False using r by (auto simp: first_at_def)
    qed
    then show ?thesis using False O room m lt by (auto simp: result last_at_def n_def)
  qed
qed

lemma find_end_last:
  assumes "first1 \<le> stop1" "first2 < stop2"
  shows "last_at (occurs bp first2 stop2 stop1) first1 stop1 (find_end_with tag bp first1 stop1 first2 stop2)"
  using find_end_forward_last [OF assms, of bp tag] find_end_bidirectional_last [OF assms, of bp tag]
  by (simp add: find_end_with_def)

section \<open>What the searches for runs find\<close>

definition run_at :: "nat \<Rightarrow> (nat \<Rightarrow> bool) \<Rightarrow> nat \<Rightarrow> nat \<Rightarrow> bool" where
  "run_at c pr stop i \<longleftrightarrow> i + c \<le> stop \<and> (\<forall>k. i \<le> k \<and> k < i + c \<longrightarrow> pr k)"

lemma run_forward_ok:
  "run_forward pr i n stop = (j, m) \<Longrightarrow> i \<le> stop \<Longrightarrow> 0 < n \<Longrightarrow>
   i \<le> j \<and> j \<le> stop \<and> 0 < m \<and> j + m = i + n \<and> (\<forall>k. i \<le> k \<and> k < j \<longrightarrow> pr k) \<and> (j = stop \<or> m = 1 \<or> \<not> pr j)"
proof (induction pr i n stop rule: run_forward.induct)
  case (1 pr i n stop)
  show ?case
  proof (cases "i < stop \<and> n \<noteq> 1 \<and> pr i")
    case True
    then have "run_forward pr (i + 1) (n - 1) stop = (j, m)" using 1(2) by (subst (asm) run_forward.simps) simp
    then have "i + 1 \<le> j" "j \<le> stop" "0 < m" "j + m = i + 1 + (n - 1)" "\<forall>k. i + 1 \<le> k \<and> k < j \<longrightarrow> pr k" "j = stop \<or> m = 1 \<or> \<not> pr j"
      using 1(1) [OF True] True 1(4) by auto
    moreover from this(5) have "pr k" if "i \<le> k" "k < j" for k using True that by (cases "k = i") auto
    ultimately show ?thesis using True 1(4) by auto
  next
    case False
    then have "j = i" "m = n" using 1(2) by (auto simp: run_forward.simps)
    then show ?thesis using False 1(3,4) by auto
  qed
qed

lemma search_n_forward_loop_first:
  assumes "0 < c"
  shows "first \<le> stop \<Longrightarrow> (first < stop \<longrightarrow> pr first) \<Longrightarrow>
    first_at (run_at c pr stop) first stop (search_n_forward_loop tag c pr first stop)"
proof (induction "stop - first" arbitrary: first rule: less_induct)
  case less
  show ?case
  proof (cases "first < stop")
    case True
    obtain j m where jm: "run_forward pr (first + 1) c stop = (j, m)" by fastforce
    have ok: "first + 1 \<le> j" "j \<le> stop" "0 < m" "j + m = first + 1 + c" "\<forall>k. first + 1 \<le> k \<and> k < j \<longrightarrow> pr k"
      "j = stop \<or> m = 1 \<or> \<not> pr j"
      using run_forward_ok [OF jm] True assms by auto
    define f where "f = find_if tag pr (j + 1) stop"
    have step: "search_n_forward_loop tag c pr first stop =
        (if m = 1 then first else if j = stop then stop else search_n_forward_loop tag c pr f stop)"
      using True ok(2) by (subst search_n_forward_loop.simps) (simp add: jm [simplified] f_def Let_def)
    have pr: "pr k" if "first \<le> k" "k < j" for k
      using that ok(5) less.prems(2) True by (cases "k = first") auto
    consider (found) "m = 1" | (ended) "m \<noteq> 1" "j = stop" | (other) "m \<noteq> 1" "j < stop" "\<not> pr j" using ok by linarith
    then show ?thesis
    proof cases
      case found
      then have "run_at c pr stop first" using ok pr by (auto simp: run_at_def)
      then show ?thesis using found True by (auto simp: step first_at_def)
    next
      case ended
      then have "\<not> run_at c pr stop i" if "first \<le> i" for i using that ok by (auto simp: run_at_def)
      then show ?thesis using ended less.prems(1) by (auto simp: step first_at_end)
    next
      case other
      have f: "first_at pr (j + 1) stop f" unfolding f_def by (rule find_if_first) (use other in simp)
      have "first_at (run_at c pr stop) f stop (search_n_forward_loop tag c pr f stop)"
        using less.hyps [of f] f ok(1) by (auto simp: first_at_def)
      moreover have "\<not> run_at c pr stop i" if "first \<le> i" "i < f" for i
      proof (cases "i \<le> j")
        case True
        then have "j < i + c" using that ok other by auto
        then show ?thesis using True other(3) by (auto simp: run_at_def)
      next
        case False
        then have "\<not> pr i" using f that(2) by (auto simp: first_at_def)
        then show ?thesis using assms by (auto simp: run_at_def)
      qed
      moreover have "first \<le> f" using f ok(1) by (simp add: first_at_def)
      ultimately have "first_at (run_at c pr stop) first stop (search_n_forward_loop tag c pr f stop)"
        by (blast intro: first_at_later)
      then show ?thesis using other by (simp add: step)
    qed
  next
    case False
    then show ?thesis using less.prems(1) by (subst search_n_forward_loop.simps) (auto simp: first_at_def)
  qed
qed

lemma search_n_forward_first:
  assumes "0 < c" "first \<le> stop"
  shows "first_at (run_at c pr stop) first stop (search_n_forward tag c pr first stop)"
proof -
  define f where "f = find_if tag pr first stop"
  have f: "first_at pr first stop f" unfolding f_def by (rule find_if_first [OF assms(2)])
  have "first_at (run_at c pr stop) f stop (search_n_forward_loop tag c pr f stop)"
    by (rule search_n_forward_loop_first [OF assms(1)]) (use f in \<open>auto simp: first_at_def\<close>)
  then have "first_at (run_at c pr stop) first stop (search_n_forward_loop tag c pr f stop)"
    by (rule first_at_later) (use f assms(1) in \<open>auto simp: first_at_def run_at_def\<close>)
  then show ?thesis by (simp add: search_n_forward_def f_def Let_def)
qed

lemma search_n_back_ok:
  "n \<le> f \<Longrightarrow>
   (case search_n_back pr f n of
      None \<Rightarrow> \<forall>k. f - n \<le> k \<and> k < f \<longrightarrow> pr k
    | Some b \<Rightarrow> f - n \<le> b \<and> b < f \<and> \<not> pr b \<and> (\<forall>k. b < k \<and> k < f \<longrightarrow> pr k))"
proof (induction n arbitrary: f)
  case (Suc n)
  have less: "k < f \<longleftrightarrow> k < f - 1 \<or> k = f - 1" for k using Suc.prems by auto
  have "f - Suc n = f - 1 - n" "n \<le> f - 1" "f - 1 < f" using Suc.prems by auto
  then show ?case
    using Suc.IH [of "f - 1"] by (auto simp: Let_def less split: option.splits)
qed auto

lemma search_n_random_first:
  assumes "0 < c"
  shows "first + tail = stop \<Longrightarrow> 0 < r \<Longrightarrow> r \<le> c \<Longrightarrow> c \<le> first + r \<Longrightarrow>
    (\<forall>k. first + r - c \<le> k \<and> k < first \<longrightarrow> pr k) \<Longrightarrow> first + r - c \<le> stop \<Longrightarrow>
    first_at (run_at c pr stop) (first + r - c) stop (search_n_random c pr first tail r stop)"
proof (induction tail arbitrary: first r rule: less_induct)
  case (less tail)
  let ?R = "run_at c pr stop"
  show ?case
  proof (cases "r \<le> tail")
    case True
    define f where "f = first + r"
    have step: "search_n_random c pr first tail r stop =
        (case search_n_back pr f r of None \<Rightarrow> f - c
         | Some b \<Rightarrow> search_n_random c pr f (tail - r) (c + 1 - (f - b)) stop)"
      using True less.prems(2) by (subst search_n_random.simps) (simp add: f_def Let_def split: option.split)
    show ?thesis
    proof (cases "search_n_back pr f r")
      case None
      then have "pr k" if "f - c \<le> k" "k < f" for k
        using search_n_back_ok [of r f pr] that less.prems(5) by (cases "k < first") (auto simp: f_def)
      then have "?R (f - c)" using True less.prems by (auto simp: run_at_def f_def)
      then show ?thesis using None step less.prems(6) by (auto simp: f_def first_at_def)
    next
      case (Some b)
      then have b: "first \<le> b" "b < f" "\<not> pr b" "\<forall>k. b < k \<and> k < f \<longrightarrow> pr k"
        using search_n_back_ok [of r f pr] by (auto simp: f_def)
      have r': "f + (c + 1 - (f - b)) - c = b + 1" using b less.prems(3) by (auto simp: f_def)
      have "first_at ?R (f + (c + 1 - (f - b)) - c) stop (search_n_random c pr f (tail - r) (c + 1 - (f - b)) stop)"
        by (rule less.IH) (use b True less.prems(1-3) r' in \<open>auto simp: f_def\<close>)
      moreover have "\<not> ?R i" if "first + r - c \<le> i" "i < b + 1" for i
        using that b less.prems(3,4) by (auto simp: run_at_def f_def intro!: exI [of _ b])
      ultimately show ?thesis
        unfolding step Some r' using b(1) less.prems(2-4) by (auto intro: first_at_later simp: r')
    qed
  next
    case False
    then have "\<not> ?R i" if "first + r - c \<le> i" for i using that less.prems(1,4) by (auto simp: run_at_def)
    then show ?thesis using False less.prems(6) by (subst search_n_random.simps) (auto simp: first_at_end)
  qed
qed

lemma search_n_first:
  assumes "first \<le> stop" "0 < c"
  shows "first_at (run_at (nat c) pr stop) first stop (search_n_with tag c pr first stop)"
proof (cases "c = 1")
  case True
  then have "first_at (run_at (nat c) pr stop) first stop r = first_at pr first stop r" for r
    by (intro first_at_cong) (auto simp: run_at_def le_less_Suc_eq)
  then show ?thesis using True find_if_first [OF assms(1), of pr tag] by (simp add: search_n_with_def)
next
  case False
  then have "0 < nat c" using assms(2) by simp
  moreover from this have "first_at (run_at (nat c) pr stop) (first + nat c - nat c) stop
      (search_n_random (nat c) pr first (stop - first) (nat c) stop)"
    by (rule search_n_random_first) (use assms in auto)
  ultimately show ?thesis
    using False assms search_n_forward_first [of "nat c" first stop pr tag] by (simp add: search_n_with_def)
qed

section \<open>The entry points\<close>

definition find_value :: "iterator_tag \<Rightarrow> nat \<Rightarrow> nat \<Rightarrow> 'a \<Rightarrow> 'a list \<Rightarrow> nat" where
  "find_value tag first stop v xs = find_if tag (iter_equals_val v xs) first stop"

definition find_if_pred :: "iterator_tag \<Rightarrow> nat \<Rightarrow> nat \<Rightarrow> ('a \<Rightarrow> bool) \<Rightarrow> 'a list \<Rightarrow> nat" where
  "find_if_pred tag first stop p xs = find_if tag (iter_pred p xs) first stop"

definition find_if_not_pred :: "iterator_tag \<Rightarrow> nat \<Rightarrow> nat \<Rightarrow> ('a \<Rightarrow> bool) \<Rightarrow> 'a list \<Rightarrow> nat" where
  "find_if_not_pred tag first stop p xs = find_if_not tag (iter_pred p xs) first stop"

definition count_value :: "nat \<Rightarrow> nat \<Rightarrow> 'a \<Rightarrow> 'a list \<Rightarrow> nat" where
  "count_value first stop v xs = count_if (iter_equals_val v xs) first stop"

definition count_if_pred :: "nat \<Rightarrow> nat \<Rightarrow> ('a \<Rightarrow> bool) \<Rightarrow> 'a list \<Rightarrow> nat" where
  "count_if_pred first stop p xs = count_if (iter_pred p xs) first stop"

definition adjacent_find :: "nat \<Rightarrow> nat \<Rightarrow> 'a list \<Rightarrow> nat" where
  "adjacent_find first stop xs = adjacent_find_with (iter_equal_to_iter xs) first stop"

definition adjacent_find_comp :: "('a \<Rightarrow> 'a \<Rightarrow> bool) \<Rightarrow> nat \<Rightarrow> nat \<Rightarrow> 'a list \<Rightarrow> nat" where
  "adjacent_find_comp p first stop xs = adjacent_find_with (iter_comp_iter p xs) first stop"

text \<open>Between two ranges the objects of \<open>predefined_ops.h\<close> take an iterator into each.\<close>

definition iters_equal :: "'a list \<Rightarrow> 'a list \<Rightarrow> nat \<Rightarrow> nat \<Rightarrow> bool" where
  "iters_equal xs ys i j \<longleftrightarrow> xs ! i = ys ! j"

definition iters_comp :: "('a \<Rightarrow> 'b \<Rightarrow> bool) \<Rightarrow> 'a list \<Rightarrow> 'b list \<Rightarrow> nat \<Rightarrow> nat \<Rightarrow> bool" where
  "iters_comp p xs ys i j \<longleftrightarrow> p (xs ! i) (ys ! j)"

definition search_equal :: "iterator_tag \<Rightarrow> nat \<Rightarrow> nat \<Rightarrow> 'a list \<Rightarrow> nat \<Rightarrow> nat \<Rightarrow> 'a list \<Rightarrow> nat" where
  "search_equal tag first1 stop1 xs first2 stop2 ys = search_with tag (iters_equal xs ys) first1 stop1 first2 stop2"

definition search_comp :: "iterator_tag \<Rightarrow> ('a \<Rightarrow> 'b \<Rightarrow> bool) \<Rightarrow> nat \<Rightarrow> nat \<Rightarrow> 'a list \<Rightarrow> nat \<Rightarrow> nat \<Rightarrow> 'b list \<Rightarrow> nat" where
  "search_comp tag p first1 stop1 xs first2 stop2 ys = search_with tag (iters_comp p xs ys) first1 stop1 first2 stop2"

definition find_end :: "iterator_tag \<Rightarrow> nat \<Rightarrow> nat \<Rightarrow> 'a list \<Rightarrow> nat \<Rightarrow> nat \<Rightarrow> 'a list \<Rightarrow> nat" where
  "find_end tag first1 stop1 xs first2 stop2 ys = find_end_with tag (iters_equal xs ys) first1 stop1 first2 stop2"

definition find_end_comp :: "iterator_tag \<Rightarrow> ('a \<Rightarrow> 'b \<Rightarrow> bool) \<Rightarrow> nat \<Rightarrow> nat \<Rightarrow> 'a list \<Rightarrow> nat \<Rightarrow> nat \<Rightarrow> 'b list \<Rightarrow> nat" where
  "find_end_comp tag p first1 stop1 xs first2 stop2 ys = find_end_with tag (iters_comp p xs ys) first1 stop1 first2 stop2"

definition search_n :: "iterator_tag \<Rightarrow> nat \<Rightarrow> nat \<Rightarrow> int \<Rightarrow> 'a \<Rightarrow> 'a list \<Rightarrow> nat" where
  "search_n tag first stop cnt v xs = search_n_with tag cnt (iter_equals_val v xs) first stop"

definition search_n_comp :: "iterator_tag \<Rightarrow> ('a \<Rightarrow> 'b \<Rightarrow> bool) \<Rightarrow> nat \<Rightarrow> nat \<Rightarrow> int \<Rightarrow> 'b \<Rightarrow> 'a list \<Rightarrow> nat" where
  "search_n_comp tag p first stop cnt v xs = search_n_with tag cnt (\<lambda>i. iter_comp_val p xs i v) first stop"

text \<open>The candidates are tried one after the other for every element.\<close>

function candidate_loop :: "(nat \<Rightarrow> bool) \<Rightarrow> nat \<Rightarrow> nat \<Rightarrow> bool" where
  "candidate_loop pr it stop2 = (if it < stop2 then if pr it then True else candidate_loop pr (it + 1) stop2 else False)"
  by pat_completeness auto
termination by (relation "measure (\<lambda>(pr, it, stop2). stop2 - it)") auto

declare candidate_loop.simps [simp del]

function find_first_of_with :: "(nat \<Rightarrow> nat \<Rightarrow> bool) \<Rightarrow> nat \<Rightarrow> nat \<Rightarrow> nat \<Rightarrow> nat \<Rightarrow> nat" where
  "find_first_of_with bp first1 stop1 first2 stop2 =
     (if first1 < stop1 then
        if candidate_loop (bp first1) first2 stop2 then first1 else find_first_of_with bp (first1 + 1) stop1 first2 stop2
      else stop1)"
  by pat_completeness auto
termination by (relation "measure (\<lambda>(bp, first1, stop1, first2, stop2). stop1 - first1)") auto

declare find_first_of_with.simps [simp del]

definition find_first_of :: "nat \<Rightarrow> nat \<Rightarrow> 'a list \<Rightarrow> nat \<Rightarrow> nat \<Rightarrow> 'a list \<Rightarrow> nat" where
  "find_first_of first1 stop1 xs first2 stop2 ys = find_first_of_with (iters_equal xs ys) first1 stop1 first2 stop2"

definition find_first_of_comp :: "('a \<Rightarrow> 'b \<Rightarrow> bool) \<Rightarrow> nat \<Rightarrow> nat \<Rightarrow> 'a list \<Rightarrow> nat \<Rightarrow> nat \<Rightarrow> 'b list \<Rightarrow> nat" where
  "find_first_of_comp p first1 stop1 xs first2 stop2 ys = find_first_of_with (iters_comp p xs ys) first1 stop1 first2 stop2"

lemmas scan_ops = find_value_def find_if_pred_def search_equal_def search_comp_def find_end_def find_end_comp_def search_n_def
  search_n_comp_def find_first_of_def find_first_of_comp_def iter_ops

lemma position_preds: "iter_equals_val v xs = (\<lambda>i. xs ! i = v)" "iter_pred p xs = (\<lambda>i. p (xs ! i))"
  by (simp_all add: fun_eq_iff iter_ops)

lemma candidate_loop_iff: "candidate_loop pr it stop2 \<longleftrightarrow> (\<exists>j. it \<le> j \<and> j < stop2 \<and> pr j)"
proof (induction "stop2 - it" arbitrary: it)
  case 0
  then show ?case by (subst candidate_loop.simps) auto
next
  case (Suc n)
  then have "it \<le> j \<longleftrightarrow> j = it \<or> it + 1 \<le> j" for j by auto
  then show ?case using Suc by (subst candidate_loop.simps) auto
qed

lemma find_first_of_first:
  "first1 \<le> stop1 \<Longrightarrow>
   first_at (\<lambda>i. \<exists>j. first2 \<le> j \<and> j < stop2 \<and> bp i j) first1 stop1 (find_first_of_with bp first1 stop1 first2 stop2)"
proof (induction "stop1 - first1" arbitrary: first1)
  case 0
  then show ?case by (subst find_first_of_with.simps) (auto simp: first_at_end)
next
  case (Suc n)
  let ?P = "\<lambda>i. \<exists>j. first2 \<le> j \<and> j < stop2 \<and> bp i j"
  have lt: "first1 < stop1" using Suc.hyps(2) by simp
  show ?case
  proof (cases "?P first1")
    case True
    then show ?thesis using lt by (subst find_first_of_with.simps) (auto simp: candidate_loop_iff first_at_def)
  next
    case False
    have "first_at ?P (first1 + 1) stop1 (find_first_of_with bp (first1 + 1) stop1 first2 stop2)"
      using Suc.hyps lt by simp
    then have "first_at ?P first1 stop1 (find_first_of_with bp (first1 + 1) stop1 first2 stop2)"
      by (rule first_at_later) (use False in \<open>auto simp: less_Suc_eq\<close>)
    then show ?thesis using False lt by (subst find_first_of_with.simps) (auto simp: candidate_loop_iff)
  qed
qed

text \<open>The second range lies in the first one from \<open>i\<close> on.\<close>

definition matches_at :: "('a \<Rightarrow> 'b \<Rightarrow> bool) \<Rightarrow> nat \<Rightarrow> 'a list \<Rightarrow> 'b list \<Rightarrow> nat \<Rightarrow> bool" where
  "matches_at p stop1 xs zs i \<longleftrightarrow> i + length zs \<le> stop1 \<and> list_all2 p (range_of i (i + length zs) xs) zs"

lemma occurs_matches:
  assumes "stop1 \<le> length xs" "stop2 \<le> length ys"
  shows "occurs (iters_comp p xs ys) first2 stop2 stop1 = matches_at p stop1 xs (range_of first2 stop2 ys)"
  using assms by (auto simp: fun_eq_iff occurs_def matches_at_def iters_comp_def list_all2_conv_all_nth length_range_of nth_range_of)

text \<open>C30: the linear searches, whatever the category of the iterators and so whichever variant runs, find what they are
  to find and nothing else: \<open>find\<close> and \<open>find_if\<close> the first element with the value or the property, \<open>search\<close> the first
  and \<open>find_end\<close> the last occurrence of the second range, \<open>search_n\<close> the first run of so many elements that
  the predicate accepts, \<open>find_first_of\<close> the first element that one of the second range is accepted with; the end of the
  range where there is none. The occurrence may end with the range.\<close>

theorem linear_searches:
  assumes "first1 \<le> stop1" "stop1 \<le> length xs" "first2 < stop2" "stop2 \<le> length ys" "0 < cnt"
  shows "first_at (\<lambda>i. xs ! i = v) first1 stop1 (find_value tag first1 stop1 v xs) \<and>
    first_at (\<lambda>i. pr (xs ! i)) first1 stop1 (find_if_pred tag first1 stop1 pr xs) \<and>
    first_at (matches_at p stop1 xs (range_of first2 stop2 ys)) first1 stop1 (search_comp tag p first1 stop1 xs first2 stop2 ys) \<and>
    last_at (matches_at p stop1 xs (range_of first2 stop2 ys)) first1 stop1 (find_end_comp tag p first1 stop1 xs first2 stop2 ys) \<and>
    first_at (run_at (nat cnt) (\<lambda>i. p (xs ! i) w) stop1) first1 stop1 (search_n_comp tag p first1 stop1 cnt w xs) \<and>
    first_at (\<lambda>i. \<exists>j. first2 \<le> j \<and> j < stop2 \<and> p (xs ! i) (ys ! j)) first1 stop1
      (find_first_of_comp p first1 stop1 xs first2 stop2 ys)"
  using find_if_first [OF assms(1), of "iter_equals_val v xs" tag] find_if_first [OF assms(1), of "iter_pred pr xs" tag]
    search_first [OF assms(1) less_imp_le [OF assms(3)], of "iters_comp p xs ys" tag]
    find_end_last [OF assms(1,3), of "iters_comp p xs ys" tag] search_n_first [OF assms(1,5), of "\<lambda>i. p (xs ! i) w" tag] find_first_of_first [OF assms(1), of first2 stop2 "iters_comp p xs ys"]
  by (simp add: scan_ops position_preds occurs_matches [OF assms(2,4)] iters_comp_def)

theorem linear_searches_witness:
  "search_comp Forward_iterator (=) 0 5 [1, 2, 1, 2, 2 :: nat] 0 2 [2, 2] = 3 \<and>
   find_end_comp Random_access_iterator (=) 0 5 [1, 2, 1, 2, 2 :: nat] 0 2 [1, 2] = 2 \<and>
   search_n_comp Random_access_iterator (=) 0 5 2 2 [1, 2, 1, 2, 2 :: nat] = 3 \<and>
   first_at (\<lambda>i. [1, 2, 1, 2, 2 :: nat] ! i = 2) 0 5 1"
proof -
  have "first_at (\<lambda>i. [1, 2, 1, 2, 2 :: nat] ! i = 2) 0 5 (find_value Forward_iterator 0 5 2 [1, 2, 1, 2, 2 :: nat])"
    using linear_searches [of 0 5 "[1, 2, 1, 2, 2 :: nat]" 0 2 "[2, 2 :: nat]" 2 2 Forward_iterator] by simp
  moreover have "find_value Forward_iterator 0 5 2 [1, 2, 1, 2, 2 :: nat] = 1" by code_simp
  ultimately have "first_at (\<lambda>i. [1, 2, 1, 2, 2 :: nat] ! i = 2) 0 5 1" by simp
  moreover have "search_comp Forward_iterator (=) 0 5 [1, 2, 1, 2, 2 :: nat] 0 2 [2, 2] = 3" by code_simp
  moreover have "find_end_comp Random_access_iterator (=) 0 5 [1, 2, 1, 2, 2 :: nat] 0 2 [1, 2] = 2" by code_simp
  moreover have "search_n_comp Random_access_iterator (=) 0 5 2 2 [1, 2, 1, 2, 2 :: nat] = 3" by code_simp
  ultimately show ?thesis by blast
qed

end
