(* ===== verification/Stl_Compare.thy ===== *)
theory Stl_Compare
  imports Stl_Scan
begin

text \<open>
  Smallest and largest elements, the test for sortedness and the test for permutations
  (\<open>kernel/include/bits/stl_algo.h\<close>, \<open>kernel/include/bits/stl_algobase.h\<close>).
\<close>

section \<open>Smallest and largest elements\<close>

function min_element_loop :: "('a \<Rightarrow> 'a \<Rightarrow> bool) \<Rightarrow> nat \<Rightarrow> nat \<Rightarrow> nat \<Rightarrow> 'a list \<Rightarrow> nat" where
  "min_element_loop cmp result first stop xs =
     (let first = first + 1 in
      if first < stop then
        let result = (if iter_comp_iter cmp xs first result then first else result)
        in min_element_loop cmp result first stop xs
      else result)"
  by pat_completeness auto
termination by (relation "measure (\<lambda>(cmp, result, first, stop, xs). stop - first)") auto

declare min_element_loop.simps [simp del]

definition min_element_with :: "('a \<Rightarrow> 'a \<Rightarrow> bool) \<Rightarrow> nat \<Rightarrow> nat \<Rightarrow> 'a list \<Rightarrow> nat" where
  "min_element_with cmp first stop xs =
     (if first = stop then first else let result = first in min_element_loop cmp result first stop xs)"

definition min_element :: "nat \<Rightarrow> nat \<Rightarrow> 'a::linorder list \<Rightarrow> nat" where
  "min_element first stop xs = min_element_with (<) first stop xs"

definition min_element_comp :: "('a \<Rightarrow> 'a \<Rightarrow> bool) \<Rightarrow> nat \<Rightarrow> nat \<Rightarrow> 'a list \<Rightarrow> nat" where
  "min_element_comp cmp first stop xs = min_element_with cmp first stop xs"

function max_element_loop :: "('a \<Rightarrow> 'a \<Rightarrow> bool) \<Rightarrow> nat \<Rightarrow> nat \<Rightarrow> nat \<Rightarrow> 'a list \<Rightarrow> nat" where
  "max_element_loop cmp result first stop xs =
     (let first = first + 1 in
      if first < stop then
        let result = (if iter_comp_iter cmp xs result first then first else result)
        in max_element_loop cmp result first stop xs
      else result)"
  by pat_completeness auto
termination by (relation "measure (\<lambda>(cmp, result, first, stop, xs). stop - first)") auto

declare max_element_loop.simps [simp del]

definition max_element_with :: "('a \<Rightarrow> 'a \<Rightarrow> bool) \<Rightarrow> nat \<Rightarrow> nat \<Rightarrow> 'a list \<Rightarrow> nat" where
  "max_element_with cmp first stop xs =
     (if first = stop then first else let result = first in max_element_loop cmp result first stop xs)"

definition max_element :: "nat \<Rightarrow> nat \<Rightarrow> 'a::linorder list \<Rightarrow> nat" where
  "max_element first stop xs = max_element_with (<) first stop xs"

definition max_element_comp :: "('a \<Rightarrow> 'a \<Rightarrow> bool) \<Rightarrow> nat \<Rightarrow> nat \<Rightarrow> 'a list \<Rightarrow> nat" where
  "max_element_comp cmp first stop xs = max_element_with cmp first stop xs"

text \<open>Both at once, with three comparisons for two elements.\<close>

function minmax_element_loop :: "('a \<Rightarrow> 'a \<Rightarrow> bool) \<Rightarrow> nat \<Rightarrow> nat \<Rightarrow> nat \<Rightarrow> nat \<Rightarrow> 'a list \<Rightarrow> nat \<times> nat" where
  "minmax_element_loop cmp mn mx first stop xs =
     (if first < stop then
        let nxt = first + 1 in
        if nxt = stop then
          (if iter_comp_iter cmp xs first mn then (first, mx)
           else if \<not> iter_comp_iter cmp xs first mx then (mn, first)
           else (mn, mx))
        else if iter_comp_iter cmp xs nxt first then
          let mn = (if iter_comp_iter cmp xs nxt mn then nxt else mn);
              mx = (if \<not> iter_comp_iter cmp xs first mx then first else mx);
              first = nxt + 1
          in minmax_element_loop cmp mn mx first stop xs
        else
          let mn = (if iter_comp_iter cmp xs first mn then first else mn);
              mx = (if \<not> iter_comp_iter cmp xs nxt mx then nxt else mx);
              first = nxt + 1
          in minmax_element_loop cmp mn mx first stop xs
      else (mn, mx))"
  by pat_completeness auto
termination by (relation "measure (\<lambda>(cmp, mn, mx, first, stop, xs). stop - first)") auto

declare minmax_element_loop.simps [simp del]

definition minmax_element_with :: "('a \<Rightarrow> 'a \<Rightarrow> bool) \<Rightarrow> nat \<Rightarrow> nat \<Rightarrow> 'a list \<Rightarrow> nat \<times> nat" where
  "minmax_element_with cmp first stop xs =
     (let nxt = first + 1 in
      if first = stop \<or> nxt = stop then (first, first)
      else
        let (mn, mx) = (if iter_comp_iter cmp xs nxt first then (nxt, first) else (first, nxt));
            first = nxt + 1
        in minmax_element_loop cmp mn mx first stop xs)"

definition minmax_element :: "nat \<Rightarrow> nat \<Rightarrow> 'a::linorder list \<Rightarrow> nat \<times> nat" where
  "minmax_element first stop xs = minmax_element_with (<) first stop xs"

definition minmax_element_comp :: "('a \<Rightarrow> 'a \<Rightarrow> bool) \<Rightarrow> nat \<Rightarrow> nat \<Rightarrow> 'a list \<Rightarrow> nat \<times> nat" where
  "minmax_element_comp cmp first stop xs = minmax_element_with cmp first stop xs"

text \<open>Of an initializer list; an empty one has no element to return.\<close>

definition min_list_comp :: "('a \<Rightarrow> 'a \<Rightarrow> bool) \<Rightarrow> 'a list \<Rightarrow> 'a option" where
  "min_list_comp cmp l = (let r = min_element_with cmp 0 (length l) l in if r < length l then Some (l ! r) else None)"

definition max_list_comp :: "('a \<Rightarrow> 'a \<Rightarrow> bool) \<Rightarrow> 'a list \<Rightarrow> 'a option" where
  "max_list_comp cmp l = (let r = max_element_with cmp 0 (length l) l in if r < length l then Some (l ! r) else None)"

definition minmax_list_comp :: "('a \<Rightarrow> 'a \<Rightarrow> bool) \<Rightarrow> 'a list \<Rightarrow> ('a \<times> 'a) option" where
  "minmax_list_comp cmp l =
     (let (mn, mx) = minmax_element_with cmp 0 (length l) l
      in if mn < length l \<and> mx < length l then Some (l ! mn, l ! mx) else None)"

definition min_list :: "'a::linorder list \<Rightarrow> 'a option" where
  "min_list l = min_list_comp (<) l"

definition max_list :: "'a::linorder list \<Rightarrow> 'a option" where
  "max_list l = max_list_comp (<) l"

definition minmax_list :: "'a::linorder list \<Rightarrow> ('a \<times> 'a) option" where
  "minmax_list l = minmax_list_comp (<) l"

section \<open>Sortedness\<close>

function is_sorted_until_loop :: "('a \<Rightarrow> 'a \<Rightarrow> bool) \<Rightarrow> nat \<Rightarrow> nat \<Rightarrow> nat \<Rightarrow> 'a list \<Rightarrow> nat" where
  "is_sorted_until_loop cmp first nxt stop xs =
     (if nxt < stop then
        if iter_comp_iter cmp xs nxt first then nxt
        else let first = nxt in is_sorted_until_loop cmp first (nxt + 1) stop xs
      else nxt)"
  by pat_completeness auto
termination by (relation "measure (\<lambda>(cmp, first, nxt, stop, xs). stop - nxt)") auto

declare is_sorted_until_loop.simps [simp del]

definition is_sorted_until_with :: "('a \<Rightarrow> 'a \<Rightarrow> bool) \<Rightarrow> nat \<Rightarrow> nat \<Rightarrow> 'a list \<Rightarrow> nat" where
  "is_sorted_until_with cmp first stop xs =
     (if first = stop then stop else let nxt = first + 1 in is_sorted_until_loop cmp first nxt stop xs)"

definition is_sorted_until :: "nat \<Rightarrow> nat \<Rightarrow> 'a::linorder list \<Rightarrow> nat" where
  "is_sorted_until first stop xs = is_sorted_until_with (<) first stop xs"

definition is_sorted_until_comp :: "('a \<Rightarrow> 'a \<Rightarrow> bool) \<Rightarrow> nat \<Rightarrow> nat \<Rightarrow> 'a list \<Rightarrow> nat" where
  "is_sorted_until_comp cmp first stop xs = is_sorted_until_with cmp first stop xs"

definition is_sorted :: "nat \<Rightarrow> nat \<Rightarrow> 'a::linorder list \<Rightarrow> bool" where
  "is_sorted first stop xs \<longleftrightarrow> is_sorted_until first stop xs = stop"

definition is_sorted_comp :: "('a \<Rightarrow> 'a \<Rightarrow> bool) \<Rightarrow> nat \<Rightarrow> nat \<Rightarrow> 'a list \<Rightarrow> bool" where
  "is_sorted_comp cmp first stop xs \<longleftrightarrow> is_sorted_until_comp cmp first stop xs = stop"

section \<open>The test for permutations\<close>

text \<open>The common prefix: where the two iterators stop. Without the end of the second range only the first one is tested.\<close>

function mismatch3_loop :: "('a \<Rightarrow> 'a \<Rightarrow> bool) \<Rightarrow> nat \<Rightarrow> nat \<Rightarrow> 'a list \<Rightarrow> nat \<Rightarrow> 'a list \<Rightarrow> nat \<times> nat" where
  "mismatch3_loop p first1 stop1 xs first2 ys =
     (if first1 < stop1 \<and> p (xs ! first1) (ys ! first2)
      then mismatch3_loop p (first1 + 1) stop1 xs (first2 + 1) ys
      else (first1, first2))"
  by pat_completeness auto
termination by (relation "measure (\<lambda>(p, first1, stop1, xs, first2, ys). stop1 - first1)") auto

declare mismatch3_loop.simps [simp del]

function mismatch4_loop :: "('a \<Rightarrow> 'a \<Rightarrow> bool) \<Rightarrow> nat \<Rightarrow> nat \<Rightarrow> 'a list \<Rightarrow> nat \<Rightarrow> nat \<Rightarrow> 'a list \<Rightarrow> nat \<times> nat" where
  "mismatch4_loop p first1 stop1 xs first2 stop2 ys =
     (if first1 < stop1 \<and> first2 < stop2 \<and> p (xs ! first1) (ys ! first2)
      then mismatch4_loop p (first1 + 1) stop1 xs (first2 + 1) stop2 ys
      else (first1, first2))"
  by pat_completeness auto
termination by (relation "measure (\<lambda>(p, first1, stop1, xs, first2, stop2, ys). stop1 - first1)") auto

declare mismatch4_loop.simps [simp del]

function permutation_tail ::
    "iterator_tag \<Rightarrow> ('a \<Rightarrow> 'a \<Rightarrow> bool) \<Rightarrow> nat \<Rightarrow> nat \<Rightarrow> nat \<Rightarrow> 'a list \<Rightarrow> nat \<Rightarrow> nat \<Rightarrow> 'a list \<Rightarrow> bool" where
  "permutation_tail tag p scan first1 stop1 xs first2 stop2 ys =
     (if scan < stop1 then
        if scan \<noteq> find_if tag (\<lambda>i. p (xs ! i) (xs ! scan)) first1 scan
        then permutation_tail tag p (scan + 1) first1 stop1 xs first2 stop2 ys
        else let matches = count_if (\<lambda>j. p (ys ! j) (xs ! scan)) first2 stop2 in
          if matches = 0 \<or> count_if (\<lambda>i. p (xs ! i) (xs ! scan)) scan stop1 \<noteq> matches then False
          else permutation_tail tag p (scan + 1) first1 stop1 xs first2 stop2 ys
      else True)"
  by pat_completeness auto
termination by (relation "measure (\<lambda>(tag, p, scan, first1, stop1, xs, first2, stop2, ys). stop1 - scan)") auto

declare permutation_tail.simps [simp del]

text \<open>With three iterators the second range is taken to be as long as the first.\<close>

definition is_permutation3 ::
    "iterator_tag \<Rightarrow> ('a \<Rightarrow> 'a \<Rightarrow> bool) \<Rightarrow> nat \<Rightarrow> nat \<Rightarrow> 'a list \<Rightarrow> nat \<Rightarrow> 'a list \<Rightarrow> bool" where
  "is_permutation3 tag p first1 stop1 xs first2 ys =
     (let (first1, first2) = mismatch3_loop p first1 stop1 xs first2 ys in
      if first1 = stop1 then True
      else let stop2 = first2 + (stop1 - first1); scan = first1 in
        permutation_tail tag p scan first1 stop1 xs first2 stop2 ys)"

text \<open>With four, \<open>ra_iters\<close> says whether both iterators are for random access.\<close>

definition is_permutation4 ::
    "iterator_tag \<Rightarrow> bool \<Rightarrow> ('a \<Rightarrow> 'a \<Rightarrow> bool) \<Rightarrow> nat \<Rightarrow> nat \<Rightarrow> 'a list \<Rightarrow> nat \<Rightarrow> nat \<Rightarrow> 'a list \<Rightarrow> bool" where
  "is_permutation4 tag ra_iters p first1 stop1 xs first2 stop2 ys =
     (if ra_iters \<and> stop1 - first1 \<noteq> stop2 - first2 then False
      else let (first1, first2) = mismatch4_loop p first1 stop1 xs first2 stop2 ys in
        if ra_iters \<and> first1 = stop1 then True
        else if \<not> ra_iters \<and> stop1 - first1 = 0 \<and> stop2 - first2 = 0 then True
        else if \<not> ra_iters \<and> stop1 - first1 \<noteq> stop2 - first2 then False
        else let scan = first1 in permutation_tail tag p scan first1 stop1 xs first2 stop2 ys)"

definition is_permutation3_comp ::
    "iterator_tag \<Rightarrow> ('a \<Rightarrow> 'a \<Rightarrow> bool) \<Rightarrow> nat \<Rightarrow> nat \<Rightarrow> 'a list \<Rightarrow> nat \<Rightarrow> 'a list \<Rightarrow> bool" where
  "is_permutation3_comp tag p first1 stop1 xs first2 ys = is_permutation3 tag p first1 stop1 xs first2 ys"

definition is_permutation_comp ::
    "iterator_tag \<Rightarrow> bool \<Rightarrow> ('a \<Rightarrow> 'a \<Rightarrow> bool) \<Rightarrow> nat \<Rightarrow> nat \<Rightarrow> 'a list \<Rightarrow> nat \<Rightarrow> nat \<Rightarrow> 'a list \<Rightarrow> bool" where
  "is_permutation_comp tag ra_iters p first1 stop1 xs first2 stop2 ys =
     is_permutation4 tag ra_iters p first1 stop1 xs first2 stop2 ys"

definition is_permutation3_equal :: "iterator_tag \<Rightarrow> nat \<Rightarrow> nat \<Rightarrow> 'a list \<Rightarrow> nat \<Rightarrow> 'a list \<Rightarrow> bool" where
  "is_permutation3_equal tag first1 stop1 xs first2 ys = is_permutation3 tag (=) first1 stop1 xs first2 ys"

definition is_permutation :: "iterator_tag \<Rightarrow> bool \<Rightarrow> nat \<Rightarrow> nat \<Rightarrow> 'a list \<Rightarrow> nat \<Rightarrow> nat \<Rightarrow> 'a list \<Rightarrow> bool" where
  "is_permutation tag ra_iters first1 stop1 xs first2 stop2 ys =
     is_permutation4 tag ra_iters (=) first1 stop1 xs first2 stop2 ys"

section \<open>What the extrema are\<close>

definition first_min :: "('a \<Rightarrow> 'a \<Rightarrow> bool) \<Rightarrow> nat \<Rightarrow> nat \<Rightarrow> 'a list \<Rightarrow> nat \<Rightarrow> bool" where
  "first_min cmp first stop xs m \<longleftrightarrow> first \<le> m \<and> m < stop \<and>
     (\<forall>i. first \<le> i \<and> i < stop \<longrightarrow> \<not> cmp (xs ! i) (xs ! m)) \<and> (\<forall>i. first \<le> i \<and> i < m \<longrightarrow> cmp (xs ! m) (xs ! i))"

definition first_max :: "('a \<Rightarrow> 'a \<Rightarrow> bool) \<Rightarrow> nat \<Rightarrow> nat \<Rightarrow> 'a list \<Rightarrow> nat \<Rightarrow> bool" where
  "first_max cmp first stop xs m \<longleftrightarrow> first_min (\<lambda>x y. cmp y x) first stop xs m"

definition last_max :: "('a \<Rightarrow> 'a \<Rightarrow> bool) \<Rightarrow> nat \<Rightarrow> nat \<Rightarrow> 'a list \<Rightarrow> nat \<Rightarrow> bool" where
  "last_max cmp first stop xs m \<longleftrightarrow> first \<le> m \<and> m < stop \<and>
     (\<forall>i. first \<le> i \<and> i < stop \<longrightarrow> \<not> cmp (xs ! m) (xs ! i)) \<and> (\<forall>i. m < i \<and> i < stop \<longrightarrow> cmp (xs ! i) (xs ! m))"

lemma max_element_loop_flip: "max_element_loop cmp r first stop xs = min_element_loop (\<lambda>x y. cmp y x) r first stop xs"
proof (induction cmp r first stop xs rule: max_element_loop.induct)
  case (1 cmp r first stop xs)
  then show ?case
    by (subst max_element_loop.simps, subst min_element_loop.simps) (simp add: Let_def iter_ops)
qed

context weak_order
begin

lemma first_min_single: "first_min cmp first (first + 1) xs first"
  by (auto simp: first_min_def le_less_Suc_eq)

lemma last_max_single: "last_max cmp first (first + 1) xs first"
  by (auto simp: last_max_def le_less_Suc_eq)

lemma first_min_step:
  assumes "first_min cmp first n xs m"
  shows "first_min cmp first (n + 1) xs (if cmp (xs ! n) (xs ! m) then n else m)"
proof (cases "cmp (xs ! n) (xs ! m)")
  case True
  have "cmp (xs ! n) (xs ! i)" if "first \<le> i" "i < n" for i
    using assms that True neg_trans [of "xs ! n" "xs ! i" "xs ! m"] by (auto simp: first_min_def)
  then show ?thesis using assms asym True by (auto simp: first_min_def less_Suc_eq)
qed (use assms in \<open>auto simp: first_min_def less_Suc_eq\<close>)

lemma last_max_step:
  assumes "last_max cmp first n xs m"
  shows "last_max cmp first (n + 1) xs (if \<not> cmp (xs ! n) (xs ! m) then n else m)"
proof (cases "cmp (xs ! n) (xs ! m)")
  case False
  have "\<not> cmp (xs ! n) (xs ! i)" if "first \<le> i" "i < n" for i
    using assms that False neg_trans [of "xs ! n" "xs ! m" "xs ! i"] by (auto simp: last_max_def)
  then show ?thesis using assms asym False by (auto simp: last_max_def less_Suc_eq)
qed (use assms asym in \<open>auto simp: last_max_def less_Suc_eq\<close>)

lemma min_element_loop_ok:
  "first_min cmp f (first + 1) xs r \<Longrightarrow> first < stop \<Longrightarrow> first_min cmp f stop xs (min_element_loop cmp r first stop xs)"
proof (induction "stop - first" arbitrary: first r)
  case (Suc n)
  show ?case
  proof (cases "first + 1 < stop")
    case True
    have "first_min cmp f stop xs (min_element_loop cmp (if cmp (xs ! (first + 1)) (xs ! r) then first + 1 else r) (first + 1) stop xs)"
      using first_min_step [OF Suc.prems(1)] Suc.hyps(2) True by (intro Suc.hyps(1)) simp_all
    then show ?thesis using True by (subst min_element_loop.simps) (simp add: iter_ops Let_def split: if_splits)
  next
    case False
    then have "stop = first + 1" using Suc.prems(2) by simp
    then show ?thesis using Suc.prems(1) by (subst min_element_loop.simps) simp
  qed
qed simp

lemma min_element_with_ok: "first < stop \<Longrightarrow> first_min cmp first stop xs (min_element_with cmp first stop xs)"
  using min_element_loop_ok [OF first_min_single] by (simp add: min_element_with_def)

text \<open>A round of the loop over pairs is a step for each of the two.\<close>

lemma minmax_element_loop_ok:
  "first_min cmp f first xs mn \<Longrightarrow> last_max cmp f first xs mx \<Longrightarrow> first \<le> stop \<Longrightarrow>
   minmax_element_loop cmp mn mx first stop xs = (a, b) \<Longrightarrow> first_min cmp f stop xs a \<and> last_max cmp f stop xs b"
proof (induction "stop - first" arbitrary: first mn mx rule: less_induct)
  case less
  let ?x = "xs ! first" and ?y = "xs ! (first + 1)"
  define mn1 mx1 where "mn1 = (if cmp ?x (xs ! mn) then first else mn)" and "mx1 = (if \<not> cmp ?x (xs ! mx) then first else mx)"
  have one: "first_min cmp f (first + 1) xs mn1" "last_max cmp f (first + 1) xs mx1"
    unfolding mn1_def mx1_def by (rule first_min_step [OF less.prems(1)] last_max_step [OF less.prems(2)])+
  consider (empty) "first = stop" | (odd) "first + 1 = stop" | (pair) "first + 1 < stop" using less.prems(3) by linarith
  then show ?case
  proof cases
    case empty
    then show ?thesis using less.prems by (subst (asm) minmax_element_loop.simps) simp
  next
    case odd
    have "\<not> cmp (xs ! mx) (xs ! mn)" using less.prems(1,2) by (auto simp: first_min_def last_max_def)
    then have "cmp ?x (xs ! mx)" if "cmp ?x (xs ! mn)" using that neg_trans [of ?x "xs ! mx" "xs ! mn"] by blast
    then have "a = mn1" "b = mx1"
      using less.prems(4) odd by (subst (asm) minmax_element_loop.simps, auto simp: mn1_def mx1_def iter_ops split: if_splits)+
    then show ?thesis using one odd by simp
  next
    case pair
    define mn2 mx2 where "mn2 = (if cmp ?y (xs ! mn1) then first + 1 else mn1)"
      and "mx2 = (if \<not> cmp ?y (xs ! mx1) then first + 1 else mx1)"
    have two: "first_min cmp f (first + 2) xs mn2" "last_max cmp f (first + 2) xs mx2"
      using first_min_step [OF one(1)] last_max_step [OF one(2)] by (simp_all add: mn2_def mx2_def)
    have "minmax_element_loop cmp mn mx first stop xs = minmax_element_loop cmp mn2 mx2 (first + 2) stop xs"
    proof (cases "cmp ?y ?x")
      case True
      then have "mn2 = (if cmp ?y (xs ! mn) then first + 1 else mn)" "mx2 = mx1"
        using neg_trans [of ?y "xs ! mn" ?x] neg_trans [of ?y "xs ! mx" ?x] asym [of ?y ?x] asym [of ?x "xs ! mn"] asym [of ?x "xs ! mx"]
        by (auto simp: mn2_def mx2_def mn1_def mx1_def)
      then show ?thesis using True pair by (subst minmax_element_loop.simps) (simp add: iter_ops Let_def mx1_def)
    next
      case False
      then have "mn2 = mn1" "mx2 = (if \<not> cmp ?y (xs ! mx) then first + 1 else mx)"
        using neg_trans [of ?y ?x "xs ! mn"] neg_trans [of ?y ?x "xs ! mx"]
        by (auto simp: mn2_def mx2_def mn1_def mx1_def)
      then show ?thesis using False pair by (subst minmax_element_loop.simps) (simp add: iter_ops Let_def mn1_def)
    qed
    then show ?thesis using less.hyps [of "first + 2" mn2 mx2] two pair less.prems(4) by simp
  qed
qed

lemma minmax_element_with_ok:
  assumes "first < stop" "minmax_element_with cmp first stop xs = (a, b)"
  shows "first_min cmp first stop xs a \<and> last_max cmp first stop xs b"
proof (cases "first + 1 = stop")
  case True
  then have "a = first" "b = first" using assms(2) by (simp_all add: minmax_element_with_def Let_def)
  then show ?thesis using first_min_single [of first xs] last_max_single [of first xs] True by simp
next
  case False
  let ?y = "xs ! (first + 1)" and ?x = "xs ! first"
  define mn mx where "mn = (if cmp ?y ?x then first + 1 else first)" and "mx = (if \<not> cmp ?y ?x then first + 1 else first)"
  have "minmax_element_loop cmp mn mx (first + 2) stop xs = (a, b)"
    using assms False by (auto simp: minmax_element_with_def Let_def iter_ops mn_def mx_def split: if_splits)
  moreover have "first_min cmp first (first + 2) xs mn" "last_max cmp first (first + 2) xs mx"
    using first_min_step [OF first_min_single, of first xs] last_max_step [OF last_max_single, of first xs]
    by (simp_all add: mn_def mx_def)
  ultimately show ?thesis using minmax_element_loop_ok [of first "first + 2" xs mn mx stop a b] assms(1) False by simp
qed

section \<open>Sortedness\<close>

lemma is_sorted_until_loop_ok:
  "(\<forall>i j. f \<le> i \<and> i < j \<and> j < nxt \<longrightarrow> \<not> cmp (xs ! j) (xs ! i)) \<Longrightarrow> f < nxt \<Longrightarrow> nxt \<le> stop \<Longrightarrow>
   is_sorted_until_loop cmp (nxt - 1) nxt stop xs = r \<Longrightarrow>
   f < r \<and> r \<le> stop \<and> (\<forall>i j. f \<le> i \<and> i < j \<and> j < r \<longrightarrow> \<not> cmp (xs ! j) (xs ! i)) \<and> (r < stop \<longrightarrow> cmp (xs ! r) (xs ! (r - 1)))"
proof (induction "stop - nxt" arbitrary: nxt)
  case 0
  then show ?case by (subst (asm) is_sorted_until_loop.simps) auto
next
  case (Suc n)
  then have lt: "nxt < stop" by simp
  show ?case
  proof (cases "cmp (xs ! nxt) (xs ! (nxt - 1))")
    case True
    then show ?thesis using Suc.prems lt by (subst (asm) is_sorted_until_loop.simps) (auto simp: iter_ops)
  next
    case False
    then have run: "is_sorted_until_loop cmp (nxt + 1 - 1) (nxt + 1) stop xs = r"
      using Suc.prems lt by (subst (asm) is_sorted_until_loop.simps) (simp add: iter_ops)
    have "\<not> cmp (xs ! nxt) (xs ! i)" if "f \<le> i" "i < nxt" for i
    proof (cases "i = nxt - 1")
      case False
      then show ?thesis
        using \<open>\<not> cmp (xs ! nxt) (xs ! (nxt - 1))\<close> Suc.prems(1) that neg_trans [of "xs ! nxt" "xs ! (nxt - 1)" "xs ! i"] by auto
    qed (use \<open>\<not> cmp (xs ! nxt) (xs ! (nxt - 1))\<close> in simp)
    then have "\<forall>i j. f \<le> i \<and> i < j \<and> j < nxt + 1 \<longrightarrow> \<not> cmp (xs ! j) (xs ! i)"
      using Suc.prems(1) by (auto simp: less_Suc_eq)
    then show ?thesis using Suc.hyps(1) [of "nxt + 1"] Suc.hyps(2) Suc.prems(2) lt run by simp
  qed
qed

lemma is_sorted_until_with_ok:
  assumes "first < stop" "stop \<le> length xs" "is_sorted_until_with cmp first stop xs = r"
  shows "first < r \<and> r \<le> stop \<and> ordered cmp (range_of first r xs) \<and> (r < stop \<longrightarrow> cmp (xs ! r) (xs ! (r - 1)))"
proof -
  have "is_sorted_until_loop cmp (first + 1 - 1) (first + 1) stop xs = r"
    using assms by (simp add: is_sorted_until_with_def)
  moreover have "\<forall>i j. first \<le> i \<and> i < j \<and> j < first + 1 \<longrightarrow> \<not> cmp (xs ! j) (xs ! i)" by auto
  ultimately show ?thesis
    using is_sorted_until_loop_ok [of first "first + 1" xs stop r] assms(1,2) by (auto simp: ordered_range)
qed

lemma is_sorted_until_ordered:
  assumes "first \<le> stop" "stop \<le> length xs"
  shows "is_sorted_until_with cmp first stop xs = stop \<longleftrightarrow> ordered cmp (range_of first stop xs)"
proof (cases "first = stop")
  case True
  then show ?thesis by (simp add: is_sorted_until_with_def range_of_def ordered_def)
next
  case False
  then have ok: "first < is_sorted_until_with cmp first stop xs" "is_sorted_until_with cmp first stop xs \<le> stop"
    "ordered cmp (range_of first (is_sorted_until_with cmp first stop xs) xs)"
    "is_sorted_until_with cmp first stop xs < stop \<longrightarrow>
      cmp (xs ! is_sorted_until_with cmp first stop xs) (xs ! (is_sorted_until_with cmp first stop xs - 1))"
    using is_sorted_until_with_ok [OF _ assms(2) refl, of first] assms(1) by auto
  show ?thesis
  proof
    assume "ordered cmp (range_of first stop xs)"
    then have "\<not> cmp (xs ! r) (xs ! (r - 1))" if "first < r" "r < stop" for r
      using that assms(2) by (auto simp: ordered_range)
    then show "is_sorted_until_with cmp first stop xs = stop" using ok(1,2,4) by (meson le_neq_implies_less)
  qed (use ok(3) in simp)
qed

end

section \<open>Counting classes\<close>

text \<open>How many elements a relation puts with \<open>v\<close>.\<close>

definition class_size :: "('a \<Rightarrow> 'a \<Rightarrow> bool) \<Rightarrow> 'a \<Rightarrow> 'a list \<Rightarrow> nat" where
  "class_size p v xs = length (filter (\<lambda>x. p x v) xs)"

lemma class_size_simps [simp]:
  "class_size p v [] = 0" "class_size p v (x # xs) = of_bool (p x v) + class_size p v xs"
  "class_size p v (xs @ ys) = class_size p v xs + class_size p v ys"
  by (simp_all add: class_size_def)

lemma class_size_mset: "mset xs = mset ys \<Longrightarrow> class_size p v xs = class_size p v ys"
  unfolding class_size_def by (metis mset_filter size_mset)

lemma class_size_list_all2:
  assumes "equivp p" "list_all2 p xs ys"
  shows "class_size p v xs = class_size p v ys"
proof -
  have same: "p x v = p y v" if "p x y" for x y using that assms(1) by (meson equivp_symp equivp_transp)
  show ?thesis using assms(2) by (induction rule: list_all2_induct) (simp_all add: same)
qed

lemma class_size_remove1: "y \<in> set ys \<Longrightarrow> class_size p v (remove1 y ys) + of_bool (p y v) = class_size p v ys"
  by (induction ys) auto

lemma classes_match:
  assumes "equivp p" "\<forall>x \<in> set xs. class_size p x xs \<le> class_size p x ys"
  shows "\<exists>zs us. mset (zs @ us) = mset ys \<and> list_all2 p xs zs"
  using assms(2)
proof (induction xs arbitrary: ys)
  case Nil
  then show ?case by (intro exI [of _ "[]"] exI [of _ ys]) simp
next
  case (Cons x xs)
  have refl: "p x x" using assms(1) by (rule equivp_reflp)
  then have "0 < class_size p x ys" using Cons.prems by (auto simp: Suc_le_eq)
  then obtain y where y: "y \<in> set ys" "p y x" by (auto simp: class_size_def filter_empty_conv)
  then have same: "p x v = p y v" for v using assms(1) by (meson equivp_symp equivp_transp)
  have "class_size p v xs \<le> class_size p v (remove1 y ys)" if "v \<in> set xs" for v
    using Cons.prems that class_size_remove1 [OF y(1), of p v] same [of v] by fastforce
  then obtain zs us where zs: "mset (zs @ us) = mset (remove1 y ys)" "list_all2 p xs zs" using Cons.IH by blast
  have "mset ((y # zs) @ us) = mset ys" using zs(1) y(1) by simp
  moreover have "list_all2 p (x # xs) (y # zs)" using zs(2) same [of y] assms(1) by (simp add: equivp_reflp)
  ultimately show ?case by blast
qed

text \<open>The second list can be put in the order of the first one.\<close>

definition permutes_to :: "('a \<Rightarrow> 'a \<Rightarrow> bool) \<Rightarrow> 'a list \<Rightarrow> 'a list \<Rightarrow> bool" where
  "permutes_to p xs ys \<longleftrightarrow> (\<exists>zs. mset zs = mset ys \<and> list_all2 p xs zs)"

lemma permutes_to_sizes:
  assumes "equivp p" "permutes_to p xs ys"
  shows "length xs = length ys" "class_size p v xs = class_size p v ys"
proof -
  obtain zs where zs: "mset zs = mset ys" "list_all2 p xs zs" using assms(2) by (auto simp: permutes_to_def)
  show "length xs = length ys" using mset_eq_length [OF zs(1)] list_all2_lengthD [OF zs(2)] by simp
  show "class_size p v xs = class_size p v ys"
    using class_size_list_all2 [OF assms(1) zs(2)] class_size_mset [OF zs(1)] by simp
qed

lemma permutes_to_iff:
  assumes "equivp p" "length xs = length ys"
  shows "permutes_to p xs ys \<longleftrightarrow> (\<forall>x \<in> set xs. class_size p x xs = class_size p x ys)"
proof
  assume "\<forall>x \<in> set xs. class_size p x xs = class_size p x ys"
  then obtain zs us where zs: "mset (zs @ us) = mset ys" "list_all2 p xs zs" using classes_match [OF assms(1), of xs ys] by auto
  have "length zs + length us = length ys" using mset_eq_length [OF zs(1)] by simp
  then have "us = []" using list_all2_lengthD [OF zs(2)] assms(2) by simp
  then show "permutes_to p xs ys" using zs by (auto simp: permutes_to_def)
qed (use permutes_to_sizes [OF assms(1)] in blast)

lemma permutes_to_prefix:
  assumes "equivp p" "list_all2 p as bs"
  shows "permutes_to p (as @ xs) (bs @ ys) \<longleftrightarrow> permutes_to p xs ys"
proof
  assume "permutes_to p (as @ xs) (bs @ ys)"
  note sizes = permutes_to_sizes [OF assms(1) this]
  have "class_size p v xs = class_size p v ys" for v
    using sizes(2) [of v] class_size_list_all2 [OF assms, of v] by simp
  then show "permutes_to p xs ys"
    using sizes(1) list_all2_lengthD [OF assms(2)] by (simp add: permutes_to_iff [OF assms(1)])
next
  assume "permutes_to p xs ys"
  then obtain zs where zs: "mset zs = mset ys" "list_all2 p xs zs" by (auto simp: permutes_to_def)
  then have "mset (bs @ zs) = mset (bs @ ys)" "list_all2 p (as @ xs) (bs @ zs)"
    using assms(2) by (simp_all add: list_all2_appendI)
  then show "permutes_to p (as @ xs) (bs @ ys)" unfolding permutes_to_def by blast
qed

lemma permutes_to_equal: "permutes_to (=) xs ys \<longleftrightarrow> mset xs = mset ys"
  by (auto simp: permutes_to_def list_all2_eq [symmetric])

section \<open>What the test for permutations tests\<close>

lemma count_if_class:
  "stop \<le> length xs \<Longrightarrow> count_if_loop (\<lambda>i. p (xs ! i) v) n first stop = n + class_size p v (range_of first stop xs)"
proof (induction "stop - first" arbitrary: first n)
  case 0
  then show ?case by (subst count_if_loop.simps) (simp add: range_of_def)
next
  case (Suc d)
  then have lt: "first < stop" by simp
  then have "count_if_loop (\<lambda>i. p (xs ! i) v) n first stop =
      count_if_loop (\<lambda>i. p (xs ! i) v) (if p (xs ! first) v then n + 1 else n) (first + 1) stop"
    by (subst count_if_loop.simps) simp
  also have "\<dots> = (if p (xs ! first) v then n + 1 else n) + class_size p v (range_of (first + 1) stop xs)"
    using Suc by (intro Suc.hyps(1)) auto
  finally show ?case using lt Suc.prems by (simp add: range_of_Cons)
qed

lemma permutation_tail_ok:
  assumes p: "equivp p" and xs: "first1 \<le> stop1" "stop1 \<le> length xs" and ys: "stop2 \<le> length ys"
  shows "first1 \<le> scan \<Longrightarrow> scan \<le> stop1 \<Longrightarrow>
    (\<forall>i. first1 \<le> i \<and> i < scan \<longrightarrow>
       class_size p (xs ! i) (range_of first1 stop1 xs) = class_size p (xs ! i) (range_of first2 stop2 ys)) \<Longrightarrow>
    permutation_tail tag p scan first1 stop1 xs first2 stop2 ys \<longleftrightarrow>
    (\<forall>i. first1 \<le> i \<and> i < stop1 \<longrightarrow>
       class_size p (xs ! i) (range_of first1 stop1 xs) = class_size p (xs ! i) (range_of first2 stop2 ys))"
proof (induction "stop1 - scan" arbitrary: scan)
  case 0
  then show ?case by (subst permutation_tail.simps) auto
next
  case (Suc n)
  let ?same = "\<lambda>i. class_size p (xs ! i) (range_of first1 stop1 xs) = class_size p (xs ! i) (range_of first2 stop2 ys)"
  have lt: "scan < stop1" using Suc.hyps(2) by simp
  have IH: "permutation_tail tag p (scan + 1) first1 stop1 xs first2 stop2 ys \<longleftrightarrow> (\<forall>i. first1 \<le> i \<and> i < stop1 \<longrightarrow> ?same i)"
    if "?same scan"
  proof (rule Suc.hyps(1))
    show "\<forall>i. first1 \<le> i \<and> i < scan + 1 \<longrightarrow> ?same i" using Suc.prems(3) that by (auto simp: less_Suc_eq)
  qed (use Suc.hyps(2) Suc.prems lt in auto)
  define r where "r = find_if tag (\<lambda>i. p (xs ! i) (xs ! scan)) first1 scan"
  have r: "first_at (\<lambda>i. p (xs ! i) (xs ! scan)) first1 scan r"
    unfolding r_def by (rule find_if_first [OF Suc.prems(1)])
  show ?case
  proof (cases "r = scan")
    case True
    have "class_size p (xs ! scan) (range_of first1 scan xs) = 0"
      using r True lt xs(2) by (auto simp: class_size_def filter_empty_conv set_range_of first_at_def)
    then have rest: "class_size p (xs ! scan) (range_of scan stop1 xs) = class_size p (xs ! scan) (range_of first1 stop1 xs)"
      using range_of_append [of first1 scan stop1 xs] Suc.prems(1) lt by simp
    have "0 < class_size p (xs ! scan) (range_of scan stop1 xs)"
      using range_of_Cons [OF lt xs(2)] equivp_reflp [OF p] by simp
    then have "permutation_tail tag p scan first1 stop1 xs first2 stop2 ys =
        (?same scan \<and> permutation_tail tag p (scan + 1) first1 stop1 xs first2 stop2 ys)"
      using lt True count_if_class [OF xs(2), of p "xs ! scan" 0 scan] count_if_class [OF ys, of p "xs ! scan" 0 first2] rest
      by (subst permutation_tail.simps) (auto simp: r_def [symmetric] count_if_def Let_def)
    then show ?thesis using IH lt Suc.prems(1) by auto
  next
    case False
    then have seen: "first1 \<le> r" "r < scan" "p (xs ! r) (xs ! scan)" using r by (auto simp: first_at_def)
    have "class_size p (xs ! scan) zs = class_size p (xs ! r) zs" for zs
      using seen(3) p unfolding class_size_def by (metis equivp_symp equivp_transp)
    then have "?same scan" using Suc.prems(3) seen(1,2) by simp
    then show ?thesis using IH False lt by (subst permutation_tail.simps) (simp add: r_def [symmetric])
  qed
qed

lemma mismatch4_loop_ok:
  "mismatch4_loop p first1 stop1 xs first2 stop2 ys = (a, b) \<Longrightarrow> first1 \<le> stop1 \<Longrightarrow> stop1 \<le> length xs \<Longrightarrow>
   first2 \<le> stop2 \<Longrightarrow> stop2 \<le> length ys \<Longrightarrow>
   first1 \<le> a \<and> a \<le> stop1 \<and> first2 \<le> b \<and> b \<le> stop2 \<and> a - first1 = b - first2 \<and>
   list_all2 p (range_of first1 a xs) (range_of first2 b ys)"
proof (induction p first1 stop1 xs first2 stop2 ys rule: mismatch4_loop.induct)
  case (1 p first1 stop1 xs first2 stop2 ys)
  show ?case
  proof (cases "first1 < stop1 \<and> first2 < stop2 \<and> p (xs ! first1) (ys ! first2)")
    case True
    then have "mismatch4_loop p (first1 + 1) stop1 xs (first2 + 1) stop2 ys = (a, b)"
      using 1(2) by (subst (asm) mismatch4_loop.simps) simp
    then have "first1 + 1 \<le> a" "a \<le> stop1" "first2 + 1 \<le> b" "b \<le> stop2" "a - (first1 + 1) = b - (first2 + 1)"
      "list_all2 p (range_of (first1 + 1) a xs) (range_of (first2 + 1) b ys)"
      using 1(1) [OF True] 1(3-) True by auto
    then show ?thesis using True 1(4,6) by (auto simp: range_of_Cons)
  next
    case False
    then have "a = first1" "b = first2" using 1(2) by (auto simp: mismatch4_loop.simps)
    then show ?thesis using 1(3-) by (simp add: range_of_def)
  qed
qed

lemma mismatch3_loop_eq: "mismatch3_loop p first1 stop1 xs first2 ys = mismatch4_loop p first1 stop1 xs first2 (first2 + (stop1 - first1)) ys"
proof (induction p first1 stop1 xs first2 ys rule: mismatch3_loop.induct)
  case (1 p first1 stop1 xs first2 ys)
  show ?case
  proof (cases "first1 < stop1 \<and> p (xs ! first1) (ys ! first2)")
    case True
    then have "first2 + 1 + (stop1 - (first1 + 1)) = first2 + (stop1 - first1)"
      "first2 < first2 + (stop1 - first1)" by arith+
    then show ?thesis
      using 1 True by (subst mismatch3_loop.simps, subst mismatch4_loop.simps) simp
  next
    case False
    then show ?thesis by (subst mismatch3_loop.simps, subst mismatch4_loop.simps) auto
  qed
qed

lemma permutation_tail_permutes:
  assumes p: "equivp p" and xs: "first1 \<le> stop1" "stop1 \<le> length xs" and ys: "stop2 \<le> length ys" "stop1 - first1 = stop2 - first2"
  shows "permutation_tail tag p first1 first1 stop1 xs first2 stop2 ys \<longleftrightarrow>
    permutes_to p (range_of first1 stop1 xs) (range_of first2 stop2 ys)"
proof -
  have "length (range_of first1 stop1 xs) = length (range_of first2 stop2 ys)" using xs ys by (simp add: length_range_of)
  then show ?thesis
    using permutation_tail_ok [OF p xs ys(1), of first1 first2 tag] xs
    by (auto simp: permutes_to_iff [OF p] set_range_of)
qed

lemma is_permutation4_ok:
  assumes p: "equivp p" and xs: "first1 \<le> stop1" "stop1 \<le> length xs" and ys: "first2 \<le> stop2" "stop2 \<le> length ys"
  shows "is_permutation4 tag ra_iters p first1 stop1 xs first2 stop2 ys \<longleftrightarrow>
    permutes_to p (range_of first1 stop1 xs) (range_of first2 stop2 ys)"
proof -
  obtain a b where ab: "mismatch4_loop p first1 stop1 xs first2 stop2 ys = (a, b)" by fastforce
  have ok: "first1 \<le> a" "a \<le> stop1" "first2 \<le> b" "b \<le> stop2" "a - first1 = b - first2"
    "list_all2 p (range_of first1 a xs) (range_of first2 b ys)"
    using mismatch4_loop_ok [OF ab xs ys] by auto
  have split: "range_of first1 stop1 xs = range_of first1 a xs @ range_of a stop1 xs"
    "range_of first2 stop2 ys = range_of first2 b ys @ range_of b stop2 ys"
    by (rule range_of_append [OF ok(1,2)] range_of_append [OF ok(3,4)])+
  show ?thesis
  proof (cases "stop1 - first1 = stop2 - first2")
    case True
    then have rest: "stop1 - a = stop2 - b" using ok xs(1) ys(1) by linarith
    have tail: "permutation_tail tag p a a stop1 xs b stop2 ys \<longleftrightarrow>
        permutes_to p (range_of first1 stop1 xs) (range_of first2 stop2 ys)"
      unfolding split permutes_to_prefix [OF p ok(6)]
      by (rule permutation_tail_permutes [OF p ok(2) xs(2) ys(2) rest])
    have "permutation_tail tag p a a stop1 xs b stop2 ys" if "a = stop1"
      using that by (subst permutation_tail.simps) simp
    then show ?thesis using True rest tail ok(2,4) by (auto simp: is_permutation4_def ab Let_def)
  next
    case False
    then have "\<not> permutes_to p (range_of first1 stop1 xs) (range_of first2 stop2 ys)"
      using permutes_to_sizes(1) [OF p] xs ys by (metis length_range_of)
    moreover have "stop1 - a \<noteq> stop2 - b" using False ok xs(1) ys(1) by linarith
    ultimately show ?thesis using False by (auto simp: is_permutation4_def ab Let_def)
  qed
qed

lemma is_permutation3_ok:
  assumes p: "equivp p" and xs: "first1 \<le> stop1" "stop1 \<le> length xs" and ys: "first2 + (stop1 - first1) \<le> length ys"
  shows "is_permutation3 tag p first1 stop1 xs first2 ys \<longleftrightarrow>
    permutes_to p (range_of first1 stop1 xs) (range_of first2 (first2 + (stop1 - first1)) ys)"
proof -
  obtain a b where ab: "mismatch3_loop p first1 stop1 xs first2 ys = (a, b)" by fastforce
  have ok: "first1 \<le> a" "a \<le> stop1" "first2 \<le> b" "b \<le> first2 + (stop1 - first1)" "a - first1 = b - first2"
    using mismatch4_loop_ok [OF ab [unfolded mismatch3_loop_eq] xs _ ys] by auto
  then have stop2: "b + (stop1 - a) = first2 + (stop1 - first1)" by linarith
  have "permutation_tail tag p a a stop1 xs b stop2 ys" if "a = stop1" for stop2
    using that by (subst permutation_tail.simps) simp
  then have "is_permutation3 tag p first1 stop1 xs first2 ys =
      is_permutation4 tag True p first1 stop1 xs first2 (first2 + (stop1 - first1)) ys"
    by (auto simp: is_permutation3_def is_permutation4_def ab ab [unfolded mismatch3_loop_eq] stop2 Let_def)
  then show ?thesis using is_permutation4_ok [OF p xs _ ys] by simp
qed

section \<open>The properties\<close>

lemma first_max_ok: "weak_order cmp \<Longrightarrow> first < stop \<Longrightarrow> first_max cmp first stop xs (max_element_with cmp first stop xs)"
proof -
  assume w: "weak_order cmp" and lt: "first < stop"
  have "weak_order (\<lambda>x y. cmp y x)" using w unfolding weak_order_def by metis
  from weak_order.min_element_with_ok [OF this lt, of xs] lt
  show ?thesis by (simp add: first_max_def max_element_with_def min_element_with_def max_element_loop_flip split: if_splits)
qed

lemma extremum_values:
  assumes "first_min (<) 0 (length l) (l :: 'a::linorder list) m"
  shows "l ! m = Min (set l)"
  using assms by (intro Min_eqI [symmetric]) (auto simp: first_min_def in_set_conv_nth not_less)

lemma extremum_values_max:
  assumes "first_max (<) 0 (length l) (l :: 'a::linorder list) m \<or> last_max (<) 0 (length l) l m"
  shows "l ! m = Max (set l)"
  using assms by (intro Max_eqI [symmetric]) (auto simp: first_max_def first_min_def last_max_def in_set_conv_nth not_less)

lemma list_extrema:
  assumes "l \<noteq> []"
  shows "min_list l = Some (Min (set l))" "max_list l = Some (Max (set l))" "minmax_list l = Some (Min (set l), Max (set l))"
proof -
  have lt: "0 < length l" using assms by simp
  have mn: "first_min (<) 0 (length l) l (min_element_with (<) 0 (length l) l)"
    by (rule less_order.min_element_with_ok [OF lt])
  then have "min_element_with (<) 0 (length l) l < length l" by (simp add: first_min_def)
  then show "min_list l = Some (Min (set l))" by (simp add: min_list_def min_list_comp_def extremum_values [OF mn])
  have mx: "first_max (<) 0 (length l) l (max_element_with (<) 0 (length l) l)"
    by (rule first_max_ok [OF less_order.weak_order_axioms lt])
  then have "max_element_with (<) 0 (length l) l < length l" by (simp add: first_max_def first_min_def)
  then show "max_list l = Some (Max (set l))"
    by (simp add: max_list_def max_list_comp_def extremum_values_max [OF disjI1 [OF mx]])
  obtain a b where ab: "minmax_element_with (<) 0 (length l) l = (a, b)" by fastforce
  have mm: "first_min (<) 0 (length l) l a" "last_max (<) 0 (length l) l b"
    using less_order.minmax_element_with_ok [OF lt ab] by auto
  then have "a < length l" "b < length l" by (simp_all add: first_min_def last_max_def)
  then show "minmax_list l = Some (Min (set l), Max (set l))"
    by (simp add: minmax_list_def minmax_list_comp_def ab extremum_values [OF mm(1)] extremum_values_max [OF disjI2 [OF mm(2)]])
qed

text \<open>for a strict weak order \<open>min_element\<close> finds the first smallest element of a non-empty range, \<open>max_element\<close> the
  first largest one, and \<open>minmax_element\<close>, which looks at the elements in pairs, the first smallest and the last largest
  one; \<open>is_sorted\<close> tells whether the range is in order, and \<open>is_sorted_until\<close> returns the end of the longest part
  from the beginning that is.\<close>

theorem order_queries:
  assumes "weak_order cmp" "first < stop" "stop \<le> length xs"
  shows "first_min cmp first stop xs (min_element_comp cmp first stop xs) \<and>
    first_max cmp first stop xs (max_element_comp cmp first stop xs) \<and>
    first_min cmp first stop xs (fst (minmax_element_comp cmp first stop xs)) \<and>
    last_max cmp first stop xs (snd (minmax_element_comp cmp first stop xs)) \<and>
    (is_sorted_comp cmp first stop xs \<longleftrightarrow> ordered cmp (range_of first stop xs)) \<and>
    (let r = is_sorted_until_comp cmp first stop xs
     in first < r \<and> r \<le> stop \<and> ordered cmp (range_of first r xs) \<and> (r < stop \<longrightarrow> \<not> ordered cmp (range_of first (r + 1) xs)))"
proof -
  obtain a b where ab: "minmax_element_with cmp first stop xs = (a, b)" by fastforce
  define r where "r = is_sorted_until_with cmp first stop xs"
  have r: "first < r" "r \<le> stop" "ordered cmp (range_of first r xs)" "r < stop \<longrightarrow> cmp (xs ! r) (xs ! (r - 1))"
    using weak_order.is_sorted_until_with_ok [OF assms r_def [symmetric]] by auto
  have "\<not> ordered cmp (range_of first (r + 1) xs)" if "r < stop"
  proof
    assume "ordered cmp (range_of first (r + 1) xs)"
    then have "\<not> cmp (xs ! r) (xs ! (r - 1))"
      using r(1) that assms(3) by (simp add: ordered_range)
    then show False using r(4) that by simp
  qed
  then show ?thesis
    using r(1-3) weak_order.min_element_with_ok [OF assms(1,2)] first_max_ok [OF assms(1,2)] ab
      weak_order.minmax_element_with_ok [OF assms(1,2) ab]
      weak_order.is_sorted_until_ordered [OF assms(1) less_imp_le [OF assms(2)] assms(3)]
    by (simp add: min_element_comp_def max_element_comp_def minmax_element_comp_def is_sorted_comp_def
        is_sorted_until_comp_def r_def)
qed

theorem order_queries_witness:
  "weak_order (\<lambda>x y :: nat. x div 10 < y div 10) \<and>
   minmax_element_comp (\<lambda>x y. x div 10 < y div 10) 1 6 [0, 25, 31, 12, 17, 38 :: nat] = (3, 5) \<and>
   first_min (\<lambda>x y. x div 10 < y div 10) 1 6 [0, 25, 31, 12, 17, 38 :: nat] 3 \<and>
   last_max (\<lambda>x y. x div 10 < y div 10) 1 6 [0, 25, 31, 12, 17, 38 :: nat] 5"
proof -
  have w: "weak_order (\<lambda>x y :: nat. x div 10 < y div 10)" by unfold_locales auto
  have run: "minmax_element_comp (\<lambda>x y. x div 10 < y div 10) 1 6 [0, 25, 31, 12, 17, 38 :: nat] = (3, 5)" by code_simp
  from order_queries [OF w, of 1 6 "[0, 25, 31, 12, 17, 38]"] run w show ?thesis by simp
qed

text \<open>C29: \<open>is_permutation\<close> answers whether the second range can be put in an order in which its elements are equivalent to
  those of the first one, one by one, for every equivalence relation, every category of iterators, and with or without
  the end of the second range; with \<open>==\<close>, whether the two ranges hold the same elements the same number of times. So it
  accepts whatever \<open>next_permutation\<close> or \<open>sort\<close> leave.\<close>

theorem is_permutation_iff:
  assumes "equivp p" "first1 \<le> stop1" "stop1 \<le> length xs" "first2 \<le> stop2" "stop2 \<le> length ys"
  shows "(is_permutation_comp tag ra_iters p first1 stop1 xs first2 stop2 ys \<longleftrightarrow>
      (\<exists>zs. mset zs = mset (range_of first2 stop2 ys) \<and> list_all2 p (range_of first1 stop1 xs) zs)) \<and>
    (stop2 - first2 = stop1 - first1 \<longrightarrow> is_permutation3_comp tag p first1 stop1 xs first2 ys =
      is_permutation_comp tag ra_iters p first1 stop1 xs first2 stop2 ys) \<and>
    (is_permutation tag ra_iters first1 stop1 xs first2 stop2 ys \<longleftrightarrow>
      mset (range_of first1 stop1 xs) = mset (range_of first2 stop2 ys))"
proof -
  have "is_permutation3 tag p first1 stop1 xs first2 ys = is_permutation4 tag ra_iters p first1 stop1 xs first2 stop2 ys"
    if "stop2 - first2 = stop1 - first1"
  proof -
    have "first2 + (stop1 - first1) = stop2" using that assms(4) by linarith
    then show ?thesis using is_permutation3_ok [OF assms(1-3), of first2 ys tag] is_permutation4_ok [OF assms] assms(5) by simp
  qed
  moreover have "is_permutation tag ra_iters first1 stop1 xs first2 stop2 ys \<longleftrightarrow>
      mset (range_of first1 stop1 xs) = mset (range_of first2 stop2 ys)"
    using is_permutation4_ok [OF identity_equivp assms(2-), of tag ra_iters] by (simp add: is_permutation_def permutes_to_equal)
  ultimately show ?thesis
    using is_permutation4_ok [OF assms, of tag ra_iters] by (simp add: permutes_to_def is_permutation_comp_def is_permutation3_comp_def)
qed

theorem is_permutation_iff_witness:
  "is_permutation_comp Random_access_iterator True (\<lambda>x y. x mod 3 = y mod 3) 0 3 [1, 2, 4 :: nat] 1 4 [0, 5, 7, 1] \<and>
   (\<exists>zs. mset zs = {#5, 7, 1#} \<and> list_all2 (\<lambda>x y. x mod 3 = y mod 3) [1, 2, 4 :: nat] zs)"
proof -
  have p: "equivp (\<lambda>x y :: nat. x mod 3 = y mod 3)" by (auto simp: equivp_def fun_eq_iff)
  have ranges: "range_of 0 3 [1, 2, 4 :: nat] = [1, 2, 4]" "range_of 1 4 [0, 5, 7, 1 :: nat] = [5, 7, 1]"
    by (simp_all add: range_of_def)
  have run: "is_permutation_comp Random_access_iterator True (\<lambda>x y. x mod 3 = y mod 3) 0 3 [1, 2, 4 :: nat] 1 4 [0, 5, 7, 1]"
    by code_simp
  have "(0 :: nat) \<le> 3" "3 \<le> length [1, 2, 4 :: nat]" "(1 :: nat) \<le> 4" "4 \<le> length [0, 5, 7, 1 :: nat]" by simp_all
  from is_permutation_iff [OF p this, of Random_access_iterator True, unfolded ranges] run show ?thesis by simp
qed

end
