(* ===== verification/Stl_Partition.thy ===== *)
theory Stl_Partition
  imports Stl_Rotate Stl_Search Stl_Scan
begin

text \<open>
  The algorithms of \<open>kernel/include/bits/stl_algo.h\<close> that sort out elements by a predicate: partitions, also stable
  ones, and the removal of elements and of repetitions. They return an iterator and change the range: a position and
  a list. Moving an element leaves it where it was, as for the types whose moves are copies.
\<close>

section \<open>Rotating forward\<close>

text \<open>The variant of \<open>rotate\<close> for forward iterators: elements are exchanged in lockstep, and whichever of the two
  iterators comes to the end of its part goes on where the other part is left.\<close>

function rotate_pass :: "nat \<Rightarrow> nat \<Rightarrow> nat \<Rightarrow> nat \<Rightarrow> 'a list \<Rightarrow> nat \<times> nat \<times> 'a list" where
  "rotate_pass first first2 middle stop xs =
     (let xs = swap_at first first2 xs;
          first = first + 1;
          first2 = first2 + 1;
          middle = (if first = middle then first2 else middle)
      in if first2 < stop then rotate_pass first first2 middle stop xs else (first, middle, xs))"
  by pat_completeness auto
termination by (relation "measure (\<lambda>(first, first2, middle, stop, xs). stop - first2)") auto

declare rotate_pass.simps [simp del]

function rotate_rest :: "nat \<Rightarrow> nat \<Rightarrow> nat \<Rightarrow> nat \<Rightarrow> 'a list \<Rightarrow> 'a list" where
  "rotate_rest first first2 middle stop xs =
     (if first < stop \<and> first2 < stop then
        let xs = swap_at first first2 xs;
            first = first + 1;
            first2 = first2 + 1
        in if first = middle then let middle = first2 in rotate_rest first first2 middle stop xs
           else if first2 = stop then let first2 = middle in rotate_rest first first2 middle stop xs
           else rotate_rest first first2 middle stop xs
      else xs)"
  by pat_completeness auto
termination by (relation "measure (\<lambda>(first, first2, middle, stop, xs). stop - first)") auto

declare rotate_rest.simps [simp del]

definition rotate_forward :: "nat \<Rightarrow> nat \<Rightarrow> nat \<Rightarrow> 'a list \<Rightarrow> nat \<times> 'a list" where
  "rotate_forward first middle stop xs =
     (if first = middle then (stop, xs)
      else if stop = middle then (first, xs)
      else
        let first2 = middle;
            (first, middle, xs) = rotate_pass first first2 middle stop xs;
            ret = first;
            first2 = middle
        in (ret, rotate_rest first first2 middle stop xs))"

definition rotate_tagged :: "iterator_tag \<Rightarrow> bool \<Rightarrow> nat \<Rightarrow> nat \<Rightarrow> nat \<Rightarrow> 'a list \<Rightarrow> nat \<times> 'a list" where
  "rotate_tagged tag pod first middle stop xs =
     (if tag = Random_access_iterator then rotate_random pod first middle stop xs
      else if tag = Bidirectional_iterator then rotate_bidirectional first middle stop xs
      else rotate_forward first middle stop xs)"

section \<open>Partitions\<close>

text \<open>Over the elements that are in place: \<open>Inl\<close> is the \<open>return\<close> at the end of the range.\<close>

function partition_skip :: "('a \<Rightarrow> bool) \<Rightarrow> nat \<Rightarrow> nat \<Rightarrow> 'a list \<Rightarrow> nat + nat" where
  "partition_skip p first stop xs =
     (if p (xs ! first) then
        let first = first + 1 in
        if stop \<le> first then Inl first else partition_skip p first stop xs
      else Inr first)"
  by pat_completeness auto
termination by (relation "measure (\<lambda>(p, first, stop, xs). stop - first)") auto

declare partition_skip.simps [simp del]

function partition_forward_loop :: "('a \<Rightarrow> bool) \<Rightarrow> nat \<Rightarrow> nat \<Rightarrow> nat \<Rightarrow> 'a list \<Rightarrow> nat \<times> 'a list" where
  "partition_forward_loop p first nxt stop xs =
     (let nxt = nxt + 1 in
      if nxt < stop then
        if p (xs ! nxt) then
          let xs = swap_at first nxt xs; first = first + 1 in partition_forward_loop p first nxt stop xs
        else partition_forward_loop p first nxt stop xs
      else (first, xs))"
  by pat_completeness auto
termination by (relation "measure (\<lambda>(p, first, nxt, stop, xs). stop - nxt)") auto

declare partition_forward_loop.simps [simp del]

definition partition_forward :: "('a \<Rightarrow> bool) \<Rightarrow> nat \<Rightarrow> nat \<Rightarrow> 'a list \<Rightarrow> nat \<times> 'a list" where
  "partition_forward p first stop xs =
     (if first = stop then (first, xs)
      else case partition_skip p first stop xs of
        Inl first \<Rightarrow> (first, xs)
      | Inr first \<Rightarrow> let nxt = first in partition_forward_loop p first nxt stop xs)"

text \<open>From both ends. The inner loops leave with the two iterators equal, which is a \<open>return\<close>, or on an element out of
  place.\<close>

function partition_up :: "('a \<Rightarrow> bool) \<Rightarrow> nat \<Rightarrow> nat \<Rightarrow> 'a list \<Rightarrow> nat" where
  "partition_up p first stop xs =
     (if stop \<le> first then first else if p (xs ! first) then partition_up p (first + 1) stop xs else first)"
  by pat_completeness auto
termination by (relation "measure (\<lambda>(p, first, stop, xs). stop - first)") auto

declare partition_up.simps [simp del]

fun partition_down :: "('a \<Rightarrow> bool) \<Rightarrow> nat \<Rightarrow> nat \<Rightarrow> 'a list \<Rightarrow> nat" where
  "partition_down p first 0 xs = 0"
| "partition_down p first (Suc stop) xs =
     (if first = Suc stop then Suc stop else if \<not> p (xs ! Suc stop) then partition_down p first stop xs else Suc stop)"

lemma partition_down_le: "partition_down p first stop xs \<le> stop"
  by (induction stop) auto

function partition_bidirectional :: "('a \<Rightarrow> bool) \<Rightarrow> nat \<Rightarrow> nat \<Rightarrow> 'a list \<Rightarrow> nat \<times> 'a list" where
  "partition_bidirectional p first stop xs =
     (let first = partition_up p first stop xs in
      if stop \<le> first then (first, xs)
      else
        let stop = stop - 1;
            stop = partition_down p first stop xs
        in if first = stop then (first, xs)
           else let xs = swap_at first stop xs; first = first + 1 in partition_bidirectional p first stop xs)"
  by pat_completeness auto
termination
proof (relation "measure (\<lambda>(p, first, stop, xs). stop)", goal_cases)
  case (2 p first stop xs x xa xb xc xd)
  then show ?case using partition_down_le [of p x xa xs] by auto
qed auto

declare partition_bidirectional.simps [simp del]

definition partition_range :: "iterator_tag \<Rightarrow> nat \<Rightarrow> nat \<Rightarrow> ('a \<Rightarrow> bool) \<Rightarrow> 'a list \<Rightarrow> nat \<times> 'a list" where
  "partition_range tag first stop p xs =
     (if tag = Bidirectional_iterator \<or> tag = Random_access_iterator then partition_bidirectional p first stop xs
      else partition_forward p first stop xs)"

section \<open>Stable partitions\<close>

text \<open>The loop with a buffer: \<open>buf\<close> holds what was moved there so far.\<close>

function buffer_loop :: "('a \<Rightarrow> bool) \<Rightarrow> nat \<Rightarrow> nat \<Rightarrow> nat \<Rightarrow> 'a list \<Rightarrow> 'a list \<Rightarrow> nat \<times> 'a list \<times> 'a list" where
  "buffer_loop p first stop result1 buf xs =
     (if first < stop then
        if p (xs ! first) then
          let xs = xs[result1 := xs ! first]; result1 = result1 + 1 in buffer_loop p (first + 1) stop result1 buf xs
        else
          let buf = buf @ [xs ! first] in buffer_loop p (first + 1) stop result1 buf xs
      else (result1, buf, xs))"
  by pat_completeness auto
termination by (relation "measure (\<lambda>(p, first, stop, result1, buf, xs). stop - first)") auto

declare buffer_loop.simps [simp del]

text \<open>Moving the buffer back.\<close>

fun move_in :: "'a list \<Rightarrow> nat \<Rightarrow> 'a list \<Rightarrow> 'a list" where
  "move_in [] result xs = xs"
| "move_in (b # buf) result xs = move_in buf (result + 1) (xs[result := b])"

lemma find_if_not_n_len: "snd (find_if_not_n pr first len) \<le> len"
proof (induction len arbitrary: first)
  case (Suc len)
  then show ?case using Suc.IH [of "first + 1"] by (auto intro: le_SucI)
qed simp

function stable_partition_adaptive ::
    "iterator_tag \<Rightarrow> bool \<Rightarrow> ('a \<Rightarrow> bool) \<Rightarrow> nat \<Rightarrow> nat \<Rightarrow> nat \<Rightarrow> nat \<Rightarrow> 'a list \<Rightarrow> nat \<times> 'a list" where
  "stable_partition_adaptive tag pod p first stop len buffer_size xs =
     (if len = 1 then (first, xs)
      else if len \<le> buffer_size then
        let result1 = first;
            buf = [xs ! first];
            (result1, buf, xs) = buffer_loop p (first + 1) stop result1 buf xs
        in (result1, move_in buf result1 xs)
      else
        let middle = first + len div 2;
            (left_split, xs) = stable_partition_adaptive tag pod p first middle (len div 2) buffer_size xs;
            right_len = len - len div 2;
            (right_split, right_len) = find_if_not_n (iter_pred p xs) middle right_len;
            (right_split, xs) =
              (if right_len \<noteq> 0 then stable_partition_adaptive tag pod p right_split stop right_len buffer_size xs
               else (right_split, xs))
        in rotate_tagged tag pod left_split middle right_split xs)"
  by pat_completeness auto
termination
proof (relation "measure (\<lambda>(tag, pod, p, first, stop, len, buffer_size, xs). len)", goal_cases)
  case (3 tag pod p first stop len buffer_size xs x xa xb y xc xd xe ya)
  then have "ya \<le> xc" using find_if_not_n_len [of "iter_pred p y" x xc] by (metis snd_conv)
  moreover have "xc < len" using 3 by simp
  ultimately show ?case by simp
qed auto

declare stable_partition_adaptive.simps [simp del]

text \<open>The size of the buffer that was got is a parameter: it may be smaller than what was asked for, or 0.\<close>

definition stable_partition :: "iterator_tag \<Rightarrow> bool \<Rightarrow> nat \<Rightarrow> nat \<Rightarrow> nat \<Rightarrow> ('a \<Rightarrow> bool) \<Rightarrow> 'a list \<Rightarrow> nat \<times> 'a list" where
  "stable_partition tag pod buffer_size first stop p xs =
     (let first = find_if_not tag (iter_pred p xs) first stop in
      if first = stop then (first, xs)
      else stable_partition_adaptive tag pod p first stop (stop - first) buffer_size xs)"

section \<open>Removing\<close>

function remove_loop :: "('a \<Rightarrow> bool) \<Rightarrow> nat \<Rightarrow> nat \<Rightarrow> nat \<Rightarrow> 'a list \<Rightarrow> nat \<times> 'a list" where
  "remove_loop p result first stop xs =
     (if first < stop then
        if \<not> p (xs ! first) then
          let xs = xs[result := xs ! first]; result = result + 1 in remove_loop p result (first + 1) stop xs
        else remove_loop p result (first + 1) stop xs
      else (result, xs))"
  by pat_completeness auto
termination by (relation "measure (\<lambda>(p, result, first, stop, xs). stop - first)") auto

declare remove_loop.simps [simp del]

definition remove_with :: "iterator_tag \<Rightarrow> ('a \<Rightarrow> bool) \<Rightarrow> nat \<Rightarrow> nat \<Rightarrow> 'a list \<Rightarrow> nat \<times> 'a list" where
  "remove_with tag p first stop xs =
     (let first = find_if tag (iter_pred p xs) first stop in
      if first = stop then (first, xs)
      else let result = first in remove_loop p result (first + 1) stop xs)"

definition remove_value :: "iterator_tag \<Rightarrow> nat \<Rightarrow> nat \<Rightarrow> 'a \<Rightarrow> 'a list \<Rightarrow> nat \<times> 'a list" where
  "remove_value tag first stop v xs = remove_with tag (\<lambda>x. x = v) first stop xs"

definition remove_if :: "iterator_tag \<Rightarrow> nat \<Rightarrow> nat \<Rightarrow> ('a \<Rightarrow> bool) \<Rightarrow> 'a list \<Rightarrow> nat \<times> 'a list" where
  "remove_if tag first stop p xs = remove_with tag p first stop xs"

function unique_loop :: "('a \<Rightarrow> 'a \<Rightarrow> bool) \<Rightarrow> nat \<Rightarrow> nat \<Rightarrow> nat \<Rightarrow> 'a list \<Rightarrow> nat \<times> 'a list" where
  "unique_loop p dest first stop xs =
     (let first = first + 1 in
      if first < stop then
        if \<not> iter_comp_iter p xs dest first then
          let dest = dest + 1; xs = xs[dest := xs ! first] in unique_loop p dest first stop xs
        else unique_loop p dest first stop xs
      else (dest + 1, xs))"
  by pat_completeness auto
termination by (relation "measure (\<lambda>(p, dest, first, stop, xs). stop - first)") auto

declare unique_loop.simps [simp del]

definition unique_with :: "('a \<Rightarrow> 'a \<Rightarrow> bool) \<Rightarrow> nat \<Rightarrow> nat \<Rightarrow> 'a list \<Rightarrow> nat \<times> 'a list" where
  "unique_with p first stop xs =
     (let first = adjacent_find_with (iter_comp_iter p xs) first stop in
      if first = stop then (stop, xs)
      else let dest = first; first = first + 1 in unique_loop p dest first stop xs)"

definition unique :: "nat \<Rightarrow> nat \<Rightarrow> 'a list \<Rightarrow> nat \<times> 'a list" where
  "unique first stop xs = unique_with (=) first stop xs"

definition unique_comp :: "('a \<Rightarrow> 'a \<Rightarrow> bool) \<Rightarrow> nat \<Rightarrow> nat \<Rightarrow> 'a list \<Rightarrow> nat \<times> 'a list" where
  "unique_comp p first stop xs = unique_with p first stop xs"

section \<open>The partition point\<close>

function partition_point_loop :: "('a \<Rightarrow> bool) \<Rightarrow> nat \<Rightarrow> nat \<Rightarrow> 'a list \<Rightarrow> nat" where
  "partition_point_loop p first len xs =
     (if 0 < len then
        let half = len div 2;
            middle = first + half
        in if p (xs ! middle) then partition_point_loop p (middle + 1) (len - half - 1) xs
           else partition_point_loop p first half xs
      else first)"
  by pat_completeness auto
termination by (relation "measure (\<lambda>(p, first, len, xs). len)") auto

declare partition_point_loop.simps [simp del]

definition partition_point :: "nat \<Rightarrow> nat \<Rightarrow> ('a \<Rightarrow> bool) \<Rightarrow> 'a list \<Rightarrow> nat" where
  "partition_point first stop p xs = partition_point_loop p first (stop - first) xs"

section \<open>The copying variants\<close>

text \<open>They walk over the input and write what they keep to the output, here lists.\<close>

fun remove_copy_with :: "('a \<Rightarrow> bool) \<Rightarrow> 'a list \<Rightarrow> 'a list" where
  "remove_copy_with p [] = []"
| "remove_copy_with p (x # xs) = (if \<not> p x then x # remove_copy_with p xs else remove_copy_with p xs)"

definition remove_copy :: "'a \<Rightarrow> 'a list \<Rightarrow> 'a list" where
  "remove_copy v xs = remove_copy_with (\<lambda>x. x = v) xs"

definition remove_copy_if :: "('a \<Rightarrow> bool) \<Rightarrow> 'a list \<Rightarrow> 'a list" where
  "remove_copy_if p xs = remove_copy_with p xs"

fun copy_if :: "('a \<Rightarrow> bool) \<Rightarrow> 'a list \<Rightarrow> 'a list" where
  "copy_if p [] = []"
| "copy_if p (x # xs) = (if p x then x # copy_if p xs else copy_if p xs)"

fun partition_copy :: "('a \<Rightarrow> bool) \<Rightarrow> 'a list \<Rightarrow> 'a list \<times> 'a list" where
  "partition_copy p [] = ([], [])"
| "partition_copy p (x # xs) =
     (let (ts, fs) = partition_copy p xs in if p x then (x # ts, fs) else (ts, x # fs))"

text \<open>What is compared is the element kept last with the next one. For an output iterator that cannot be read, with a
  copy of the value kept and in the other order.\<close>

fun unique_copy_loop :: "('a \<Rightarrow> 'a \<Rightarrow> bool) \<Rightarrow> 'a \<Rightarrow> 'a list \<Rightarrow> 'a list" where
  "unique_copy_loop p kept [] = []"
| "unique_copy_loop p kept (x # xs) = (if \<not> p kept x then x # unique_copy_loop p x xs else unique_copy_loop p kept xs)"

fun unique_copy_value_loop :: "('a \<Rightarrow> 'a \<Rightarrow> bool) \<Rightarrow> 'a \<Rightarrow> 'a list \<Rightarrow> 'a list" where
  "unique_copy_value_loop p v [] = []"
| "unique_copy_value_loop p v (x # xs) = (if \<not> p x v then x # unique_copy_value_loop p x xs else unique_copy_value_loop p v xs)"

definition unique_copy_with :: "iterator_tag \<Rightarrow> bool \<Rightarrow> ('a \<Rightarrow> 'a \<Rightarrow> bool) \<Rightarrow> 'a list \<Rightarrow> 'a list" where
  "unique_copy_with tag forward_result p xs =
     (case xs of
        [] \<Rightarrow> []
      | x # xs \<Rightarrow>
          if tag = Input_iterator \<and> \<not> forward_result then x # unique_copy_value_loop p x xs else x # unique_copy_loop p x xs)"

definition unique_copy :: "iterator_tag \<Rightarrow> bool \<Rightarrow> 'a list \<Rightarrow> 'a list" where
  "unique_copy tag forward_result xs = unique_copy_with tag forward_result (=) xs"

definition unique_copy_comp :: "iterator_tag \<Rightarrow> bool \<Rightarrow> ('a \<Rightarrow> 'a \<Rightarrow> bool) \<Rightarrow> 'a list \<Rightarrow> 'a list" where
  "unique_copy_comp tag forward_result p xs = unique_copy_with tag forward_result p xs"

section \<open>What rotating forward does\<close>

text \<open>With the range in parts: \<open>as\<close> and \<open>bs\<close> up to the second iterator, \<open>cs\<close> behind it.\<close>

lemma rotate_pass_parts:
  assumes "as \<noteq> []" "cs \<noteq> []"
  shows "\<exists>as' bs'. as' \<noteq> [] \<and> bs' @ as' = bs @ as \<and>
    rotate_pass (length ps) (length (ps @ as @ bs)) (length (ps @ as)) (length (ps @ as @ bs @ cs)) (ps @ as @ bs @ cs @ ss) =
      (length (ps @ cs), length (ps @ cs @ as'), ps @ cs @ as' @ bs' @ ss)"
  using assms
proof (induction cs arbitrary: ps as bs)
  case (Cons c cs)
  obtain a as' where as: "as = a # as'" using Cons.prems(1) by (cases as) auto
  have swap: "swap_at (length ps) (length (ps @ as @ bs)) (ps @ as @ bs @ (c # cs) @ ss) = (ps @ [c]) @ (as' @ bs @ [a]) @ cs @ ss"
    using swap_at_parts [of ps "as' @ bs" a c "cs @ ss"] by (simp add: as)
  define as2 bs2 where "as2 = (if as' = [] then bs @ [a] else as')" and "bs2 = (if as' = [] then [] else bs @ [a])"
  have new: "as2 \<noteq> []" "bs2 @ as2 = bs @ as" "as' @ bs @ [a] = as2 @ bs2"
    by (auto simp: as2_def bs2_def as)
  have step: "rotate_pass (length ps) (length (ps @ as @ bs)) (length (ps @ as)) (length (ps @ as @ bs @ c # cs))
      (ps @ as @ bs @ (c # cs) @ ss) =
    (if cs = [] then (length (ps @ [c]), length (ps @ [c] @ as2), (ps @ [c]) @ as2 @ bs2 @ cs @ ss)
     else rotate_pass (length (ps @ [c])) (length ((ps @ [c]) @ as2 @ bs2)) (length ((ps @ [c]) @ as2))
       (length ((ps @ [c]) @ as2 @ bs2 @ cs)) ((ps @ [c]) @ as2 @ bs2 @ cs @ ss))"
  proof -
    have "length (ps @ as @ bs) + 1 = length ((ps @ [c]) @ as2 @ bs2)" "length ps + 1 = length (ps @ [c])"
      "(if length ps + 1 = length (ps @ as) then length (ps @ as @ bs) + 1 else length (ps @ as)) = length ((ps @ [c]) @ as2)"
      "length (ps @ as @ bs @ c # cs) = length ((ps @ [c]) @ as2 @ bs2 @ cs)"
      "swap_at (length ps) (length (ps @ as @ bs)) (ps @ as @ bs @ (c # cs) @ ss) = (ps @ [c]) @ as2 @ bs2 @ cs @ ss"
      "length ((ps @ [c]) @ as2 @ bs2) < length ((ps @ [c]) @ as2 @ bs2 @ cs) \<longleftrightarrow> cs \<noteq> []"
      using swap new(3) by (auto simp: as2_def bs2_def as)
    then show ?thesis by (subst rotate_pass.simps) (simp only: Let_def if_not_P if_P split: if_split, simp)
  qed
  show ?case
  proof (cases "cs = []")
    case True
    then show ?thesis using step new(1,2) by (intro exI [of _ as2] exI [of _ bs2]) simp
  next
    case False
    from Cons.IH [OF new(1) False, of bs2 "ps @ [c]"] obtain as3 bs3 where "as3 \<noteq> []" "bs3 @ as3 = bs2 @ as2"
      "rotate_pass (length (ps @ [c])) (length ((ps @ [c]) @ as2 @ bs2)) (length ((ps @ [c]) @ as2))
         (length ((ps @ [c]) @ as2 @ bs2 @ cs)) ((ps @ [c]) @ as2 @ bs2 @ cs @ ss) =
       (length ((ps @ [c]) @ cs), length ((ps @ [c]) @ cs @ as3), (ps @ [c]) @ cs @ as3 @ bs3 @ ss)"
      by blast
    then show ?thesis using step False new(2) by (intro exI [of _ as3] exI [of _ bs3]) simp
  qed
qed simp

lemma rotate_rest_parts:
  "as \<noteq> [] \<Longrightarrow> (cs = [] \<longrightarrow> bs = []) \<Longrightarrow>
   rotate_rest (length ps) (length (ps @ as @ bs)) (length (ps @ as)) (length (ps @ as @ bs @ cs)) (ps @ as @ bs @ cs @ ss) =
     ps @ cs @ bs @ as @ ss"
proof (induction "length (as @ bs @ cs)" arbitrary: ps as bs cs rule: less_induct)
  case less
  show ?case
  proof (cases cs)
    case Nil
    then show ?thesis using less.prems by (subst rotate_rest.simps) simp
  next
    case (Cons c cs')
    obtain a as' where as: "as = a # as'" using less.prems(1) by (cases as) auto
    have swap: "swap_at (length ps) (length (ps @ as @ bs)) (ps @ as @ bs @ cs @ ss) = (ps @ [c]) @ (as' @ bs @ [a]) @ cs' @ ss"
      using swap_at_parts [of ps "as' @ bs" a c "cs' @ ss"] by (simp add: as Cons)
    define as2 bs2 cs2 where "as2 = (if as' = [] then bs @ [a] else as')"
      and "bs2 = (if as' = [] \<or> cs' = [] then [] else bs @ [a])"
      and "cs2 = (if as' \<noteq> [] \<and> cs' = [] then bs @ [a] else cs')"
    have new: "as2 \<noteq> []" "cs2 = [] \<longrightarrow> bs2 = []" "as' @ bs @ [a] @ cs' = as2 @ bs2 @ cs2" "c # cs2 @ bs2 @ as2 = cs @ bs @ as"
      by (auto simp: as2_def bs2_def cs2_def as Cons)
    have step: "rotate_rest (length ps) (length (ps @ as @ bs)) (length (ps @ as)) (length (ps @ as @ bs @ cs)) (ps @ as @ bs @ cs @ ss) =
      rotate_rest (length (ps @ [c])) (length ((ps @ [c]) @ as2 @ bs2)) (length ((ps @ [c]) @ as2))
        (length ((ps @ [c]) @ as2 @ bs2 @ cs2)) ((ps @ [c]) @ as2 @ bs2 @ cs2 @ ss)"
    proof -
      have xs: "swap_at (length ps) (length (ps @ as @ bs)) (ps @ as @ bs @ cs @ ss) = (ps @ [c]) @ as2 @ bs2 @ cs2 @ ss"
        using swap new(3) by (metis append.assoc)
      show ?thesis
        by (subst rotate_rest.simps) (simp add: xs [simplified] Let_def, simp add: as2_def bs2_def cs2_def as Cons)
    qed
    have "length (as2 @ bs2 @ cs2) < length (as @ bs @ cs)" using new(3) [symmetric] by (simp add: as Cons)
    from less.hyps [OF this new(1,2), of "ps @ [c]"] show ?thesis using step new(4) by simp
  qed
qed

lemma rotate_forward_ok:
  assumes "first \<le> middle" "middle \<le> stop" "stop \<le> length xs"
  shows "rotate_forward first middle stop xs = (first + (stop - middle), rotated first middle stop xs)"
proof (cases "first = middle \<or> stop = middle")
  case True
  then show ?thesis
    using assms range_split [of first stop xs] by (auto simp: rotate_forward_def rotated_def range_of_def)
next
  case False
  define ps as cs ss where "ps = take first xs" and "as = range_of first middle xs" and "cs = range_of middle stop xs"
    and "ss = drop stop xs"
  have ne: "as \<noteq> []" "cs \<noteq> []" using False assms by (simp_all add: as_def cs_def range_of_def)
  have xs: "xs = ps @ as @ cs @ ss"
    using range_split [of first middle xs] range_split [of middle stop xs] assms
    unfolding ps_def as_def cs_def ss_def by (metis append.assoc append_same_eq append_take_drop_id)
  have len: "first = length ps" "middle = length (ps @ as)" "stop = length (ps @ as @ cs)"
    using assms by (simp_all add: ps_def as_def cs_def length_range_of)
  obtain as' bs' where pass: "as' \<noteq> []" "bs' @ as' = as"
    "rotate_pass first middle middle stop xs = (length (ps @ cs), length (ps @ cs @ as'), ps @ cs @ as' @ bs' @ ss)"
    using rotate_pass_parts [OF ne, of "[]" ps ss]
    by (simp only: append_Nil append_Nil2 len [symmetric] xs [symmetric]) blast
  have "stop = length (ps @ cs @ as' @ bs')" using len(3) pass(2) by auto
  then have "rotate_rest (length (ps @ cs)) (length (ps @ cs @ as')) (length (ps @ cs @ as')) stop (ps @ cs @ as' @ bs' @ ss) =
      ps @ cs @ bs' @ as' @ ss"
    using rotate_rest_parts [OF pass(1), of bs' "[]" "ps @ cs" ss] by simp
  moreover have "rotate_forward first middle stop xs =
      (length (ps @ cs), rotate_rest (length (ps @ cs)) (length (ps @ cs @ as')) (length (ps @ cs @ as')) stop (ps @ cs @ as' @ bs' @ ss))"
    using False by (simp add: rotate_forward_def pass(3))
  moreover have "rotated first middle stop xs = ps @ cs @ bs' @ as' @ ss"
    using pass(2) by (simp add: rotated_def ps_def as_def cs_def ss_def)
  moreover have "length (ps @ cs) = first + (stop - middle)" by (simp add: len)
  ultimately show ?thesis by simp
qed

lemma rotate_tagged_parts:
  "rotate_tagged tag pod (length ps) (length ps + length as) (length ps + length as + length bs) (ps @ as @ bs @ ss) =
   (length ps + length bs, ps @ bs @ as @ ss)"
  by (simp add: rotate_tagged_def rotate_random_ok rotate_bidirectional_ok rotate_forward_ok rotated_def range_of_def)

section \<open>What partitions do\<close>

definition splits :: "('a \<Rightarrow> bool) \<Rightarrow> nat \<Rightarrow> nat \<Rightarrow> 'a list \<Rightarrow> nat \<Rightarrow> 'a list \<Rightarrow> bool" where
  "splits p first stop xs r ys \<longleftrightarrow> permutes_range first stop xs ys \<and> split_point (\<lambda>i. p (ys ! i)) first stop r"

lemma partition_skip_ok:
  "first < stop \<Longrightarrow>
   (case partition_skip p first stop xs of
      Inl r \<Rightarrow> r = stop \<and> (\<forall>i. first \<le> i \<and> i < stop \<longrightarrow> p (xs ! i))
    | Inr r \<Rightarrow> first \<le> r \<and> r < stop \<and> \<not> p (xs ! r) \<and> (\<forall>i. first \<le> i \<and> i < r \<longrightarrow> p (xs ! i)))"
proof (induction "stop - first" arbitrary: first)
  case (Suc n)
  have from_next: "(\<forall>i. first \<le> i \<and> i < r \<longrightarrow> p (xs ! i)) \<longleftrightarrow> (\<forall>i. first + 1 \<le> i \<and> i < r \<longrightarrow> p (xs ! i))"
    if "p (xs ! first)" for r
  proof (intro iffI allI impI)
    fix i assume "\<forall>i. first + 1 \<le> i \<and> i < r \<longrightarrow> p (xs ! i)" "first \<le> i \<and> i < r"
    then show "p (xs ! i)" using that by (cases "i = first") auto
  qed auto
  consider "\<not> p (xs ! first)" | "p (xs ! first)" "first + 1 = stop" | "p (xs ! first)" "first + 1 < stop"
    using Suc.prems by linarith
  then show ?case
  proof cases
    case 1
    then show ?thesis using Suc.prems by (subst partition_skip.simps) auto
  next
    case 2
    then have "\<forall>i. first \<le> i \<and> i < stop \<longrightarrow> p (xs ! i)" by (auto simp: le_less_Suc_eq)
    then show ?thesis using 2 by (subst partition_skip.simps) auto
  next
    case 3
    then have "partition_skip p first stop xs = partition_skip p (first + 1) stop xs"
      by (subst partition_skip.simps) simp
    moreover have "n = stop - (first + 1)" using Suc.hyps(2) by simp
    ultimately show ?thesis
      using Suc.hyps(1) [of "first + 1"] 3(2) by (auto simp: from_next [OF 3(1)] split: sum.splits)
  qed
qed simp

lemma splits_trans: "permutes_range first stop xs ys \<Longrightarrow> splits p first stop ys r zs \<Longrightarrow> splits p first stop xs r zs"
  unfolding splits_def by (blast intro: permutes_range_trans)

lemma partition_forward_loop_ok:
  "start \<le> first \<Longrightarrow> first \<le> nxt \<Longrightarrow> nxt < stop \<Longrightarrow> stop \<le> length xs \<Longrightarrow>
   (\<forall>i. start \<le> i \<and> i < first \<longrightarrow> p (xs ! i)) \<Longrightarrow> (\<forall>i. first \<le> i \<and> i \<le> nxt \<longrightarrow> \<not> p (xs ! i)) \<Longrightarrow>
   partition_forward_loop p first nxt stop xs = (r, ys) \<Longrightarrow> splits p start stop xs r ys"
proof (induction "stop - nxt" arbitrary: first nxt xs)
  case (Suc n)
  show ?case
  proof (cases "nxt + 1 < stop")
    case False
    then have "r = first" "ys = xs"
      using Suc.prems(7) by (subst (asm) partition_forward_loop.simps, simp)+
    then show ?thesis using Suc.prems(1-3,5,6) False by (auto simp: splits_def split_point_def)
  next
    case lt: True
    show ?thesis
    proof (cases "p (xs ! (nxt + 1))")
      case False
      then have run: "partition_forward_loop p first (nxt + 1) stop xs = (r, ys)"
        using Suc.prems(7) lt by (subst (asm) partition_forward_loop.simps) (simp add: Let_def)
      show ?thesis
      proof (rule Suc.hyps(1) [OF _ _ _ lt _ _ _ run])
        show "\<forall>i. first \<le> i \<and> i \<le> nxt + 1 \<longrightarrow> \<not> p (xs ! i)" using Suc.prems(6) False by (auto simp: le_Suc_eq)
      qed (use Suc.hyps(2) Suc.prems in auto)
    next
      case True
      define zs where "zs = swap_at first (nxt + 1) xs"
      have zs: "zs ! i = (if i = first then xs ! (nxt + 1) else if i = nxt + 1 then xs ! first else xs ! i)" for i
        using Suc.prems(2,4) lt by (simp add: zs_def nth_swap_at)
      have run: "partition_forward_loop p (first + 1) (nxt + 1) stop zs = (r, ys)"
        using Suc.prems(7) lt True by (subst (asm) partition_forward_loop.simps) (simp add: Let_def zs_def)
      have "splits p start stop zs r ys"
      proof (rule Suc.hyps(1) [OF _ _ _ lt _ _ _ run])
        show "\<forall>i. start \<le> i \<and> i < first + 1 \<longrightarrow> p (zs ! i)" using Suc.prems(2,5) True by (auto simp: zs less_Suc_eq)
        show "\<forall>i. first + 1 \<le> i \<and> i \<le> nxt + 1 \<longrightarrow> \<not> p (zs ! i)" using Suc.prems(2,6) by (auto simp: zs le_Suc_eq)
      qed (use Suc.hyps(2) Suc.prems in \<open>auto simp: zs_def\<close>)
      moreover have "permutes_range start stop xs zs"
        unfolding zs_def using Suc.prems(1,2,4) lt by (intro permutes_swap_at) auto
      ultimately show ?thesis by (rule splits_trans [rotated])
    qed
  qed
qed simp

lemma partition_forward_ok:
  assumes "first \<le> stop" "stop \<le> length xs" "partition_forward p first stop xs = (r, ys)"
  shows "splits p first stop xs r ys"
proof (cases "first = stop")
  case True
  then show ?thesis using assms(3) by (simp add: partition_forward_def splits_def split_point_empty)
next
  case False
  then have skip: "case partition_skip p first stop xs of
      Inl r \<Rightarrow> r = stop \<and> (\<forall>i. first \<le> i \<and> i < stop \<longrightarrow> p (xs ! i))
    | Inr r \<Rightarrow> first \<le> r \<and> r < stop \<and> \<not> p (xs ! r) \<and> (\<forall>i. first \<le> i \<and> i < r \<longrightarrow> p (xs ! i))"
    using assms(1) by (intro partition_skip_ok) simp
  show ?thesis
  proof (cases "partition_skip p first stop xs")
    case (Inl m)
    then show ?thesis using skip assms(1,3) False by (auto simp: partition_forward_def splits_def split_point_def)
  next
    case (Inr m)
    then have m: "\<not> p (xs ! m)" using skip by simp
    from Inr have "partition_forward_loop p m m stop xs = (r, ys)" using assms(3) False by (simp add: partition_forward_def)
    moreover have "\<forall>i. m \<le> i \<and> i \<le> m \<longrightarrow> \<not> p (xs ! i)" using m by (metis le_antisym)
    ultimately show ?thesis
      using partition_forward_loop_ok [of first m m stop xs p r ys] assms(2) skip Inr by simp
  qed
qed

lemma partition_up_ok:
  "first \<le> stop \<Longrightarrow> first_at (\<lambda>i. \<not> p (xs ! i)) first stop (partition_up p first stop xs)"
proof (induction p first stop xs rule: partition_up.induct)
  case (1 p first stop xs)
  show ?case
  proof (cases "first < stop \<and> p (xs ! first)")
    case True
    then have "first_at (\<lambda>i. \<not> p (xs ! i)) (first + 1) stop (partition_up p (first + 1) stop xs)" using 1 by simp
    then have "first_at (\<lambda>i. \<not> p (xs ! i)) first stop (partition_up p (first + 1) stop xs)"
      by (rule first_at_later) (use True in \<open>auto simp: less_Suc_eq\<close>)
    then show ?thesis using True by (subst partition_up.simps) simp
  next
    case False
    then show ?thesis using 1(2) by (subst partition_up.simps) (auto simp: first_at_def)
  qed
qed

lemma partition_down_ok:
  "first \<le> e \<Longrightarrow> first \<le> partition_down p first e xs \<and>
   (\<forall>i. partition_down p first e xs < i \<and> i \<le> e \<longrightarrow> \<not> p (xs ! i)) \<and>
   (partition_down p first e xs = first \<or> p (xs ! partition_down p first e xs))"
proof (induction e)
  case (Suc n)
  then show ?case by (auto simp: le_Suc_eq)
qed auto

lemma partition_bidirectional_ok:
  "start \<le> first \<Longrightarrow> first \<le> stop \<Longrightarrow> stop \<le> limit \<Longrightarrow> limit \<le> length xs \<Longrightarrow>
   (\<forall>i. start \<le> i \<and> i < first \<longrightarrow> p (xs ! i)) \<Longrightarrow> (\<forall>i. stop \<le> i \<and> i < limit \<longrightarrow> \<not> p (xs ! i)) \<Longrightarrow>
   partition_bidirectional p first stop xs = (r, ys) \<Longrightarrow> splits p start limit xs r ys"
proof (induction stop arbitrary: first xs rule: less_induct)
  case (less stop)
  define a where "a = partition_up p first stop xs"
  have a: "first \<le> a" "a \<le> stop" "\<forall>i. first \<le> i \<and> i < a \<longrightarrow> p (xs ! i)" "a < stop \<longrightarrow> \<not> p (xs ! a)"
    using partition_up_ok [OF less.prems(2), of p xs] by (auto simp: a_def first_at_def)
  have low: "\<forall>i. start \<le> i \<and> i < a \<longrightarrow> p (xs ! i)" using a(3) less.prems(5) by (metis not_le_imp_less)
  define b where "b = partition_down p a (stop - 1) xs"
  have "partition_bidirectional p first stop xs =
      (if stop \<le> a then (a, xs) else if a = b then (a, xs) else partition_bidirectional p (a + 1) b (swap_at a b xs))"
    unfolding b_def a_def by (subst partition_bidirectional.simps) (simp only: Let_def)
  then have run: "(r, ys) = (if stop \<le> a then (a, xs) else if a = b then (a, xs) else partition_bidirectional p (a + 1) b (swap_at a b xs))"
    using less.prems(7) by simp
  show ?case
  proof (cases "a = stop")
    case True
    then have "r = a" "ys = xs" using run by simp_all
    then show ?thesis using True low less.prems(1-3,6) a(1) by (auto simp: splits_def split_point_def)
  next
    case False
    then have lt: "a < stop" using a(2) by simp
    have b: "a \<le> b" "\<forall>i. b < i \<and> i \<le> stop - 1 \<longrightarrow> \<not> p (xs ! i)" "b = a \<or> p (xs ! b)" "b \<le> stop - 1"
      using partition_down_ok [of a "stop - 1" p xs] partition_down_le [of p a "stop - 1" xs] lt by (auto simp: b_def)
    have high: "\<forall>i. b < i \<and> i < limit \<longrightarrow> \<not> p (xs ! i)"
    proof (intro allI impI)
      fix i assume "b < i \<and> i < limit"
      then show "\<not> p (xs ! i)" using b(2) less.prems(6) by (cases "stop \<le> i") auto
    qed
    show ?thesis
    proof (cases "a = b")
      case True
      then have "r = a" "ys = xs" using run by (simp_all split: if_splits)
      moreover have "\<forall>i. a \<le> i \<and> i < limit \<longrightarrow> \<not> p (xs ! i)" using high a(4) lt True by (auto simp: le_less)
      ultimately show ?thesis using low less.prems(1-3) a(1,2) by (auto simp: splits_def split_point_def)
    next
      case ab: False
      define zs where "zs = swap_at a b xs"
      have b_lt: "b < stop" "a < b" "p (xs ! b)" using b lt ab by auto
      have zs: "zs ! i = (if i = a then xs ! b else if i = b then xs ! a else xs ! i)" for i
        using b_lt less.prems(3,4) by (simp add: zs_def nth_swap_at)
      have run: "partition_bidirectional p (a + 1) b zs = (r, ys)"
        using run lt ab by (simp add: zs_def)
      have "splits p start limit zs r ys"
      proof (rule less.IH [OF b_lt(1) _ _ _ _ _ _ run])
        show "\<forall>i. start \<le> i \<and> i < a + 1 \<longrightarrow> p (zs ! i)" using low b_lt by (auto simp: zs less_Suc_eq)
        show "\<forall>i. b \<le> i \<and> i < limit \<longrightarrow> \<not> p (zs ! i)" using high a(4) lt b_lt by (auto simp: zs)
      qed (use a(1) b_lt less.prems(1,3,4) in \<open>auto simp: zs_def\<close>)
      moreover have "permutes_range start limit xs zs"
        unfolding zs_def using less.prems(1,3,4) a(1) b_lt by (intro permutes_swap_at) auto
      ultimately show ?thesis by (rule splits_trans [rotated])
    qed
  qed
qed

lemma partition_range_ok:
  assumes "first \<le> stop" "stop \<le> length xs" "partition_range tag first stop p xs = (r, ys)"
  shows "splits p first stop xs r ys"
proof -
  have "\<forall>i. first \<le> i \<and> i < first \<longrightarrow> p (xs ! i)" "\<forall>i. stop \<le> i \<and> i < stop \<longrightarrow> \<not> p (xs ! i)" by auto
  then show ?thesis
    using assms partition_forward_ok [OF assms(1,2), of p r ys]
      partition_bidirectional_ok [of first first stop stop xs p r ys]
    by (simp add: partition_range_def split: if_splits)
qed

section \<open>What stable partitions do\<close>

text \<open>The range with the elements of each kind in their order.\<close>

definition parted :: "('a \<Rightarrow> bool) \<Rightarrow> 'a list \<Rightarrow> 'a list" where
  "parted p xs = filter p xs @ filter (\<lambda>x. \<not> p x) xs"

lemma list_update_parts: "(ps @ a # ss)[length ps := b] = ps @ b # ss"
  by (simp add: list_update_append)

lemma nth_parts: "(ps @ a # ss) ! length ps = a"
  by (simp add: nth_append)

text \<open>Behind the elements that are done, \<open>js\<close> are the free places and \<open>us\<close> what is still to be looked at.\<close>

lemma buffer_loop_parts:
  "js \<noteq> [] \<Longrightarrow> \<exists>js'. length js' = length js + length (filter (\<lambda>x. \<not> p x) us) \<and>
   buffer_loop p (length (ts @ js)) (length (ts @ js @ us)) (length ts) buf (ts @ js @ us @ ss) =
     (length (ts @ filter p us), buf @ filter (\<lambda>x. \<not> p x) us, ts @ filter p us @ js' @ ss)"
proof (induction us arbitrary: ts js buf)
  case Nil
  then show ?case by (intro exI [of _ js]) (subst buffer_loop.simps, simp)
next
  case (Cons u us)
  obtain j js1 where js: "js = j # js1" using Cons.prems by (cases js) auto
  have u: "(ts @ js @ (u # us) @ ss) ! length (ts @ js) = u" using nth_parts [of "ts @ js" u "us @ ss"] by simp
  show ?case
  proof (cases "p u")
    case True
    have "(ts @ js @ (u # us) @ ss)[length ts := u] = (ts @ [u]) @ (js1 @ [u]) @ us @ ss"
      using list_update_parts [of ts j "js1 @ u # us @ ss" u] by (simp add: js)
    then have "buffer_loop p (length (ts @ js)) (length (ts @ js @ u # us)) (length ts) buf (ts @ js @ (u # us) @ ss) =
        buffer_loop p (length ((ts @ [u]) @ js1 @ [u])) (length ((ts @ [u]) @ (js1 @ [u]) @ us)) (length (ts @ [u])) buf
          ((ts @ [u]) @ (js1 @ [u]) @ us @ ss)"
      using u True by (subst buffer_loop.simps) (simp add: Let_def js)
    then show ?thesis using Cons.IH [of "js1 @ [u]" "ts @ [u]" buf] True by (auto simp: js)
  next
    case False
    then have "buffer_loop p (length (ts @ js)) (length (ts @ js @ u # us)) (length ts) buf (ts @ js @ (u # us) @ ss) =
        buffer_loop p (length (ts @ js @ [u])) (length (ts @ (js @ [u]) @ us)) (length ts) (buf @ [u]) (ts @ (js @ [u]) @ us @ ss)"
      using u by (subst buffer_loop.simps) (simp add: Let_def)
    then show ?thesis using Cons.IH [of "js @ [u]" ts "buf @ [u]"] False by auto
  qed
qed

lemma move_in_parts: "length buf = length js \<Longrightarrow> move_in buf (length ps) (ps @ js @ ss) = ps @ buf @ ss"
proof (induction buf arbitrary: js ps)
  case (Cons b buf)
  then obtain j js' where js: "js = j # js'" by (cases js) auto
  then show ?case using Cons.IH [of js' "ps @ [b]"] Cons.prems list_update_parts [of ps j "js' @ ss" b] by simp
qed simp

lemma find_if_not_n_parts:
  "find_if_not_n (iter_pred p (ps @ us @ ss)) (length ps) (length us) =
     (length (ps @ takeWhile p us), length (dropWhile p us))"
proof (induction us arbitrary: ps)
  case (Cons u us)
  then show ?case using Cons [of "ps @ [u]"] nth_parts [of ps u "us @ ss"] by (simp add: iter_ops)
qed simp

lemma adaptive_buffer:
  "len \<noteq> 1 \<Longrightarrow> len \<le> buffer_size \<Longrightarrow> buffer_loop p (first + 1) stop first [xs ! first] xs = (r, buf, ys) \<Longrightarrow>
   stable_partition_adaptive tag pod p first stop len buffer_size xs = (r, move_in buf r ys)"
  by (subst stable_partition_adaptive.simps) simp

lemma adaptive_halves:
  assumes "len \<noteq> 1" "\<not> len \<le> buffer_size"
    "stable_partition_adaptive tag pod p first (first + len div 2) (len div 2) buffer_size xs = (l, ys)"
    "find_if_not_n (iter_pred p ys) (first + len div 2) (len - len div 2) = (m, n)"
    "(if n \<noteq> 0 then stable_partition_adaptive tag pod p m stop n buffer_size ys else (m, ys)) = (r, zs)"
  shows "stable_partition_adaptive tag pod p first stop len buffer_size xs = rotate_tagged tag pod l (first + len div 2) r zs"
  by (subst stable_partition_adaptive.simps) (simp only: Let_def assms if_False prod.case)

lemma stable_partition_adaptive_parts:
  "rs \<noteq> [] \<Longrightarrow> \<not> p (hd rs) \<Longrightarrow>
   stable_partition_adaptive tag pod p (length ps) (length (ps @ rs)) (length rs) buffer_size (ps @ rs @ ss) =
     (length (ps @ filter p rs), ps @ parted p rs @ ss)"
proof (induction "length rs" arbitrary: ps rs ss rule: less_induct)
  case less
  obtain x rs1 where rs: "rs = x # rs1" using less.prems(1) by (cases rs) auto
  then have x: "\<not> p x" using less.prems(2) by simp
  consider (one) "length rs = 1" | (buffer) "length rs \<noteq> 1" "length rs \<le> buffer_size" | (halves) "length rs \<noteq> 1" "\<not> length rs \<le> buffer_size"
    by blast
  then show ?case
  proof cases
    case one
    then show ?thesis using x by (subst stable_partition_adaptive.simps) (simp add: rs parted_def)
  next
    case buffer
    obtain js where js: "length js = 1 + length (filter (\<lambda>x. \<not> p x) rs1)"
      "buffer_loop p (length (ps @ [x])) (length (ps @ [x] @ rs1)) (length ps) [x] (ps @ [x] @ rs1 @ ss) =
        (length (ps @ filter p rs1), [x] @ filter (\<lambda>x. \<not> p x) rs1, ps @ filter p rs1 @ js @ ss)"
      using buffer_loop_parts [of "[x]" p rs1 ps "[x]" ss] by auto
    then have "move_in ([x] @ filter (\<lambda>x. \<not> p x) rs1) (length (ps @ filter p rs1)) (ps @ filter p rs1 @ js @ ss) =
        (ps @ filter p rs1) @ ([x] @ filter (\<lambda>x. \<not> p x) rs1) @ ss"
      using move_in_parts [of "[x] @ filter (\<lambda>x. \<not> p x) rs1" js "ps @ filter p rs1" ss] by simp
    moreover have "stable_partition_adaptive tag pod p (length ps) (length (ps @ rs)) (length rs) buffer_size (ps @ rs @ ss) =
        (length (ps @ filter p rs1), move_in ([x] @ filter (\<lambda>x. \<not> p x) rs1) (length (ps @ filter p rs1)) (ps @ filter p rs1 @ js @ ss))"
    proof (rule adaptive_buffer [OF buffer])
      have e: "length ps + 1 = length (ps @ [x])" "length (ps @ rs) = length (ps @ [x] @ rs1)" "ps @ rs @ ss = ps @ [x] @ rs1 @ ss"
        "(ps @ [x] @ rs1 @ ss) ! length ps = x"
        using nth_parts [of ps x "rs1 @ ss"] by (simp_all add: rs)
      show "buffer_loop p (length ps + 1) (length (ps @ rs)) (length ps) [(ps @ rs @ ss) ! length ps] (ps @ rs @ ss) =
          (length (ps @ filter p rs1), [x] @ filter (\<lambda>x. \<not> p x) rs1, ps @ filter p rs1 @ js @ ss)"
        by (simp only: e js(2))
    qed
    ultimately show ?thesis using x by (simp add: rs parted_def)
  next
    case halves
    define n where "n = length rs div 2"
    define as bs where "as = take n rs" and "bs = drop n rs"
    have n: "0 < n" "n < length rs" using halves less.prems(1) by (auto simp: n_def rs)
    have rs_parts: "rs = as @ bs" "length as = n" "length bs = length rs - n" using n by (simp_all add: as_def bs_def)
    have as: "as \<noteq> []" "\<not> p (hd as)" using n less.prems by (simp_all add: as_def hd_take)
    have left: "stable_partition_adaptive tag pod p (length ps) (length (ps @ as)) n buffer_size (ps @ rs @ ss) =
        (length (ps @ filter p as), ps @ parted p as @ bs @ ss)"
    proof -
      have "length as < length rs" using n(2) rs_parts(2) by simp
      from less.hyps [OF this as, of ps "bs @ ss"] show ?thesis by (simp add: rs_parts(1,2))
    qed
    define skip rest where "skip = takeWhile p bs" and "rest = dropWhile p bs"
    have bs: "bs = skip @ rest" by (simp add: skip_def rest_def)
    have skip: "filter p skip = skip" "filter (\<lambda>x. \<not> p x) skip = []"
      by (auto simp: skip_def filter_id_conv filter_empty_conv dest: set_takeWhileD)
    have len: "length (parted p as) = n" using rs_parts(2) by (simp add: parted_def sum_length_filter_compl)
    have scan: "find_if_not_n (iter_pred p (ps @ parted p as @ bs @ ss)) (length ps + n) (length rs - n) =
        (length (ps @ parted p as @ skip), length rest)"
      using find_if_not_n_parts [of p "ps @ parted p as" bs ss] len rs_parts(3) by (simp add: skip_def rest_def)
    have right: "(if length rest \<noteq> 0
        then stable_partition_adaptive tag pod p (length (ps @ parted p as @ skip)) (length (ps @ rs)) (length rest) buffer_size
          (ps @ parted p as @ bs @ ss)
        else (length (ps @ parted p as @ skip), ps @ parted p as @ bs @ ss)) =
      (length (ps @ parted p as @ skip @ filter p rest), ps @ parted p as @ skip @ parted p rest @ ss)"
    proof (cases "rest = []")
      case True
      then show ?thesis by (simp add: bs parted_def)
    next
      case False
      then have "\<not> p (hd rest)" by (simp add: rest_def hd_dropWhile)
      moreover have "length rest < length rs" using n rs_parts(3) by (simp add: bs)
      moreover have "length (ps @ rs) = length ((ps @ parted p as @ skip) @ rest)" using len n rs_parts(3) by (simp add: bs)
      ultimately show ?thesis
        using less.hyps [of rest "ps @ parted p as @ skip" ss] False by (simp add: bs)
    qed
    have rotate: "rotate_tagged tag pod (length (ps @ filter p as)) (length ps + n) (length (ps @ parted p as @ skip @ filter p rest))
        (ps @ parted p as @ skip @ parted p rest @ ss) =
      (length (ps @ filter p rs), ps @ parted p rs @ ss)"
    proof -
      let ?as = "filter (\<lambda>x. \<not> p x) as"
      have "length ps + n = length (ps @ filter p as) + length ?as" using len by (simp add: parted_def)
      moreover have "length (ps @ parted p as @ skip @ filter p rest) =
          length (ps @ filter p as) + length ?as + length (skip @ filter p rest)" by (simp add: parted_def)
      ultimately show ?thesis
        using rotate_tagged_parts [of tag pod "ps @ filter p as" ?as "skip @ filter p rest" "filter (\<lambda>x. \<not> p x) rest @ ss"] skip
        by (simp add: parted_def rs_parts(1) bs add.assoc)
    qed
    have "stable_partition_adaptive tag pod p (length ps) (length (ps @ rs)) (length rs) buffer_size (ps @ rs @ ss) =
        rotate_tagged tag pod (length (ps @ filter p as)) (length ps + length rs div 2)
          (length (ps @ parted p as @ skip @ filter p rest)) (ps @ parted p as @ skip @ parted p rest @ ss)"
      by (rule adaptive_halves [OF halves _ _ right]) (use left scan in \<open>simp_all add: n_def [symmetric] rs_parts(2)\<close>)
    then show ?thesis using rotate by (simp add: n_def)
  qed
qed

text \<open>With the range in the middle of a list.\<close>

lemma range_parts_ex:
  assumes "first \<le> stop" "stop \<le> length xs"
  obtains ps rs ss where "xs = ps @ rs @ ss" "first = length ps" "stop = length ps + length rs"
    "rs = range_of first stop xs" "ps = take first xs" "ss = drop stop xs"
  using range_split [OF assms(1), of xs] assms by (metis length_range_of length_take min.absorb2 le_trans le_add_diff_inverse)

lemma stable_partition_ok:
  assumes "first \<le> stop" "stop \<le> length xs"
  shows "stable_partition tag pod buffer_size first stop p xs =
    (first + length (filter p (range_of first stop xs)), take first xs @ parted p (range_of first stop xs) @ drop stop xs)"
proof -
  obtain ps rs ss where parts: "xs = ps @ rs @ ss" "first = length ps" "stop = length ps + length rs"
    "rs = range_of first stop xs" "ps = take first xs" "ss = drop stop xs" by (rule range_parts_ex [OF assms])
  define f where "f = find_if_not tag (iter_pred p xs) first stop"
  have f: "first_at (\<lambda>i. \<not> p (xs ! i)) first stop f"
    using find_if_first [OF assms(1), of "\<lambda>i. \<not> iter_pred p xs i" tag] by (simp add: f_def find_if_not_def iter_ops)
  define as bs where "as = range_of first f xs" and "bs = range_of f stop xs"
  have fb: "first \<le> f" "f \<le> stop" using f by (simp_all add: first_at_def)
  have "\<forall>x \<in> set as. p x" using f fb assms(2) by (auto simp: as_def set_range_of first_at_def)
  then have skip: "filter p as = as" "filter (\<lambda>x. \<not> p x) as = []" by (auto simp: filter_id_conv filter_empty_conv)
  have rs: "rs = as @ bs" unfolding parts(4) as_def bs_def by (rule range_of_append [OF fb])
  have len: "length as = f - first" "length bs = stop - f" using fb assms by (simp_all add: as_def bs_def length_range_of)
  have run: "stable_partition tag pod buffer_size first stop p xs =
      (if f = stop then (f, xs) else stable_partition_adaptive tag pod p f stop (stop - f) buffer_size xs)"
    by (simp add: stable_partition_def f_def Let_def)
  have "stable_partition tag pod buffer_size first stop p xs = (length (ps @ filter p rs), ps @ parted p rs @ ss)"
  proof (cases "bs = []")
    case True
    then have "f = stop" using len fb by simp
    then show ?thesis using True skip len(1) fb run by (simp add: rs parted_def parts(1,2))
  next
    case False
    then have lt: "f < stop" using len(2) fb(2) by (metis length_0_conv diff_is_0_eq not_le)
    then have "\<not> p (hd bs)" using f assms(2) False by (simp add: hd_conv_nth bs_def nth_range_of first_at_def)
    then have "stable_partition_adaptive tag pod p (length (ps @ as)) (length ((ps @ as) @ bs)) (length bs) buffer_size
        ((ps @ as) @ bs @ ss) = (length ((ps @ as) @ filter p bs), (ps @ as) @ parted p bs @ ss)"
      by (rule stable_partition_adaptive_parts [OF False])
    moreover have "length (ps @ as) = f" "length ((ps @ as) @ bs) = stop" "(ps @ as) @ bs @ ss = xs"
      using len fb parts(2) by (simp_all add: parts(1) rs)
    ultimately have "stable_partition_adaptive tag pod p f stop (stop - f) buffer_size xs =
        (length ((ps @ as) @ filter p bs), (ps @ as) @ parted p bs @ ss)"
      using len(2) by (simp only:)
    moreover have "(ps @ as) @ parted p bs @ ss = ps @ parted p rs @ ss" "length ((ps @ as) @ filter p bs) = length (ps @ filter p rs)"
      unfolding rs parted_def by (simp_all add: skip)
    ultimately show ?thesis unfolding run using lt by (simp only: less_irrefl if_False split: if_split) simp
  qed
  then show ?thesis unfolding parts(4) [symmetric] parts(5) [symmetric] parts(6) [symmetric] using parts(2) by simp
qed

section \<open>What removing does\<close>

lemma remove_loop_parts:
  "js \<noteq> [] \<Longrightarrow> \<exists>js'. length js' = length js + length (filter p us) \<and>
   remove_loop p (length ts) (length (ts @ js)) (length (ts @ js @ us)) (ts @ js @ us @ ss) =
     (length (ts @ filter (\<lambda>x. \<not> p x) us), ts @ filter (\<lambda>x. \<not> p x) us @ js' @ ss)"
proof (induction us arbitrary: ts js)
  case Nil
  then show ?case by (intro exI [of _ js]) (subst remove_loop.simps, simp)
next
  case (Cons u us)
  obtain j js1 where js: "js = j # js1" using Cons.prems by (cases js) auto
  have u: "(ts @ js @ (u # us) @ ss) ! length (ts @ js) = u" using nth_parts [of "ts @ js" u "us @ ss"] by simp
  show ?case
  proof (cases "p u")
    case False
    have "(ts @ js @ (u # us) @ ss)[length ts := u] = (ts @ [u]) @ (js1 @ [u]) @ us @ ss"
      using list_update_parts [of ts j "js1 @ u # us @ ss" u] by (simp add: js)
    then have "remove_loop p (length ts) (length (ts @ js)) (length (ts @ js @ u # us)) (ts @ js @ (u # us) @ ss) =
        remove_loop p (length (ts @ [u])) (length ((ts @ [u]) @ js1 @ [u])) (length ((ts @ [u]) @ (js1 @ [u]) @ us))
          ((ts @ [u]) @ (js1 @ [u]) @ us @ ss)"
      using u False by (subst remove_loop.simps) (simp add: Let_def js)
    then show ?thesis using Cons.IH [of "js1 @ [u]" "ts @ [u]"] False by (auto simp: js)
  next
    case True
    then have "remove_loop p (length ts) (length (ts @ js)) (length (ts @ js @ u # us)) (ts @ js @ (u # us) @ ss) =
        remove_loop p (length ts) (length (ts @ js @ [u])) (length (ts @ (js @ [u]) @ us)) (ts @ (js @ [u]) @ us @ ss)"
      using u by (subst remove_loop.simps) simp
    then show ?thesis using Cons.IH [of "js @ [u]" ts] True by auto
  qed
qed

text \<open>The range begins with what is left and the rest of the list stays; of the range behind only the length is known.\<close>

definition keeps :: "nat \<Rightarrow> nat \<Rightarrow> 'a list \<Rightarrow> 'a list \<Rightarrow> nat \<times> 'a list \<Rightarrow> bool" where
  "keeps first stop xs kept result \<longleftrightarrow> fst result = first + length kept \<and> length (snd result) = length xs \<and>
     take (fst result) (snd result) = take first xs @ kept \<and> drop stop (snd result) = drop stop xs"

lemma keepsI:
  "xs = ps @ rs @ ss \<Longrightarrow> first = length ps \<Longrightarrow> stop = length ps + length rs \<Longrightarrow> length kept + length js = length rs \<Longrightarrow>
   keeps first stop xs kept (length (ps @ kept), ps @ kept @ js @ ss)"
  by (simp add: keeps_def)

lemma remove_with_ok:
  assumes "first \<le> stop" "stop \<le> length xs"
  shows "keeps first stop xs (filter (\<lambda>x. \<not> p x) (range_of first stop xs)) (remove_with tag p first stop xs)"
proof -
  obtain ps rs ss where parts: "xs = ps @ rs @ ss" "first = length ps" "stop = length ps + length rs"
    "rs = range_of first stop xs" "ps = take first xs" "ss = drop stop xs" by (rule range_parts_ex [OF assms])
  define f where "f = find_if tag (iter_pred p xs) first stop"
  have f: "first_at (\<lambda>i. p (xs ! i)) first stop f"
    using find_if_first [OF assms(1), of "iter_pred p xs" tag] by (simp add: f_def position_preds)
  have fb: "first \<le> f" "f \<le> stop" using f by (simp_all add: first_at_def)
  define as bs where "as = range_of first f xs" and "bs = range_of f stop xs"
  have "\<forall>x \<in> set as. \<not> p x" using f fb assms(2) by (auto simp: as_def set_range_of first_at_def)
  then have skip: "filter (\<lambda>x. \<not> p x) as = as" by (simp add: filter_id_conv)
  have rs: "rs = as @ bs" unfolding parts(4) as_def bs_def by (rule range_of_append [OF fb])
  have len: "length as = f - first" "length bs = stop - f" using fb assms by (simp_all add: as_def bs_def length_range_of)
  show ?thesis
  proof (cases "f = stop")
    case True
    then have "bs = []" using len by simp
    have "remove_with tag p first stop xs = (f, xs)" using True by (simp add: remove_with_def f_def [symmetric] Let_def)
    moreover have "f = length (ps @ filter (\<lambda>x. \<not> p x) rs)" "xs = ps @ filter (\<lambda>x. \<not> p x) rs @ [] @ ss"
      using True skip \<open>bs = []\<close> parts(1,3) by (simp_all add: rs)
    moreover have "keeps first stop xs (filter (\<lambda>x. \<not> p x) rs)
        (length (ps @ filter (\<lambda>x. \<not> p x) rs), ps @ filter (\<lambda>x. \<not> p x) rs @ [] @ ss)"
      using skip \<open>bs = []\<close> by (intro keepsI [OF parts(1-3)]) (simp add: rs)
    ultimately show ?thesis unfolding parts(4) [symmetric] by (simp only:)
  next
    case False
    then have lt: "f < stop" using fb by simp
    then obtain b us where bs: "bs = b # us" using len(2) by (cases bs) auto
    have "bs ! 0 = xs ! f" unfolding bs_def using nth_range_of [of 0 stop f xs] lt assms(2) by simp
    then have "p b" using f lt bs by (simp add: first_at_def)
    obtain js where js: "length js = 1 + length (filter p us)"
      "remove_loop p (length (ps @ as)) (length ((ps @ as) @ [b])) (length ((ps @ as) @ [b] @ us)) ((ps @ as) @ [b] @ us @ ss) =
        (length ((ps @ as) @ filter (\<lambda>x. \<not> p x) us), (ps @ as) @ filter (\<lambda>x. \<not> p x) us @ js @ ss)"
      using remove_loop_parts [of "[b]" p us "ps @ as" ss] by auto
    have e: "length (ps @ as) = f" "length ((ps @ as) @ [b]) = f + 1" "length ((ps @ as) @ [b] @ us) = stop"
      "(ps @ as) @ [b] @ us @ ss = xs" "filter (\<lambda>x. \<not> p x) rs = as @ filter (\<lambda>x. \<not> p x) us"
      using len fb parts(2) skip \<open>p b\<close> by (simp_all add: parts(1) rs bs)
    have "remove_with tag p first stop xs = (length (ps @ filter (\<lambda>x. \<not> p x) rs), ps @ filter (\<lambda>x. \<not> p x) rs @ js @ ss)"
      using False js(2) e by (simp add: remove_with_def f_def [symmetric] Let_def)
    moreover have "keeps first stop xs (filter (\<lambda>x. \<not> p x) rs)
        (length (ps @ filter (\<lambda>x. \<not> p x) rs), ps @ filter (\<lambda>x. \<not> p x) rs @ js @ ss)"
      using js(1) sum_length_filter_compl [of p us] by (intro keepsI [OF parts(1-3)]) (simp add: e(5), simp add: rs bs)
    ultimately show ?thesis unfolding parts(4) [symmetric] by (simp only:)
  qed
qed

text \<open>Of every group of neighbours that the relation holds of with the first of them only that one is left.\<close>

fun squeeze :: "('a \<Rightarrow> 'a \<Rightarrow> bool) \<Rightarrow> 'a list \<Rightarrow> 'a list" where
  "squeeze p (x # y # xs) = (if p x y then squeeze p (x # xs) else x # squeeze p (y # xs))"
| "squeeze p xs = xs"

lemma squeeze_equal: "squeeze (=) xs = remdups_adj xs"
  by (induction "(=) :: 'a \<Rightarrow> 'a \<Rightarrow> bool" xs rule: squeeze.induct) simp_all

lemma squeeze_prefix:
  "(\<forall>i < length as. \<not> p ((as @ [k]) ! i) ((as @ [k]) ! Suc i)) \<Longrightarrow> squeeze p (as @ k # ys) = as @ squeeze p (k # ys)"
proof (induction as)
  case (Cons a as)
  have "\<not> p a ((as @ [k]) ! 0)" "\<forall>i < length as. \<not> p ((as @ [k]) ! i) ((as @ [k]) ! Suc i)"
    using Cons.prems by auto
  then show ?case using Cons.IH by (cases as) auto
qed simp

lemma unique_loop_parts:
  "js \<noteq> [] \<Longrightarrow> \<exists>js'. length js' + length (squeeze p (k # us)) = length ([k] @ js @ us) \<and>
   unique_loop p (length ks) (length (ks @ js)) (length (ks @ [k] @ js @ us)) (ks @ [k] @ js @ us @ ss) =
     (length (ks @ squeeze p (k # us)), ks @ squeeze p (k # us) @ js' @ ss)"
proof (induction us arbitrary: ks k js)
  case Nil
  then show ?case by (intro exI [of _ js]) (subst unique_loop.simps, simp)
next
  case (Cons u us)
  obtain j js1 where js: "js = j # js1" using Cons.prems by (cases js) auto
  have at: "(ks @ [k] @ js @ (u # us) @ ss) ! length ks = k" "(ks @ [k] @ js @ (u # us) @ ss) ! (length (ks @ js) + 1) = u"
    using nth_parts [of ks k "js @ (u # us) @ ss"] nth_parts [of "ks @ [k] @ js" u "us @ ss"] by simp_all
  show ?case
  proof (cases "p k u")
    case False
    have "(ks @ [k] @ js @ (u # us) @ ss)[length ks + 1 := u] = (ks @ [k]) @ [u] @ (js1 @ [u]) @ us @ ss"
      using list_update_parts [of "ks @ [k]" j "js1 @ u # us @ ss" u] by (simp add: js)
    then have "unique_loop p (length ks) (length (ks @ js)) (length (ks @ [k] @ js @ u # us)) (ks @ [k] @ js @ (u # us) @ ss) =
        unique_loop p (length (ks @ [k])) (length ((ks @ [k]) @ js1 @ [u])) (length ((ks @ [k]) @ [u] @ (js1 @ [u]) @ us))
          ((ks @ [k]) @ [u] @ (js1 @ [u]) @ us @ ss)"
      using at False by (subst unique_loop.simps) (simp add: Let_def iter_ops js)
    then show ?thesis using Cons.IH [of "js1 @ [u]" u "ks @ [k]"] False by (auto simp: js)
  next
    case True
    then have "unique_loop p (length ks) (length (ks @ js)) (length (ks @ [k] @ js @ u # us)) (ks @ [k] @ js @ (u # us) @ ss) =
        unique_loop p (length ks) (length (ks @ js @ [u])) (length (ks @ [k] @ (js @ [u]) @ us)) (ks @ [k] @ (js @ [u]) @ us @ ss)"
      using at by (subst unique_loop.simps) (simp add: Let_def iter_ops)
    then show ?thesis using Cons.IH [of "js @ [u]" k ks] True by auto
  qed
qed

lemma unique_with_ok:
  assumes "first \<le> stop" "stop \<le> length xs"
  shows "keeps first stop xs (squeeze p (range_of first stop xs)) (unique_with p first stop xs)"
proof -
  obtain ps rs ss where parts: "xs = ps @ rs @ ss" "first = length ps" "stop = length ps + length rs"
    "rs = range_of first stop xs" "ps = take first xs" "ss = drop stop xs" by (rule range_parts_ex [OF assms])
  define f where "f = adjacent_find_with (iter_comp_iter p xs) first stop"
  have f: "first_at (\<lambda>i. i + 1 < stop \<and> p (xs ! i) (xs ! (i + 1))) first stop f"
    using adjacent_find_ok [OF assms(1), of "iter_comp_iter p xs"] by (simp add: f_def iter_ops)
  have rs_nth: "rs ! i = xs ! (first + i)" if "first + i < stop" for i
    using that assms(2) unfolding parts(4) by (simp add: nth_range_of)
  show ?thesis
  proof (cases "f = stop")
    case True
    have "squeeze p rs = rs"
    proof (cases rs rule: rev_cases)
      case (snoc as k)
      have "\<not> p ((as @ [k]) ! i) ((as @ [k]) ! Suc i)" if "i < length as" for i
        using f True that rs_nth [of i] rs_nth [of "Suc i"] parts(2,3) snoc by (simp add: first_at_def)
      then show ?thesis using squeeze_prefix [of as p k "[]"] snoc by simp
    qed simp
    moreover have "unique_with p first stop xs = (stop, xs)" using True by (simp add: unique_with_def f_def [symmetric] Let_def)
    ultimately show ?thesis unfolding parts(4) [symmetric] using keepsI [OF parts(1-3), of rs "[]"] parts(1-3) by simp
  next
    case False
    then have at: "first \<le> f" "f + 1 < stop" "p (xs ! f) (xs ! (f + 1))"
      "\<forall>i. first \<le> i \<and> i < f \<longrightarrow> \<not> p (xs ! i) (xs ! (i + 1))"
      using f by (auto simp: first_at_def)
    define as us where "as = range_of first f xs" and "us = range_of (f + 2) stop xs"
    have rs: "rs = as @ xs ! f # xs ! (f + 1) # us"
      unfolding parts(4) as_def us_def
      using range_of_append [of first f stop xs] range_of_Cons [of f stop xs] range_of_Cons [of "f + 1" stop xs] at assms(2) by simp
    have len: "length as = f - first" "length us = stop - (f + 2)"
      using at assms(2) by (simp_all add: as_def us_def length_range_of)
    have "\<not> p ((as @ [xs ! f]) ! i) ((as @ [xs ! f]) ! Suc i)" if "i < length as" for i
    proof -
      have "(as @ [xs ! f]) ! j = xs ! (first + j)" if "j \<le> length as" for j
        using that at(1,2) assms(2) len(1) by (cases "j = length as") (auto simp: nth_append as_def nth_range_of)
      then show ?thesis using at(1,4) that len(1) by simp
    qed
    then have squeezed: "squeeze p rs = as @ squeeze p (xs ! f # us)"
      using squeeze_prefix [of as p "xs ! f" "xs ! (f + 1) # us"] at(3) by (simp add: rs)
    obtain js where js: "length js + length (squeeze p (xs ! f # us)) = 2 + length us"
      "unique_loop p (length (ps @ as)) (length ((ps @ as) @ [xs ! (f + 1)])) (length ((ps @ as) @ [xs ! f] @ [xs ! (f + 1)] @ us))
          ((ps @ as) @ [xs ! f] @ [xs ! (f + 1)] @ us @ ss) =
        (length ((ps @ as) @ squeeze p (xs ! f # us)), (ps @ as) @ squeeze p (xs ! f # us) @ js @ ss)"
      using unique_loop_parts [of "[xs ! (f + 1)]" p "xs ! f" us "ps @ as" ss] by auto
    have e: "length (ps @ as) = f" "length ((ps @ as) @ [xs ! (f + 1)]) = f + 1"
      "length ((ps @ as) @ [xs ! f] @ [xs ! (f + 1)] @ us) = stop" "(ps @ as) @ [xs ! f] @ [xs ! (f + 1)] @ us @ ss = xs"
      using len at parts(2) parts(1) [symmetric] by (simp_all add: rs)
    have "unique_with p first stop xs = unique_loop p f (f + 1) stop xs"
      using False by (simp add: unique_with_def f_def [symmetric] Let_def)
    also have "\<dots> = (length ((ps @ as) @ squeeze p (xs ! f # us)), (ps @ as) @ squeeze p (xs ! f # us) @ js @ ss)"
      using js(2) unfolding e .
    also have "\<dots> = (length (ps @ squeeze p rs), ps @ squeeze p rs @ js @ ss)" by (simp add: squeezed)
    finally have "unique_with p first stop xs = (length (ps @ squeeze p rs), ps @ squeeze p rs @ js @ ss)" .
    moreover have "length (squeeze p rs) + length js = length rs" using js(1) unfolding squeezed by (simp add: rs)
    ultimately show ?thesis unfolding parts(4) [symmetric] using keepsI [OF parts(1-3)] by simp
  qed
qed

section \<open>The partition point\<close>

lemma partition_point_lower: "partition_point_loop p first len xs = lower_bound_loop (\<lambda>xs i v. p (xs ! i)) first len v xs"
proof (induction p first len xs rule: partition_point_loop.induct)
  case (1 p first len xs)
  then show ?case by (subst partition_point_loop.simps, subst lower_bound_loop.simps) (simp add: Let_def)
qed

lemma split_point_unique: "split_point P first stop r \<Longrightarrow> split_point P first stop s \<Longrightarrow> r = s"
  unfolding split_point_def by (metis le_refl less_le_trans linorder_neqE_nat)

lemma partition_point_split:
  assumes "split_point (\<lambda>i. p (xs ! i)) first stop r"
  shows "partition_point first stop p xs = r"
proof -
  have "first + (stop - first) = stop" using assms by (auto simp: split_point_def)
  moreover have "partitioned (\<lambda>i. p (xs ! i)) first stop"
    unfolding partitioned_def using assms by (auto simp: split_point_def) (meson less_trans not_le)
  ultimately have "split_point (\<lambda>i. p (xs ! i)) first stop (partition_point first stop p xs)"
    using lower_bound_loop_split [of "\<lambda>xs i v. p (xs ! i)" xs "0 :: nat" first "stop - first"]
    by (simp add: partition_point_def partition_point_lower [where v = "0 :: nat"])
  then show ?thesis using assms split_point_unique by blast
qed

lemma is_partitioned_split:
  assumes "split_point (\<lambda>i. p (xs ! i)) first stop r"
  shows "is_partitioned tag (iter_pred p xs) first stop"
proof -
  have le: "first \<le> stop" using assms by (simp add: split_point_def)
  have "first_at (\<lambda>i. \<not> p (xs ! i)) first stop (find_if_not tag (iter_pred p xs) first stop)"
    using find_if_first [OF le, of "\<lambda>i. \<not> iter_pred p xs i" tag] by (simp add: find_if_not_def iter_ops)
  moreover have "first_at (\<lambda>i. \<not> p (xs ! i)) first stop r" using assms by (auto simp: split_point_def first_at_def)
  ultimately have r: "find_if_not tag (iter_pred p xs) first stop = r" by (rule first_at_unique)
  show ?thesis
    using assms quantifiers_ok(2) [of "r + 1" stop tag "iter_pred p xs"]
    by (auto simp: is_partitioned_def r Let_def split_point_def iter_ops)
qed

section \<open>The properties\<close>

lemma copies_filter:
  "remove_copy_with p xs = filter (\<lambda>x. \<not> p x) xs" "copy_if p xs = filter p xs"
  "partition_copy p xs = (filter p xs, filter (\<lambda>x. \<not> p x) xs)"
  by (induction xs) simp_all

lemma unique_copy_loop_squeeze: "x # unique_copy_loop p x xs = squeeze p (x # xs)"
  by (induction xs arbitrary: x) auto

lemma unique_copy_value_loop_eq:
  "(\<And>x y. p x y = p y x) \<Longrightarrow> unique_copy_value_loop p x xs = unique_copy_loop p x xs"
  by (induction xs arbitrary: x) auto

text \<open>C17: \<open>partition\<close>, for every category of iterators, returns the point up to which the elements of the range have the
  property and behind which none has it, and only permutes the range; \<open>stable_partition\<close> puts those with the property
  in their order before the others in theirs, however small the buffer it got is, none included, and returns that
  point. Of what either leaves \<open>is_partitioned\<close> is true and \<open>partition_point\<close> finds the point again.\<close>

theorem partitions_split:
  assumes "first \<le> stop" "stop \<le> length xs"
  shows "(case partition_range tag first stop p xs of (r, ys) \<Rightarrow>
      permutes_range first stop xs ys \<and> split_point (\<lambda>i. p (ys ! i)) first stop r \<and>
      is_partitioned tag (iter_pred p ys) first stop \<and> partition_point first stop p ys = r) \<and>
    (case stable_partition tag pod buffer_size first stop p xs of (r, ys) \<Rightarrow>
      ys = take first xs @ filter p (range_of first stop xs) @ filter (\<lambda>x. \<not> p x) (range_of first stop xs) @ drop stop xs \<and>
      split_point (\<lambda>i. p (ys ! i)) first stop r \<and>
      is_partitioned tag (iter_pred p ys) first stop \<and> partition_point first stop p ys = r)"
proof -
  obtain r ys where run: "partition_range tag first stop p xs = (r, ys)" by fastforce
  note ok = partition_range_ok [OF assms run, unfolded splits_def]
  let ?R = "range_of first stop xs"
  define t where "t = length (filter p ?R)"
  define zs where "zs = take first xs @ parted p ?R @ drop stop xs"
  have stable: "stable_partition tag pod buffer_size first stop p xs = (first + t, zs)"
    using stable_partition_ok [OF assms, of tag pod buffer_size p] by (simp add: t_def zs_def)
  have len: "t + length (filter (\<lambda>x. \<not> p x) ?R) = stop - first"
    using assms sum_length_filter_compl [of p ?R] by (simp add: t_def length_range_of)
  have "p (zs ! i)" if "first \<le> i" "i < first + t" for i
  proof -
    have "zs ! i = filter p ?R ! (i - first)" using that assms by (simp add: zs_def parted_def nth_append t_def)
    moreover have "filter p ?R ! (i - first) \<in> set (filter p ?R)" using that by (intro nth_mem) (auto simp: t_def)
    ultimately show ?thesis by simp
  qed
  moreover have "\<not> p (zs ! i)" if "first + t \<le> i" "i < stop" for i
  proof -
    have "zs ! i = filter (\<lambda>x. \<not> p x) ?R ! (i - first - t)"
      using that assms len by (auto simp: zs_def parted_def nth_append t_def)
    moreover have "filter (\<lambda>x. \<not> p x) ?R ! (i - first - t) \<in> set (filter (\<lambda>x. \<not> p x) ?R)"
      using that len assms by (intro nth_mem) auto
    ultimately show ?thesis by simp
  qed
  ultimately have split: "split_point (\<lambda>i. p (zs ! i)) first stop (first + t)"
    using len assms by (auto simp: split_point_def)
  show ?thesis
    using ok is_partitioned_split [of p ys first stop r tag] partition_point_split [of p ys first stop r]
      split is_partitioned_split [OF split, of tag] partition_point_split [OF split]
    by (simp add: run stable zs_def [symmetric], simp add: zs_def parted_def)
qed

theorem partitions_split_witness:
  "stable_partition Forward_iterator False 1 1 7 even [9, 3, 2, 5, 4, 6, 1, 8 :: nat] = (4, [9, 2, 4, 6, 3, 5, 1, 8]) \<and>
   partition_point 1 7 even [9, 2, 4, 6, 3, 5, 1, 8 :: nat] = 4"
proof -
  have "stable_partition Forward_iterator False 1 1 7 even [9, 3, 2, 5, 4, 6, 1, 8 :: nat] = (4, [9, 2, 4, 6, 3, 5, 1, 8])"
    by code_simp
  with partitions_split [where first = 1 and stop = 7 and xs = "[9, 3, 2, 5, 4, 6, 1, 8 :: nat]" and tag = Forward_iterator
      and p = even and pod = False and buffer_size = 1] show ?thesis by simp
qed

text \<open>\<open>remove_if\<close> moves the elements that stay, in their order, to the beginning of the range and returns their end;
  \<open>unique\<close> the first element of every group of neighbours related to it. The rest of the list and its length stay. The
  copying variants write the same: \<open>remove_copy_if\<close>, and for a symmetric relation every variant of \<open>unique_copy\<close>; for
  \<open>==\<close> no two neighbours of what \<open>unique\<close> leaves are equal.\<close>

theorem removals_keep:
  assumes "first \<le> stop" "stop \<le> length xs" "\<And>x y. q x y = q y x"
  shows "keeps first stop xs (filter (\<lambda>x. \<not> p x) (range_of first stop xs)) (remove_if tag first stop p xs) \<and>
    keeps first stop xs (squeeze q (range_of first stop xs)) (unique_comp q first stop xs) \<and>
    keeps first stop xs (remdups_adj (range_of first stop xs)) (unique first stop xs) \<and>
    remove_copy_if p (range_of first stop xs) = filter (\<lambda>x. \<not> p x) (range_of first stop xs) \<and>
    unique_copy_comp tag forward_result q (range_of first stop xs) = squeeze q (range_of first stop xs)"
proof -
  have "unique_copy_comp tag forward_result q ys = squeeze q ys" for ys
    using unique_copy_loop_squeeze [of _ q] unique_copy_value_loop_eq [of q, OF assms(3)]
    by (cases ys) (simp_all add: unique_copy_comp_def unique_copy_with_def)
  then show ?thesis
    using remove_with_ok [OF assms(1,2), of p tag] unique_with_ok [OF assms(1,2), of q] unique_with_ok [OF assms(1,2), of "(=)"]
    by (simp add: remove_if_def unique_comp_def unique_def squeeze_equal remove_copy_if_def copies_filter)
qed

theorem removals_keep_witness:
  "unique 1 7 [9, 3, 3, 5, 5, 5, 3, 3 :: nat] = (4, [9, 3, 5, 3, 5, 5, 3, 3]) \<and>
   keeps 1 7 [9, 3, 3, 5, 5, 5, 3, 3] [3, 5, 3] (4, [9, 3, 5, 3, 5, 5, 3, 3 :: nat])"
proof -
  have run: "unique 1 7 [9, 3, 3, 5, 5, 5, 3, 3 :: nat] = (4, [9, 3, 5, 3, 5, 5, 3, 3])" by code_simp
  have "remdups_adj (range_of 1 7 [9, 3, 3, 5, 5, 5, 3, 3 :: nat]) = [3, 5, 3]" by (simp add: range_of_def)
  with removals_keep [where first = 1 and stop = 7 and xs = "[9, 3, 3, 5, 5, 5, 3, 3 :: nat]" and q = "(=)"] run show ?thesis by auto
qed

end
