(* ===== verification/Spec2Isabelle.thy ===== *)
theory Spec2Isabelle
  imports Prelude Machine Lib_String Lock Hash_Table E9print Boot Free_List Frame_Source
    Frame_Allocator Paging Page_Tables Page_Mapper Page_Map Kernel_Space
    Malloc Heap Io_Port Console Descriptors Renderer Timer Acpi Ioapic Smp Process Process_Lists Scheduler Dispatch Isr
    Kernel_Entry Kernel_Boot Stl_Ops Stl_Heap Stl_Search Stl_Sort Stl_Introsort Stl_Select Stl_Merge
    Stl_Rotate Stl_Stable Stl_Permutation Stl_Max_Size Stl_Scan Stl_Compare Stl_Partition
begin

text \<open>
  OptimistOS is a kernel for x86-64 that the Limine boot loader starts. This development models the C++
  code under \<open>src/kernel\<close> (and what its assembly does) and proves what it does, including where it does not
  do what it means to.

  \<^bold>\<open>The program.\<close> Limine enters \<open>_start\<close> (\<open>boot.cpp\<close>), which turns Limine's answers into a \<open>bootInfo\<close> and
  calls \<open>setupOptimist\<close> (\<open>kernelEntry.cpp\<close>). That brings the components up in order: renderer, segments
  (\<open>gdt\<close>), interrupt gates (\<open>idt\<close>), page tables (\<open>paging\<close>, which take frames from the page frame
  allocator), ACPI tables, local and I/O APIC (\<open>acpi\<close>), the other processors (\<open>smp\<close>), two processes
  (\<open>process\<close>, whose structures come from the heap in \<open>memory/malloc.cpp\<close>) and the timer. From then on the timer's
  interrupt handler (\<open>idt/isr.cpp\<close>) calls \<open>runThread\<close> (\<open>scheduler\<close>). Components share globals and the
  memory; spin locks (\<open>lib/lock.cpp\<close>) guard some of them. The kernel also ships the headers of a C++ library
  (\<open>include/bits\<close>), whose algorithms are modelled for themselves.

  \<^bold>\<open>State and errors.\<close> The state is one record that every component extends by its globals: \<open>machine\<close>
  (memory, log of output) \<open>\<rightarrow> boot_state \<rightarrow> frame_state \<rightarrow> paging_state \<rightarrow> heap_state \<rightarrow> descriptor_state \<rightarrow>
  timer_state \<rightarrow> acpi_state \<rightarrow> smp_state \<rightarrow> process_state \<rightarrow> isr_state\<close>. Operations are polymorphic in what
  later components add. Structures that the code reaches through pointers stay in memory, at the
  offsets of their fields, so aliasing and overlapping writes are what they are in the code. A routine
  gives an \<open>outcome\<close>: it returns, halts (\<open>hlt\<close> is the kernel's panic), never returns, or has no defined
  behaviour. Machine integers are words of their width. Loops without an obvious end are
  \<open>partial_function (option)\<close>, so that not returning is the value \<open>None\<close> and returning is something that is
  proved; no fuel is used anywhere. The only bounds are those the code itself has.

  \<^bold>\<open>Theories of the kernel.\<close>
  \<^item> \<open>Prelude\<close>, \<open>Machine\<close>, \<open>Console\<close>: outcomes, memory cells of 1 to 8 bytes (locale \<open>cell_access\<close>),
    regions, printing.
  \<^item> \<open>Lib_String\<close>, \<open>Lock\<close>, \<open>Hash_Table\<close>, \<open>E9print\<close>: the routines of \<open>lib\<close>, the spin lock alone and as a
    system of interleaving processors (\<open>lock_step\<close>, mutual exclusion), the table of allocation sizes, the
    debug console with its number formats (numerals read back as the number).
  \<^item> \<open>Boot\<close>: \<open>boot.cpp\<close> up to \<open>setupOptimist\<close>; when it returns and what it publishes.
  \<^item> \<open>Free_List\<close>, \<open>Frame_Allocator\<close>: \<open>pageFrameAllocator.cpp\<close>, \<open>freeList.cpp\<close>; the invariant \<open>alloc_ok\<close>, every
    branch of \<open>allocateFrame\<close>, and by the locale \<open>frame_source\<close> (\<open>Frame_Source\<close>) what a sequence of
    allocations gives.
  \<^item> \<open>Paging\<close>, \<open>Page_Tables\<close>, \<open>Page_Map\<close>, \<open>Page_Mapper\<close>, \<open>Kernel_Space\<close>: \<open>paging.cpp\<close> and \<open>paging.hpp\<close>.
    \<open>Page_Tables\<close> is the abstract side: \<open>walk\<close>, the translation the processor makes, and the invariant that
    tables form a tree. \<open>Page_Map\<close> shows that \<open>map\<close> implements the update of one translation; the locale
    \<open>mapper\<close> lifts that to lists of pages; \<open>Kernel_Space\<close> gives the address space that \<open>initPaging\<close>
    builds (the first 4 GB twice, the entries of the memory map from 4 GB up, the image) and what \<open>newPML4\<close> shares.
  \<^item> \<open>Malloc\<close>, \<open>Heap\<close>: \<open>malloc.cpp\<close>; the pool \<open>initNodes\<close> builds, halving, joining and giving back, and the
    requests that go wrong.
  \<^item> \<open>Descriptors\<close>, \<open>Isr\<close>: \<open>gdt\<close>, \<open>idt\<close>, \<open>isr.cpp\<close>, \<open>isr.asm\<close>; where each gate leads, the frame the stub
    builds, what the handlers read from it.
  \<^item> \<open>Renderer\<close>, \<open>Io_Port\<close>, \<open>Timer\<close>, \<open>Acpi\<close>, \<open>Ioapic\<close>, \<open>Smp\<close>: the drivers.
  \<^item> \<open>Process\<close>, \<open>Process_Lists\<close>, \<open>Scheduler\<close>, \<open>Dispatch\<close>: \<open>process.cpp\<close> and \<open>scheduler.cpp\<close>. The lists in memory
    are related to Isabelle's lists (\<open>thread_list\<close>, \<open>chained\<close>), on which \<open>prioritySort\<close> is a stable sort and
    registration appends; \<open>runThread\<close> ends in the register file that the switch loads.
  \<^item> \<open>Kernel_Entry\<close>, \<open>Kernel_Boot\<close>: \<open>kernelEntry.cpp\<close> over all components. The property of this theory puts
    boot, screen, descriptor tables, frame allocator and page tables together.

  \<^bold>\<open>Theories of the C++ library.\<close> \<open>Stl_Ops\<close> (function objects, the locale \<open>weak_order\<close> of the comparisons the
  library demands, permutations of a range), \<open>Stl_Heap\<close> (\<open>stl_heap.h\<close>), \<open>Stl_Search\<close> (binary search),
  \<open>Stl_Sort\<close>, \<open>Stl_Introsort\<close>, \<open>Stl_Select\<close> (\<open>sort\<close>, \<open>partial_sort\<close>, \<open>nth_element\<close>), \<open>Stl_Merge\<close> (merge and set
  operations), \<open>Stl_Rotate\<close> (\<open>reverse\<close>, \<open>rotate\<close>), \<open>Stl_Stable\<close> (\<open>inplace_merge\<close>, shown to implement the plain
  merge, and \<open>stable_sort\<close>), \<open>Stl_Permutation\<close> (dictionary order and the permutations in it), \<open>Stl_Scan\<close>
  (linear searches), \<open>Stl_Compare\<close> (extrema, \<open>is_sorted\<close>, \<open>is_permutation\<close>), \<open>Stl_Partition\<close> (\<open>partition\<close>, \<open>remove\<close>,
  \<open>unique\<close>; its \<open>stable_partition\<close> is the code under \<open>_GLIBCXX_HOSTED\<close>, which the freestanding kernel does not
  compile, with the buffer's size as an argument), \<open>Stl_Max_Size\<close> (\<open>max_size_type.h\<close>, shown to implement 129-bit words). A range is a list and an iterator a position in it; an access outside the list, where the code
  relies on a sentinel, is \<open>None\<close>. The overloads without a comparison are those for \<open><\<close>. Moves of objects are
  copies, and the concept checks of the headers, which are empty macros here, have no counterpart.

  \<^bold>\<open>Not under \<open>src\<close>, so arguments of the model.\<close> Limine's answers (records of the fields the code reads),
  what devices answer to reads of ports and registers (\<open>device\<close>), what other processors and interrupts do
  while a routine waits (\<open>env\<close>), addresses that the linker chooses (\<open>platform\<close>), and the values of variables
  that the code reads before it sets them (\<open>wild\<close>).

  \<^bold>\<open>Not modelled.\<close> Memory is indexed by the address the code dereferences: that two virtual addresses may
  lead to the same byte once page tables are loaded, and page faults, are outside the model; the
  translations themselves are modelled and proved. Caches, the order in which other processors see
  writes, and timing are not modelled; of the memory map from 4 GB up, entries that are not multiples of 2 MB are
  modelled (\<open>init_entry\<close>) but the properties assume there are none; neither is the C++ library beyond the algorithms named above: types,
  iterators, traits, strings and containers, of which the kernel uses only type names, and the
  algorithms the kernel never instantiates that are left (\<open>mismatch\<close> and \<open>equal\<close>, and those that write: copying,
  filling, transforming, generating, replacing, sampling).
\<close>

text \<open>
  C1: the start of the kernel up to the end of \<open>initPaging\<close>, across the components. The machine has allocated
  nothing yet, and the boot loader's answers are such that
  \<^item> the boot phase returns (\<open>start_boot_returns_iff\<close> says when that is);
  \<^item> the region with the most free memory is page-aligned, lies below 2 to the 52, and is large enough for the
    tables (\<open>paging_needs\<close> and \<open>memmap_needs\<close>; with less the frame allocator halts the machine);
  \<^item> the higher-half offset is a multiple of 1 GB whose first 4 GB neither meet the addresses below 4 GB nor
    wrap around (\<open>offset_ok\<close>), and the image lies above 4 GB, page-aligned and apart from the higher half (\<open>blob_ok\<close>);
  \<^item> the entries of the memory map that start at 4 GB or above are multiples of 2 MB, do not overlap and fit
    above the offset (\<open>memmap_ok\<close>); of the entries that start below nothing is asked.

  Then the run reaches the set-up of the devices, and there the processor translates the first 4 GB to
  themselves and from the higher half, the entries of the memory map from 4 GB up from the higher half,
  and the kernel image to its place, on well-formed page tables with the lock free.
\<close>

theorem kernel_start_maps_memory:
  assumes "start_boot (pl_limine p) s = Done () s1"
    and "frame_head s = 0" "paging_mutex s = 0" "hhdmOffset (memory (bootInformation s)) = 0"
    and "lim_hhdm_offset (pl_limine p) = Some off" "lim_memmap (pl_limine p) = Some es"
      "lim_kernel_address (pl_limine p) = Some ka"
    and "memmap_scan (physical_base ka) es = (b, n, k)" "page_aligned b" "unat b + unat n \<le> 2 ^ 52"
      "unat off + unat b + unat n + 40 \<le> 2 ^ 64" "offset_ok off" "memmap_ok off hi es"
    and "blob_ok ka off hi (blob_first (blob_begin p)) (blob_pages (blob_begin p) (blob_size p))"
      "paging_needs (blob_pages (blob_begin p) (blob_size p)) + memmap_needs es \<le> unat n"
  shows "\<exists>s'. kernel_start p env s =
      obind (setup_devices p env s') (\<lambda>_ s. obind (setup_processes p s) (\<lambda>_ s. Loops)) \<and>
    image_mapped off es ka (blob_first (blob_begin p)) (blob_pages (blob_begin p) (blob_size p)) s'"
proof -
  let ?m = "\<lparr>freeMemStart = b, extraMemStart = b, freeMemSize = n, kernelStart = physical_base ka,
    kernelSize = k, kernelStartV = virtual_base ka, hhdmOffset = off\<rparr>"
  have "\<exists>s1. start_boot (pl_limine p) s = Done () s1" using assms(1) by blast
  then obtain t f fs ms fl where lim: "lim_terminal_count (pl_limine p) = Some (Suc t)"
    "lim_framebuffers (pl_limine p) = Some (f # fs)" "b \<noteq> 0" "lim_modules (pl_limine p) = Some ms"
    "getFile ms = Some (Some fl)" "mem s (file_address fl) = PSF1_MAGIC0" "mem s (file_address fl + 1) = PSF1_MAGIC1"
    unfolding start_boot_Done_iff using assms(6-8) by auto
  from start_boot_exact [OF lim(1,2) assms(6,7,8) lim(3-7) assms(5)] assms(1)
  obtain g where g: "mm_view s1 = (0, bootInformation s, g, 0)" "memory g = ?m"
    using assms(2,3) by (auto simp: mm_view_def)
  obtain s2 where s2: "setup_screen p s1 = Done () s2" "mm_view s2 = mm_view s1" using setup_screen_view by blast
  have view: "mm_view s2 = (0, bootInformation s, g, 0)" using s2(2) g(1) by simp
  obtain s3 where s3: "setup_memory p s2 = Done () s3"
    "image_mapped off es ka (blob_first (blob_begin p)) (blob_pages (blob_begin p) (blob_size p)) s3"
    using setup_memory_ok [OF view assms(4) g(2), of p es ka hi] assms(5-15) lim(3) by auto
  show ?thesis using kernel_start_steps [OF assms(1) s2(1) s3(1)] s3(2) by blast
qed

theorem kernel_start_maps_memory_witness:
  "\<forall>p env (s :: isr_state). \<exists>s'.
     kernel_start (p\<lparr>pl_limine := limine_sample, blob_begin := 0xFFFFFFFF80000000, blob_size := 0x20000\<rparr>) env
       (s\<lparr>mem := mem boot_sample, frame_head := 0, paging_mutex := 0, bootInformation := zero_bootInfo\<rparr>) =
     obind (setup_devices (p\<lparr>pl_limine := limine_sample, blob_begin := 0xFFFFFFFF80000000, blob_size := 0x20000\<rparr>) env s')
       (\<lambda>_ s. obind (setup_processes
          (p\<lparr>pl_limine := limine_sample, blob_begin := 0xFFFFFFFF80000000, blob_size := 0x20000\<rparr>) s) (\<lambda>_ s. Loops)) \<and>
     maps_to s' 0xB8000 0xB8000 \<and> maps_to s' 0xFFFF800123456789 0x123456789 \<and> maps_to s' 0xFFFFFFFF80001234 0x7FE1234"
proof (intro allI)
  fix p :: platform and env and s :: isr_state
  let ?p = "p\<lparr>pl_limine := limine_sample, blob_begin := 0xFFFFFFFF80000000, blob_size := 0x20000\<rparr>"
  let ?s = "s\<lparr>mem := mem boot_sample, frame_head := 0, paging_mutex := 0, bootInformation := zero_bootInfo\<rparr>"
  let ?ka = "\<lparr>ka_revision = 0, physical_base = 0x7FE0000, virtual_base = 0xFFFFFFFF80000000\<rparr> :: limine_kernel_address"
  let ?off = "0xFFFF800000000000 :: u64"
  have lim: "lim_hhdm_offset (pl_limine ?p) = Some ?off" "lim_memmap (pl_limine ?p) = Some memmap_sample"
    "lim_kernel_address (pl_limine ?p) = Some ?ka" by (simp_all add: limine_sample_def)
  have scan: "memmap_scan (physical_base ?ka) memmap_sample = (0x100000, 0x7EE0000, 0x20000)"
    by (simp add: memmap_sample_scan)
  have "\<exists>s1. start_boot limine_sample ?s = Done () s1"
  proof -
    have "checkStringEndsWith ''/zap-light16.psf'' ''zap-light16.psf'' = Some True"
      using checkStringEndsWith_eq [of "''/zap-light16.psf''" "''zap-light16.psf''"]
      by (auto simp: Cons_eq_append_conv)
    then show ?thesis
      unfolding start_boot_Done_iff using memmap_sample_scan
      by (auto simp: limine_sample_def boot_sample_def PSF1_MAGIC0_def PSF1_MAGIC1_def)
  qed
  then obtain s1 where s1: "start_boot (pl_limine ?p) ?s = Done () s1" by auto
  have fresh: "frame_head ?s = 0" "paging_mutex ?s = 0" "hhdmOffset (memory (bootInformation ?s)) = 0"
    by (simp_all add: zero_bootInfo_def zero_Memory_def)
  have region: "page_aligned 0x100000" "unat (0x100000 :: u64) + unat (0x7EE0000 :: u64) \<le> 2 ^ 52"
    "unat ?off + unat (0x100000 :: u64) + unat (0x7EE0000 :: u64) + 40 \<le> 2 ^ 64" "offset_ok ?off"
    by (simp_all add: page_aligned_def offset_ok_def)
  let ?e = "\<lparr>me_base = 0x100000000, me_length = 0x40000000, me_type = LIMINE_MEMMAP_RESERVED\<rparr> :: limine_memmap_entry"
  have e: "?e \<in> set memmap_sample" "is_high ?e" by (simp_all add: memmap_sample_def)
  have map: "memmap_ok ?off 0x140000000 memmap_sample"
    by (simp add: memmap_ok_def high_entry_ok_def memmap_sample_def)
  have blob: "blob_ok ?ka ?off 0x140000000 (blob_first (blob_begin ?p)) (blob_pages (blob_begin ?p) (blob_size ?p))"
    "paging_needs (blob_pages (blob_begin ?p) (blob_size ?p)) + memmap_needs memmap_sample \<le> unat (0x7EE0000 :: u64)"
    by (simp_all add: blob_sample blob_ok_def page_aligned_def image_frame_def paging_needs_def memmap_needs_def
        entry_needs_def memmap_sample_def)
  obtain s' where s': "kernel_start ?p env ?s =
      obind (setup_devices ?p env s') (\<lambda>_ s. obind (setup_processes ?p s) (\<lambda>_ s. Loops))"
    "image_mapped ?off memmap_sample ?ka (blob_first (blob_begin ?p)) (blob_pages (blob_begin ?p) (blob_size ?p)) s'"
    using kernel_start_maps_memory [OF s1 fresh lim scan region map blob] by blast
  have "\<forall>e \<in> set memmap_sample. is_high e \<longrightarrow>
      (\<forall>pa. unat (me_base e) \<le> unat pa \<and> unat pa < entry_end e \<longrightarrow> maps_to s' (pa + ?off) pa)"
    using s'(2) unfolding image_mapped_def by blast
  from this [rule_format, OF e, of "0x123456789"] have "maps_to s' (0x123456789 + ?off) 0x123456789" by simp
  then have high: "maps_to s' 0xFFFF800123456789 0x123456789" by simp
  have "\<forall>va. unat va < 2 ^ 32 \<longrightarrow> maps_to s' va va"
    "\<forall>va. unat (va - 0xFFFFFFFF80000000) < 4096 * 32 \<longrightarrow> maps_to s' va (image_frame ?ka va)"
    using s'(2) by (simp_all add: image_mapped_def blob_sample)
  from this(1) [rule_format, of "0xB8000"] this(2) [rule_format, of "0xFFFFFFFF80001234"]
  have "maps_to s' 0xB8000 0xB8000" "maps_to s' 0xFFFFFFFF80001234 0x7FE1234" by (simp_all add: image_frame_def)
  with s'(1) show "\<exists>s'. kernel_start ?p env ?s =
      obind (setup_devices ?p env s') (\<lambda>_ s. obind (setup_processes ?p s) (\<lambda>_ s. Loops)) \<and>
    maps_to s' 0xB8000 0xB8000 \<and> maps_to s' 0xFFFF800123456789 0x123456789 \<and> maps_to s' 0xFFFFFFFF80001234 0x7FE1234"
    using high by blast
qed

end
